(* ===== verification/Prelude.thy ===== *)
theory Prelude
  imports Main "HOL-Library.Word"
begin

text \<open>
  What every component of the model shares: the machine types of the C++ sources
  (\<open>size_t\<close> as a natural number with its largest value written out, \<open>unsigned char\<close>,
  \<open>char16_t\<close> and \<open>char32_t\<close> as words), and the lemma collections the components fill.
\<close>

unbundle bit_operations_syntax

section \<open>Machine types\<close>

type_synonym u8 = "8 word"
type_synonym u16 = "16 word"
type_synonym u32 = "32 word"

text \<open>The largest \<open>size_t\<close>. The code returns it, also written \<open>(size_t) -1\<close>, for "illegal".\<close>

definition SIZE_MAX :: nat where
  "SIZE_MAX = 18446744073709551615"

lemma SIZE_MAX_neq_small [simp]:
  "SIZE_MAX \<noteq> 0" "SIZE_MAX \<noteq> Suc 0" "SIZE_MAX \<noteq> 1" "SIZE_MAX \<noteq> 2" "SIZE_MAX \<noteq> 3" "SIZE_MAX \<noteq> 4"
  "0 \<noteq> SIZE_MAX" "Suc 0 \<noteq> SIZE_MAX" "1 \<noteq> SIZE_MAX" "2 \<noteq> SIZE_MAX" "3 \<noteq> SIZE_MAX" "4 \<noteq> SIZE_MAX"
  by (simp_all add: SIZE_MAX_def)

section \<open>Words read as natural numbers\<close>

named_theorems word_nat \<open>equations that move word operations to natural numbers\<close>

lemma unat_take_bit_nat [word_nat]:
  "unat (take_bit n (w :: 'a::len word)) = unat w mod 2 ^ n"
  by (metis take_bit_eq_mod unsigned_take_bit_eq)

lemma unat_drop_bit_nat [word_nat]:
  "unat (drop_bit n (w :: 'a::len word)) = unat w div 2 ^ n"
  by (metis drop_bit_eq_div unat_drop_bit_eq)

lemma and_mask_numerals [word_nat]:
  "(w :: 'a::len word) AND 7 = take_bit 3 w"
  "w AND 15 = take_bit 4 w"
  "w AND 31 = take_bit 5 w"
  "w AND 63 = take_bit 6 w"
  "w AND 1023 = take_bit 10 w"
  by (simp_all add: take_bit_eq_mask mask_eq_exp_minus_1)

lemma unat_u8: "unat (b :: u8) < 256"
  using unsigned_less[of b] by simp
lemma unat_u32: "unat (b :: u32) < 4294967296"
  using unsigned_less[of b] by simp
lemma unat_push_bit_nat [word_nat]:
  "unat (push_bit n (w :: 'a::len word)) = (unat w * 2 ^ n) mod 2 ^ LENGTH('a)"
  by (metis push_bit_eq_mult take_bit_eq_mod unsigned_push_bit_eq)
lemma unat_ucast_u8_u32 [word_nat]: "unat (ucast (b :: u8) :: u32) = unat b"
  using unat_u8[of b] by (simp add: unsigned_ucast_eq take_bit_eq_mod) 
lemma or_push_nat:
  assumes "unat y < 2 ^ n" "unat x * 2 ^ n + unat y < 2 ^ LENGTH('a)"
  shows "unat (push_bit n (x::'a::len word) OR y) = unat x * 2 ^ n + unat y"
proof -
  have y: "take_bit n y = y"
    using assms(1) by (metis unat_take_bit_nat mod_less word_unat_eq_iff)
  have "push_bit n x OR y = push_bit n x + y"
  proof (rule disjunctive_add_eq_or[symmetric], rule bit_word_eqI)
    fix m
    have "bit y m \<Longrightarrow> m < n" using y by (metis bit_take_bit_iff)
    then show "bit (push_bit n x AND y) m = bit 0 m"
      by (auto simp: bit_simps)
  qed
  then show ?thesis
    using assms by (simp add: unat_word_ariths word_nat)
qed

lemma unat_ucast_u32_u8 [word_nat]: "unat (ucast (b :: u32) :: u8) = unat b mod 256"
  by (simp add: unsigned_ucast_eq take_bit_eq_mod) 

lemma map_unat_eq: "map unat xs = map unat ys \<Longrightarrow> xs = (ys :: 'a::len word list)"
  by (rule map_injective) (auto simp: inj_def word_unat_eq_iff)

end
