(* ===== verification/Codec.thy ===== *)
theory Codec
  imports Prelude
begin

text \<open>
  The interface between a code-point peeker, its emitter and the string loops built on
  them. \<open>src/src/utility/characters.impl.h\<close> has two such pairs (UTF-8 bytes and UTF-16 code
  units) and runs the same loop over both: peek, stop on \<open>0\<close> or \<open>(size_t) -1\<close>, push the code
  point, advance. The laws are stated once; \<open>Utf8\<close> and \<open>Utf16\<close> interpret them.
\<close>

text \<open>A step that read nothing or failed; every loop over a peeker stops there.\<close>

abbreviation bad_step :: "nat \<Rightarrow> bool" where
  "bad_step n \<equiv> n = 0 \<or> n = SIZE_MAX"

definition is_valid_codepoint :: "u32 \<Rightarrow> bool" where
  "is_valid_codepoint cp \<longleftrightarrow> cp \<le> 0x10FFFF \<and> \<not> (0xD800 \<le> cp \<and> cp \<le> 0xDFFF)"

locale codec =
  fixes peek :: "'u list \<Rightarrow> nat \<times> u32"
    and emit :: "u32 \<Rightarrow> 'u list"
    and decode :: "'u list \<Rightarrow> u32 list"
  assumes peek_iff: "peek s = (n, cp) \<and> \<not> bad_step n \<longleftrightarrow>
      is_valid_codepoint cp \<and> n = length (emit cp) \<and> (\<exists>rest. s = emit cp @ rest)"
    and decode_eq: "decode s =
      (if s = [] then []
       else case peek s of (n, cp) \<Rightarrow> if bad_step n then [] else cp # decode (drop n s))"
begin

lemma peek_emit: "is_valid_codepoint cp \<Longrightarrow> peek (emit cp @ rest) = (length (emit cp), cp)"
  using peek_iff by blast

lemma emit_step: "is_valid_codepoint cp \<Longrightarrow> \<not> bad_step (length (emit cp))"
  using peek_iff[of "emit cp @ []"] by blast

lemma decode_step: "is_valid_codepoint cp \<Longrightarrow> decode (emit cp @ rest) = cp # decode rest"
  using peek_emit[of cp rest] emit_step[of cp]
  by (subst decode_eq) auto

lemma decode_Nil [simp]: "decode [] = []"
  by (subst decode_eq) simp

lemma decode_encode: "list_all is_valid_codepoint cps \<Longrightarrow> decode (concat (map emit cps)) = cps"
  by (induction cps) (simp_all add: decode_step)

lemma decode_valid: "list_all is_valid_codepoint (decode s)"
proof (induction "length s" arbitrary: s rule: less_induct)
  case less
  show ?case
  proof (cases "s = [] \<or> bad_step (fst (peek s))")
    case True
    then show ?thesis by (subst decode_eq) (auto split: prod.split)
  next
    case False
    obtain n cp where p: "peek s = (n, cp)" by (cases "peek s")
    with False have v: "is_valid_codepoint cp" using peek_iff by auto
    from p False have "length (drop n s) < length s" by auto
    with less have "list_all is_valid_codepoint (decode (drop n s))" .
    then show ?thesis using p v False by (subst decode_eq) simp
  qed
qed

text \<open>What the loop decodes is always the longest well-formed prefix of its input.\<close>

lemma decode_prefix:
  "\<exists>rest. s = concat (map emit (decode s)) @ rest \<and> (rest = [] \<or> bad_step (fst (peek rest)))"
proof (induction "length s" arbitrary: s rule: less_induct)
  case less
  show ?case
  proof (cases "s = [] \<or> bad_step (fst (peek s))")
    case True
    then have "decode s = []" by (subst decode_eq) (auto split: prod.split)
    then show ?thesis using True by auto
  next
    case False
    obtain n cp where p: "peek s = (n, cp)" by (cases "peek s")
    with False obtain r where v: "is_valid_codepoint cp" "n = length (emit cp)" "s = emit cp @ r"
      using peek_iff[of s n cp] by auto
    have "n \<noteq> 0" using emit_step[OF v(1)] v(2) by auto
    then have "length r < length s" using v by simp
    from less[OF this] obtain rest where
      "r = concat (map emit (decode r)) @ rest" "rest = [] \<or> bad_step (fst (peek rest))" by blast
    moreover have "decode s = cp # decode r" using v decode_step by simp
    ultimately show ?thesis using v(3) by (intro exI[of _ rest]) simp
  qed
qed

lemma emit_inj:
  "is_valid_codepoint a \<Longrightarrow> is_valid_codepoint b \<Longrightarrow> emit a @ r = emit b @ r' \<Longrightarrow> a = b \<and> r = r'"
  using peek_emit[of a r] peek_emit[of b r'] by auto

end

end
