(* ===== verification/Utf8.thy ===== *)
theory Utf8
  imports Codec
begin

text \<open>
  The UTF-8 codec of \<open>src/src/utility/characters.impl.h\<close>: the peeker that reads one code
  point off a byte sequence, the emitter, the validity predicates and the string
  conversions built from them. A byte pointer with a length is a list of bytes; the output
  parameter \<open>ch\<close> is the second component of the result and keeps the value the code has left
  in it also where it returns an error.
\<close>

section \<open>The operations\<close>

text \<open>The macro \<open>utf_cont\<close>: a continuation byte has the bits \<open>10xxxxxx\<close>.\<close>

definition utf_cont :: "u8 \<Rightarrow> bool" where
  "utf_cont ch \<longleftrightarrow> (ch AND 0xc0) = 0x80"

definition is_mb_codepoint :: "u8 \<Rightarrow> nat \<Rightarrow> bool" where
  "is_mb_codepoint ch p =
     (let i = (ucast ch :: u32) in
      if p = 0 then 0x80 \<le> i \<and> i - 0xc2 \<le> 0xf4 - 0xc2
      else if p = 1 then 0xe0 \<le> i \<and> utf_cont ch
      else if p = 2 then 0xf0 \<le> i \<and> utf_cont ch
      else if p = 3 then utf_cont ch
      else False)"

definition cont_bits :: "u8 \<Rightarrow> u32" where
  \<comment> \<open>\<open>s[i] & 0x3f\<close>, widened\<close>
  "cont_bits s = ucast s AND 0x3f"

definition peek_codepoint :: "u8 list \<Rightarrow> nat \<times> u32" where
  "peek_codepoint str =
    (if str = [] then (0, -1)
     else let ch = (ucast (str ! 0) :: u32) in
       if ch < 0x80 then (1, ch)
       else if ch - 0xc2 > 0xf4 - 0xc2 then (SIZE_MAX, ch)
       else if length str \<le> 1 then (SIZE_MAX, ch)
       else let s1 = str ! 1 in
         if ch < 0xe0 then
           (if \<not> utf_cont s1 then (SIZE_MAX, ch)
            else (2, push_bit 6 (ch AND 0x1f) OR cont_bits s1))
         else if length str \<le> 2 then (SIZE_MAX, ch)
         else let s2 = str ! 2 in
           if ch < 0xf0 then
             (if \<not> utf_cont s1 \<or> \<not> utf_cont s2 then (SIZE_MAX, ch)
              else if ch = 0xed \<and> s1 > 0x9f then (SIZE_MAX, ch)
              else let ch' = push_bit 12 (ch AND 0xf) OR push_bit 6 (cont_bits s1) OR cont_bits s2
                in if ch' < 0x800 then (SIZE_MAX, ch') else (3, ch'))
           else if length str \<le> 3 then (SIZE_MAX, ch)
           else let s3 = str ! 3 in
             if \<not> utf_cont s1 \<or> \<not> utf_cont s2 \<or> \<not> utf_cont s3 then (SIZE_MAX, ch)
             else if ch = 0xf0 \<and> s1 < 0x90 then (SIZE_MAX, ch)
             else if ch \<noteq> 0xf0 \<and> ch = 0xf4 \<and> s1 > 0x8f then (SIZE_MAX, ch)
             else (4, push_bit 18 (ch AND 7) OR push_bit 12 (cont_bits s1)
                        OR push_bit 6 (cont_bits s2) OR cont_bits s3))"

definition codepoint_size :: "u32 \<Rightarrow> nat" where
  "codepoint_size ch =
     (if ch < 0x80 then 1 else if ch < 0x800 then 2 else if ch < 0x10000 then 3
      else if ch < 0x110000 then 4 else 0)"

text \<open>The bytes \<open>emit_codepoint\<close> writes; their number is what it returns.\<close>

definition emit_codepoint :: "u32 \<Rightarrow> u8 list" where
  "emit_codepoint ch =
     (if ch < 0x80 then [ucast ch]
      else if ch < 0x800 then
        [ucast (0xC0 + drop_bit 6 ch), ucast (0x80 + (ch AND 0x3F))]
      else if ch < 0x10000 then
        [ucast (0xE0 + drop_bit 12 ch), ucast (0x80 + (drop_bit 6 ch AND 0x3F)),
         ucast (0x80 + (ch AND 0x3F))]
      else if ch < 0x110000 then
        [ucast (0xF0 + drop_bit 18 ch), ucast (0x80 + (drop_bit 12 ch AND 0x3F)),
         ucast (0x80 + (drop_bit 6 ch AND 0x3F)), ucast (0x80 + (ch AND 0x3F))]
      else [])"

function to_u32string :: "u8 list \<Rightarrow> u32 list" where
  "to_u32string s =
     (if s = [] then []
      else case peek_codepoint s of
        (chl, ch) \<Rightarrow> if bad_step chl then [] else ch # to_u32string (drop chl s))"
  by pat_completeness auto
termination
  by (relation "measure length") (auto simp: neq_Nil_conv)

definition to_utf8string_char :: "u32 \<Rightarrow> u8 list" where
  "to_utf8string_char ch =
     (if ch = 0 then [] else let s = emit_codepoint ch in if length s = 0 then [] else s)"

definition to_utf8string :: "u32 list \<Rightarrow> u8 list" where
  "to_utf8string str = concat (map emit_codepoint str)"

text \<open>
  \<open>is_valid_utf8\<close> walks the view and, when given a report, records the offset of the first
  bad byte: the result is that offset, or \<open>None\<close> when the view is well formed.
\<close>

function utf8_error_from :: "nat \<Rightarrow> u8 list \<Rightarrow> nat option" where
  "utf8_error_from i s =
     (if s = [] then None
      else let n = fst (peek_codepoint s) in
        if bad_step n then Some i else utf8_error_from (i + n) (drop n s))"
  by pat_completeness auto
termination
  by (relation "measure (\<lambda>(i, s). length s)") (auto simp: neq_Nil_conv)

definition is_valid_utf8 :: "u8 list \<Rightarrow> bool" where
  "is_valid_utf8 s \<longleftrightarrow> utf8_error_from 0 s = None"

declare to_u32string.simps [simp del] utf8_error_from.simps [simp del]

section \<open>Arithmetic reading of the codec\<close>

text \<open>
  The bit operations above are re-read as division and remainder on natural numbers:
  \<open>enc\<close> is the table of well-formed byte sequences and \<open>dec\<close> the peeker over numbers.
\<close>

lemma utf_cont_nat: "utf_cont b \<longleftrightarrow> unat b div 64 = 2"
proof -
  have "b AND 0xC0 = push_bit 6 (drop_bit 6 b)"
  proof (rule bit_word_eqI)
    fix n assume "n < LENGTH(8)"
    then have "n = 0 \<or> n = 1 \<or> n = 2 \<or> n = 3 \<or> n = 4 \<or> n = 5 \<or> n = 6 \<or> n = 7" by auto
    then show "bit (b AND 0xC0) n = bit (push_bit 6 (drop_bit 6 b)) n"
      by (auto simp: bit_simps)
  qed
  then have "utf_cont b \<longleftrightarrow> unat (push_bit 6 (drop_bit 6 b)) = unat (0x80 :: u8)"
    unfolding utf_cont_def by (metis word_unat_eq_iff)
  also have "unat (push_bit 6 (drop_bit 6 b)) = (unat b div 64) * 64 mod 256"
    by (simp add: word_nat)
  also have "(unat b div 64) * 64 mod 256 = (unat b div 64) * 64" using unat_u8[of b] by simp
  finally show ?thesis by simp
qed
lemma cont_bits_nat [word_nat]: "unat (cont_bits b) = unat b mod 64"
  by (simp add: cont_bits_def word_nat)
definition enc :: "nat \<Rightarrow> nat list" where
  "enc u = (if u < 128 then [u]
    else if u < 2048 then [192 + u div 64, 128 + u mod 64]
    else if u < 65536 then [224 + u div 4096, 128 + u div 64 mod 64, 128 + u mod 64]
    else if u < 1114112 then [240 + u div 262144, 128 + u div 4096 mod 64, 128 + u div 64 mod 64, 128 + u mod 64]
    else [])"

lemma emit_enc: "map unat (emit_codepoint ch) = enc (unat ch)"
  using unat_u32[of ch]
  by (auto simp: emit_codepoint_def enc_def word_less_nat_alt word_nat unat_word_ariths)

lemma lead_nat: "50 < (ucast b - 194 :: u32) \<longleftrightarrow> unat b < 194 \<or> 244 < unat (b::u8)"
proof -
  have "unat (ucast b - 0xc2 :: u32) = (if 194 \<le> unat b then unat b - 194 else unat b + 4294967102)"
    using unat_u8[of b] by (simp add: unat_sub_if' word_nat)
  then show ?thesis using unat_u8[of b] by (auto simp: word_less_nat_alt)
qed

definition valid_nat :: "nat \<Rightarrow> bool" where
  "valid_nat u \<longleftrightarrow> u < 1114112 \<and> \<not> (55296 \<le> u \<and> u \<le> 57343)"

lemma is_valid_codepoint_nat: "is_valid_codepoint cp \<longleftrightarrow> valid_nat (unat cp)"
  by (auto simp: is_valid_codepoint_def valid_nat_def word_le_nat_alt)

fun dec :: "nat list \<Rightarrow> (nat \<times> nat) option" where
  "dec [] = None"
| "dec (a # s) =
    (if a < 128 then Some (1, a)
     else if a < 194 \<or> 244 < a then None
     else if a < 224 then
       (case s of b # _ \<Rightarrow> if b div 64 = 2 then Some (2, a mod 32 * 64 + b mod 64) else None | _ \<Rightarrow> None)
     else if a < 240 then
       (case s of b # c # _ \<Rightarrow>
          let u = a mod 16 * 4096 + b mod 64 * 64 + c mod 64 in
          if b div 64 = 2 \<and> c div 64 = 2 \<and> \<not> (a = 237 \<and> 159 < b) \<and> 2048 \<le> u then Some (3, u) else None
        | _ \<Rightarrow> None)
     else
       (case s of b # c # d # _ \<Rightarrow>
          if b div 64 = 2 \<and> c div 64 = 2 \<and> d div 64 = 2 \<and> \<not> (a = 240 \<and> b < 144) \<and> \<not> (a = 244 \<and> 143 < b)
          then Some (4, a mod 8 * 262144 + b mod 64 * 4096 + c mod 64 * 64 + d mod 64) else None
        | _ \<Rightarrow> None))"

lemma or3:
  "unat (push_bit 12 (x::u32) OR push_bit 6 (cont_bits b) OR cont_bits c)
   = unat x * 4096 + unat b mod 64 * 64 + unat c mod 64" if "unat x < 16"
proof -
  have 1: "unat (push_bit 6 (cont_bits b) OR cont_bits c) = unat b mod 64 * 64 + unat c mod 64"
    by (subst or_push_nat) (auto simp: word_nat)
  show ?thesis unfolding or.assoc using that by (subst or_push_nat) (auto simp: 1)
qed


lemma or4:
  "unat (push_bit 18 (x::u32) OR push_bit 12 (cont_bits b) OR push_bit 6 (cont_bits c) OR cont_bits d)
   = unat x * 262144 + unat b mod 64 * 4096 + unat c mod 64 * 64 + unat d mod 64" if "unat x < 8"
proof -
  have 1: "unat (push_bit 6 (cont_bits c) OR cont_bits d) = unat c mod 64 * 64 + unat d mod 64"
    by (subst or_push_nat) (auto simp: word_nat)
  have 2: "unat (push_bit 12 (cont_bits b) OR (push_bit 6 (cont_bits c) OR cont_bits d))
    = unat b mod 64 * 4096 + (unat c mod 64 * 64 + unat d mod 64)"
    by (subst or_push_nat) (auto simp: 1 word_nat)
  show ?thesis unfolding or.assoc using that by (subst or_push_nat) (auto simp: 2)
qed
lemma or2:
  "unat (push_bit 6 (x::u32) OR cont_bits b) = unat x * 64 + unat b mod 64" if "unat x < 32"
  using that by (subst or_push_nat) (auto simp: word_nat)

lemma word_eq_numeral_nat: "(ucast (a::u8) :: u32) = numeral k \<longleftrightarrow> unat a = unat (numeral k :: u32)"
  by (metis unat_ucast_u8_u32 word_unat_eq_iff)

lemma peek_dec:
  "case dec (map unat s) of
     None \<Rightarrow> bad_step (fst (peek_codepoint s))
   | Some (n, u) \<Rightarrow> fst (peek_codepoint s) = n \<and> unat (snd (peek_codepoint s)) = u"
proof (cases s)
  case Nil
  then show ?thesis by (simp add: peek_codepoint_def)
next
  case (Cons a r)
  note c = Cons
  have len: "\<And>xs. length xs \<le> Suc 0 \<longleftrightarrow> xs = [] \<or> (\<exists>x. xs = [x])"
    by (auto simp: le_Suc_eq length_Suc_conv)
  consider "unat a < 128" | "128 \<le> unat a" "unat a < 194 \<or> 244 < unat a"
    | "194 \<le> unat a" "unat a < 224" | "224 \<le> unat a" "unat a < 240" | "240 \<le> unat a" "unat a \<le> 244" by linarith
  then show ?thesis
  proof cases
    case 1
    then show ?thesis by (simp add: c peek_codepoint_def word_less_nat_alt word_nat)
  next
    case 2
    then have [simp]: "50 < (ucast a - 194 :: u32)" by (auto simp: lead_nat)
    from 2 have [simp]: "\<not> (ucast a < (0x80::u32))" by (auto simp: word_less_nat_alt word_nat)
    from 2 show ?thesis by (auto simp add: c peek_codepoint_def)
  next
    case 3
    then have [simp]: "\<not> 50 < (ucast a - 194 :: u32)" by (simp add: lead_nat)
    from 3 have [simp]: "\<not> (ucast a < (0x80::u32))" 
       "ucast a < (0xe0 :: u32)"
      by (auto simp: word_less_nat_alt word_nat)
    from 3 show ?thesis 
      by (cases r) (auto simp: c peek_codepoint_def utf_cont_nat or2 word_nat)
  next
    case 4
    then have [simp]: "\<not> 50 < (ucast a - 194 :: u32)" by (simp add: lead_nat)
    from 4 have [simp]: "\<not> (ucast a < (0x80::u32))" 
       "\<not> ucast a < (0xe0 :: u32)" "ucast a < (0xf0 :: u32)"
      by (auto simp: word_less_nat_alt word_nat)
    show ?thesis 
    proof (cases r)
      case Nil then show ?thesis using 4 by (simp add: c peek_codepoint_def)
    next
      case (Cons b r') note r = Cons
      show ?thesis
      proof (cases r')
        case Nil then show ?thesis using 4 by (simp add: c r peek_codepoint_def)
      next
        case (Cons x r'')
        show ?thesis using 4
          by (auto simp: c r Cons peek_codepoint_def utf_cont_nat or3 word_nat word_less_nat_alt[where b="0x800"] word_less_nat_alt[where a="0x9f"]  word_eq_numeral_nat Let_def)
      qed
    qed
  next
    case 5
    then have [simp]: "\<not> 50 < (ucast a - 194 :: u32)" by (simp add: lead_nat)
    from 5 have [simp]: "\<not> (ucast a < (0x80::u32))" 
       "\<not> ucast a < (0xe0 :: u32)" "\<not> ucast a < (0xf0 :: u32)"
      by (auto simp: word_less_nat_alt word_nat)
    show ?thesis 
    proof (cases "length r < 3")
      case True
      then consider "r = []" | x where "r = [x]" | x y where "r = [x, y]"
        by (cases r; cases "tl r"; cases "tl (tl r)") auto
      then show ?thesis using 5 by cases (simp_all add: c peek_codepoint_def)
    next
      case False
      then obtain x y z r' where r: "r = x # y # z # r'"
        by (metis One_nat_def Suc_1 length_Cons less_Suc_eq_0_disj list.exhaust list.size(3) not_less_eq numeral_3_eq_3)
      have e [simp]: "ucast a = (0xf0::u32) \<longleftrightarrow> unat a = 240" "ucast a = (0xf4::u32) \<longleftrightarrow> unat a = 244"
        "x < 0x90 \<longleftrightarrow> unat x < 144" "0x8f < x \<longleftrightarrow> 143 < unat x"
        by (simp_all add: word_eq_numeral_nat word_less_nat_alt)
      have p: "peek_codepoint s = (if \<not> (unat x div 64 = 2 \<and> unat y div 64 = 2 \<and> unat z div 64 = 2)
            \<or> (unat a = 240 \<and> unat x < 144) \<or> (unat a = 244 \<and> 143 < unat x) then (SIZE_MAX, ucast a)
         else (4, push_bit 18 (ucast a AND 7) OR push_bit 12 (cont_bits x)
                        OR push_bit 6 (cont_bits y) OR cont_bits z))"
        by (simp add: c r peek_codepoint_def Let_def utf_cont_nat)
      have "unat (ucast a AND 7 :: u32) = unat a mod 8" by (simp add: word_nat)
      then have "unat (push_bit 18 (ucast a AND 7 :: u32) OR push_bit 12 (cont_bits x) OR push_bit 6 (cont_bits y) OR cont_bits z)
          = unat a mod 8 * 262144 + unat x mod 64 * 4096 + unat y mod 64 * 64 + unat z mod 64"
        by (subst or4) simp_all
      then show ?thesis using 5 unfolding p unfolding c r by (simp add: Let_def)
    qed
  qed
qed


lemma cont_digit:
  assumes "k < 64" shows "(128 + k) mod 64 = (k::nat)" "(128 + k) div 64 = (2::nat)"
proof -
  show "(128 + k) mod 64 = k" using assms mod_mult_self2[of k 64 2] by (simp add: add.commute)
  show "(128 + k) div 64 = 2" using assms by (intro div_nat_eqI) auto
qed

lemma dec_enc: 
  assumes "valid_nat u" shows "dec (enc u @ r) = Some (length (enc u), u)"
proof -
  note v = assms[unfolded valid_nat_def]
  define d where "d = u mod 64"
  define c where "c = u div 64 mod 64"
  define b where "b = u div 4096 mod 64"
  define a where "a = u div 262144"
  have lt: "d < 64" "c < 64" "b < 64" by (simp_all add: b_def c_def d_def)
  have u3: "u div 4096 = a * 64 + b" by (simp add: a_def b_def) (use div_mult2_eq[of u 4096 64] in simp)
  have u2: "u div 64 = (a * 64 + b) * 64 + c"
    using div_mult2_eq[of u 64 64] by (simp add: c_def flip: u3)
  have "u = ((a * 64 + b) * 64 + c) * 64 + d"
    unfolding d_def u2[symmetric] by simp
  then have u1: "u = a * 262144 + b * 4096 + c * 64 + d" by simp
  consider "u < 128" | "128 \<le> u" "u < 2048" | "2048 \<le> u" "u < 65536" | "65536 \<le> u" "u < 1114112"
    using v by linarith
  then show ?thesis
  proof cases
    case 1 then show ?thesis by (simp add: enc_def)
  next
    case 2
    have "a < 1" using u1 2 by linarith
    then have "a = 0" by simp
    moreover have "b = 0" using u1 2 by simp
    moreover have "2 \<le> c" using u1 lt 2 calculation by linarith
    moreover have "c < 32" using u1 2 by linarith
    ultimately have z: "a = 0" "b = 0" "2 \<le> c" "c < 32" .
    with 2 u2 have e: "enc u = [192 + c, 128 + d]" "c < 32" by (simp_all add: enc_def d_def)
    have "(192 + c) mod 32 = c" using e mod_mult_self2[of c 32 6] by (simp add: add.commute)
    then show ?thesis using z lt u1 unfolding e(1) by (simp add: cont_digit)
  next
    case 3
    have "a < 1" using u1 3 by linarith
    then have "a = 0" by simp
    moreover have "b < 16" using u1 3 by linarith
    ultimately have z: "a = 0" "b < 16" .
    with 3 u3 have e: "enc u = [224 + b, 128 + c, 128 + d]" "b < 16"
      by (simp_all add: enc_def d_def c_def)
    have "(224 + b) mod 16 = b" using e mod_mult_self2[of b 16 14] by (simp add: add.commute)
    moreover have "\<not> (b = 13 \<and> 159 < 128 + c)" using v u1 z lt by linarith
    moreover have "u = b * 4096 + c * 64 + d" using u1 z by linarith
    moreover have "2048 \<le> b * 4096 + c * 64 + d" using 3 calculation by linarith
    ultimately show ?thesis using z lt unfolding e(1) by (simp add: cont_digit Let_def)
  next
    case 4
    with u1 lt have z: "a \<le> 4" by linarith
    with 4 have e: "enc u = [240 + a, 128 + b, 128 + c, 128 + d]" "a \<le> 4"
      by (simp_all add: enc_def d_def c_def a_def b_def)
    have "(240 + a) mod 8 = a" using e mod_mult_self2[of a 8 30] by (simp add: add.commute)
    moreover have "\<not> (a = 0 \<and> 128 + b < 144)" using 4 u1 lt by linarith
    moreover have "\<not> (a = 4 \<and> 143 < 128 + b)" using 4 u1 lt by linarith
    moreover have "u = a * 262144 + b * 4096 + c * 64 + d" using u1 by linarith
    ultimately show ?thesis using z lt unfolding e(1) by (simp add: cont_digit)
  qed
qed


lemma cont_split: "b div 64 = 2 \<Longrightarrow> \<exists>k<64. b = 128 + (k::nat)"
  by (rule exI[of _ "b mod 64"]) (use div_mult_mod_eq[of b 64] in simp)

lemma digit64: "b < 64 \<Longrightarrow> (a * 64 + b) div 64 = (a::nat)" "b < 64 \<Longrightarrow> (a * 64 + b) mod 64 = b"
  by simp_all

lemma enc_dec:
  assumes "dec ns = Some (n, u)"
  shows "valid_nat u \<and> ns = enc u @ drop n ns \<and> n = length (enc u)"
proof (cases ns)
  case Nil then show ?thesis using assms by simp
next
  case (Cons a s)
  note c = Cons
  consider "a < 128" | "128 \<le> a" "a < 194 \<or> 244 < a"
    | "194 \<le> a" "a < 224" | "224 \<le> a" "a < 240" | "240 \<le> a" "a \<le> 244" by linarith
  then show ?thesis
  proof cases
    case 1 then show ?thesis using assms by (auto simp: c enc_def valid_nat_def)
  next
    case 2 then show ?thesis using assms by (auto simp: c)
  next
    case 3
    define x where "x = a - 192"
    have a: "a = 192 + x" "2 \<le> x" "x < 32" using 3 by (simp_all add: x_def)
    have m: "(192 + x) mod 32 = x" using a mod_mult_self2[of x 32 6] by (simp add: add.commute)
    obtain b s' where s: "s = b # s'" "b div 64 = 2" and n: "n = 2" "u = a mod 32 * 64 + b mod 64"
      using 3 assms by (auto simp: c split: list.splits if_splits)
    obtain k where k: "k < 64" "b = 128 + k" using cont_split[OF s(2)] by auto
    have u: "u = x * 64 + k" using n k by (simp add: a m cont_digit)
    then have "u div 64 = x" "u mod 64 = k" "128 \<le> u" "u < 2048" using k a by simp_all
    then show ?thesis by (simp add: c s n k a enc_def valid_nat_def)
  next
    case 4
    define x where "x = a - 224"
    have a: "a = 224 + x" "x < 16" using 4 by (simp_all add: x_def)
    have m: "(224 + x) mod 16 = x" using a mod_mult_self2[of x 16 14] by (simp add: add.commute)
    obtain b d s' where s: "s = b # d # s'" "b div 64 = 2" "d div 64 = 2" "\<not> (a = 237 \<and> 159 < b)"
        and n: "n = 3" "u = a mod 16 * 4096 + b mod 64 * 64 + d mod 64" "2048 \<le> u"
      using 4 assms by (auto simp: c Let_def split: list.splits if_splits)
    obtain k where k: "k < 64" "b = 128 + k" using cont_split[OF s(2)] by auto
    obtain l where l: "l < 64" "d = 128 + l" using cont_split[OF s(3)] by auto
    have u: "u = x * 4096 + k * 64 + l" using n k l by (simp add: a m cont_digit)
    have "u = (x * 64 + k) * 64 + l" using u by simp
    then have q: "u div 64 = x * 64 + k" "u mod 64 = l" using digit64[OF l(1)] by metis+
    have "u div 4096 = x" using q(1) k div_mult2_eq[of u 64 64] by simp
    moreover have "u div 64 mod 64 = k" using q(1) digit64[OF k(1)] by metis
    moreover have "\<not> (55296 \<le> u \<and> u \<le> 57343)" 
    proof
      assume "55296 \<le> u \<and> u \<le> 57343"
      then have x: "x = 13" using u k l by linarith
      moreover have "32 \<le> k" using \<open>55296 \<le> u \<and> u \<le> 57343\<close> u k l x by linarith
      ultimately show False using s(4) a k by simp
    qed
    moreover have "u < 65536" using u a k l by linarith
    ultimately show ?thesis using n(3) q by (simp add: c s n(1) k l a enc_def valid_nat_def)
  next
    case 5
    define x where "x = a - 240"
    have a: "a = 240 + x" "x \<le> 4" using 5 by (simp_all add: x_def)
    have m: "(240 + x) mod 8 = x" using a mod_mult_self2[of x 8 30] by (simp add: add.commute)
    obtain b d e s' where s: "s = b # d # e # s'" "b div 64 = 2" "d div 64 = 2" "e div 64 = 2"
         "\<not> (a = 240 \<and> b < 144)" "\<not> (a = 244 \<and> 143 < b)"
        and n: "n = 4" "u = a mod 8 * 262144 + b mod 64 * 4096 + d mod 64 * 64 + e mod 64"
      using 5 assms by (auto simp: c Let_def split: list.splits if_splits)
    obtain k where k: "k < 64" "b = 128 + k" using cont_split[OF s(2)] by auto
    obtain l where l: "l < 64" "d = 128 + l" using cont_split[OF s(3)] by auto
    obtain r where r: "r < 64" "e = 128 + r" using cont_split[OF s(4)] by auto
    have u: "u = x * 262144 + k * 4096 + l * 64 + r" using n k l r by (simp add: a m cont_digit)
    have "u = ((x * 64 + k) * 64 + l) * 64 + r" using u by simp
    then have q: "u div 64 = (x * 64 + k) * 64 + l" "u mod 64 = r" using digit64[OF r(1)] by metis+
    have q2: "u div 4096 = x * 64 + k" using q(1) l div_mult2_eq[of u 64 64] by simp
    have "u div 262144 = x" using q2 k div_mult2_eq[of u 4096 64] by simp
    moreover have "u div 64 mod 64 = l" using q(1) digit64[OF l(1)] by metis
    moreover have "u div 4096 mod 64 = k" using q2 digit64[OF k(1)] by metis
    moreover have "65536 \<le> u" using s(5) a k u by (cases "x = 0") simp_all
    moreover have "u < 1114112" using s(6) a k l r u by (cases "x = 4") simp_all
    ultimately show ?thesis using q by (simp add: c s n(1) k l r a enc_def valid_nat_def)
  qed
qed

section \<open>Correctness\<close>

lemma peek_iff_aux:
  "peek_codepoint s = (n, cp) \<and> \<not> bad_step n \<longleftrightarrow>
     is_valid_codepoint cp \<and> n = length (emit_codepoint cp) \<and> (\<exists>rest. s = emit_codepoint cp @ rest)"
proof
  assume L: "peek_codepoint s = (n, cp) \<and> \<not> bad_step n"
  then obtain m u where d: "dec (map unat s) = Some (m, u)"
    using peek_dec[of s] by (cases "dec (map unat s)") auto
  then have mu: "m = n" "unat cp = u" using peek_dec[of s] L by auto
  from enc_dec[OF d] have e: "valid_nat u" "map unat s = enc u @ drop m (map unat s)" "m = length (enc u)" by auto
  have len: "length (enc u) = length (emit_codepoint cp)" using emit_enc[of cp] mu by (metis length_map)
  have "map unat s = map unat (emit_codepoint cp @ drop n s)"
    using e(2) mu by (simp add: emit_enc drop_map)
  then have "s = emit_codepoint cp @ drop n s" by (rule map_unat_eq)
  then show "is_valid_codepoint cp \<and> n = length (emit_codepoint cp) \<and> (\<exists>rest. s = emit_codepoint cp @ rest)"
    using e mu len by (auto simp: is_valid_codepoint_nat)
next
  assume R: "is_valid_codepoint cp \<and> n = length (emit_codepoint cp) \<and> (\<exists>rest. s = emit_codepoint cp @ rest)"
  then obtain rest where s: "s = emit_codepoint cp @ rest" by auto
  have v: "valid_nat (unat cp)" using R by (simp add: is_valid_codepoint_nat)
  have len: "length (enc (unat cp)) = length (emit_codepoint cp)" using emit_enc[of cp] by (metis length_map)
  have "dec (map unat s) = Some (n, unat cp)"
    using dec_enc[OF v, of "map unat rest"] R len by (simp add: s emit_enc)
  then have "fst (peek_codepoint s) = n" "unat (snd (peek_codepoint s)) = unat cp"
    using peek_dec[of s] by auto
  moreover have "\<not> bad_step n"
  proof -
    have "length (enc (unat cp)) \<in> {1, 2, 3, 4}" using v by (auto simp: enc_def valid_nat_def)
    then show ?thesis using R len by auto
  qed
  ultimately show "peek_codepoint s = (n, cp) \<and> \<not> bad_step n"
    by (metis prod.collapse word_unat_eq_iff)
qed

interpretation utf8: codec peek_codepoint emit_codepoint to_u32string
proof
  show "peek_codepoint s = (n, cp) \<and> \<not> bad_step n \<longleftrightarrow>
      is_valid_codepoint cp \<and> n = length (emit_codepoint cp) \<and> (\<exists>rest. s = emit_codepoint cp @ rest)"
    for s n cp by (rule peek_iff_aux)
  show "to_u32string s = (if s = [] then [] else case peek_codepoint s of
      (n, cp) \<Rightarrow> if bad_step n then [] else cp # to_u32string (drop n s))" for s
    by (subst to_u32string.simps) rule
qed


lemma to_utf8string_Nil [simp]: "to_utf8string [] = []"
  and to_utf8string_Cons [simp]: "to_utf8string (c # cs) = emit_codepoint c @ to_utf8string cs"
  by (simp_all add: to_utf8string_def)

lemma codepoint_size_emit: "codepoint_size ch = length (emit_codepoint ch)"
  by (simp add: codepoint_size_def emit_codepoint_def)

lemma is_mb_codepoint_lead: "is_mb_codepoint b 0 \<longleftrightarrow> 194 \<le> unat b \<and> unat b \<le> 244"
proof -
  have "(ucast b - 194 :: u32) \<le> 50 \<longleftrightarrow> \<not> 50 < (ucast b - 194 :: u32)" by auto
  then show ?thesis by (auto simp: is_mb_codepoint_def Let_def lead_nat word_le_nat_alt word_nat)
qed

lemma utf8_error_from_eq:
  "utf8_error_from i s = (let p = to_utf8string (to_u32string s) in
     if p = s then None else Some (i + length p))"
proof (induction i s rule: utf8_error_from.induct)
  case (1 i s)
  show ?case
  proof (cases "s = [] \<or> bad_step (fst (peek_codepoint s))")
    case True
    then have "to_u32string s = []" by (subst to_u32string.simps) (auto split: prod.split)
    then show ?thesis using True by (subst utf8_error_from.simps) (auto simp: Let_def)
  next
    case False
    obtain n cp where p: "peek_codepoint s = (n, cp)" by (cases "peek_codepoint s")
    with False obtain r where v: "is_valid_codepoint cp" "n = length (emit_codepoint cp)" "s = emit_codepoint cp @ r"
      using utf8.peek_iff[of s n cp] by auto
    have d: "to_u32string s = cp # to_u32string r" using v utf8.decode_step by simp
    have f: "fst (peek_codepoint s) = n" by (simp add: p)
    have dr: "drop n s = r" by (simp add: v)
    have "utf8_error_from (i + n) r = (let p = to_utf8string (to_u32string r) in
        if p = r then None else Some (i + n + length p))"
      using 1[OF _ refl, unfolded f dr] False f by simp
    then show ?thesis using False p v d
      by (subst utf8_error_from.simps) (simp add: Let_def add.assoc)
  qed
qed

section \<open>Properties\<close>

text \<open>C29: the UTF-8 peeker accepts exactly the shortest encodings of Unicode scalar values: it
  returns a code point and a byte count (neither 0 nor \<open>(size_t) -1\<close>) if and only if the
  input starts with what \<open>emit_codepoint\<close> writes for that code point and the code point is
  valid. Overlong forms, surrogates, truncated sequences and bytes above F4 are all refused.\<close>

theorem peek_codepoint_iff:
  "peek_codepoint s = (n, cp) \<and> n \<noteq> 0 \<and> n \<noteq> SIZE_MAX \<longleftrightarrow>
     is_valid_codepoint cp \<and> n = codepoint_size cp \<and> (\<exists>rest. s = emit_codepoint cp @ rest)"
  using utf8.peek_iff[of s n cp] by (simp add: codepoint_size_emit)

text \<open>C30: encoding a string of Unicode scalar values and decoding it again gives the string
  back, and the encoding passes the validator.\<close>

theorem utf8_roundtrip:
  assumes "list_all is_valid_codepoint cps"
  shows "to_u32string (to_utf8string cps) = cps \<and> is_valid_utf8 (to_utf8string cps)"
proof
  show *: "to_u32string (to_utf8string cps) = cps"
    using utf8.decode_encode[OF assms] by (simp add: to_utf8string_def)
  show "is_valid_utf8 (to_utf8string cps)"
    by (simp add: is_valid_utf8_def utf8_error_from_eq * Let_def)
qed

theorem utf8_roundtrip_witness:
  "list_all is_valid_codepoint [0x41, 0x20AC, 0x1F600] \<and>
   to_u32string (to_utf8string [0x41, 0x20AC, 0x1F600]) = [0x41, 0x20AC, 0x1F600]"
proof -
  have h: "list_all is_valid_codepoint [0x41, 0x20AC, 0x1F600]"
    by (simp add: is_valid_codepoint_def)
  show ?thesis using h utf8_roundtrip[OF h] by blast
qed

text \<open>C31: the validator reports no error exactly on the byte strings that decoding and
  re-encoding reproduce; otherwise it reports the offset where the longest well-formed prefix
  (what the decoder reads) ends.\<close>

theorem utf8_error_offset:
  "utf8_error_from 0 s =
     (let p = to_utf8string (to_u32string s) in if p = s then None else Some (length p))"
  using utf8_error_from_eq[of 0 s] by (simp add: Let_def)

end
