(* ===== verification/Utf16.thy ===== *)
theory Utf16
  imports Utf8
begin

text \<open>
  The UTF-16 half of \<open>src/src/utility/characters.impl.h\<close>: the peeker and emitter over 16-bit
  code units, the decoder to code points and the two transcoders between UTF-8 and UTF-16.
\<close>

section \<open>The operations\<close>

definition peek_codepoint_u16 :: "u16 list \<Rightarrow> nat \<times> u32" where
  "peek_codepoint_u16 s =
    (if s = [] then (0, -1)
     else let a = s ! 0 in
       if a < 0xD800 \<or> a \<ge> 0xE000 then (1, ucast a)
       else if a \<ge> 0xDC00 then (SIZE_MAX, -1)
       else if length s < 2 then (SIZE_MAX, -1)
       else let b = s ! 1 in
         if b < 0xDC00 \<or> b \<ge> 0xE000 then (SIZE_MAX, -1)
         else (2, 0x10000 + push_bit 10 (ucast a - 0xD800) + (ucast b - 0xDC00)))"

definition emit_codepoint_u16 :: "u32 \<Rightarrow> u16 list" where
  "emit_codepoint_u16 ch =
    (if ch < 0x10000 then
       (if ch \<ge> 0xD800 \<and> ch < 0xE000 then [] else [ucast ch])
     else if ch \<ge> 0x110000 then []
     else let ch = ch - 0x10000 in
       [ucast (0xD800 OR drop_bit 10 ch), ucast (0xDC00 OR (ch AND 0x3FF))])"

text \<open>\<open>to_u32string(const std::u16string&)\<close>.\<close>

function to_u32string_u16 :: "u16 list \<Rightarrow> u32 list" where
  "to_u32string_u16 s =
     (if s = [] then []
      else case peek_codepoint_u16 s of
        (n, cp) \<Rightarrow> if bad_step n then [] else cp # to_u32string_u16 (drop n s))"
  by pat_completeness auto
termination
  by (relation "measure length") (auto simp: neq_Nil_conv)

text \<open>\<open>to_u16string(const std::u32string&)\<close>: no stop, an invalid code point writes nothing.\<close>

definition to_u16string_u32 :: "u32 list \<Rightarrow> u16 list" where
  "to_u16string_u32 s = concat (map emit_codepoint_u16 s)"

text \<open>The shared loop bodies \<open>to_utf16_\<close> and \<open>from_utf16_\<close>.\<close>

function to_utf16 :: "u8 list \<Rightarrow> u16 list" where
  "to_utf16 s =
     (if s = [] then []
      else case peek_codepoint s of
        (n, cp) \<Rightarrow> if bad_step n then [] else emit_codepoint_u16 cp @ to_utf16 (drop n s))"
  by pat_completeness auto
termination
  by (relation "measure length") (auto simp: neq_Nil_conv)

function from_utf16 :: "u16 list \<Rightarrow> u8 list" where
  "from_utf16 s =
     (if s = [] then []
      else case peek_codepoint_u16 s of
        (n, cp) \<Rightarrow> if bad_step n then [] else emit_codepoint cp @ from_utf16 (drop n s))"
  by pat_completeness auto
termination
  by (relation "measure length") (auto simp: neq_Nil_conv)

declare to_u32string_u16.simps [simp del] to_utf16.simps [simp del] from_utf16.simps [simp del]

section \<open>The codec laws for UTF-16\<close>

lemma unat_u16: "unat (w :: u16) < 65536"
  using unsigned_less[of w] by simp

lemma unat_ucast_u16_u32 [word_nat]: "unat (ucast (w :: u16) :: u32) = unat w"
  using unat_u16[of w] by (simp add: unsigned_ucast_eq take_bit_eq_mod)

lemma unat_ucast_u32_u16 [word_nat]: "unat (ucast (w :: u32) :: u16) = unat w mod 65536"
  by (simp add: unsigned_ucast_eq take_bit_eq_mod)

lemma high_surrogate_nat:
  assumes "unat x < 1024" shows "unat (0xD800 OR (x :: u32)) = 55296 + unat x"
proof -
  have "(0xD800 :: u32) = push_bit 10 54" by simp
  then show ?thesis using assms or_push_nat[of x 10 54] by simp
qed

lemma low_surrogate_nat:
  assumes "unat x < 1024" shows "unat (0xDC00 OR (x :: u32)) = 56320 + unat x"
proof -
  have "(0xDC00 :: u32) = push_bit 10 55" by simp
  then show ?thesis using assms or_push_nat[of x 10 55] by simp
qed

definition enc16 :: "nat \<Rightarrow> nat list" where
  "enc16 u = (if u < 65536 then (if 55296 \<le> u \<and> u < 57344 then [] else [u])
     else if 1114112 \<le> u then []
     else [55296 + (u - 65536) div 1024, 56320 + (u - 65536) mod 1024])"

lemma emit_enc16: "map unat (emit_codepoint_u16 ch) = enc16 (unat ch)"
proof (cases "unat ch < 65536 \<or> 1114112 \<le> unat ch")
  case True
  then show ?thesis
    by (auto simp: emit_codepoint_u16_def enc16_def word_less_nat_alt word_le_nat_alt word_nat)
next
  case False
  then have lt: "unat ch - 65536 < 1048576" by auto
  have m: "unat (ch - 0x10000) = unat ch - 65536"
    using False by (subst unat_sub) (auto simp: word_le_nat_alt)
  have "unat (drop_bit 10 (ch - 0x10000)) < 1024" using lt by (simp add: word_nat m)
  then have h: "unat (0xD800 OR drop_bit 10 (ch - 0x10000)) = 55296 + (unat ch - 65536) div 1024"
    by (simp add: high_surrogate_nat word_nat m)
  have l: "unat (0xDC00 OR ((ch - 0x10000) AND 0x3FF)) = 56320 + (unat ch - 65536) mod 1024"
    by (subst low_surrogate_nat) (simp_all add: word_nat m)
  have "(unat ch - 65536) div 1024 < 1024" using lt by simp
  then show ?thesis using False
    by (simp add: emit_codepoint_u16_def enc16_def Let_def word_less_nat_alt word_le_nat_alt
        unat_ucast_u32_u16 h l)
qed


fun dec16 :: "nat list \<Rightarrow> (nat \<times> nat) option" where
  "dec16 [] = None"
| "dec16 (a # s) =
    (if a < 55296 \<or> 57344 \<le> a then Some (1, a)
     else if 56320 \<le> a then None
     else case s of [] \<Rightarrow> None
       | b # _ \<Rightarrow> if b < 56320 \<or> 57344 \<le> b then None
           else Some (2, 65536 + (a - 55296) * 1024 + (b - 56320)))"

lemma peek_dec16:
  "case dec16 (map unat s) of
     None \<Rightarrow> bad_step (fst (peek_codepoint_u16 s))
   | Some (n, u) \<Rightarrow> fst (peek_codepoint_u16 s) = n \<and> unat (snd (peek_codepoint_u16 s)) = u"
proof (cases s)
  case Nil
  then show ?thesis by (simp add: peek_codepoint_u16_def)
next
  case (Cons a r)
  have n [simp]: "a < 0xD800 \<longleftrightarrow> unat a < 55296" "0xE000 \<le> a \<longleftrightarrow> 57344 \<le> unat a" "0xDC00 \<le> a \<longleftrightarrow> 56320 \<le> unat a"
    by (simp_all add: word_less_nat_alt word_le_nat_alt)
  show ?thesis
  proof (cases "55296 \<le> unat a \<and> unat a < 56320 \<and> r \<noteq> []")
    case False
    then show ?thesis
      by (cases r) (auto simp: Cons peek_codepoint_u16_def word_nat)
  next
    case True
    then obtain b r' where r: "r = b # r'" by (cases r) auto
    have n2 [simp]: "b < 0xDC00 \<longleftrightarrow> unat b < 56320" "0xE000 \<le> b \<longleftrightarrow> 57344 \<le> unat b"
      by (simp_all add: word_less_nat_alt word_le_nat_alt)
    have p: "peek_codepoint_u16 s = (if unat b < 56320 \<or> 57344 \<le> unat b then (SIZE_MAX, -1)
        else (2, 0x10000 + push_bit 10 (ucast a - 0xD800) + (ucast b - 0xDC00)))"
      using True by (simp add: Cons r peek_codepoint_u16_def)
    have "unat (0x10000 + push_bit 10 (ucast a - 0xD800) + (ucast b - 0xDC00) :: u32)
      = 65536 + (unat a - 55296) * 1024 + (unat b - 56320)" if "56320 \<le> unat b" "unat b < 57344"
    proof -
      have 1: "unat (ucast a - 0xD800 :: u32) = unat a - 55296"
        using True by (subst unat_sub) (auto simp: word_le_nat_alt word_nat)
      have 2: "unat (ucast b - 0xDC00 :: u32) = unat b - 56320"
        using that by (subst unat_sub) (auto simp: word_le_nat_alt word_nat)
      have 3: "unat a - 55296 < 1024" "unat b - 56320 < 1024" using True that by auto
      have 4: "unat (push_bit 10 (ucast a - 0xD800 :: u32)) = (unat a - 55296) * 1024"
        using 3 by (simp add: word_nat 1)
      show ?thesis using 3 by (simp only: unat_word_ariths 4 2) simp
    qed
    then show ?thesis using True unfolding p unfolding Cons r by (simp del: n)
  qed
qed

lemma dec16_enc16:
  assumes "valid_nat u" shows "dec16 (enc16 u @ r) = Some (length (enc16 u), u)"
proof (cases "u < 65536")
  case True
  then show ?thesis using assms by (auto simp: enc16_def valid_nat_def)
next
  case False
  then have "(u - 65536) div 1024 < 1024" using assms by (auto simp: valid_nat_def)
  moreover have "65536 + (u - 65536) div 1024 * 1024 + (u - 65536) mod 1024 = u"
    using False div_mult_mod_eq[of "u - 65536" 1024] by linarith
  ultimately show ?thesis using False assms by (simp add: enc16_def valid_nat_def)
qed

lemma enc16_dec16:
  assumes "dec16 ns = Some (n, u)" "\<forall>x \<in> set ns. x < 65536"
  shows "valid_nat u \<and> ns = enc16 u @ drop n ns \<and> n = length (enc16 u)"
proof (cases ns)
  case Nil then show ?thesis using assms by simp
next
  case (Cons a s)
  show ?thesis
  proof (cases "a < 55296 \<or> 57344 \<le> a")
    case True
    then show ?thesis using assms by (auto simp: Cons enc16_def valid_nat_def)
  next
    case False
    then obtain b s' where s: "s = b # s'" "a < 56320" "56320 \<le> b" "b < 57344" "n = 2"
      and u: "u = 65536 + (a - 55296) * 1024 + (b - 56320)"
      using assms by (auto simp: Cons split: list.splits if_splits)
    have lt: "b - 56320 < 1024" "a - 55296 < 1024" using s by auto
    have "u - 65536 = (a - 55296) * 1024 + (b - 56320)" using u by simp
    then have "(u - 65536) div 1024 = a - 55296" "(u - 65536) mod 1024 = b - 56320" using lt by simp_all
    then show ?thesis using False s u lt by (simp add: Cons enc16_def valid_nat_def)
  qed
qed

lemma peek_u16_iff_aux:
  "peek_codepoint_u16 s = (n, cp) \<and> \<not> bad_step n \<longleftrightarrow>
     is_valid_codepoint cp \<and> n = length (emit_codepoint_u16 cp) \<and> (\<exists>rest. s = emit_codepoint_u16 cp @ rest)"
proof
  assume L: "peek_codepoint_u16 s = (n, cp) \<and> \<not> bad_step n"
  then obtain m u where d: "dec16 (map unat s) = Some (m, u)"
    using peek_dec16[of s] by (cases "dec16 (map unat s)") auto
  then have mu: "m = n" "unat cp = u" using peek_dec16[of s] L by auto
  have "\<forall>x \<in> set (map unat s). x < 65536" using unat_u16 by auto
  from enc16_dec16[OF d this]
  have e: "valid_nat u" "map unat s = enc16 u @ drop m (map unat s)" "m = length (enc16 u)" by auto
  have len: "length (enc16 u) = length (emit_codepoint_u16 cp)" using emit_enc16[of cp] mu by (metis length_map)
  have "map unat s = map unat (emit_codepoint_u16 cp @ drop n s)"
    using e(2) mu by (simp add: emit_enc16 drop_map)
  then have "s = emit_codepoint_u16 cp @ drop n s" by (rule map_unat_eq)
  then show "is_valid_codepoint cp \<and> n = length (emit_codepoint_u16 cp) \<and> (\<exists>rest. s = emit_codepoint_u16 cp @ rest)"
    using e mu len by (auto simp: is_valid_codepoint_nat)
next
  assume R: "is_valid_codepoint cp \<and> n = length (emit_codepoint_u16 cp) \<and> (\<exists>rest. s = emit_codepoint_u16 cp @ rest)"
  then obtain rest where s: "s = emit_codepoint_u16 cp @ rest" by auto
  have v: "valid_nat (unat cp)" using R by (simp add: is_valid_codepoint_nat)
  have len: "length (enc16 (unat cp)) = length (emit_codepoint_u16 cp)" using emit_enc16[of cp] by (metis length_map)
  have "dec16 (map unat s) = Some (n, unat cp)"
    using dec16_enc16[OF v, of "map unat rest"] R len by (simp add: s emit_enc16)
  then have "fst (peek_codepoint_u16 s) = n" "unat (snd (peek_codepoint_u16 s)) = unat cp"
    using peek_dec16[of s] by auto
  moreover have "length (enc16 (unat cp)) \<in> {1, 2}" using v by (auto simp: enc16_def valid_nat_def)
  then have "\<not> bad_step n" using R len by auto
  ultimately show "peek_codepoint_u16 s = (n, cp) \<and> \<not> bad_step n"
    by (metis prod.collapse word_unat_eq_iff)
qed

interpretation utf16: codec peek_codepoint_u16 emit_codepoint_u16 to_u32string_u16
proof
  show "peek_codepoint_u16 s = (n, cp) \<and> \<not> bad_step n \<longleftrightarrow>
      is_valid_codepoint cp \<and> n = length (emit_codepoint_u16 cp) \<and> (\<exists>rest. s = emit_codepoint_u16 cp @ rest)"
    for s n cp by (rule peek_u16_iff_aux)
  show "to_u32string_u16 s = (if s = [] then [] else case peek_codepoint_u16 s of
      (n, cp) \<Rightarrow> if bad_step n then [] else cp # to_u32string_u16 (drop n s))" for s
    by (subst to_u32string_u16.simps) rule
qed

section \<open>The transcoders\<close>

lemma to_utf16_eq: "to_utf16 s = to_u16string_u32 (to_u32string s)"
proof (induction s rule: to_utf16.induct)
  case (1 s)
  then show ?case
    by (subst to_utf16.simps, subst to_u32string.simps) (auto simp: to_u16string_u32_def split: prod.split)
qed

lemma from_utf16_eq: "from_utf16 s = to_utf8string (to_u32string_u16 s)"
proof (induction s rule: from_utf16.induct)
  case (1 s)
  then show ?case
    by (subst from_utf16.simps, subst to_u32string_u16.simps) (auto split: prod.split)
qed

section \<open>Properties\<close>

text \<open>the UTF-16 peeker accepts exactly the code units \<open>emit_codepoint_u16\<close> writes for a
  valid code point: a lone surrogate, high or low, is refused.\<close>

theorem peek_codepoint_u16_iff:
  "peek_codepoint_u16 s = (n, cp) \<and> n \<noteq> 0 \<and> n \<noteq> SIZE_MAX \<longleftrightarrow>
     is_valid_codepoint cp \<and> n = length (emit_codepoint_u16 cp) \<and>
     (\<exists>rest. s = emit_codepoint_u16 cp @ rest)"
  using utf16.peek_iff[of s n cp] by simp

text \<open>transcoding a byte string to UTF-16 and back gives its longest well-formed UTF-8
  prefix: the identity on well-formed UTF-8.\<close>

theorem utf16_transcode_roundtrip:
  "from_utf16 (to_utf16 s) = to_utf8string (to_u32string s)"
  using utf16.decode_encode[OF utf8.decode_valid[of s]]
  by (simp add: to_utf16_eq from_utf16_eq to_u16string_u32_def)

end
