(* ===== verification/Escapes.thy ===== *)
theory Escapes
  imports Utf8
begin

text \<open>
  The escape codec of \<open>src/src/utility/escapes.h\<close> and \<open>escapes.tmpl.h\<close>: profiles, the shared
  recognizer \<open>decode_core\<close> over its two sinks, and the encoder over bytes and code points.
  Characters are bytes written as numerals. The recognizer walks the body by an index; the
  model carries the index together with the suffix of the body that starts there. A sink only
  appends, so a sink operation is modelled by what it appends.
\<close>

section \<open>Profiles\<close>

datatype hex_x_mode = HexX_off | HexX_lax | HexX_fixed | HexX_greedy
datatype hex_u4_mode = HexU4_off | HexU4_scalar | HexU4_utf16
datatype lenient_mode = Lenient_off | Lenient_drop | Lenient_keep

record profile =
  delim :: u8
  prefix :: u8
  escape_chars :: "u8 list"
  lenient :: lenient_mode
  hex_x :: hex_x_mode
  hex_u4 :: hex_u4_mode
  hex_U8 :: bool
  octal :: bool

text \<open>\<open>0x22\<close> is the double quote, \<open>0x27\<close> the apostrophe, \<open>0x5c\<close> the backslash; the escape
  letters of the Tau profiles are \<open>abfnrtv/\<close>, of JSON \<open>bfnrt/\<close>, of C \<open>abfnrtv'/?\<close>.\<close>

definition tgf_string :: profile where
  "tgf_string = \<lparr>delim = 0x22, prefix = 0x5c,
     escape_chars = [0x61, 0x62, 0x66, 0x6e, 0x72, 0x74, 0x76, 0x2f], lenient = Lenient_off,
     hex_x = HexX_lax, hex_u4 = HexU4_scalar, hex_U8 = True, octal = False\<rparr>"

definition tgf_char :: profile where
  "tgf_char = \<lparr>delim = 0x27, prefix = 0x5c,
     escape_chars = [0x61, 0x62, 0x66, 0x6e, 0x72, 0x74, 0x76, 0x2f], lenient = Lenient_off,
     hex_x = HexX_lax, hex_u4 = HexU4_scalar, hex_U8 = True, octal = False\<rparr>"

definition json :: profile where
  "json = \<lparr>delim = 0x22, prefix = 0x5c,
     escape_chars = [0x62, 0x66, 0x6e, 0x72, 0x74, 0x2f], lenient = Lenient_off,
     hex_x = HexX_off, hex_u4 = HexU4_utf16, hex_U8 = False, octal = False\<rparr>"

definition csv :: profile where
  "csv = \<lparr>delim = 0x22, prefix = 0x22, escape_chars = [], lenient = Lenient_off,
     hex_x = HexX_off, hex_u4 = HexU4_off, hex_U8 = False, octal = False\<rparr>"

definition c_like :: profile where
  "c_like = \<lparr>delim = 0x22, prefix = 0x5c,
     escape_chars = [0x61, 0x62, 0x66, 0x6e, 0x72, 0x74, 0x76, 0x27, 0x2f, 0x3f],
     lenient = Lenient_off, hex_x = HexX_greedy, hex_u4 = HexU4_scalar, hex_U8 = True, octal = True\<rparr>"

section \<open>Helpers\<close>

definition isxdigit :: "u8 \<Rightarrow> bool" where
  "isxdigit c \<longleftrightarrow> 0x30 \<le> c \<and> c \<le> 0x39 \<or> 0x61 \<le> c \<and> c \<le> 0x66 \<or> 0x41 \<le> c \<and> c \<le> 0x46"

definition hex_val :: "u8 \<Rightarrow> u32" where
  "hex_val c =
     (if 0x30 \<le> c \<and> c \<le> 0x39 then ucast (c - 0x30)
      else if 0x61 \<le> c \<and> c \<le> 0x66 then 10 + ucast (c - 0x61)
      else if 0x41 \<le> c \<and> c \<le> 0x46 then 10 + ucast (c - 0x41)
      else 0)"

definition to_cp :: "u8 \<Rightarrow> u32" where
  "to_cp c = ucast c"

text \<open>The table \<open>control_escapes\<close>: the letters \<open>abefnrtv\<close> and their codes.\<close>

definition control_escapes :: "(u8 \<times> u32) list" where
  "control_escapes = [(0x61, 0x07), (0x62, 0x08), (0x65, 0x1B), (0x66, 0x0C),
                      (0x6e, 0x0A), (0x72, 0x0D), (0x74, 0x09), (0x76, 0x0B)]"

definition control_escape_codepoint :: "u8 \<Rightarrow> u32" where
  "control_escape_codepoint c =
     (case find (\<lambda>e. fst e = c) control_escapes of Some e \<Rightarrow> snd e | None \<Rightarrow> -1)"

definition control_escape_char :: "u32 \<Rightarrow> u8" where
  "control_escape_char cp =
     (case find (\<lambda>e. snd e = cp) control_escapes of Some e \<Rightarrow> fst e | None \<Rightarrow> 0)"

definition append_cp :: "u32 \<Rightarrow> u8 list" where
  "append_cp cp = (if cp < 0x80 then [ucast cp] else emit_codepoint cp)"

text \<open>\<open>snprintf\<close> of an unsigned in base \<open>b\<close>, zero padded to at least \<open>w\<close> digits. \<open>ten\<close> is the
  character of digit ten: \<open>a\<close> for \<open>%x\<close>, \<open>A\<close> for \<open>%X\<close>.\<close>

fun radix_digits :: "nat \<Rightarrow> nat \<Rightarrow> nat list" where
  "radix_digits b n = (if n < b \<or> b < 2 then [n] else radix_digits b (n div b) @ [n mod b])"

declare radix_digits.simps [simp del]

definition digit_char :: "u8 \<Rightarrow> nat \<Rightarrow> u8" where
  "digit_char ten d = (if d < 10 then 0x30 + of_nat d else ten + of_nat (d - 10))"

definition fmt_radix :: "nat \<Rightarrow> nat \<Rightarrow> u8 \<Rightarrow> u32 \<Rightarrow> u8 list" where
  "fmt_radix b w ten v =
     (let ds = radix_digits b (unat v) in
      map (digit_char ten) (replicate (w - length ds) 0 @ ds))"

text \<open>\<open>emit_escaped_value\<close>: what it appends, \<open>None\<close> where it returns false.\<close>

definition emit_escaped_value :: "u32 \<Rightarrow> profile \<Rightarrow> u8 list option" where
  "emit_escaped_value v p =
    (let esc = append_cp (to_cp (prefix p)); oct = esc @ fmt_radix 8 3 0x61 v in
     if hex_x p = HexX_greedy \<and> octal p \<and> v \<le> 0xFF then Some oct
     else if hex_x p \<noteq> HexX_off \<and> v \<le> 0xFF then Some (esc @ 0x78 # fmt_radix 16 2 0x61 v)
     else if hex_u4 p \<noteq> HexU4_off \<and> v \<le> 0xFFFF then Some (esc @ 0x75 # fmt_radix 16 4 0x61 v)
     else if hex_U8 p then Some (esc @ 0x55 # fmt_radix 16 8 0x41 v)
     else if octal p then Some oct
     else None)"

section \<open>Sinks and the recognizer\<close>

text \<open>The messages of the errors; \<open>Esc_unknown\<close> carries the prefix and the character.\<close>

datatype esc_error =
    Esc_octal_scalar | Esc_octal_overflow | Esc_x_need | Esc_x_overflow | Esc_u4_need_4
  | Esc_u4_high_no_low | Esc_u4_lo_need_4 | Esc_u4_bad_low | Esc_u4_lone_low | Esc_u4_invalid
  | Esc_U8_need_8 | Esc_U8_invalid | Esc_lone_delimiter | Esc_trailing | Esc_invalid_utf8
  | Esc_unknown u8 u8

record 'o sink =
  sink_unicode :: "u32 \<Rightarrow> 'o list"
  sink_hexbyte :: "u32 \<Rightarrow> 'o list"
  sink_octal :: "u32 \<Rightarrow> esc_error + 'o list"
  sink_literal :: "u8 list \<Rightarrow> nat \<times> 'o list"

definition u32sink :: "u32 sink" where
  "u32sink = \<lparr>sink_unicode = (\<lambda>cp. [cp]), sink_hexbyte = (\<lambda>b. [b]),
     sink_octal = (\<lambda>v. if \<not> is_valid_codepoint v then Inl Esc_octal_scalar else Inr [v]),
     sink_literal = (\<lambda>s. case peek_codepoint s of
        (k, cp) \<Rightarrow> if k = SIZE_MAX \<or> k = 0 then (0, []) else (k, [cp]))\<rparr>"

definition utf8sink :: "u8 sink" where
  "utf8sink = \<lparr>sink_unicode = append_cp, sink_hexbyte = (\<lambda>b. [ucast b]),
     sink_octal = (\<lambda>v. if v > 0xFF then Inl Esc_octal_overflow else Inr [ucast v]),
     sink_literal = (\<lambda>s. (1, [hd s]))\<rparr>"

text \<open>The local functions of \<open>decode_core\<close> get the suffix after the escape letter and give what
  they append and how far they advance; every error is reported at the start of the escape.\<close>

definition read_nhex :: "u8 list \<Rightarrow> nat \<Rightarrow> u32 option" where
  "read_nhex s n =
     (if n > length s then None
      else if \<not> list_all isxdigit (take n s) then None
      else Some (foldl (\<lambda>val c. push_bit 4 val OR hex_val c) 0 (take n s)))"

fun hex_greedy :: "u32 \<Rightarrow> nat \<Rightarrow> u8 list \<Rightarrow> esc_error + (u32 \<times> nat)" where
  "hex_greedy b k [] = Inr (b, k)"
| "hex_greedy b k (c # s) =
     (if isxdigit c then
        (let b' = push_bit 4 b OR hex_val c in
         if b' > 0xFF then Inl Esc_x_overflow else hex_greedy b' (Suc k) s)
      else Inr (b, k))"

definition parse_hex_x :: "profile \<Rightarrow> 'o sink \<Rightarrow> u8 list \<Rightarrow> esc_error + ('o list \<times> nat)" where
  "parse_hex_x p K s =
    (if s = [] \<or> \<not> isxdigit (hd s) then Inl Esc_x_need
     else let b = hex_val (hd s); r = tl s in
       if hex_x p = HexX_fixed then
         (if r = [] \<or> \<not> isxdigit (hd r) then Inl Esc_x_need
          else Inr (sink_hexbyte K (push_bit 4 b OR hex_val (hd r)), 2))
       else if hex_x p = HexX_lax then
         (if r \<noteq> [] \<and> isxdigit (hd r) then Inr (sink_hexbyte K (push_bit 4 b OR hex_val (hd r)), 2)
          else Inr (sink_hexbyte K b, 1))
       else case hex_greedy b 1 r of
           Inl e \<Rightarrow> Inl e
         | Inr (b', k) \<Rightarrow> Inr (sink_hexbyte K b', k))"

definition parse_hex_u4 :: "profile \<Rightarrow> 'o sink \<Rightarrow> u8 list \<Rightarrow> esc_error + ('o list \<times> nat)" where
  "parse_hex_u4 p K s =
    (case read_nhex s 4 of
       None \<Rightarrow> Inl Esc_u4_need_4
     | Some cp \<Rightarrow>
       (let r = drop 4 s in
        if hex_u4 p = HexU4_utf16 \<and> 0xD800 \<le> cp \<and> cp \<le> 0xDBFF then
          (if length r < 6 \<or> r ! 0 \<noteq> prefix p \<or> r ! 1 \<noteq> 0x75 then Inl Esc_u4_high_no_low
           else case read_nhex (drop 2 r) 4 of
               None \<Rightarrow> Inl Esc_u4_lo_need_4
             | Some lo \<Rightarrow>
               if lo < 0xDC00 \<or> lo > 0xDFFF then Inl Esc_u4_bad_low
               else Inr (sink_unicode K (0x10000 + push_bit 10 (cp - 0xD800) + (lo - 0xDC00)), 10))
        else if hex_u4 p = HexU4_utf16 \<and> 0xDC00 \<le> cp \<and> cp \<le> 0xDFFF then Inl Esc_u4_lone_low
        else if \<not> is_valid_codepoint cp then Inl Esc_u4_invalid
        else Inr (sink_unicode K cp, 4)))"

definition parse_hex_U8 :: "'o sink \<Rightarrow> u8 list \<Rightarrow> esc_error + ('o list \<times> nat)" where
  "parse_hex_U8 K s =
    (case read_nhex s 8 of
       None \<Rightarrow> Inl Esc_U8_need_8
     | Some cp \<Rightarrow> if \<not> is_valid_codepoint cp then Inl Esc_U8_invalid else Inr (sink_unicode K cp, 8))"

definition isodigit :: "u8 \<Rightarrow> bool" where
  "isodigit c \<longleftrightarrow> 0x30 \<le> c \<and> c \<le> 0x37"

definition parse_octal :: "'o sink \<Rightarrow> u8 \<Rightarrow> u8 list \<Rightarrow> esc_error + ('o list \<times> nat)" where
  "parse_octal K first s =
    (let ds = takeWhile isodigit (take 2 s);
         v = foldl (\<lambda>v c. v * 8 + ucast (c - 0x30)) (ucast (first - 0x30)) ds
     in case sink_octal K v of Inl e \<Rightarrow> Inl e | Inr out \<Rightarrow> Inr (out, length ds))"

text \<open>The dispatch after a prefix: \<open>c\<close> is the character after it, \<open>s\<close> what follows.\<close>

definition escape_value :: "profile \<Rightarrow> 'o sink \<Rightarrow> u8 \<Rightarrow> u8 list \<Rightarrow> esc_error + ('o list \<times> nat)" where
  "escape_value p K c s =
    (let cc = to_cp c in
     if c = prefix p \<or> c = delim p then Inr (sink_unicode K cc, 0)
     else if c \<in> set (escape_chars p) then
       (let m = control_escape_codepoint c in Inr (sink_unicode K (if m = -1 then cc else m), 0))
     else if hex_x p \<noteq> HexX_off \<and> (c = 0x78 \<or> c = 0x58) then parse_hex_x p K s
     else if hex_u4 p \<noteq> HexU4_off \<and> c = 0x75 then parse_hex_u4 p K s
     else if hex_U8 p \<and> c = 0x55 then parse_hex_U8 K s
     else if octal p \<and> isodigit c then parse_octal K c s
     else if lenient p = Lenient_drop then Inr (sink_unicode K cc, 0)
     else if lenient p = Lenient_keep then
       Inr (sink_unicode K (to_cp (prefix p)) @ sink_unicode K cc, 0)
     else Inl (Esc_unknown (prefix p) c))"

definition prepend :: "'o list \<Rightarrow> 'e + 'o list \<Rightarrow> 'e + 'o list" where
  "prepend out r = (case r of Inl e \<Rightarrow> Inl e | Inr x \<Rightarrow> Inr (out @ x))"

text \<open>The loop of \<open>decode_core\<close>. An error is its position and its message.\<close>

function decode_core ::
  "profile \<Rightarrow> 'o sink \<Rightarrow> nat \<Rightarrow> u8 list \<Rightarrow> (nat \<times> esc_error) + 'o list" where
  "decode_core p K i s =
    (if s = [] then Inr []
     else let ch = hd s; r = tl s in
       if prefix p \<noteq> 0 \<and> prefix p = delim p \<and> ch = delim p then
         (if r \<noteq> [] \<and> hd r = delim p
          then prepend (sink_unicode K (to_cp (delim p))) (decode_core p K (i + 2) (tl r))
          else Inl (i, Esc_lone_delimiter))
       else if prefix p \<noteq> 0 \<and> prefix p \<noteq> delim p \<and> ch = prefix p then
         (if r = [] then Inl (i, Esc_trailing)
          else case escape_value p K (hd r) (tl r) of
              Inl e \<Rightarrow> Inl (i, e)
            | Inr (out, k) \<Rightarrow> prepend out (decode_core p K (i + 2 + k) (drop k (tl r))))
       else case sink_literal K s of
           (n, out) \<Rightarrow> if n = 0 then Inl (i, Esc_invalid_utf8)
                      else prepend out (decode_core p K (i + n) (drop n s)))"
  by pat_completeness auto
termination
  by (relation "measure (\<lambda>(p, K, i, s). length s)") (auto simp: neq_Nil_conv)

declare decode_core.simps [simp del]

definition u32decode :: "u8 list \<Rightarrow> profile \<Rightarrow> (nat \<times> esc_error) + u32 list" where
  "u32decode body p = decode_core p u32sink 0 body"

definition decode :: "u8 list \<Rightarrow> profile \<Rightarrow> (nat \<times> esc_error) + u8 list" where
  "decode body p = decode_core p utf8sink 0 body"

section \<open>The encoder\<close>

text \<open>The body of the loop of \<open>encode_\<close> for one unit; \<open>app\<close> is \<open>append_unit\<close>, which depends on
  the unit type.\<close>

definition encode_unit :: "(u32 \<Rightarrow> u8 list) \<Rightarrow> profile \<Rightarrow> u32 \<Rightarrow> u8 list" where
  "encode_unit app p cp =
    (let has_prefix = (prefix p \<noteq> 0 \<and> prefix p \<noteq> delim p);
         doubling = (prefix p \<noteq> 0 \<and> prefix p = delim p);
         esc32 = to_cp (prefix p) in
     if cp = to_cp (delim p) then
       (if doubling then app cp @ app cp else if has_prefix then app esc32 @ app cp else app cp)
     else if has_prefix \<and> cp = esc32 then app esc32 @ app esc32
     else if has_prefix \<and> control_escape_char cp \<noteq> 0 \<and> control_escape_char cp \<in> set (escape_chars p)
       then app esc32 @ [control_escape_char cp]
     else if cp < 0x20 \<or> cp = 0x7F then
       (if \<not> has_prefix then app cp
        else case emit_escaped_value cp p of None \<Rightarrow> app cp | Some out \<Rightarrow> out)
     else app cp)"

definition encode_bytes :: "u8 list \<Rightarrow> profile \<Rightarrow> u8 list" where
  "encode_bytes bytes p = concat (map (\<lambda>u. encode_unit (\<lambda>v. [ucast v]) p (ucast u)) bytes)"

definition encode_u32 :: "u32 list \<Rightarrow> profile \<Rightarrow> u8 list" where
  "encode_u32 cps p = concat (map (encode_unit append_cp p) cps)"

text \<open>\<open>utf8encode\<close>: its output and the offsets of the warnings it records.\<close>

function utf8encode_from :: "nat \<Rightarrow> u8 list \<Rightarrow> profile \<Rightarrow> u8 list \<times> nat list" where
  "utf8encode_from i s p =
    (if s = [] then ([], [])
     else case peek_codepoint s of
       (n, cp) \<Rightarrow>
         if n = SIZE_MAX \<or> n = 0 then
           (case utf8encode_from (Suc i) (tl s) p of (out, ws) \<Rightarrow> (hd s # out, i # ws))
         else case utf8encode_from (i + n) (drop n s) p of
             (out, ws) \<Rightarrow> (encode_u32 [cp] p @ out, ws))"
  by pat_completeness auto
termination
  by (relation "measure (\<lambda>(i, s, p). length s)") (auto simp: neq_Nil_conv)

declare utf8encode_from.simps [simp del]

definition utf8encode :: "u8 list \<Rightarrow> profile \<Rightarrow> u8 list \<times> nat list" where
  "utf8encode s p = utf8encode_from 0 s p"

section \<open>Well-formed profiles\<close>

text \<open>What a profile needs for its encoder to be inverted: ASCII prefix and delimiter; no
  escape letter that the encoder emits for a control character and the decoder would read as
  the delimiter or the prefix; none that shadows a numeric escape; greedy hex only with octal.\<close>

definition profile_ok :: "profile \<Rightarrow> bool" where
  "profile_ok p \<longleftrightarrow> prefix p < 0x80 \<and> delim p < 0x80 \<and>
     (prefix p = 0 \<or> prefix p = delim p \<or>
      list_all (\<lambda>e. fst e \<in> set (escape_chars p) \<longrightarrow> fst e \<noteq> delim p \<and> fst e \<noteq> prefix p) control_escapes \<and>
      list_all (\<lambda>c. c \<notin> set (escape_chars p) \<and> c \<noteq> delim p \<and> c \<noteq> prefix p)
        [0x78, 0x75, 0x55, 0x30, 0x31, 0x32, 0x33, 0x34, 0x35, 0x36, 0x37] \<and>
      (hex_x p = HexX_greedy \<longrightarrow> octal p))"

lemma builtin_profiles_ok: "list_all profile_ok [tgf_string, tgf_char, json, csv, c_like]"
  by (simp add: profile_ok_def tgf_string_def tgf_char_def json_def csv_def c_like_def control_escapes_def)

definition control_units :: "u32 list" where
  "control_units = [0,1,2,3,4,5,6,7,8,9,10,11,12,13,14,15,16,17,18,19,20,21,22,23,24,25,26,27,28,29,30,31,127]"

lemma control_units: "v < 0x20 \<or> v = 0x7F \<Longrightarrow> v \<in> set control_units"
proof -
  assume "v < 0x20 \<or> v = 0x7F"
  moreover have "v \<in> set control_units" if "v < 0x20"
  proof -
    have "unat v < 32" using that by (simp add: word_less_nat_alt)
    then have "unat v \<in> set (map unat control_units)" by (simp add: control_units_def) presburger
    then show ?thesis by (metis imageE list.set_map word_unat_eq_iff)
  qed
  ultimately show ?thesis by (auto simp: control_units_def)
qed

definition hex2_ok where
  "hex2_ok v = (case fmt_radix 16 2 0x61 v of
     [a, b] \<Rightarrow> isxdigit a \<and> isxdigit b \<and> push_bit 4 (hex_val a) OR hex_val b = v | _ \<Rightarrow> False)"
definition oct3_ok where
  "oct3_ok v = (case fmt_radix 8 3 0x61 v of
     [a, b, c] \<Rightarrow> isodigit a \<and> isodigit b \<and> isodigit c \<and>
       (ucast (a - 0x30) * 8 + ucast (b - 0x30)) * 8 + ucast (c - 0x30) = v | _ \<Rightarrow> False)"
definition hexn_ok where
  "hexn_ok n ten v = (length (fmt_radix 16 n ten v) = n \<and> read_nhex (fmt_radix 16 n ten v) n = Some v)"

lemma hex2: "list_all hex2_ok control_units" by code_simp
lemma oct3: "list_all oct3_ok control_units" by code_simp
lemma hex4: "list_all (hexn_ok 4 0x61) control_units" by code_simp
lemma hex8: "list_all (hexn_ok 8 0x41) control_units" by code_simp
lemma small: "list_all (\<lambda>v. v < 0x80 \<and> v \<le> 0xFF \<and> v \<le> 0xFFFF \<and> \<not> 0xD800 \<le> v \<and> \<not> 0xDC00 \<le> v \<and> is_valid_codepoint v) control_units" by code_simp

lemma control_table:
  "list_all (\<lambda>e. control_escape_codepoint (fst e) = snd e \<and> snd e \<noteq> -1 \<and> snd e < 0x80) control_escapes"
  by code_simp

lemma control_escape_char_Some:
  assumes "control_escape_char u \<noteq> 0"
  shows "(control_escape_char u, u) \<in> set control_escapes"
proof -
  have "find (\<lambda>e. snd e = u) xs = None \<or> (\<exists>e. find (\<lambda>e. snd e = u) xs = Some e \<and> snd e = u \<and> e \<in> set xs)"
    for xs :: "(u8 \<times> u32) list"
    by (induction xs) auto
  from this[of control_escapes] show ?thesis
    using assms by (auto simp: control_escape_char_def)
qed

lemma ucast_u8_u32_u8 [simp]: "ucast (ucast (b :: u8) :: u32) = b"
  using unat_u8[of b] unat_ucast_u32_u8[of "ucast b"] unat_ucast_u8_u32[of b]
  by (simp only: word_unat_eq_iff mod_less)

lemma to_cp_small: "to_cp b < 0x80 \<longleftrightarrow> b < 0x80"
  by (simp add: to_cp_def word_less_nat_alt unat_ucast_u8_u32)

lemma append_prefix: "prefix p < 0x80 \<Longrightarrow> append_cp (to_cp (prefix p)) = [prefix p]"
  by (simp add: append_cp_def to_cp_small) (simp add: to_cp_def)

lemma isodigit_cases:
  assumes "isodigit a" shows "a \<in> {0x30, 0x31, 0x32, 0x33, 0x34, 0x35, 0x36, 0x37}"
proof -
  have "unat a \<in> unat ` {0x30 :: u8, 0x31, 0x32, 0x33, 0x34, 0x35, 0x36, 0x37}"
    using assms by (simp add: isodigit_def word_le_nat_alt) presburger
  then show ?thesis by (metis imageE word_unat_eq_iff)
qed

lemma read_nhex_app: "length xs = n \<Longrightarrow> read_nhex (xs @ rest) n = read_nhex xs n"
  by (simp add: read_nhex_def)

locale escape_domain =
  fixes K :: "'o sink" and app :: "u32 \<Rightarrow> u8 list" and val :: "u32 \<Rightarrow> 'o" and ok :: "u32 \<Rightarrow> bool"
  assumes literal: "ok u \<Longrightarrow> sink_literal K (app u @ rest) = (length (app u), [val u])"
    and app_small: "u < 0x80 \<Longrightarrow> app u = [ucast u]"
    and app_big: "ok u \<Longrightarrow> 0x80 \<le> u \<Longrightarrow> app u \<noteq> [] \<and> 0x80 \<le> hd (app u)"
    and small_ok: "u < 0x80 \<Longrightarrow> ok u"
    and unicode_small: "u < 0x80 \<Longrightarrow> sink_unicode K u = [val u]"
    and hexbyte_small: "u < 0x80 \<Longrightarrow> sink_hexbyte K u = [val u]"
    and octal_small: "u < 0x80 \<Longrightarrow> sink_octal K u = Inr [val u]"
begin

lemma app_nonempty: "ok u \<Longrightarrow> app u \<noteq> []"
  using app_small[of u] app_big[of u] by (cases "u < 0x80") auto

lemma hd_app:
  assumes "ok u" "c < 0x80" "u \<noteq> to_cp c" shows "hd (app u) \<noteq> c"
proof (cases "u < 0x80")
  case True
  have "unat (ucast (ucast u :: u8) :: u32) = unat u" using True
    by (simp only: unat_ucast_u8_u32 unat_ucast_u32_u8 word_less_nat_alt) simp
  then have "ucast (ucast u :: u8) = u" by (simp only: word_unat_eq_iff)
  then show ?thesis using True assms by (auto simp: app_small to_cp_def)
next
  case False
  then have "0x80 \<le> hd (app u)" using app_big[of u] assms(1) by (simp add: linorder_not_less)
  then show ?thesis using assms(2) by auto
qed

text \<open>A raw unit: neither the prefix nor, in doubling mode, the delimiter.\<close>

lemma decode_literal:
  assumes "ok u" "profile_ok p" "prefix p \<noteq> 0 \<Longrightarrow> u \<noteq> to_cp (prefix p)"
  shows "decode_core p K i (app u @ rest) = prepend [val u] (decode_core p K (i + length (app u)) rest)"
proof -
  have ne: "app u \<noteq> []" by (rule app_nonempty[OF assms(1)])
  have "prefix p \<noteq> 0 \<Longrightarrow> hd (app u) \<noteq> prefix p"
    using hd_app[OF assms(1), of "prefix p"] assms(2,3) by (auto simp: profile_ok_def)
  then show ?thesis
    using ne literal[OF assms(1)] by (subst decode_core.simps) (auto simp: hd_append Let_def)
qed

lemma decode_escape:
  assumes "prefix p \<noteq> 0" "prefix p \<noteq> delim p" "escape_value p K c (s @ rest) = Inr (out, length s)"
  shows "decode_core p K i ((prefix p # c # s) @ rest)
    = prepend out (decode_core p K (i + length (prefix p # c # s)) rest)"
  using assms by (subst decode_core.simps) (simp add: add.assoc)


lemma escape_control:
  assumes p: "profile_ok p" "prefix p \<noteq> 0" "prefix p \<noteq> delim p"
    and u: "u < 0x20 \<or> u = 0x7F" and e: "emit_escaped_value u p = Some e"
  obtains c s where "e = prefix p # c # s" "\<And>rest. escape_value p K c (s @ rest) = Inr ([val u], length s)"
proof -
  have m: "u \<in> set control_units" by (rule control_units[OF u])
  have sm: "u < 0x80" "u \<le> 0xFF" "u \<le> 0xFFFF" "\<not> 0xD800 \<le> u" "\<not> 0xDC00 \<le> u" "is_valid_codepoint u"
    using m small by (auto simp: list_all_iff)
  have pre: "append_cp (to_cp (prefix p)) = [prefix p]"
    using p by (intro append_prefix) (simp add: profile_ok_def)
  have free: "c \<notin> set (escape_chars p)" "c \<noteq> delim p" "c \<noteq> prefix p"
    if "c \<in> {0x78, 0x75, 0x55, 0x30, 0x31, 0x32, 0x33, 0x34, 0x35, 0x36, 0x37}" for c
    using p that by (auto simp: profile_ok_def)
  consider (oct) "octal p" "e = prefix p # fmt_radix 8 3 0x61 u"
    | (x) "hex_x p \<noteq> HexX_off" "hex_x p \<noteq> HexX_greedy" "e = prefix p # 0x78 # fmt_radix 16 2 0x61 u"
    | (u) "hex_u4 p \<noteq> HexU4_off" "e = prefix p # 0x75 # fmt_radix 16 4 0x61 u"
    | (U) "hex_U8 p" "e = prefix p # 0x55 # fmt_radix 16 8 0x41 u"
    using e sm p by (auto simp: emit_escaped_value_def Let_def pre profile_ok_def split: if_splits)
  then show thesis
  proof cases
    case oct
    have "oct3_ok u" using m oct3 by (auto simp: list_all_iff)
    then obtain a b c where f: "fmt_radix 8 3 0x61 u = [a, b, c]" "isodigit a" "isodigit b" "isodigit c"
      "(ucast (a - 0x30) * 8 + ucast (b - 0x30)) * 8 + ucast (c - 0x30) = u"
      by (auto simp: oct3_ok_def split: list.splits)
    have a: "a \<in> {0x30, 0x31, 0x32, 0x33, 0x34, 0x35, 0x36, 0x37}" by (rule isodigit_cases[OF f(2)])
    have "escape_value p K a ([b, c] @ rest) = Inr ([val u], length [b, c])" for rest
      using a free[of a] oct(1) f sm
      by (auto simp: escape_value_def parse_octal_def octal_small)
    then show ?thesis using that[of a "[b, c]"] oct f(1) by simp
  next
    case x
    have "hex2_ok u" using m hex2 by (auto simp: list_all_iff)
    then obtain a b where f: "fmt_radix 16 2 0x61 u = [a, b]" "isxdigit a" "isxdigit b"
      "push_bit 4 (hex_val a) OR hex_val b = u"
      by (auto simp: hex2_ok_def split: list.splits)
    have "escape_value p K 0x78 ([a, b] @ rest) = Inr ([val u], length [a, b])" for rest
      using x f sm free[of "0x78"]
      by (cases "hex_x p") (simp_all add: escape_value_def parse_hex_x_def hexbyte_small)
    then show ?thesis using that[of "0x78" "[a, b]"] x f(1) by simp
  next
    case u
    have f: "length (fmt_radix 16 4 0x61 u) = 4" "read_nhex (fmt_radix 16 4 0x61 u) 4 = Some u"
      using m hex4 by (auto simp: list_all_iff hexn_ok_def)
    have "escape_value p K 0x75 (fmt_radix 16 4 0x61 u @ rest) = Inr ([val u], 4)" for rest
      using u f sm free[of "0x75"] read_nhex_app[OF f(1), of rest]
      by (auto simp: escape_value_def parse_hex_u4_def unicode_small)
    then show ?thesis using that[of "0x75" "fmt_radix 16 4 0x61 u"] u f(1) by simp
  next
    case U
    have f: "length (fmt_radix 16 8 0x41 u) = 8" "read_nhex (fmt_radix 16 8 0x41 u) 8 = Some u"
      using m hex8 by (auto simp: list_all_iff hexn_ok_def)
    have "escape_value p K 0x55 (fmt_radix 16 8 0x41 u @ rest) = Inr ([val u], 8)" for rest
      using U f sm free[of "0x55"] read_nhex_app[OF f(1), of rest]
      by (simp add: escape_value_def parse_hex_U8_def unicode_small)
    then show ?thesis using that[of "0x55" "fmt_radix 16 8 0x41 u"] U f(1) by simp
  qed
qed


lemma escape_table:
  assumes "(c, u) \<in> set control_escapes" "c \<in> set (escape_chars p)" "profile_ok p"
    "prefix p \<noteq> 0" "prefix p \<noteq> delim p"
  shows "escape_value p K c s = Inr ([val u], 0)" "u < 0x80"
proof -
  have t: "control_escape_codepoint c = u" "u \<noteq> -1" "u < 0x80"
    using control_table assms(1) by (auto simp: list_all_iff)
  moreover have "c \<noteq> delim p" "c \<noteq> prefix p"
    using assms by (auto simp: profile_ok_def list_all_iff)
  ultimately show "escape_value p K c s = Inr ([val u], 0)" "u < 0x80"
    using assms(2) by (simp_all add: escape_value_def unicode_small)
qed

lemma decode_unit:
  assumes u: "ok u" and p: "profile_ok p"
  shows "decode_core p K i (encode_unit app p u @ rest)
    = prepend [val u] (decode_core p K (i + length (encode_unit app p u)) rest)"
proof -
  have app1: "app (to_cp c) = [c]" if "c < 0x80" for c
    using that app_small[of "to_cp c"] by (simp add: to_cp_small) (simp add: to_cp_def)
  have sm: "prefix p < 0x80" "delim p < 0x80" using p by (simp_all add: profile_ok_def)
  have uni: "sink_unicode K (to_cp c) = [val (to_cp c)]" if "c < 0x80" for c
    using that by (simp add: unicode_small to_cp_small)
  consider (plain) "prefix p = 0" | (dbl) "prefix p \<noteq> 0" "prefix p = delim p"
    | (esc) "prefix p \<noteq> 0" "prefix p \<noteq> delim p" by blast
  then show ?thesis
  proof cases
    case plain
    then have "encode_unit app p u = app u" by (auto simp: encode_unit_def Let_def)
    then show ?thesis using decode_literal[OF u p] plain by simp
  next
    case dbl
    show ?thesis
    proof (cases "u = to_cp (delim p)")
      case True
      have "encode_unit app p u = [delim p, delim p]"
        using True dbl app1[OF sm(2)] by (simp add: encode_unit_def)
      then show ?thesis
        using dbl True uni[OF sm(2)] by (subst decode_core.simps) simp
    next
      case False
      then have "encode_unit app p u = app u" using dbl by (auto simp: encode_unit_def Let_def)
      then show ?thesis using decode_literal[OF u p] dbl False by simp
    qed
  next
    case esc
    have doubled: ?thesis if "u = to_cp c" "c = delim p \<or> c = prefix p" for c
    proof -
      have c: "c < 0x80" using that sm by auto
      have e: "encode_unit app p u = prefix p # c # []"
        using that esc app1[OF sm(1)] app1[OF c] by (auto simp: encode_unit_def Let_def simp del: if_cancel)
      have "escape_value p K c ([] @ rest) = Inr ([val u], length [])"
        using that uni[OF c] by (auto simp: escape_value_def)
      from decode_escape[OF esc this] show ?thesis by (simp add: e)
    qed
    show ?thesis
    proof (cases "u = to_cp (delim p) \<or> u = to_cp (prefix p)")
      case True then show ?thesis using doubled by blast
    next
      case no: False
      let ?c = "control_escape_char u"
      show ?thesis
      proof (cases "?c \<noteq> 0 \<and> ?c \<in> set (escape_chars p)")
        case True
        have e: "encode_unit app p u = prefix p # ?c # []"
          using True no esc app1[OF sm(1)] by (simp add: encode_unit_def)
        have "escape_value p K ?c ([] @ rest) = Inr ([val u], length [])"
          using escape_table(1)[OF control_escape_char_Some _ p esc] True by simp
        from decode_escape[OF esc this] show ?thesis by (simp add: e)
      next
        case nt: False
        show ?thesis
        proof (cases "(u < 0x20 \<or> u = 0x7F) \<and> emit_escaped_value u p \<noteq> None")
          case True
          then obtain e where e: "u < 0x20 \<or> u = 0x7F" "emit_escaped_value u p = Some e" by auto
          then have enc: "encode_unit app p u = e"
            using no nt esc by (auto simp: encode_unit_def)
          obtain c s where "e = prefix p # c # s"
              "\<And>rest. escape_value p K c (s @ rest) = Inr ([val u], length s)"
            using escape_control[OF p esc e] by metis
          with decode_escape[OF esc this(2)] enc show ?thesis by simp
        next
          case False
          then have "encode_unit app p u = app u"
            using no nt esc by (auto simp: encode_unit_def Let_def)
          then show ?thesis using decode_literal[OF u p] no by simp
        qed
      qed
    qed
  qed
qed

lemma decode_units:
  assumes "profile_ok p" "list_all ok us"
  shows "decode_core p K i (concat (map (encode_unit app p) us)) = Inr (map val us)"
  using assms(2)
proof (induction us arbitrary: i)
  case Nil then show ?case by (simp add: decode_core.simps)
next
  case (Cons u us)
  then show ?case using decode_unit[OF _ assms(1), of u] by (simp add: prepend_def)
qed

end

lemma ucast_u32_small: "u < 0x100 \<Longrightarrow> ucast (ucast (u :: u32) :: u8) = u"
  by (simp add: word_unat_eq_iff word_less_nat_alt unat_ucast_u8_u32 unat_ucast_u32_u8)

lemma ucast_u8_ge: "u < 0x100 \<Longrightarrow> 0x80 \<le> u \<Longrightarrow> 0x80 \<le> (ucast (u :: u32) :: u8)"
  by (simp add: word_less_nat_alt word_le_nat_alt unat_ucast_u32_u8)

lemma u32_less_0x80: "(u :: u32) < 0x80 \<Longrightarrow> u < 0x100 \<and> u \<le> 0xFF \<and> is_valid_codepoint u"
  by (simp add: word_less_nat_alt word_le_nat_alt is_valid_codepoint_def)

interpretation bytes: escape_domain utf8sink "\<lambda>v. [ucast v]" ucast "\<lambda>u. u < 0x100"
  by unfold_locales
    (auto simp: utf8sink_def append_cp_def ucast_u8_ge not_less dest: u32_less_0x80)

lemma append_cp_emit: "append_cp u = emit_codepoint u"
  by (simp add: append_cp_def emit_codepoint_def)

lemma emit_codepoint_big:
  assumes "is_valid_codepoint u" "0x80 \<le> u"
  shows "emit_codepoint u \<noteq> [] \<and> 0x80 \<le> hd (emit_codepoint u)"
proof -
  have u: "128 \<le> unat u" "unat u < 1114112"
    using assms by (simp_all add: word_le_nat_alt is_valid_codepoint_nat valid_nat_def)
  then obtain a r where e: "enc (unat u) = a # r" "128 \<le> a"
    by (cases "unat u < 2048"; cases "unat u < 65536") (simp_all add: enc_def)
  then obtain b s where "emit_codepoint u = b # s" "unat b = a"
    using emit_enc[of u] by auto
  then show ?thesis using e(2) by (simp add: word_le_nat_alt)
qed

interpretation cps: escape_domain u32sink append_cp id is_valid_codepoint
proof
  show "is_valid_codepoint u \<Longrightarrow> sink_literal u32sink (append_cp u @ rest) = (length (append_cp u), [id u])"
    for u rest
    using utf8.peek_emit[of u rest] utf8.emit_step[of u] by (simp add: u32sink_def append_cp_emit)
  show "is_valid_codepoint u \<Longrightarrow> 0x80 \<le> u \<Longrightarrow> append_cp u \<noteq> [] \<and> 0x80 \<le> hd (append_cp u)" for u
    using emit_codepoint_big by (simp add: append_cp_emit)
qed (auto simp: u32sink_def append_cp_def dest: u32_less_0x80)

section \<open>Properties\<close>

text \<open>C32: for every well-formed profile (all five built-in ones are) the byte encoder is
  inverted by the byte decoder: whatever the bytes, quotes, prefixes and control characters
  included, decoding what \<open>encode\<close> wrote succeeds and returns them.\<close>

theorem encode_decode_bytes:
  assumes "profile_ok p"
  shows "decode (encode_bytes bs p) p = Inr bs"
proof -
  have "list_all (\<lambda>u. u < 0x100) (map ucast bs :: u32 list)"
    using unat_u8 by (auto simp: list_all_iff word_less_nat_alt unat_ucast_u8_u32)
  from bytes.decode_units[OF assms this, of 0] show ?thesis
    by (simp add: decode_def encode_bytes_def comp_def)
qed

theorem encode_decode_bytes_witness:
  "list_all (\<lambda>p. decode (encode_bytes [0x61, 0x22, 0x5c, 0x01, 0x0a, 0xff] p) p
     = Inr [0x61, 0x22, 0x5c, 0x01, 0x0a, 0xff]) [tgf_string, tgf_char, json, csv, c_like]"
  using builtin_profiles_ok encode_decode_bytes by (simp add: list_all_iff)

text \<open>the same for Unicode strings: decoding the UTF-8 body that \<open>encode\<close> wrote for a
  string of scalar values returns exactly those code points.\<close>

theorem encode_decode_codepoints:
  assumes "profile_ok p" "list_all is_valid_codepoint cs"
  shows "u32decode (encode_u32 cs p) p = Inr cs"
  using cps.decode_units[OF assms, of 0] by (simp add: u32decode_def encode_u32_def)

theorem encode_decode_codepoints_witness:
  "u32decode (encode_u32 [0x22, 0x1F600, 0x7f, 0x5c] json) json = Inr [0x22, 0x1F600, 0x7f, 0x5c]"
proof (rule encode_decode_codepoints)
  show "profile_ok json" using builtin_profiles_ok by simp
  show "list_all is_valid_codepoint [0x22, 0x1F600, 0x7f, 0x5c]" by (simp add: is_valid_codepoint_def)
qed

end
