(* ===== verification/ReplHistory.thy ===== *)
theory ReplHistory
  imports Prelude
begin

text \<open>
  The REPL command history of \<open>src/src/utility/repl_history.h\<close>: the entry list, the navigation
  cursor, the parked live buffer, and the line-delimited file it persists to. The file is its
  content (\<open>None\<close>: it does not exist); \<open>store\<close> is told whether the file can be opened.
\<close>

section \<open>State and operations\<close>

record repl_history =
  entries :: "string list"
  hpos :: nat
  stash :: "string option"

abbreviation nl :: char where "nl \<equiv> CHR 0x0A"
abbreviation bs :: char where "bs \<equiv> CHR 0x5C"

definition escape :: "string \<Rightarrow> string" where
  "escape s = concat (map (\<lambda>c. if c = bs then [bs, bs] else if c = nl then [bs, CHR ''n''] else [c]) s)"

fun unescape :: "string \<Rightarrow> string" where
  "unescape [] = []"
| "unescape [c] = [c]"
| "unescape (c # d # s) =
     (if c = bs then (if d = CHR ''n'' then nl else if d = bs then bs else d) # unescape s
      else c # unescape (d # s))"

text \<open>\<open>std::getline\<close> until it fails: the lines of the file; a last line without a newline counts,
  an empty rest does not.\<close>

function getlines :: "string \<Rightarrow> string list" where
  "getlines s =
     (if s = [] then []
      else takeWhile (\<lambda>c. c \<noteq> nl) s # getlines (drop 1 (dropWhile (\<lambda>c. c \<noteq> nl) s)))"
  by pat_completeness auto
termination
proof (relation "measure length")
  fix s :: string
  assume "s \<noteq> []"
  then show "(drop 1 (dropWhile (\<lambda>c. c \<noteq> nl) s), s) \<in> measure length"
    using length_dropWhile_le[of "\<lambda>c. c \<noteq> nl" s] by (cases s) auto
qed simp

declare getlines.simps [simp del]

definition load_entries :: "string \<Rightarrow> string list" where
  "load_entries content = map unescape (filter (\<lambda>line. line \<noteq> []) (getlines content))"

definition load :: "string option \<Rightarrow> repl_history" where
  "load file =
     (case file of
        None \<Rightarrow> \<lparr>entries = [], hpos = 0, stash = None\<rparr>
      | Some content \<Rightarrow>
          (let es = load_entries content in \<lparr>entries = es, hpos = length es, stash = None\<rparr>))"

definition store :: "bool \<Rightarrow> string \<Rightarrow> repl_history \<times> string option \<Rightarrow> repl_history \<times> string option" where
  "store opens s = (\<lambda>(h, file).
     let h = h\<lparr>stash := None\<rparr> in
     if entries h \<noteq> [] \<and> last (entries h) = s then (h\<lparr>hpos := length (entries h)\<rparr>, file)
     else
       let h = h\<lparr>entries := entries h @ [s]\<rparr>; h = h\<lparr>hpos := length (entries h)\<rparr> in
       (h, if opens then Some ((case file of None \<Rightarrow> [] | Some content \<Rightarrow> content) @ escape s @ [nl])
           else file))"

text \<open>The navigation methods give what the editor shows and the new state.\<close>

definition prev :: "string \<Rightarrow> repl_history \<Rightarrow> string option \<times> repl_history" where
  "prev current h =
     (if entries h = [] \<or> hpos h = 0 then (None, h)
      else
        let h = (if hpos h = length (entries h) \<and> current \<noteq> [] then h\<lparr>stash := Some current\<rparr> else h);
            h = h\<lparr>hpos := hpos h - 1\<rparr>
        in (Some (entries h ! hpos h), h))"

definition next_entry :: "repl_history \<Rightarrow> string option \<times> repl_history" where
  "next_entry h =
     (if hpos h = length (entries h) then (None, h)
      else
        let h = h\<lparr>hpos := hpos h + 1\<rparr> in
        if hpos h = length (entries h)
        then (Some (case stash h of None \<Rightarrow> [] | Some s \<Rightarrow> s), h\<lparr>stash := None\<rparr>)
        else (Some (entries h ! hpos h), h))"

definition first_entry :: "repl_history \<Rightarrow> string option \<times> repl_history" where
  "first_entry h =
     (if entries h = [] \<or> hpos h = 0 then (None, h)
      else let h = h\<lparr>hpos := 0\<rparr> in (Some (entries h ! hpos h), h))"

definition past_end :: "repl_history \<Rightarrow> string option \<times> repl_history" where
  "past_end h =
     (if hpos h = length (entries h) then (None, h)
      else (Some [], h\<lparr>hpos := length (entries h)\<rparr>))"

text \<open>A session: the constructor, then any calls of the public operations.\<close>

inductive session :: "string option \<Rightarrow> repl_history \<times> string option \<Rightarrow> bool" for f0 where
  start: "session f0 (load f0, f0)"
| stores: "session f0 hf \<Longrightarrow> session f0 (store True s hf)"
| prevs: "session f0 (h, f) \<Longrightarrow> session f0 (snd (prev current h), f)"
| nexts: "session f0 (h, f) \<Longrightarrow> session f0 (snd (next_entry h), f)"
| firsts: "session f0 (h, f) \<Longrightarrow> session f0 (snd (first_entry h), f)"
| past_ends: "session f0 (h, f) \<Longrightarrow> session f0 (snd (past_end h), f)"

lemmas nav_defs = prev_def next_entry_def first_entry_def past_end_def

section \<open>The file format\<close>

lemma unescape_escape: "unescape (escape s) = s"
proof (induction s)
  case (Cons c s)
  have step: "unescape (d # escape s) = d # unescape (escape s)" if "d \<noteq> bs" for d
    using that by (cases "escape s") auto
  from Cons show ?case by (auto simp: escape_def step[unfolded escape_def])
qed (simp add: escape_def)

lemma escape_no_nl: "nl \<notin> set (escape s)"
  by (auto simp: escape_def split: if_splits)

lemma escape_Nil_iff: "escape s = [] \<longleftrightarrow> s = []"
  by (cases s) (auto simp: escape_def)

definition terminated :: "string \<Rightarrow> bool" where
  "terminated content \<longleftrightarrow> content = [] \<or> last content = nl"

lemma takeWhile_line: "nl \<notin> set l \<Longrightarrow> takeWhile (\<lambda>c. c \<noteq> nl) (l @ nl # r) = l"
  and dropWhile_line: "nl \<notin> set l \<Longrightarrow> dropWhile (\<lambda>c. c \<noteq> nl) (l @ nl # r) = nl # r"
  by (induction l) auto

lemma getlines_line: "nl \<notin> set l \<Longrightarrow> getlines (l @ nl # r) = l # getlines r"
  by (subst getlines.simps) (simp add: takeWhile_line dropWhile_line)

lemma getlines_append:
  "terminated a \<Longrightarrow> getlines (a @ b) = getlines a @ getlines b"
proof (induction "length a" arbitrary: a rule: less_induct)
  case less
  show ?case
  proof (cases "a = []")
    case True then show ?thesis by (simp add: getlines.simps[of "[]"])
  next
    case False
    with less.prems have "nl \<in> set a" using last_in_set by (fastforce simp: terminated_def)
    then obtain l r where a: "a = l @ nl # r" "nl \<notin> set l" by (metis split_list_first)
    have "terminated r" using less.prems a by (auto simp: terminated_def split: if_splits)
    then show ?thesis using less.hyps[of r] a by (simp add: getlines_line)
  qed
qed

lemma load_entries_store:
  assumes "terminated content"
  shows "load_entries (content @ escape s @ [nl]) = load_entries content @ (if s = [] then [] else [s])"
    and "terminated (content @ escape s @ [nl])"
  using getlines_line[OF escape_no_nl, of s "[]"]
  by (simp_all add: load_entries_def getlines_append[OF assms] getlines.simps[of "[]"]
      unescape_escape escape_Nil_iff terminated_def)

section \<open>Invariant\<close>

definition history_ok :: "repl_history \<times> string option \<Rightarrow> bool" where
  "history_ok = (\<lambda>(h, file). hpos h \<le> length (entries h) \<and>
     (case file of None \<Rightarrow> entries h = []
      | Some content \<Rightarrow> terminated content \<and>
          load_entries content = filter (\<lambda>e. e \<noteq> []) (entries h)))"

lemma load_entries_nonempty: "[] \<notin> set (load_entries content)"
proof
  assume "[] \<in> set (load_entries content)"
  then obtain l where "unescape l = []" "l \<noteq> []" by (auto simp: load_entries_def) metis
  then show False by (cases l rule: unescape.cases) (auto split: if_splits)
qed

lemma history_ok_load: "pred_option terminated fl \<Longrightarrow> history_ok (load fl, fl)"
proof -
  have "filter (\<lambda>e. e \<noteq> []) (load_entries c) = load_entries c" for c
    using load_entries_nonempty[of c] by (simp add: filter_id_conv) (metis)
  then show "pred_option terminated fl \<Longrightarrow> history_ok (load fl, fl)"
    by (cases fl) (simp_all add: load_def history_ok_def Let_def)
qed

lemma store_cases:
  "store True s (h, file) =
    (if entries h \<noteq> [] \<and> last (entries h) = s
     then (h\<lparr>stash := None, hpos := length (entries h)\<rparr>, file)
     else (h\<lparr>entries := entries h @ [s], hpos := Suc (length (entries h)), stash := None\<rparr>,
           Some ((case file of None \<Rightarrow> [] | Some content \<Rightarrow> content) @ escape s @ [nl])))"
  by (cases h) (simp add: store_def Let_def)

lemma history_ok_store: "history_ok hf \<Longrightarrow> history_ok (store True s hf)"
proof (cases hf)
  case (Pair h fl)
  assume ok: "history_ok hf"
  have nil: "terminated []" "load_entries [] = []"
    by (simp_all add: terminated_def load_entries_def getlines.simps[of "[]"])
  let ?old = "case fl of None \<Rightarrow> [] | Some content \<Rightarrow> content"
  have "terminated ?old" "load_entries ?old = filter (\<lambda>e. e \<noteq> []) (entries h)"
    using ok nil by (auto simp: history_ok_def Pair split: option.splits)
  with load_entries_store[of ?old s] show ?thesis
    using ok unfolding Pair store_cases by (cases fl) (auto simp: history_ok_def)
qed

lemma nav_keeps:
  "entries (snd (prev c h)) = entries h" "entries (snd (next_entry h)) = entries h"
  "entries (snd (first_entry h)) = entries h" "entries (snd (past_end h)) = entries h"
  "hpos h \<le> length (entries h) \<Longrightarrow> hpos (snd (prev c h)) \<le> length (entries h)"
  "hpos h \<le> length (entries h) \<Longrightarrow> hpos (snd (next_entry h)) \<le> length (entries h)"
  "hpos h \<le> length (entries h) \<Longrightarrow> hpos (snd (first_entry h)) \<le> length (entries h)"
  "hpos (snd (past_end h)) \<le> length (entries h)"
  by (auto simp: nav_defs Let_def)

lemma history_ok_session:
  assumes "session f0 hf" "pred_option terminated f0"
  shows "history_ok hf"
  using assms(1)
proof induction
  case start
  show ?case by (rule history_ok_load[OF assms(2)])
next
  case (stores hf s) then show ?case by (intro history_ok_store)
qed (auto simp: history_ok_def nav_keeps split: option.splits)

section \<open>Properties\<close>

text \<open>C33: in a session that started from a file whose last line is terminated (or from none),
  after any sequence of stores and navigation the cursor is in range, and constructing a new
  history from the file gives back exactly the non-empty entries in order: newlines and
  backslashes in an entry survive. (An empty entry is written as an empty line, which \<open>load\<close>
  skips.)\<close>

theorem session_persistence:
  assumes "session f0 (h, Some content)" "pred_option terminated f0"
  shows "hpos h \<le> length (entries h) \<and>
    entries (load (Some content)) = filter (\<lambda>e. e \<noteq> []) (entries h)"
  using history_ok_session[OF assms] by (simp add: history_ok_def load_def Let_def)

theorem session_persistence_witness:
  "\<exists>h content. session None (h, Some content) \<and> entries h = [[CHR ''a'', nl, bs], []] \<and>
     entries (load (Some content)) = [[CHR ''a'', nl, bs]]"
proof -
  let ?s = "store True [] (store True [CHR ''a'', nl, bs] (load None, None))"
  have s: "session None ?s" by (intro stores start)
  obtain h content where e: "?s = (h, Some content)" "entries h = [[CHR ''a'', nl, bs], []]"
    by (simp add: store_def load_def Let_def)
  show ?thesis using session_persistence[of None h content] s e by auto
qed

lemma prevs_state:
  assumes "hpos h = length (entries h)" "c \<noteq> []" "length cs < length (entries h)"
  shows "fold (\<lambda>c h. snd (prev c h)) (c # cs) h
    = h\<lparr>hpos := length (entries h) - Suc (length cs), stash := Some c\<rparr>"
  using assms
proof (induction cs rule: rev_induct)
  case Nil
  then show ?case by (cases h) (auto simp: prev_def Let_def)
next
  case (snoc d cs)
  then show ?case by (cases h) (auto simp: prev_def Let_def)
qed

lemma nexts_state:
  assumes "k < length (entries h) - hpos h"
  shows "((\<lambda>h. snd (next_entry h)) ^^ k) h = h\<lparr>hpos := hpos h + k\<rparr>"
  using assms by (induction k) (cases h; auto simp: next_entry_def Let_def)+

text \<open>stepping up any number of times from the live edit buffer and down the same number of
  times shows the live buffer again, and leaves the history as it was.\<close>

theorem prev_next_restores:
  assumes "hpos h = length (entries h)" "stash h = None" "c \<noteq> []" "length cs < length (entries h)"
  shows "next_entry (((\<lambda>h. snd (next_entry h)) ^^ length cs) (fold (\<lambda>c h. snd (prev c h)) (c # cs) h))
    = (Some c, h)"
proof -
  let ?h = "h\<lparr>hpos := length (entries h) - Suc (length cs), stash := Some c\<rparr>"
  have "((\<lambda>h. snd (next_entry h)) ^^ length cs) ?h = ?h\<lparr>hpos := hpos ?h + length cs\<rparr>"
    using assms(4) by (intro nexts_state) simp
  then show ?thesis
    unfolding prevs_state[OF assms(1,3,4)] using assms
    by (cases h) (auto simp: next_entry_def Let_def)
qed

theorem prev_next_restores_witness:
  "next_entry (snd (next_entry (fold (\<lambda>c h. snd (prev c h)) [''x'', ''b'']
      \<lparr>entries = [''a'', ''b''], hpos = 2, stash = None\<rparr>)))
    = (Some ''x'', \<lparr>entries = [''a'', ''b''], hpos = 2, stash = None\<rparr>)"
  using prev_next_restores[of "\<lparr>entries = [''a'', ''b''], hpos = 2, stash = None\<rparr>" "''x''" "[''b'']"]
  by simp

end
