(* ===== verification/Ordered.thy ===== *)
theory Ordered
  imports Prelude
begin

text \<open>
  \<open>std::set\<close> and \<open>std::map\<close> as the sources use them: a strictly increasing list under the
  comparator of the container. \<open>insert\<close> keeps an equivalent element that is already there.
  The locale \<open>comparator\<close> states what the C++ containers require of \<open>operator<\<close> (a strict weak
  order) and proves what the components use of \<open>insert\<close>, \<open>find\<close>, \<open>erase\<close> and of the
  lexicographic order that \<open>std::vector\<close> and \<open>std::set\<close> derive from their elements.
\<close>

section \<open>Operations\<close>

fun lex_less :: "('a \<Rightarrow> 'a \<Rightarrow> bool) \<Rightarrow> 'a list \<Rightarrow> 'a list \<Rightarrow> bool" where
  "lex_less lt [] ys = (ys \<noteq> [])"
| "lex_less lt (x # xs) [] = False"
| "lex_less lt (x # xs) (y # ys) = (lt x y \<or> \<not> lt y x \<and> lex_less lt xs ys)"

definition pair_less :: "('a \<Rightarrow> 'a \<Rightarrow> bool) \<Rightarrow> ('b \<Rightarrow> 'b \<Rightarrow> bool) \<Rightarrow> 'a \<times> 'b \<Rightarrow> 'a \<times> 'b \<Rightarrow> bool" where
  "pair_less lt lt' x y =
     (lt (fst x) (fst y) \<or> \<not> lt (fst y) (fst x) \<and> lt' (snd x) (snd y))"

definition equiv :: "('a \<Rightarrow> 'a \<Rightarrow> bool) \<Rightarrow> 'a \<Rightarrow> 'a \<Rightarrow> bool" where
  "equiv lt x y \<longleftrightarrow> \<not> lt x y \<and> \<not> lt y x"

fun sinsert :: "('a \<Rightarrow> 'a \<Rightarrow> bool) \<Rightarrow> 'a \<Rightarrow> 'a list \<Rightarrow> 'a list" where
  "sinsert lt x [] = [x]"
| "sinsert lt x (y # ys) =
     (if lt x y then x # y # ys else if lt y x then y # sinsert lt x ys else y # ys)"

definition sinserts :: "('a \<Rightarrow> 'a \<Rightarrow> bool) \<Rightarrow> 'a list \<Rightarrow> 'a list \<Rightarrow> 'a list" where
  "sinserts lt xs s = fold (sinsert lt) xs s"

definition sset :: "('a \<Rightarrow> 'a \<Rightarrow> bool) \<Rightarrow> 'a list \<Rightarrow> 'a list" where
  "sset lt xs = sinserts lt xs []"

definition scontains :: "('a \<Rightarrow> 'a \<Rightarrow> bool) \<Rightarrow> 'a \<Rightarrow> 'a list \<Rightarrow> bool" where
  "scontains lt x s = list_ex (equiv lt x) s"

definition serase :: "('a \<Rightarrow> 'a \<Rightarrow> bool) \<Rightarrow> 'a \<Rightarrow> 'a list \<Rightarrow> 'a list" where
  "serase lt x s = filter (\<lambda>y. \<not> equiv lt x y) s"

text \<open>\<open>std::map\<close>: assignment through \<open>operator[]\<close>.\<close>

fun smap_update :: "('k \<Rightarrow> 'k \<Rightarrow> bool) \<Rightarrow> 'k \<Rightarrow> 'v \<Rightarrow> ('k \<times> 'v) list \<Rightarrow> ('k \<times> 'v) list" where
  "smap_update lt k v [] = [(k, v)]"
| "smap_update lt k v ((k', v') # m) =
     (if lt k k' then (k, v) # (k', v') # m
      else if lt k' k then (k', v') # smap_update lt k v m
      else (k', v) # m)"

section \<open>Strict weak orders\<close>

locale comparator =
  fixes lt :: "'a \<Rightarrow> 'a \<Rightarrow> bool"
  assumes irrefl: "\<not> lt x x"
    and trans: "lt x y \<Longrightarrow> lt y z \<Longrightarrow> lt x z"
    and neg_trans: "\<not> lt x y \<Longrightarrow> \<not> lt y z \<Longrightarrow> \<not> lt x z"
begin

lemma asym: "lt x y \<Longrightarrow> \<not> lt y x"
  using irrefl trans by blast

lemma equiv_refl [simp]: "equiv lt x x"
  by (simp add: equiv_def irrefl)

lemma equiv_trans: "equiv lt x y \<Longrightarrow> equiv lt y z \<Longrightarrow> equiv lt x z"
  unfolding equiv_def using neg_trans by blast

lemma equiv_less_left: "equiv lt x y \<Longrightarrow> lt x z \<longleftrightarrow> lt y z"
  and equiv_less_right: "equiv lt x y \<Longrightarrow> lt z x \<longleftrightarrow> lt z y"
  unfolding equiv_def using neg_trans by blast+

lemma set_sinsert_sub: "set (sinsert lt x s) \<subseteq> insert x (set s)"
  by (induction s) auto

lemma set_sinsert_sup: "set s \<subseteq> set (sinsert lt x s)"
  by (induction s) auto

lemma sinsert_has: "\<exists>y \<in> set (sinsert lt x s). equiv lt x y"
  by (induction s) (auto simp: equiv_def irrefl)

lemma sinsert_new: "\<forall>y \<in> set s. \<not> equiv lt x y \<Longrightarrow> set (sinsert lt x s) = insert x (set s)"
  by (induction s) (auto simp: equiv_def)

lemma sinsert_old: "sorted_wrt lt s \<Longrightarrow> y \<in> set s \<Longrightarrow> equiv lt x y \<Longrightarrow> sinsert lt x s = s"
proof (induction s)
  case (Cons z s)
  show ?case
  proof (cases "y = z")
    case True then show ?thesis using Cons.prems by (simp add: equiv_def)
  next
    case False
    then have y: "y \<in> set s" "lt z y" using Cons.prems by auto
    then have "lt z x" using equiv_less_right[OF Cons.prems(3)] by simp
    then show ?thesis using Cons y asym by auto
  qed
qed simp

lemma sorted_sinsert: "sorted_wrt lt s \<Longrightarrow> sorted_wrt lt (sinsert lt x s)"
proof (induction s)
  case (Cons y s)
  then show ?case using set_sinsert_sub[of x s] trans by auto
qed simp

lemma sorted_sinserts: "sorted_wrt lt s \<Longrightarrow> sorted_wrt lt (sinserts lt xs s)"
  unfolding sinserts_def by (induction xs arbitrary: s) (auto intro: sorted_sinsert)

lemma sorted_sset: "sorted_wrt lt (sset lt xs)"
  by (simp add: sset_def sorted_sinserts)

lemma sorted_serase: "sorted_wrt lt s \<Longrightarrow> sorted_wrt lt (serase lt x s)"
  by (simp add: serase_def sorted_wrt_filter)

lemma set_sinserts_sub: "set (sinserts lt xs s) \<subseteq> set xs \<union> set s"
  unfolding sinserts_def
proof (induction xs arbitrary: s)
  case (Cons x xs)
  then show ?case using set_sinsert_sub[of x s] by fastforce
qed simp

lemma set_sinserts_sup: "set s \<subseteq> set (sinserts lt xs s)"
  unfolding sinserts_def
proof (induction xs arbitrary: s)
  case (Cons x xs)
  then show ?case using set_sinsert_sup[of s x] by fastforce
qed simp

lemma sinserts_has: "x \<in> set xs \<Longrightarrow> \<exists>y \<in> set (sinserts lt xs s). equiv lt x y"
  unfolding sinserts_def
proof (induction xs arbitrary: s)
  case (Cons z xs)
  show ?case
  proof (cases "x = z")
    case True
    then obtain y where "y \<in> set (sinsert lt z s)" "equiv lt x y" using sinsert_has by blast
    then show ?thesis using set_sinserts_sup[of "sinsert lt z s" xs] by (auto simp: sinserts_def)
  next
    case False then show ?thesis using Cons by simp
  qed
qed simp

text \<open>Where the comparator tells the elements apart, insertion is set insertion.\<close>

definition separates :: "'a set \<Rightarrow> bool" where
  "separates S \<longleftrightarrow> (\<forall>x \<in> S. \<forall>y \<in> S. equiv lt x y \<longrightarrow> x = y)"

lemma separates_mono: "separates S \<Longrightarrow> T \<subseteq> S \<Longrightarrow> separates T"
  unfolding separates_def by blast

lemma set_sinserts:
  assumes "separates (set xs \<union> set s)"
  shows "set (sinserts lt xs s) = set xs \<union> set s"
proof
  show "set (sinserts lt xs s) \<subseteq> set xs \<union> set s" by (rule set_sinserts_sub)
  show "set xs \<union> set s \<subseteq> set (sinserts lt xs s)"
  proof
    fix x assume x: "x \<in> set xs \<union> set s"
    then obtain y where y: "y \<in> set (sinserts lt xs s)" "equiv lt x y"
      using sinserts_has[of x xs s] set_sinserts_sup[of s xs] equiv_refl by blast
    then have "x = y" using assms x set_sinserts_sub[of xs s] unfolding separates_def by blast
    with y show "x \<in> set (sinserts lt xs s)" by simp
  qed
qed

lemma sinsert_commute:
  "sorted_wrt lt s \<Longrightarrow> \<not> equiv lt x y \<Longrightarrow> sinsert lt x (sinsert lt y s) = sinsert lt y (sinsert lt x s)"
proof (induction s)
  case Nil
  then show ?case by (auto simp: equiv_def dest: asym)
next
  case (Cons z s)
  have t: "lt a b \<Longrightarrow> lt b c \<Longrightarrow> lt a c" for a b c using trans by blast
  have n: "\<not> lt a b \<Longrightarrow> \<not> lt b c \<Longrightarrow> \<not> lt a c" for a b c using neg_trans by blast
  show ?case
    using Cons by (auto simp: equiv_def dest: asym t n)
qed

text \<open>Inserting a list is inserting the set made of it.\<close>

lemma sinserts_snoc: "sinserts lt (xs @ [x]) s = sinsert lt x (sinserts lt xs s)"
  by (simp add: sinserts_def)

lemma sinserts_sinsert:
  "sorted_wrt lt s \<Longrightarrow> \<forall>y \<in> set xs. \<not> equiv lt x y \<Longrightarrow> sinserts lt (sinsert lt x xs) s = sinsert lt x (sinserts lt xs s)"
proof (induction xs arbitrary: s)
  case Nil
  then show ?case by (simp add: sinserts_def)
next
  case (Cons y xs)
  have move: "sinserts lt zs (sinsert lt x t) = sinsert lt x (sinserts lt zs t)"
    if "sorted_wrt lt t" "\<forall>z \<in> set zs. \<not> equiv lt x z" for zs t
    using that
  proof (induction zs arbitrary: t)
    case (Cons z zs)
    then have "sinsert lt z (sinsert lt x t) = sinsert lt x (sinsert lt z t)" using sinsert_commute[of t x z] by simp
    then show ?case using Cons sorted_sinsert by (simp add: sinserts_def)
  qed (simp add: sinserts_def)
  show ?case
  proof (cases "lt x y")
    case True
    then show ?thesis using move[of s "y # xs"] Cons.prems by (simp add: sinserts_def)
  next
    case False
    then have "lt y x" using Cons.prems(2) by (simp add: equiv_def)
    then show ?thesis using Cons.IH[of "sinsert lt y s"] Cons.prems False sorted_sinsert by (simp add: sinserts_def)
  qed
qed

lemma sinserts_sset:
  assumes "sorted_wrt lt s"
  shows "sinserts lt (sset lt xs) s = sinserts lt xs s"
proof (induction xs rule: rev_induct)
  case Nil
  then show ?case by (simp add: sset_def sinserts_def)
next
  case (snoc x xs)
  have e: "sset lt (xs @ [x]) = sinsert lt x (sset lt xs)" by (simp add: sset_def sinserts_snoc)
  show ?case
  proof (cases "\<exists>y \<in> set (sset lt xs). equiv lt x y")
    case True
    then obtain y where y: "y \<in> set (sset lt xs)" "equiv lt x y" by blast
    have "sset lt (xs @ [x]) = sset lt xs" unfolding e by (rule sinsert_old[OF sorted_sset y])
    moreover obtain z where z: "z \<in> set (sinserts lt (sset lt xs) s)" "equiv lt y z" using sinserts_has[OF y(1)] by blast
    have "sinsert lt x (sinserts lt xs s) = sinserts lt xs s"
      by (rule sinsert_old[OF sorted_sinserts[OF assms] z(1)[unfolded snoc] equiv_trans[OF y(2) z(2)]])
    ultimately show ?thesis using snoc by (simp add: sinserts_snoc)
  next
    case False
    then show ?thesis using sinserts_sinsert[OF assms, of "sset lt xs" x] snoc by (simp add: e sinserts_snoc)
  qed
qed

lemma sorted_separates: "sorted_wrt lt s \<Longrightarrow> separates (set s)"
proof (induction s)
  case (Cons x s)
  then show ?case unfolding separates_def by (auto simp: equiv_def)
qed (simp add: separates_def)

lemma keys_smap_update: "fst ` set (smap_update lt k v m) \<subseteq> insert k (fst ` set m)"
proof (induction m)
  case (Cons e m)
  then show ?case by (cases e) (auto split: if_splits)
qed simp

lemma sorted_smap_update: "sorted_wrt lt (map fst m) \<Longrightarrow> sorted_wrt lt (map fst (smap_update lt k v m))"
proof (induction m)
  case (Cons e m)
  have "\<forall>x \<in> fst ` set (smap_update lt k v m). lt (fst e) x" if "lt (fst e) k"
  proof
    fix x assume "x \<in> fst ` set (smap_update lt k v m)"
    then have "x \<in> insert k (fst ` set m)" using keys_smap_update[of k v m] by blast
    then show "lt (fst e) x" using Cons.prems that by auto
  qed
  moreover have "\<forall>x \<in> set (map fst (e # m)). lt k x" if "lt k (fst e)"
    using Cons.prems that trans by auto
  ultimately show ?case using Cons by (cases e) auto
qed simp

lemma map_of_smap_update:
  assumes "sorted_wrt lt (map fst m)" "separates (insert k (fst ` set m))"
  shows "map_of (smap_update lt k v m) = (map_of m)(k \<mapsto> v)"
  using assms
proof (induction m)
  case (Cons e m)
  obtain k' v' where e: "e = (k', v')" by fastforce
  have "separates (insert k (fst ` set m))" using Cons.prems(2) by (rule separates_mono) auto
  moreover have "sorted_wrt lt (map fst m)" using Cons.prems(1) by simp
  ultimately have ih: "map_of (smap_update lt k v m) = (map_of m)(k \<mapsto> v)" using Cons.IH by blast
  have same: "k' = k" if "\<not> lt k k'" "\<not> lt k' k"
  proof -
    have "equiv lt k' k" using that by (simp add: equiv_def)
    then show ?thesis using Cons.prems(2)[unfolded separates_def, rule_format, of k' k] e by simp
  qed
  have ne: "k \<noteq> k'" if "lt k' k" using that irrefl by auto
  show ?case
  proof (rule ext)
    fix x show "map_of (smap_update lt k v (e # m)) x = ((map_of (e # m))(k \<mapsto> v)) x"
      using ih same ne by (cases "lt k k'"; cases "lt k' k") (simp_all add: e)
  qed
qed simp

lemma scontains_mem: "separates (insert x (set s)) \<Longrightarrow> scontains lt x s \<longleftrightarrow> x \<in> set s"
  unfolding scontains_def separates_def list_ex_iff using equiv_refl by blast

end

section \<open>Derived orders\<close>

lemma lex_equiv: "equiv (lex_less lt) xs ys \<longleftrightarrow> list_all2 (equiv lt) xs ys"
proof (induction lt xs ys rule: lex_less.induct)
  case (1 lt ys) then show ?case by (cases ys) (auto simp: equiv_def)
qed (auto simp: equiv_def)

context comparator
begin

lemma lex_irrefl: "\<not> lex_less lt xs xs"
  by (induction xs) (simp_all add: irrefl)

lemma lex_trans: "lex_less lt xs ys \<Longrightarrow> lex_less lt ys zs \<Longrightarrow> lex_less lt xs zs"
proof (induction xs arbitrary: ys zs)
  case Nil then show ?case by (cases ys; cases zs) auto
next
  case (Cons x xs)
  then obtain y ys' where y: "ys = y # ys'" by (cases ys) auto
  with Cons.prems obtain z zs' where z: "zs = z # zs'" by (cases zs) auto
  have p: "\<not> lt y x" "\<not> lt z y" "lt x y \<or> lex_less lt xs ys'" "lt y z \<or> lex_less lt ys' zs'"
    using Cons.prems asym unfolding y z by auto
  have "lex_less lt xs zs'" if "\<not> lt x z"
  proof -
    have "\<not> lt x y" using neg_trans[of x z y] p(2) that by blast
    moreover have "\<not> lt y z" using neg_trans[of y x z] p(1) that by blast
    ultimately show ?thesis using p Cons.IH by blast
  qed
  then show ?case unfolding z using neg_trans[OF p(2,1)] by auto
qed

lemma lex_neg_trans: "\<not> lex_less lt xs ys \<Longrightarrow> \<not> lex_less lt ys zs \<Longrightarrow> \<not> lex_less lt xs zs"
proof (induction xs arbitrary: ys zs)
  case Nil then show ?case by (cases ys; cases zs) auto
next
  case (Cons x xs)
  show ?case
  proof (cases ys)
    case Nil then show ?thesis using Cons.prems by (cases zs) auto
  next
    case y: (Cons y ys')
    show ?thesis
    proof (cases zs)
      case z: (Cons z zs')
      have p: "\<not> lt x y" "\<not> lt y z" "lt y x \<or> \<not> lex_less lt xs ys'" "lt z y \<or> \<not> lex_less lt ys' zs'"
        using Cons.prems unfolding y z by auto
      have "\<not> lex_less lt xs zs'" if "\<not> lt z x"
      proof -
        have "\<not> lt y x" using neg_trans[of y z x] p(2) that by blast
        moreover have "\<not> lt z y" using neg_trans[of z x y] p(1) that by blast
        ultimately show ?thesis using p Cons.IH by blast
      qed
      then show ?thesis unfolding z using neg_trans[OF p(1,2)] by auto
    qed simp
  qed
qed

lemma comparator_lex: "comparator (lex_less lt)"
  using lex_irrefl lex_trans lex_neg_trans by unfold_locales blast+

lemma comparator_pair:
  assumes "comparator lt'" shows "comparator (pair_less lt lt')"
proof
  note c = comparator.irrefl[OF assms] comparator.trans[OF assms] comparator.neg_trans[OF assms]
  show "\<not> pair_less lt lt' x x" for x by (simp add: pair_less_def irrefl c)
  show "pair_less lt lt' x z" if "pair_less lt lt' x y" "pair_less lt lt' y z" for x y z
    using that trans asym c(2) neg_trans unfolding pair_less_def by metis
  show "\<not> pair_less lt lt' x z" if "\<not> pair_less lt lt' x y" "\<not> pair_less lt lt' y z" for x y z
  proof -
    have p: "\<not> lt (fst x) (fst y)" "\<not> lt (fst y) (fst z)"
      "lt (fst y) (fst x) \<or> \<not> lt' (snd x) (snd y)" "lt (fst z) (fst y) \<or> \<not> lt' (snd y) (snd z)"
      using that unfolding pair_less_def by blast+
    have "\<not> lt' (snd x) (snd z)" if n: "\<not> lt (fst z) (fst x)"
    proof -
      have "\<not> lt (fst y) (fst x)" using neg_trans[of "fst y" "fst z" "fst x"] p(2) n by blast
      moreover have "\<not> lt (fst z) (fst y)" using neg_trans[of "fst z" "fst x" "fst y"] p(1) n by blast
      ultimately show ?thesis using p c(3) by blast
    qed
    then show ?thesis unfolding pair_less_def using neg_trans[OF p(1,2)] by blast
  qed
qed

end

lemma comparator_linorder: "comparator ((<) :: 'a::linorder \<Rightarrow> 'a \<Rightarrow> bool)"
  by unfold_locales auto

interpretation less: comparator "(<) :: 'a::linorder \<Rightarrow> 'a \<Rightarrow> bool"
  by (rule comparator_linorder)

lemma equiv_linorder [simp]: "equiv ((<) :: 'a::linorder \<Rightarrow> 'a \<Rightarrow> bool) x y \<longleftrightarrow> x = y"
  by (auto simp: equiv_def)

end
