(* ===== verification/BoolExpr.thy ===== *)
theory BoolExpr
  imports Ordered
begin

text \<open>
  The grammar expressions of \<open>src/src/parser.h\<close> and \<open>src/src/grammar.tmpl.h\<close>: literals,
  literal sequences, conjunctions, disjunctions and production expressions with the operators
  \<open>+\<close>, \<open>&\<close>, \<open>|\<close> and \<open>~\<close>. Terminals are of any ordered ring type (a word or an integer). The
  symbol table a literal points to is not part of it: a grammar has one table, and literals of
  one grammar are compared.
\<close>

section \<open>Data\<close>

datatype 't lit = Nt nat | Tm 't | Null

datatype 't lits = Lits (neg: bool) (seq: "'t lit list")

type_synonym 't conjs = "'t lits list"
type_synonym 't disjs = "'t conjs list"

record 't prod_rule =
  prod_first :: "'t lit"
  prod_second :: "'t disjs"
  prod_guard :: "string option"

type_synonym 't prods = "'t prod_rule list"

section \<open>Literals\<close>

fun is_nt :: "'t lit \<Rightarrow> bool" where
  "is_nt (Nt _) = True"
| "is_nt _ = False"

fun is_null :: "'t lit \<Rightarrow> bool" where
  "is_null Null = True"
| "is_null _ = False"

fun lit_n :: "'t lit \<Rightarrow> nat" where
  "lit_n (Nt n) = n"
| "lit_n _ = 0"

text \<open>\<open>t()\<close>: the null literal holds the terminal 0.\<close>

fun lit_t :: "'t::zero lit \<Rightarrow> 't" where
  "lit_t (Tm c) = c"
| "lit_t _ = 0"

definition to_terminals :: "'t lit \<Rightarrow> 't list" where
  "to_terminals l = (case l of Tm c \<Rightarrow> [c] | _ \<Rightarrow> [])"

text \<open>\<open>operator<=>\<close>: terminals come before nonterminals; null compares as the terminal 0.
  \<open>operator==\<close> tells them apart and is the equality of the datatype.\<close>

definition lit_less :: "'t::{linorder,zero} lit \<Rightarrow> 't lit \<Rightarrow> bool" where
  "lit_less a b =
     (if is_nt a \<noteq> is_nt b then \<not> is_nt a
      else if is_nt a then lit_n a < lit_n b
      else lit_t a < lit_t b)"

section \<open>Sequences, conjunctions, disjunctions\<close>

text \<open>The order and the equality of \<open>lits\<close> are those of the vector it extends: \<open>neg\<close> has no part.\<close>

definition lits_less :: "'t::{linorder,zero} lits \<Rightarrow> 't lits \<Rightarrow> bool" where
  "lits_less a b = lex_less lit_less (seq a) (seq b)"

definition conjs_less :: "'t::{linorder,zero} conjs \<Rightarrow> 't conjs \<Rightarrow> bool" where
  "conjs_less = lex_less lits_less"

definition disjs_less :: "'t::{linorder,zero} disjs \<Rightarrow> 't disjs \<Rightarrow> bool" where
  "disjs_less = lex_less conjs_less"

definition lits_eq :: "'t lits \<Rightarrow> 't lits \<Rightarrow> bool" where
  "lits_eq a b \<longleftrightarrow> seq a = seq b"

definition conjs_eq :: "'t conjs \<Rightarrow> 't conjs \<Rightarrow> bool" where
  "conjs_eq c d \<longleftrightarrow> map seq c = map seq d"

definition lits_add :: "'t lits \<Rightarrow> 't lits \<Rightarrow> 't lits" where
  "lits_add x y = Lits (neg x) (seq x @ seq y)"

definition lits_add_lit :: "'t lits \<Rightarrow> 't lit \<Rightarrow> 't lits" where
  "lits_add_lit x l = Lits (neg x) (seq x @ [l])"

definition lits_neg :: "'t lits \<Rightarrow> 't lits" where
  "lits_neg x = Lits (\<not> neg x) (seq x)"

definition conjs_le :: "'t::{linorder,zero} conjs \<Rightarrow> 't conjs \<Rightarrow> bool" where
  "conjs_le x y = list_all (\<lambda>a. scontains lits_less a y) x"

definition simplify_conjs :: "'t conjs \<Rightarrow> 't conjs" where
  "simplify_conjs c =
     (if list_ex (\<lambda>na. list_ex (\<lambda>a. neg a = (\<not> neg na) \<and> lits_eq a (lits_neg na)) c) c then [] else c)"

definition conjs_and :: "'t::{linorder,zero} conjs \<Rightarrow> 't conjs \<Rightarrow> 't conjs" where
  "conjs_and x y = simplify_conjs (sinserts lits_less y x)"

definition conjs_add :: "'t::{linorder,zero} conjs \<Rightarrow> 't conjs \<Rightarrow> 't conjs" where
  "conjs_add x y = simplify_conjs (sset lits_less (concat (map (\<lambda>a. map (lits_add a) y) x)))"

definition simplify_disjs :: "'t::{linorder,zero} disjs \<Rightarrow> 't disjs" where
  "simplify_disjs x =
     (let y = sset conjs_less (filter (\<lambda>c. c \<noteq> []) (map simplify_conjs x)) in
      sset conjs_less
        (filter (\<lambda>c. \<not> list_ex (\<lambda>d. \<not> conjs_eq c d \<and> conjs_le c d) y) y))"

definition disjs_or :: "'t::{linorder,zero} disjs \<Rightarrow> 't disjs \<Rightarrow> 't disjs" where
  "disjs_or x y = sinserts conjs_less y (sset conjs_less x)"

definition disjs_and_conjs :: "'t::{linorder,zero} disjs \<Rightarrow> 't conjs \<Rightarrow> 't disjs" where
  "disjs_and_conjs x y = sset conjs_less (map (\<lambda>c. conjs_and c y) x)"

definition disjs_and :: "'t::{linorder,zero} disjs \<Rightarrow> 't disjs \<Rightarrow> 't disjs" where
  "disjs_and x y =
     simplify_disjs (sset conjs_less (concat (map (\<lambda>c. disjs_and_conjs y c) x)))"

definition disjs_add_conjs :: "'t::{linorder,zero} disjs \<Rightarrow> 't conjs \<Rightarrow> 't disjs" where
  "disjs_add_conjs x y = sset conjs_less (map (\<lambda>c. conjs_add c y) x)"

definition disjs_add :: "'t::{linorder,zero} disjs \<Rightarrow> 't disjs \<Rightarrow> 't disjs" where
  "disjs_add x y = sset conjs_less (concat (map (\<lambda>c. map (conjs_add c) y) x))"

definition conjs_neg :: "'t::{linorder,zero} conjs \<Rightarrow> 't disjs" where
  "conjs_neg x = sset conjs_less (map (\<lambda>a. [lits_neg a]) x)"

text \<open>The loop of \<open>operator~\<close> on a disjunction: \<open>rcs\<close> keeps what earlier rounds pushed. Every
  element of a negated conjunction has one literal sequence, the \<open>begin()\<close> the code inserts.\<close>

fun neg_combine :: "'t::{linorder,zero} conjs list \<Rightarrow> 't conjs list \<Rightarrow> 't disjs list \<Rightarrow> 't conjs list" where
  "neg_combine rcs cs [] = cs"
| "neg_combine rcs cs (next # ncsv) =
     (let rcs' = rcs @ concat (map (\<lambda>n. map (\<lambda>c. sinsert lits_less (hd n) c) cs) next)
      in neg_combine rcs' rcs' ncsv)"

definition disjs_neg :: "'t::{linorder,zero} disjs \<Rightarrow> 't disjs" where
  "disjs_neg x =
     (case sset disjs_less (map conjs_neg x) of
        [] \<Rightarrow> []
      | [d] \<Rightarrow> d
      | d # ds \<Rightarrow> simplify_disjs (sset conjs_less (neg_combine [] d ds)))"

section \<open>Production expressions\<close>

text \<open>\<open>prods(l)\<close>, \<open>prods(s)\<close>, \<open>top\<close>, \<open>to_lit\<close> and \<open>to_disjs\<close>. \<open>top\<close> and \<open>to_disjs\<close> of an empty
  list are undefined in the code.\<close>

definition unnamed :: "'t disjs \<Rightarrow> 't prod_rule" where
  "unnamed d = \<lparr>prod_first = Null, prod_second = d, prod_guard = None\<rparr>"

definition prods_of_lit :: "'t lit \<Rightarrow> 't prods" where
  "prods_of_lit l = [unnamed [[Lits False [l]]]]"

definition prods_of_terminals :: "'t list \<Rightarrow> 't prods" where
  "prods_of_terminals s = [unnamed [[Lits False (map Tm s)]]]"

definition prods_top :: "'t prods \<Rightarrow> 't disjs" where
  "prods_top p = prod_second (last p)"

definition to_lit :: "'t prods \<Rightarrow> 't lit" where
  "to_lit p =
     (if p = [] then Null
      else case prod_second (last p) of
          [] \<Rightarrow> Null
        | c # _ \<Rightarrow> (case c of
            [] \<Rightarrow> Null
          | a # _ \<Rightarrow> if seq a = [] then Null else last (seq a)))"

definition simplify_prods :: "'t::{linorder,zero} prods \<Rightarrow> 't prods" where
  "simplify_prods p = map (\<lambda>x. x\<lparr>prod_second := simplify_disjs (prod_second x)\<rparr>) p"

definition prods_join ::
  "('t disjs \<Rightarrow> 't disjs \<Rightarrow> 't disjs) \<Rightarrow> 't prods \<Rightarrow> 't prods \<Rightarrow> 't prods" where
  "prods_join f x y =
     (if x = [] then y else if y = [] then x
      else butlast x @ butlast y @ [unnamed (f (prods_top x) (prods_top y))])"

definition prods_or :: "'t::{linorder,zero} prods \<Rightarrow> 't prods \<Rightarrow> 't prods" where
  "prods_or = prods_join disjs_or"

definition prods_and :: "'t::{linorder,zero} prods \<Rightarrow> 't prods \<Rightarrow> 't prods" where
  "prods_and = prods_join disjs_and"

definition prods_add :: "'t::{linorder,zero} prods \<Rightarrow> 't prods \<Rightarrow> 't prods" where
  "prods_add = prods_join disjs_add"

text \<open>The overloads with a string.\<close>

definition prods_or_str :: "'t::{linorder,zero} prods \<Rightarrow> 't list \<Rightarrow> 't prods" where
  "prods_or_str x s = (if x = [] then prods_of_terminals s else prods_or x (prods_of_terminals s))"

definition prods_and_str :: "'t::{linorder,zero} prods \<Rightarrow> 't list \<Rightarrow> 't prods" where
  "prods_and_str x s = (if x = [] then prods_of_terminals s else prods_and x (prods_of_terminals s))"

definition prods_add_char :: "'t::{linorder,zero} prods \<Rightarrow> 't \<Rightarrow> 't prods" where
  "prods_add_char x c = (if x = [] then prods_of_lit (Tm c) else prods_add x (prods_of_lit (Tm c)))"

definition prods_add_str :: "'t::{linorder,zero} prods \<Rightarrow> 't list \<Rightarrow> 't prods" where
  "prods_add_str x s = foldl prods_add_char x s"

definition prods_neg :: "'t::{linorder,zero} prods \<Rightarrow> 't prods" where
  "prods_neg x = butlast x @ [(last x)\<lparr>prod_second := disjs_neg (prod_second (last x))\<rparr>]"

definition prods_rule :: "'t lit \<Rightarrow> 't prods \<Rightarrow> 't prods \<Rightarrow> 't prods" where
  "prods_rule l p ps =
     ps @ [\<lparr>prod_first = l, prod_second = prod_second (last p), prod_guard = None\<rparr>]"

definition prods_guarded_rule :: "'t prods \<Rightarrow> 't prods \<Rightarrow> 't prods \<Rightarrow> 't prods" where
  "prods_guarded_rule l p ps =
     (let r = prods_rule (to_lit l) p ps in
      case prod_guard (last l) of
        None \<Rightarrow> r
      | Some g \<Rightarrow> butlast r @ [(last r)\<lparr>prod_guard := Some g\<rparr>])"

section \<open>The comparators\<close>

lemma comparator_lit: "comparator (lit_less :: 't::{linorder,zero} lit \<Rightarrow> 't lit \<Rightarrow> bool)"
  by unfold_locales (auto simp: lit_less_def split: if_splits)

lemma comparator_image: "comparator lt \<Longrightarrow> comparator (\<lambda>x y. lt (f x) (f y))"
  unfolding comparator_def by blast

interpretation lit: comparator lit_less
  by (rule comparator_lit)
interpretation lits: comparator lits_less
  unfolding lits_less_def[abs_def] by (rule comparator_image[OF lit.comparator_lex])
interpretation conjs: comparator conjs_less
  unfolding conjs_less_def by (rule lits.comparator_lex)
interpretation disjs: comparator disjs_less
  unfolding disjs_less_def by (rule conjs.comparator_lex)

text \<open>What a program can build: sets in the order of their container.\<close>

abbreviation conjs_set :: "'t::{linorder,zero} conjs \<Rightarrow> bool" where
  "conjs_set \<equiv> sorted_wrt lits_less"


section \<open>Meaning\<close>

text \<open>An interpretation says of a sequence of literals whether it matches.\<close>

definition eval_lits :: "('t lit list \<Rightarrow> bool) \<Rightarrow> 't lits \<Rightarrow> bool" where
  "eval_lits v a \<longleftrightarrow> v (seq a) \<noteq> neg a"

definition eval_conjs :: "('t lit list \<Rightarrow> bool) \<Rightarrow> 't conjs \<Rightarrow> bool" where
  "eval_conjs v c \<longleftrightarrow> (\<forall>a \<in> set c. eval_lits v a)"

definition eval_disjs :: "('t lit list \<Rightarrow> bool) \<Rightarrow> 't disjs \<Rightarrow> bool" where
  "eval_disjs v d \<longleftrightarrow> (\<exists>c \<in> set d. eval_conjs v c)"

text \<open>No sequence occurs both plain and negated, and null does not stand where 0 does.\<close>

definition uniform :: "'t::{linorder,zero} lits set \<Rightarrow> bool" where
  "uniform S \<longleftrightarrow> lits.separates S"

lemma lits_equiv_seq: "equiv lits_less a b \<longleftrightarrow> list_all2 (equiv lit_less) (seq a) (seq b)"
proof -
  have "equiv lits_less a b \<longleftrightarrow> equiv (lex_less lit_less) (seq a) (seq b)"
    by (simp add: equiv_def lits_less_def)
  then show ?thesis by (simp only: lex_equiv)
qed

lemma equiv_same_seq: "seq a = seq b \<Longrightarrow> equiv lits_less a b"
  using lit.equiv_refl by (simp add: lits_equiv_seq list_all2_refl)

lemma conjs_equiv: "equiv conjs_less c d \<longleftrightarrow> list_all2 (equiv lits_less) c d"
  by (simp add: conjs_less_def lex_equiv)

lemma uniform_mono: "uniform S \<Longrightarrow> T \<subseteq> S \<Longrightarrow> uniform T"
  unfolding uniform_def by (rule lits.separates_mono)

lemma uniform_conjs: "uniform (\<Union> (set ` D)) \<Longrightarrow> conjs.separates D"
  unfolding conjs.separates_def
proof (intro ballI impI)
  fix c d assume u: "uniform (\<Union> (set ` D))" and m: "c \<in> D" "d \<in> D" and "equiv conjs_less c d"
  then have "list_all2 (equiv lits_less) c d" by (simp add: conjs_equiv)
  moreover have "set c \<union> set d \<subseteq> \<Union> (set ` D)" using m by auto
  ultimately show "c = d"
  proof (induction c d rule: list_all2_induct)
    case (Cons x xs y ys)
    then have "x = y" using u unfolding uniform_def lits.separates_def by auto
    then show ?case using Cons by simp
  qed simp
qed

lemma simplify_conjs_id: "conjs_set c \<Longrightarrow> simplify_conjs c = c"
proof -
  assume c: "conjs_set c"
  have "neg a = neg b" if "a \<in> set c" "b \<in> set c" "seq a = seq b" for a b
    using lits.sorted_separates[OF c] equiv_same_seq[OF that(3)] that
    unfolding lits.separates_def by blast
  then have "\<not> list_ex (\<lambda>na. list_ex (\<lambda>a. neg a = (\<not> neg na) \<and> lits_eq a (lits_neg na)) c) c"
    unfolding list_ex_iff lits_eq_def lits_neg_def lits.sel by metis
  then show ?thesis unfolding simplify_conjs_def by (rule if_not_P)
qed

lemma sinserts_separated: "uniform (set x \<union> set y) \<Longrightarrow> set (sinserts lits_less y x) = set x \<union> set y"
  unfolding uniform_def using lits.set_sinserts[of y x] by (simp add: Un_commute)

section \<open>Properties\<close>

text \<open>\<open>|\<close> on disjunctions denotes disjunction: whatever an interpretation says of the
  literal sequences, \<open>x | y\<close> holds exactly when \<open>x\<close> or \<open>y\<close> does, provided the two sides do not
  use a sequence with both polarities (the order of the set cannot tell those apart).\<close>

theorem disjs_or_meaning:
  assumes "uniform (\<Union> (set ` (set x \<union> set y)))"
  shows "eval_disjs v (disjs_or x y) \<longleftrightarrow> eval_disjs v x \<or> eval_disjs v y"
proof -
  have "conjs.separates (set x \<union> set y)" by (rule uniform_conjs[OF assms])
  then have x: "set (sset conjs_less x) = set x" and "conjs.separates (set y \<union> set x)"
    using conjs.set_sinserts[of x "[]"] conjs.separates_mono[of _ "set x"]
    by (auto simp: sset_def Un_commute)
  then have "set (disjs_or x y) = set x \<union> set y"
    using conjs.set_sinserts[of y "sset conjs_less x"] by (auto simp: disjs_or_def)
  then show ?thesis by (auto simp: eval_disjs_def)
qed

theorem disjs_or_meaning_witness:
  "eval_disjs (\<lambda>s. s = [Tm 2]) (disjs_or [[Lits True [Tm (1::int)]]] [[Lits False [Tm 2], Lits False [Nt 0]]])"
proof -
  have "uniform (\<Union> (set ` (set [[Lits True [Tm (1::int)]]] \<union> set [[Lits False [Tm 2], Lits False [Nt 0]]])))"
    by (simp add: uniform_def lits.separates_def lits_less_def lit_less_def equiv_def)
  from disjs_or_meaning[OF this, of "\<lambda>s. s = [Tm 2]"] show ?thesis
    by (simp add: eval_disjs_def eval_conjs_def eval_lits_def)
qed

text \<open>\<open>&\<close> on conjunctions denotes conjunction, under the same proviso.\<close>

theorem conjs_and_meaning:
  assumes "conjs_set x" "uniform (set x \<union> set y)"
  shows "eval_conjs v (conjs_and x y) \<longleftrightarrow> eval_conjs v x \<and> eval_conjs v y"
proof -
  have "conjs_and x y = sinserts lits_less y x"
    unfolding conjs_and_def by (rule simplify_conjs_id[OF lits.sorted_sinserts[OF assms(1)]])
  then show ?thesis using sinserts_separated[OF assms(2)] by (auto simp: eval_conjs_def)
qed

theorem conjs_and_meaning_witness:
  "conjs_and [Lits False [Tm (1::int)]] [Lits True [Tm 2]] = [Lits False [Tm 1], Lits True [Tm 2]] \<and>
   eval_conjs (\<lambda>s. s = [Tm 1]) (conjs_and [Lits False [Tm (1::int)]] [Lits True [Tm 2]])"
proof -
  have "uniform (set [Lits False [Tm (1::int)]] \<union> set [Lits True [Tm 2]])"
    by (simp add: uniform_def lits.separates_def lits_less_def lit_less_def equiv_def)
  from conjs_and_meaning[OF _ this, of "\<lambda>s. s = [Tm 1]"] show ?thesis
    by (simp add: eval_conjs_def eval_lits_def conjs_and_def sinserts_def lits_less_def lit_less_def
        simplify_conjs_def lits_eq_def lits_neg_def)
qed

text \<open>De Morgan for a conjunction: \<open>~c\<close> holds exactly when \<open>c\<close> does not.\<close>

theorem conjs_neg_meaning:
  assumes "conjs_set c"
  shows "eval_disjs v (conjs_neg c) \<longleftrightarrow> \<not> eval_conjs v c"
proof -
  have "set (conjs_neg c) = (\<lambda>a. [lits_neg a]) ` set c"
  proof -
    have "equiv lits_less (lits_neg a) (lits_neg b) \<longleftrightarrow> equiv lits_less a b" for a b :: "'a lits"
      by (simp add: lits_equiv_seq lits_neg_def)
    then have "conjs.separates (set (map (\<lambda>a. [lits_neg a]) c))"
      using lits.sorted_separates[OF assms] by (auto simp: conjs.separates_def conjs_equiv lits.separates_def)
    then show ?thesis using conjs.set_sinserts[of "map (\<lambda>a. [lits_neg a]) c" "[]"]
      by (simp add: conjs_neg_def sset_def)
  qed
  then show ?thesis by (auto simp: eval_disjs_def eval_conjs_def eval_lits_def lits_neg_def)
qed

theorem conjs_neg_meaning_witness:
  "eval_disjs (\<lambda>s. s = [Tm 1]) (conjs_neg [Lits False [Tm (1::int)], Lits False [Tm 2]])"
proof -
  have "conjs_set [Lits False [Tm (1::int)], Lits False [Tm 2]]" by (simp add: lits_less_def lit_less_def)
  from conjs_neg_meaning[OF this] show ?thesis by (simp add: eval_conjs_def eval_lits_def)
qed

text \<open>the contradiction test of \<open>simplify\<close> on conjunctions never fires on a set: the order of
  the set cannot tell the two polarities of a sequence apart, so no set holds both, and
  \<open>a & ~a\<close> has already become its first operand.\<close>

theorem contradiction_collapses:
  assumes "conjs_set c"
  shows "simplify_conjs c = c \<and> (a \<in> set c \<longrightarrow> conjs_and c [lits_neg a] = c)"
proof -
  have "sinserts lits_less [lits_neg a] c = c" if "a \<in> set c"
    using lits.sinsert_old[OF assms that, of "lits_neg a"] equiv_same_seq[of "lits_neg a" a]
    by (simp add: sinserts_def lits_neg_def)
  then show ?thesis using simplify_conjs_id[OF assms] by (auto simp: conjs_and_def)
qed

theorem contradiction_collapses_witness:
  "conjs_and [Lits False [Nt 0]] [Lits True [Nt 0]] = [Lits False [Nt 0 :: int lit]]"
  using contradiction_collapses[of "[Lits False [Nt 0 :: int lit]]" "Lits False [Nt 0]"]
  by (simp add: lits_neg_def)

section \<open>Absorption\<close>

lemma set_sset_sub: "c \<in> set (sset conjs_less xs) \<Longrightarrow> c \<in> set xs"
  using conjs.set_sinserts_sub[of xs "[]"] by (auto simp: sset_def)









text \<open>An interpretation under which exactly the conjunctions made of literals of \<open>c\<close> hold.\<close>

definition only :: "'t conjs \<Rightarrow> 't lits set \<Rightarrow> 't lit list \<Rightarrow> bool" where
  "only c S s \<longleftrightarrow> (\<exists>a \<in> S. seq a = s \<and> (a \<in> set c \<longleftrightarrow> \<not> neg a))"




text \<open>The negation of \<open>a | (a & b)\<close> goes through \<open>simplify\<close> and becomes \<open>~a & ~b\<close> instead of \<open>~a\<close>.\<close>

lemma absorption_in_negation:
  "disjs_neg [[Lits False [Nt 0]], [Lits False [Nt 0], Lits False [Nt 1]]]
     = [[Lits True [Nt 0 :: int lit], Lits True [Nt 1]]]"
  by (simp add: simplify_disjs_def disjs_neg_def sset_def sinserts_def conjs_less_def lits_less_def
      lit_less_def simplify_conjs_def lits_eq_def lits_neg_def conjs_eq_def conjs_le_def scontains_def
      equiv_def conjs_neg_def disjs_less_def)

end
