(* ===== verification/Grammar.thy ===== *)
theory Grammar
  imports BoolExpr Escapes "HOL-Library.AList"
begin

text \<open>
  The grammar object of \<open>src/src/parser.h\<close> and \<open>src/src/grammar.tmpl.h\<close>: the symbol table, the
  productions in disjunctive normal form, the index from heads to enabled productions, the
  nullable nonterminals and the accessors the parser reads. The derived character classes and the
  dynamic productions, which also live in the record, are in the theories \<open>CharClass\<close> and
  \<open>Dynamic\<close>. A \<open>std::map\<close> with a default for absent keys is a function, a \<open>std::set\<close> that is
  only queried is a set, one that is iterated is an increasing list. Names are byte strings;
  the character type and the terminal type are the same type.
\<close>

section \<open>The symbol table\<close>

type_synonym names = "string list"

text \<open>The order of \<open>std::string\<close>: by bytes.\<close>

definition name_less :: "string \<Rightarrow> string \<Rightarrow> bool" where
  "name_less = lex_less (\<lambda>a b. (of_char a :: nat) < of_char b)"

fun index_of :: "'a \<Rightarrow> 'a list \<Rightarrow> nat option" where
  "index_of x [] = None"
| "index_of x (y # ys) = (if x = y then Some 0 else map_option Suc (index_of x ys))"

definition nts_find :: "string \<Rightarrow> names \<Rightarrow> nat option" where
  "nts_find s ns = index_of s ns"

text \<open>\<open>get(s)\<close> gives the id and the table with the name added.\<close>

definition nts_get :: "string \<Rightarrow> names \<Rightarrow> nat \<times> names" where
  "nts_get s ns = (case nts_find s ns of Some n \<Rightarrow> (n, ns) | None \<Rightarrow> (length ns, ns @ [s]))"

section \<open>The record\<close>

type_synonym 't production = "'t lit \<times> 't lits list"

datatype 't cc_expr =
    CEq 't | CFn "'t \<Rightarrow> bool" | CAny "'t cc_expr list" | CAll "'t cc_expr list" | CNeg "'t cc_expr"

record 't char_class_fns =
  fns :: "nat \<rightharpoonup> ('t \<Rightarrow> bool)"
  ps :: "nat \<Rightarrow> 't \<rightharpoonup> nat"
  derived :: "nat set"
  eof_fn :: nat

datatype dyn_state = Host | Committed | Pending | Retired

record 't dynamic_entry =
  st :: dyn_state
  dyn_lit :: "'t lit"
  dyn_value :: "'t list"
  grown_by :: "(nat \<times> nat) set"
  confirmed :: bool

record shaping_options =
  to_trim :: "nat set"
  to_trim_children :: "nat set"
  to_trim_children_terminals :: "nat set"
  trim_terminals :: bool
  dont_trim_terminals_of :: "nat set"
  to_inline :: "nat list list"
  inline_char_classes :: bool

record 't grammar_opts =
  transform_negation :: bool
  auto_disambiguate :: bool
  nodisambig_list :: "nat set"
  shaping :: shaping_options
  enabled_guards :: "string set"
  opt_dynamic :: "(string \<times> 't list list) list"
  opt_derive_char_classes :: bool

record 't grammar =
  opt :: "'t grammar_opts"
  nts :: names
  start :: "'t lit"
  cc_fns :: "'t char_class_fns"
  ntsm :: "'t lit \<Rightarrow> nat list"
  ntsm_by_nt :: "nat list list"
  grdm :: "nat \<rightharpoonup> nat"
  guards :: "string list"
  nullables :: "nat set"
  conjunctives :: "nat set"
  prods :: "'t production list"
  source_productions :: nat
  cc_char_prods :: "nat \<Rightarrow> 't \<rightharpoonup> nat"
  cc_char_prod_ids :: "nat set"
  cc_ps_states :: "nat \<Rightarrow> string set \<Rightarrow> 't \<rightharpoonup> nat"
  cc_active_guards :: "nat \<rightharpoonup> string set"
  cc_prod_exprs :: "nat \<rightharpoonup> 't cc_expr"
  cc_inner_nts :: "nat set"
  cc_excluded_nts :: "nat set"
  cc_source_prods :: "nat \<Rightarrow> nat list"
  dynamic :: "nat \<rightharpoonup> 't dynamic_entry"
  dynamic_idx :: "('t lit \<times> ('t list \<times> nat) list) list"
  pending :: "nat list"
  active_grow :: "nat \<times> nat"

section \<open>Accessors\<close>

definition gsize :: "('t, 'z) grammar_scheme \<Rightarrow> nat" where
  "gsize g = length (prods g)"

definition head :: "('t, 'z) grammar_scheme \<Rightarrow> nat \<Rightarrow> 't lit" where
  "head g p = fst (prods g ! p)"

definition body :: "('t, 'z) grammar_scheme \<Rightarrow> nat \<Rightarrow> 't lits list" where
  "body g p = snd (prods g ! p)"

definition len :: "('t, 'z) grammar_scheme \<Rightarrow> nat \<Rightarrow> nat \<Rightarrow> nat" where
  "len g p c = length (seq (body g p ! c))"

definition n_conjs :: "('t, 'z) grammar_scheme \<Rightarrow> nat \<Rightarrow> nat" where
  "n_conjs g p = length (body g p)"

definition nullable :: "('t, 'z) grammar_scheme \<Rightarrow> 't lit \<Rightarrow> bool" where
  "nullable g l = (case l of Nt n \<Rightarrow> n \<in> nullables g | Tm _ \<Rightarrow> False | Null \<Rightarrow> True)"

definition conjunctive :: "('t, 'z) grammar_scheme \<Rightarrow> nat \<Rightarrow> bool" where
  "conjunctive g p \<longleftrightarrow> p \<in> conjunctives g"

definition is_fn :: "('t, 'z) char_class_fns_scheme \<Rightarrow> nat \<Rightarrow> bool" where
  "is_fn c n \<longleftrightarrow> fns c n \<noteq> None"

definition is_derived :: "('t, 'z) char_class_fns_scheme \<Rightarrow> nat \<Rightarrow> bool" where
  "is_derived c n \<longleftrightarrow> n \<in> derived c"

definition is_cc_fn :: "('t, 'z) grammar_scheme \<Rightarrow> nat \<Rightarrow> bool" where
  "is_cc_fn g n \<longleftrightarrow> is_fn (cc_fns g) n"

definition is_eof_fn :: "('t, 'z) grammar_scheme \<Rightarrow> nat \<Rightarrow> bool" where
  "is_eof_fn g n \<longleftrightarrow> n = eof_fn (cc_fns g)"

definition vget :: "nat \<Rightarrow> 'a list list \<Rightarrow> 'a list" where
  "vget n xs = (if n < length xs then xs ! n else [])"

definition prod_ids_of_literal :: "('t, 'z) grammar_scheme \<Rightarrow> 't lit \<Rightarrow> nat list" where
  "prod_ids_of_literal g l = (case l of Nt n \<Rightarrow> vget n (ntsm_by_nt g) | _ \<Rightarrow> ntsm g l)"

definition production_guard :: "('t, 'z) grammar_scheme \<Rightarrow> nat \<Rightarrow> string option" where
  "production_guard g p = map_option (\<lambda>i. guards g ! i) (grdm g p)"

text \<open>The guard test of the loops over the source productions.\<close>

definition guard_enabled :: "('t, 'z) grammar_scheme \<Rightarrow> nat \<Rightarrow> bool" where
  "guard_enabled g p =
     (case grdm g p of None \<Rightarrow> True | Some i \<Rightarrow> guards g ! i \<in> enabled_guards (opt g))"

section \<open>Loading the production rules\<close>

text \<open>The loop of the constructor: every disjunct becomes a production, a negated sequence moves
  to a rule of its own when \<open>transform_negation\<close> is set, guards are numbered by first use.\<close>

definition decimal :: "nat \<Rightarrow> string" where
  "decimal n = map (\<lambda>d. char_of (48 + d)) (radix_digits 10 n)"

definition neg_name :: "nat \<Rightarrow> string" where
  "neg_name k = ''__N_'' @ decimal k"

definition load_lits ::
  "'t lits \<Rightarrow> 't grammar \<times> nat \<times> 't lits list \<Rightarrow> 't grammar \<times> nat \<times> 't lits list" where
  "load_lits l = (\<lambda>(g, k, acc).
     if transform_negation (opt g) \<and> neg l then
       (case nts_get (neg_name k) (nts g) of (n, ns) \<Rightarrow>
         (g\<lparr>nts := ns, prods := prods g @ [(Nt n, [Lits False (seq l)])]\<rparr>, Suc k,
          acc @ [Lits True [Nt n]]))
     else (g, k, acc @ [l]))"

definition load_guard :: "string option \<Rightarrow> 't grammar \<Rightarrow> 't grammar" where
  "load_guard gd g =
     (case gd of
        None \<Rightarrow> g
      | Some s \<Rightarrow>
          (let gid = (case index_of s (guards g) of Some i \<Rightarrow> i | None \<Rightarrow> length (guards g));
               g = (if gid = length (guards g) then g\<lparr>guards := guards g @ [s]\<rparr> else g)
           in g\<lparr>grdm := (grdm g)(length (prods g) - 1 \<mapsto> gid)\<rparr>))"

definition load_conjs :: "'t prod_rule \<Rightarrow> 't conjs \<Rightarrow> 't grammar \<times> nat \<Rightarrow> 't grammar \<times> nat" where
  "load_conjs p c = (\<lambda>(g, k).
     case fold load_lits c (g, k, []) of (g, k, new_conjs) \<Rightarrow>
       let g = g\<lparr>prods := prods g @ [(prod_first p, new_conjs)]\<rparr>;
           g = (if length c > 1 then g\<lparr>conjunctives := insert (length (prods g) - 1) (conjunctives g)\<rparr> else g)
       in (load_guard (prod_guard p) g, k))"

definition load_prods :: "'t prods \<Rightarrow> 't grammar \<Rightarrow> 't grammar" where
  "load_prods rules g =
     fst (fold (\<lambda>p. fold (load_conjs p) (prod_second p)) rules (g, 0))"

text \<open>The chart stores a production id in 32 bits and a conjunct or literal index in 16.\<close>

datatype grammar_error =
    Too_many_productions | Too_many_conjuncts | Too_many_literals | Dynamic_empty_value string

definition UINT32_MAX :: nat where "UINT32_MAX = 4294967295"
definition UINT16_MAX :: nat where "UINT16_MAX = 65535"

fun limit_error_body :: "'t production list \<Rightarrow> grammar_error option" where
  "limit_error_body [] = None"
| "limit_error_body (pr # prs) =
     (if length (snd pr) > UINT16_MAX then Some Too_many_conjuncts
      else if list_ex (\<lambda>a. length (seq a) > UINT16_MAX) (snd pr) then Some Too_many_literals
      else limit_error_body prs)"

definition limit_error :: "'t production list \<Rightarrow> grammar_error option" where
  "limit_error prs =
     (if length prs \<ge> UINT32_MAX then Some Too_many_productions else limit_error_body prs)"

section \<open>Nullable nonterminals\<close>

definition all_nulls :: "nat set \<Rightarrow> 't lits \<Rightarrow> bool" where
  "all_nulls nul a \<longleftrightarrow>
     list_all (\<lambda>l. case l of Nt n \<Rightarrow> n \<in> nul | Tm _ \<Rightarrow> False | Null \<Rightarrow> True) (seq a)"

text \<open>One round of the nested loops over the productions and their conjuncts.\<close>

definition nullables_step :: "nat \<times> 't lits \<Rightarrow> nat set \<Rightarrow> nat set" where
  "nullables_step ka nul = (if all_nulls nul (snd ka) then insert (fst ka) nul else nul)"

definition head_conjuncts :: "'t production list \<Rightarrow> (nat \<times> 't lits) list" where
  "head_conjuncts prs = concat (map (\<lambda>(h, cs). map (Pair (lit_n h)) cs) prs)"

definition nullables_pass :: "'t production list \<Rightarrow> nat set \<Rightarrow> nat set" where
  "nullables_pass prs nul = fold nullables_step (head_conjuncts prs) nul"

lemma fold_nullables_bounds:
  "nul \<subseteq> fold nullables_step kas nul \<and> fold nullables_step kas nul \<subseteq> nul \<union> fst ` set kas"
proof (induction kas arbitrary: nul)
  case (Cons ka kas)
  have "nul \<subseteq> nullables_step ka nul \<and> nullables_step ka nul \<subseteq> insert (fst ka) nul"
    by (auto simp: nullables_step_def)
  then show ?case using Cons.IH[of "nullables_step ka nul"] by auto
qed simp

lemma head_conjuncts_iff: "(k, a) \<in> set (head_conjuncts prs) \<longleftrightarrow> (\<exists>h cs. (h, cs) \<in> set prs \<and> a \<in> set cs \<and> k = lit_n h)"
  unfolding head_conjuncts_def by (auto split: prod.splits)

lemma nullables_pass_bounds:
  "nul \<subseteq> nullables_pass prs nul" "nullables_pass prs nul \<subseteq> nul \<union> fst ` set (head_conjuncts prs)"
  using fold_nullables_bounds[of nul "head_conjuncts prs"] by (auto simp: nullables_pass_def)

text \<open>The \<open>do ... while\<close> of \<open>compute_nullables\<close>: another pass while the set grew.\<close>

function nullables_from :: "'t production list \<Rightarrow> nat set \<Rightarrow> nat set" where
  "nullables_from prs nul =
     (let nul' = nullables_pass prs nul in
      if card nul' = card nul then nul' else nullables_from prs nul')"
  by pat_completeness auto
termination
proof (relation "measure (\<lambda>(prs, nul). card (fst ` set (head_conjuncts prs) - nul))")
  fix prs :: "'t production list" and nul x
  assume x: "x = nullables_pass prs nul" "card x \<noteq> card nul"
  let ?H = "fst ` set (head_conjuncts prs)"
  have b: "nul \<subseteq> x" "x \<subseteq> nul \<union> ?H" using nullables_pass_bounds x by blast+
  have "x \<noteq> nul" using x(2) by auto
  then obtain k where "k \<in> x" "k \<notin> nul" using b by auto
  then have "?H - x \<subset> ?H - nul" using b by blast
  then have "card (?H - x) < card (?H - nul)" by (intro psubset_card_mono) auto
  then show "((prs, x), (prs, nul)) \<in> measure (\<lambda>(prs, nul). card (fst ` set (head_conjuncts prs) - nul))" by simp
qed simp

declare nullables_from.simps [simp del]

definition compute_nullables :: "('t, 'z) grammar_scheme \<Rightarrow> ('t, 'z) grammar_scheme" where
  "compute_nullables g = g\<lparr>nullables := nullables_from (prods g) {}\<rparr>"

text \<open>The least set the rule "some conjunct of the body is all nulls" is closed under.\<close>

inductive_set nullable_nts :: "'t production list \<Rightarrow> nat set" for prs where
  nullableI: "(h, cs) \<in> set prs \<Longrightarrow> a \<in> set cs \<Longrightarrow> \<forall>c. Tm c \<notin> set (seq a) \<Longrightarrow>
    \<forall>n. Nt n \<in> set (seq a) \<longrightarrow> n \<in> nullable_nts prs \<Longrightarrow> lit_n h \<in> nullable_nts prs"

lemma all_nulls_iff:
  "all_nulls S a \<longleftrightarrow> (\<forall>c. Tm c \<notin> set (seq a)) \<and> (\<forall>n. Nt n \<in> set (seq a) \<longrightarrow> n \<in> S)"
  unfolding all_nulls_def list_all_iff by (fastforce split: lit.splits)

lemma nullables_step_mono: "S \<subseteq> T \<Longrightarrow> nullables_step ka S \<subseteq> nullables_step ka T"
  unfolding nullables_step_def all_nulls_iff by auto

lemma fold_nullables_sound:
  assumes "nul \<subseteq> nullable_nts prs" "set kas \<subseteq> set (head_conjuncts prs)"
  shows "fold nullables_step kas nul \<subseteq> nullable_nts prs"
  using assms
proof (induction kas arbitrary: nul)
  case (Cons ka kas)
  obtain k a where ka: "ka = (k, a)" by (cases ka)
  then obtain h cs where h: "(h, cs) \<in> set prs" "a \<in> set cs" "k = lit_n h"
    using Cons.prems(2) head_conjuncts_iff[of k a prs] by auto
  have "all_nulls nul a \<Longrightarrow> k \<in> nullable_nts prs"
    using nullableI[OF h(1,2)] Cons.prems(1) h(3) unfolding all_nulls_iff by blast
  then have "nullables_step ka nul \<subseteq> nullable_nts prs"
    using Cons.prems(1) by (auto simp: nullables_step_def ka)
  then show ?case using Cons by simp
qed simp

lemma fold_nullables_complete:
  assumes "(k, a) \<in> set kas" "all_nulls nul a"
  shows "k \<in> fold nullables_step kas nul"
  using assms
proof (induction kas arbitrary: nul)
  case (Cons ka kas)
  show ?case
  proof (cases "ka = (k, a)")
    case True
    then have "k \<in> nullables_step ka nul" using Cons.prems by (simp add: nullables_step_def)
    then show ?thesis using fold_nullables_bounds[of "nullables_step ka nul" kas] by auto
  next
    case False
    have "all_nulls (nullables_step ka nul) a"
      using Cons.prems(2) unfolding all_nulls_iff nullables_step_def by auto
    then show ?thesis using Cons False by simp
  qed
qed simp

lemma nullables_from_correct:
  assumes "finite nul" "nul \<subseteq> nullable_nts prs"
  shows "nullables_from prs nul = nullable_nts prs"
  using assms
proof (induction prs nul rule: nullables_from.induct)
  case (1 prs nul)
  let ?x = "nullables_pass prs nul"
  have b: "nul \<subseteq> ?x" "?x \<subseteq> nul \<union> fst ` set (head_conjuncts prs)" by (rule nullables_pass_bounds)+
  have f: "finite ?x" using finite_subset[OF b(2)] "1.prems"(1) by simp
  have s: "?x \<subseteq> nullable_nts prs"
    unfolding nullables_pass_def using "1.prems" by (intro fold_nullables_sound) auto
  show ?case
  proof (cases "card ?x = card nul")
    case True
    then have eq: "?x = nul" using b(1) f by (metis card_subset_eq)
    have "n \<in> nul" if "n \<in> nullable_nts prs" for n
      using that
    proof induction
      case (nullableI h cs a)
      have m: "(lit_n h, a) \<in> set (head_conjuncts prs)" using nullableI(1,2) head_conjuncts_iff by blast
      have "all_nulls nul a" using nullableI(3,4) by (simp add: all_nulls_iff)
      from fold_nullables_complete[OF m this] show ?case using eq by (simp add: nullables_pass_def)
    qed
    then have "nul = nullable_nts prs" using "1.prems"(2) by blast
    then show ?thesis using True eq by (subst nullables_from.simps) (simp add: Let_def)
  next
    case False
    then show ?thesis using "1.IH"[OF refl False f s] by (subst nullables_from.simps) (simp add: Let_def)
  qed
qed

section \<open>Properties\<close>

text \<open>C39: \<open>compute_nullables\<close> terminates with the least fixed point: exactly the heads that a
  finite chain of productions, each with a conjunct of nulls and nullable nonterminals, derives.\<close>

theorem compute_nullables_least:
  "nullables (compute_nullables g) = nullable_nts (prods g)"
  by (simp add: compute_nullables_def nullables_from_correct)

end
