(* ===== verification/CharClass.thy ===== *)
theory CharClass
  imports Grammar
begin

text \<open>
  The derived character classes of \<open>src/src/grammar.tmpl.h\<close>: the analysis that finds the rules
  which match exactly one character (\<open>single_char_rule\<close>, \<open>classify_cc_walk\<close>), its application to
  the grammar (\<open>apply_derived_char_classes\<close>), the index of enabled productions it is a part of
  (\<open>set_enabled_productions\<close>) and the queries the scanner and the error report make. The
  analysis recurses on rules; its depth is bounded by fuel.
\<close>

section \<open>Predicates\<close>

fun cc_accepts :: "'t cc_expr \<Rightarrow> 't \<Rightarrow> bool" where
  "cc_accepts (CEq ch) c = (c = ch)"
| "cc_accepts (CFn f) c = f c"
| "cc_accepts (CNeg e) c = (\<not> cc_accepts e c)"
| "cc_accepts (CAny es) c = list_ex (\<lambda>e. cc_accepts e c) es"
| "cc_accepts (CAll es) c = list_all (\<lambda>e. cc_accepts e c) es"

fun cc_expr_node_count :: "'t cc_expr \<Rightarrow> nat" where
  "cc_expr_node_count (CAny es) = 1 + sum_list (map cc_expr_node_count es)"
| "cc_expr_node_count (CAll es) = 1 + sum_list (map cc_expr_node_count es)"
| "cc_expr_node_count (CNeg e) = 1 + cc_expr_node_count e"
| "cc_expr_node_count _ = 1"

fun cc_expr_depth :: "'t cc_expr \<Rightarrow> nat" where
  "cc_expr_depth (CAny es) = foldr (\<lambda>e. max (cc_expr_depth e)) es 0 + 1"
| "cc_expr_depth (CAll es) = foldr (\<lambda>e. max (cc_expr_depth e)) es 0 + 1"
| "cc_expr_depth (CNeg e) = cc_expr_depth e + 1"
| "cc_expr_depth _ = 1"

section \<open>The walk\<close>

datatype cc_mark = Mark_open | Mark_ok | Mark_fail

record 't cc_walk =
  mark :: "(nat \<times> cc_mark) list"
  expr :: "nat \<rightharpoonup> 't cc_expr"
  reason :: "nat \<rightharpoonup> string"
  walk_guards :: "nat \<rightharpoonup> string set"
  prod_expr :: "nat \<rightharpoonup> 't cc_expr"

definition empty_walk :: "'t cc_walk" where
  "empty_walk = \<lparr>mark = [], expr = Map.empty, reason = Map.empty, walk_guards = Map.empty,
     prod_expr = Map.empty\<rparr>"

abbreviation mark_of :: "'t cc_walk \<Rightarrow> nat \<Rightarrow> cc_mark option" where
  "mark_of w n \<equiv> map_of (mark w) n"

definition cc_reject :: "nat \<Rightarrow> 't cc_walk \<Rightarrow> string \<Rightarrow> 't cc_walk" where
  "cc_reject n w why =
     (if mark_of w n \<noteq> Some Mark_fail
      then w\<lparr>mark := AList.update n Mark_fail (mark w), reason := (reason w)(n \<mapsto> why)\<rparr>
      else w)"

definition max_nodes :: nat where "max_nodes = 256"
definition max_depth :: nat where "max_depth = 64"

definition enabled_source_prods :: "('t, 'z) grammar_scheme \<Rightarrow> nat \<Rightarrow> nat list" where
  "enabled_source_prods g n = cc_source_prods g n"

text \<open>The loop over the conjuncts of a production. It gives the predicates so far, whether one is
  positive and the guards so far; \<open>None\<close> once the rule is rejected. \<open>rec\<close> analyses a rule.\<close>

fun scr_conjs ::
  "(nat \<Rightarrow> 't cc_walk \<Rightarrow> 't cc_expr option \<times> 't cc_walk) \<Rightarrow> nat \<Rightarrow> 't::comm_ring_1 lits list \<Rightarrow>
   't cc_expr list \<times> bool \<times> string set \<Rightarrow> 't cc_walk \<Rightarrow>
   ('t cc_expr list \<times> bool \<times> string set) option \<times> 't cc_walk" where
  "scr_conjs rec n [] acc w = (Some acc, w)"
| "scr_conjs rec n (cj # cjs) (cs, positive, gset) w =
     (case seq cj of
        [l] \<Rightarrow>
          (let add = (\<lambda>e gset w.
             if neg cj then scr_conjs rec n cjs (cs @ [CNeg e], positive, gset) w
             else scr_conjs rec n cjs (cs @ [e], True, gset) w)
           in case l of
             Null \<Rightarrow> (None, cc_reject n w ''null literal'')
           | Tm t \<Rightarrow>
               if t = 0 then (None, cc_reject n w ''zero literal'')
               else if t = -1 then (None, cc_reject n w ''eof literal'')
               else add (CEq t) gset w
           | Nt m \<Rightarrow>
               (case rec m w of
                  (None, w) \<Rightarrow> (None, cc_reject n w ''inner rule'')
                | (Some e, w) \<Rightarrow>
                    add e (case walk_guards w m of None \<Rightarrow> gset | Some gs \<Rightarrow> gset \<union> gs) w))
      | _ \<Rightarrow> (None, cc_reject n w ''sequence''))"

fun scr_prods ::
  "(nat \<Rightarrow> 't cc_walk \<Rightarrow> 't cc_expr option \<times> 't cc_walk) \<Rightarrow> ('t::comm_ring_1, 'z) grammar_scheme \<Rightarrow>
   nat \<Rightarrow> nat list \<Rightarrow> 't cc_expr list \<times> string set \<Rightarrow> 't cc_walk \<Rightarrow>
   ('t cc_expr list \<times> string set) option \<times> 't cc_walk" where
  "scr_prods rec g n [] acc w = (Some acc, w)"
| "scr_prods rec g n (p # prs) (alts, gset) w =
     (case scr_conjs rec n (body g p) ([], False, gset) w of
        (None, w) \<Rightarrow> (None, w)
      | (Some (cs, positive, gset), w) \<Rightarrow>
          if \<not> positive then (None, cc_reject n w ''no positive conjunct'')
          else
            let w = w\<lparr>prod_expr := (prod_expr w)(p \<mapsto> CAll cs)\<rparr>; alts = alts @ [CAll cs] in
            if cc_expr_node_count (CAny alts) > max_nodes \<or> cc_expr_depth (CAny alts) > max_depth
            then (None, cc_reject n w ''too large'')
            else scr_prods rec g n prs (alts, gset) w)"

text \<open>The guards of the rule's own productions.\<close>

definition own_guards :: "('t, 'z) grammar_scheme \<Rightarrow> nat list \<Rightarrow> string set" where
  "own_guards g prs = set (List.map_filter (\<lambda>p. map_option (\<lambda>i. guards g ! i) (grdm g p)) prs)"

fun single_char_rule ::
  "nat \<Rightarrow> ('t::comm_ring_1, 'z) grammar_scheme \<Rightarrow> nat \<Rightarrow> 't cc_walk \<Rightarrow> 't cc_expr option \<times> 't cc_walk" where
  "single_char_rule 0 g n w = (None, w)"
| "single_char_rule (Suc fuel) g n w =
     (case mark_of w n of
        Some Mark_open \<Rightarrow> (None, cc_reject n w ''cycle'')
      | Some Mark_fail \<Rightarrow> (None, w)
      | Some Mark_ok \<Rightarrow> (expr w n, w)
      | None \<Rightarrow>
          if n \<in> cc_excluded_nts g then (None, cc_reject n w ''dynamic'')
          else if is_fn (cc_fns g) n \<and> \<not> is_derived (cc_fns g) n then
            (if is_eof_fn g n then (None, cc_reject n w ''eof class'')
             else (map_option CFn (fns (cc_fns g) n), w))
          else
            let w = w\<lparr>mark := AList.update n Mark_open (mark w)\<rparr> in
            if start g = Nt n then (None, cc_reject n w ''start'')
            else if n \<in> nullables g then (None, cc_reject n w ''nullable'')
            else if nts g ! n \<in> fst ` set (opt_dynamic (opt g)) then (None, cc_reject n w ''dynamic'')
            else if Nt n \<in> fst ` set (dynamic_idx g) then (None, cc_reject n w ''dynamic'')
            else
              let prs = enabled_source_prods g n in
              if prs = [] then (None, cc_reject n w ''no production'')
              else case scr_prods (single_char_rule fuel g) g n prs ([], own_guards g prs) w of
                  (None, w) \<Rightarrow> (None, w)
                | (Some (alts, gset), w) \<Rightarrow>
                    (Some (CAny alts),
                     w\<lparr>mark := AList.update n Mark_ok (mark w), expr := (expr w)(n \<mapsto> CAny alts),
                       walk_guards := (walk_guards w)(n \<mapsto> gset)\<rparr>))"

text \<open>A call opens an unmarked rule of the table, so this many nested calls are enough.\<close>

definition scr_fuel :: "('t, 'z) grammar_scheme \<Rightarrow> nat" where
  "scr_fuel g = length (nts g) + 2"

definition cc_walk_all :: "('t::comm_ring_1, 'z) grammar_scheme \<Rightarrow> 't cc_walk" where
  "cc_walk_all g =
     fold (\<lambda>p w. case head g p of Nt n \<Rightarrow> snd (single_char_rule (scr_fuel g) g n w) | _ \<Rightarrow> w)
       [0..<source_productions g] empty_walk"

section \<open>The report\<close>

datatype cc_state = Derived | Inner | Rejected | Unused

record 't cc_rule_info =
  info_nt :: nat
  info_st :: cc_state
  info_reason :: string
  info_fn :: "'t cc_expr option"
  info_guards :: "string set"

definition used_by :: "('t, 'z) grammar_scheme \<Rightarrow> nat \<Rightarrow> nat set" where
  "used_by g n = lit_n ` set (map (head g)
     (filter (\<lambda>p. is_nt (head g p) \<and> guard_enabled g p \<and>
        list_ex (\<lambda>cj. Nt n \<in> set (seq cj)) (body g p)) [0..<source_productions g]))"

definition cc_info :: "('t, 'z) grammar_scheme \<Rightarrow> 't cc_walk \<Rightarrow> nat \<Rightarrow> 't cc_rule_info" where
  "cc_info g w n =
     (if mark_of w n = Some Mark_fail then
        \<lparr>info_nt = n, info_st = Rejected, info_reason = (case reason w n of None \<Rightarrow> [] | Some r \<Rightarrow> r),
         info_fn = None, info_guards = {}\<rparr>
      else
        \<lparr>info_nt = n,
         info_st = (if \<exists>u \<in> used_by g n. mark_of w u = Some Mark_fail then Derived
                    else if used_by g n \<noteq> {} then Inner else Unused),
         info_reason = [], info_fn = expr w n,
         info_guards = (case walk_guards w n of None \<Rightarrow> {} | Some s \<Rightarrow> s)\<rparr>)"

definition classify_cc_walk :: "('t, 'z) grammar_scheme \<Rightarrow> 't cc_walk \<Rightarrow> 't cc_rule_info list" where
  "classify_cc_walk g w = map (cc_info g w) (sort (map fst (mark w)))"

definition derive_char_classes_report :: "('t::comm_ring_1, 'z) grammar_scheme \<Rightarrow> 't cc_rule_info list" where
  "derive_char_classes_report g = classify_cc_walk g (cc_walk_all g)"

section \<open>Application\<close>

text \<open>The enabled source productions of every rule.\<close>

definition source_prods_of :: "('t, 'z) grammar_scheme \<Rightarrow> nat \<Rightarrow> nat list" where
  "source_prods_of g n =
     filter (\<lambda>p. head g p = Nt n \<and> guard_enabled g p) [0..<source_productions g]"

definition guards_or_empty :: "(nat \<rightharpoonup> string set) \<Rightarrow> nat \<Rightarrow> string set" where
  "guards_or_empty m n = (case m n of None \<Rightarrow> {} | Some s \<Rightarrow> s)"

text \<open>The body of the loop over the report; the state is the grammar and \<open>now_derived\<close>.\<close>

definition apply_cc_info ::
  "'t cc_walk \<Rightarrow> 't cc_rule_info \<Rightarrow> ('t, 'z) grammar_scheme \<times> nat set \<Rightarrow> ('t, 'z) grammar_scheme \<times> nat set" where
  "apply_cc_info w e = (\<lambda>(g, now).
     if info_st e = Rejected \<or> info_st e = Unused then (g, now)
     else
       let n = info_nt e;
           g = fold (\<lambda>p g. case prod_expr w p of None \<Rightarrow> g
                       | Some x \<Rightarrow> g\<lparr>cc_prod_exprs := (cc_prod_exprs g)(p \<mapsto> x)\<rparr>)
                 (enabled_source_prods g n) g
       in if info_st e = Inner then (g\<lparr>cc_inner_nts := insert n (cc_inner_nts g)\<rparr>, now)
          else if is_fn (cc_fns g) n \<and> \<not> is_derived (cc_fns g) n then (g, now)
          else
            (g\<lparr>cc_fns := (cc_fns g)\<lparr>fns := (fns (cc_fns g))(n := map_option cc_accepts (info_fn e)),
                 ps := (ps (cc_fns g))(n := cc_ps_states g n (info_guards e))\<rparr>,
               cc_active_guards := (cc_active_guards g)(n \<mapsto> info_guards e)\<rparr>, insert n now))"

definition apply_derived_char_classes :: "('t::comm_ring_1, 'z) grammar_scheme \<Rightarrow> ('t, 'z) grammar_scheme" where
  "apply_derived_char_classes g =
    (let c = cc_fns g;
         g = g\<lparr>cc_ps_states := (\<lambda>n. if n \<in> derived c
                 then (cc_ps_states g n)(guards_or_empty (cc_active_guards g) n := ps c n)
                 else cc_ps_states g n),
               cc_prod_exprs := Map.empty, cc_inner_nts := {}\<rparr>;
         g = g\<lparr>cc_source_prods := source_prods_of g\<rparr>
     in if \<not> opt_derive_char_classes (opt g) then
          g\<lparr>cc_fns := c\<lparr>fns := fns c |` (- derived c), derived := {}\<rparr>, cc_active_guards := Map.empty\<rparr>
        else
          let w = cc_walk_all g in
          case fold (apply_cc_info w) (classify_cc_walk g w) (g, {}) of (g, now) \<Rightarrow>
            g\<lparr>cc_fns := (cc_fns g)\<lparr>fns := fns (cc_fns g) |` (- (derived c - now)), derived := now\<rparr>,
              cc_active_guards := cc_active_guards g |` now\<rparr>)"

definition is_retired :: "('t, 'z) grammar_scheme \<Rightarrow> nat \<Rightarrow> bool" where
  "is_retired g i = (case dynamic g i of None \<Rightarrow> False | Some e \<Rightarrow> st e = Retired)"

text \<open>\<open>set_enabled_productions\<close>: the two indexes are rebuilt from the productions that are not
  retired, not cached class productions, and not guarded or under an enabled guard.\<close>

definition linked :: "('t, 'z) grammar_scheme \<Rightarrow> nat \<Rightarrow> bool" where
  "linked g p \<longleftrightarrow> \<not> is_retired g p \<and> p \<notin> cc_char_prod_ids g \<and> guard_enabled g p"

definition rebuild_ntsm :: "('t, 'z) grammar_scheme \<Rightarrow> ('t, 'z) grammar_scheme" where
  "rebuild_ntsm g =
     (let m = (\<lambda>l. filter (\<lambda>p. linked g p \<and> head g p = l) [0..<gsize g])
      in g\<lparr>ntsm := m, ntsm_by_nt := map (\<lambda>n. m (Nt n)) [0..<length (nts g)]\<rparr>)"

definition set_enabled_productions ::
  "string set \<Rightarrow> ('t::comm_ring_1, 'z) grammar_scheme \<Rightarrow> ('t, 'z) grammar_scheme" where
  "set_enabled_productions gs g =
     apply_derived_char_classes (rebuild_ntsm (g\<lparr>opt := (opt g)\<lparr>enabled_guards := gs\<rparr>\<rparr>))"

definition derive_char_classes :: "bool \<Rightarrow> ('t::comm_ring_1, 'z) grammar_scheme \<Rightarrow> ('t, 'z) grammar_scheme" where
  "derive_char_classes on g =
     (let g = g\<lparr>opt := (opt g)\<lparr>opt_derive_char_classes := on\<rparr>\<rparr>
      in set_enabled_productions (enabled_guards (opt g)) g)"

definition exclude_from_char_classes :: "nat set \<Rightarrow> ('t::comm_ring_1, 'z) grammar_scheme \<Rightarrow> ('t, 'z) grammar_scheme" where
  "exclude_from_char_classes ex g =
     set_enabled_productions (enabled_guards (opt g)) (g\<lparr>cc_excluded_nts := ex\<rparr>)"

definition productions_enable :: "string \<Rightarrow> ('t::comm_ring_1, 'z) grammar_scheme \<Rightarrow> ('t, 'z) grammar_scheme" where
  "productions_enable s g = set_enabled_productions (insert s (enabled_guards (opt g))) g"

definition productions_disable :: "string \<Rightarrow> ('t::comm_ring_1, 'z) grammar_scheme \<Rightarrow> ('t, 'z) grammar_scheme" where
  "productions_disable s g = set_enabled_productions (enabled_guards (opt g) - {s}) g"

section \<open>Class productions\<close>

definition char_class_check :: "('t, 'z) grammar_scheme \<Rightarrow> 't lit \<Rightarrow> 't \<Rightarrow> bool" where
  "char_class_check g l ch =
     (if ps (cc_fns g) (lit_n l) ch \<noteq> None then False
      else case fns (cc_fns g) (lit_n l) of None \<Rightarrow> True | Some f \<Rightarrow> \<not> f ch)"

definition set_accept :: "nat \<Rightarrow> 't \<Rightarrow> nat \<Rightarrow> ('t, 'z) grammar_scheme \<Rightarrow> ('t, 'z) grammar_scheme" where
  "set_accept n ch i g =
     g\<lparr>cc_fns := (cc_fns g)\<lparr>ps := (ps (cc_fns g))(n := (ps (cc_fns g) n)(ch \<mapsto> i))\<rparr>\<rparr>"

text \<open>Growing \<open>ntsm_by_nt\<close> to hold id \<open>n\<close> and adding a production to its set.\<close>

definition vinsert :: "nat \<Rightarrow> nat \<Rightarrow> nat list list \<Rightarrow> nat list list" where
  "vinsert n i xs =
     (let xs = (if length xs \<le> n then xs @ replicate (n + 1 - length xs) [] else xs)
      in xs[n := sinsert (<) i (xs ! n)])"

definition link_prod :: "'t lit \<Rightarrow> nat \<Rightarrow> ('t, 'z) grammar_scheme \<Rightarrow> ('t, 'z) grammar_scheme" where
  "link_prod l i g =
     g\<lparr>ntsm := (ntsm g)(l := sinsert (<) i (ntsm g l)),
       ntsm_by_nt := (case l of Nt n \<Rightarrow> vinsert n i (ntsm_by_nt g) | _ \<Rightarrow> ntsm_by_nt g)\<rparr>"

definition add_char_class_production :: "'t lit \<Rightarrow> 't \<Rightarrow> ('t, 'z) grammar_scheme \<Rightarrow> nat \<times> ('t, 'z) grammar_scheme" where
  "add_char_class_production l ch g =
     (let n = lit_n l; i = gsize g; pr = (l, [Lits False [Tm ch]]) in
      if is_derived (cc_fns g) n then
        (case cc_char_prods g n ch of
           Some j \<Rightarrow> (j, set_accept n ch j g)
         | None \<Rightarrow>
             (i, set_accept n ch i
                   (g\<lparr>prods := prods g @ [pr],
                     cc_char_prods := (cc_char_prods g)(n := (cc_char_prods g n)(ch \<mapsto> i)),
                     cc_char_prod_ids := insert i (cc_char_prod_ids g)\<rparr>)))
      else (i, set_accept n ch i (link_prod l i (g\<lparr>prods := prods g @ [pr]\<rparr>))))"

text \<open>\<open>None\<close> stands for \<open>(size_t) -1\<close>. The code calls it for a class, so \<open>fns\<close> has an entry.\<close>

definition get_char_class_production ::
  "'t lit \<Rightarrow> 't \<Rightarrow> ('t, 'z) grammar_scheme \<Rightarrow> nat option \<times> ('t, 'z) grammar_scheme" where
  "get_char_class_production l ch g =
     (case ps (cc_fns g) (lit_n l) ch of
        Some j \<Rightarrow> (Some j, g)
      | None \<Rightarrow>
          (case fns (cc_fns g) (lit_n l) of
             None \<Rightarrow> (None, g)
           | Some f \<Rightarrow>
               if \<not> f ch then (None, g)
               else case add_char_class_production l ch g of (i, g) \<Rightarrow> (Some i, g)))"

section \<open>Queries of the error report\<close>

definition rule_prod_accepts :: "('t, 'z) grammar_scheme \<Rightarrow> nat \<Rightarrow> 't \<Rightarrow> bool" where
  "rule_prod_accepts g p ch = (case cc_prod_exprs g p of None \<Rightarrow> False | Some e \<Rightarrow> cc_accepts e ch)"

definition uses_derived_recipe :: "('t, 'z) grammar_scheme \<Rightarrow> nat \<Rightarrow> bool" where
  "uses_derived_recipe g n \<longleftrightarrow>
     opt_derive_char_classes (opt g) \<and> (is_derived (cc_fns g) n \<or> n \<in> cc_inner_nts g)"

definition cc_lit_accepts :: "('t, 'z) grammar_scheme \<Rightarrow> 't lit \<Rightarrow> 't \<Rightarrow> bool" where
  "cc_lit_accepts g l ch =
     (case l of
        Null \<Rightarrow> False
      | Tm t \<Rightarrow> t = ch
      | Nt n \<Rightarrow>
          if is_fn (cc_fns g) n \<and> \<not> is_derived (cc_fns g) n
          then \<not> is_eof_fn g n \<and> (case fns (cc_fns g) n of None \<Rightarrow> False | Some f \<Rightarrow> f ch)
          else list_ex (\<lambda>p. rule_prod_accepts g p ch) (enabled_source_prods g n))"

text \<open>The loop over the conjuncts: \<open>pos_ok\<close>, \<open>neg_accepts\<close> and \<open>pos_inner_neg\<close>. \<open>rec\<close> asks about
  an inner rule; inner rules are not cyclic, so the table's size bounds the depth.\<close>

fun crn_conjs ::
  "(nat \<Rightarrow> bool) \<Rightarrow> ('t, 'z) grammar_scheme \<Rightarrow> 't \<Rightarrow> 't lits list \<Rightarrow> bool \<times> bool \<times> bool \<Rightarrow> bool \<times> bool \<times> bool" where
  "crn_conjs rec g ch [] acc = acc"
| "crn_conjs rec g ch (cj # cjs) (pos_ok, neg_accepts, pos_inner_neg) =
     (case seq cj of
        [l] \<Rightarrow>
          if neg cj then crn_conjs rec g ch cjs (pos_ok, neg_accepts \<or> cc_lit_accepts g l ch, pos_inner_neg)
          else if cc_lit_accepts g l ch then crn_conjs rec g ch cjs (pos_ok, neg_accepts, pos_inner_neg)
          else if is_nt l \<and> lit_n l \<in> cc_inner_nts g \<and> rec (lit_n l)
          then crn_conjs rec g ch cjs (pos_ok, neg_accepts, True)
          else crn_conjs rec g ch cjs (False, neg_accepts, pos_inner_neg)
      | _ \<Rightarrow> (False, neg_accepts, pos_inner_neg))"

fun cc_rejects_by_negation :: "nat \<Rightarrow> ('t, 'z) grammar_scheme \<Rightarrow> 't \<Rightarrow> nat \<Rightarrow> bool" where
  "cc_rejects_by_negation 0 g ch n = False"
| "cc_rejects_by_negation (Suc fuel) g ch n =
     (uses_derived_recipe g n \<and>
      list_ex (\<lambda>p.
        case crn_conjs (cc_rejects_by_negation fuel g ch) g ch (body g p) (True, False, False) of
          (pos_ok, neg_accepts, pos_inner_neg) \<Rightarrow> pos_ok \<and> (neg_accepts \<or> pos_inner_neg))
        (enabled_source_prods g n))"

end
