(* ===== verification/Dynamic.thy ===== *)
theory Dynamic
  imports CharClass
begin

text \<open>
  The dynamic productions of \<open>src/src/grammar.tmpl.h\<close>: values the host or a parse adds to a
  nonterminal, each a terminal string production with a life cycle (host, committed, pending,
  retired), and the constructor of the grammar, which hosts the values of its options. A
  production is never removed: it is linked into the two indexes or unlinked from them.
\<close>

section \<open>The index of the values\<close>

definition idx_of :: "('t, 'z) grammar_scheme \<Rightarrow> 't lit \<Rightarrow> 't list \<Rightarrow> nat option" where
  "idx_of g l v = (case map_of (dynamic_idx g) l of None \<Rightarrow> None | Some m \<Rightarrow> map_of m v)"

text \<open>\<open>dynamic_idx_[l]\<close> leaves an entry behind, and the class analysis looks for it.\<close>

definition idx_touch :: "'t lit \<Rightarrow> ('t, 'z) grammar_scheme \<Rightarrow> ('t, 'z) grammar_scheme" where
  "idx_touch l g =
     (if map_of (dynamic_idx g) l = None then g\<lparr>dynamic_idx := dynamic_idx g @ [(l, [])]\<rparr> else g)"

definition idx_put :: "'t lit \<Rightarrow> 't list \<Rightarrow> nat \<Rightarrow> ('t, 'z) grammar_scheme \<Rightarrow> ('t, 'z) grammar_scheme" where
  "idx_put l v i g =
     g\<lparr>dynamic_idx := AList.update l
        (AList.update v i (case map_of (dynamic_idx g) l of None \<Rightarrow> [] | Some m \<Rightarrow> m)) (dynamic_idx g)\<rparr>"

section \<open>Entries\<close>

definition upd_entry ::
  "nat \<Rightarrow> ('t dynamic_entry \<Rightarrow> 't dynamic_entry) \<Rightarrow> ('t, 'z) grammar_scheme \<Rightarrow> ('t, 'z) grammar_scheme" where
  "upd_entry i f g = g\<lparr>dynamic := (dynamic g)(i := map_option f (dynamic g i))\<rparr>"

definition entry_is :: "('t, 'z) grammar_scheme \<Rightarrow> nat \<Rightarrow> dyn_state \<Rightarrow> bool" where
  "entry_is g i s = (case dynamic g i of None \<Rightarrow> False | Some e \<Rightarrow> st e = s)"

definition link :: "nat \<Rightarrow> ('t, 'z) grammar_scheme \<Rightarrow> ('t, 'z) grammar_scheme" where
  "link i g = (case dynamic g i of None \<Rightarrow> g | Some e \<Rightarrow> link_prod (dyn_lit e) i g)"

definition vremove :: "nat \<Rightarrow> nat \<Rightarrow> nat list list \<Rightarrow> nat list list" where
  "vremove n i xs = (if n < length xs then xs[n := serase (<) i (xs ! n)] else xs)"

definition unlink_prod :: "'t lit \<Rightarrow> nat \<Rightarrow> ('t, 'z) grammar_scheme \<Rightarrow> ('t, 'z) grammar_scheme" where
  "unlink_prod l i g =
     g\<lparr>ntsm := (ntsm g)(l := serase (<) i (ntsm g l)),
       ntsm_by_nt := (case l of Nt n \<Rightarrow> vremove n i (ntsm_by_nt g) | _ \<Rightarrow> ntsm_by_nt g)\<rparr>"

definition retire :: "nat \<Rightarrow> ('t, 'z) grammar_scheme \<Rightarrow> ('t, 'z) grammar_scheme" where
  "retire i g =
     (case dynamic g i of
        None \<Rightarrow> g
      | Some e \<Rightarrow> upd_entry i (\<lambda>e. e\<lparr>st := Retired\<rparr>) (unlink_prod (dyn_lit e) i g))"

definition unpend :: "nat \<Rightarrow> ('t, 'z) grammar_scheme \<Rightarrow> ('t, 'z) grammar_scheme" where
  "unpend i g = g\<lparr>pending := removeAll i (pending g)\<rparr>"

text \<open>A new production \<open>l => v\<close> with its entry, linked.\<close>

definition new_dynamic ::
  "dyn_state \<Rightarrow> (nat \<times> nat) set \<Rightarrow> 't lit \<Rightarrow> 't list \<Rightarrow> ('t, 'z) grammar_scheme \<Rightarrow> ('t, 'z) grammar_scheme" where
  "new_dynamic s tags l v g =
     (let i = gsize g in
      link i (idx_put l v i (g\<lparr>prods := prods g @ [(l, [Lits False (map Tm v)])],
        dynamic := (dynamic g)(i \<mapsto> \<lparr>st = s, dyn_lit = l, dyn_value = v, grown_by = tags, confirmed = False\<rparr>)\<rparr>)))"

text \<open>The promotion of an existing entry that \<open>host_dynamic_values\<close> and
  \<open>sync_dynamic_context\<close> share; the second links also when the entry was pending.\<close>

definition promote :: "dyn_state \<Rightarrow> bool \<Rightarrow> nat \<Rightarrow> ('t, 'z) grammar_scheme \<Rightarrow> ('t, 'z) grammar_scheme" where
  "promote s always_link i g =
     (let g1 = (if entry_is g i Pending then unpend i g else g);
          need_link = always_link \<or> entry_is g i Retired;
          g2 = upd_entry i (\<lambda>e. e\<lparr>st := s, grown_by := {}, confirmed := False\<rparr>) g1
      in if need_link then link i g2 else g2)"

section \<open>Operations\<close>

definition host_value :: "'t lit \<Rightarrow> 't list \<Rightarrow> ('t, 'z) grammar_scheme \<Rightarrow> ('t, 'z) grammar_scheme" where
  "host_value l v g =
     (case idx_of g l v of
        Some i \<Rightarrow> if entry_is g i Host then g else promote Host False i g
      | None \<Rightarrow> new_dynamic Host {} l v g)"

definition host_dynamic_values :: "'t lit \<Rightarrow> 't list list \<Rightarrow> ('t, 'z) grammar_scheme \<Rightarrow> ('t, 'z) grammar_scheme" where
  "host_dynamic_values l vs g = fold (host_value l) vs (idx_touch l g)"

definition grammar_nt :: "string \<Rightarrow> ('t, 'z) grammar_scheme \<Rightarrow> 't lit \<times> ('t, 'z) grammar_scheme" where
  "grammar_nt s g = (case nts_get s (nts g) of (n, ns) \<Rightarrow> (Nt n, g\<lparr>nts := ns\<rparr>))"

definition host_option :: "string \<times> 't list list \<Rightarrow> ('t, 'z) grammar_scheme \<Rightarrow> ('t, 'z) grammar_scheme" where
  "host_option nv g = (case grammar_nt (fst nv) g of (l, g) \<Rightarrow> host_dynamic_values l (snd nv) g)"

definition refresh :: "('t::comm_ring_1, 'z) grammar_scheme \<Rightarrow> ('t, 'z) grammar_scheme" where
  "refresh g = (let g = compute_nullables g in set_enabled_productions (enabled_guards (opt g)) g)"

definition set_dynamic_option :: "string \<Rightarrow> 't list list \<Rightarrow> ('t, 'z) grammar_scheme \<Rightarrow> ('t, 'z) grammar_scheme" where
  "set_dynamic_option s vs g = g\<lparr>opt := (opt g)\<lparr>opt_dynamic := smap_update name_less s vs (opt_dynamic (opt g))\<rparr>\<rparr>"

text \<open>\<open>add_dynamic\<close>: an empty value is an error and nothing is added.\<close>

definition add_dynamic ::
  "string \<Rightarrow> 't list list \<Rightarrow> ('t::comm_ring_1, 'z) grammar_scheme \<Rightarrow> grammar_error option \<times> ('t, 'z) grammar_scheme" where
  "add_dynamic s vs g =
     (if [] \<in> set vs then (Some (Dynamic_empty_value s), g)
      else case grammar_nt s g of (l, g) \<Rightarrow>
        let g = idx_touch l g;
            kept = (case map_of (opt_dynamic (opt g)) s of None \<Rightarrow> [] | Some k \<Rightarrow> k);
            live = (\<lambda>v. case idx_of g l v of None \<Rightarrow> False
                      | Some i \<Rightarrow> entry_is g i Host \<or> entry_is g i Committed);
            new = rev (remdups (rev (filter (\<lambda>v. \<not> live v) vs)))
        in (None, refresh (host_dynamic_values l vs (set_dynamic_option s (kept @ new) g))))"

definition dynamic_ids :: "('t, 'z) grammar_scheme \<Rightarrow> nat list" where
  "dynamic_ids g = filter (\<lambda>i. dynamic g i \<noteq> None) [0..<gsize g]"

definition apply_dynamic_values :: "('t::comm_ring_1, 'z) grammar_scheme \<Rightarrow> ('t, 'z) grammar_scheme" where
  "apply_dynamic_values g =
    (let g = fold (\<lambda>i g. case dynamic g i of
               None \<Rightarrow> g
             | Some e \<Rightarrow>
                 if st e = Host \<and>
                    (case map_of (opt_dynamic (opt g)) (nts g ! lit_n (dyn_lit e)) of
                       None \<Rightarrow> True | Some vs \<Rightarrow> dyn_value e \<notin> set vs)
                 then retire i g else g) (dynamic_ids g) g
     in refresh (fold host_option (opt_dynamic (opt g)) g))"

definition drop_char_class_caches :: "('t, 'z) grammar_scheme \<Rightarrow> ('t, 'z) grammar_scheme" where
  "drop_char_class_caches g =
     g\<lparr>cc_char_prod_ids := cc_char_prod_ids g \<union>
         {p. source_productions g \<le> p \<and> p < gsize g \<and> dynamic g p = None},
       cc_ps_states := (\<lambda>_ _. Map.empty), cc_active_guards := Map.empty\<rparr>"

text \<open>\<open>(size_t) -1\<close> as an id.\<close>

definition no_id :: nat where "no_id = SIZE_MAX"

definition add_dynamic_production_from ::
  "'t lit \<Rightarrow> 't list \<Rightarrow> ('t, 'z) grammar_scheme \<Rightarrow> nat option \<times> ('t, 'z) grammar_scheme" where
  "add_dynamic_production_from l v g =
     (if v = [] then (None, g)
      else
        let pc = (if snd (active_grow g) \<noteq> no_id then active_grow g else (no_id, lit_n l));
            g = idx_touch l g
        in case idx_of g l v of
             Some i \<Rightarrow>
               if entry_is g i Host \<or> entry_is g i Committed then (None, g)
               else if entry_is g i Pending then
                 (Some i, upd_entry i (\<lambda>e. e\<lparr>grown_by := insert pc (grown_by e)\<rparr>) g)
               else
                 let g = link i (upd_entry i (\<lambda>e. e\<lparr>st := Pending, grown_by := {pc}, confirmed := False\<rparr>) g)
                 in (Some i, g\<lparr>pending := pending g @ [i]\<rparr>)
           | None \<Rightarrow>
               let i = gsize g; g = new_dynamic Pending {pc} l v g
               in (Some i, g\<lparr>pending := pending g @ [i]\<rparr>))"

text \<open>The context: nonterminal ids with their increasing lists of values.\<close>

type_synonym 't dyn_ctx = "(nat \<times> 't list list) list"

definition ctx_values :: "'t dyn_ctx \<Rightarrow> nat \<Rightarrow> 't list list" where
  "ctx_values ctx n = (case map_of ctx n of None \<Rightarrow> [] | Some vs \<Rightarrow> vs)"

definition ctx_insert :: "nat \<Rightarrow> 't::linorder list \<Rightarrow> 't dyn_ctx \<Rightarrow> 't dyn_ctx" where
  "ctx_insert n v ctx = smap_update (<) n (sinsert (lex_less (<)) v (ctx_values ctx n)) ctx"

definition clear_growth :: "nat \<Rightarrow> ('t, 'z) grammar_scheme \<Rightarrow> ('t, 'z) grammar_scheme" where
  "clear_growth i g = upd_entry i (\<lambda>e. e\<lparr>grown_by := {}, confirmed := False\<rparr>) g"

definition commit_one ::
  "nat \<Rightarrow> bool \<times> 't::linorder dyn_ctx \<times> ('t, 'z) grammar_scheme \<Rightarrow> bool \<times> 't dyn_ctx \<times> ('t, 'z) grammar_scheme" where
  "commit_one i = (\<lambda>(any, ctx, g).
     case dynamic g i of
       None \<Rightarrow> (any, ctx, g)
     | Some e \<Rightarrow>
         if confirmed e
         then (True, ctx_insert (lit_n (dyn_lit e)) (dyn_value e) ctx,
               clear_growth i (upd_entry i (\<lambda>e. e\<lparr>st := Committed\<rparr>) g))
         else (any, ctx, clear_growth i (retire i g)))"

definition commit_dynamic ::
  "'t::linorder dyn_ctx \<Rightarrow> ('t, 'z) grammar_scheme \<Rightarrow> bool \<times> 't dyn_ctx \<times> ('t, 'z) grammar_scheme" where
  "commit_dynamic ctx g =
     (case fold commit_one (pending g) (False, ctx, g) of (any, ctx, g) \<Rightarrow> (any, ctx, g\<lparr>pending := []\<rparr>))"

definition rollback_dynamic :: "('t, 'z) grammar_scheme \<Rightarrow> ('t, 'z) grammar_scheme" where
  "rollback_dynamic g =
     (fold (\<lambda>i g. clear_growth i (retire i g)) (pending g) g)\<lparr>pending := []\<rparr>"

definition sync_value :: "'t lit \<Rightarrow> 't list \<Rightarrow> ('t, 'z) grammar_scheme \<Rightarrow> ('t, 'z) grammar_scheme" where
  "sync_value l v g =
     (if v = [] then g
      else case idx_of g l v of
          Some i \<Rightarrow> if entry_is g i Host \<or> entry_is g i Committed then g else promote Committed True i g
        | None \<Rightarrow> new_dynamic Committed {} l v g)"

definition sync_nt :: "'t::linorder dyn_ctx \<Rightarrow> nat \<Rightarrow> ('t, 'z) grammar_scheme \<Rightarrow> ('t, 'z) grammar_scheme" where
  "sync_nt ctx n g =
     (let l = Nt n; target = ctx_values ctx n; g = idx_touch l g;
          m = (case map_of (dynamic_idx g) l of None \<Rightarrow> [] | Some m \<Rightarrow> m);
          g = fold (\<lambda>vi g. if entry_is g (snd vi) Committed \<and> fst vi \<notin> set target
                           then retire (snd vi) g else g) m g
      in fold (sync_value l) target g)"

definition sync_dynamic_context :: "'t::linorder dyn_ctx \<Rightarrow> ('t, 'z) grammar_scheme \<Rightarrow> ('t, 'z) grammar_scheme" where
  "sync_dynamic_context ctx g =
     fold (sync_nt ctx) (sset (<) (map (\<lambda>lm. lit_n (fst lm)) (dynamic_idx g) @ map fst ctx)) g"

definition confirm_dynamic :: "nat \<Rightarrow> 't lit \<Rightarrow> 't list \<Rightarrow> ('t, 'z) grammar_scheme \<Rightarrow> ('t, 'z) grammar_scheme" where
  "confirm_dynamic parent l v g =
     fold (\<lambda>i. upd_entry i (\<lambda>e.
        if dyn_value e = v \<and> ((parent, lit_n l) \<in> grown_by e \<or> (no_id, lit_n l) \<in> grown_by e)
        then e\<lparr>confirmed := True\<rparr> else e)) (pending g) g"

section \<open>The constructor\<close>

definition empty_grammar :: "'t grammar_opts \<Rightarrow> names \<Rightarrow> 't lit \<Rightarrow> 't char_class_fns \<Rightarrow> 't grammar" where
  "empty_grammar ops ns s cc =
     \<lparr>opt = ops, nts = ns, start = s,
      cc_fns = cc\<lparr>fns := fns cc |` (- derived cc), derived := {}, ps := (\<lambda>_. Map.empty)\<rparr>,
      ntsm = (\<lambda>_. []), ntsm_by_nt = [], grdm = Map.empty, guards = [], nullables = {},
      conjunctives = {}, prods = [], source_productions = 0, cc_char_prods = (\<lambda>_. Map.empty),
      cc_char_prod_ids = {}, cc_ps_states = (\<lambda>_ _. Map.empty), cc_active_guards = Map.empty,
      cc_prod_exprs = Map.empty, cc_inner_nts = {}, cc_excluded_nts = {}, cc_source_prods = (\<lambda>_. []),
      dynamic = Map.empty, dynamic_idx = [], pending = [], active_grow = (no_id, no_id)\<rparr>"

definition drop_empty_values :: "'t grammar \<Rightarrow> 't grammar" where
  "drop_empty_values g =
     g\<lparr>opt := (opt g)\<lparr>opt_dynamic := map (\<lambda>(s, vs). (s, removeAll [] vs)) (opt_dynamic (opt g))\<rparr>\<rparr>"

text \<open>The constructor; \<open>diag\<close> says whether the caller passed a report. It gives the errors
  reported and the grammar, which has no index when a limit is exceeded.\<close>

definition grammar_ctor ::
  "names \<Rightarrow> 't::comm_ring_1 prods \<Rightarrow> 't prods \<Rightarrow> 't char_class_fns \<Rightarrow> 't grammar_opts \<Rightarrow> bool \<Rightarrow>
   grammar_error list \<times> 't grammar" where
  "grammar_ctor ns rules start_rules cc ops diag =
     (let g = load_prods rules (empty_grammar ops ns (to_lit start_rules) cc);
          g = g\<lparr>source_productions := gsize g\<rparr>;
          over = (if diag then limit_error (prods g) else None)
      in case over of
           Some e \<Rightarrow> ([e], g)
         | None \<Rightarrow>
             let errs = (if diag then map (\<lambda>(s, vs). Dynamic_empty_value s)
                           (filter (\<lambda>(s, vs). [] \<in> set vs) (opt_dynamic ops)) else []);
                 g = drop_empty_values g;
                 g = fold host_option (opt_dynamic (opt g)) g
             in (errs, refresh g))"

end
