(* ===== verification/Input.thy ===== *)
theory Input
  imports Prelude
begin

text \<open>
  The input manager \<open>parser::input\<close> of \<open>src/src/parser.tmpl.h\<close> over memory: the data pointer and
  the memory map, which share every operation. A decoder turns characters into terminals as they
  are asked for; it is a parameter, a function from the input to the terminals it read and the
  input it left. Without one the terminals are the characters, converted by \<open>conv\<close>
  (\<open>static_cast\<close>): this is the parser whose characters and terminals have one type, where \<open>conv\<close> is the
  identity and \<open>tcur\<close> answers \<open>cur()\<close>; with two types and no decoder the code of \<open>tcur\<close> answers \<open>T()\<close>,
  which is not modelled. The file descriptor and the stream constructors are not modelled.
\<close>

section \<open>State\<close>

datatype input_type = Pointer | Mmap

record ('c, 't) input =
  itype :: input_type
  eof_char :: 'c
  data :: "'c list"
  size_l :: nat
  max_l :: nat
  pos_n :: nat
  mm_error :: bool
  terms :: "'t list"
  tp :: nat

type_synonym ('c, 't) decoder = "(('c, 't) input \<Rightarrow> 't list \<times> ('c, 't) input) option"

definition input_of_pointer :: "'c list \<Rightarrow> nat \<Rightarrow> 'c \<Rightarrow> ('c, 't) input" where
  "input_of_pointer d m e =
     \<lparr>itype = Pointer, eof_char = e, data = d, size_l = length d,
      max_l = (if m > length d then length d else m), pos_n = 0, mm_error = False, terms = [], tp = 0\<rparr>"

definition input_of_map :: "'c list \<Rightarrow> bool \<Rightarrow> nat \<Rightarrow> 'c \<Rightarrow> ('c, 't) input" where
  "input_of_map d err m e =
     \<lparr>itype = Mmap, eof_char = e, data = d, size_l = length d, max_l = m, pos_n = 0,
      mm_error = err, terms = [], tp = 0\<rparr>"

section \<open>Characters\<close>

definition good :: "('c, 't) input \<Rightarrow> bool" where
  "good i = (itype i = Mmap \<longrightarrow> \<not> mm_error i)"

definition in_range :: "('c, 't) input \<Rightarrow> nat \<Rightarrow> bool" where
  "in_range i p \<longleftrightarrow> p < size_l i \<and> (max_l i = 0 \<or> p < max_l i)"

definition cur :: "('c, 't) input \<Rightarrow> 'c" where
  "cur i = (if in_range i (pos_n i) then data i ! pos_n i else eof_char i)"

definition next_char :: "('c, 't) input \<Rightarrow> bool \<times> ('c, 't) input" where
  "next_char i = (if in_range i (pos_n i) then (True, i\<lparr>pos_n := pos_n i + 1\<rparr>) else (False, i))"

definition at_eof_char :: "('c, 't) input \<Rightarrow> bool" where
  "at_eof_char i \<longleftrightarrow> cur i = eof_char i"

definition char_at :: "('c, 't) input \<Rightarrow> nat \<Rightarrow> 'c" where
  "char_at i p = (if p \<ge> size_l i \<or> (max_l i \<noteq> 0 \<and> p \<ge> max_l i) then eof_char i else data i ! p)"

definition known_length :: "('c, 't) input \<Rightarrow> nat" where
  "known_length i = (if max_l i \<noteq> 0 then max_l i else size_l i)"

section \<open>Terminals\<close>

definition decode_more :: "('c, 't) decoder \<Rightarrow> ('c, 't) input \<Rightarrow> ('c, 't) input" where
  "decode_more dec i =
     (case dec of
        None \<Rightarrow> i
      | Some f \<Rightarrow> if at_eof_char i then i else (case f i of (x, i') \<Rightarrow> i'\<lparr>terms := terms i' @ x\<rparr>))"

definition fill :: "('c, 't) decoder \<Rightarrow> ('c, 't) input \<Rightarrow> ('c, 't) input" where
  "fill dec i = (if tp i \<ge> length (terms i) then decode_more dec i else i)"

definition teof :: "('c, 't) decoder \<Rightarrow> ('c, 't) input \<Rightarrow> bool \<times> ('c, 't) input" where
  "teof dec i =
     (case dec of
        None \<Rightarrow> (at_eof_char i, i)
      | Some _ \<Rightarrow> (let i = fill dec i in (tp i \<ge> length (terms i), i)))"

definition tcur :: "('c \<Rightarrow> 't::zero) \<Rightarrow> ('c, 't) decoder \<Rightarrow> ('c, 't) input \<Rightarrow> 't \<times> ('c, 't) input" where
  "tcur conv dec i =
     (case dec of
        None \<Rightarrow> (conv (cur i), i)
      | Some _ \<Rightarrow>
          (let i = fill dec i in
           if terms i = [] \<or> tp i \<ge> length (terms i) then (0, i)
           else case teof dec i of (True, i) \<Rightarrow> (0, i) | (False, i) \<Rightarrow> (terms i ! tp i, i)))"

definition tnext :: "('c, 't) decoder \<Rightarrow> ('c, 't) input \<Rightarrow> bool \<times> ('c, 't) input" where
  "tnext dec i =
     (case dec of
        Some _ \<Rightarrow> (case teof dec i of (True, i) \<Rightarrow> (False, i) | (False, i) \<Rightarrow> (True, i\<lparr>tp := tp i + 1\<rparr>))
      | None \<Rightarrow>
          if at_eof_char i then (False, i)
          else (case next_char i of (False, i) \<Rightarrow> (False, i) | (True, i) \<Rightarrow> (True, i\<lparr>tp := tp i + 1\<rparr>)))"

definition tat :: "('c \<Rightarrow> 't::zero) \<Rightarrow> ('c, 't) decoder \<Rightarrow> ('c, 't) input \<Rightarrow> nat \<Rightarrow> 't" where
  "tat conv dec i p =
     (case dec of
        None \<Rightarrow> conv (char_at i p)
      | Some _ \<Rightarrow> if p \<ge> length (terms i) then 0 else terms i ! p)"

definition get_terminals ::
  "('c \<Rightarrow> 't) \<Rightarrow> ('c, 't) decoder \<Rightarrow> ('c, 't) input \<Rightarrow> nat \<Rightarrow> nat \<Rightarrow> 't list" where
  "get_terminals conv dec i from to =
     (case dec of
        None \<Rightarrow> map conv (take (to - from) (drop from (data i)))
      | Some _ \<Rightarrow>
          (let s = min from (length (terms i)); e = min to (length (terms i))
           in take (e - s) (drop s (terms i))))"

section \<open>Well-formed inputs\<close>

text \<open>Without a decoder the two positions agree, and the terminal under the cursor is the one
  \<open>tat\<close> reads at that position.\<close>

definition input_ok :: "('c, 't) input \<Rightarrow> bool" where
  "input_ok i \<longleftrightarrow> size_l i = length (data i) \<and> tp i = pos_n i \<and> pos_n i \<le> length (data i)"

lemma in_range_iff: "in_range i p \<longleftrightarrow> \<not> (p \<ge> size_l i \<or> (max_l i \<noteq> 0 \<and> p \<ge> max_l i))"
  by (auto simp: in_range_def)

lemma tcur_tat: "input_ok i \<Longrightarrow> tcur conv None i = (tat conv None i (tp i), i)"
  by (simp add: tcur_def tat_def cur_def char_at_def in_range_iff input_ok_def)

lemma tnext_frame:
  assumes "tnext None i = (b, i')" "input_ok i"
  shows "input_ok i' \<and> data i' = data i \<and> size_l i' = size_l i \<and> max_l i' = max_l i \<and>
    eof_char i' = eof_char i \<and> tp i' = (if b then Suc (tp i) else tp i) \<and>
    tat conv None i' = tat conv None i"
  using assms by (auto simp: tnext_def next_char_def input_ok_def in_range_def tat_def char_at_def
      fun_eq_iff split: if_splits)

lemma input_ok_pointer: "input_ok (input_of_pointer d m e)"
  by (simp add: input_ok_def input_of_pointer_def)

end
