(* ===== verification/Chart.thy ===== *)
theory Chart
  imports Dynamic Input
begin

text \<open>
  The state of a parse in \<open>src/src/parser.h\<close> and the operations of \<open>src/src/parser.tmpl.h\<close> that
  change it: Earley items, the item sets, the waiting items, the bookkeeping of conjunctions, of
  garbage collection and of the dynamic spans. \<open>ankerl::unordered_dense::set\<close>, the container of
  items, is a parameter, the record \<open>dense_ops\<close> over the sequence \<open>values()\<close> shows; the locale
  \<open>dense_set\<close> says what the code relies on. \<open>fromS\<close> is written and erased from but never decides
  anything, and is left out.
\<close>

section \<open>Items\<close>

record item =
  i_set :: nat
  i_prod :: nat
  i_con :: nat
  i_from :: nat
  i_dot :: nat

definition mk_item :: "nat \<Rightarrow> nat \<Rightarrow> nat \<Rightarrow> nat \<Rightarrow> nat \<Rightarrow> item" where
  "mk_item s p c f d = \<lparr>i_set = s, i_prod = p, i_con = c, i_from = f, i_dot = d\<rparr>"

definition item_less :: "item \<Rightarrow> item \<Rightarrow> bool" where
  "item_less a b =
     (if i_set a \<noteq> i_set b then i_set a < i_set b
      else if i_prod a \<noteq> i_prod b then i_prod a < i_prod b
      else if i_con a \<noteq> i_con b then i_con a < i_con b
      else if i_from a \<noteq> i_from b then i_from a < i_from b
      else i_dot a < i_dot b)"

interpretation item: comparator item_less
  by unfold_locales (auto simp: item_less_def split: if_splits)

definition get_lit :: "('t, 'z) grammar_scheme \<Rightarrow> item \<Rightarrow> 't lit" where
  "get_lit g i = seq (body g (i_prod i) ! i_con i) ! i_dot i"

definition get_nt :: "('t, 'z) grammar_scheme \<Rightarrow> item \<Rightarrow> 't lit" where
  "get_nt g i = head g (i_prod i)"

definition n_literals :: "('t, 'z) grammar_scheme \<Rightarrow> item \<Rightarrow> nat" where
  "n_literals g i = length (seq (body g (i_prod i) ! i_con i))"

definition completed :: "('t, 'z) grammar_scheme \<Rightarrow> item \<Rightarrow> bool" where
  "completed g i \<longleftrightarrow> n_literals g i = i_dot i"

definition negative :: "('t, 'z) grammar_scheme \<Rightarrow> item \<Rightarrow> bool" where
  "negative g i \<longleftrightarrow> neg (body g (i_prod i) ! i_con i)"

definition nullable_item :: "('t, 'z) grammar_scheme \<Rightarrow> item \<Rightarrow> bool" where
  "nullable_item g i \<longleftrightarrow> i_dot i < n_literals g i \<and> nullable g (get_lit g i)"

section \<open>The container of items\<close>

record dense_ops =
  d_insert :: "item \<Rightarrow> item list \<Rightarrow> item list"
  d_erase :: "item \<Rightarrow> item list \<Rightarrow> item list"

locale dense_set =
  fixes ops :: dense_ops
  assumes insert_new: "x \<notin> set s \<Longrightarrow> d_insert ops x s = s @ [x]"
    and insert_old: "x \<in> set s \<Longrightarrow> d_insert ops x s = s"
    and erase_set: "distinct s \<Longrightarrow> set (d_erase ops x s) = set s - {x} \<and> distinct (d_erase ops x s)"
    and erase_sub: "set (d_erase ops x s) \<subseteq> set s"
begin

lemma set_insert [simp]: "set (d_insert ops x s) = insert x (set s)"
  by (cases "x \<in> set s") (auto simp: insert_new insert_old)

lemma distinct_insert: "distinct s \<Longrightarrow> distinct (d_insert ops x s)"
  by (cases "x \<in> set s") (auto simp: insert_new insert_old)

end

text \<open>A container with these laws: append, and on erase move the last element to the gap.\<close>

definition swap_erase :: "item \<Rightarrow> item list \<Rightarrow> item list" where
  "swap_erase x s =
     (case index_of x s of None \<Rightarrow> s | Some k \<Rightarrow> butlast (s[k := last s]))"

definition dense_std :: dense_ops where
  "dense_std = \<lparr>d_insert = (\<lambda>x s. if x \<in> set s then s else s @ [x]), d_erase = swap_erase\<rparr>"

lemma index_of_Some: "index_of x s = Some k \<Longrightarrow> k < length s \<and> s ! k = x"
  by (induction s arbitrary: k) (auto split: if_splits)

lemma index_of_None: "index_of x s = None \<longleftrightarrow> x \<notin> set s"
  by (induction s) auto

lemma swap_erase_sub: "set (swap_erase x s) \<subseteq> set s"
proof (cases "index_of x s")
  case (Some k)
  then have k: "k < length s" using index_of_Some by fastforce
  have "set (s[k := last s]) \<subseteq> insert (last s) (set s)" by (rule set_update_subset_insert)
  moreover have "last s \<in> set s" using k by (cases s) simp_all
  ultimately have "set (s[k := last s]) \<subseteq> set s" by blast
  then show ?thesis using Some by (auto simp: swap_erase_def dest: in_set_butlastD)
qed (simp add: swap_erase_def)

lemma swap_erase_set:
  assumes "distinct s"
  shows "set (swap_erase x s) = set s - {x} \<and> distinct (swap_erase x s)"
proof (cases "index_of x s")
  case None
  then have "x \<notin> set s" by (simp add: index_of_None)
  then show ?thesis using assms None by (simp add: swap_erase_def)
next
  case (Some k)
  note k = index_of_Some[OF Some]
  then obtain ys z where s: "s = ys @ [z]" by (cases s rule: rev_cases) auto
  show ?thesis
  proof (cases "k = length ys")
    case True
    then show ?thesis using assms k Some s by (auto simp: swap_erase_def)
  next
    case False
    then have ky: "k < length ys" "ys ! k = x" using k s by (auto simp: nth_append)
    then have e: "swap_erase x s = ys[k := z]" using Some s False by (simp add: swap_erase_def list_update_append)
    have d: "distinct ys" "z \<notin> set ys" using assms s by simp_all
    have "set (ys[k := z]) = insert z (set ys - {x})"
      using d(1) ky by (simp add: set_update_distinct)
    moreover have "x \<noteq> z" using ky d(2) nth_mem by blast
    ultimately show ?thesis using e s d ky by (auto intro: distinct_list_update)
  qed
qed

interpretation dense_std: dense_set dense_std
  by unfold_locales (use swap_erase_set swap_erase_sub in \<open>simp_all add: dense_std_def\<close>)

section \<open>State\<close>

record dyn_child_entry =
  child_nt :: nat
  d_from :: nat
  d_to :: nat
  fired :: bool

type_synonym wait_entry = "nat \<times> item"
type_synonym completion_key = "nat \<times> nat \<times> nat"

definition dead_wait :: nat where "dead_wait = 4294967295"

text \<open>The options of the parser and of the parse. The callback of the dynamic productions may read
  the input and change the grammar.\<close>

record ('c, 't) env =
  conv :: "'c \<Rightarrow> 't"
  dec :: "('c, 't) decoder"
  binarize :: bool
  dynamic_grow_nts :: "(nat \<times> nat) list"
  on_dynamic_grow :: "(('c, 't) input \<Rightarrow> nat \<Rightarrow> nat \<Rightarrow> nat \<Rightarrow> 't grammar \<Rightarrow> 't grammar) option"
  po_start :: nat
  enable_gc :: bool
  gc_lag :: nat
  dops :: dense_ops

record ('c, 't) chart =
  gr :: "'t grammar"
  inp :: "('c, 't) input"
  S :: "item list list"
  U :: "item list list"
  wait :: "wait_entry list list"
  refi :: "item \<rightharpoonup> int"
  gcready :: "item list"
  completion_deps :: "completion_key \<Rightarrow> item list"
  completion_count :: "completion_key \<Rightarrow> nat"
  counted_completions :: "item set"
  forward_deps :: "item \<Rightarrow> item list"
  complete_memo :: "item \<Rightarrow> nat"
  dyn_child_span :: "item \<rightharpoonup> dyn_child_entry list"
  dyn_child_ids :: "nat set"
  epoch :: nat
  any_conj :: bool

definition vresize :: "nat \<Rightarrow> 'a list list \<Rightarrow> 'a list list" where
  "vresize n xs = xs @ replicate (n - length xs) []"

definition S_insert :: "('c, 't) env \<Rightarrow> item \<Rightarrow> ('c, 't) chart \<Rightarrow> ('c, 't) chart" where
  "S_insert e x s = s\<lparr>S := (S s)[i_set x := d_insert (dops e) x (vget (i_set x) (S s))]\<rparr>"

definition in_S :: "('c, 't) chart \<Rightarrow> item \<Rightarrow> bool" where
  "in_S s x \<longleftrightarrow> x \<in> set (vget (i_set x) (S s))"

definition in_U :: "('c, 't) chart \<Rightarrow> item \<Rightarrow> bool" where
  "in_U s x \<longleftrightarrow> any_conj s \<and> x \<in> set (vget (i_set x) (U s))"

section \<open>The waiting items\<close>

definition cache_insert :: "nat \<Rightarrow> nat \<Rightarrow> item \<Rightarrow> ('c, 't) chart \<Rightarrow> ('c, 't) chart" where
  "cache_insert n pos i s =
     (let w = vresize (pos + 1) (wait s); v = w ! pos in
      s\<lparr>wait := (if (n, i) \<in> set v then w else w[pos := v @ [(n, i)]])\<rparr>)"

fun tombstone :: "nat \<Rightarrow> item \<Rightarrow> wait_entry list \<Rightarrow> wait_entry list" where
  "tombstone n i [] = []"
| "tombstone n i (w # ws) = (if w = (n, i) then (dead_wait, i) # ws else w # tombstone n i ws)"

definition cache_erase :: "nat \<Rightarrow> nat \<Rightarrow> item \<Rightarrow> ('c, 't) chart \<Rightarrow> ('c, 't) chart" where
  "cache_erase n pos i s =
     (if pos \<ge> length (wait s) then s
      else s\<lparr>wait := (wait s)[pos := tombstone n i (wait s ! pos)]\<rparr>)"

section \<open>Dynamic spans\<close>

fun merge_entry :: "dyn_child_entry \<Rightarrow> dyn_child_entry list \<Rightarrow> dyn_child_entry list" where
  "merge_entry e [] = [e]"
| "merge_entry e (m # ms) =
     (if child_nt m = child_nt e \<and> d_from m = d_from e \<and> d_to m = d_to e
      then m\<lparr>fired := fired m \<or> fired e\<rparr> # ms else m # merge_entry e ms)"

definition merge_dyn_child_span :: "item \<Rightarrow> dyn_child_entry list \<Rightarrow> ('c, 't) chart \<Rightarrow> ('c, 't) chart" where
  "merge_dyn_child_span j incoming s =
     s\<lparr>epoch := epoch s + 1,
       dyn_child_span := (dyn_child_span s)(j \<mapsto>
         fold merge_entry incoming (case dyn_child_span s j of None \<Rightarrow> [] | Some m \<Rightarrow> m))\<rparr>"

definition fire_dynamic_grow ::
  "('c, 't) env \<Rightarrow> nat \<Rightarrow> nat \<Rightarrow> nat \<Rightarrow> nat \<Rightarrow> ('c, 't) chart \<Rightarrow> ('c, 't) chart" where
  "fire_dynamic_grow e parent child from to s =
     (case on_dynamic_grow e of
        None \<Rightarrow> s
      | Some f \<Rightarrow>
          (let prev = active_grow (gr s);
               g = f (inp s) child from to ((gr s)\<lparr>active_grow := (parent, child)\<rparr>)
           in s\<lparr>epoch := epoch s + 1, gr := g\<lparr>active_grow := prev\<rparr>\<rparr>))"

text \<open>The loop that fires every entry the parent has progressed strictly past.\<close>

definition fire_entries ::
  "('c, 't) env \<Rightarrow> nat \<Rightarrow> nat \<Rightarrow> dyn_child_entry list \<Rightarrow> ('c, 't) chart \<Rightarrow> dyn_child_entry list \<times> ('c, 't) chart" where
  "fire_entries e parent pos entries s =
     fold (\<lambda>d (ds, s).
         if fired d \<or> \<not> d_to d < pos then (ds @ [d], s)
         else (ds @ [d\<lparr>fired := True\<rparr>], fire_dynamic_grow e parent (child_nt d) (d_from d) (d_to d) s))
       entries ([], s)"

definition confirm_dynamic_parent :: "('c, 't) env \<Rightarrow> item \<Rightarrow> ('c, 't) chart \<Rightarrow> ('c, 't) chart" where
  "confirm_dynamic_parent e x s =
     (case get_nt (gr s) x of
        Nt h \<Rightarrow>
          if h \<notin> fst ` set (dynamic_grow_nts e) then s
          else (case dyn_child_span s x of
              None \<Rightarrow> s
            | Some ds \<Rightarrow>
                fold (\<lambda>d s.
                    if (h, child_nt d) \<notin> set (dynamic_grow_nts e) then s
                    else s\<lparr>gr := confirm_dynamic h (Nt (child_nt d))
                             (get_terminals (conv e) (dec e) (inp s) (d_from d) (d_to d)) (gr s)\<rparr>)
                  ds s)
      | _ \<Rightarrow> s)"

section \<open>Adding items\<close>

definition carry_span :: "('c, 't) env \<Rightarrow> item \<Rightarrow> item \<Rightarrow> ('c, 't) chart \<Rightarrow> ('c, 't) chart" where
  "carry_span e i j s =
     (if dynamic_grow_nts e \<noteq> [] then
        (case dyn_child_span s i of None \<Rightarrow> s | Some ds \<Rightarrow> merge_dyn_child_span j ds s)
      else s)"

lemma gr_carry_span [simp]: "gr (carry_span e i j s) = gr s"
  by (simp add: carry_span_def merge_dyn_child_span_def split: option.splits)

definition U_resize :: "('c, 't) chart \<Rightarrow> ('c, 't) chart" where
  "U_resize s = s\<lparr>U := vresize (length (S s)) (U s)\<rparr>"

text \<open>\<open>add\<close> gives whether it inserted, the container \<open>t\<close> and the state.\<close>

function add :: "('c, 't) env \<Rightarrow> item \<Rightarrow> item list \<Rightarrow> ('c, 't) chart \<Rightarrow> bool \<times> item list \<times> ('c, 't) chart" where
  "add e i t s =
     (let s1 = (if any_conj s then U_resize s else s) in
      if in_U s1 i \<or> in_S s1 i \<or> i \<in> set t then (False, t, s1)
      else
        let t1 = d_insert (dops e) i t in
        if nullable_item (gr s) i then
          let j = i\<lparr>i_dot := i_dot i + 1\<rparr> in
          case add e j t1 (carry_span e i j s1) of (ins, t2, s2) \<Rightarrow>
            (True, t2,
             if ins \<and> any_conj s2 then s2\<lparr>forward_deps := (forward_deps s2)(i := forward_deps s2 i @ [j])\<rparr>
             else s2)
        else (True, t1, s1))"
  by pat_completeness auto
termination
  by (relation "measure (\<lambda>(e, i, t, s). n_literals (gr s) i - i_dot i)")
    (auto simp: nullable_item_def n_literals_def U_resize_def)

declare add.simps [simp del]

section \<open>Garbage collection\<close>

text \<open>\<open>remove_item\<close>: a nested call follows an insertion into \<open>gcready\<close>, so one more call than
  there are items is the deepest nesting.\<close>

fun remove_item :: "nat \<Rightarrow> ('c, 't) env \<Rightarrow> item \<Rightarrow> ('c, 't) chart \<Rightarrow> ('c, 't) chart" where
  "remove_item 0 e i s = s"
| "remove_item (Suc fuel) e i s =
     (if i_set i = 0 \<or> i \<in> set (gcready s) then s
      else
        fold (\<lambda>x s.
            if i_set x = 0 \<or> completed (gr s) x \<or> get_lit (gr s) x \<noteq> get_nt (gr s) i then s
            else (case refi s x of
                None \<Rightarrow> s
              | Some k \<Rightarrow>
                  if k - 1 = 0 then
                    let s = s\<lparr>refi := (refi s)(x := None)\<rparr>
                    in if enable_gc e then remove_item fuel e x s else s
                  else s\<lparr>refi := (refi s)(x \<mapsto> k - 1)\<rparr>))
          (vget (i_from i) (S s)) (s\<lparr>gcready := d_insert (dops e) i (gcready s)\<rparr>))"

definition n_items :: "('c, 't) chart \<Rightarrow> nat" where
  "n_items s = length (concat (S s))"

definition incr_ref :: "item \<Rightarrow> ('c, 't) chart \<Rightarrow> ('c, 't) chart" where
  "incr_ref i s = s\<lparr>refi := (refi s)(i \<mapsto> (case refi s i of None \<Rightarrow> 0 | Some k \<Rightarrow> k) + 1)\<rparr>"

text \<open>The loop of \<open>run_earley\<close> over \<open>gcready\<close> after position \<open>n\<close>.\<close>

definition gc_collect :: "('c, 't) env \<Rightarrow> item \<Rightarrow> ('c, 't) chart \<Rightarrow> ('c, 't) chart" where
  "gc_collect e rm s =
     (let s = s\<lparr>refi := (refi s)(rm := None)\<rparr>;
          s = (if in_S s rm then
                 let s = s\<lparr>epoch := epoch s + 1,
                           S := (S s)[i_set rm := d_erase (dops e) rm (vget (i_set rm) (S s))]\<rparr>
                 in if \<not> completed (gr s) rm \<and> is_nt (get_lit (gr s) rm)
                    then cache_erase (lit_n (get_lit (gr s) rm)) (i_set rm) rm s else s
               else s)
      in s\<lparr>gcready := d_erase (dops e) rm (gcready s)\<rparr>)"

text \<open>The iterator is the index \<open>k\<close>; erasing leaves it where it is. Every step passes an element
  or removes one, so the first argument starts as the number of elements.\<close>

fun gc_drain_from :: "nat \<Rightarrow> ('c, 't) env \<Rightarrow> nat \<Rightarrow> nat \<Rightarrow> ('c, 't) chart \<Rightarrow> ('c, 't) chart" where
  "gc_drain_from 0 e n k s = s"
| "gc_drain_from (Suc left) e n k s =
     (if k \<ge> length (gcready s) then s
      else let rm = gcready s ! k in
        if i_set rm + gc_lag e \<le> n \<and> \<not> (case refi s rm of None \<Rightarrow> False | Some r \<Rightarrow> r > 0)
        then gc_drain_from left e n k (gc_collect e rm s)
        else gc_drain_from left e n (Suc k) s)"

definition gc_drain :: "('c, 't) env \<Rightarrow> nat \<Rightarrow> ('c, 't) chart \<Rightarrow> ('c, 't) chart" where
  "gc_drain e n s = (if enable_gc e then gc_drain_from (length (gcready s)) e n 0 s else s)"

section \<open>Conjunctions\<close>

definition nt_still_completed :: "('c, 't) chart \<Rightarrow> completion_key \<Rightarrow> bool" where
  "nt_still_completed s k \<longleftrightarrow> completion_count s k > 0"

text \<open>\<open>retract_item\<close> and \<open>cascade_uncomplete\<close>: \<open>c\<close> is the container of parked conjuncts. A nested
  call follows the removal of an item from its set, so one more call than there are items is the
  deepest nesting.\<close>

fun retract_item ::
  "nat \<Rightarrow> ('c, 't) env \<Rightarrow> item \<Rightarrow> item list \<times> ('c, 't) chart \<Rightarrow> item list \<times> ('c, 't) chart" where
  "retract_item 0 e x cs = cs"
| "retract_item (Suc fuel) e x cs =
     (let (c, s) = cs; s = U_resize (s\<lparr>epoch := epoch s + 1\<rparr>); c = d_erase (dops e) x c in
      if i_set x \<ge> length (S s) then (c, s)
      else
        let present = in_S s x;
            s = s\<lparr>U := (U s)[i_set x := d_insert (dops e) x (vget (i_set x) (U s))]\<rparr>
        in
        if \<not> present then (c, s)
        else
          let s = s\<lparr>S := (S s)[i_set x := d_erase (dops e) x (vget (i_set x) (S s))]\<rparr>;
              s = (if \<not> completed (gr s) x \<and> is_nt (get_lit (gr s) x)
                   then cache_erase (lit_n (get_lit (gr s) x)) (i_set x) x s else s);
              fwd = forward_deps s x;
              (c, s) = fold (retract_item fuel e) fwd (c, s\<lparr>forward_deps := (forward_deps s)(x := [])\<rparr>)
          in
          if completed (gr s) x \<and> is_nt (get_nt (gr s) x) \<and> x \<in> counted_completions s then
            let k = (lit_n (get_nt (gr s) x), i_from x, i_set x);
                s = s\<lparr>counted_completions := counted_completions s - {x},
                      completion_count := (completion_count s)(k := completion_count s k - 1)\<rparr>
            in
            if nt_still_completed s k then (c, s)
            else fold (retract_item fuel e) (completion_deps s k)
                   (c, s\<lparr>completion_deps := (completion_deps s)(k := [])\<rparr>)
          else (c, s))"

text \<open>The groups of \<open>resolve_conjunctions\<close>, by production and start, each in the order of items.\<close>

definition conj_groups :: "item list \<Rightarrow> ((nat \<times> nat) \<times> item list) list" where
  "conj_groups c =
     map (\<lambda>k. (k, sset item_less (filter (\<lambda>x. (i_prod x, i_from x) = k) c)))
       (sset (pair_less (<) (<)) (map (\<lambda>x. (i_prod x, i_from x)) c))"

definition conj_found :: "('c, 't) chart \<Rightarrow> item list \<Rightarrow> nat \<Rightarrow> nat \<Rightarrow> bool" where
  "conj_found s xs p k =
     (let cj = body (gr s) p ! k in
      list_ex (\<lambda>x. i_con x = k \<or>
        (neg cj \<and> (case seq cj of [Nt m] \<Rightarrow> nt_still_completed s (m, i_from x, i_set x) | _ \<Rightarrow> False))) xs)"

definition conj_failed :: "('c, 't) chart \<Rightarrow> item list \<Rightarrow> nat \<Rightarrow> bool" where
  "conj_failed s xs p =
     list_ex (\<lambda>k. neg (body (gr s) p ! k) = conj_found s xs p k) [0..<n_conjs (gr s) p]"

definition resolve_conjunctions ::
  "('c, 't) env \<Rightarrow> item list \<times> ('c, 't) chart \<Rightarrow> item list \<times> ('c, 't) chart" where
  "resolve_conjunctions e = (\<lambda>(c, s).
     fold (\<lambda>(k, xs) (c, s).
         if conj_failed s xs (fst k)
         then fold (\<lambda>x (c, s). retract_item (n_items s + 1) e x (c, s)) xs (c, s)
         else (c, s))
       (conj_groups c) (c, s))"

end
