(* ===== verification/Earley.thy ===== *)
theory Earley
  imports Chart
begin

text \<open>
  The recognizer of \<open>src/src/parser.tmpl.h\<close>: \<open>complete\<close>, \<open>predict\<close>, \<open>scan\<close>,
  \<open>scan_cc_function\<close>, the position loop of \<open>_parse\<close> and \<open>found\<close>. The two loops are partial
  functions: \<open>None\<close> is a loop that does not end. The containers \<open>t\<close> (items added in the round) and
  \<open>c\<close> (items parked for the conjunctions) are passed along.
\<close>

section \<open>Complete\<close>

text \<open>The second call of \<open>complete\<close> in the position loop passes \<open>t\<close> for \<open>c\<close>; it is the one with
  \<open>conj_resolved\<close> set.\<close>

definition park :: "('c, 't) env \<Rightarrow> bool \<Rightarrow> item \<Rightarrow> item list \<times> item list \<Rightarrow> item list \<times> item list" where
  "park e resolved x tc =
     (if resolved then (d_insert (dops e) x (fst tc), snd tc)
      else (fst tc, d_insert (dops e) x (snd tc)))"

definition record_deps :: "item \<Rightarrow> item \<Rightarrow> item \<Rightarrow> completion_key \<Rightarrow> ('c, 't) chart \<Rightarrow> ('c, 't) chart" where
  "record_deps i it j k s =
     (if any_conj s then
        let s = s\<lparr>completion_deps := (completion_deps s)(k := completion_deps s k @ [j])\<rparr>
        in if i_set it = i_set i
           then s\<lparr>forward_deps := (forward_deps s)(it := forward_deps s it @ [j])\<rparr> else s
      else s)"

text \<open>What the advance of \<open>it\<close> over \<open>i\<close> does to the dynamic spans.\<close>

definition advance_span :: "('c, 't) env \<Rightarrow> item \<Rightarrow> item \<Rightarrow> item \<Rightarrow> ('c, 't) chart \<Rightarrow> ('c, 't) chart" where
  "advance_span e i it j s =
     (if dynamic_grow_nts e = [] then s
      else
        let smbl = get_nt (gr s) i; parent = lit_n (get_nt (gr s) it);
            ann = dyn_child_span s it;
            i_is_dyn_child = is_nt smbl \<and> lit_n smbl \<in> dyn_child_ids s \<and>
              (parent, lit_n smbl) \<in> set (dynamic_grow_nts e)
        in if i_is_dyn_child \<or> ann \<noteq> None then
             let entries = (case ann of None \<Rightarrow> [] | Some ds \<Rightarrow> ds) @
                   (if i_is_dyn_child
                    then [\<lparr>child_nt = lit_n smbl, d_from = i_from i, d_to = i_set i, fired = False\<rparr>] else [])
             in case fire_entries e parent (i_set j) entries s of
                  (entries, s) \<Rightarrow> merge_dyn_child_span j entries s
           else s)"

text \<open>The reference counting of an advance: the edge to \<open>j\<close> is added, the edge to \<open>i\<close> removed.\<close>

definition gc_advance :: "('c, 't) env \<Rightarrow> item \<Rightarrow> ('c, 't) chart \<Rightarrow> ('c, 't) chart" where
  "gc_advance e it s =
     (if \<not> enable_gc e then s
      else
        let s = incr_ref it s; k = the (refi s it) - 1 in
        if k = 0 then remove_item (n_items s + 1) e it (s\<lparr>refi := (refi s)(it := None)\<rparr>)
        else s\<lparr>refi := (refi s)(it \<mapsto> k)\<rparr>)"

text \<open>One waiting item.\<close>

definition complete_waiter ::
  "('c, 't) env \<Rightarrow> bool \<Rightarrow> item \<Rightarrow> wait_entry \<Rightarrow> item list \<times> item list \<times> ('c, 't) chart \<Rightarrow>
   item list \<times> item list \<times> ('c, 't) chart" where
  "complete_waiter e resolved i we = (\<lambda>(t, c, s).
     let n = lit_n (get_nt (gr s) i); it = snd we; k = (n, i_from i, i_set i) in
     if fst we = dead_wait \<or> fst we \<noteq> n \<or> n_literals (gr s) it \<le> i_dot it then (t, c, s)
     else if \<not> in_S s it \<and> \<not> in_U s it then (t, c, s)
     else
       let j = it\<lparr>i_dot := i_dot it + 1, i_set := i_set i\<rparr>;
           s = advance_span e i it j s
       in
       if \<not> negative (gr s) j \<and> completed (gr s) j \<and> conjunctive (gr s) (i_prod j) then
         (case park e resolved j (t, c) of (t, c) \<Rightarrow> (t, c, record_deps i it j k s))
       else
         (case add e j t s of (ins, t, s) \<Rightarrow>
            (t, c, if ins then gc_advance e it (record_deps i it j k s) else s)))"

definition complete ::
  "('c, 't) env \<Rightarrow> bool \<Rightarrow> item \<Rightarrow> item list \<times> item list \<times> ('c, 't) chart \<Rightarrow>
   item list \<times> item list \<times> ('c, 't) chart" where
  "complete e resolved i = (\<lambda>(t, c, s).
     if \<not> resolved \<and> conjunctive (gr s) (i_prod i) then (t, d_insert (dops e) i c, s)
     else
       case add e i t s of (_, t, s) \<Rightarrow>
       let s = (if \<not> negative (gr s) i then confirm_dynamic_parent e i s else s);
           k = (lit_n (get_nt (gr s) i), i_from i, i_set i);
           s = (if any_conj s \<and> i \<notin> counted_completions s
                then s\<lparr>counted_completions := insert i (counted_completions s),
                       completion_count := (completion_count s)(k := completion_count s k + 1)\<rparr>
                else s);
           vec = vget (i_from i) (wait s); last_idx = complete_memo s i
       in if last_idx \<ge> length vec then (t, c, s)
          else fold (complete_waiter e resolved i) (drop last_idx vec)
                 (t, c, s\<lparr>complete_memo := (complete_memo s)(i := length vec)\<rparr>))"

section \<open>Predict\<close>

definition first_can_match :: "('t::comm_ring_1, 'z) grammar_scheme \<Rightarrow> nat \<Rightarrow> nat \<Rightarrow> 't \<Rightarrow> bool" where
  "first_can_match g p c ch =
     (case seq (body g p ! c) of
        [] \<Rightarrow> True
      | l # _ \<Rightarrow>
          (case l of
             Null \<Rightarrow> True
           | Tm t \<Rightarrow> t = ch
           | Nt n \<Rightarrow>
               if \<not> is_cc_fn g n then True
               else if is_eof_fn g n then ch = 0 \<or> ch = -1
               else \<not> char_class_check g l ch))"

definition predict_one ::
  "('c, 't::comm_ring_1) env \<Rightarrow> item \<Rightarrow> 't \<Rightarrow> dyn_child_entry list \<Rightarrow> nat \<times> nat \<Rightarrow>
   item list \<times> ('c, 't) chart \<Rightarrow> item list \<times> ('c, 't) chart" where
  "predict_one e i ch inherited pc = (\<lambda>(t, s).
     let l = get_lit (gr s) i; (p, c) = pc;
         s = (if c = 0 \<and> is_nt l then cache_insert (lit_n l) (i_set i) i s else s)
     in if \<not> first_can_match (gr s) p c ch then (t, s)
        else
          let j = mk_item (i_set i) p c (i_set i) 0 in
          case add e j t s of (_, t, s) \<Rightarrow>
            let s = (if inherited \<noteq> [] then merge_dyn_child_span j inherited s else s)
            in (t, if enable_gc e then incr_ref i s else s))"

definition predict ::
  "('c, 't::comm_ring_1) env \<Rightarrow> item \<Rightarrow> 't \<Rightarrow> item list \<times> ('c, 't) chart \<Rightarrow> item list \<times> ('c, 't) chart" where
  "predict e i ch = (\<lambda>(t, s).
     let inherited =
           (if dynamic_grow_nts e = [] then []
            else case dyn_child_span s i of
                None \<Rightarrow> []
              | Some ds \<Rightarrow> if list_ex (\<lambda>d. \<not> fired d) ds then ds else []);
         pcs = concat (map (\<lambda>p. map (Pair p) [0..<n_conjs (gr s) p])
                 (prod_ids_of_literal (gr s) (get_lit (gr s) i)))
     in fold (predict_one e i ch inherited) pcs (t, s))"

section \<open>Scan\<close>

definition S_add :: "('c, 't) env \<Rightarrow> item \<Rightarrow> ('c, 't) chart \<Rightarrow> ('c, 't) chart" where
  "S_add e x s = S_insert e x (s\<lparr>S := vresize (i_set x + 1) (S s)\<rparr>)"

definition scan ::
  "('c, 't::comm_ring_1) env \<Rightarrow> item \<Rightarrow> nat \<Rightarrow> 't \<Rightarrow> ('c, 't) chart \<Rightarrow> ('c, 't) chart" where
  "scan e i n ch s =
     (let j = mk_item (n + (if ch = 0 then 0 else 1)) (i_prod i) (i_con i) (i_from i) (i_dot i + 1) in
      if ch \<noteq> lit_t (get_lit (gr s) i) then
        (if enable_gc e then
           remove_item (n_items s + 1) e i
             (case refi s i of
                None \<Rightarrow> s
              | Some k \<Rightarrow> s\<lparr>refi := (refi s)(i := (if k - 1 = 0 then None else Some (k - 1)))\<rparr>)
         else s)
      else
        let s = (if dynamic_grow_nts e = [] then s
                 else case dyn_child_span s i of
                     None \<Rightarrow> s
                   | Some ds \<Rightarrow>
                       (case fire_entries e (lit_n (get_nt (gr s) i)) (i_set j) ds s of
                          (ds, s) \<Rightarrow> merge_dyn_child_span j ds s));
            s = (if \<not> binarize e \<and> enable_gc e then s\<lparr>gcready := d_insert (dops e) i (gcready s)\<rparr> else s);
            s = s\<lparr>S := vresize (i_set j + 1) (S s)\<rparr>
        in if in_S s j then s
           else
             let s = S_insert e j s
             in if any_conj s then s\<lparr>forward_deps := (forward_deps s)(i := forward_deps s i @ [j])\<rparr> else s)"

text \<open>The production of the character at an end-of-file class.\<close>

definition eof_production :: "'t lit \<Rightarrow> 't \<Rightarrow> ('t, 'z) grammar_scheme \<Rightarrow> nat \<times> ('t, 'z) grammar_scheme" where
  "eof_production l ch g =
     (case prod_ids_of_literal g l of [p] \<Rightarrow> (p, g) | _ \<Rightarrow> add_char_class_production l ch g)"

definition is_eof :: "'t::comm_ring_1 \<Rightarrow> bool" where
  "is_eof ch \<longleftrightarrow> ch = 0 \<or> ch = -1"

definition scan_cc_found ::
  "('c, 't::comm_ring_1) env \<Rightarrow> item \<Rightarrow> nat \<Rightarrow> 't \<Rightarrow> bool \<Rightarrow> nat \<Rightarrow> item list \<times> ('c, 't) chart \<Rightarrow>
   item list \<times> ('c, 't) chart" where
  "scan_cc_found e i n ch at_eof p = (\<lambda>(c, s).
     let l = get_lit (gr s) i;
         n' = (if is_eof ch then n else n + 1);
         s = (if is_nt l then cache_insert (lit_n l) (i_set i) i s else s);
         k = mk_item n' p 0 (n' - (if is_eof ch then 0 else 1)) 1;
         s = S_add e k s;
         s = (if \<not> binarize e \<and> enable_gc e then s\<lparr>gcready := d_insert (dops e) i (gcready s)\<rparr> else s)
     in (if at_eof then d_insert (dops e) k c else c, s))"

definition scan_cc_function ::
  "('c, 't::comm_ring_1) env \<Rightarrow> item \<Rightarrow> nat \<Rightarrow> 't \<Rightarrow> item list \<times> ('c, 't) chart \<Rightarrow> item list \<times> ('c, 't) chart" where
  "scan_cc_function e i n ch = (\<lambda>(c, s).
     let l = get_lit (gr s) i in
     if is_eof_fn (gr s) (lit_n l) then
       (if \<not> is_eof ch then (c, s)
        else case eof_production l ch (gr s) of (p, g) \<Rightarrow>
          scan_cc_found e i n ch True p (c, s\<lparr>gr := g\<rparr>))
     else
       (case get_char_class_production l ch (gr s) of
          (None, g) \<Rightarrow> (c, s\<lparr>gr := g\<rparr>)
        | (Some p, g) \<Rightarrow> scan_cc_found e i n ch False p (c, s\<lparr>gr := g\<rparr>)))"

section \<open>The position loop\<close>

definition process ::
  "('c, 't::comm_ring_1) env \<Rightarrow> nat \<Rightarrow> 't \<Rightarrow> item \<Rightarrow> item list \<times> item list \<times> ('c, 't) chart \<Rightarrow>
   item list \<times> item list \<times> ('c, 't) chart" where
  "process e n ch x = (\<lambda>(t, c, s).
     if completed (gr s) x then complete e False x (t, c, s)
     else case get_lit (gr s) x of
         Nt m \<Rightarrow>
           if is_cc_fn (gr s) m
           then (case scan_cc_function e x n ch (c, s) of (c, s) \<Rightarrow> (t, c, s))
           else (case predict e x ch (t, s) of (t, s) \<Rightarrow> (t, c, s))
       | _ \<Rightarrow> (t, c, scan e x n ch s))"

record ('c, 't) pos_loop =
  l_t :: "item list"
  l_c :: "item list"
  l_s :: "('c, 't) chart"
  l_done :: nat
  l_epoch :: nat
  l_revisit :: "nat list"

text \<open>The body of the inner \<open>do ... while (!t.empty())\<close>.\<close>

definition flush :: "('c, 't) env \<Rightarrow> item list \<Rightarrow> ('c, 't) chart \<Rightarrow> ('c, 't) chart" where
  "flush e t s = fold (S_insert e) t s"

definition round_setup ::
  "('c, 't) env \<Rightarrow> nat \<Rightarrow> ('c, 't) pos_loop \<Rightarrow> ('c, 't) pos_loop \<times> item list" where
  "round_setup e n r =
     (let s = flush e (l_t r) (l_s r); now = vget n (S s);
          full = enable_gc e \<or> epoch s \<noteq> l_epoch r \<or> l_done r > length now;
          done0 = (if full then 0 else l_done r); revisit0 = (if full then [] else l_revisit r);
          new = [done0..<length now]
      in (\<lparr>l_t = [], l_c = l_c r, l_s = s, l_done = length now,
           l_epoch = (if full then epoch s else l_epoch r),
           l_revisit = revisit0 @ filter (\<lambda>k. completed (gr s) (now ! k) \<and>
              (i_from (now ! k) = n \<or> conjunctive (gr s) (i_prod (now ! k)))) new\<rparr>,
          map (\<lambda>k. now ! k) (revisit0 @ new)))"

definition after_round :: "('c, 't) env \<Rightarrow> item list \<times> item list \<times> ('c, 't) chart \<Rightarrow> item list \<times> item list \<times> ('c, 't) chart" where
  "after_round e = (\<lambda>(t, c, s).
     if t \<noteq> [] then (t, c, s)
     else
       case resolve_conjunctions e (c, s) of (c, s) \<Rightarrow>
       case fold (complete e True) c (t, c, s) of (t, _, s) \<Rightarrow> (t, [], s))"

definition round ::
  "('c, 't::comm_ring_1) env \<Rightarrow> nat \<Rightarrow> 't \<Rightarrow> ('c, 't) pos_loop \<Rightarrow> ('c, 't) pos_loop" where
  "round e n ch r =
     (case round_setup e n r of (r, snapshot) \<Rightarrow>
      case after_round e (fold (process e n ch) snapshot (l_t r, l_c r, l_s r)) of
        (t, c, s) \<Rightarrow> r\<lparr>l_t := t, l_c := c, l_s := s\<rparr>)"

partial_function (option) position_loop ::
  "('c, 't::comm_ring_1) env \<Rightarrow> nat \<Rightarrow> 't \<Rightarrow> ('c, 't) pos_loop \<Rightarrow> ('c, 't) pos_loop option" where
  "position_loop e n ch r =
     (let r' = round e n ch r in if l_t r' = [] then Some r' else position_loop e n ch r')"

text \<open>What \<open>_parse\<close> drops after a position.\<close>

definition end_position :: "('c, 't) env \<Rightarrow> nat \<Rightarrow> ('c, 't) chart \<Rightarrow> ('c, 't) chart" where
  "end_position e n s =
     (let s = s\<lparr>complete_memo := (\<lambda>_. 0)\<rparr>;
          s = (if any_conj s
               then s\<lparr>forward_deps := (\<lambda>_. []), completion_deps := (\<lambda>_. []),
                      completion_count := (\<lambda>_. 0), counted_completions := {}\<rparr>
               else s)
      in gc_drain e n s)"

definition max_item_pos :: nat where
  "max_item_pos = UINT32_MAX - 1"

datatype ('c, 't) run_end = Too_long | Ran "('c, 't) chart"

text \<open>The outer loop; \<open>t\<close> and \<open>c\<close> are carried from one position to the next.\<close>

partial_function (option) run_positions ::
  "('c, 't::comm_ring_1) env \<Rightarrow> item list \<Rightarrow> item list \<Rightarrow> ('c, 't) chart \<Rightarrow> ('c, 't) run_end option" where
  "run_positions e t c s =
     (case tcur (conv e) (dec e) (inp s) of (ch, i) \<Rightarrow>
      if tp i > max_item_pos then Some Too_long
      else
        Option.bind (position_loop e (tp i) ch
           \<lparr>l_t = t, l_c = c, l_s = s\<lparr>inp := i, S := vresize (tp i + 1) (S s)\<rparr>,
            l_done = 0, l_epoch = epoch s, l_revisit = []\<rparr>)
         (\<lambda>r.
           let s = end_position e (tp i) (l_s r) in
           case tnext (dec e) (inp s) of (again, i') \<Rightarrow>
             if again then run_positions e (l_t r) (l_c r) (s\<lparr>inp := i'\<rparr>)
             else Some (Ran (s\<lparr>inp := i'\<rparr>))))"

section \<open>Parse\<close>

definition start_lit :: "('c, 't) env \<Rightarrow> ('t, 'z) grammar_scheme \<Rightarrow> 't lit" where
  "start_lit e g = (if po_start e \<noteq> SIZE_MAX then Nt (po_start e) else start g)"

definition initial_chart :: "('c, 't) env \<Rightarrow> bool \<Rightarrow> 't grammar \<Rightarrow> ('c, 't) input \<Rightarrow> ('c, 't) chart" where
  "initial_chart e conj_flag g i =
     \<lparr>gr = g, inp = i, S = [[]], U = [], wait = [], refi = Map.empty, gcready = [],
      completion_deps = (\<lambda>_. []), completion_count = (\<lambda>_. 0), counted_completions = {},
      forward_deps = (\<lambda>_. []), complete_memo = (\<lambda>_. 0), dyn_child_span = Map.empty,
      dyn_child_ids = (if on_dynamic_grow e = None then {} else snd ` set (dynamic_grow_nts e)),
      epoch = 0, any_conj = conj_flag\<rparr>"

definition seed :: "('c, 't) env \<Rightarrow> nat \<times> nat \<Rightarrow> item list \<times> ('c, 't) chart \<Rightarrow> item list \<times> ('c, 't) chart" where
  "seed e pc = (\<lambda>(t, s).
     let j = mk_item 0 (fst pc) (snd pc) 0 0 in
     case add e j t s of (_, t, s) \<Rightarrow> (t, if enable_gc e then incr_ref j s else s))"

definition seeds :: "('t, 'z) grammar_scheme \<Rightarrow> 't lit \<Rightarrow> (nat \<times> nat) list" where
  "seeds g l = concat (map (\<lambda>p. map (Pair p) [0..<n_conjs g p]) (prod_ids_of_literal g l))"

definition run_earley ::
  "('c, 't::comm_ring_1) env \<Rightarrow> bool \<Rightarrow> 't grammar \<Rightarrow> ('c, 't) input \<Rightarrow> ('c, 't) run_end option" where
  "run_earley e conj_flag g i =
     (case fold (seed e) (seeds g (start_lit e g)) ([], initial_chart e conj_flag g i) of
        (t, s) \<Rightarrow> run_positions e t [] s)"

text \<open>\<open>found\<close>: some production of the start symbol has every conjunct completed over the input,
  and no negated one.\<close>

definition found_conjs :: "('c, 't) chart \<Rightarrow> nat \<Rightarrow> bool" where
  "found_conjs s p =
     list_all (\<lambda>c. in_S s (mk_item (tp (inp s)) p c 0 (len (gr s) p c)) \<noteq> neg (body (gr s) p ! c))
       [0..<n_conjs (gr s) p]"

definition found :: "('c, 't) env \<Rightarrow> ('c, 't) chart \<Rightarrow> bool" where
  "found e s = list_ex (found_conjs s) (prod_ids_of_literal (gr s) (start_lit e (gr s)))"

text \<open>\<open>prepare\<close> computes \<open>any_conj\<close> and drops a pair whose parent is its child.\<close>

definition prepare :: "('c, 't::comm_ring_1) env \<Rightarrow> 't grammar \<Rightarrow> ('c, 't) env \<times> 't grammar \<times> bool" where
  "prepare e g =
     (let e = e\<lparr>dynamic_grow_nts := filter (\<lambda>(p, c). p \<noteq> c) (dynamic_grow_nts e)\<rparr>;
          children = snd ` set (dynamic_grow_nts e);
          g = (if children \<noteq> {} then exclude_from_char_classes children g else g)
      in (e, g, list_ex (conjunctive g) [0..<gsize g]))"

datatype ('c, 't) parse_end =
    Input_too_long
  | Parsed bool "'t dyn_ctx" "('c, 't) chart"

text \<open>The decision after the run: the grown productions are committed or rolled back.\<close>

definition finish_parse ::
  "('c, 't::linorder) env \<Rightarrow> 't dyn_ctx \<Rightarrow> ('c, 't) chart \<Rightarrow> ('c, 't) parse_end" where
  "finish_parse e ctx s =
     (if found e s
      then (case commit_dynamic ctx (gr s) of (_, ctx, g) \<Rightarrow> Parsed True ctx (s\<lparr>gr := g\<rparr>))
      else Parsed False ctx (s\<lparr>gr := rollback_dynamic (gr s)\<rparr>))"

text \<open>\<open>_parse\<close> up to the trees: the context is synchronised first, then the input is recognised.\<close>

definition parse_run ::
  "('c, 't::{linorder,comm_ring_1}) env \<Rightarrow> bool \<Rightarrow> 't dyn_ctx \<Rightarrow> 't grammar \<Rightarrow> ('c, 't) input \<Rightarrow>
   ('c, 't) parse_end option" where
  "parse_run e conj_flag ctx g i =
     (if known_length i > max_item_pos then Some Input_too_long
      else
        let g = (if dynamic_grow_nts e \<noteq> [] then sync_dynamic_context ctx g else g) in
        map_option (\<lambda>r. case r of Too_long \<Rightarrow> Input_too_long | Ran s \<Rightarrow> finish_parse e ctx s)
          (run_earley e conj_flag g i))"

end
