(* ===== verification/Soundness.thy ===== *)
theory Soundness
  imports Earley "HOL-Library.Code_Target_Nat"
begin

text \<open>
  Soundness of the recognizer of \<open>Earley\<close> on grammars without conjunction and negation: every item
  in the chart stands for a derivation of the span it covers, so an accepted input is one the
  grammar derives. The meaning of a grammar is the relation \<open>spans\<close>; it reads the input by
  position because the end of the input is a character (0 or -1) that is matched and not passed.
\<close>

section \<open>The meaning of a grammar without conjunction and negation\<close>

text \<open>\<open>spans g ch ls i j\<close>: the sequence \<open>ls\<close> matches the input \<open>ch\<close> from position \<open>i\<close> to \<open>j\<close>. A
  nonterminal matches by a production, as a class that accepts the character, or as the class of
  the end of the input.\<close>

inductive spans ::
  "('t::comm_ring_1, 'z) grammar_scheme \<Rightarrow> (nat \<Rightarrow> 't) \<Rightarrow> 't lit list \<Rightarrow> nat \<Rightarrow> nat \<Rightarrow> bool"
  for g ch where
  spans_nil: "spans g ch [] i i"
| spans_tm: "spans g ch ls (i + (if ch i = 0 then 0 else 1)) j \<Longrightarrow> spans g ch (Tm (ch i) # ls) i j"
| spans_null: "spans g ch ls i j \<Longrightarrow> spans g ch (Null # ls) i j"
| spans_nt: "(Nt n, [Lits False b]) \<in> set (prods g) \<Longrightarrow> spans g ch b i k \<Longrightarrow>
    spans g ch ls k j \<Longrightarrow> spans g ch (Nt n # ls) i j"
| spans_class: "fns (cc_fns g) n = Some f \<Longrightarrow> f (ch i) \<Longrightarrow>
    spans g ch ls (if is_eof (ch i) then i else i + 1) j \<Longrightarrow> spans g ch (Nt n # ls) i j"
| spans_eof: "n = eof_fn (cc_fns g) \<Longrightarrow> is_eof (ch i) \<Longrightarrow> spans g ch ls i j \<Longrightarrow>
    spans g ch (Nt n # ls) i j"

inductive_cases spans_NilE: "spans g ch [] i j"
inductive_cases spans_TmE: "spans g ch (Tm c # ls) i j"

lemma spans_append: "spans g ch xs i k \<Longrightarrow> spans g ch ys k j \<Longrightarrow> spans g ch (xs @ ys) i j"
  by (induction rule: spans.induct) (auto intro: spans.intros)

lemma spans_le: "spans g ch ls i j \<Longrightarrow> i \<le> j"
  by (induction rule: spans.induct) (auto split: if_splits)

section \<open>Growth of the grammar during a parse\<close>

text \<open>A parse appends productions \<open>A => c\<close> of classes that accept the character, nothing else.\<close>

definition class_production :: "('t::comm_ring_1, 'z) grammar_scheme \<Rightarrow> 't production \<Rightarrow> bool" where
  "class_production g pr \<longleftrightarrow> (\<exists>n c. pr = (Nt n, [Lits False [Tm c]]) \<and>
     (n = eof_fn (cc_fns g) \<and> is_eof c \<or> (\<exists>f. fns (cc_fns g) n = Some f \<and> f c)))"

definition grows :: "('t::comm_ring_1, 'z) grammar_scheme \<Rightarrow> ('t, 'y) grammar_scheme \<Rightarrow> bool" where
  "grows g g' \<longleftrightarrow> (\<exists>ex. prods g' = prods g @ ex \<and> (\<forall>pr \<in> set ex. class_production g pr)) \<and>
     fns (cc_fns g') = fns (cc_fns g) \<and> eof_fn (cc_fns g') = eof_fn (cc_fns g) \<and>
     nullables g' = nullables g \<and> conjunctives g' = conjunctives g \<and> start g' = start g \<and>
     opt g' = opt g \<and> nts g' = nts g \<and> cc_source_prods g' = cc_source_prods g"

lemma grows_refl [simp]: "grows g g"
  by (simp add: grows_def)

lemma grows_trans: "grows a b \<Longrightarrow> grows b c \<Longrightarrow> grows a c"
  unfolding grows_def class_production_def by fastforce

lemma spans_grows: "spans g ch ls i j \<Longrightarrow> grows g g' \<Longrightarrow> spans g' ch ls i j"
proof (induction rule: spans.induct)
  case (spans_class n f i ls j)
  then show ?case by (intro spans.spans_class[of g' n f]) (auto simp: grows_def)
next
  case (spans_eof n i ls j)
  then show ?case by (intro spans.spans_eof) (auto simp: grows_def)
qed (auto simp: grows_def intro: spans.intros)

section \<open>Well-formed grammars\<close>

definition plain :: "'t production \<Rightarrow> bool" where
  "plain pr \<longleftrightarrow> is_nt (fst pr) \<and> (\<exists>b. snd pr = [Lits False b])"

text \<open>The caches of class productions hold what they are keyed by, and the index of enabled
  productions lists productions under their heads.\<close>

definition caches_ok :: "('t::comm_ring_1, 'z) grammar_scheme \<Rightarrow> bool" where
  "caches_ok g \<longleftrightarrow>
     (\<forall>n c p. ps (cc_fns g) n c = Some p \<or> cc_char_prods g n c = Some p \<longrightarrow>
        p < gsize g \<and> prods g ! p = (Nt n, [Lits False [Tm c]])) \<and>
     (\<forall>n c p. ps (cc_fns g) n c = Some p \<longrightarrow>
        n = eof_fn (cc_fns g) \<and> is_eof c \<or> (\<exists>f. fns (cc_fns g) n = Some f \<and> f c)) \<and>
     (\<forall>p < gsize g. head g p = Nt (eof_fn (cc_fns g)) \<longrightarrow>
        (\<exists>c. prods g ! p = (Nt (eof_fn (cc_fns g)), [Lits False [Tm c]]))) \<and>
     (\<forall>l. \<forall>p \<in> set (ntsm g l). p < gsize g \<and> head g p = l) \<and>
     (\<forall>n < length (ntsm_by_nt g). \<forall>p \<in> set (ntsm_by_nt g ! n). p < gsize g \<and> head g p = Nt n)"

definition plain_grammar :: "('t::comm_ring_1, 'z) grammar_scheme \<Rightarrow> bool" where
  "plain_grammar g \<longleftrightarrow> (\<forall>pr \<in> set (prods g). plain pr) \<and> conjunctives g = {} \<and>
     nullables g \<subseteq> nullable_nts (prods g) \<and> caches_ok g"

lemma caches_okD:
  assumes "caches_ok g"
  shows "ps (cc_fns g) n c = Some p \<Longrightarrow> p < gsize g \<and> prods g ! p = (Nt n, [Lits False [Tm c]])"
    "cc_char_prods g n c = Some p \<Longrightarrow> p < gsize g \<and> prods g ! p = (Nt n, [Lits False [Tm c]])"
    "ps (cc_fns g) n c = Some p \<Longrightarrow>
       n = eof_fn (cc_fns g) \<and> is_eof c \<or> (\<exists>f. fns (cc_fns g) n = Some f \<and> f c)"
    "p < gsize g \<Longrightarrow> fst (prods g ! p) = Nt (eof_fn (cc_fns g)) \<Longrightarrow>
       \<exists>c. prods g ! p = (Nt (eof_fn (cc_fns g)), [Lits False [Tm c]])"
    "p \<in> set (ntsm g l) \<Longrightarrow> p < gsize g \<and> fst (prods g ! p) = l"
    "n < length (ntsm_by_nt g) \<Longrightarrow> p \<in> set (ntsm_by_nt g ! n) \<Longrightarrow> p < gsize g \<and> fst (prods g ! p) = Nt n"
  using assms by (auto simp: caches_ok_def head_def)

lemma prod_ids_ok:
  assumes "caches_ok g" "p \<in> set (prod_ids_of_literal g l)"
  shows "p < gsize g \<and> head g p = l"
  using assms by (cases l) (auto simp: prod_ids_of_literal_def vget_def caches_ok_def split: if_splits)

lemma plain_body:
  assumes "plain_grammar g" "p < gsize g"
  obtains n b where "head g p = Nt n" "body g p = [Lits False b]" "(Nt n, [Lits False b]) \<in> set (prods g)"
proof -
  have m: "prods g ! p \<in> set (prods g)" using assms(2) by (simp add: gsize_def)
  then have "plain (prods g ! p)" using assms(1) by (simp add: plain_grammar_def)
  then obtain n b where "prods g ! p = (Nt n, [Lits False b])"
    by (cases "prods g ! p"; cases "fst (prods g ! p)") (auto simp: plain_def)
  then show ?thesis using that m by (simp add: head_def body_def)
qed

lemma n_conjs_plain: "plain_grammar g \<Longrightarrow> p < gsize g \<Longrightarrow> n_conjs g p = 1"
  by (metis One_nat_def length_Cons list.size(3) n_conjs_def plain_body)

lemma nullable_spans:
  assumes "plain_grammar g" "n \<in> nullable_nts (prods g)"
  shows "spans g ch [Nt n] i i"
  using assms(2)
proof induction
  case (nullableI h cs a)
  have "plain (h, cs)" using assms(1) nullableI(1) by (simp add: plain_grammar_def)
  then obtain m b where p: "h = Nt m" "cs = [Lits False b]"
    by (cases h) (auto simp: plain_def)
  have "spans g ch xs i i" if "set xs \<subseteq> set b" for xs
    using that
  proof (induction xs)
    case (Cons x xs)
    have "x = Null \<or> (\<exists>k. x = Nt k \<and> spans g ch [Nt k] i i)"
      using nullableI(2-4) Cons.prems p(2) by (cases x) auto
    moreover have "spans g ch xs i i" using Cons by simp
    ultimately show ?case using spans_append[of g ch "[x]" i i xs i] by (auto intro: spans_null)
  qed (rule spans_nil)
  then have "spans g ch b i i" by simp
  then show ?case using nullableI(1) p by (auto intro: spans_nt spans_nil)
qed

section \<open>Items\<close>

definition item_ok :: "('t::comm_ring_1, 'z) grammar_scheme \<Rightarrow> (nat \<Rightarrow> 't) \<Rightarrow> item \<Rightarrow> bool" where
  "item_ok g ch x \<longleftrightarrow> i_prod x < gsize g \<and> i_con x = 0 \<and> i_dot x \<le> n_literals g x \<and>
     (spans g ch (take (i_dot x) (seq (body g (i_prod x) ! 0))) (i_from x) (i_set x) \<or>
      completed g x \<and> spans g ch [get_nt g x] (i_from x) (i_set x))"

lemma grows_nth: "grows g g' \<Longrightarrow> p < gsize g \<Longrightarrow> prods g' ! p = prods g ! p \<and> p < gsize g'"
  by (auto simp: grows_def gsize_def nth_append)

lemma grows_item:
  assumes "grows g g'" "i_prod x < gsize g"
  shows "get_lit g' x = get_lit g x" "get_nt g' x = get_nt g x" "n_literals g' x = n_literals g x"
    "completed g' x = completed g x" "negative g' x = negative g x" "body g' (i_prod x) = body g (i_prod x)"
  using grows_nth[OF assms]
  by (simp_all add: get_lit_def get_nt_def n_literals_def completed_def negative_def body_def head_def)

lemma item_ok_grows:
  assumes "grows g g'" "item_ok g ch x" shows "item_ok g' ch x"
proof -
  have p: "i_prod x < gsize g" using assms(2) by (simp add: item_ok_def)
  show ?thesis using assms(2) grows_item[OF assms(1) p] grows_nth[OF assms(1) p] spans_grows[OF _ assms(1)]
    unfolding item_ok_def by auto
qed

lemma item_ok_completed:
  assumes "plain_grammar g" "item_ok g ch x" "completed g x"
  shows "spans g ch [get_nt g x] (i_from x) (i_set x)"
proof -
  obtain n b where b: "head g (i_prod x) = Nt n" "body g (i_prod x) = [Lits False b]"
      "(Nt n, [Lits False b]) \<in> set (prods g)"
    using plain_body[OF assms(1), of "i_prod x"] assms(2) by (auto simp: item_ok_def)
  have "i_con x = 0" using assms(2) by (simp add: item_ok_def)
  then have "i_dot x = length b" using assms(3) b(2) by (simp add: completed_def n_literals_def)
  then show ?thesis
    using assms(2) b by (auto simp: item_ok_def get_nt_def intro: spans_nt spans_nil)
qed

lemma item_ok_advance:
  assumes "item_ok g ch x" "i_dot x < n_literals g x" "spans g ch [get_lit g x] (i_set x) k"
  shows "item_ok g ch (x\<lparr>i_dot := i_dot x + 1, i_set := k\<rparr>)"
proof -
  have c: "i_con x = 0" using assms(1) by (simp add: item_ok_def)
  let ?b = "seq (body g (i_prod x) ! 0)"
  have "spans g ch (take (i_dot x) ?b) (i_from x) (i_set x)"
    using assms(1,2) by (auto simp: item_ok_def completed_def)
  then have "spans g ch (take (i_dot x) ?b @ [get_lit g x]) (i_from x) k"
    using assms(3) by (rule spans_append)
  moreover have "take (i_dot x) ?b @ [get_lit g x] = take (Suc (i_dot x)) ?b"
    using assms(2) c by (simp add: take_Suc_conv_app_nth get_lit_def n_literals_def)
  ultimately show ?thesis using assms(1,2) by (auto simp: item_ok_def n_literals_def)
qed

lemma item_ok_nullable:
  assumes "plain_grammar g" "item_ok g ch x" "nullable_item g x"
  shows "item_ok g ch (x\<lparr>i_dot := i_dot x + 1\<rparr>)"
proof -
  have "spans g ch [get_lit g x] (i_set x) (i_set x)"
    using assms nullable_spans[OF assms(1)]
    by (cases "get_lit g x") (auto simp: nullable_item_def nullable_def plain_grammar_def intro: spans_null spans_nil)
  from item_ok_advance[OF assms(2) _ this] assms(3) show ?thesis
    by (simp add: nullable_item_def)
qed

lemma item_ok_start: "plain_grammar g \<Longrightarrow> p < gsize g \<Longrightarrow> c < n_conjs g p \<Longrightarrow> item_ok g ch (mk_item s p c s 0)"
  by (simp add: item_ok_def mk_item_def n_conjs_plain spans_nil)


section \<open>Class productions\<close>

lemma nullable_nts_mono: "n \<in> nullable_nts prs \<Longrightarrow> set prs \<subseteq> set prs' \<Longrightarrow> n \<in> nullable_nts prs'"
proof (induction rule: nullable_nts.induct)
  case (nullableI h cs a)
  then show ?case by (intro nullable_nts.nullableI[of h cs prs' a]) auto
qed

lemma set_sinsert_less: "set (sinsert (<) (i::nat) xs) \<subseteq> insert i (set xs)"
  by (rule less.set_sinsert_sub)

lemma vinsert_nth:
  assumes "k < length (vinsert n i xs)" "p \<in> set (vinsert n i xs ! k)"
  shows "k = n \<and> p = i \<or> k < length xs \<and> p \<in> set (xs ! k)"
proof -
  let ?ys = "if length xs \<le> n then xs @ replicate (n + 1 - length xs) [] else xs"
  have k: "k < length ?ys" and v: "vinsert n i xs = ?ys[n := sinsert (<) i (?ys ! n)]"
    using assms(1) by (simp_all add: vinsert_def Let_def)
  have sub: "set (sinsert (<) i (?ys ! n)) \<subseteq> insert i (set (?ys ! n))" by (rule set_sinsert_less)
  have "k = n \<and> p = i \<or> p \<in> set (?ys ! k)"
  proof (cases "k = n")
    case True
    then have "p \<in> set (sinsert (<) i (?ys ! n))" using assms(2) k unfolding v by simp
    then show ?thesis using sub True by blast
  qed (use assms(2) k v in simp)
  then show ?thesis using k by (auto simp: nth_append split: if_splits)
qed

definition append_ok :: "('t::comm_ring_1, 'z) grammar_scheme \<Rightarrow> ('t, 'z) grammar_scheme \<Rightarrow> bool" where
  "append_ok g g' \<longleftrightarrow> grows g g' \<and> plain_grammar g'"

lemma accept_production:
  assumes g: "plain_grammar g" and n: "class_production g (Nt n, [Lits False [Tm c]])"
    and r: "add_char_class_production (Nt n) c g = (i, g')"
  shows "append_ok g g' \<and> i < gsize g' \<and> prods g' ! i = (Nt n, [Lits False [Tm c]])"
proof -
  let ?pr = "(Nt n, [Lits False [Tm c]])"
  have ca: "caches_ok g" using g by (simp add: plain_grammar_def)
  have acc: "n = eof_fn (cc_fns g) \<and> is_eof c \<or> (\<exists>f. fns (cc_fns g) n = Some f \<and> f c)"
    using n by (auto simp: class_production_def)
  have null: "nullables g \<subseteq> nullable_nts (prods g @ [?pr])"
    using g nullable_nts_mono[of _ "prods g" "prods g @ [?pr]"] by (auto simp: plain_grammar_def)
  have plains: "\<forall>pr \<in> set (prods g @ [?pr]). plain pr" using g by (auto simp: plain_grammar_def plain_def)
  have old: "p < gsize g \<Longrightarrow> (prods g @ [?pr]) ! p = prods g ! p" for p by (simp add: gsize_def nth_append)
  have new: "(prods g @ [?pr]) ! gsize g = ?pr" by (simp add: gsize_def)
  show ?thesis
  proof (cases "is_derived (cc_fns g) n")
    case True
    show ?thesis
    proof (cases "cc_char_prods g n c")
      case (Some j)
      then have j: "j < gsize g" "prods g ! j = ?pr" using ca by (auto simp: caches_ok_def)
      have g': "g' = set_accept n c j g" "i = j"
        using r True Some by (auto simp: add_char_class_production_def Let_def)
      have "caches_ok g'" using ca j acc unfolding g'
        by (auto simp: caches_ok_def set_accept_def gsize_def head_def)
      then show ?thesis using g j unfolding g'
        by (auto simp: append_ok_def grows_def plain_grammar_def set_accept_def gsize_def)
    next
      case None
      have g': "g' = set_accept n c (gsize g)
                   (g\<lparr>prods := prods g @ [?pr],
                     cc_char_prods := (cc_char_prods g)(n := (cc_char_prods g n)(c \<mapsto> gsize g)),
                     cc_char_prod_ids := insert (gsize g) (cc_char_prod_ids g)\<rparr>)" "i = gsize g"
        using r True None by (auto simp: add_char_class_production_def Let_def)
      have "caches_ok g'" using ca acc old new unfolding g' caches_ok_def set_accept_def
        by (auto simp: gsize_def head_def nth_append less_Suc_eq)
      then show ?thesis using g null plains n new unfolding g'
        by (auto simp: append_ok_def grows_def plain_grammar_def set_accept_def gsize_def)
    qed
  next
    case False
    have g': "g' = set_accept n c (gsize g) (link_prod (Nt n) (gsize g) (g\<lparr>prods := prods g @ [?pr]\<rparr>))"
      "i = gsize g"
      using r False by (auto simp: add_char_class_production_def Let_def)
    have by_nt: "p < Suc (gsize g) \<and> fst ((prods g @ [?pr]) ! p) = Nt k"
      if "k < length (vinsert n (gsize g) (ntsm_by_nt g))" "p \<in> set (vinsert n (gsize g) (ntsm_by_nt g) ! k)" for k p
      using vinsert_nth[OF that] caches_okD(6)[OF ca, of k p] old[of p] new by auto
    have by_l: "p < Suc (gsize g) \<and> fst ((prods g @ [?pr]) ! p) = l"
      if "p \<in> set (((ntsm g)(Nt n := sinsert (<) (gsize g) (ntsm g (Nt n)))) l)" for l p
      using that set_sinsert_less[of "gsize g" "ntsm g (Nt n)"] caches_okD(5)[OF ca, of p l] old[of p] new
      by (auto split: if_splits)
    have "caches_ok g'" unfolding g' caches_ok_def set_accept_def link_prod_def
      using ca acc old new by_nt by_l
      by (auto simp: gsize_def head_def nth_append less_Suc_eq caches_ok_def)
    then show ?thesis using g null plains n new unfolding g'
      by (auto simp: append_ok_def grows_def plain_grammar_def set_accept_def link_prod_def gsize_def)
  qed
qed


lemma get_char_class_production_ok:
  assumes g: "plain_grammar g" and l: "l = Nt n" and r: "get_char_class_production l c g = (x, g')"
  shows "append_ok g g' \<and> (\<forall>p. x = Some p \<longrightarrow> p < gsize g' \<and> class_production g' (prods g' ! p) \<and>
    prods g' ! p = (l, [Lits False [Tm c]]))"
proof (cases "ps (cc_fns g) n c")
  case (Some j)
  have "caches_ok g" using g by (simp add: plain_grammar_def)
  then show ?thesis using Some r l g caches_okD(1,3)[of g n c j]
    by (auto simp: get_char_class_production_def append_ok_def class_production_def)
next
  case None
  show ?thesis
  proof (cases "\<exists>f. fns (cc_fns g) n = Some f \<and> f c")
    case True
    then have cp: "class_production g (Nt n, [Lits False [Tm c]])" by (auto simp: class_production_def)
    obtain i g1 where a: "add_char_class_production (Nt n) c g = (i, g1)" by (meson surj_pair)
    have e: "x = Some i" "g' = g1" using r None True a l by (auto simp: get_char_class_production_def)
    from accept_production[OF g cp a] show ?thesis
      using cp l unfolding e by (auto simp: append_ok_def class_production_def grows_def)
  next
    case False
    then show ?thesis using r None l g
      by (auto simp: get_char_class_production_def append_ok_def split: option.splits if_splits)
  qed
qed

lemma eof_production_ok:
  assumes g: "plain_grammar g" and n: "n = eof_fn (cc_fns g)" "is_eof c"
    and r: "eof_production (Nt n) c g = (p, g')"
  shows "append_ok g g' \<and> p < gsize g' \<and> (\<exists>b. prods g' ! p = (Nt n, [Lits False [Tm b]]))"
proof -
  have ca: "caches_ok g" using g by (simp add: plain_grammar_def)
  have cp: "class_production g (Nt n, [Lits False [Tm c]])" using n by (simp add: class_production_def)
  consider q where "prod_ids_of_literal g (Nt n) = [q]" "p = q" "g' = g"
    | "add_char_class_production (Nt n) c g = (p, g')"
  proof (cases "\<exists>q. prod_ids_of_literal g (Nt n) = [q]")
    case True
    then show thesis using that(1) r by (auto simp: eof_production_def)
  next
    case False
    then have "add_char_class_production (Nt n) c g = (p, g')"
      using r by (simp add: eof_production_def list.case_eq_if split: if_splits)
        (metis list.exhaust_sel)
    then show thesis by (rule that(2))
  qed
  then show ?thesis
  proof cases
    case (1 q)
    then have q: "q < gsize g" "head g q = Nt n" using prod_ids_ok[OF ca, of q "Nt n"] by simp_all
    then have "fst (prods g ! q) = Nt (eof_fn (cc_fns g))" using n(1) by (simp add: head_def)
    from caches_okD(4)[OF ca q(1) this] show ?thesis using 1 q(1) n(1) g by (simp add: append_ok_def)
  next
    case 2
    show ?thesis using accept_production[OF g cp 2] by simp
  qed
qed

section \<open>The invariant of the chart\<close>

definition plain_env :: "('c, 't) env \<Rightarrow> bool" where
  "plain_env e \<longleftrightarrow> dec e = None \<and> dynamic_grow_nts e = [] \<and> dense_set (dops e)"

definition waiting :: "('t::comm_ring_1, 'z) grammar_scheme \<Rightarrow> (nat \<Rightarrow> 't) \<Rightarrow> nat \<Rightarrow> nat \<Rightarrow> item \<Rightarrow> bool" where
  "waiting g ch m pos x \<longleftrightarrow> item_ok g ch x \<and> i_set x = pos \<and> i_dot x < n_literals g x \<and> get_lit g x = Nt m"

definition items_ok :: "('t::comm_ring_1, 'z) grammar_scheme \<Rightarrow> (nat \<Rightarrow> 't) \<Rightarrow> item list \<Rightarrow> bool" where
  "items_ok g ch xs \<longleftrightarrow> (\<forall>x \<in> set xs. item_ok g ch x)"

definition sets_ok :: "('t::comm_ring_1, 'z) grammar_scheme \<Rightarrow> (nat \<Rightarrow> 't) \<Rightarrow> item list list \<Rightarrow> bool" where
  "sets_ok g ch xss \<longleftrightarrow> (\<forall>k < length xss. \<forall>x \<in> set (xss ! k). item_ok g ch x \<and> i_set x = k)"

definition waits_ok :: "('t::comm_ring_1, 'z) grammar_scheme \<Rightarrow> (nat \<Rightarrow> 't) \<Rightarrow> wait_entry list list \<Rightarrow> bool" where
  "waits_ok g ch w \<longleftrightarrow>
     (\<forall>pos < length w. \<forall>(m, x) \<in> set (w ! pos). m \<noteq> dead_wait \<longrightarrow> waiting g ch m pos x)"

definition chart_ok ::
  "'t::comm_ring_1 grammar \<Rightarrow> (nat \<Rightarrow> 't) \<Rightarrow> ('c, 't) input \<Rightarrow> ('c, 't) chart \<Rightarrow> bool" where
  "chart_ok g0 ch i s \<longleftrightarrow> grows g0 (gr s) \<and> plain_grammar (gr s) \<and> inp s = i \<and> \<not> any_conj s \<and>
     sets_ok (gr s) ch (S s) \<and> waits_ok (gr s) ch (wait s)"

lemma items_ok_grows: "grows g g' \<Longrightarrow> items_ok g ch xs \<Longrightarrow> items_ok g' ch xs"
  by (auto simp: items_ok_def intro: item_ok_grows)

lemma waiting_grows: "grows g g' \<Longrightarrow> waiting g ch m pos x \<Longrightarrow> waiting g' ch m pos x"
  using grows_item[of g g' x] item_ok_grows[of g g' ch x] by (auto simp: waiting_def item_ok_def)

lemma chart_ok_grow:
  assumes "chart_ok g0 ch i s" "append_ok (gr s) g'"
  shows "chart_ok g0 ch i (s\<lparr>gr := g'\<rparr>)"
  using assms item_ok_grows[of "gr s" g' ch] waiting_grows[of "gr s" g' ch] grows_trans[of g0 "gr s" g']
  by (simp add: chart_ok_def append_ok_def sets_ok_def waits_ok_def split_beta)

lemma items_ok_insert:
  "dense_set ops \<Longrightarrow> items_ok g ch xs \<Longrightarrow> item_ok g ch x \<Longrightarrow> items_ok g ch (d_insert ops x xs)"
  by (simp add: items_ok_def dense_set.set_insert)

lemma vget_sets: "sets_ok g ch xss \<Longrightarrow> x \<in> set (vget k xss) \<Longrightarrow> item_ok g ch x \<and> i_set x = k"
  by (auto simp: sets_ok_def vget_def split: if_splits)

lemma sets_ok_update:
  assumes "sets_ok g ch xss" "\<And>x. x \<in> set ys \<Longrightarrow> item_ok g ch x \<and> i_set x = k"
  shows "sets_ok g ch (xss[k := ys])"
  unfolding sets_ok_def
proof (intro allI impI ballI)
  fix j x
  assume "j < length (xss[k := ys])" "x \<in> set (xss[k := ys] ! j)"
  then show "item_ok g ch x \<and> i_set x = j"
    using assms by (cases "j = k") (auto simp: sets_ok_def)
qed

lemma sets_ok_insert:
  assumes "dense_set ops" "sets_ok g ch xss" "item_ok g ch x"
  shows "sets_ok g ch (xss[i_set x := d_insert ops x (vget (i_set x) xss)])"
  using assms vget_sets[OF assms(2)] by (intro sets_ok_update) (auto simp: dense_set.set_insert)

lemma vresize_nth: "k < length (vresize n xs) \<Longrightarrow> vresize n xs ! k = (if k < length xs then xs ! k else [])"
  by (auto simp: vresize_def nth_append)

lemma sets_ok_vresize: "sets_ok g ch xss \<Longrightarrow> sets_ok g ch (vresize n xss)"
  by (auto simp: sets_ok_def vresize_nth split: if_splits)


section \<open>The operations keep the invariant\<close>

text \<open>What only changes the bookkeeping of references keeps the parts the invariant is about.\<close>

definition same_core :: "('c, 't) chart \<Rightarrow> ('c, 't) chart \<Rightarrow> bool" where
  "same_core s s' \<longleftrightarrow> gr s' = gr s \<and> inp s' = inp s \<and> S s' = S s \<and> wait s' = wait s \<and> any_conj s' = any_conj s"

lemma same_core_refl [simp]: "same_core s s"
  by (simp add: same_core_def)

lemma same_core_trans: "same_core s s' \<Longrightarrow> same_core s' s'' \<Longrightarrow> same_core s s''"
  by (simp add: same_core_def)

lemma same_core_ok: "same_core s s' \<Longrightarrow> chart_ok g0 ch i s \<Longrightarrow> chart_ok g0 ch i s'"
  by (simp add: same_core_def chart_ok_def)

lemma same_core_updates [simp]:
  "same_core s (s\<lparr>refi := r\<rparr>)" "same_core s (s\<lparr>gcready := q\<rparr>)" "same_core s (s\<lparr>complete_memo := m\<rparr>)"
  "same_core s (s\<lparr>epoch := n\<rparr>)" "same_core s (incr_ref x s)"
  by (simp_all add: same_core_def incr_ref_def)

lemma same_core_updates_left [simp]:
  "same_core (s\<lparr>refi := r\<rparr>) s' = same_core s s'" "same_core (s\<lparr>gcready := q\<rparr>) s' = same_core s s'"
  "same_core (s\<lparr>complete_memo := m\<rparr>) s' = same_core s s'" "same_core (incr_ref x s) s' = same_core s s'"
  by (simp_all add: same_core_def incr_ref_def)

lemma same_core_fold: "(\<And>x s. x \<in> set xs \<Longrightarrow> same_core s (f x s)) \<Longrightarrow> same_core s (fold f xs s)"
  by (induction xs arbitrary: s) (auto intro: same_core_trans)

lemma same_core_remove_item: "same_core s (remove_item fuel e x s)"
proof (induction fuel arbitrary: x s)
  case (Suc fuel)
  have step: "same_core s
      (if i_set y = 0 \<or> completed (gr s) y \<or> get_lit (gr s) y \<noteq> get_nt (gr s) x then s
       else case refi s y of None \<Rightarrow> s
          | Some k \<Rightarrow> if k - 1 = 0 then let s = s\<lparr>refi := (refi s)(y := None)\<rparr>
                                    in if enable_gc e then remove_item fuel e y s else s
                     else s\<lparr>refi := (refi s)(y \<mapsto> k - 1)\<rparr>)" for s y
    using Suc[of "s\<lparr>refi := (refi s)(y := None)\<rparr>" y] by (auto simp: Let_def split: option.splits)
  show ?case
  proof (cases "i_set x = 0 \<or> x \<in> set (gcready s)")
    case False
    then have "same_core (s\<lparr>gcready := d_insert (dops e) x (gcready s)\<rparr>) (remove_item (Suc fuel) e x s)"
      by (simp only: remove_item.simps if_False) (rule same_core_fold, rule step)
    then show ?thesis by (simp only: same_core_updates_left)
  qed simp
qed simp

lemma same_core_gc_advance: "same_core s (gc_advance e x s)"
  by (auto simp: gc_advance_def Let_def simp del: remove_item.simps
      intro: same_core_trans[OF same_core_trans[OF same_core_updates(5) same_core_updates(1)] same_core_remove_item]
        same_core_trans[OF same_core_updates(5) same_core_updates(1)])

subsection \<open>Add\<close>

lemma add_ok:
  assumes "plain_env e" "plain_grammar (gr s)" "\<not> any_conj s" "item_ok (gr s) ch x" "items_ok (gr s) ch t"
    "add e x t s = (b, t', s')"
  shows "s' = s \<and> items_ok (gr s) ch t'"
  using assms
proof (induction e x t s arbitrary: b t' s' rule: add.induct)
  case (1 e x t s)
  note g = "1.prems"(2) and r = "1.prems"(6)
  have d: "dense_set (dops e)" and c: "dynamic_grow_nts e = []" using "1.prems"(1) by (simp_all add: plain_env_def)
  have carry: "carry_span e x y s = s" for y using c by (simp add: carry_span_def)
  show ?case
  proof (cases "in_U s x \<or> in_S s x \<or> x \<in> set t")
    case True
    then show ?thesis using r "1.prems"(3,5) by (subst (asm) add.simps) (auto simp: Let_def)
  next
    case False
    have t1: "items_ok (gr s) ch (d_insert (dops e) x t)" using items_ok_insert[OF d "1.prems"(5,4)] .
    show ?thesis
    proof (cases "nullable_item (gr s) x")
      case True
      obtain b2 t2 s2 where a: "add e (x\<lparr>i_dot := i_dot x + 1\<rparr>) (d_insert (dops e) x t) s = (b2, t2, s2)"
        by (rule prod_cases3)
      have j: "item_ok (gr s) ch (x\<lparr>i_dot := i_dot x + 1\<rparr>)" using item_ok_nullable[OF g "1.prems"(4) True] .
      have "s2 = s \<and> items_ok (gr s) ch t2"
        using "1.IH"[OF refl _ refl True refl, of b2 t2 s2] False "1.prems"(1-3) j t1 a carry by simp
      then show ?thesis using r False True a carry "1.prems"(3) by (subst (asm) add.simps) (simp add: Let_def)
    next
      case nn: False
      then show ?thesis using r False t1 "1.prems"(3) by (subst (asm) add.simps) (auto simp: Let_def)
    qed
  qed
qed


subsection \<open>Complete\<close>

lemma chart_okD:
  assumes "chart_ok g0 ch i s"
  shows "plain_grammar (gr s)" "\<not> any_conj s" "inp s = i" "sets_ok (gr s) ch (S s)" "waits_ok (gr s) ch (wait s)"
  using assms by (simp_all add: chart_ok_def)

lemma complete_waiter_ok:
  assumes e: "plain_env e" and s: "chart_ok g0 ch i s" and x: "item_ok (gr s) ch x" "completed (gr s) x"
    and t: "items_ok (gr s) ch t"
    and w: "fst we \<noteq> dead_wait \<longrightarrow> waiting (gr s) ch (fst we) (i_from x) (snd we)"
    and r: "complete_waiter e b x we (t, c, s) = (t', c', s')"
  shows "same_core s s' \<and> items_ok (gr s) ch t' \<and> c' = c"
proof (cases "fst we = dead_wait \<or> fst we \<noteq> lit_n (get_nt (gr s) x) \<or> n_literals (gr s) (snd we) \<le> i_dot (snd we) \<or>
    \<not> in_S s (snd we) \<and> \<not> in_U s (snd we)")
  case True
  then show ?thesis using r t by (auto simp: complete_waiter_def Let_def split: if_splits)
next
  case False
  let ?it = "snd we" let ?j = "?it\<lparr>i_dot := i_dot ?it + 1, i_set := i_set x\<rparr>"
  note d = chart_okD[OF s]
  obtain n where n: "get_nt (gr s) x = Nt n"
    using plain_body[OF d(1), of "i_prod x"] x(1) by (auto simp: item_ok_def get_nt_def)
  have wt: "waiting (gr s) ch n (i_from x) ?it" using w False n by auto
  have "item_ok (gr s) ch ?j"
    using item_ok_advance[of "gr s" ch ?it "i_set x"] item_ok_completed[OF d(1) x] wt n
    by (simp add: waiting_def)
  moreover obtain ins t1 s1 where a: "add e ?j t s = (ins, t1, s1)" by (rule prod_cases3)
  ultimately have s1: "s1 = s" "items_ok (gr s) ch t1"
    using add_ok[OF e d(1,2) _ t] by blast+
  have plain: "advance_span e x ?it ?j s = s" "\<not> conjunctive (gr s) (i_prod ?j)" "record_deps x ?it ?j k s = s" for k
    using e d(1,2) by (simp_all add: advance_span_def plain_env_def conjunctive_def plain_grammar_def record_deps_def)
  have "t' = t1 \<and> c' = c \<and> s' = (if ins then gc_advance e ?it s else s)"
    using r False plain a s1(1) by (cases "in_S s ?it") (auto simp: complete_waiter_def Let_def)
  then show ?thesis using s1 same_core_gc_advance[of s e ?it] by simp
qed

lemma complete_fold_ok:
  assumes "plain_env e" "chart_ok g0 ch i s" "item_ok (gr s) ch x" "completed (gr s) x" "items_ok (gr s) ch t"
    "\<forall>we \<in> set ws. fst we \<noteq> dead_wait \<longrightarrow> waiting (gr s) ch (fst we) (i_from x) (snd we)"
    "fold (complete_waiter e b x) ws (t, c, s) = (t', c', s')"
  shows "same_core s s' \<and> items_ok (gr s) ch t' \<and> c' = c"
  using assms
proof (induction ws arbitrary: t c s)
  case (Cons we ws)
  obtain t1 c1 s1 where r: "complete_waiter e b x we (t, c, s) = (t1, c1, s1)" by (rule prod_cases3)
  have 1: "same_core s s1" "items_ok (gr s) ch t1" "c1 = c"
    using complete_waiter_ok[OF Cons.prems(1-5) _ r] Cons.prems(6) by auto
  have g: "gr s1 = gr s" using 1(1) by (simp add: same_core_def)
  show ?case
    using Cons.IH[OF Cons.prems(1) same_core_ok[OF 1(1) Cons.prems(2)], of t1 c1] Cons.prems 1 g r
      same_core_trans[OF 1(1), of s'] by simp
qed simp

lemma waiters_ok:
  assumes "chart_ok g0 ch i s"
  shows "\<forall>we \<in> set (drop k (vget p (wait s))). fst we \<noteq> dead_wait \<longrightarrow> waiting (gr s) ch (fst we) p (snd we)"
  using chart_okD(5)[OF assms] in_set_dropD[of _ k "vget p (wait s)"]
  by (fastforce simp: waits_ok_def vget_def split: if_splits)

lemma complete_plain:
  assumes e: "plain_env e" and s: "chart_ok g0 ch i s" and a: "add e x t s = (ins, t1, s)"
  shows "complete e b x (t, c, s) =
    (if complete_memo s x \<ge> length (vget (i_from x) (wait s)) then (t1, c, s)
     else fold (complete_waiter e b x) (drop (complete_memo s x) (vget (i_from x) (wait s)))
       (t1, c, s\<lparr>complete_memo := (complete_memo s)(x := length (vget (i_from x) (wait s)))\<rparr>))"
proof -
  note d = chart_okD[OF s]
  have nc: "\<not> conjunctive (gr s) (i_prod x)" using d(1) by (simp add: conjunctive_def plain_grammar_def)
  have cf: "confirm_dynamic_parent e x s = s"
    using e by (simp add: confirm_dynamic_parent_def plain_env_def split: lit.splits)
  show ?thesis using d(2) nc a cf
    by (cases "negative (gr s) x") (simp_all add: complete_def Let_def cong: if_cong)
qed

lemma complete_ok:
  assumes e: "plain_env e" and s: "chart_ok g0 ch i s" and x: "item_ok (gr s) ch x" "completed (gr s) x"
    and t: "items_ok (gr s) ch t" and r: "complete e b x (t, c, s) = (t', c', s')"
  shows "same_core s s' \<and> items_ok (gr s) ch t' \<and> c' = c"
proof -
  let ?vec = "vget (i_from x) (wait s)" and ?k = "complete_memo s x"
  let ?s = "s\<lparr>complete_memo := (complete_memo s)(x := length ?vec)\<rparr>"
  note d = chart_okD[OF s]
  obtain ins t1 s1 where a: "add e x t s = (ins, t1, s1)" by (rule prod_cases3)
  have t1: "s1 = s" "items_ok (gr s) ch t1" using add_ok[OF e d(1,2) x(1) t a] by auto
  have "(t', c', s') = (if ?k \<ge> length ?vec then (t1, c, s) else fold (complete_waiter e b x) (drop ?k ?vec) (t1, c, ?s))"
    using complete_plain[OF e s a[unfolded t1(1)]] r by simp
  moreover have "same_core s s' \<and> items_ok (gr s) ch t' \<and> c' = c"
    if "fold (complete_waiter e b x) (drop ?k ?vec) (t1, c, ?s) = (t', c', s')"
    using complete_fold_ok[OF e same_core_ok[OF same_core_updates(3) s], of _ x t1] x t1 waiters_ok[OF s, of ?k "i_from x"] that by simp
  ultimately show ?thesis using t1 by (auto split: if_splits)
qed

subsection \<open>Predict\<close>

lemma chart_ok_wait:
  assumes s: "chart_ok g0 ch i s" and w: "waiting (gr s) ch m pos x"
  shows "chart_ok g0 ch i (cache_insert m pos x s)"
proof -
  note d = chart_okD[OF s]
  let ?w = "vresize (pos + 1) (wait s)"
  have "waits_ok (gr s) ch ?w"
    using d(5) by (auto simp: waits_ok_def vresize_nth split: if_splits)
  then have "waits_ok (gr s) ch (?w[pos := ?w ! pos @ [(m, x)]])"
    unfolding waits_ok_def using w
    by (intro allI impI ballI, rename_tac k y, case_tac "k = pos") (auto simp: nth_list_update)
  then show ?thesis using s \<open>waits_ok (gr s) ch ?w\<close>
    by (simp add: chart_ok_def cache_insert_def Let_def)
qed

lemma gr_cache_insert [simp]: "gr (cache_insert m pos x s) = gr s"
  by (simp add: cache_insert_def Let_def)

definition pc_ok :: "('t, 'z) grammar_scheme \<Rightarrow> nat \<times> nat \<Rightarrow> bool" where
  "pc_ok g pc \<longleftrightarrow> fst pc < gsize g \<and> snd pc < n_conjs g (fst pc)"

definition open_item :: "('t::comm_ring_1, 'z) grammar_scheme \<Rightarrow> (nat \<Rightarrow> 't) \<Rightarrow> item \<Rightarrow> bool" where
  "open_item g ch x \<longleftrightarrow> item_ok g ch x \<and> i_dot x < n_literals g x"

lemma open_waiting:
  "open_item g ch x \<Longrightarrow> is_nt (get_lit g x) \<Longrightarrow> waiting g ch (lit_n (get_lit g x)) (i_set x) x"
  by (cases "get_lit g x") (auto simp: open_item_def waiting_def)

lemma predict_one_ok:
  assumes e: "plain_env e" and s: "chart_ok g0 ch i s" and x: "open_item (gr s) ch x"
    and t: "items_ok (gr s) ch t" and p: "pc_ok (gr s) pc"
    and r: "predict_one e x c [] pc (t, s) = (t', s')"
  shows "chart_ok g0 ch i s' \<and> gr s' = gr s \<and> items_ok (gr s) ch t'"
proof -
  let ?l = "get_lit (gr s) x"
  let ?s = "if snd pc = 0 \<and> is_nt ?l then cache_insert (lit_n ?l) (i_set x) x s else s"
  let ?j = "mk_item (i_set x) (fst pc) (snd pc) (i_set x) 0"
  have s1: "chart_ok g0 ch i ?s" "gr ?s = gr s" using chart_ok_wait[OF s open_waiting[OF x]] s by auto
  note d = chart_okD[OF s1(1)]
  have j: "item_ok (gr ?s) ch ?j"
    using item_ok_start[OF d(1)] p s1(2) by (simp add: pc_ok_def)
  obtain b t2 s2 where a: "add e ?j t ?s = (b, t2, s2)" by (rule prod_cases3)
  have 2: "s2 = ?s" "items_ok (gr s) ch t2" using add_ok[OF e d(1,2) j _ a] t s1(2) by auto
  have "(t', s') = (if \<not> first_can_match (gr s) (fst pc) (snd pc) c then (t, ?s)
        else (t2, if enable_gc e then incr_ref x ?s else ?s))"
    using r a 2(1) by (cases "snd pc = 0"; cases "is_nt ?l")
      (auto simp: predict_one_def Let_def split_beta split: if_splits)
  then show ?thesis
    using t 2(2) s1 same_core_ok[OF same_core_updates(5) s1(1)]
    by (auto simp: incr_ref_def split: if_splits)
qed

lemma predict_fold_ok:
  assumes "plain_env e" "chart_ok g0 ch i s" "open_item (gr s) ch x" "items_ok (gr s) ch t"
    "\<forall>pc \<in> set pcs. pc_ok (gr s) pc" "fold (predict_one e x c []) pcs (t, s) = (t', s')"
  shows "chart_ok g0 ch i s' \<and> gr s' = gr s \<and> items_ok (gr s) ch t'"
  using assms
proof (induction pcs arbitrary: t s)
  case (Cons pc pcs)
  obtain t1 s1 where r: "predict_one e x c [] pc (t, s) = (t1, s1)" by fastforce
  have 1: "chart_ok g0 ch i s1 \<and> gr s1 = gr s \<and> items_ok (gr s) ch t1"
    using predict_one_ok[OF Cons.prems(1-4) _ r] Cons.prems(5) by simp
  then show ?case using Cons.IH[OF Cons.prems(1), of s1 t1] Cons.prems r by simp
qed simp

lemma pcs_ok:
  assumes "plain_grammar g"
  shows "\<forall>pc \<in> set (concat (map (\<lambda>p. map (Pair p) [0..<n_conjs g p]) (prod_ids_of_literal g l))). pc_ok g pc"
  using assms prod_ids_ok[of g _ l] by (auto simp: pc_ok_def plain_grammar_def)

lemma predict_plain:
  assumes "plain_env e" "predict e x c (t, s) = (t', s')"
  shows "fold (predict_one e x c []) (concat (map (\<lambda>p. map (Pair p) [0..<n_conjs (gr s) p])
      (prod_ids_of_literal (gr s) (get_lit (gr s) x)))) (t, s) = (t', s')"
  using assms by (simp add: predict_def plain_env_def Let_def)

lemma predict_ok:
  assumes e: "plain_env e" and s: "chart_ok g0 ch i s" and x: "open_item (gr s) ch x"
    and t: "items_ok (gr s) ch t" and r: "predict e x c (t, s) = (t', s')"
  shows "chart_ok g0 ch i s' \<and> gr s' = gr s \<and> items_ok (gr s) ch t'"
  using predict_fold_ok[OF e s x t pcs_ok[OF chart_okD(1)[OF s]] predict_plain[OF e r]] .

subsection \<open>Scan\<close>

lemma S_insert_ok:
  assumes "plain_env e" "chart_ok g0 ch i s" "item_ok (gr s) ch x"
  shows "chart_ok g0 ch i (S_insert e x s)"
  using assms sets_ok_insert by (auto simp: chart_ok_def S_insert_def plain_env_def)

lemma S_resize_ok: "chart_ok g0 ch i s \<Longrightarrow> chart_ok g0 ch i (s\<lparr>S := vresize n (S s)\<rparr>)"
  by (simp add: chart_ok_def sets_ok_vresize)

lemma scan_item_ok:
  assumes "open_item g ch x" "\<not> is_nt (get_lit g x)" "ch (i_set x) = lit_t (get_lit g x)"
  shows "item_ok g ch (mk_item (i_set x + (if ch (i_set x) = 0 then 0 else 1)) (i_prod x) (i_con x) (i_from x) (i_dot x + 1))"
proof -
  let ?k = "i_set x + (if ch (i_set x) = 0 then 0 else 1)"
  have "spans g ch [get_lit g x] (i_set x) ?k"
  proof (cases "get_lit g x")
    case (Tm c)
    have "spans g ch [Tm (ch (i_set x))] (i_set x) ?k" by (intro spans_tm spans_nil)
    then show ?thesis using assms(3) Tm by simp
  qed (use assms in \<open>auto intro: spans_null spans_nil\<close>)
  from item_ok_advance[OF _ _ this] assms(1) have "item_ok g ch (x\<lparr>i_dot := i_dot x + 1, i_set := ?k\<rparr>)"
    by (simp add: open_item_def)
  moreover have "x\<lparr>i_dot := i_dot x + 1, i_set := ?k\<rparr> = mk_item ?k (i_prod x) (i_con x) (i_from x) (i_dot x + 1)"
    by (cases x) (simp add: mk_item_def)
  ultimately show ?thesis by simp
qed

lemma scan_ok:
  assumes e: "plain_env e" and s: "chart_ok g0 ch i s" and x: "open_item (gr s) ch x"
    and l: "\<not> is_nt (get_lit (gr s) x)"
  shows "chart_ok g0 ch i (scan e x (i_set x) (ch (i_set x)) s) \<and> gr (scan e x (i_set x) (ch (i_set x)) s) = gr s"
proof -
  let ?c = "ch (i_set x)"
  let ?j = "mk_item (i_set x + (if ?c = 0 then 0 else 1)) (i_prod x) (i_con x) (i_from x) (i_dot x + 1)"
  note d = chart_okD[OF s]
  show ?thesis
  proof (cases "?c = lit_t (get_lit (gr s) x)")
    case False
    have "same_core s (scan e x (i_set x) ?c s)"
      using False by (auto simp: scan_def Let_def simp del: remove_item.simps split: option.splits
        intro: same_core_remove_item same_core_trans[OF same_core_updates(1) same_core_remove_item])
    then show ?thesis using same_core_ok[OF _ s] by (simp add: same_core_def)
  next
    case True
    let ?s = "if \<not> binarize e \<and> enable_gc e then s\<lparr>gcready := d_insert (dops e) x (gcready s)\<rparr> else s"
    let ?s1 = "?s\<lparr>S := vresize (i_set ?j + 1) (S ?s)\<rparr>"
    have s0: "chart_ok g0 ch i ?s" using same_core_ok[OF same_core_updates(2) s] s by simp
    have s1: "chart_ok g0 ch i ?s1" "gr ?s1 = gr s" using S_resize_ok[OF s0] by simp_all
    have "item_ok (gr ?s1) ch ?j" using scan_item_ok[OF x l True] s1(2) by simp
    from S_insert_ok[OF e s1(1) this] have "chart_ok g0 ch i (S_insert e ?j ?s1)" "gr (S_insert e ?j ?s1) = gr s"
      by (simp_all add: S_insert_def)
    moreover have "\<not> any_conj (S_insert e ?j ?s1)" using calculation(1) by (rule chart_okD)
    moreover have "scan e x (i_set x) ?c s = (if in_S ?s1 ?j then ?s1 else S_insert e ?j ?s1)"
      using True e calculation(3) by (simp add: scan_def Let_def plain_env_def)
    ultimately show ?thesis using s1 by simp
  qed
qed


text \<open>Without conjunctive productions the container of parked items holds only ends of the input,
  which are completed.\<close>

definition ends_ok :: "('t::comm_ring_1, 'z) grammar_scheme \<Rightarrow> (nat \<Rightarrow> 't) \<Rightarrow> item list \<Rightarrow> bool" where
  "ends_ok g ch c \<longleftrightarrow> (\<forall>x \<in> set c. item_ok g ch x \<and> completed g x)"

lemma ends_ok_grows: "grows g g' \<Longrightarrow> ends_ok g ch c \<Longrightarrow> ends_ok g' ch c"
  unfolding ends_ok_def using item_ok_grows grows_item(4) by (metis item_ok_def)

lemma ends_ok_insert:
  "dense_set ops \<Longrightarrow> ends_ok g ch c \<Longrightarrow> item_ok g ch x \<Longrightarrow> completed g x \<Longrightarrow> ends_ok g ch (d_insert ops x c)"
  by (simp add: ends_ok_def dense_set.set_insert)

lemma scan_cc_found_ok:
  assumes e: "plain_env e" and s: "chart_ok g0 ch i s" and x: "open_item (gr s) ch x" "get_lit (gr s) x = Nt m"
    and c: "ends_ok (gr s) ch c"
    and p: "p < gsize (gr s)" "prods (gr s) ! p = (Nt m, [Lits False [Tm b]])"
    and acc: "fns (cc_fns (gr s)) m = Some f \<and> f (ch (i_set x)) \<or>
      m = eof_fn (cc_fns (gr s)) \<and> is_eof (ch (i_set x))"
    and r: "scan_cc_found e x (i_set x) (ch (i_set x)) at_eof p (c, s) = (c', s')"
  shows "chart_ok g0 ch i s' \<and> gr s' = gr s \<and> ends_ok (gr s) ch c'"
proof -
  let ?ch = "ch (i_set x)" let ?n = "if is_eof ?ch then i_set x else i_set x + 1"
  let ?k = "mk_item ?n p 0 (?n - (if is_eof ?ch then 0 else 1)) 1"
  let ?s1 = "cache_insert m (i_set x) x s"
  have s1: "chart_ok g0 ch i ?s1" using chart_ok_wait[OF s] open_waiting[OF x(1)] x(2) by simp
  have "spans (gr s) ch [Nt m] (i_set x) ?n"
    using acc spans_class[OF _ _ spans_nil] spans_eof[OF _ _ spans_nil] by fastforce
  then have "item_ok (gr s) ch ?k \<and> completed (gr s) ?k"
    using p by (cases "is_eof ?ch")
      (simp_all add: item_ok_def mk_item_def n_literals_def completed_def get_nt_def head_def body_def)
  then have k: "item_ok (gr s) ch ?k" "completed (gr s) ?k" by simp_all
  have s2: "chart_ok g0 ch i (S_add e ?k ?s1)" "gr (S_add e ?k ?s1) = gr s"
    using S_insert_ok[OF e S_resize_ok[OF s1]] k by (simp_all add: S_add_def S_insert_def)
  have "(c', s') = (if at_eof then d_insert (dops e) ?k c else c,
      if \<not> binarize e \<and> enable_gc e
      then (S_add e ?k ?s1)\<lparr>gcready := d_insert (dops e) x (gcready (S_add e ?k ?s1))\<rparr> else S_add e ?k ?s1)"
    using r x(2) by (simp add: scan_cc_found_def Let_def cong: if_cong)
  then show ?thesis
    using s2 c k e same_core_ok[OF same_core_updates(2) s2(1)]
    by (auto simp: plain_env_def intro: ends_ok_insert)
qed

lemma scan_cc_function_ok:
  assumes e: "plain_env e" and s: "chart_ok g0 ch i s" and x: "open_item (gr s) ch x" "get_lit (gr s) x = Nt m"
    and cc: "is_cc_fn (gr s) m" and c: "ends_ok (gr s) ch c"
    and r: "scan_cc_function e x (i_set x) (ch (i_set x)) (c, s) = (c', s')"
  shows "chart_ok g0 ch i s' \<and> grows (gr s) (gr s') \<and> ends_ok (gr s') ch c'"
proof -
  let ?ch = "ch (i_set x)"
  note d = chart_okD[OF s]
  have step: "chart_ok g0 ch i s' \<and> grows (gr s) (gr s') \<and> ends_ok (gr s') ch c'"
    if a: "append_ok (gr s) g'" and p: "p < gsize g'" "prods g' ! p = (Nt m, [Lits False [Tm b]])"
      and acc: "fns (cc_fns g') m = Some f \<and> f ?ch \<or> m = eof_fn (cc_fns g') \<and> is_eof ?ch"
      and f: "scan_cc_found e x (i_set x) ?ch q p (c, s\<lparr>gr := g'\<rparr>) = (c', s')" for g' p b f q
  proof -
    have gg: "grows (gr s) g'" "i_prod x < gsize (gr s)"
      using a x(1) by (simp_all add: append_ok_def open_item_def item_ok_def)
    have o: "open_item g' ch x" "get_lit g' x = Nt m"
      using x grows_item[OF gg] item_ok_grows[OF gg(1)] by (simp_all add: open_item_def)
    show ?thesis
      using scan_cc_found_ok[OF e chart_ok_grow[OF s a] _ _ _ _ _ _ f] o p acc ends_ok_grows[OF gg(1) c] gg(1)
      by fastforce
  qed
  show ?thesis
  proof (cases "is_eof_fn (gr s) m")
    case True
    then have eo: "m = eof_fn (cc_fns (gr s))" by (simp add: is_eof_fn_def)
    show ?thesis
    proof (cases "is_eof ?ch")
      case False
      then show ?thesis using r True x(2) s c by (simp add: scan_cc_function_def)
    next
      case ch: True
      obtain p g' where q: "eof_production (Nt m) ?ch (gr s) = (p, g')" by fastforce
      obtain b where b: "append_ok (gr s) g'" "p < gsize g'" "prods g' ! p = (Nt m, [Lits False [Tm b]])"
        using eof_production_ok[OF d(1) eo ch q] by auto
      have "eof_fn (cc_fns g') = m" using b(1) eo by (simp add: append_ok_def grows_def)
      then show ?thesis using step[OF b(1-3)] r True ch x(2) q by (simp add: scan_cc_function_def)
    qed
  next
    case False
    obtain o' g' where q: "get_char_class_production (Nt m) ?ch (gr s) = (o', g')" by fastforce
    note ok = get_char_class_production_ok[OF d(1) refl q]
    have s': "scan_cc_function e x (i_set x) ?ch (c, s) = (case o' of None \<Rightarrow> (c, s\<lparr>gr := g'\<rparr>)
        | Some p \<Rightarrow> scan_cc_found e x (i_set x) ?ch False p (c, s\<lparr>gr := g'\<rparr>))"
      using False x(2) q by (simp add: scan_cc_function_def split: option.splits)
    show ?thesis
    proof (cases o')
      case None
      then have "c' = c" "s' = s\<lparr>gr := g'\<rparr>" using r s' by auto
      then show ?thesis using chart_ok_grow[OF s, of g'] ok ends_ok_grows[OF _ c, of g'] by (simp add: append_ok_def)
    next
      case (Some p)
      then have p: "append_ok (gr s) g'" "p < gsize g'" "prods g' ! p = (Nt m, [Lits False [Tm ?ch]])"
        "class_production g' (Nt m, [Lits False [Tm ?ch]])" using ok by auto
      have "m \<noteq> eof_fn (cc_fns g')" using False p(1) by (simp add: is_eof_fn_def append_ok_def grows_def)
      then obtain f where "fns (cc_fns g') m = Some f \<and> f ?ch" using p(4) by (auto simp: class_production_def)
      then show ?thesis using step[OF p(1-3), of f False] r s' Some by simp
    qed
  qed
qed


subsection \<open>The loops\<close>

type_synonym ('c, 't) run_state = "item list \<times> item list \<times> ('c, 't) chart"

definition run_ok ::
  "'t::comm_ring_1 grammar \<Rightarrow> (nat \<Rightarrow> 't) \<Rightarrow> ('c, 't) input \<Rightarrow> ('c, 't) run_state \<Rightarrow> bool" where
  "run_ok g0 ch i r = (case r of (t, c, s) \<Rightarrow> chart_ok g0 ch i s \<and> items_ok (gr s) ch t \<and> ends_ok (gr s) ch c)"

definition run_gr :: "('c, 't) run_state \<Rightarrow> 't grammar" where
  "run_gr r = gr (snd (snd r))"

lemma process_ok:
  assumes e: "plain_env e" and r: "run_ok g0 ch i r" and x: "item_ok (run_gr r) ch x" "i_set x = n"
  shows "run_ok g0 ch i (process e n (ch n) x r) \<and> grows (run_gr r) (run_gr (process e n (ch n) x r))"
proof -
  obtain t c s where rs: "r = (t, c, s)" by (rule prod_cases3)
  have s: "chart_ok g0 ch i s" "items_ok (gr s) ch t" "ends_ok (gr s) ch c" and x': "item_ok (gr s) ch x"
    using r x(1) rs by (simp_all add: run_ok_def run_gr_def)
  show ?thesis
  proof (cases "completed (gr s) x")
    case True
    obtain t' c' s' where q: "complete e False x (t, c, s) = (t', c', s')" by (rule prod_cases3)
    have "same_core s s' \<and> items_ok (gr s) ch t' \<and> c' = c" using complete_ok[OF e s(1) x' True s(2) q] .
    then show ?thesis using True q rs s(3) same_core_ok[OF _ s(1), of s']
      by (simp add: process_def run_ok_def run_gr_def same_core_def)
  next
    case False
    then have o: "open_item (gr s) ch x" using x' by (auto simp: open_item_def item_ok_def completed_def)
    show ?thesis
    proof (cases "get_lit (gr s) x")
      case (Nt m)
      show ?thesis
      proof (cases "is_cc_fn (gr s) m")
        case True
        obtain c' s' where q: "scan_cc_function e x n (ch n) (c, s) = (c', s')" by fastforce
        have "chart_ok g0 ch i s' \<and> grows (gr s) (gr s') \<and> ends_ok (gr s') ch c'"
          using scan_cc_function_ok[OF e s(1) o Nt True s(3)] q x(2) by simp
        then show ?thesis using False Nt True q rs items_ok_grows[OF _ s(2), of "gr s'"]
          by (simp add: process_def run_ok_def run_gr_def)
      next
        case cc: False
        obtain t' s' where q: "predict e x (ch n) (t, s) = (t', s')" by fastforce
        from predict_ok[OF e s(1) o s(2) q] show ?thesis using False Nt cc q rs s(3)
          by (simp add: process_def run_ok_def run_gr_def)
      qed
    qed (use scan_ok[OF e s(1) o] False rs s x(2) in \<open>simp_all add: process_def run_ok_def run_gr_def\<close>)
  qed
qed

lemma process_fold_ok:
  assumes "plain_env e" "run_ok g0 ch i r" "\<forall>x \<in> set xs. item_ok (run_gr r) ch x \<and> i_set x = n"
  shows "run_ok g0 ch i (fold (process e n (ch n)) xs r)"
  using assms
proof (induction xs arbitrary: r)
  case (Cons x xs)
  have "run_ok g0 ch i (process e n (ch n) x r) \<and> grows (run_gr r) (run_gr (process e n (ch n) x r))"
    using process_ok[OF Cons.prems(1,2)] Cons.prems(3) by simp
  then show ?case using Cons.IH[OF Cons.prems(1)] Cons.prems(3) item_ok_grows by fastforce
qed simp

lemma pair_less_nat: "equiv (pair_less (<) (<)) (a :: nat \<times> nat) b \<longleftrightarrow> a = b"
  by (cases a; cases b) (auto simp: equiv_def pair_less_def)

lemma item_equiv: "equiv item_less a b \<longleftrightarrow> a = b"
  by (cases a; cases b) (auto simp: equiv_def item_less_def split: if_splits)

lemma sset_has:
  assumes "\<And>a b. equiv lt a b \<longleftrightarrow> a = b" "x \<in> set xs" "comparator lt"
  shows "x \<in> set (sset lt xs)"
  using comparator.sinserts_has[OF assms(3,2), of "[]"] assms(1) by (auto simp: sset_def)

lemma resolve_ok:
  assumes g: "plain_grammar (gr s)" and c: "ends_ok (gr s) ch c"
  shows "resolve_conjunctions e (c, s) = (c, s)"
proof -
  have "\<not> conj_failed s xs (fst k)" if k: "(k, xs) \<in> set (conj_groups c)" for k xs
  proof -
    have kx: "xs = sset item_less (filter (\<lambda>x. (i_prod x, i_from x) = k) c)"
      "k \<in> set (sset (pair_less (<) (<)) (map (\<lambda>x. (i_prod x, i_from x)) c))"
      using k by (auto simp: conj_groups_def)
    then have "k \<in> set (map (\<lambda>x. (i_prod x, i_from x)) c)"
      using comparator.set_sinserts_sub[OF less.comparator_pair[OF less.comparator_axioms], of _ "[]"]
      by (force simp: sset_def)
    then obtain x where x: "x \<in> set c" "k = (i_prod x, i_from x)" by auto
    have "x \<in> set (filter (\<lambda>x. (i_prod x, i_from x) = k) c)" using x by simp
    then have xx: "x \<in> set xs" unfolding kx(1) by (rule sset_has[OF item_equiv _ item.comparator_axioms])
    have xo: "item_ok (gr s) ch x" using c x(1) by (simp add: ends_ok_def)
    then have p: "i_prod x < gsize (gr s)" "i_con x = 0" by (simp_all add: item_ok_def)
    obtain b where b: "body (gr s) (i_prod x) = [Lits False b]" using plain_body[OF g p(1)] by metis
    have "conj_found s xs (i_prod x) 0" using xx p(2) by (auto simp: conj_found_def list_ex_iff Let_def)
    then show ?thesis using b x(2) by (simp add: conj_failed_def n_conjs_def)
  qed
  then have "fold (\<lambda>(k, xs) (c, s).
         if conj_failed s xs (fst k)
         then fold (\<lambda>x (c, s). retract_item (n_items s + 1) e x (c, s)) xs (c, s)
         else (c, s)) gs (c, s) = (c, s)" if "set gs \<subseteq> set (conj_groups c)" for gs
    using that by (induction gs) auto
  from this[OF subset_refl] show ?thesis by (simp add: resolve_conjunctions_def)
qed


lemma complete_all_ok:
  assumes "plain_env e" "chart_ok g0 ch i s" "items_ok (gr s) ch t" "\<forall>x \<in> set xs. item_ok (gr s) ch x \<and> completed (gr s) x"
    "fold (complete e True) xs (t, c, s) = (t', c', s')"
  shows "same_core s s' \<and> items_ok (gr s) ch t'"
  using assms
proof (induction xs arbitrary: t c s)
  case (Cons x xs)
  obtain t1 c1 s1 where q: "complete e True x (t, c, s) = (t1, c1, s1)" by (rule prod_cases3)
  have 1: "same_core s s1" "items_ok (gr s) ch t1"
    using complete_ok[OF Cons.prems(1,2) _ _ Cons.prems(3) q] Cons.prems(4) by auto
  have g: "gr s1 = gr s" using 1(1) by (simp add: same_core_def)
  show ?case
    using Cons.IH[OF Cons.prems(1) same_core_ok[OF 1(1) Cons.prems(2)], of t1 c1] Cons.prems(4,5) 1 g q
      same_core_trans[OF 1(1), of s'] by simp
qed simp

lemma after_round_ok:
  assumes e: "plain_env e" and r: "run_ok g0 ch i (t, c, s)"
  shows "run_ok g0 ch i (after_round e (t, c, s))"
proof (cases "t = []")
  case True
  have s: "chart_ok g0 ch i s" and c: "ends_ok (gr s) ch c" using r by (simp_all add: run_ok_def)
  obtain t' c' s' where q: "fold (complete e True) c ([], c, s) = (t', c', s')" by (rule prod_cases3)
  have "same_core s s' \<and> items_ok (gr s) ch t'"
    using complete_all_ok[OF e s _ _ q] c by (simp add: items_ok_def ends_ok_def)
  then show ?thesis using True q same_core_ok[OF _ s, of s'] resolve_ok[OF chart_okD(1)[OF s] c]
    by (simp add: after_round_def run_ok_def same_core_def ends_ok_def)
qed (use r in \<open>simp add: after_round_def\<close>)

lemma flush_ok:
  "plain_env e \<Longrightarrow> chart_ok g0 ch i s \<Longrightarrow> items_ok (gr s) ch t \<Longrightarrow>
   chart_ok g0 ch i (flush e t s) \<and> gr (flush e t s) = gr s"
  unfolding flush_def
proof (induction t arbitrary: s)
  case (Cons x t)
  have g: "gr (S_insert e x s) = gr s" by (simp add: S_insert_def)
  show ?case using Cons.IH[of "S_insert e x s"] S_insert_ok[of e g0 ch i s x] Cons.prems g
    by (simp add: items_ok_def)
qed simp

definition loop_state :: "('c, 't) pos_loop \<Rightarrow> ('c, 't) run_state" where
  "loop_state r = (l_t r, l_c r, l_s r)"

lemma round_setup_ok:
  assumes e: "plain_env e" and r: "run_ok g0 ch i (loop_state r)" and q: "round_setup e n r = (r', snap)"
    and rv: "\<forall>k \<in> set (l_revisit r). k < l_done r"
  shows "run_ok g0 ch i (loop_state r') \<and> (\<forall>x \<in> set snap. item_ok (run_gr (loop_state r')) ch x \<and> i_set x = n) \<and>
    (\<forall>k \<in> set (l_revisit r'). k < l_done r')"
proof -
  let ?s = "flush e (l_t r) (l_s r)"
  have s: "chart_ok g0 ch i ?s" "gr ?s = gr (l_s r)" "ends_ok (gr ?s) ch (l_c r)"
    using flush_ok[OF e, of g0 ch i "l_s r" "l_t r"] r by (simp_all add: run_ok_def loop_state_def)
  let ?now = "vget n (S ?s)"
  have snap: "set snap \<subseteq> set ?now" and st: "l_s r' = ?s" "l_t r' = []" "l_c r' = l_c r"
    and rv': "\<forall>k \<in> set (l_revisit r'). k < l_done r'"
    using q rv by (force simp: round_setup_def Let_def split: if_splits)+
  have "item_ok (gr ?s) ch x \<and> i_set x = n" if "x \<in> set snap" for x
    using vget_sets[OF chart_okD(4)[OF s(1)]] snap that by blast
  then show ?thesis using s st rv' by (simp add: run_ok_def loop_state_def run_gr_def items_ok_def)
qed

lemma round_ok:
  assumes e: "plain_env e" and r: "run_ok g0 ch i (loop_state r)" and rv: "\<forall>k \<in> set (l_revisit r). k < l_done r"
  shows "run_ok g0 ch i (loop_state (round e n (ch n) r)) \<and>
    (\<forall>k \<in> set (l_revisit (round e n (ch n) r)). k < l_done (round e n (ch n) r))"
proof -
  obtain r1 snap where q: "round_setup e n r = (r1, snap)" by fastforce
  note 1 = round_setup_ok[OF e r q rv]
  obtain t c s where p: "fold (process e n (ch n)) snap (loop_state r1) = (t, c, s)" by (rule prod_cases3)
  have "run_ok g0 ch i (t, c, s)" using process_fold_ok[OF e, of g0 ch i "loop_state r1" snap n] 1 p by simp
  from after_round_ok[OF e this] show ?thesis
    using q p 1 by (cases "after_round e (t, c, s)") (simp add: round_def loop_state_def)
qed

lemma position_loop_inv:
  assumes "position_loop e n c r = Some r'" "P r" "\<And>r. P r \<Longrightarrow> P (round e n c r)"
  shows "P r' \<and> l_t r' = []"
proof -
  have "(\<forall>r. P r \<longrightarrow> P (round e n c r)) \<longrightarrow> P r \<longrightarrow> P r' \<and> l_t r' = []"
  proof (rule position_loop.raw_induct[where P = "\<lambda>e n c r r'.
      (\<forall>r. P r \<longrightarrow> P (round e n c r)) \<longrightarrow> P r \<longrightarrow> P r' \<and> l_t r' = []", OF _ assms(1)])
    fix pl e n c r r'
    assume ih: "\<And>e n c r r'. pl e n c r = Some r' \<Longrightarrow>
        (\<forall>r. P r \<longrightarrow> P (round e n c r)) \<longrightarrow> P r \<longrightarrow> P r' \<and> l_t r' = []"
      and q: "(let r' = round e n c r in if l_t r' = [] then Some r' else pl e n c r') = Some r'"
    show "(\<forall>r. P r \<longrightarrow> P (round e n c r)) \<longrightarrow> P r \<longrightarrow> P r' \<and> l_t r' = []"
      using ih[of e n c "round e n c r" r'] q by (auto simp: Let_def split: if_splits)
  qed
  then show ?thesis using assms by blast
qed

lemma position_loop_ok:
  assumes "plain_env e" "position_loop e n (ch n) r = Some r'" "run_ok g0 ch i (loop_state r)"
    "\<forall>k \<in> set (l_revisit r). k < l_done r"
  shows "run_ok g0 ch i (loop_state r') \<and> l_t r' = []"
  using position_loop_inv[OF assms(2), of "\<lambda>r. run_ok g0 ch i (loop_state r) \<and> (\<forall>k \<in> set (l_revisit r). k < l_done r)"]
    assms(3,4) round_ok[OF assms(1)] by blast

subsection \<open>The end of a position\<close>

lemma chart_ok_drop:
  assumes "chart_ok g0 ch i s" "sets_ok (gr s) ch S'" "waits_ok (gr s) ch w'"
    "gr s' = gr s" "inp s' = inp s" "any_conj s' = any_conj s" "S s' = S'" "wait s' = w'"
  shows "chart_ok g0 ch i s'"
  using assms by (simp add: chart_ok_def)

lemma set_tombstone: "(m, y) \<in> set (tombstone n x ws) \<Longrightarrow> m = dead_wait \<or> (m, y) \<in> set ws"
  by (induction ws) (auto split: if_splits)

lemma cache_erase_ok: "waits_ok g ch (wait s) \<Longrightarrow> waits_ok g ch (wait (cache_erase n pos x s))"
proof (cases "pos < length (wait s)")
  case True
  assume w: "waits_ok g ch (wait s)"
  show ?thesis unfolding waits_ok_def
  proof (intro allI impI ballI)
    fix k y
    assume "k < length (wait (cache_erase n pos x s))" "y \<in> set (wait (cache_erase n pos x s) ! k)"
    then show "case y of (m, z) \<Rightarrow> m \<noteq> dead_wait \<longrightarrow> waiting g ch m k z"
      using True w set_tombstone[of "fst y" "snd y" n x "wait s ! pos"]
      by (cases "k = pos") (auto simp: cache_erase_def waits_ok_def)
  qed
qed (simp add: cache_erase_def)

lemma cache_erase_frame:
  "gr (cache_erase n pos x s) = gr s" "inp (cache_erase n pos x s) = inp s"
  "any_conj (cache_erase n pos x s) = any_conj s" "S (cache_erase n pos x s) = S s"
  by (simp_all add: cache_erase_def)

lemma sets_ok_erase:
  assumes "dense_set ops" "sets_ok g ch xss"
  shows "sets_ok g ch (xss[k := d_erase ops x (vget k xss)])"
  using vget_sets[OF assms(2)] dense_set.erase_sub[OF assms(1)] by (intro sets_ok_update[OF assms(2)]) blast

lemma gc_collect_ok:
  assumes e: "plain_env e" and s: "chart_ok g0 ch i s"
  shows "chart_ok g0 ch i (gc_collect e x s) \<and> gr (gc_collect e x s) = gr s"
proof -
  note d = chart_okD[OF s]
  let ?s1 = "s\<lparr>refi := (refi s)(x := None)\<rparr>"
  let ?S = "(S s)[i_set x := d_erase (dops e) x (vget (i_set x) (S s))]"
  let ?s2 = "?s1\<lparr>epoch := epoch ?s1 + 1, S := ?S\<rparr>"
  let ?s3 = "cache_erase (lit_n (get_lit (gr s) x)) (i_set x) x ?s2"
  have S: "sets_ok (gr s) ch ?S" using sets_ok_erase[OF _ d(4)] e by (simp add: plain_env_def)
  have s2: "chart_ok g0 ch i ?s2" using S by (intro chart_ok_drop[OF s _ d(5)]) simp_all
  have "waits_ok (gr s) ch (wait ?s3)" using cache_erase_ok[of "gr s" ch ?s2] d(5) by simp
  then have s3: "chart_ok g0 ch i ?s3"
    using S by (intro chart_ok_drop[OF s S]) (simp_all add: cache_erase_frame)
  have "gc_collect e x s \<in> (\<lambda>s'. s'\<lparr>gcready := d_erase (dops e) x (gcready s')\<rparr>) ` {?s1, ?s2, ?s3}"
    by (auto simp: gc_collect_def Let_def in_S_def)
  then show ?thesis
    using same_core_ok[OF same_core_updates(1) s] same_core_ok[OF same_core_updates(2) s2]
      same_core_ok[OF same_core_updates(2) s3] same_core_ok[OF same_core_updates(2) same_core_ok[OF same_core_updates(1) s]]
    by (auto simp: cache_erase_frame)
qed

lemma gc_drain_ok:
  assumes "plain_env e" "chart_ok g0 ch i s"
  shows "chart_ok g0 ch i (gc_drain e n s) \<and> gr (gc_drain e n s) = gr s"
proof -
  have "plain_env e \<Longrightarrow> chart_ok g0 ch i s \<Longrightarrow>
      chart_ok g0 ch i (gc_drain_from m e n k s) \<and> gr (gc_drain_from m e n k s) = gr s" for m k
  proof (induction m e n k s rule: gc_drain_from.induct)
    case (2 m e n k s)
    show ?case using 2(1)[OF _ refl] 2(2)[OF _ refl] 2(3,4) gc_collect_ok[OF 2(3,4)] by (simp add: Let_def)
  qed simp
  then show ?thesis using assms by (simp add: gc_drain_def)
qed

lemma end_position_ok:
  assumes "plain_env e" "chart_ok g0 ch i s"
  shows "chart_ok g0 ch i (end_position e n s) \<and> gr (end_position e n s) = gr s"
  using gc_drain_ok[OF assms(1) same_core_ok[OF same_core_updates(3) assms(2)]] chart_okD(2)[OF assms(2)]
  by (simp add: end_position_def Let_def)


subsection \<open>The run\<close>

lemma run_positions_ok:
  assumes e: "plain_env e" and r: "run_positions e t c s = Some (Ran s')" and ok: "run_ok g0 ch (inp s) (t, c, s)"
    and i: "input_ok (inp s)" "ch = tat (conv e) None (inp s)"
  shows "\<exists>i'. chart_ok g0 ch i' s' \<and> ch = tat (conv e) None i'"
proof -
  have "plain_env e \<longrightarrow> (\<forall>s'. re = Ran s' \<longrightarrow> run_ok g0 ch (inp s) (t, c, s) \<longrightarrow> input_ok (inp s) \<longrightarrow>
      ch = tat (conv e) None (inp s) \<longrightarrow> (\<exists>i'. chart_ok g0 ch i' s' \<and> ch = tat (conv e) None i'))"
    if "run_positions e t c s = Some re" for re
  proof (rule run_positions.raw_induct[where P = "\<lambda>e t c s re. plain_env e \<longrightarrow> (\<forall>s'. re = Ran s' \<longrightarrow>
      run_ok g0 ch (inp s) (t, c, s) \<longrightarrow> input_ok (inp s) \<longrightarrow>
      ch = tat (conv e) None (inp s) \<longrightarrow> (\<exists>i'. chart_ok g0 ch i' s' \<and> ch = tat (conv e) None i'))", OF _ that], intro impI allI)
    fix rp and e :: "('a, 'b) env" and t c and s :: "('a, 'b) chart" and re s'
    let ?i = "inp s" let ?n = "tp ?i"
    let ?s0 = "s\<lparr>S := vresize (?n + 1) (S s)\<rparr>"
    let ?r0 = "\<lparr>l_t = t, l_c = c, l_s = ?s0, l_done = 0, l_epoch = epoch s, l_revisit = []\<rparr>"
    assume ih: "\<And>e t c s re. rp e t c s = Some re \<Longrightarrow> plain_env e \<longrightarrow> (\<forall>s'. re = Ran s' \<longrightarrow>
        run_ok g0 ch (inp s) (t, c, s) \<longrightarrow> input_ok (inp s) \<longrightarrow>
        ch = tat (conv e) None (inp s) \<longrightarrow> (\<exists>i'. chart_ok g0 ch i' s' \<and> ch = tat (conv e) None i'))"
      and q: "(case tcur (conv e) (dec e) (inp s) of (ch, i) \<Rightarrow>
        if tp i > max_item_pos then Some Too_long
        else Option.bind (position_loop e (tp i) ch
           \<lparr>l_t = t, l_c = c, l_s = s\<lparr>inp := i, S := vresize (tp i + 1) (S s)\<rparr>,
            l_done = 0, l_epoch = epoch s, l_revisit = []\<rparr>)
         (\<lambda>r. let s = end_position e (tp i) (l_s r) in
           case tnext (dec e) (inp s) of (again, i') \<Rightarrow>
             if again then rp e (l_t r) (l_c r) (s\<lparr>inp := i'\<rparr>) else Some (Ran (s\<lparr>inp := i'\<rparr>)))) = Some re"
      and e: "plain_env e" and re: "re = Ran s'" and ok: "run_ok g0 ch ?i (t, c, s)"
      and i: "input_ok ?i" and ch: "ch = tat (conv e) None ?i"
    have d: "dec e = None" using e by (simp add: plain_env_def)
    have tc: "tcur (conv e) (dec e) ?i = (ch ?n, ?i)" using tcur_tat[OF i] d ch by simp
    obtain r where r: "position_loop e ?n (ch ?n) ?r0 = Some r"
      and q2: "(let s = end_position e ?n (l_s r) in
           case tnext (dec e) (inp s) of (again, i') \<Rightarrow>
             if again then rp e (l_t r) (l_c r) (s\<lparr>inp := i'\<rparr>) else Some (Ran (s\<lparr>inp := i'\<rparr>))) = Some re"
      using q tc re by (auto simp: Option.bind_eq_Some_conv split: if_splits)
    have "run_ok g0 ch ?i (loop_state ?r0)"
      using ok S_resize_ok by (auto simp: run_ok_def loop_state_def)
    then have ok1: "run_ok g0 ch ?i (l_t r, l_c r, l_s r)"
      using position_loop_ok[of e ?n ch ?r0 r g0 ?i, OF e r] by (auto simp: loop_state_def)
    let ?s1 = "end_position e ?n (l_s r)"
    have s1: "chart_ok g0 ch ?i ?s1" "gr ?s1 = gr (l_s r)" "inp ?s1 = ?i"
      using end_position_ok[OF e, of g0 ch ?i "l_s r" ?n] ok1 chart_okD(3)[of g0 ch ?i ?s1] by (auto simp: run_ok_def)
    obtain again i' where nx: "tnext None ?i = (again, i')" by fastforce
    have fr: "input_ok i'" "tat (conv e) None i' = ch" using tnext_frame[OF nx i] ch by auto
    have s2: "chart_ok g0 ch i' (?s1\<lparr>inp := i'\<rparr>)" using s1(1) by (simp add: chart_ok_def)
    show "\<exists>i'. chart_ok g0 ch i' s' \<and> ch = tat (conv e) None i'"
    proof (cases again)
      case True
      have "rp e (l_t r) (l_c r) (?s1\<lparr>inp := i'\<rparr>) = Some re" using q2 nx d s1(3) True by (simp add: Let_def)
      from ih[OF this] show ?thesis using e re s2 ok1 s1(2) fr by (simp add: run_ok_def)
    next
      case False
      then have "s' = ?s1\<lparr>inp := i'\<rparr>" using q2 nx d s1(3) re by (simp add: Let_def)
      then show ?thesis using s2 fr by blast
    qed
  qed
  from this[OF r] show ?thesis using e ok i by blast
qed

lemma seed_ok:
  assumes e: "plain_env e" and s: "chart_ok g0 ch i s" and t: "items_ok (gr s) ch t" and p: "pc_ok (gr s) pc"
    and r: "seed e pc (t, s) = (t', s')"
  shows "same_core s s' \<and> items_ok (gr s) ch t'"
proof -
  note d = chart_okD[OF s]
  let ?j = "mk_item 0 (fst pc) (snd pc) 0 0"
  obtain b t2 s2 where a: "add e ?j t s = (b, t2, s2)" by (rule prod_cases3)
  have j: "item_ok (gr s) ch ?j" using item_ok_start[OF d(1)] p by (simp add: pc_ok_def)
  have "s2 = s \<and> items_ok (gr s) ch t2" using add_ok[OF e d(1,2) j t a] .
  then show ?thesis using r a by (auto simp: seed_def Let_def)
qed

lemma seeds_ok:
  assumes "plain_env e" "chart_ok g0 ch i s" "items_ok (gr s) ch t" "\<forall>pc \<in> set pcs. pc_ok (gr s) pc"
    "fold (seed e) pcs (t, s) = (t', s')"
  shows "same_core s s' \<and> items_ok (gr s) ch t'"
  using assms
proof (induction pcs arbitrary: t s)
  case (Cons pc pcs)
  obtain t1 s1 where q: "seed e pc (t, s) = (t1, s1)" by fastforce
  have 1: "same_core s s1" "items_ok (gr s) ch t1" using seed_ok[OF Cons.prems(1-3) _ q] Cons.prems(4) by auto
  have g: "gr s1 = gr s" using 1(1) by (simp add: same_core_def)
  show ?case
    using Cons.IH[OF Cons.prems(1) same_core_ok[OF 1(1) Cons.prems(2)], of t1] Cons.prems(4,5) 1 g q
      same_core_trans[OF 1(1), of s'] by simp
qed simp

lemma run_earley_ok:
  assumes e: "plain_env e" and g: "plain_grammar g" and i: "input_ok i"
    and r: "run_earley e False g i = Some (Ran s)"
  shows "\<exists>i'. chart_ok g (tat (conv e) None i) i' s \<and> tat (conv e) None i = tat (conv e) None i'"
proof -
  let ?ch = "tat (conv e) None i" let ?s0 = "initial_chart e False g i"
  have s0: "chart_ok g ?ch i ?s0" using g by (simp add: chart_ok_def initial_chart_def sets_ok_def waits_ok_def)
  obtain t s1 where q: "fold (seed e) (seeds g (start_lit e g)) ([], ?s0) = (t, s1)" by fastforce
  have "\<forall>pc \<in> set (seeds g (start_lit e g)). pc_ok (gr ?s0) pc"
    using pcs_ok[OF g] by (simp add: seeds_def initial_chart_def)
  then have 1: "same_core ?s0 s1" "items_ok g ?ch t"
    using seeds_ok[OF e s0 _ _ q] by (auto simp: items_ok_def initial_chart_def)
  have "inp s1 = i" "gr s1 = g" using 1(1) by (simp_all add: same_core_def initial_chart_def)
  moreover have "run_positions e t [] s1 = Some (Ran s)" using r q by (simp add: run_earley_def)
  moreover have "run_ok g ?ch (inp s1) (t, [], s1)"
    using calculation(1,2) same_core_ok[OF 1(1) s0] 1(2) by (simp add: run_ok_def ends_ok_def)
  moreover have "input_ok (inp s1)" "?ch = tat (conv e) None (inp s1)" using calculation(1) i by simp_all
  ultimately show ?thesis by (blast intro: run_positions_ok[OF e])
qed


section \<open>Soundness\<close>

text \<open>The productions a parse appended add no derivation, as long as the character -1 is read at
  the end only: the scan of -1 passes it, the class of the end of the input does not.\<close>

lemma spans_collapse:
  assumes "spans g' ch ls i j" "grows g g'" "j \<le> n" "\<forall>k < n. ch k \<noteq> -1"
  shows "spans g ch ls i j"
  using assms
proof (induction rule: spans.induct)
  case (spans_nt m b i k ls j)
  have kj: "k \<le> j" "spans g ch ls k j" using spans_le[OF spans_nt(3)] spans_nt by auto
  have b: "spans g ch b i k" using spans_nt.IH(1) kj(1) spans_nt.prems by simp
  show ?case
  proof (cases "(Nt m, [Lits False b]) \<in> set (prods g)")
    case True
    then show ?thesis using b kj(2) by (rule spans.spans_nt)
  next
    case False
    then have "class_production g (Nt m, [Lits False b])"
      using spans_nt(1) spans_nt.prems(1) by (auto simp: grows_def)
    then obtain c where c: "b = [Tm c]"
      "m = eof_fn (cc_fns g) \<and> is_eof c \<or> (\<exists>f. fns (cc_fns g) m = Some f \<and> f c)"
      by (auto simp: class_production_def)
    from b[unfolded c(1)] have k: "c = ch i" "k = i + (if ch i = 0 then 0 else 1)"
      by (auto elim!: spans_TmE spans_NilE)
    have "ch i \<noteq> -1" if "k \<noteq> i"
      using k that kj(1) spans_nt.prems by (auto split: if_splits)
    then have "k = (if is_eof (ch i) then i else i + 1)"
      using k by (auto simp: is_eof_def split: if_splits)
    then show ?thesis using c(2) k kj(2) by (auto simp: is_eof_def intro: spans_class spans_eof)
  qed
next
  case (spans_class m f i ls j)
  then show ?case by (intro spans.spans_class[of g m f]) (auto simp: grows_def)
next
  case (spans_eof m i ls j)
  then show ?case by (intro spans.spans_eof) (auto simp: grows_def)
next
  case (spans_tm ls i j)
  then show ?case by (intro spans.spans_tm) auto
qed (auto intro: spans.intros)

lemma found_spans:
  assumes s: "chart_ok g ch i s" and f: "found e s"
  shows "spans (gr s) ch [start_lit e g] 0 (tp (inp s))"
proof -
  note d = chart_okD[OF s]
  obtain p where p: "p \<in> set (prod_ids_of_literal (gr s) (start_lit e (gr s)))" "found_conjs s p"
    using f by (auto simp: found_def list_ex_iff)
  have pk: "p < gsize (gr s)" "head (gr s) p = start_lit e (gr s)"
    using prod_ids_ok[OF _ p(1)] d(1) by (simp_all add: plain_grammar_def)
  obtain b where b: "body (gr s) p = [Lits False b]" using plain_body[OF d(1) pk(1)] by metis
  let ?x = "mk_item (tp (inp s)) p 0 0 (len (gr s) p 0)"
  have "in_S s ?x" using p(2) b by (simp add: found_conjs_def n_conjs_def)
  then have "item_ok (gr s) ch ?x" using vget_sets[OF d(4)] by (simp add: in_S_def)
  moreover have "completed (gr s) ?x" by (simp add: completed_def mk_item_def n_literals_def len_def)
  ultimately have "spans (gr s) ch [get_nt (gr s) ?x] 0 (tp (inp s))"
    using item_ok_completed[OF d(1), of ch ?x] by (simp add: mk_item_def)
  moreover have "get_nt (gr s) ?x = start_lit e g"
    using pk(2) s by (auto simp: get_nt_def mk_item_def start_lit_def chart_ok_def grows_def)
  ultimately show ?thesis by simp
qed

text \<open>C3: a run that ends and accepts proves a derivation: on a grammar without conjunction and
  negation, without dynamic productions and with any setting of the garbage collection, an input
  whose end is reached with the start symbol completed is one the start symbol derives from
  position 0 to the end. The character -1 is read at the end only.\<close>

theorem accepted_is_derived:
  assumes "plain_env e" and "plain_grammar g" and "input_ok i"
    and "run_earley e False g i = Some (Ran s)" and "found e s"
    and "\<forall>k < tp (inp s). tat (conv e) None i k \<noteq> -1"
  shows "spans g (tat (conv e) None i) [start_lit e g] 0 (tp (inp s))"
proof -
  obtain i' where s: "chart_ok g (tat (conv e) None i) i' s" using run_earley_ok[OF assms(1-4)] by blast
  have "grows g (gr s)" using s by (simp add: chart_ok_def)
  from spans_collapse[OF found_spans[OF s assms(5)] this order_refl assms(6)] show ?thesis .
qed

text \<open>A grammar to apply it to: \<open>s => d s | d\<close>, where \<open>d\<close> is the class of 5 and 6 and the end of
  the input is -1.\<close>

definition no_shaping :: shaping_options where
  "no_shaping = \<lparr>to_trim = {}, to_trim_children = {}, to_trim_children_terminals = {},
     trim_terminals = False, dont_trim_terminals_of = {}, to_inline = [], inline_char_classes = False\<rparr>"

definition plain_opts :: "'t grammar_opts" where
  "plain_opts = \<lparr>transform_negation = False, auto_disambiguate = False, nodisambig_list = {},
     shaping = no_shaping, enabled_guards = {}, opt_dynamic = [], opt_derive_char_classes = False\<rparr>"

definition digits_grammar :: "int grammar" where
  "digits_grammar =
     \<lparr>opt = plain_opts, nts = [''s'', ''d'', ''eof''], start = Nt 0,
      cc_fns = \<lparr>fns = [1 \<mapsto> (\<lambda>c. c = 5 \<or> c = 6)], ps = (\<lambda>_ _. None), derived = {}, eof_fn = 2\<rparr>,
      ntsm = (\<lambda>_. [])(Nt 0 := [0, 1]), ntsm_by_nt = [[0, 1], [], []], grdm = Map.empty,
      guards = [], nullables = {}, conjunctives = {},
      prods = [(Nt 0, [Lits False [Nt 1, Nt 0]]), (Nt 0, [Lits False [Nt 1]])],
      source_productions = 2, cc_char_prods = (\<lambda>_ _. None), cc_char_prod_ids = {},
      cc_ps_states = (\<lambda>_ _ _. None), cc_active_guards = Map.empty, cc_prod_exprs = Map.empty,
      cc_inner_nts = {}, cc_excluded_nts = {}, cc_source_prods = (\<lambda>_. []), dynamic = Map.empty,
      dynamic_idx = [], pending = [], active_grow = (0, 0)\<rparr>"

definition digits_env :: "bool \<Rightarrow> (int, int) env" where
  "digits_env collect =
     \<lparr>conv = id, dec = None, binarize = False, dynamic_grow_nts = [], on_dynamic_grow = None,
      po_start = SIZE_MAX, enable_gc = collect, gc_lag = 1, dops = dense_std\<rparr>"

definition digits_input :: "int list \<Rightarrow> (int, int) input" where
  "digits_input cs = input_of_pointer cs 0 (-1)"

definition accepts :: "('c, 't::comm_ring_1) env \<Rightarrow> 't grammar \<Rightarrow> ('c, 't) input \<Rightarrow> nat \<Rightarrow> bool" where
  "accepts e g i n \<longleftrightarrow>
     (case run_earley e False g i of Some (Ran s) \<Rightarrow> found e s \<and> tp (inp s) = n | _ \<Rightarrow> False)"

declare run_positions.simps [code] position_loop.simps [code]

lemma digits_accepted: "accepts (digits_env False) digits_grammar (digits_input [5, 6]) 2"
  by code_simp

lemma digits_rejected: "\<not> accepts (digits_env False) digits_grammar (digits_input [5, 7]) 2"
  by code_simp

lemma digits_plain: "plain_env (digits_env b)" "plain_grammar digits_grammar" "input_ok (digits_input cs)"
proof -
  show "plain_env (digits_env b)" by (simp add: plain_env_def digits_env_def dense_std.dense_set_axioms)
  show "plain_grammar digits_grammar"
    by (auto simp: plain_grammar_def digits_grammar_def plain_def caches_ok_def gsize_def head_def
        less_Suc_eq numeral_eq_Suc)
  show "input_ok (digits_input cs)" by (simp add: digits_input_def input_ok_pointer)
qed

theorem accepted_is_derived_witness:
  "spans digits_grammar (\<lambda>k. if k = 0 then 5 else if k = 1 then 6 else -1) [Nt 0] 0 2"
proof -
  obtain s where s: "run_earley (digits_env False) False digits_grammar (digits_input [5, 6]) = Some (Ran s)"
    "found (digits_env False) s" "tp (inp s) = 2"
    using digits_accepted by (auto simp: accepts_def split: option.splits run_end.splits)
  have ch: "tat (conv (digits_env False)) None (digits_input [5, 6]) = (\<lambda>k. if k = 0 then 5 else if k = 1 then 6 else -1)"
    by (auto simp: fun_eq_iff tat_def char_at_def digits_input_def input_of_pointer_def digits_env_def less_Suc_eq nth_Cons')
  have "start_lit (digits_env False) digits_grammar = Nt 0"
    by (simp add: start_lit_def digits_env_def digits_grammar_def)
  then show ?thesis
    using accepted_is_derived[OF digits_plain s(1,2)] s(3) unfolding ch by simp
qed

end
