(* ===== verification/Termination.thy ===== *)
theory Termination
  imports Soundness
begin

text \<open>
  Termination of the recognizer of \<open>Earley\<close> on grammars without conjunction and negation: the
  loop at a position ends because every round but the last adds an item of a finite set, and the
  outer loop because the input is finite. The set is finite because a parse appends at most one
  production for each class of the grammar at a position.
\<close>

section \<open>What the operations add\<close>

definition adds :: "nat \<Rightarrow> ('c, 't) chart \<Rightarrow> item list \<Rightarrow> item list \<Rightarrow> bool" where
  "adds n s t t' \<longleftrightarrow> (\<forall>y \<in> set t'. y \<in> set t \<or> i_set y = n \<and> \<not> in_S s y)"

lemma adds_refl [simp]: "adds n s t t"
  by (simp add: adds_def)

lemma adds_trans: "adds n s t t' \<Longrightarrow> adds n s t' t'' \<Longrightarrow> adds n s t t''"
  unfolding adds_def by blast

lemma adds_core: "same_core s s' \<Longrightarrow> adds n s' t t' \<Longrightarrow> adds n s t t'"
  by (simp add: adds_def in_S_def same_core_def)

lemma adds_memo [simp]: "adds n (s\<lparr>complete_memo := m\<rparr>) t t' = adds n s t t'"
  by (simp add: adds_def in_S_def)

lemma add_adds:
  assumes "plain_env e" "\<not> any_conj s" "add e x t s = (b, t', s')"
  shows "s' = s \<and> adds (i_set x) s t t'"
  using assms
proof (induction e x t s arbitrary: b t' s' rule: add.induct)
  case (1 e x t s)
  note r = "1.prems"(3)
  have d: "set (d_insert (dops e) x t) = insert x (set t)" and c: "dynamic_grow_nts e = []"
    using "1.prems"(1) by (simp_all add: plain_env_def dense_set.set_insert)
  have carry: "carry_span e x y s = s" for y using c by (simp add: carry_span_def)
  show ?case
  proof (cases "in_U s x \<or> in_S s x \<or> x \<in> set t")
    case True
    then show ?thesis using r "1.prems"(2) by (subst (asm) add.simps) (auto simp: Let_def)
  next
    case False
    have t1: "adds (i_set x) s t (d_insert (dops e) x t)" using False d by (simp add: adds_def)
    show ?thesis
    proof (cases "nullable_item (gr s) x")
      case True
      obtain b2 t2 s2 where a: "add e (x\<lparr>i_dot := i_dot x + 1\<rparr>) (d_insert (dops e) x t) s = (b2, t2, s2)"
        by (rule prod_cases3)
      have "s2 = s \<and> adds (i_set x) s (d_insert (dops e) x t) t2"
        using "1.IH"[OF refl _ refl True refl, of b2 t2 s2] False "1.prems"(1,2) a carry by simp
      then show ?thesis using r False True a carry "1.prems"(2) adds_trans[OF t1]
        by (subst (asm) add.simps) (simp add: Let_def)
    next
      case nn: False
      then show ?thesis using r False t1 "1.prems"(2) by (subst (asm) add.simps) (auto simp: Let_def)
    qed
  qed
qed

lemma complete_waiter_adds:
  assumes e: "plain_env e" and s: "chart_ok g0 ch i s"
    and r: "complete_waiter e b x we (t, c, s) = (t', c', s')"
  shows "adds (i_set x) s t t'"
proof (cases "fst we = dead_wait \<or> fst we \<noteq> lit_n (get_nt (gr s) x) \<or> n_literals (gr s) (snd we) \<le> i_dot (snd we) \<or>
    \<not> in_S s (snd we) \<and> \<not> in_U s (snd we)")
  case True
  then show ?thesis using r by (auto simp: complete_waiter_def Let_def split: if_splits)
next
  case False
  let ?it = "snd we" let ?j = "?it\<lparr>i_dot := i_dot ?it + 1, i_set := i_set x\<rparr>"
  note d = chart_okD[OF s]
  obtain ins t1 s1 where a: "add e ?j t s = (ins, t1, s1)" by (rule prod_cases3)
  have s1: "s1 = s" "adds (i_set x) s t t1" using add_adds[OF e d(2) a] by simp_all
  have plain: "advance_span e x ?it ?j s = s" "\<not> conjunctive (gr s) (i_prod ?j)" "record_deps x ?it ?j k s = s" for k
    using e d(1,2) by (simp_all add: advance_span_def plain_env_def conjunctive_def plain_grammar_def record_deps_def)
  have "t' = t1"
    using r False plain a s1(1) by (cases "in_S s ?it") (auto simp: complete_waiter_def Let_def)
  then show ?thesis using s1(2) by simp
qed

lemma complete_fold_adds:
  assumes "plain_env e" "chart_ok g0 ch i s" "item_ok (gr s) ch x" "completed (gr s) x" "items_ok (gr s) ch t"
    "\<forall>we \<in> set ws. fst we \<noteq> dead_wait \<longrightarrow> waiting (gr s) ch (fst we) (i_from x) (snd we)"
    "fold (complete_waiter e b x) ws (t, c, s) = (t', c', s')"
  shows "adds (i_set x) s t t'"
  using assms
proof (induction ws arbitrary: t c s)
  case (Cons we ws)
  obtain t1 c1 s1 where r: "complete_waiter e b x we (t, c, s) = (t1, c1, s1)" by (rule prod_cases3)
  have 1: "same_core s s1" "items_ok (gr s) ch t1"
    using complete_waiter_ok[OF Cons.prems(1-5) _ r] Cons.prems(6) by auto
  have g: "gr s1 = gr s" using 1(1) by (simp add: same_core_def)
  have "adds (i_set x) s1 t1 t'"
    using Cons.IH[OF Cons.prems(1) same_core_ok[OF 1(1) Cons.prems(2)], of t1 c1] Cons.prems 1 g r by simp
  then show ?case
    using adds_trans[OF complete_waiter_adds[OF Cons.prems(1,2) r] adds_core[OF 1(1)]] by simp
qed simp

lemma complete_adds:
  assumes e: "plain_env e" and s: "chart_ok g0 ch i s" and x: "item_ok (gr s) ch x" "completed (gr s) x"
    and t: "items_ok (gr s) ch t" and r: "complete e b x (t, c, s) = (t', c', s')"
  shows "adds (i_set x) s t t'"
proof -
  let ?vec = "vget (i_from x) (wait s)" and ?k = "complete_memo s x"
  let ?s = "s\<lparr>complete_memo := (complete_memo s)(x := length ?vec)\<rparr>"
  note d = chart_okD[OF s]
  obtain ins t1 s1 where a: "add e x t s = (ins, t1, s1)" by (rule prod_cases3)
  have t1: "s1 = s" "adds (i_set x) s t t1" "items_ok (gr s) ch t1"
    using add_adds[OF e d(2) a] add_ok[OF e d(1,2) x(1) t a] by auto
  have "(t', c', s') = (if ?k \<ge> length ?vec then (t1, c, s) else fold (complete_waiter e b x) (drop ?k ?vec) (t1, c, ?s))"
    using complete_plain[OF e s a[unfolded t1(1)]] r by simp
  moreover have "adds (i_set x) s t1 t'"
    if "fold (complete_waiter e b x) (drop ?k ?vec) (t1, c, ?s) = (t', c', s')"
    using complete_fold_adds[OF e same_core_ok[OF same_core_updates(3) s], of _ x t1] x t1 waiters_ok[OF s, of ?k "i_from x"] that by simp
  ultimately show ?thesis using adds_trans[OF t1(2)] t1(2) by (auto split: if_splits)
qed

subsection \<open>Predict\<close>

lemma predict_one_adds:
  assumes e: "plain_env e" and s: "chart_ok g0 ch i s" and x: "open_item (gr s) ch x"
    and r: "predict_one e x c [] pc (t, s) = (t', s')"
  shows "adds (i_set x) s t t' \<and> S s' = S s"
proof -
  let ?l = "get_lit (gr s) x"
  let ?s = "if snd pc = 0 \<and> is_nt ?l then cache_insert (lit_n ?l) (i_set x) x s else s"
  let ?j = "mk_item (i_set x) (fst pc) (snd pc) (i_set x) 0"
  have s1: "chart_ok g0 ch i ?s" "S ?s = S s" using chart_ok_wait[OF s open_waiting[OF x]] s
    by (auto simp: cache_insert_def Let_def)
  obtain b t2 s2 where a: "add e ?j t ?s = (b, t2, s2)" by (rule prod_cases3)
  have 2: "s2 = ?s" "adds (i_set x) ?s t t2"
    using add_adds[OF e chart_okD(2)[OF s1(1)] a] by (simp_all add: mk_item_def)
  have "adds (i_set x) s t t2" using 2(2) s1(2) by (simp add: adds_def in_S_def)
  moreover have "(t', s') = (if \<not> first_can_match (gr s) (fst pc) (snd pc) c then (t, ?s)
        else (t2, if enable_gc e then incr_ref x ?s else ?s))"
    using r a 2(1) by (cases "snd pc = 0"; cases "is_nt ?l")
      (auto simp: predict_one_def Let_def split_beta split: if_splits)
  ultimately show ?thesis using s1(2) by (auto simp: incr_ref_def split: if_splits)
qed

lemma predict_fold_adds:
  assumes "plain_env e" "chart_ok g0 ch i s" "open_item (gr s) ch x" "items_ok (gr s) ch t"
    "\<forall>pc \<in> set pcs. pc_ok (gr s) pc" "fold (predict_one e x c []) pcs (t, s) = (t', s')"
  shows "adds (i_set x) s t t' \<and> S s' = S s"
  using assms
proof (induction pcs arbitrary: t s)
  case (Cons pc pcs)
  obtain t1 s1 where r: "predict_one e x c [] pc (t, s) = (t1, s1)" by fastforce
  have 1: "chart_ok g0 ch i s1 \<and> gr s1 = gr s \<and> items_ok (gr s) ch t1"
    using predict_one_ok[OF Cons.prems(1-4) _ r] Cons.prems(5) by simp
  have 2: "adds (i_set x) s t t1" "S s1 = S s" using predict_one_adds[OF Cons.prems(1-3) r] by simp_all
  have "adds (i_set x) s1 t1 t' \<and> S s' = S s1"
    using Cons.IH[OF Cons.prems(1), of s1 t1] Cons.prems r 1 by simp
  then show ?case using 2 adds_trans[OF 2(1), of t'] by (simp add: adds_def in_S_def)
qed simp

lemma predict_adds:
  assumes e: "plain_env e" and s: "chart_ok g0 ch i s" and x: "open_item (gr s) ch x"
    and t: "items_ok (gr s) ch t" and r: "predict e x c (t, s) = (t', s')"
  shows "adds (i_set x) s t t' \<and> S s' = S s"
  using predict_fold_adds[OF e s x t pcs_ok[OF chart_okD(1)[OF s]] predict_plain[OF e r]] .


subsection \<open>Scan\<close>

text \<open>\<open>grown A n s s'\<close>: the set of a position keeps what it has.\<close>

lemma vget_vresize [simp]: "vget n (vresize k xss) = vget n xss"
  by (auto simp: vget_def vresize_def nth_append)

lemma length_vresize: "length xss \<le> length (vresize k xss)"
  by (simp add: vresize_def)

definition S_grows :: "nat \<Rightarrow> ('c, 't) chart \<Rightarrow> ('c, 't) chart \<Rightarrow> bool" where
  "S_grows n s s' \<longleftrightarrow> set (vget n (S s)) \<subseteq> set (vget n (S s')) \<and> length (S s) \<le> length (S s')"

lemma S_grows_refl [simp]: "S_grows n s s"
  by (simp add: S_grows_def)

lemma S_grows_trans: "S_grows n s s' \<Longrightarrow> S_grows n s' s'' \<Longrightarrow> S_grows n s s''"
  by (auto simp: S_grows_def)

lemma S_grows_core: "same_core s s' \<Longrightarrow> S_grows n s s'"
  by (simp add: S_grows_def same_core_def)

lemma vget_update: "vget n (xss[k := ys]) = (if n = k \<and> k < length xss then ys else vget n xss)"
  by (auto simp: vget_def)

lemma S_insert_grows: "plain_env e \<Longrightarrow> S_grows n s (S_insert e x s)"
  by (auto simp: S_grows_def S_insert_def vget_update plain_env_def dense_set.set_insert)

lemma scan_grows:
  assumes e: "plain_env e" and s: "\<not> any_conj s"
  shows "S_grows n s (scan e x k c s)"
proof -
  let ?j = "mk_item (k + (if c = 0 then 0 else 1)) (i_prod x) (i_con x) (i_from x) (i_dot x + 1)"
  show ?thesis
  proof (cases "c = lit_t (get_lit (gr s) x)")
    case False
    have "same_core s (scan e x k c s)"
      using False by (auto simp: scan_def Let_def simp del: remove_item.simps split: option.splits
        intro: same_core_remove_item same_core_trans[OF same_core_updates(1) same_core_remove_item])
    then show ?thesis by (rule S_grows_core)
  next
    case True
    let ?s = "if \<not> binarize e \<and> enable_gc e then s\<lparr>gcready := d_insert (dops e) x (gcready s)\<rparr> else s"
    let ?s1 = "?s\<lparr>S := vresize (i_set ?j + 1) (S ?s)\<rparr>"
    have "\<not> any_conj (S_insert e ?j ?s1)" using s by (simp add: S_insert_def)
    then have "scan e x k c s = (if in_S ?s1 ?j then ?s1 else S_insert e ?j ?s1)"
      using True e by (simp add: scan_def Let_def plain_env_def)
    moreover have "S_grows n s ?s1" by (simp add: S_grows_def length_vresize)
    ultimately show ?thesis using S_grows_trans[OF _ S_insert_grows[OF e]] by simp
  qed
qed

definition ends_at :: "nat \<Rightarrow> item list \<Rightarrow> bool" where
  "ends_at n c \<longleftrightarrow> (\<forall>x \<in> set c. i_set x = n)"

lemma scan_cc_found_grows:
  assumes e: "plain_env e" and r: "scan_cc_found e x k b q p (c, s) = (c', s')"
  shows "S_grows n s s' \<and> (ends_at k c \<longrightarrow> (q \<longrightarrow> is_eof b) \<longrightarrow> ends_at k c') \<and> gr s' = gr s"
proof -
  let ?s1 = "if is_nt (get_lit (gr s) x) then cache_insert (lit_n (get_lit (gr s) x)) (i_set x) x s else s"
  let ?n = "if is_eof b then k else k + 1"
  let ?k = "mk_item ?n p 0 (?n - (if is_eof b then 0 else 1)) 1"
  have "S ?s1 = S s" by (simp add: cache_insert_def Let_def)
  then have "S_grows n s (S_add e ?k ?s1)"
    using S_insert_grows[OF e, of n "?s1\<lparr>S := vresize (i_set ?k + 1) (S ?s1)\<rparr>" ?k] length_vresize[of "S s" "i_set ?k + 1"]
    by (simp add: S_add_def S_grows_def)
  moreover have "(c', s') = (if q then d_insert (dops e) ?k c else c,
      if \<not> binarize e \<and> enable_gc e
      then (S_add e ?k ?s1)\<lparr>gcready := d_insert (dops e) x (gcready (S_add e ?k ?s1))\<rparr> else S_add e ?k ?s1)"
    using r by (simp add: scan_cc_found_def Let_def cong: if_cong)
  moreover have "gr (S_add e ?k ?s1) = gr s" by (simp add: S_add_def S_insert_def)
  moreover have "set (d_insert (dops e) ?k c) = insert ?k (set c)"
    using e by (simp add: plain_env_def dense_set.set_insert)
  ultimately show ?thesis by (auto simp: S_grows_def ends_at_def mk_item_def)
qed

lemma scan_cc_function_grows:
  assumes e: "plain_env e" and r: "scan_cc_function e x k b (c, s) = (c', s')" and c: "ends_at k c"
  shows "S_grows n s s' \<and> ends_at k c'"
proof -
  let ?l = "get_lit (gr s) x"
  have frame: "S_grows n (s\<lparr>gr := g\<rparr>) s' = S_grows n s s'" for g by (simp add: S_grows_def)
  obtain p g where q: "eof_production ?l b (gr s) = (p, g)" by fastforce
  obtain o' g' where q': "get_char_class_production ?l b (gr s) = (o', g')" by fastforce
  show ?thesis
    using r q q' c scan_cc_found_grows[OF e, where n = n and k = k and b = b and x = x and c = c and c' = c' and s' = s'] frame
    by (cases o') (fastforce simp: scan_cc_function_def Let_def S_grows_def split: if_splits)+
qed


section \<open>Room for class productions\<close>

text \<open>\<open>room N c g\<close> bounds how many productions for the character \<open>c\<close> the classes in \<open>N\<close> can still
  append: one for every class without a cached production, one for the end of the input.\<close>

definition eof_ready :: "('t, 'z) grammar_scheme \<Rightarrow> 't \<Rightarrow> bool" where
  "eof_ready g c \<longleftrightarrow> prod_ids_of_literal g (Nt (eof_fn (cc_fns g))) \<noteq> [] \<or>
     is_derived (cc_fns g) (eof_fn (cc_fns g)) \<and> cc_char_prods g (eof_fn (cc_fns g)) c \<noteq> None"

definition open_classes :: "nat set \<Rightarrow> 't \<Rightarrow> ('t, 'z) grammar_scheme \<Rightarrow> nat set" where
  "open_classes N c g = {m \<in> N. m \<noteq> eof_fn (cc_fns g) \<and> ps (cc_fns g) m c = None}"

definition room :: "nat set \<Rightarrow> 't \<Rightarrow> ('t, 'z) grammar_scheme \<Rightarrow> nat" where
  "room N c g = card (open_classes N c g) + (if eof_ready g c then 0 else 1)"

definition few_ends :: "('t, 'z) grammar_scheme \<Rightarrow> bool" where
  "few_ends g \<longleftrightarrow> length (prod_ids_of_literal g (Nt (eof_fn (cc_fns g)))) \<le> 1"

definition bodies_within :: "nat set \<Rightarrow> nat \<Rightarrow> ('t, 'z) grammar_scheme \<Rightarrow> bool" where
  "bodies_within N L g \<longleftrightarrow> (\<forall>pr \<in> set (prods g). \<forall>a \<in> set (snd pr).
     length (seq a) \<le> L \<and> (\<forall>m. Nt m \<in> set (seq a) \<longrightarrow> m \<in> N))"

definition within :: "nat set \<Rightarrow> nat \<Rightarrow> nat \<Rightarrow> 't \<Rightarrow> ('t, 'z) grammar_scheme \<Rightarrow> bool" where
  "within N L B c g \<longleftrightarrow> finite N \<and> 1 \<le> L \<and> gsize g + room N c g \<le> B \<and> few_ends g \<and> bodies_within N L g"

lemma vget_vinsert: "vget k (vinsert n i xs) = (if k = n then sinsert (<) i (vget n xs) else vget k xs)"
  by (auto simp: vget_def vinsert_def Let_def nth_append)

lemma prod_ids_link:
  "prod_ids_of_literal (link_prod (Nt m) i g) (Nt k) =
     (if k = m then sinsert (<) i (prod_ids_of_literal g (Nt m)) else prod_ids_of_literal g (Nt k))"
  by (simp add: prod_ids_of_literal_def link_prod_def vget_vinsert)

lemma prod_ids_set_accept: "prod_ids_of_literal (set_accept m c i g) l = prod_ids_of_literal g l"
  by (cases l) (simp_all add: prod_ids_of_literal_def set_accept_def)

lemma prod_ids_cong:
  "ntsm g' = ntsm g \<Longrightarrow> ntsm_by_nt g' = ntsm_by_nt g \<Longrightarrow> prod_ids_of_literal g' l = prod_ids_of_literal g l"
  by (simp add: prod_ids_of_literal_def split: lit.splits)

lemma bodies_append:
  "bodies_within N L g \<Longrightarrow> prods g' = prods g @ [(l, [Lits False [Tm c]])] \<Longrightarrow> 1 \<le> L \<Longrightarrow> bodies_within N L g'"
  by (auto simp: bodies_within_def)

lemma bodies_same: "bodies_within N L g \<Longrightarrow> prods g' = prods g \<Longrightarrow> bodies_within N L g'"
  by (simp add: bodies_within_def)

text \<open>The cases of \<open>add_char_class_production\<close>.\<close>

lemma add_production_cases:
  assumes "add_char_class_production (Nt m) c g = (i, g')"
  obtains (cached) "is_derived (cc_fns g) m" "cc_char_prods g m c = Some i" "g' = set_accept m c i g"
  | (derived) "is_derived (cc_fns g) m" "cc_char_prods g m c = None" "i = gsize g"
    "g' = set_accept m c i (g\<lparr>prods := prods g @ [(Nt m, [Lits False [Tm c]])],
       cc_char_prods := (cc_char_prods g)(m := (cc_char_prods g m)(c \<mapsto> i)),
       cc_char_prod_ids := insert i (cc_char_prod_ids g)\<rparr>)"
  | (linked) "\<not> is_derived (cc_fns g) m" "i = gsize g"
    "g' = set_accept m c i (link_prod (Nt m) i (g\<lparr>prods := prods g @ [(Nt m, [Lits False [Tm c]])]\<rparr>))"
proof (cases "is_derived (cc_fns g) m")
  case True
  then show thesis using assms cached derived
    by (cases "cc_char_prods g m c") (auto simp: add_char_class_production_def Let_def)
next
  case False
  then show thesis using assms linked by (auto simp: add_char_class_production_def Let_def)
qed

lemma open_classes_accept:
  assumes "finite N" "m \<in> N" "m \<noteq> eof_fn (cc_fns g)" "ps (cc_fns g) m c = None"
    "cc_fns g' = (cc_fns g)\<lparr>ps := (ps (cc_fns g))(m := (ps (cc_fns g) m)(c \<mapsto> i))\<rparr>"
  shows "card (open_classes N c g') + 1 \<le> card (open_classes N c g)"
proof -
  have "open_classes N c g' = open_classes N c g - {m}" "m \<in> open_classes N c g" "finite (open_classes N c g)"
    using assms by (auto simp: open_classes_def split: if_splits)
  then show ?thesis using card_Suc_Diff1[of "open_classes N c g" m] by simp
qed

lemma within_class:
  assumes w: "within N L B c g" and m: "m \<in> N" "m \<noteq> eof_fn (cc_fns g)"
    and r: "get_char_class_production (Nt m) c g = (x, g')"
  shows "within N L B c g'"
proof (cases "ps (cc_fns g) m c = None \<and> (\<exists>f. fns (cc_fns g) m = Some f \<and> f c)")
  case False
  then have "g' = g" using r
    by (auto simp: get_char_class_production_def split: option.splits if_splits)
  then show ?thesis using w by simp
next
  case True
  then obtain i where a: "add_char_class_production (Nt m) c g = (i, g')"
    using r by (auto simp: get_char_class_production_def split: prod.splits)
  have fin: "finite N" and L: "1 \<le> L" and b: "bodies_within N L g" and B: "gsize g + room N c g \<le> B" and f: "few_ends g"
    using w by (simp_all add: within_def)
  note oc = open_classes_accept[OF fin m, of c]
  from a show ?thesis
  proof (cases rule: add_production_cases)
    case cached
    have "card (open_classes N c g') + 1 \<le> card (open_classes N c g)"
      using oc[of g' i] True cached(3) by (simp add: set_accept_def)
    moreover have "eof_ready g' c = eof_ready g c" "few_ends g'" "gsize g' = gsize g" "prods g' = prods g"
      using cached(3) f by (simp_all add: eof_ready_def few_ends_def prod_ids_set_accept gsize_def)
        (simp_all add: set_accept_def is_derived_def prod_ids_of_literal_def)
    ultimately show ?thesis using fin L B bodies_same[OF b] by (simp add: within_def room_def)
  next
    case derived
    have "card (open_classes N c g') + 1 \<le> card (open_classes N c g)"
      using oc[of g' i] True derived(4) by (simp add: set_accept_def)
    moreover have "eof_ready g' c = eof_ready g c" "few_ends g'" "gsize g' = gsize g + 1"
      using derived(4) f m(2)
      by (simp_all add: eof_ready_def few_ends_def set_accept_def is_derived_def prod_ids_of_literal_def gsize_def)
    moreover have "bodies_within N L g'"
      using bodies_append[OF b _ L, of g' "Nt m" c] derived(4) by (simp add: set_accept_def)
    ultimately show ?thesis using fin L B by (simp add: within_def room_def)
  next
    case linked
    have "card (open_classes N c g') + 1 \<le> card (open_classes N c g)"
      using oc[of g' i] True linked(3) by (simp add: set_accept_def link_prod_def)
    moreover have "prod_ids_of_literal g' (Nt (eof_fn (cc_fns g))) = prod_ids_of_literal g (Nt (eof_fn (cc_fns g)))"
      using linked(3) m(2) by (simp add: prod_ids_set_accept prod_ids_link) (simp add: prod_ids_of_literal_def)
    then have "eof_ready g' c = eof_ready g c" "few_ends g'" "gsize g' = gsize g + 1"
      using linked(3) f by (simp_all add: eof_ready_def few_ends_def set_accept_def link_prod_def is_derived_def gsize_def)
    moreover have "bodies_within N L g'"
      using bodies_append[OF b _ L, of g' "Nt m" c] linked(3) by (simp add: set_accept_def link_prod_def)
    ultimately show ?thesis using fin L B by (simp add: within_def room_def)
  qed
qed

lemma within_eof:
  assumes w: "within N L B c g" and m: "m = eof_fn (cc_fns g)"
    and r: "eof_production (Nt m) c g = (p, g')"
  shows "within N L B c g'"
proof (cases "prod_ids_of_literal g (Nt m)")
  case (Cons q qs)
  then have "qs = []" using w m by (simp add: within_def few_ends_def)
  then have "g' = g" using r Cons by (simp add: eof_production_def)
  then show ?thesis using w by simp
next
  case Nil
  then have a: "add_char_class_production (Nt m) c g = (p, g')" using r by (simp add: eof_production_def)
  have fin: "finite N" and L: "1 \<le> L" and b: "bodies_within N L g" and B: "gsize g + room N c g \<le> B" and f: "few_ends g"
    using w by (simp_all add: within_def)
  from a show ?thesis
  proof (cases rule: add_production_cases)
    case cached
    have "open_classes N c g' = open_classes N c g" "eof_ready g' c = eof_ready g c" "few_ends g'"
      "gsize g' = gsize g" "prods g' = prods g"
      using cached(3) f m by (auto simp: open_classes_def eof_ready_def few_ends_def set_accept_def
          is_derived_def prod_ids_of_literal_def gsize_def)
    then show ?thesis using fin L B bodies_same[OF b] by (simp add: within_def room_def)
  next
    case derived
    have "\<not> eof_ready g c" using Nil derived(2) m by (simp add: eof_ready_def)
    moreover have "open_classes N c g' = open_classes N c g" "eof_ready g' c" "few_ends g'" "gsize g' = gsize g + 1"
      using derived(1,4) f m by (auto simp: open_classes_def eof_ready_def few_ends_def set_accept_def
          is_derived_def prod_ids_of_literal_def gsize_def)
    moreover have "bodies_within N L g'"
      using bodies_append[OF b _ L, of g' "Nt m" c] derived(4) by (simp add: set_accept_def)
    ultimately show ?thesis using fin L B by (simp add: within_def room_def)
  next
    case linked
    have "\<not> eof_ready g c" using Nil linked(1) m by (simp add: eof_ready_def)
    moreover have e: "eof_fn (cc_fns g') = m" using linked(3) m by (simp add: set_accept_def link_prod_def)
    moreover have "prod_ids_of_literal (g\<lparr>prods := prods g @ [(Nt m, [Lits False [Tm c]])]\<rparr>) (Nt m) = []"
      using Nil by (simp add: prod_ids_of_literal_def)
    then have "prod_ids_of_literal g' (Nt m) = [p]"
      using linked(3) by (simp add: prod_ids_set_accept prod_ids_link)
    then have "eof_ready g' c" "few_ends g'" using e by (simp_all add: eof_ready_def few_ends_def)
    moreover have "open_classes N c g' = open_classes N c g" "gsize g' = gsize g + 1"
      using linked(3) m by (auto simp: open_classes_def set_accept_def link_prod_def gsize_def)
    moreover have "bodies_within N L g'"
      using bodies_append[OF b _ L, of g' "Nt m" c] linked(3) by (simp add: set_accept_def link_prod_def)
    ultimately show ?thesis using fin L B by (simp add: within_def room_def)
  qed
qed


lemma scan_cc_within:
  assumes e: "plain_env e" and r: "scan_cc_function e x k b (c, s) = (c', s')"
    and l: "get_lit (gr s) x = Nt m" and m: "m \<in> N" and w: "within N L B b (gr s)"
  shows "within N L B b (gr s')"
proof -
  have fr: "gr s' = g" if "scan_cc_found e x k b q p (c, s\<lparr>gr := g\<rparr>) = (c', s')" for q p g
    using scan_cc_found_grows[OF e that, of k] by simp
  show ?thesis
  proof (cases "m = eof_fn (cc_fns (gr s))")
    case True
    obtain p g where q: "eof_production (Nt m) b (gr s) = (p, g)" by fastforce
    have "gr s' = gr s \<or> gr s' = g"
      using r l True q fr by (auto simp: scan_cc_function_def is_eof_fn_def split: if_splits)
    then show ?thesis using w within_eof[OF w True q] by auto
  next
    case False
    obtain o' g where q: "get_char_class_production (Nt m) b (gr s) = (o', g)" by fastforce
    have "gr s' = g"
      using r l False q fr by (cases o') (auto simp: scan_cc_function_def is_eof_fn_def)
    then show ?thesis using within_class[OF w m False q] by simp
  qed
qed

section \<open>A round\<close>

text \<open>Within a round the set of the position keeps the items \<open>A\<close> it had at the start, and what is
  in the container of added items is not one of them.\<close>

definition fresh :: "item set \<Rightarrow> nat \<Rightarrow> ('c, 't) run_state \<Rightarrow> bool" where
  "fresh A n r = (case r of (t, c, s) \<Rightarrow>
     n < length (S s) \<and> A \<subseteq> set (vget n (S s)) \<and> (\<forall>x \<in> set t. i_set x = n \<and> x \<notin> A) \<and> ends_at n c)"

lemma fresh_step:
  assumes "fresh A n (t, c, s)" "adds n s t t'" "S_grows n s s'" "ends_at n c'"
  shows "fresh A n (t', c', s')"
  using assms by (auto simp: fresh_def adds_def S_grows_def in_S_def)

lemma get_lit_within:
  assumes "bodies_within N L g" "item_ok g ch x" "i_dot x < n_literals g x" "get_lit g x = Nt m" "plain_grammar g"
  shows "m \<in> N"
proof -
  have x: "i_prod x < gsize g" "i_con x = 0" using assms(2) by (simp_all add: item_ok_def)
  obtain b where b: "body g (i_prod x) = [Lits False b]" using plain_body[OF assms(5) x(1)] by metis
  have "prods g ! i_prod x \<in> set (prods g)" using x(1) by (simp add: gsize_def)
  moreover have "Lits False b \<in> set (snd (prods g ! i_prod x))" using b by (simp add: body_def)
  moreover have "Nt m \<in> set b" using assms(3,4) x(2) b
    by (metis get_lit_def lits.sel(2) n_literals_def nth_Cons_0 nth_mem)
  ultimately show ?thesis using assms(1) by (force simp: bodies_within_def)
qed

lemma process_fresh:
  assumes e: "plain_env e" and r: "run_ok g0 ch i r" and x: "item_ok (run_gr r) ch x" "i_set x = n"
    and f: "fresh A n r" and w: "within N L B (ch n) (run_gr r)"
  shows "fresh A n (process e n (ch n) x r) \<and> within N L B (ch n) (run_gr (process e n (ch n) x r))"
proof -
  obtain t c s where rs: "r = (t, c, s)" by (rule prod_cases3)
  have s: "chart_ok g0 ch i s" "items_ok (gr s) ch t" "ends_ok (gr s) ch c" and x': "item_ok (gr s) ch x"
    and f': "fresh A n (t, c, s)" and c: "ends_at n c" and w': "within N L B (ch n) (gr s)"
    using r x(1) f w rs by (simp_all add: run_ok_def run_gr_def fresh_def)
  note d = chart_okD[OF s(1)]
  show ?thesis
  proof (cases "completed (gr s) x")
    case True
    obtain t' c' s' where q: "complete e False x (t, c, s) = (t', c', s')" by (rule prod_cases3)
    have k: "same_core s s'" "c' = c" using complete_ok[OF e s(1) x' True s(2) q] by simp_all
    have "fresh A n (t', c', s')"
      using fresh_step[OF f' _ S_grows_core[OF k(1)]] complete_adds[OF e s(1) x' True s(2) q] x(2) c k(2) by simp
    then show ?thesis using True q rs k w' by (simp add: process_def run_gr_def same_core_def)
  next
    case False
    then have o: "open_item (gr s) ch x" using x' by (auto simp: open_item_def item_ok_def completed_def)
    show ?thesis
    proof (cases "get_lit (gr s) x")
      case (Nt m)
      have mN: "m \<in> N"
        using get_lit_within[OF _ x' _ Nt d(1), of N L] o w' by (simp add: open_item_def within_def)
      show ?thesis
      proof (cases "is_cc_fn (gr s) m")
        case True
        obtain c' s' where q: "scan_cc_function e x n (ch n) (c, s) = (c', s')" by fastforce
        have "fresh A n (t, c', s')"
          using fresh_step[OF f' adds_refl] scan_cc_function_grows[OF e q c] by simp
        moreover have "within N L B (ch n) (gr s')" using scan_cc_within[OF e q Nt mN w'] .
        ultimately show ?thesis using False Nt True q rs by (simp add: process_def run_gr_def)
      next
        case cc: False
        obtain t' s' where q: "predict e x (ch n) (t, s) = (t', s')" by fastforce
        have "adds n s t t'" "S s' = S s" using predict_adds[OF e s(1) o s(2) q] x(2) by simp_all
        then have "fresh A n (t', c, s')" using fresh_step[OF f' _ _ c] by (simp add: S_grows_def)
        moreover have "gr s' = gr s" using predict_ok[OF e s(1) o s(2) q] by simp
        ultimately show ?thesis using False Nt cc q rs w' by (simp add: process_def run_gr_def)
      qed
    qed (use scan_grows[OF e d(2)] fresh_step[OF f' adds_refl _ c] scan_ok[OF e s(1) o] False rs w' x(2) in
        \<open>simp_all add: process_def run_gr_def\<close>)
  qed
qed

lemma process_fold_fresh:
  assumes "plain_env e" "run_ok g0 ch i r" "\<forall>x \<in> set xs. item_ok (run_gr r) ch x \<and> i_set x = n"
    "fresh A n r" "within N L B (ch n) (run_gr r)"
  shows "fresh A n (fold (process e n (ch n)) xs r) \<and> within N L B (ch n) (run_gr (fold (process e n (ch n)) xs r))"
  using assms
proof (induction xs arbitrary: r)
  case (Cons x xs)
  have 1: "run_ok g0 ch i (process e n (ch n) x r) \<and> grows (run_gr r) (run_gr (process e n (ch n) x r))"
    using process_ok[OF Cons.prems(1,2)] Cons.prems(3) by simp
  have 2: "fresh A n (process e n (ch n) x r) \<and> within N L B (ch n) (run_gr (process e n (ch n) x r))"
    using process_fresh[OF Cons.prems(1,2) _ _ Cons.prems(4,5)] Cons.prems(3) by simp
  have "\<forall>y \<in> set xs. item_ok (run_gr (process e n (ch n) x r)) ch y \<and> i_set y = n"
    using Cons.prems(3) item_ok_grows 1 by fastforce
  then show ?case using Cons.IH[OF Cons.prems(1)] 1 2 by simp
qed simp


lemma complete_all_fresh:
  assumes "plain_env e" "chart_ok g0 ch i s" "items_ok (gr s) ch t"
    "\<forall>x \<in> set xs. item_ok (gr s) ch x \<and> completed (gr s) x \<and> i_set x = n"
    "fold (complete e True) xs (t, c, s) = (t', c', s')" "fresh A n (t, c, s)"
  shows "fresh A n (t', c', s')"
  using assms
proof (induction xs arbitrary: t c s)
  case (Cons x xs)
  obtain t1 c1 s1 where q: "complete e True x (t, c, s) = (t1, c1, s1)" by (rule prod_cases3)
  have xo: "item_ok (gr s) ch x" "completed (gr s) x" "i_set x = n" using Cons.prems(4) by simp_all
  have 1: "same_core s s1" "items_ok (gr s) ch t1" "c1 = c"
    using complete_ok[OF Cons.prems(1,2) xo(1,2) Cons.prems(3) q] by auto
  have g: "gr s1 = gr s" using 1(1) by (simp add: same_core_def)
  have "adds n s t t1" using complete_adds[OF Cons.prems(1,2) xo(1,2) Cons.prems(3) q] xo(3) by simp
  moreover have "ends_at n c1" using Cons.prems(6) 1(3) by (simp add: fresh_def)
  ultimately have f: "fresh A n (t1, c1, s1)" by (rule fresh_step[OF Cons.prems(6) _ S_grows_core[OF 1(1)]])
  show ?case
    using Cons.IH[OF Cons.prems(1) same_core_ok[OF 1(1) Cons.prems(2)], of t1 c1] Cons.prems(4,5) 1 g q f by simp
qed simp

lemma after_round_fresh:
  assumes e: "plain_env e" and r: "run_ok g0 ch i (t, c, s)" and f: "fresh A n (t, c, s)"
  shows "fresh A n (after_round e (t, c, s)) \<and> run_gr (after_round e (t, c, s)) = gr s"
proof (cases "t = []")
  case True
  have s: "chart_ok g0 ch i s" and c: "ends_ok (gr s) ch c" using r by (simp_all add: run_ok_def)
  obtain t' c' s' where q: "fold (complete e True) c ([], c, s) = (t', c', s')" by (rule prod_cases3)
  have "\<forall>x \<in> set c. item_ok (gr s) ch x \<and> completed (gr s) x \<and> i_set x = n"
    using c f by (simp add: ends_ok_def fresh_def ends_at_def)
  then have "fresh A n (t', c', s')"
    using complete_all_fresh[OF e s _ _ q] f True by (simp add: items_ok_def)
  moreover have "same_core s s'"
    using complete_all_ok[OF e s _ _ q] c by (simp add: items_ok_def ends_ok_def)
  ultimately show ?thesis using True q resolve_ok[OF chart_okD(1)[OF s] c]
    by (simp add: after_round_def run_gr_def same_core_def fresh_def ends_at_def)
qed (use f in \<open>simp add: after_round_def run_gr_def\<close>)

text \<open>The items a position can have.\<close>

definition position_items :: "nat \<Rightarrow> nat \<Rightarrow> nat \<Rightarrow> item set" where
  "position_items L B n = (\<lambda>(p, f, d). mk_item n p 0 f d) ` ({..<B} \<times> {..n} \<times> {..L})"

lemma finite_position_items: "finite (position_items L B n)"
  by (simp add: position_items_def)

lemma item_in_position:
  assumes "plain_grammar g" "item_ok g ch x" "i_set x = n" "within N L B c g"
  shows "x \<in> position_items L B n"
proof -
  have x: "i_prod x < gsize g" "i_con x = 0" "i_dot x \<le> n_literals g x" using assms(2) by (simp_all add: item_ok_def)
  have f: "i_from x \<le> n" using assms(2,3) spans_le by (auto simp: item_ok_def)
  obtain b where b: "body g (i_prod x) = [Lits False b]" using plain_body[OF assms(1) x(1)] by metis
  have "prods g ! i_prod x \<in> set (prods g)" using x(1) by (simp add: gsize_def)
  moreover have "Lits False b \<in> set (snd (prods g ! i_prod x))" using b by (simp add: body_def)
  ultimately have "length b \<le> L" using assms(4) by (force simp: within_def bodies_within_def)
  then have "i_dot x \<le> L" using x b by (simp add: n_literals_def)
  moreover have "i_prod x < B" using x(1) assms(4) by (simp add: within_def)
  moreover have "x = mk_item n (i_prod x) 0 (i_from x) (i_dot x)" using x(2) assms(3) by (cases x) (simp add: mk_item_def)
  ultimately show ?thesis using f unfolding position_items_def
    by (intro image_eqI[of _ _ "(i_prod x, i_from x, i_dot x)"]) auto
qed

definition known_items :: "nat \<Rightarrow> ('c, 't) pos_loop \<Rightarrow> item set" where
  "known_items n r = set (vget n (S (l_s r))) \<union> set (l_t r)"

definition loop_inv ::
  "'t::comm_ring_1 grammar \<Rightarrow> (nat \<Rightarrow> 't) \<Rightarrow> ('c, 't) input \<Rightarrow> nat \<Rightarrow> nat set \<Rightarrow> nat \<Rightarrow> nat \<Rightarrow> ('c, 't) pos_loop \<Rightarrow> bool" where
  "loop_inv g0 ch i n N L B r \<longleftrightarrow> run_ok g0 ch i (loop_state r) \<and> (\<forall>k \<in> set (l_revisit r). k < l_done r) \<and>
     fresh {} n (loop_state r) \<and> within N L B (ch n) (gr (l_s r))"

lemma known_items_bound:
  assumes "loop_inv g0 ch i n N L B r"
  shows "known_items n r \<subseteq> position_items L B n"
proof
  fix x assume x: "x \<in> known_items n r"
  have s: "chart_ok g0 ch i (l_s r)" "items_ok (gr (l_s r)) ch (l_t r)" "\<forall>x \<in> set (l_t r). i_set x = n"
    using assms by (simp_all add: loop_inv_def run_ok_def loop_state_def fresh_def)
  then have "item_ok (gr (l_s r)) ch x \<and> i_set x = n"
    using x vget_sets[OF chart_okD(4)[OF s(1)], of x n] by (auto simp: known_items_def items_ok_def)
  then show "x \<in> position_items L B n"
    using item_in_position[OF chart_okD(1)[OF s(1)]] assms by (auto simp: loop_inv_def)
qed

lemma flush_known:
  "plain_env e \<Longrightarrow> n < length (S s) \<Longrightarrow> \<forall>x \<in> set t. i_set x = n \<Longrightarrow>
   set (vget n (S (flush e t s))) = set (vget n (S s)) \<union> set t \<and> length (S (flush e t s)) = length (S s)"
  unfolding flush_def
proof (induction t arbitrary: s)
  case (Cons x t)
  have "set (vget n (S (S_insert e x s))) = insert x (set (vget n (S s)))" "length (S (S_insert e x s)) = length (S s)"
    using Cons.prems by (simp_all add: S_insert_def vget_update plain_env_def dense_set.set_insert)
  then show ?case using Cons.IH[of "S_insert e x s"] Cons.prems by auto
qed simp

lemma round_progress:
  assumes e: "plain_env e" and v: "loop_inv g0 ch i n N L B r"
  shows "loop_inv g0 ch i n N L B (round e n (ch n) r) \<and>
    (l_t (round e n (ch n) r) \<noteq> [] \<longrightarrow> known_items n r \<subset> known_items n (round e n (ch n) r))"
proof -
  obtain r1 snap where q: "round_setup e n r = (r1, snap)" by fastforce
  have ok: "run_ok g0 ch i (loop_state r)" "\<forall>k \<in> set (l_revisit r). k < l_done r"
    and f0: "n < length (S (l_s r))" "\<forall>x \<in> set (l_t r). i_set x = n" "ends_at n (l_c r)"
    using v by (simp_all add: loop_inv_def fresh_def loop_state_def)
  note 1 = round_setup_ok[OF e ok(1) q ok(2)]
  have st: "l_s r1 = flush e (l_t r) (l_s r)" "l_t r1 = []" "l_c r1 = l_c r"
    using q by (auto simp: round_setup_def Let_def)
  let ?A = "known_items n r"
  have A: "set (vget n (S (l_s r1))) = ?A" "n < length (S (l_s r1))"
    using flush_known[OF e f0(1,2)] f0(1) st(1) by (simp_all add: known_items_def)
  have fl: "gr (l_s r1) = gr (l_s r)"
    using flush_ok[OF e, of g0 ch i "l_s r" "l_t r"] ok(1) st(1) by (simp add: run_ok_def loop_state_def)
  have f1: "fresh ?A n (loop_state r1)" using A f0(3) st by (simp add: fresh_def loop_state_def)
  have w1: "within N L B (ch n) (run_gr (loop_state r1))"
    using v fl by (simp add: loop_inv_def run_gr_def loop_state_def)
  obtain t c s where p: "fold (process e n (ch n)) snap (loop_state r1) = (t, c, s)" by (rule prod_cases3)
  have 2: "run_ok g0 ch i (t, c, s)" using process_fold_ok[OF e, of g0 ch i "loop_state r1" snap n] 1 p by simp
  have 3: "fresh ?A n (t, c, s)" "within N L B (ch n) (gr s)"
    using process_fold_fresh[of e g0 ch i "loop_state r1" snap n ?A N L B] e f1 w1 1 p by (simp_all add: run_gr_def)
  let ?r = "round e n (ch n) r"
  have r': "loop_state ?r = after_round e (t, c, s)"
    using q p by (cases "after_round e (t, c, s)") (simp add: round_def loop_state_def)
  have 4: "fresh ?A n (loop_state ?r)" "run_gr (loop_state ?r) = gr s"
    using after_round_fresh[OF e 2 3(1)] r' by simp_all
  have "loop_inv g0 ch i n N L B ?r"
    using round_ok[OF e ok] 3(2) 4 by (auto simp: loop_inv_def fresh_def run_gr_def loop_state_def)
  moreover have "?A \<subset> known_items n ?r" if "l_t ?r \<noteq> []"
  proof -
    have "hd (l_t ?r) \<in> set (l_t ?r)" using that by (rule hd_in_set)
    then have "hd (l_t ?r) \<in> known_items n ?r" "hd (l_t ?r) \<notin> ?A" "?A \<subseteq> known_items n ?r"
      using 4(1) by (auto simp: fresh_def loop_state_def known_items_def)
    then show ?thesis by blast
  qed
  ultimately show ?thesis by blast
qed

lemma position_loop_ends:
  assumes e: "plain_env e" and v: "loop_inv g0 ch i n N L B r"
  shows "\<exists>r'. position_loop e n (ch n) r = Some r' \<and> loop_inv g0 ch i n N L B r'"
  using v
proof (induction "card (position_items L B n) - card (known_items n r)" arbitrary: r rule: less_induct)
  case less
  let ?r = "round e n (ch n) r"
  note p = round_progress[OF e less.prems]
  show ?case
  proof (cases "l_t ?r = []")
    case True
    then show ?thesis using p by (subst position_loop.simps) (simp add: Let_def)
  next
    case False
    have sub: "known_items n ?r \<subseteq> position_items L B n" using known_items_bound p by blast
    have "finite (known_items n ?r)" using finite_subset[OF sub finite_position_items] .
    then have "card (known_items n r) < card (known_items n ?r)" using psubset_card_mono p False by blast
    moreover have "card (known_items n ?r) \<le> card (position_items L B n)" using card_mono[OF finite_position_items sub] .
    ultimately have "card (position_items L B n) - card (known_items n ?r) < card (position_items L B n) - card (known_items n r)"
      by linarith
    from less.hyps[OF this] p show ?thesis using False by (subst position_loop.simps) (simp add: Let_def)
  qed
qed


section \<open>The run\<close>

lemma within_exists:
  assumes "few_ends g"
  shows "\<exists>N L B. within N L B c g"
proof -
  let ?as = "concat (map snd (prods g))"
  let ?N = "{m. \<exists>a \<in> set ?as. Nt m \<in> set (seq a)}" let ?L = "Max (insert 1 ((\<lambda>a. length (seq a)) ` set ?as))"
  have "?N \<subseteq> lit_n ` (\<Union>a \<in> set ?as. set (seq a))" by force
  then have "finite ?N" by (rule finite_subset) simp
  moreover have "1 \<le> ?L" by (rule Max_ge) simp_all
  moreover have "length (seq a) \<le> ?L" if "a \<in> set ?as" for a using that by (intro Max_ge) auto
  then have "bodies_within ?N ?L g" unfolding bodies_within_def set_concat set_map by blast
  ultimately have "within ?N ?L (gsize g + room ?N c g) c g" using assms by (simp add: within_def)
  then show ?thesis by blast
qed

lemma round_parks_nothing: "l_t (round e n c r) = [] \<Longrightarrow> l_c (round e n c r) = []"
  by (simp add: round_def after_round_def split: prod.splits if_splits)

lemma position_loop_parks_nothing:
  assumes "position_loop e n c r = Some r'" "l_c r = []"
  shows "l_t r' = [] \<and> l_c r' = []"
  using position_loop_inv[OF assms(1), of "\<lambda>r. l_t r = [] \<longrightarrow> l_c r = []"] assms(2) round_parks_nothing by blast

lemma tnext_measure:
  assumes "tnext None i = (True, i')" "input_ok i"
  shows "length (data i') - tp i' < length (data i) - tp i"
  using assms by (auto simp: tnext_def next_char_def in_range_def input_ok_def split: if_splits)

lemma run_positions_ends:
  assumes e: "plain_env e"
  shows "run_ok g0 ch (inp s) (t, [], s) \<Longrightarrow> input_ok (inp s) \<Longrightarrow> ch = tat (conv e) None (inp s) \<Longrightarrow>
    few_ends (gr s) \<Longrightarrow> \<forall>x \<in> set t. i_set x = tp (inp s) \<Longrightarrow> \<exists>re. run_positions e t [] s = Some re"
proof (induction "length (data (inp s)) - tp (inp s)" arbitrary: s t rule: less_induct)
  case less
  let ?i = "inp s" let ?n = "tp ?i"
  let ?s0 = "s\<lparr>S := vresize (?n + 1) (S s)\<rparr>"
  let ?r0 = "\<lparr>l_t = t, l_c = [], l_s = ?s0, l_done = 0, l_epoch = epoch s, l_revisit = []\<rparr>"
  have d: "dec e = None" using e by (simp add: plain_env_def)
  have tc: "tcur (conv e) (dec e) ?i = (ch ?n, ?i)" using tcur_tat[OF less.prems(2)] d less.prems(3) by simp
  obtain N L B where w: "within N L B (ch ?n) (gr s)" using within_exists[OF less.prems(4)] by blast
  have "?n < length (vresize (?n + 1) (S s))" by (simp add: vresize_def)
  moreover have "chart_ok g0 ch ?i ?s0" using less.prems(1) by (auto simp: run_ok_def intro: S_resize_ok)
  ultimately have "loop_inv g0 ch ?i ?n N L B ?r0"
    using less.prems(1,5) w by (simp add: loop_inv_def run_ok_def loop_state_def fresh_def ends_at_def)
  then obtain r where r: "position_loop e ?n (ch ?n) ?r0 = Some r" and v: "loop_inv g0 ch ?i ?n N L B r"
    using position_loop_ends[OF e] by blast
  have tl: "l_t r = []" "l_c r = []" using position_loop_parks_nothing[OF r] by simp_all
  have s0: "chart_ok g0 ch ?i (l_s r)" using v by (simp add: loop_inv_def run_ok_def loop_state_def)
  let ?s1 = "end_position e ?n (l_s r)"
  have s1: "chart_ok g0 ch ?i ?s1" "gr ?s1 = gr (l_s r)" "inp ?s1 = ?i"
    using end_position_ok[OF e s0] chart_okD(3) by blast+
  obtain again i' where nx: "tnext None ?i = (again, i')" by fastforce
  note fr = tnext_frame[OF nx less.prems(2)]
  have run: "run_positions e t [] s = (if ?n > max_item_pos then Some Too_long
      else if again then run_positions e [] [] (?s1\<lparr>inp := i'\<rparr>) else Some (Ran (?s1\<lparr>inp := i'\<rparr>)))"
    using tc r tl nx d s1(3) by (subst run_positions.simps) (simp add: Let_def)
  show ?case
  proof (cases again)
    case True
    have "run_ok g0 ch i' ([], [], ?s1\<lparr>inp := i'\<rparr>)"
      using s1(1) by (simp add: run_ok_def chart_ok_def items_ok_def ends_ok_def)
    moreover have "few_ends (gr ?s1)" using v s1(2) by (simp add: loop_inv_def within_def)
    moreover have "length (data i') - tp i' < length (data ?i) - ?n" using tnext_measure[of ?i i'] nx less.prems(2) True by simp
    ultimately have "\<exists>re. run_positions e [] [] (?s1\<lparr>inp := i'\<rparr>) = Some re"
      using less.hyps[of "?s1\<lparr>inp := i'\<rparr>" "[]"] fr less.prems(3) by simp
    then show ?thesis using run by simp
  qed (use run in simp)
qed

lemma seeds_adds:
  assumes e: "plain_env e"
  shows "\<not> any_conj s \<Longrightarrow> fold (seed e) pcs (t, s) = (t', s') \<Longrightarrow> \<forall>x \<in> set t. i_set x = 0 \<Longrightarrow> \<forall>x \<in> set t'. i_set x = 0"
proof (induction pcs arbitrary: t s)
  case (Cons pc pcs)
  let ?j = "mk_item 0 (fst pc) (snd pc) 0 0"
  obtain b t2 s2 where a: "add e ?j t s = (b, t2, s2)" by (rule prod_cases3)
  have 1: "s2 = s" "adds 0 s t t2" using add_adds[OF e Cons.prems(1) a] by (simp_all add: mk_item_def)
  then have "\<forall>x \<in> set t2. i_set x = 0" using Cons.prems(3) by (auto simp: adds_def)
  moreover have "seed e pc (t, s) = (t2, if enable_gc e then incr_ref ?j s else s)"
    using a 1(1) by (simp add: seed_def)
  moreover have "\<not> any_conj (if enable_gc e then incr_ref ?j s else s)" using Cons.prems(1) by (simp add: incr_ref_def)
  ultimately show ?case using Cons.IH Cons.prems(2) by simp
qed simp

text \<open>C4: the recognizer terminates: on a grammar without conjunction and negation, without dynamic
  productions, with at most one production for the end of the input, the nested loops return for
  every input and with any setting of the garbage collection.\<close>

theorem run_earley_terminates:
  assumes "plain_env e" and "plain_grammar g" and "few_ends g" and "input_ok i" and "tp i = 0"
  shows "\<exists>r. run_earley e False g i = Some r"
proof -
  let ?ch = "tat (conv e) None i" let ?s0 = "initial_chart e False g i"
  have s0: "chart_ok g ?ch i ?s0" "\<not> any_conj ?s0"
    using assms(2) by (simp_all add: chart_ok_def initial_chart_def sets_ok_def waits_ok_def)
  obtain t s1 where q: "fold (seed e) (seeds g (start_lit e g)) ([], ?s0) = (t, s1)" by fastforce
  have "\<forall>pc \<in> set (seeds g (start_lit e g)). pc_ok (gr ?s0) pc"
    using pcs_ok[OF assms(2)] by (simp add: seeds_def initial_chart_def)
  then have 1: "same_core ?s0 s1" "items_ok g ?ch t"
    using seeds_ok[OF assms(1) s0(1) _ _ q] by (auto simp: items_ok_def initial_chart_def)
  have f: "inp s1 = i" "gr s1 = g" using 1(1) by (simp_all add: same_core_def initial_chart_def)
  have "run_ok g ?ch (inp s1) (t, [], s1)"
    using f same_core_ok[OF 1(1) s0(1)] 1(2) by (simp add: run_ok_def ends_ok_def)
  moreover have "\<forall>x \<in> set t. i_set x = tp (inp s1)"
    using seeds_adds[OF assms(1) s0(2) q] f assms(5) by simp
  moreover have "input_ok (inp s1)" "?ch = tat (conv e) None (inp s1)" "few_ends (gr s1)" using f assms by simp_all
  ultimately have "\<exists>re. run_positions e t [] s1 = Some re" by (intro run_positions_ends[OF assms(1)])
  then show ?thesis using q by (simp add: run_earley_def)
qed

theorem run_earley_terminates_witness:
  "\<exists>r. run_earley (digits_env True) False digits_grammar (digits_input [5, 7, 6]) = Some r"
proof -
  have "few_ends digits_grammar"
    by (simp add: few_ends_def digits_grammar_def prod_ids_of_literal_def vget_def)
  moreover have "tp (digits_input [5, 7, 6]) = 0" by (simp add: digits_input_def input_of_pointer_def)
  ultimately show ?thesis using run_earley_terminates[OF digits_plain(1,2) _ digits_plain(3)] by blast
qed


end
