(* ===== verification/Packs.thy ===== *)
theory Packs
  imports Soundness
begin

text \<open>
  The children of a tree node in \<open>src/src/parser.tmpl.h\<close>: the indexes of \<open>pre_process\<close>, the packs of
  a completed item (\<open>sbl_chd_forest\<close>, \<open>binarize_comb\<close>, \<open>derived_class_packs\<close>), the packs of a node
  (\<open>collect_packs\<close>) and the disambiguation (\<open>pick_best\<close>). A forest node is a pointer to an interned
  \<open>pnode\<close> and is compared by its hash, then by its value; the hash is a parameter.
\<close>

section \<open>Nodes\<close>

type_synonym 't pnode = "'t lit \<times> nat \<times> nat"
type_synonym 't pnodes = "'t pnode list"
type_synonym 't node_hash = "'t pnode \<Rightarrow> nat"

definition pnode_less :: "'t::{linorder,zero} pnode \<Rightarrow> 't pnode \<Rightarrow> bool" where
  "pnode_less = pair_less lit_less (pair_less (<) (<))"

definition node_less :: "'t::{linorder,zero} node_hash \<Rightarrow> 't pnode \<Rightarrow> 't pnode \<Rightarrow> bool" where
  "node_less h a b = (if h a = h b then a \<noteq> b \<and> pnode_less a b else h a < h b)"

definition pack_less :: "'t::{linorder,zero} node_hash \<Rightarrow> 't pnodes \<Rightarrow> 't pnodes \<Rightarrow> bool" where
  "pack_less h = lex_less (node_less h)"

section \<open>The state of the builders\<close>

text \<open>What the tree builders read of the parser, and what they write: the two indexes, the
  temporaries of the binarization with their counter, and the grammar, which gets their names.\<close>

record 't builder =
  b_gr :: "'t grammar"
  b_tat :: "nat \<Rightarrow> 't"
  b_tpos :: nat
  b_S :: "item list list"
  b_binarize :: bool
  use_citem_index :: bool
  bin_tnt :: "('t lit list \<times> 't lit) list"
  tid :: nat
  sorted_citem :: "nat \<times> nat \<Rightarrow> item list"
  rsorted_citem :: "nat \<times> nat \<Rightarrow> item list"

definition builder_of :: "('c, 't::zero) env \<Rightarrow> ('c, 't) chart \<Rightarrow> 't builder" where
  "builder_of e s =
     \<lparr>b_gr = gr s, b_tat = tat (conv e) (dec e) (inp s), b_tpos = tp (inp s), b_S = S s,
      b_binarize = binarize e, use_citem_index = False, bin_tnt = [], tid = 0,
      sorted_citem = (\<lambda>_. []), rsorted_citem = (\<lambda>_. [])\<rparr>"

definition get_fresh_tnt :: "'t builder \<Rightarrow> string \<times> 't builder" where
  "get_fresh_tnt b = (''__B_'' @ decimal (tid b), b\<lparr>tid := tid b + 1\<rparr>)"

section \<open>The indexes\<close>

definition index_item :: "item \<Rightarrow> nat \<Rightarrow> 't builder \<Rightarrow> 't builder" where
  "index_item i n b =
     b\<lparr>sorted_citem := (sorted_citem b)((n, i_from i) := sorted_citem b (n, i_from i) @ [i]),
       rsorted_citem := (rsorted_citem b)((n, i_set i) := rsorted_citem b (n, i_set i) @ [i])\<rparr>"

text \<open>The temporary that stands for the literals before the dot.\<close>

definition bin_lit :: "'t::{linorder,zero} lit list \<Rightarrow> 't builder \<Rightarrow> 't lit \<times> 't builder" where
  "bin_lit v b =
     (case map_of (bin_tnt b) v of
        Some l \<Rightarrow> (l, b)
      | None \<Rightarrow>
          (case get_fresh_tnt b of (s, b) \<Rightarrow>
           case grammar_nt s (b_gr b) of (l, g) \<Rightarrow>
             (l, b\<lparr>b_gr := g, bin_tnt := smap_update (lex_less lit_less) v l (bin_tnt b)\<rparr>)))"

definition pre_process :: "item \<Rightarrow> 't::{linorder,zero} builder \<Rightarrow> 't builder" where
  "pre_process i b =
     (if completed (b_gr b) i then index_item i (lit_n (get_nt (b_gr b) i)) b
      else if b_binarize b \<and> i_dot i \<ge> 2 then
        (case bin_lit (take (i_dot i) (seq (body (b_gr b) (i_prod i) ! i_con i))) b of
           (l, b) \<Rightarrow> index_item i (lit_n l) b)
      else b)"

definition do_preprocess :: "'t::{linorder,zero} builder \<Rightarrow> 't builder" where
  "do_preprocess b = fold pre_process (concat (take (b_tpos b + 1) (b_S b))) b"

section \<open>The packs of a completed item\<close>

text \<open>The items \<open>try_item\<close> is called with, for a nonterminal that ends at \<open>xto\<close>.\<close>

definition child_items :: "'t builder \<Rightarrow> nat \<Rightarrow> nat \<Rightarrow> item list" where
  "child_items b n xto =
     (if use_citem_index b then rsorted_citem b (n, xto)
      else filter (\<lambda>v. completed (b_gr b) v \<and> lit_n (get_nt (b_gr b) v) = n) (vget xto (b_S b)))"

text \<open>The walk over the right-hand side from its last symbol; \<open>curchd\<close> holds the children found so
  far, last first.\<close>

function sbl_chd_forest ::
  "'t::{linorder,zero} node_hash \<Rightarrow> 't builder \<Rightarrow> item \<Rightarrow> 't pnodes \<Rightarrow> nat \<Rightarrow> 't pnodes list \<Rightarrow> 't pnodes list" where
  "sbl_chd_forest h b ei curchd xto ambset =
     (let n = len (b_gr b) (i_prod ei) (i_con ei) in
      if n \<le> length curchd then
        (if xto = i_from ei then sinsert (pack_less h) (rev curchd) ambset else ambset)
      else
        let l = seq (body (b_gr b) (i_prod ei) ! i_con ei) ! (n - 1 - length curchd) in
        if \<not> is_nt l then
          (if is_null l then sbl_chd_forest h b ei (curchd @ [(l, xto, xto)]) xto ambset
           else if xto > i_from ei \<and> b_tat b (xto - 1) = lit_t l
           then sbl_chd_forest h b ei (curchd @ [(l, xto - 1, xto)]) (xto - 1) ambset
           else ambset)
        else
          fold (\<lambda>v amb. if i_from v < i_from ei then amb
                        else sbl_chd_forest h b ei (curchd @ [(l, i_from v, xto)]) (i_from v) amb)
            (child_items b (lit_n l) xto) ambset)"
  by pat_completeness auto
termination
  by (relation "measure (\<lambda>(h, b, ei, curchd, xto, ambset). len (b_gr b) (i_prod ei) (i_con ei) - length curchd)") auto

declare sbl_chd_forest.simps [simp del]

text \<open>\<open>binarize_comb\<close>: the symbol before the dot, and the temporary or the symbol left of it.
  A read before the start of the input (\<open>set - 1\<close> at set 0) is past its end.\<close>

definition pred_pos :: "nat \<Rightarrow> nat" where
  "pred_pos n = (if n = 0 then SIZE_MAX else n - 1)"

definition right_comb :: "'t::zero builder \<Rightarrow> item \<Rightarrow> 't lit \<Rightarrow> 't pnodes option" where
  "right_comb b ei r =
     (if \<not> is_nt r then
        (if is_null r then Some [(r, i_set ei, i_set ei)]
         else if b_tat b (pred_pos (i_set ei)) = lit_t r then Some [(r, pred_pos (i_set ei), i_set ei)]
         else None)
      else Some (map (\<lambda>it. (r, i_from it, i_set it))
             (filter (\<lambda>it. i_from ei \<le> i_from it) (rsorted_citem b (lit_n r, i_set ei)))))"

definition join_combs ::
  "'t::{linorder,zero} node_hash \<Rightarrow> 't lit \<Rightarrow> item list \<Rightarrow> 't pnodes \<Rightarrow> 't pnodes list \<Rightarrow> 't pnodes list" where
  "join_combs h l lefts rcomb ambset =
     fold (\<lambda>it amb. fold (\<lambda>rit amb.
           if i_set it = fst (snd rit) then sinsert (pack_less h) [(l, i_from it, i_set it), rit] amb else amb)
         rcomb amb) lefts ambset"

definition binarize_comb ::
  "'t::{linorder,zero} node_hash \<Rightarrow> 't builder \<Rightarrow> item \<Rightarrow> 't pnodes list \<Rightarrow> 't pnodes list" where
  "binarize_comb h b ei ambset =
     (if i_dot ei < 1 then ambset
      else
        let rhs = seq (body (b_gr b) (i_prod ei) ! i_con ei) in
        case right_comb b ei (rhs ! (i_dot ei - 1)) of
          None \<Rightarrow> ambset
        | Some rcomb \<Rightarrow>
            if i_dot ei > 2 then
              let l = (case map_of (bin_tnt b) (take (i_dot ei - 1) rhs) of Some l \<Rightarrow> l | None \<Rightarrow> Null)
              in join_combs h l (sorted_citem b (lit_n l, i_from ei)) rcomb ambset
            else if i_dot ei = 2 then
              let l = rhs ! 0 in
              if \<not> is_nt l then
                (if is_null l \<or> b_tat b (i_from ei) = lit_t l then
                   let lto = (if is_null l then i_from ei else i_from ei + 1) in
                   fold (\<lambda>rit amb. if lto = fst (snd rit)
                       then sinsert (pack_less h) [(l, i_from ei, lto), rit] amb else amb) rcomb ambset
                 else ambset)
              else join_combs h l (sorted_citem b (lit_n l, i_from ei)) rcomb ambset
            else
              fold (\<lambda>rit amb. if i_from ei = fst (snd rit) then sinsert (pack_less h) [rit] amb else amb)
                rcomb ambset)"

text \<open>The productions of a derived class that accept the character; with disambiguation the first.\<close>

definition accepting_packs :: "'t builder \<Rightarrow> nat \<Rightarrow> nat \<Rightarrow> 't pnodes list" where
  "accepting_packs b n pos =
     concat (map (\<lambda>p. map (\<lambda>cj. [(hd (seq cj), pos, pos + 1)]) (filter (\<lambda>cj. \<not> neg cj) (body (b_gr b) p)))
       (filter (\<lambda>p. rule_prod_accepts (b_gr b) p (b_tat b pos)) (enabled_source_prods (b_gr b) n)))"

definition derived_class_packs ::
  "'t::{linorder,zero} node_hash \<Rightarrow> 't builder \<Rightarrow> nat \<Rightarrow> nat \<Rightarrow> bool \<Rightarrow> 't pnodes list \<Rightarrow> 't pnodes list" where
  "derived_class_packs h b n pos ad_allowed packs =
     (let ps = accepting_packs b n pos
      in sinserts (pack_less h) (if ad_allowed then take 1 ps else ps) packs)"

section \<open>The packs of a node\<close>

definition check_allowed :: "'t builder \<Rightarrow> 't pnode \<Rightarrow> bool" where
  "check_allowed b nd \<longleftrightarrow> auto_disambiguate (opt (b_gr b)) \<and>
     \<not> (is_nt (fst nd) \<and> lit_n (fst nd) \<in> nodisambig_list (opt (b_gr b)))"

definition item_packs :: "'t::{linorder,zero} node_hash \<Rightarrow> 't builder \<Rightarrow> item \<Rightarrow> 't pnodes list" where
  "item_packs h b i =
     (if b_binarize b then binarize_comb h b i [] else sbl_chd_forest h b i [] (i_set i) [])"

definition matching_items :: "'t builder \<Rightarrow> nat \<Rightarrow> nat \<Rightarrow> nat \<Rightarrow> item list" where
  "matching_items b n from to =
     filter (\<lambda>i. i_from i = from \<and> completed (b_gr b) i \<and> lit_n (get_nt (b_gr b) i) = n) (vget to (b_S b))"

text \<open>With disambiguation, the packs of the smallest production that has some.\<close>

definition best_step ::
  "'t::{linorder,zero} node_hash \<Rightarrow> 't builder \<Rightarrow> item \<Rightarrow> nat \<times> 't pnodes list \<Rightarrow> nat \<times> 't pnodes list" where
  "best_step h b i = (\<lambda>(best, packs).
     if i_prod i \<ge> best then (best, packs)
     else let q = item_packs h b i in if q \<noteq> [] then (i_prod i, q) else (best, packs))"

definition best_packs ::
  "'t::{linorder,zero} node_hash \<Rightarrow> 't builder \<Rightarrow> item list \<Rightarrow> nat \<times> 't pnodes list" where
  "best_packs h b is = fold (best_step h b) is (SIZE_MAX, [])"

definition collect_packs :: "'t::{linorder,zero} node_hash \<Rightarrow> 't builder \<Rightarrow> 't pnode \<Rightarrow> bool \<times> 't pnodes list" where
  "collect_packs h b nd =
     (let ad = check_allowed b nd; n = lit_n (fst nd); from = fst (snd nd); to = snd (snd nd) in
      if to = from + 1 \<and> uses_derived_recipe (b_gr b) n then (ad, derived_class_packs h b n from ad [])
      else if to \<ge> length (b_S b) then (ad, [])
      else
        let is = matching_items b n from to;
            packs = (if ad then snd (best_packs h b is)
                     else fold (\<lambda>i. sinserts (pack_less h) (item_packs h b i)) is [])
        in (ad,
            if packs = [] \<and> to = from + 1 \<and> is_cc_fn (b_gr b) n \<and>
               \<not> is_derived (cc_fns (b_gr b)) n \<and> \<not> is_eof_fn (b_gr b) n
            then [[(Tm (b_tat b from), from, to)]] else packs))"

text \<open>\<open>pick_best\<close>: the candidates with the smallest first span, among them those with the smallest
  second span, and so on over the columns all packs have; then the first.\<close>

definition span_of :: "'t pnode \<Rightarrow> nat" where
  "span_of nd = snd (snd nd) - fst (snd nd)"

definition min_column :: "nat \<Rightarrow> 't pnodes list \<Rightarrow> 't pnodes list" where
  "min_column k cand = filter (\<lambda>p. span_of (p ! k) = Min ((\<lambda>p. span_of (p ! k)) ` set cand)) cand"

function pick_columns :: "nat \<Rightarrow> nat \<Rightarrow> 't pnodes list \<Rightarrow> 't pnodes list" where
  "pick_columns k maxk cand =
     (if k < maxk \<and> length cand > 1 then pick_columns (k + 1) maxk (min_column k cand) else cand)"
  by pat_completeness auto
termination
  by (relation "measure (\<lambda>(k, maxk, cand). maxk - k)") auto

declare pick_columns.simps [simp del]

definition pick_best :: "'t pnodes list \<Rightarrow> 't pnodes" where
  "pick_best packs =
     (if packs = [] then [] else hd (pick_columns 0 (Min (length ` set packs)) packs))"

text \<open>The walk reads the productions, the input and the items of the children only.\<close>

lemma sbl_chd_forest_cong:
  assumes "body (b_gr b') = body (b_gr b)" "len (b_gr b') = len (b_gr b)" "b_tat b' = b_tat b" "child_items b' = child_items b"
  shows "sbl_chd_forest h b' ei curchd xto ambset = sbl_chd_forest h b ei curchd xto ambset"
  using assms
proof (induction h b ei curchd xto ambset rule: sbl_chd_forest.induct)
  case (1 h b ei curchd xto ambset)
  let ?n = "len (b_gr b) (i_prod ei) (i_con ei)"
  let ?l = "seq (body (b_gr b) (i_prod ei) ! i_con ei) ! (?n - 1 - length curchd)"
  note p = "1.prems"
  note unfold = sbl_chd_forest.simps[of h b' ei curchd xto ambset]
    sbl_chd_forest.simps[of h b ei curchd xto ambset] p Let_def
  show ?case
  proof (cases "?n \<le> length curchd")
    case True
    then show ?thesis by (simp only: unfold if_True)
  next
    case more: False
    show ?thesis
    proof (cases "is_nt ?l")
      case False
      note e = 1(1)[OF refl more refl _ _ p] 1(2)[OF refl more refl _ _ _ p]
      then show ?thesis using more False by (simp only: unfold if_True if_False not_False_eq_True cong: if_cong)
    next
      case True
      have "fold (\<lambda>v amb. if i_from v < i_from ei then amb
               else sbl_chd_forest h b' ei (curchd @ [(?l, i_from v, xto)]) (i_from v) amb)
              (child_items b (lit_n ?l) xto) ambset =
            fold (\<lambda>v amb. if i_from v < i_from ei then amb
               else sbl_chd_forest h b ei (curchd @ [(?l, i_from v, xto)]) (i_from v) amb)
              (child_items b (lit_n ?l) xto) ambset"
        by (intro fold_cong refl ext if_cong 1(3)[OF refl more refl _ _ _ p]) (use True in simp_all)
      then show ?thesis using more True by (simp only: unfold if_True if_False not_True_eq_False cong: if_cong)
    qed
  qed
qed

section \<open>The order of packs\<close>

lemma comparator_pnode: "comparator (pnode_less :: 't::{linorder,zero} pnode \<Rightarrow> _)"
  unfolding pnode_less_def
  by (intro lit.comparator_pair less.comparator_pair less.comparator_axioms)

lemma comparator_node: "comparator (node_less h)"
proof
  note c = comparator.irrefl[OF comparator_pnode] comparator.trans[OF comparator_pnode]
    comparator.neg_trans[OF comparator_pnode]
  have e: "node_less h a b \<longleftrightarrow> h a < h b \<or> h a = h b \<and> pnode_less a b" for a b
    using c(1)[of a] by (cases "a = b") (auto simp: node_less_def)
  show "\<not> node_less h x x" for x by (simp add: e c)
  show "node_less h x z" if "node_less h x y" "node_less h y z" for x y z
    using that c(2)[of x y z] unfolding e by linarith
  show "\<not> node_less h x z" if "\<not> node_less h x y" "\<not> node_less h y z" for x y z
    using that c(3)[of x y z] unfolding e by linarith
qed

interpretation pack: comparator "pack_less h" for h
  unfolding pack_less_def by (rule comparator.comparator_lex[OF comparator_node])

text \<open>Packs of the same literals differ in a span, which the order sees.\<close>

definition packs_of :: "'t lit list \<Rightarrow> 't pnodes set" where
  "packs_of ls = {p. map fst p = ls}"

lemma node_equiv: "equiv (node_less h) a b \<Longrightarrow> fst a = fst b \<Longrightarrow> a = b"
  by (cases a; cases b) (auto simp: equiv_def node_less_def pnode_less_def pair_less_def split: if_splits)

lemma pack_equiv:
  "list_all2 (equiv (node_less h)) p q \<Longrightarrow> map fst p = map fst q \<Longrightarrow> p = q"
proof (induction rule: list_all2_induct)
  case (Cons x xs y ys)
  then show ?case using node_equiv[of h x y] by simp
qed simp

lemma packs_separate: "pack.separates h (packs_of ls)"
  unfolding pack.separates_def
proof (intro ballI impI)
  fix p q assume "p \<in> packs_of ls" "q \<in> packs_of ls" "equiv (pack_less h) p q"
  then show "p = q" unfolding packs_of_def pack_less_def lex_equiv by (intro pack_equiv) simp_all
qed

lemma set_pack_insert:
  assumes "p \<in> packs_of ls" "set s \<subseteq> packs_of ls"
  shows "set (sinsert (pack_less h) p s) = insert p (set s)"
proof -
  have "set [p] \<union> set s \<subseteq> packs_of ls" using assms by simp
  from pack.set_sinserts[OF pack.separates_mono[OF packs_separate this]] show ?thesis by (simp add: sinserts_def)
qed

section \<open>The packs are the decompositions\<close>

text \<open>A child spans what its symbol derives there: nothing, a character, or a completed item.\<close>

definition child_ok :: "'t::zero builder \<Rightarrow> 't lit \<Rightarrow> nat \<Rightarrow> nat \<Rightarrow> bool" where
  "child_ok b l i j =
     (case l of
        Null \<Rightarrow> i = j
      | Tm c \<Rightarrow> j = Suc i \<and> b_tat b i = c
      | Nt n \<Rightarrow> \<exists>v \<in> set (child_items b n j). i_from v = i)"

fun covers :: "('t lit \<Rightarrow> nat \<Rightarrow> nat \<Rightarrow> bool) \<Rightarrow> 't lit list \<Rightarrow> nat \<Rightarrow> nat \<Rightarrow> 't pnodes \<Rightarrow> bool" where
  "covers ok [] i j qs \<longleftrightarrow> qs = [] \<and> i = j"
| "covers ok (l # ls) i j qs \<longleftrightarrow>
     (case qs of [] \<Rightarrow> False | (m, a, c) # rest \<Rightarrow> m = l \<and> a = i \<and> ok l a c \<and> covers ok ls c j rest)"

lemma covers_Cons [simp]:
  "covers ok (l # ls) i j qs \<longleftrightarrow> (\<exists>c rest. qs = (l, i, c) # rest \<and> ok l i c \<and> covers ok ls c j rest)"
  by (cases qs) auto

declare covers.simps(2) [simp del]

lemma covers_append:
  "covers ok (xs @ ys) i j qs \<longleftrightarrow> (\<exists>k qs1 qs2. qs = qs1 @ qs2 \<and> covers ok xs i k qs1 \<and> covers ok ys k j qs2)"
proof (induction xs arbitrary: i qs)
  case (Cons x xs)
  show ?case unfolding append_Cons covers_Cons Cons.IH by (auto; metis append_Cons)
qed simp

lemma covers_packs: "covers ok ls i j qs \<Longrightarrow> qs \<in> packs_of ls"
  by (induction ls arbitrary: i qs) (auto simp: packs_of_def)

definition spans_forward :: "'t builder \<Rightarrow> bool" where
  "spans_forward b \<longleftrightarrow> (\<forall>n j. \<forall>v \<in> set (child_items b n j). i_from v \<le> j)"

lemma covers_le:
  assumes "spans_forward b" shows "covers (child_ok b) ls i j qs \<Longrightarrow> i \<le> j"
proof (induction ls arbitrary: i qs)
  case (Cons l ls)
  then obtain c rest where c: "child_ok b l i c" "covers (child_ok b) ls c j rest" by auto
  have "i \<le> c" using c(1) assms by (cases l) (auto simp: child_ok_def spans_forward_def)
  then show ?case using Cons.IH[OF c(2)] by simp
qed simp

text \<open>The children that are still to be found, in front of those found so far.\<close>

definition extends :: "'t::zero builder \<Rightarrow> item \<Rightarrow> nat \<Rightarrow> nat \<Rightarrow> 't pnodes \<Rightarrow> 't pnodes set" where
  "extends b ei m xto curchd =
     {qs @ rev curchd |qs. covers (child_ok b) (take m (seq (body (b_gr b) (i_prod ei) ! i_con ei))) (i_from ei) xto qs}"


lemma extends_step:
  assumes "m < length (seq (body (b_gr b) (i_prod ei) ! i_con ei))"
    "l = seq (body (b_gr b) (i_prod ei) ! i_con ei) ! m"
  shows "extends b ei (Suc m) xto curchd =
    (\<Union>k \<in> {k. child_ok b l k xto}. extends b ei m k (curchd @ [(l, k, xto)]))"
proof -
  let ?ls = "seq (body (b_gr b) (i_prod ei) ! i_con ei)"
  have one: "covers ok [l] k xto qs \<longleftrightarrow> qs = [(l, k, xto)] \<and> ok l k xto" for ok k qs
    by auto
  have "take (Suc m) ?ls = take m ?ls @ [l]" using assms by (simp add: take_Suc_conv_app_nth)
  then show ?thesis unfolding extends_def by (auto simp: covers_append one)
qed

lemma extends_late:
  assumes "spans_forward b" "k < i_from ei"
  shows "extends b ei m k curchd = {}"
  using covers_le[OF assms(1)] assms(2) unfolding extends_def by fastforce

lemma set_fold_union:
  assumes "\<And>v amb. v \<in> set vs \<Longrightarrow> set amb \<subseteq> W \<Longrightarrow> set (f v amb) = set amb \<union> E v"
    "\<And>v. v \<in> set vs \<Longrightarrow> E v \<subseteq> W" "set amb \<subseteq> W"
  shows "set (fold f vs amb) = set amb \<union> (\<Union>v \<in> set vs. E v)"
  using assms
proof (induction vs arbitrary: amb)
  case (Cons v vs)
  have "set (f v amb) = set amb \<union> E v" using Cons.prems by simp
  moreover have "set (f v amb) \<subseteq> W" using calculation Cons.prems(2,3) by simp
  ultimately show ?case using Cons.IH[of "f v amb"] Cons.prems by auto
qed simp

lemma sbl_chd_forest_set:
  assumes "spans_forward b" "set ambset \<subseteq> packs_of (seq (body (b_gr b) (i_prod ei) ! i_con ei))"
    "map fst (rev curchd) = drop (len (b_gr b) (i_prod ei) (i_con ei) - length curchd) (seq (body (b_gr b) (i_prod ei) ! i_con ei))"
    "length curchd \<le> len (b_gr b) (i_prod ei) (i_con ei)"
  shows "set (sbl_chd_forest h b ei curchd xto ambset) =
    set ambset \<union> extends b ei (len (b_gr b) (i_prod ei) (i_con ei) - length curchd) xto curchd"
  using assms
proof (induction h b ei curchd xto ambset rule: sbl_chd_forest.induct)
  case (1 h b ei curchd xto ambset)
  let ?ls = "seq (body (b_gr b) (i_prod ei) ! i_con ei)"
  let ?n = "len (b_gr b) (i_prod ei) (i_con ei)"
  let ?m = "?n - 1 - length curchd"
  let ?l = "?ls ! ?m"
  have n: "?n = length ?ls" by (simp add: len_def)
  show ?case
  proof (cases "?n \<le> length curchd")
    case True
    then have "map fst (rev curchd) = ?ls" using "1.prems"(3,4) by simp
    then have "rev curchd \<in> packs_of ?ls" by (simp add: packs_of_def)
    then have "set (sinsert (pack_less h) (rev curchd) ambset) = insert (rev curchd) (set ambset)"
      using set_pack_insert "1.prems"(2) by blast
    moreover have "extends b ei (?n - length curchd) xto curchd = (if xto = i_from ei then {rev curchd} else {})"
      using True by (auto simp: extends_def)
    ultimately show ?thesis using True by (subst sbl_chd_forest.simps) simp
  next
    case False
    have m: "?n - length curchd = Suc ?m" "?m < length ?ls" using False n by simp_all
    have step: "extends b ei (?n - length curchd) xto curchd =
        (\<Union>k \<in> {k. child_ok b ?l k xto}. extends b ei ?m k (curchd @ [(?l, k, xto)]))"
      unfolding m(1) by (rule extends_step[OF m(2) refl])
    have pre: "map fst (rev (curchd @ [(?l, k, xto)])) = drop (?n - length (curchd @ [(?l, k, xto)])) ?ls"
      "length (curchd @ [(?l, k, xto)]) \<le> ?n" "?n - length (curchd @ [(?l, k, xto)]) = ?m" for k
      using "1.prems"(3) m False by (simp_all add: Cons_nth_drop_Suc[symmetric])
    have sub: "extends b ei ?m k (curchd @ [(?l, k, xto)]) \<subseteq> packs_of ?ls" for k
    proof
      fix q assume "q \<in> extends b ei ?m k (curchd @ [(?l, k, xto)])"
      then obtain qs where q: "q = qs @ rev (curchd @ [(?l, k, xto)])"
        "covers (child_ok b) (take ?m ?ls) (i_from ei) k qs" unfolding extends_def by blast
      have "map fst qs = take ?m ?ls" using covers_packs[OF q(2)] by (simp add: packs_of_def)
      then have "map fst q = take ?m ?ls @ drop ?m ?ls"
        using q(1) pre(1,3)[of k] by (metis map_append)
      then show "q \<in> packs_of ?ls" by (simp add: packs_of_def)
    qed
    show ?thesis
    proof (cases ?l)
      case (Nt w)
      let ?vs = "child_items b w xto"
      let ?f = "\<lambda>v amb. if i_from v < i_from ei then amb
                  else sbl_chd_forest h b ei (curchd @ [(?l, i_from v, xto)]) (i_from v) amb"
      let ?E = "\<lambda>v. extends b ei ?m (i_from v) (curchd @ [(?l, i_from v, xto)])"
      have f: "set (?f v amb) = set amb \<union> ?E v" if "v \<in> set ?vs" "set amb \<subseteq> packs_of ?ls" for v amb
      proof (cases "i_from v < i_from ei")
        case True
        then show ?thesis using extends_late[OF "1.prems"(1)] by simp
      next
        case nl: False
        show ?thesis using nl "1.IH"(3)[OF refl False refl _ _ nl, of amb] "1.prems"(1) pre that Nt by simp
      qed
      have "set (fold ?f ?vs ambset) = set ambset \<union> (\<Union>v \<in> set ?vs. ?E v)"
        by (rule set_fold_union[where W = "packs_of ?ls"]) (use f sub "1.prems"(2) in auto)
      moreover have "(\<Union>v \<in> set ?vs. ?E v) = extends b ei (?n - length curchd) xto curchd"
        unfolding step using Nt by (auto simp: child_ok_def)
      moreover have "sbl_chd_forest h b ei curchd xto ambset = fold ?f ?vs ambset"
        using False Nt by (subst sbl_chd_forest.simps) (simp add: Let_def cong: if_cong)
      ultimately show ?thesis by simp
    next
      case (Tm c)
      show ?thesis
      proof (cases "xto > i_from ei \<and> b_tat b (xto - 1) = c")
        case True
        have k: "{k. child_ok b ?l k xto} = {xto - 1}" unfolding Tm using True by (cases xto) (auto simp: child_ok_def)
        then have ex: "extends b ei (?n - length curchd) xto curchd = extends b ei ?m (xto - 1) (curchd @ [(?l, xto - 1, xto)])"
          unfolding step k by simp
        have "sbl_chd_forest h b ei curchd xto ambset = sbl_chd_forest h b ei (curchd @ [(?l, xto - 1, xto)]) (xto - 1) ambset"
          using False Tm True by (subst sbl_chd_forest.simps) (simp add: Let_def)
        then show ?thesis
          using "1.IH"(2)[OF refl False refl] "1.prems"(1,2) pre Tm True ex by simp
      next
        case no: False
        have "extends b ei ?m k (curchd @ [(?l, k, xto)]) = {}" if "child_ok b ?l k xto" for k
          using extends_late[OF "1.prems"(1)] that no Tm by (simp add: child_ok_def)
        then have "extends b ei (?n - length curchd) xto curchd = {}" unfolding step by simp
        moreover have "sbl_chd_forest h b ei curchd xto ambset = ambset"
          using False Tm no by (subst sbl_chd_forest.simps) (auto simp: Let_def)
        ultimately show ?thesis by simp
      qed
    next
      case Null
      have k: "{k. child_ok b ?l k xto} = {xto}" unfolding Null by (auto simp: child_ok_def)
      then have ex: "extends b ei (?n - length curchd) xto curchd = extends b ei ?m xto (curchd @ [(?l, xto, xto)])"
        unfolding step k by simp
      have "sbl_chd_forest h b ei curchd xto ambset = sbl_chd_forest h b ei (curchd @ [(?l, xto, xto)]) xto ambset"
        using False Null by (subst sbl_chd_forest.simps) (simp add: Let_def)
      then show ?thesis using "1.IH"(1)[OF refl False refl] "1.prems"(1,2) pre Null ex by simp
    qed
  qed
qed

text \<open>C9: the packs of a completed item are exactly the ways to cut its span along its right-hand
  side: each symbol spans nothing, its character, or a completed item of its nonterminal, and the
  spans are adjacent.\<close>

theorem packs_are_decompositions:
  assumes "spans_forward b"
  shows "p \<in> set (sbl_chd_forest h b i [] (i_set i) []) \<longleftrightarrow>
    covers (child_ok b) (seq (body (b_gr b) (i_prod i) ! i_con i)) (i_from i) (i_set i) p"
proof -
  have "len (b_gr b) (i_prod i) (i_con i) = length (seq (body (b_gr b) (i_prod i) ! i_con i))"
    by (simp add: len_def)
  then show ?thesis
    using sbl_chd_forest_set[OF assms, of "[]" i "[]" h "i_set i"] by (simp add: extends_def)
qed


text \<open>The grammar \<open>s => s s | 5\<close> over three fives.\<close>

definition pairs_grammar :: "int grammar" where
  "pairs_grammar = digits_grammar\<lparr>prods := [(Nt 0, [Lits False [Nt 0, Nt 0]]), (Nt 0, [Lits False [Tm 5]])],
     cc_fns := (cc_fns digits_grammar)\<lparr>fns := Map.empty\<rparr>\<rparr>"

definition pairs_builder :: "int builder" where
  "pairs_builder =
     \<lparr>b_gr = pairs_grammar, b_tat = (\<lambda>k. if k < 3 then 5 else -1), b_tpos = 3,
      b_S = [[], [mk_item 1 1 0 0 1], [mk_item 2 1 0 1 1, mk_item 2 0 0 0 2],
             [mk_item 3 1 0 2 1, mk_item 3 0 0 1 2, mk_item 3 0 0 0 2]],
      b_binarize = False, use_citem_index = False, bin_tnt = [], tid = 0,
      sorted_citem = (\<lambda>_. []), rsorted_citem = (\<lambda>_. [])\<rparr>"

lemma pairs_forward: "spans_forward pairs_builder"
  by (auto simp: spans_forward_def child_items_def pairs_builder_def vget_def mk_item_def nth_Cons'
      split: if_splits)

lemma pairs_children:
  "child_items pairs_builder 0 1 = [mk_item 1 1 0 0 1]"
  "child_items pairs_builder 0 2 = [mk_item 2 1 0 1 1, mk_item 2 0 0 0 2]"
  "child_items pairs_builder 0 3 = [mk_item 3 1 0 2 1, mk_item 3 0 0 1 2, mk_item 3 0 0 0 2]"
  by code_simp+

theorem packs_are_decompositions_witness:
  "[(Nt 0, 0, 1), (Nt 0, 1, 3)] \<in> set (sbl_chd_forest (\<lambda>_. 0) pairs_builder (mk_item 3 0 0 0 2) [] 3 []) \<and>
   [(Nt 0, 0, 2), (Nt 0, 2, 3)] \<in> set (sbl_chd_forest (\<lambda>_. 0) pairs_builder (mk_item 3 0 0 0 2) [] 3 []) \<and>
   [(Nt 0, 0, 1), (Nt 0, 1, 2)] \<notin> set (sbl_chd_forest (\<lambda>_. 0) pairs_builder (mk_item 3 0 0 0 2) [] 3 [])"
proof -
  note e = packs_are_decompositions[OF pairs_forward, where i = "mk_item 3 0 0 0 2" and h = "\<lambda>_. 0"]
  have i: "i_set (mk_item 3 0 0 0 2) = 3" "i_from (mk_item 3 0 0 0 2) = 0" by (simp_all add: mk_item_def)
  have b: "seq (body (b_gr pairs_builder) (i_prod (mk_item 3 0 0 0 2)) ! i_con (mk_item 3 0 0 0 2)) = [Nt 0, Nt 0]"
    by (simp add: pairs_builder_def pairs_grammar_def body_def mk_item_def)
  have f: "i_from (mk_item s p c f d) = f" for s p c f d by (simp add: mk_item_def)
  show ?thesis using e unfolding i b by (simp add: child_ok_def pairs_children pairs_children(1)[unfolded One_nat_def] f)
qed

section \<open>Disambiguation\<close>

lemma min_column_sub: "cand \<noteq> [] \<Longrightarrow> min_column k cand \<noteq> [] \<and> set (min_column k cand) \<subseteq> set cand"
proof -
  assume "cand \<noteq> []"
  then have "Min ((\<lambda>p. span_of (p ! k)) ` set cand) \<in> (\<lambda>p. span_of (p ! k)) ` set cand" by (intro Min_in) auto
  then have "\<exists>p \<in> set cand. span_of (p ! k) = Min ((\<lambda>p. span_of (p ! k)) ` set cand)" by auto
  then show ?thesis unfolding min_column_def filter_empty_conv by auto
qed

lemma pick_columns_sub:
  "cand \<noteq> [] \<Longrightarrow> pick_columns k m cand \<noteq> [] \<and> set (pick_columns k m cand) \<subseteq> set cand"
proof (induction k m cand rule: pick_columns.induct)
  case (1 k m cand)
  show ?case using 1 min_column_sub[OF "1.prems", of k] by (subst (1 2) pick_columns.simps) auto
qed

lemma pick_best_mem: "cand \<noteq> [] \<Longrightarrow> pick_best cand \<in> set cand"
proof -
  assume c: "cand \<noteq> []"
  let ?cs = "pick_columns 0 (Min (length ` set cand)) cand"
  have "hd ?cs \<in> set ?cs" "set ?cs \<subseteq> set cand" using pick_columns_sub[OF c] by simp_all
  then show ?thesis using c unfolding pick_best_def by auto
qed

definition span_columns :: "nat \<Rightarrow> nat \<Rightarrow> 't pnodes \<Rightarrow> nat list" where
  "span_columns k m p = map (\<lambda>j. span_of (p ! j)) [k..<m]"

lemma span_columns_step: "k < m \<Longrightarrow> span_columns k m p = span_of (p ! k) # span_columns (k + 1) m p"
  by (simp add: span_columns_def upt_conv_Cons)

lemma pick_columns_least:
  assumes "p \<in> set (pick_columns k m cand)" "q \<in> set cand"
  shows "\<not> lex_less (<) (span_columns k m q) (span_columns k m p)"
  using assms
proof (induction k m cand rule: pick_columns.induct)
  case (1 k m cand)
  show ?case
  proof (cases "k < m \<and> length cand > 1")
    case False
    then have "p \<in> set cand" using "1.prems"(1) by (subst (asm) pick_columns.simps) (auto split: if_splits)
    moreover have "m \<le> k \<or> (\<exists>x. cand = [x])" using False "1.prems"(2) by (cases cand) auto
    ultimately show ?thesis using "1.prems"(2) by (auto simp: span_columns_def less.lex_irrefl)
  next
    case True
    then have pc: "p \<in> set (pick_columns (k + 1) m (min_column k cand))"
      using "1.prems"(1) by (subst (asm) pick_columns.simps) simp
    have "min_column k cand \<noteq> []" using min_column_sub "1.prems"(2) by (cases cand) auto
    then have "p \<in> set (min_column k cand)" using pc pick_columns_sub by blast
    then have pm: "span_of (p ! k) = Min ((\<lambda>p. span_of (p ! k)) ` set cand)" by (simp add: min_column_def)
    have "span_of (p ! k) \<le> span_of (q ! k)" unfolding pm using "1.prems"(2) by (intro Min_le) auto
    moreover have "\<not> lex_less (<) (span_columns (k + 1) m q) (span_columns (k + 1) m p)"
      if "span_of (q ! k) = span_of (p ! k)"
      using "1.IH"[OF True pc] that pm "1.prems"(2) by (simp add: min_column_def)
    ultimately show ?thesis using True by (auto simp: span_columns_step)
  qed
qed

text \<open>C10: the disambiguation picks one of the packs, and no other pack has smaller spans, read
  from the left over the columns all packs have.\<close>

theorem pick_best_least:
  assumes "packs \<noteq> []"
  shows "pick_best packs \<in> set packs \<and>
    (\<forall>q \<in> set packs. \<not> lex_less (<) (span_columns 0 (Min (length ` set packs)) q)
      (span_columns 0 (Min (length ` set packs)) (pick_best packs)))"
proof -
  let ?m = "Min (length ` set packs)"
  have ne: "pick_columns 0 ?m packs \<noteq> []" "set (pick_columns 0 ?m packs) \<subseteq> set packs"
    using pick_columns_sub[OF assms] by auto
  have p: "pick_best packs = hd (pick_columns 0 ?m packs)" using assms by (simp add: pick_best_def)
  then have "pick_best packs \<in> set (pick_columns 0 ?m packs)" using ne(1) by simp
  then show ?thesis using ne(2) pick_columns_least by blast
qed

theorem pick_best_least_witness:
  "pick_best [[(Nt 0, 0, 2), (Nt 0, 2, 3)], [(Nt 0, 0, 1), (Nt 0, 1, 3)]] = [(Nt 0, 0, 1), (Nt 0, 1, 3)]"
  using pick_best_least[of "[[(Nt 0, 0, 2), (Nt 0, 2, 3)], [(Nt 0, 0, 1), (Nt 0, 1, 3)]]"]
  by (auto simp: span_columns_def span_of_def upt_rec)

end
