(* ===== verification/Bintree.thy ===== *)
theory Bintree
  imports Packs
begin

text \<open>
  The tree builder of \<open>src/src/parser.tmpl.h\<close>, \<open>build_bintree\<close>: a stack machine with one frame per node
  under construction. \<open>emits\<close> is the recursion the machine unrolls; the machine returns for every
  chart and its result is what the recursion gives.
\<close>

section \<open>Trees\<close>

text \<open>The tree store interns nodes, so a \<open>tref\<close> is the tree it stands for.\<close>

datatype 't ptree = PNode (node_of: "'t pnode") (child_trees: "'t ptree list")

definition leaf :: "'t pnode \<Rightarrow> 't ptree" where
  "leaf n = PNode n []"

section \<open>The machine\<close>

record 't frame =
  f_node :: "'t pnode"
  f_sink :: "nat option"
  f_flatten :: bool
  f_amb :: bool
  f_packs :: "'t pnodes list"
  f_pi :: nat
  f_ei :: nat
  f_children :: "'t ptree list"
  f_alts :: "'t ptree list"

record 't build =
  bd_b :: "'t builder"
  bd_stack :: "'t frame list"
  bd_result :: "'t ptree list"
  bd_visiting :: "'t pnode set"

definition nt_name :: "('t, 'z) grammar_scheme \<Rightarrow> nat \<Rightarrow> string" where
  "nt_name g n = (if n < length (nts g) then nts g ! n else [])"

definition is_ebnf :: "'t builder \<Rightarrow> 't pnode \<Rightarrow> bool" where
  "is_ebnf b nd \<longleftrightarrow> take 4 (nt_name (b_gr b) (lit_n (fst nd))) = ''__E_''"

text \<open>\<open>sink_of\<close> followed by \<open>push_back\<close>: to the children of a frame or to the result.\<close>

definition push_out :: "nat option \<Rightarrow> 't ptree list \<Rightarrow> 't build \<Rightarrow> 't build" where
  "push_out si ts d =
     (case si of
        None \<Rightarrow> d\<lparr>bd_result := bd_result d @ ts\<rparr>
      | Some k \<Rightarrow> d\<lparr>bd_stack := (bd_stack d)[k := (bd_stack d ! k)\<lparr>f_children := f_children (bd_stack d ! k) @ ts\<rparr>]\<rparr>)"

definition sink_from :: "nat option \<Rightarrow> 't frame list \<Rightarrow> nat option" where
  "sink_from from K =
     (case from of None \<Rightarrow> None
      | Some k \<Rightarrow> if f_flatten (K ! k) then f_sink (K ! k) else Some k)"

definition push_frame ::
  "'t pnode \<Rightarrow> nat option \<Rightarrow> bool \<Rightarrow> bool \<Rightarrow> 't pnodes list \<Rightarrow> 't build \<Rightarrow> 't build" where
  "push_frame n from flatten amb packs d =
     d\<lparr>bd_visiting := insert n (bd_visiting d),
       bd_stack := bd_stack d @
         [\<lparr>f_node = n, f_sink = sink_from from (bd_stack d), f_flatten = flatten, f_amb = amb, f_packs = packs,
           f_pi = 0, f_ei = 0, f_children = [], f_alts = []\<rparr>]\<rparr>"

definition open_node :: "'t::{linorder,zero} node_hash \<Rightarrow> 't pnode \<Rightarrow> nat option \<Rightarrow> 't build \<Rightarrow> 't build" where
  "open_node h n from d =
     (case collect_packs h (bd_b d) n of (ad_allowed, packs) \<Rightarrow>
        if packs = [] then
          (if is_ebnf (bd_b d) n then d else push_out (sink_from from (bd_stack d)) [leaf n] d)
        else if length packs = 1 then push_frame n from (is_ebnf (bd_b d) n) False [hd packs] d
        else if ad_allowed then push_frame n from (is_ebnf (bd_b d) n) False [pick_best packs] d
        else push_frame n from False True packs d)"

definition set_top :: "('t frame \<Rightarrow> 't frame) \<Rightarrow> 't build \<Rightarrow> 't build" where
  "set_top u d = d\<lparr>bd_stack := (bd_stack d)[length (bd_stack d) - 1 := u (last (bd_stack d))]\<rparr>"

text \<open>The next child of the pack of the top frame.\<close>

definition next_child :: "'t::{linorder,zero} node_hash \<Rightarrow> 't build \<Rightarrow> 't build" where
  "next_child h d =
     (let fi = length (bd_stack d) - 1; f = last (bd_stack d);
          nxt = f_packs f ! f_pi f ! f_ei f;
          si = (if f_flatten f then f_sink f else Some fi);
          d = set_top (\<lambda>f. f\<lparr>f_ei := f_ei f + 1\<rparr>) d
      in if \<not> is_nt (fst nxt) then push_out si [leaf nxt] d
         else if nxt \<in> bd_visiting d then
           (if is_ebnf (bd_b d) nxt then d else push_out si [leaf nxt] d)
         else open_node h nxt (Some fi) d)"

text \<open>The end of a pack: an alternative is a node of its own.\<close>

definition next_pack :: "'t build \<Rightarrow> 't build" where
  "next_pack d = set_top (\<lambda>f.
     (if f_amb f then f\<lparr>f_alts := f_alts f @ [PNode (f_node f) (f_children f)], f_children := []\<rparr> else f)
       \<lparr>f_pi := f_pi f + 1, f_ei := 0\<rparr>) d"

text \<open>The end of a frame: its node goes to its sink.\<close>

definition close_frame :: "'t build \<Rightarrow> 't build" where
  "close_frame d =
     (let f = last (bd_stack d);
          (rs, d) = (if f_amb f then
                       (case grammar_nt ''__AMB__'' (b_gr (bd_b d)) of (l, g) \<Rightarrow>
                          ([PNode (l, snd (f_node f)) (f_alts f)], d\<lparr>bd_b := (bd_b d)\<lparr>b_gr := g\<rparr>\<rparr>))
                     else (if f_flatten f then [] else [PNode (f_node f) (f_children f)], d));
          d = (if rs = [] then d else push_out (f_sink f) rs d)
      in d\<lparr>bd_visiting := bd_visiting d - {f_node f}, bd_stack := butlast (bd_stack d)\<rparr>)"

definition build_step :: "'t::{linorder,zero} node_hash \<Rightarrow> 't build \<Rightarrow> 't build" where
  "build_step h d =
     (let f = last (bd_stack d) in
      if f_pi f < length (f_packs f) then
        (if f_ei f < length (f_packs f ! f_pi f) then next_child h d else next_pack d)
      else close_frame d)"

partial_function (option) build_loop :: "'t::{linorder,zero} node_hash \<Rightarrow> 't build \<Rightarrow> 't build option" where
  [code]: "build_loop h d = (if bd_stack d = [] then Some d else build_loop h (build_step h d))"

definition build_root :: "'t::{linorder,zero} node_hash \<Rightarrow> 't pnode \<Rightarrow> 't build \<Rightarrow> ('t ptree option \<times> 't builder) option" where
  "build_root h root d =
     (if \<not> is_nt (fst root) then Some (Some (leaf root), bd_b d)
      else case build_loop h (open_node h root None d) of
             None \<Rightarrow> None
           | Some d \<Rightarrow> Some (if bd_result d = [] then None else Some (hd (bd_result d)), bd_b d))"

text \<open>\<open>build_bintree\<close>: only the binarization needs the indexes.\<close>

definition clear_indexes :: "'t builder \<Rightarrow> 't builder" where
  "clear_indexes b = b\<lparr>bin_tnt := [], sorted_citem := (\<lambda>_. []), rsorted_citem := (\<lambda>_. []), tid := 0\<rparr>"

definition prepare_bintree :: "'t::{linorder,zero} builder \<Rightarrow> 't builder" where
  "prepare_bintree b =
     (let b = (clear_indexes b)\<lparr>use_citem_index := b_binarize b\<rparr>
      in if use_citem_index b then do_preprocess b else b)"

definition build_bintree ::
  "'t::{linorder,zero} node_hash \<Rightarrow> 't lit \<Rightarrow> 't builder \<Rightarrow> ('t ptree option \<times> 't builder) option" where
  "build_bintree h sl b =
     build_root h (sl, 0, b_tpos b)
       \<lparr>bd_b = prepare_bintree b, bd_stack = [], bd_result = [], bd_visiting = {}\<rparr>"

section \<open>The recursion\<close>

text \<open>\<open>emits h b V n out\<close>: with the nodes \<open>V\<close> open above it, the child \<open>n\<close> puts the trees \<open>out\<close>
  into the node that holds it. \<open>emits_all\<close> does the children of a pack, \<open>alternatives\<close> the packs of an
  ambiguous node.\<close>

definition amb_lit :: "'t builder \<Rightarrow> 't lit" where
  "amb_lit b = fst (grammar_nt ''__AMB__'' (b_gr b))"

text \<open>The pack a node is built from, when it is one.\<close>

definition chosen_pack :: "'t::{linorder,zero} node_hash \<Rightarrow> 't builder \<Rightarrow> 't pnode \<Rightarrow> 't pnodes option" where
  "chosen_pack h b n =
     (case collect_packs h b n of (ad, packs) \<Rightarrow>
        if length packs = 1 then Some (hd packs)
        else if packs \<noteq> [] \<and> ad then Some (pick_best packs) else None)"

inductive emits :: "'t::{linorder,zero} node_hash \<Rightarrow> 't builder \<Rightarrow> 't pnode set \<Rightarrow> 't pnode \<Rightarrow> 't ptree list \<Rightarrow> bool"
  and emits_all :: "'t node_hash \<Rightarrow> 't builder \<Rightarrow> 't pnode set \<Rightarrow> 't pnodes \<Rightarrow> 't ptree list \<Rightarrow> bool"
  and alternatives :: "'t node_hash \<Rightarrow> 't builder \<Rightarrow> 't pnode set \<Rightarrow> 't pnode \<Rightarrow> 't pnodes list \<Rightarrow> 't ptree list \<Rightarrow> bool"
  for h b where
  terminal: "\<not> is_nt (fst n) \<Longrightarrow> emits h b V n [leaf n]"
| opened: "is_nt (fst n) \<Longrightarrow> n \<in> V \<Longrightarrow> emits h b V n (if is_ebnf b n then [] else [leaf n])"
| empty: "is_nt (fst n) \<Longrightarrow> n \<notin> V \<Longrightarrow> snd (collect_packs h b n) = [] \<Longrightarrow>
    emits h b V n (if is_ebnf b n then [] else [leaf n])"
| single: "is_nt (fst n) \<Longrightarrow> n \<notin> V \<Longrightarrow> chosen_pack h b n = Some p \<Longrightarrow> emits_all h b (insert n V) p out \<Longrightarrow>
    emits h b V n (if is_ebnf b n then out else [PNode n out])"
| ambiguous: "is_nt (fst n) \<Longrightarrow> n \<notin> V \<Longrightarrow> chosen_pack h b n = None \<Longrightarrow> snd (collect_packs h b n) \<noteq> [] \<Longrightarrow>
    alternatives h b (insert n V) n (snd (collect_packs h b n)) alts \<Longrightarrow>
    emits h b V n [PNode (amb_lit b, snd n) alts]"
| finished: "emits_all h b V [] []"
| more: "emits h b V n out \<Longrightarrow> emits_all h b V ns outs \<Longrightarrow> emits_all h b V (n # ns) (out @ outs)"
| no_alts: "alternatives h b V n [] []"
| alts: "emits_all h b V p out \<Longrightarrow> alternatives h b V n qs outs \<Longrightarrow>
    alternatives h b V n (p # qs) (PNode n out # outs)"

section \<open>The name of the ambiguity node\<close>

text \<open>Closing an ambiguous node may add its name to the grammar; nothing the builder reads depends
  on it.\<close>

definition with_amb :: "'t builder \<Rightarrow> 't builder" where
  "with_amb b = b\<lparr>b_gr := snd (grammar_nt ''__AMB__'' (b_gr b))\<rparr>"

lemma with_amb_eq: "with_amb b = b\<lparr>b_gr := (b_gr b)\<lparr>nts := snd (nts_get ''__AMB__'' (nts (b_gr b)))\<rparr>\<rparr>"
  by (simp add: with_amb_def grammar_nt_def split: prod.splits)

abbreviation renamed :: "names \<Rightarrow> 't builder \<Rightarrow> 't builder" where
  "renamed ns b \<equiv> b\<lparr>b_gr := (b_gr b)\<lparr>nts := ns\<rparr>\<rparr>"

lemmas reads_no_names = body_def len_def head_def get_nt_def completed_def n_literals_def

lemma child_items_renamed: "child_items (renamed ns b) = child_items b"
  by (intro ext) (simp add: child_items_def reads_no_names)

lemma body_renamed:
  "body (b_gr (renamed ns b)) = body (b_gr b)" "len (b_gr (renamed ns b)) = len (b_gr b)"
  by (intro ext; simp add: reads_no_names)+

lemma fields_renamed:
  "b_tat (renamed ns b) = b_tat b" "bin_tnt (renamed ns b) = bin_tnt b"
  "sorted_citem (renamed ns b) = sorted_citem b" "rsorted_citem (renamed ns b) = rsorted_citem b"
  "b_S (renamed ns b) = b_S b" "b_binarize (renamed ns b) = b_binarize b"
  "cc_fns (b_gr (renamed ns b)) = cc_fns (b_gr b)"
  by simp_all

lemma sbl_chd_forest_renamed:
  "sbl_chd_forest h (renamed ns b) ei curchd xto ambset = sbl_chd_forest h b ei curchd xto ambset"
  by (rule sbl_chd_forest_cong[OF body_renamed fields_renamed(1) child_items_renamed])

lemma item_packs_renamed: "item_packs h (renamed ns b) i = item_packs h b i"
proof -
  have "right_comb (renamed ns b) ei r = right_comb b ei r" for ei r
    by (simp add: right_comb_def)
  then have "binarize_comb h (renamed ns b) i amb = binarize_comb h b i amb" for amb
    unfolding binarize_comb_def body_renamed fields_renamed by simp
  then show ?thesis unfolding item_packs_def fields_renamed by (simp add: sbl_chd_forest_renamed)
qed

lemma derived_class_packs_renamed: "derived_class_packs h (renamed ns b) n k ad qs = derived_class_packs h b n k ad qs"
proof -
  have "rule_prod_accepts (b_gr (renamed ns b)) p c = rule_prod_accepts (b_gr b) p c"
    "enabled_source_prods (b_gr (renamed ns b)) n = enabled_source_prods (b_gr b) n" for p c n
    by (simp_all add: rule_prod_accepts_def enabled_source_prods_def guard_enabled_def)
  then show ?thesis unfolding derived_class_packs_def accepting_packs_def body_renamed fields_renamed by simp
qed

lemma collect_packs_renamed: "collect_packs h (renamed ns b) n = collect_packs h b n"
proof -
  have m: "matching_items (renamed ns b) = matching_items b"
    by (intro ext) (simp add: matching_items_def reads_no_names)
  have p: "best_packs h (renamed ns b) is = best_packs h b is" for "is"
    unfolding best_packs_def best_step_def[abs_def] item_packs_renamed by simp
  have c: "check_allowed (renamed ns b) n = check_allowed b n" by (simp add: check_allowed_def)
  have u: "uses_derived_recipe (b_gr (renamed ns b)) = uses_derived_recipe (b_gr b)"
    "is_cc_fn (b_gr (renamed ns b)) = is_cc_fn (b_gr b)"
    "is_eof_fn (b_gr (renamed ns b)) = is_eof_fn (b_gr b)"
    by (intro ext; simp add: uses_derived_recipe_def is_cc_fn_def is_eof_fn_def)+
  show ?thesis unfolding collect_packs_def m p c u fields_renamed item_packs_renamed derived_class_packs_renamed by simp
qed

text \<open>The builder with or without the name: what the machine's state holds.\<close>

definition same_builder :: "'t builder \<Rightarrow> 't builder \<Rightarrow> bool" where
  "same_builder b b' \<longleftrightarrow> b' = b \<or> b' = with_amb b"

lemma nts_get_idem: "nts_get s (snd (nts_get s ns)) = (fst (nts_get s ns), snd (nts_get s ns))"
proof -
  have "index_of s (ns @ [s]) = Some (length ns)" if "index_of s ns = None"
    using that by (induction ns) (auto split: if_splits)
  then show ?thesis by (auto simp: nts_get_def nts_find_def split: option.splits)
qed

lemma with_amb_idem [simp]: "with_amb (with_amb b) = with_amb b"
  by (simp add: with_amb_eq nts_get_idem)

lemma amb_lit_with_amb [simp]: "amb_lit (with_amb b) = amb_lit b"
  by (simp add: amb_lit_def grammar_nt_def with_amb_eq nts_get_idem split: prod.splits)

lemma is_ebnf_with_amb [simp]: "is_ebnf (with_amb b) n = is_ebnf b n"
  by (auto simp: is_ebnf_def nt_name_def with_amb_eq nts_get_def nth_append less_Suc_eq split: option.splits)

lemma collect_packs_with_amb [simp]: "collect_packs h (with_amb b) n = collect_packs h b n"
  unfolding with_amb_eq by (rule collect_packs_renamed)

lemma same_builder_facts:
  assumes "same_builder b b'"
  shows "collect_packs h b' n = collect_packs h b n" "is_ebnf b' n = is_ebnf b n"
    "amb_lit b' = amb_lit b" "same_builder b (with_amb b')"
  using assms by (auto simp: same_builder_def)

section \<open>The machine follows the recursion\<close>

abbreviation bst :: "'t builder \<Rightarrow> 't frame list \<Rightarrow> 't ptree list \<Rightarrow> 't pnode set \<Rightarrow> 't build" where
  "bst b K r V \<equiv> \<lparr>bd_b = b, bd_stack = K, bd_result = r, bd_visiting = V\<rparr>"

text \<open>What the loop does with a child, under the frame \<open>from\<close>.\<close>

definition offer :: "'t::{linorder,zero} node_hash \<Rightarrow> 't pnode \<Rightarrow> nat option \<Rightarrow> 't build \<Rightarrow> 't build" where
  "offer h n from d =
     (if \<not> is_nt (fst n) then push_out (sink_from from (bd_stack d)) [leaf n] d
      else if n \<in> bd_visiting d then
        (if is_ebnf (bd_b d) n then d else push_out (sink_from from (bd_stack d)) [leaf n] d)
      else open_node h n from d)"

text \<open>Every frame delivers to a frame below it.\<close>

definition sink_ok :: "nat option \<Rightarrow> nat \<Rightarrow> bool" where
  "sink_ok si k \<longleftrightarrow> (case si of None \<Rightarrow> True | Some j \<Rightarrow> j < k)"

definition stack_ok :: "'t frame list \<Rightarrow> bool" where
  "stack_ok K \<longleftrightarrow> (\<forall>k < length K. sink_ok (f_sink (K ! k)) k)"

definition from_ok :: "nat option \<Rightarrow> 't frame list \<Rightarrow> bool" where
  "from_ok from K \<longleftrightarrow> (case from of None \<Rightarrow> True | Some k \<Rightarrow> k < length K)"

lemma stack_ok_snoc: "stack_ok (K @ [F]) \<longleftrightarrow> stack_ok K \<and> sink_ok (f_sink F) (length K)"
  by (auto simp: stack_ok_def nth_append less_Suc_eq)

lemma sink_from_ok: "stack_ok K \<Longrightarrow> from_ok from K \<Longrightarrow> sink_ok (sink_from from K) (length K)"
  by (auto simp: sink_from_def from_ok_def stack_ok_def sink_ok_def split: option.splits)

lemma sink_from_top [simp]:
  "sink_from (Some (length K)) (K @ [F]) = (if f_flatten F then f_sink F else Some (length K))"
  by (simp add: sink_from_def)

lemma push_out_nil: "push_out si [] d = d"
  by (auto simp: push_out_def split: option.splits)

lemma push_out_append:
  "sink_ok si (length (bd_stack d)) \<Longrightarrow> push_out si ts (push_out si us d) = push_out si (us @ ts) d"
  by (auto simp: push_out_def sink_ok_def split: option.splits)

text \<open>A delivery below the top leaves the top alone.\<close>

lemma push_below:
  assumes "sink_ok si (length K)"
  obtains K' r' where "length K' = length K" "\<And>b V. push_out si ts (bst b K r V) = bst b K' r' V"
    "\<And>b V F. push_out si ts (bst b (K @ [F]) r V) = bst b (K' @ [F]) r' V" "stack_ok K' = stack_ok K"
proof (cases si)
  case None
  show ?thesis by (rule that[of K "r @ ts"]) (simp_all add: push_out_def None)
next
  case (Some k)
  then have k: "k < length K" using assms by (simp add: sink_ok_def)
  let ?K = "K[k := (K ! k)\<lparr>f_children := f_children (K ! k) @ ts\<rparr>]"
  have "f_sink (?K ! j) = f_sink (K ! j)" if "j < length K" for j using k that by (simp add: nth_list_update)
  then have "stack_ok ?K = stack_ok K" by (simp add: stack_ok_def)
  then show ?thesis
    by (intro that[of ?K r]) (use k in \<open>simp_all add: push_out_def Some nth_append list_update_append1\<close>)
qed

lemma loop_step: "bd_stack d \<noteq> [] \<Longrightarrow> build_loop h d = build_loop h (build_step h d)"
  by (subst build_loop.simps) simp

lemma push_out_builder: "push_out si ts d\<lparr>bd_b := b\<rparr> = push_out si ts (d\<lparr>bd_b := b\<rparr>)"
  by (auto simp: push_out_def split: option.splits)

lemma set_top_snoc: "set_top u (bst b (K @ [F]) r V) = bst b (K @ [u F]) r V"
  by (simp add: set_top_def)

lemma step_child:
  assumes "f_pi F < length (f_packs F)" "f_ei F < length (f_packs F ! f_pi F)"
  shows "build_loop h (bst b (K @ [F]) r V) =
    build_loop h (offer h (f_packs F ! f_pi F ! f_ei F) (Some (length K)) (bst b (K @ [F\<lparr>f_ei := f_ei F + 1\<rparr>]) r V))"
  using assms by (subst loop_step) (simp_all add: build_step_def Let_def next_child_def set_top_snoc offer_def)

lemma step_pack:
  assumes "f_pi F < length (f_packs F)" "f_ei F = length (f_packs F ! f_pi F)"
  shows "build_loop h (bst b (K @ [F]) r V) = build_loop h (bst b (K @ [
     (if f_amb F then F\<lparr>f_alts := f_alts F @ [PNode (f_node F) (f_children F)], f_children := []\<rparr> else F)
       \<lparr>f_pi := f_pi F + 1, f_ei := 0\<rparr>]) r V)"
  using assms by (subst loop_step) (simp_all add: build_step_def Let_def next_pack_def set_top_snoc)

lemma step_close:
  assumes "f_pi F = length (f_packs F)" "sink_ok (f_sink F) (length K)"
  shows "build_loop h (bst b (K @ [F]) r V) = build_loop h (
     if f_amb F then push_out (f_sink F) [PNode (amb_lit b, snd (f_node F)) (f_alts F)] (bst (with_amb b) K r (V - {f_node F}))
     else if f_flatten F then bst b K r (V - {f_node F})
     else push_out (f_sink F) [PNode (f_node F) (f_children F)] (bst b K r (V - {f_node F})))"
proof -
  let ?rs = "if f_amb F then [PNode (amb_lit b, snd (f_node F)) (f_alts F)]
     else if f_flatten F then [] else [PNode (f_node F) (f_children F)]"
  obtain K' r' where p: "\<And>b V. push_out (f_sink F) ?rs (bst b K r V) = bst b K' r' V"
    "\<And>b V F'. push_out (f_sink F) ?rs (bst b (K @ [F']) r V) = bst b (K' @ [F']) r' V"
    using push_below[OF assms(2)] by metis
  show ?thesis using assms(1) p
    by (subst loop_step)
       (auto simp: build_step_def close_frame_def Let_def amb_lit_def with_amb_def push_out_nil split: prod.splits)
qed

definition runs_to :: "'t::{linorder,zero} node_hash \<Rightarrow> 't builder \<Rightarrow> ('t builder \<Rightarrow> 't build) \<Rightarrow> ('t builder \<Rightarrow> 't build) \<Rightarrow> bool" where
  "runs_to h b d d' \<longleftrightarrow>
     (\<forall>b1. same_builder b b1 \<longrightarrow> (\<exists>b2. same_builder b b2 \<and> build_loop h (d b1) = build_loop h (d' b2)))"

lemma runs_toI: "(\<And>b1. same_builder b b1 \<Longrightarrow> build_loop h (d b1) = build_loop h (d' b1)) \<Longrightarrow> runs_to h b d d'"
  by (auto simp: runs_to_def)

lemma runs_to_trans [trans]: "runs_to h b d d' \<Longrightarrow> runs_to h b d' d'' \<Longrightarrow> runs_to h b d d''"
  unfolding runs_to_def by metis

lemma offer_open:
  assumes "is_nt (fst n)" "n \<notin> V" "chosen_pack h b n = Some p" "same_builder b b1"
  shows "offer h n src (bst b1 K r V) = bst b1 (K @ [\<lparr>f_node = n, f_sink = sink_from src K,
     f_flatten = is_ebnf b n, f_amb = False, f_packs = [p], f_pi = 0, f_ei = 0, f_children = [], f_alts = []\<rparr>]) r (insert n V)"
  using assms
  by (auto simp: offer_def open_node_def chosen_pack_def same_builder_facts push_frame_def split: prod.splits if_splits)

lemma offer_amb:
  assumes "is_nt (fst n)" "n \<notin> V" "chosen_pack h b n = None" "snd (collect_packs h b n) \<noteq> []" "same_builder b b1"
  shows "offer h n src (bst b1 K r V) = bst b1 (K @ [\<lparr>f_node = n, f_sink = sink_from src K,
     f_flatten = False, f_amb = True, f_packs = snd (collect_packs h b n), f_pi = 0, f_ei = 0, f_children = [], f_alts = []\<rparr>]) r (insert n V)"
  using assms
  by (auto simp: offer_def open_node_def chosen_pack_def same_builder_facts push_frame_def split: prod.splits if_splits)

text \<open>A frame that is no alternative closes into its sink.\<close>

lemma close_single:
  assumes "\<not> f_amb F" "f_packs F = [p]" "f_pi F = 0" "f_ei F = length p" "sink_ok (f_sink F) (length K)"
  shows "build_loop h (bst b1 (K @ [F]) r V) = build_loop h
    (push_out (f_sink F) (if f_flatten F then [] else [PNode (f_node F) (f_children F)]) (bst b1 K r (V - {f_node F})))"
  using assms by (subst step_pack) (simp_all add: step_close push_out_nil)

lemma drop_ConsD: "drop k xs = y # ys \<Longrightarrow> k < length xs \<and> xs ! k = y \<and> drop (k + 1) xs = ys"
proof (induction xs arbitrary: k)
  case (Cons x xs)
  then show ?case by (cases k) auto
qed simp

lemma emits_runs:
  "emits h b V n out \<Longrightarrow> stack_ok K \<Longrightarrow> from_ok src K \<Longrightarrow>
     runs_to h b (\<lambda>c. offer h n src (bst c K r V)) (\<lambda>c. push_out (sink_from src K) out (bst c K r V))"
  "emits_all h b V qs outs \<Longrightarrow> stack_ok (K @ [F]) \<Longrightarrow> f_pi F < length (f_packs F) \<Longrightarrow>
     f_ei F \<le> length (f_packs F ! f_pi F) \<Longrightarrow> drop (f_ei F) (f_packs F ! f_pi F) = qs \<Longrightarrow>
     runs_to h b (\<lambda>c. bst c (K @ [F]) r V)
       (\<lambda>c. push_out (if f_flatten F then f_sink F else Some (length K)) outs
              (bst c (K @ [F\<lparr>f_ei := length (f_packs F ! f_pi F)\<rparr>]) r V))"
  "alternatives h b V n packs ts \<Longrightarrow> stack_ok (K @ [F]) \<Longrightarrow> f_amb F \<Longrightarrow> \<not> f_flatten F \<Longrightarrow> f_node F = n \<Longrightarrow>
     f_children F = [] \<Longrightarrow> f_ei F = 0 \<Longrightarrow> f_pi F \<le> length (f_packs F) \<Longrightarrow> drop (f_pi F) (f_packs F) = packs \<Longrightarrow>
     runs_to h b (\<lambda>c. bst c (K @ [F]) r V)
       (\<lambda>c. bst c (K @ [F\<lparr>f_alts := f_alts F @ ts, f_pi := length (f_packs F)\<rparr>]) r V)"
proof (induction arbitrary: K r src and K r F and K r F rule: emits_emits_all_alternatives.inducts)
  case (terminal n V)
  then show ?case by (intro runs_toI) (simp add: offer_def)
next
  case (opened n V)
  then show ?case by (intro runs_toI) (auto simp: offer_def push_out_nil same_builder_facts)
next
  case (empty n V)
  then show ?case
    by (intro runs_toI) (auto simp: offer_def open_node_def push_out_nil same_builder_facts split: prod.splits)
next
  case (single n V p out)
  define si where "si = sink_from src K"
  define F where "F = \<lparr>f_node = n, f_sink = si, f_flatten = is_ebnf b n, f_amb = False, f_packs = [p], f_pi = 0,
    f_ei = 0, f_children = [], f_alts = []\<rparr>"
  have F: "f_node F = n" "f_sink F = si" "f_flatten F = is_ebnf b n" "\<not> f_amb F" "f_packs F = [p]" "f_pi F = 0"
    "f_ei F = 0" "f_children F = []" "f_alts F = []" by (simp_all add: F_def)
  have si: "sink_ok si (length K)" unfolding si_def by (rule sink_from_ok) (use single in auto)
  have "runs_to h b (\<lambda>c. offer h n src (bst c K r V)) (\<lambda>c. bst c (K @ [F]) r (insert n V))"
    by (intro runs_toI) (simp add: offer_open[OF single(1-3)] F_def si_def)
  also have "runs_to h b \<dots> (\<lambda>c. push_out (if is_ebnf b n then f_sink F else Some (length K)) out
      (bst c (K @ [F\<lparr>f_ei := length p\<rparr>]) r (insert n V)))"
    using single(5)[of K F r] single(6,7) si[folded F(2)] by (simp add: F(3-9) stack_ok_snoc)
  also have "runs_to h b \<dots> (\<lambda>c. push_out si (if is_ebnf b n then out else [PNode n out]) (bst c K r V))"
  proof (cases "is_ebnf b n")
    case True
    obtain K' r' where p: "length K' = length K" "\<And>c V. push_out si out (bst c K r V) = bst c K' r' V"
      "\<And>c V G. push_out si out (bst c (K @ [G]) r V) = bst c (K' @ [G]) r' V"
      using push_below[OF si] by metis
    show ?thesis using True p si single(2) by (intro runs_toI) (simp add: close_single F push_out_nil)
  next
    case False
    then show ?thesis using si single(2)
      by (intro runs_toI) (simp add: push_out_def[of "Some _"] close_single F)
  qed
  finally show ?case unfolding si_def .
next
  case (ambiguous n V ts)
  let ?packs = "snd (collect_packs h b n)"
  define si where "si = sink_from src K"
  define F where "F = \<lparr>f_node = n, f_sink = si, f_flatten = False, f_amb = True, f_packs = ?packs, f_pi = 0,
    f_ei = 0, f_children = [], f_alts = []\<rparr>"
  have F: "f_node F = n" "f_sink F = si" "\<not> f_flatten F" "f_amb F" "f_packs F = ?packs" "f_pi F = 0"
    "f_ei F = 0" "f_children F = []" "f_alts F = []" by (simp_all add: F_def)
  have si: "sink_ok si (length K)" unfolding si_def by (rule sink_from_ok) (use ambiguous in auto)
  have "runs_to h b (\<lambda>c. offer h n src (bst c K r V)) (\<lambda>c. bst c (K @ [F]) r (insert n V))"
    by (intro runs_toI) (simp add: offer_amb[OF ambiguous(1-4)] F_def si_def)
  also have "runs_to h b \<dots> (\<lambda>c. bst c (K @ [F\<lparr>f_alts := ts, f_pi := length ?packs\<rparr>]) r (insert n V))"
    using ambiguous(6)[of K F r] ambiguous(7) si by (simp add: F stack_ok_snoc)
  also have "runs_to h b \<dots> (\<lambda>c. push_out si [PNode (amb_lit b, snd n) ts] (bst c K r V))"
    unfolding runs_to_def
  proof (intro allI impI)
    fix b1 assume s: "same_builder b b1"
    then show "\<exists>b2. same_builder b b2 \<and>
      build_loop h (bst b1 (K @ [F\<lparr>f_alts := ts, f_pi := length ?packs\<rparr>]) r (insert n V)) =
      build_loop h (push_out si [PNode (amb_lit b, snd n) ts] (bst b2 K r V))"
      using si ambiguous(2) by (intro exI[of _ "with_amb b1"]) (simp add: step_close F same_builder_facts)
  qed
  finally show ?case unfolding si_def .
next
  case (finished V)
  then show ?case by (intro runs_toI) (simp add: push_out_nil)
next
  case (more V n out ns outs)
  let ?p = "f_packs F ! f_pi F"
  let ?G = "F\<lparr>f_ei := f_ei F + 1\<rparr>"
  have lt: "f_ei F < length ?p" "?p ! f_ei F = n" "drop (f_ei F + 1) ?p = ns"
    using drop_ConsD[OF more.prems(4)] by simp_all
  have ok: "stack_ok (K @ [?G])" "from_ok (Some (length K)) (K @ [?G])" "sink_ok (f_sink F) (length K)"
    using more.prems(1) by (simp_all add: stack_ok_snoc from_ok_def)
  have "runs_to h b (\<lambda>c. bst c (K @ [F]) r V) (\<lambda>c. offer h n (Some (length K)) (bst c (K @ [?G]) r V))"
    using lt more.prems(2) by (intro runs_toI) (simp add: step_child)
  also have "runs_to h b \<dots> (\<lambda>c. push_out (if f_flatten F then f_sink F else Some (length K)) out (bst c (K @ [?G]) r V))"
    using more(2)[OF ok(1,2), of r] by (simp cong: if_cong)
  also have "runs_to h b \<dots> (\<lambda>c. push_out (if f_flatten F then f_sink F else Some (length K)) (out @ outs)
      (bst c (K @ [F\<lparr>f_ei := length ?p\<rparr>]) r V))"
  proof (cases "f_flatten F")
    case True
    obtain K' r' where p: "length K' = length K"
      "\<And>c V G. push_out (f_sink F) out (bst c (K @ [G]) r V) = bst c (K' @ [G]) r' V" "stack_ok K' = stack_ok K"
      using push_below[OF ok(3)] by metis
    have c: "push_out (f_sink F) (out @ outs) (bst c (K @ [G]) r V) = push_out (f_sink F) outs (bst c (K' @ [G]) r' V)" for c G
      using ok(3) by (subst push_out_append[symmetric]) (auto simp: p sink_ok_def split: option.splits)
    show ?thesis using more(4)[of K' ?G r'] more.prems(1,2) lt True p c by (simp add: stack_ok_snoc)
  next
    case False
    let ?H = "?G\<lparr>f_children := f_children F @ out\<rparr>"
    have "runs_to h b (\<lambda>c. bst c (K @ [?H]) r V)
        (\<lambda>c. push_out (Some (length K)) outs (bst c (K @ [?H\<lparr>f_ei := length ?p\<rparr>]) r V))"
      using more(4)[of K ?H r] more.prems(1,2) lt False by (simp add: stack_ok_snoc)
    then show ?thesis using False by (simp add: push_out_def)
  qed
  finally show ?case .
next
  case (no_alts V n)
  then show ?case by (intro runs_toI) simp
next
  case (alts V p out n qs outs)
  let ?G = "F\<lparr>f_alts := f_alts F @ [PNode n out], f_children := [], f_pi := f_pi F + 1, f_ei := 0\<rparr>"
  have eq: "?G\<lparr>f_alts := ts, f_pi := k\<rparr> = F\<lparr>f_alts := ts, f_pi := k\<rparr>" for ts k
    using alts.prems(5,6) by (cases F) simp
  have lt: "f_pi F < length (f_packs F)" "f_packs F ! f_pi F = p" "drop (f_pi F + 1) (f_packs F) = qs"
    using drop_ConsD[OF alts.prems(8)] by simp_all
  have "runs_to h b (\<lambda>c. bst c (K @ [F]) r V)
      (\<lambda>c. push_out (Some (length K)) out (bst c (K @ [F\<lparr>f_ei := length p\<rparr>]) r V))"
    using alts(2)[of K F r] alts.prems lt by simp
  also have "runs_to h b \<dots> (\<lambda>c. bst c (K @ [?G]) r V)"
    using alts.prems lt by (intro runs_toI) (simp add: push_out_def step_pack)
  also have "runs_to h b \<dots> (\<lambda>c. bst c (K @ [F\<lparr>f_alts := f_alts F @ PNode n out # outs, f_pi := length (f_packs F)\<rparr>]) r V)"
    using alts(4)[of K ?G r] alts.prems lt unfolding eq by (simp add: stack_ok_snoc)
  finally show ?case .
qed

section \<open>The recursion is total\<close>

text \<open>A set of nodes that holds every nonterminal child of its nodes.\<close>

definition node_closed :: "'t::{linorder,zero} node_hash \<Rightarrow> 't builder \<Rightarrow> 't pnode set \<Rightarrow> bool" where
  "node_closed h b N \<longleftrightarrow>
     (\<forall>n \<in> N. \<forall>p \<in> set (snd (collect_packs h b n)). \<forall>c \<in> set p. is_nt (fst c) \<longrightarrow> c \<in> N)"

lemma chosen_pack_mem: "chosen_pack h b n = Some p \<Longrightarrow> p \<in> set (snd (collect_packs h b n))"
  using pick_best_mem by (auto simp: chosen_pack_def split: prod.splits if_splits intro: hd_in_set)

lemma emits_total:
  assumes "finite N" "node_closed h b N" "is_nt (fst n) \<longrightarrow> n \<in> N"
  shows "\<exists>out. emits h b V n out"
  using assms(3)
proof (induction "card (N - V)" arbitrary: V n rule: less_induct)
  case less
  have all: "\<exists>out. emits_all h b W p out" if lt: "card (N - W) < card (N - V)" and pk: "\<forall>c \<in> set p. is_nt (fst c) \<longrightarrow> c \<in> N" for W p
    using pk
  proof (induction p)
    case Nil
    then show ?case using finished by blast
  next
    case (Cons c p)
    obtain out where "emits h b W c out" using less.hyps[OF lt, of c] Cons.prems by auto
    moreover obtain outs where "emits_all h b W p outs" using Cons by auto
    ultimately show ?case using more by blast
  qed
  show ?case
  proof (cases "is_nt (fst n) \<and> n \<notin> V \<and> snd (collect_packs h b n) \<noteq> []")
    case False
    then show ?thesis using terminal opened empty by blast
  next
    case True
    then have N: "n \<in> N" using less.prems by simp
    have "N - insert n V \<subset> N - V" using N True by auto
    then have lt: "card (N - insert n V) < card (N - V)" using assms(1) by (simp add: psubset_card_mono)
    have pk: "\<forall>c \<in> set p. is_nt (fst c) \<longrightarrow> c \<in> N" if "p \<in> set (snd (collect_packs h b n))" for p
      using assms(2) N that unfolding node_closed_def by blast
    show ?thesis
    proof (cases "chosen_pack h b n")
      case (Some p)
      obtain out where "emits_all h b (insert n V) p out"
        using all[OF lt pk[OF chosen_pack_mem[OF Some]]] by blast
      then show ?thesis using single[OF _ _ Some] True by blast
    next
      case None
      have "\<exists>ts. alternatives h b (insert n V) n packs ts" if "set packs \<subseteq> set (snd (collect_packs h b n))" for packs
        using that
      proof (induction packs)
        case Nil
        then show ?case using no_alts by blast
      next
        case (Cons p packs)
        obtain out where "emits_all h b (insert n V) p out" using all[OF lt pk[of p]] Cons.prems by auto
        moreover obtain ts where "alternatives h b (insert n V) n packs ts" using Cons by auto
        ultimately show ?case using alts by blast
      qed
      then show ?thesis using ambiguous[OF _ _ None] True by blast
    qed
  qed
qed

section \<open>The nodes of a chart\<close>

definition all_items :: "'t builder \<Rightarrow> item set" where
  "all_items b = set (concat (b_S b))"

definition rhs_of :: "'t builder \<Rightarrow> item \<Rightarrow> 't lit list" where
  "rhs_of b i = seq (body (b_gr b) (i_prod i) ! i_con i)"

definition node_lits :: "'t builder \<Rightarrow> 't lit set" where
  "node_lits b = (\<Union>i \<in> all_items b. insert (rhs_of b i ! 0) (insert (rhs_of b i ! (i_dot i - 1)) (set (rhs_of b i))))
     \<union> insert Null (snd ` set (bin_tnt b)) \<union> (\<Union>p < gsize (b_gr b). (\<lambda>cj. hd (seq cj)) ` set (body (b_gr b) p))"

definition node_span :: "'t builder \<Rightarrow> nat" where
  "node_span b = Max (insert (b_tpos b + length (b_S b)) (i_set ` all_items b \<union> i_from ` all_items b))"

definition node_set :: "'t builder \<Rightarrow> 't lit \<Rightarrow> 't pnode set" where
  "node_set b sl = insert sl (node_lits b) \<times> {..node_span b} \<times> {..node_span b}"

text \<open>The indexes hold items of the chart, the classes' source productions exist.\<close>

definition builder_ok :: "'t builder \<Rightarrow> bool" where
  "builder_ok b \<longleftrightarrow>
     (\<forall>k. set (sorted_citem b k) \<subseteq> all_items b \<and> set (rsorted_citem b k) \<subseteq> all_items b) \<and>
     (\<forall>n. \<forall>p \<in> set (enabled_source_prods (b_gr b) n). p < gsize (b_gr b))"

lemma finite_node_set: "finite (node_set b sl)"
  by (simp add: node_set_def node_lits_def all_items_def)

lemma node_span_ge:
  "i \<in> all_items b \<Longrightarrow> i_set i \<le> node_span b" "i \<in> all_items b \<Longrightarrow> i_from i \<le> node_span b"
  "b_tpos b \<le> node_span b" "length (b_S b) \<le> node_span b"
proof -
  have m: "x \<le> node_span b" if "x \<in> insert (b_tpos b + length (b_S b)) (i_set ` all_items b \<union> i_from ` all_items b)" for x
    unfolding node_span_def using that by (intro Max_ge) (simp_all add: all_items_def)
  show "i \<in> all_items b \<Longrightarrow> i_set i \<le> node_span b" "i \<in> all_items b \<Longrightarrow> i_from i \<le> node_span b"
    by (rule m; simp)+
  show "b_tpos b \<le> node_span b" "length (b_S b) \<le> node_span b"
    using m[of "b_tpos b + length (b_S b)"] by simp_all
qed

lemma vget_items: "i \<in> set (vget n (b_S b)) \<Longrightarrow> i \<in> all_items b"
  by (auto simp: vget_def all_items_def split: if_splits)

lemma child_items_sub: "builder_ok b \<Longrightarrow> set (child_items b n k) \<subseteq> all_items b"
  unfolding child_items_def builder_ok_def using vget_items[of _ k b] by auto

definition near :: "'t lit set \<Rightarrow> nat \<Rightarrow> 't pnodes \<Rightarrow> bool" where
  "near L m p \<longleftrightarrow> (\<forall>c \<in> set p. is_nt (fst c) \<longrightarrow> fst c \<in> L \<and> fst (snd c) \<le> m \<and> snd (snd c) \<le> m)"

lemma sbl_chd_forest_near:
  assumes "\<And>n k v. v \<in> set (child_items b n k) \<Longrightarrow> i_from v \<le> m" "set (rhs_of b ei) \<subseteq> L"
    "\<forall>p \<in> set ambset. near L m p" "near L m curchd" "xto \<le> m"
  shows "\<forall>p \<in> set (sbl_chd_forest h b ei curchd xto ambset). near L m p"
  using assms
proof (induction h b ei curchd xto ambset rule: sbl_chd_forest.induct)
  case (1 h b ei curchd xto ambset)
  let ?n = "len (b_gr b) (i_prod ei) (i_con ei)"
  let ?l = "seq (body (b_gr b) (i_prod ei) ! i_con ei) ! (?n - 1 - length curchd)"
  show ?case
  proof (cases "?n \<le> length curchd")
    case True
    have "near L m (rev curchd)" using "1.prems"(4) by (simp add: near_def)
    then have "\<forall>p \<in> set (sinsert (pack_less h) (rev curchd) ambset). near L m p"
      using "1.prems"(3) pack.set_sinsert_sub[of h "rev curchd" ambset] by blast
    then show ?thesis using "1.prems"(3) True by (subst sbl_chd_forest.simps) auto
  next
    case f: False
    then have l: "?l \<in> L" using "1.prems"(2) by (auto simp: rhs_of_def len_def intro!: nth_mem)
    show ?thesis
    proof (cases ?l)
      case (Nt w)
      let ?f = "\<lambda>v amb. if i_from v < i_from ei then amb
          else sbl_chd_forest h b ei (curchd @ [(?l, i_from v, xto)]) (i_from v) amb"
      have "\<forall>p \<in> set (fold ?f (child_items b w xto) ambset). near L m p"
      proof (rule fold_invariant[where Q = "\<lambda>v. v \<in> set (child_items b w xto)"])
        fix v amb assume v: "v \<in> set (child_items b w xto)" and amb: "\<forall>p \<in> set amb. near L m p"
        have "near L m (curchd @ [(?l, i_from v, xto)])"
          using "1.prems"(1)[OF v] "1.prems"(4,5) l by (auto simp: near_def)
        then have "\<forall>p \<in> set (sbl_chd_forest h b ei (curchd @ [(?l, i_from v, xto)]) (i_from v) amb). near L m p"
          if "\<not> i_from v < i_from ei"
          using "1.IH"(3)[OF refl f refl _ _ that "1.prems"(1,2) amb _ "1.prems"(1)[OF v]] v Nt by simp
        then show "\<forall>p \<in> set (?f v amb). near L m p" using amb by simp
      qed (use "1.prems"(3) in auto)
      then show ?thesis using "1.prems"(3) f Nt by (subst sbl_chd_forest.simps) (simp add: Let_def cong: if_cong)
    next
      case (Tm c)
      have "near L m (curchd @ [(?l, xto - 1, xto)])" using "1.prems"(4) Tm by (auto simp: near_def)
      then show ?thesis using "1.IH"(2)[OF refl f refl _ _ _ "1.prems"(1-3)] "1.prems"(3,5) f Tm
        by (subst sbl_chd_forest.simps) (auto simp: Let_def)
    next
      case Null
      have "near L m (curchd @ [(?l, xto, xto)])" using "1.prems"(4) Null by (auto simp: near_def)
      then show ?thesis using "1.IH"(1)[OF refl f refl _ _ "1.prems"(1-3)] "1.prems"(5) f Null
        by (subst sbl_chd_forest.simps) (auto simp: Let_def)
    qed
  qed
qed

lemma sinsert_near:
  "near L m p \<Longrightarrow> \<forall>q \<in> set amb. near L m q \<Longrightarrow> \<forall>q \<in> set (sinsert (pack_less h) p amb). near L m q"
  using pack.set_sinsert_sub[of h p amb] by blast

lemma sinserts_near:
  "\<forall>q \<in> set qs. near L m q \<Longrightarrow> \<forall>q \<in> set amb. near L m q \<Longrightarrow> \<forall>q \<in> set (sinserts (pack_less h) qs amb). near L m q"
  using pack.set_sinserts_sub[of h qs amb] by blast

lemma fold_near:
  assumes "\<forall>q \<in> set amb. near L m q" "\<And>x. x \<in> set xs \<Longrightarrow> P x \<Longrightarrow> near L m (f x)"
  shows "\<forall>q \<in> set (fold (\<lambda>x amb. if P x then sinsert (pack_less h) (f x) amb else amb) xs amb). near L m q"
proof (rule fold_invariant[where Q = "\<lambda>x. x \<in> set xs"])
  fix x amb assume "x \<in> set xs" "\<forall>q \<in> set amb. near L m q"
  then show "\<forall>q \<in> set (if P x then sinsert (pack_less h) (f x) amb else amb). near L m q"
    using sinsert_near[OF assms(2)] by simp
qed (use assms(1) in auto)

lemma near_Cons:
  "near L m (c # p) \<longleftrightarrow> (is_nt (fst c) \<longrightarrow> fst c \<in> L \<and> fst (snd c) \<le> m \<and> snd (snd c) \<le> m) \<and> near L m p"
  by (simp add: near_def)

lemma near_Nil [simp]: "near L m []"
  by (simp add: near_def)

lemma join_combs_near:
  assumes "\<forall>q \<in> set amb. near L m q" "\<forall>c \<in> set rcomb. near L m [c]"
    "\<forall>it \<in> set lefts. near L m [(l, i_from it, i_set it)]"
  shows "\<forall>q \<in> set (join_combs h l lefts rcomb amb). near L m q"
  unfolding join_combs_def
proof (rule fold_invariant[where Q = "\<lambda>it. it \<in> set lefts"])
  fix it amb assume it: "it \<in> set lefts" and amb: "\<forall>q \<in> set amb. near L m q"
  have "near L m [(l, i_from it, i_set it), c]" if "c \<in> set rcomb" for c
    using it assms(2,3) that by (auto simp: near_Cons)
  then show "\<forall>q \<in> set (fold (\<lambda>rit amb. if i_set it = fst (snd rit)
      then sinsert (pack_less h) [(l, i_from it, i_set it), rit] amb else amb) rcomb amb). near L m q"
    by (intro fold_near[OF amb])
qed (use assms in auto)

lemma binarize_comb_near:
  assumes "builder_ok b" "ei \<in> all_items b" "\<forall>q \<in> set amb. near (node_lits b) (node_span b) q"
  shows "\<forall>q \<in> set (binarize_comb h b ei amb). near (node_lits b) (node_span b) q"
proof -
  let ?near = "near (node_lits b) (node_span b)"
  have lits: "rhs_of b ei ! 0 \<in> node_lits b" "rhs_of b ei ! (i_dot ei - 1) \<in> node_lits b"
    using assms(2) unfolding node_lits_def by blast+
  have it: "?near [(l, i_from it, i_set it)]" if "l \<in> node_lits b" "it \<in> all_items b" for l it
    using that node_span_ge(1,2)[OF that(2)] by (simp add: near_Cons)
  have idx: "set (sorted_citem b k) \<subseteq> all_items b" "set (rsorted_citem b k) \<subseteq> all_items b" for k
    using assms(1) unfolding builder_ok_def by blast+
  have right: "\<forall>c \<in> set rc. ?near [c]" if "right_comb b ei (rhs_of b ei ! (i_dot ei - 1)) = Some rc" for rc
    using that it[OF lits(2)] by (auto simp: right_comb_def near_Cons split: if_splits dest!: idx(2)[THEN subsetD])
  have tmp: "(case map_of (bin_tnt b) v of None \<Rightarrow> Null | Some l \<Rightarrow> l) \<in> node_lits b" for v
    by (auto simp: node_lits_def split: option.splits dest!: map_of_SomeD intro: rev_image_eqI)
  show ?thesis
  proof (cases "i_dot ei < 1 \<or> right_comb b ei (rhs_of b ei ! (i_dot ei - 1)) = None")
    case True
    then show ?thesis using assms(3) by (auto simp: binarize_comb_def rhs_of_def Let_def)
  next
    case False
    then obtain rc where rc: "right_comb b ei (rhs_of b ei ! (i_dot ei - 1)) = Some rc" "\<not> i_dot ei < 1" by auto
    note r = right[OF rc(1)]
    have join: "\<forall>q \<in> set (join_combs h l (sorted_citem b k) rc amb). ?near q" if "l \<in> node_lits b" for l k
      using join_combs_near[OF assms(3) r] it[OF that] idx(1) by blast
    have two: "\<forall>q \<in> set (fold (\<lambda>rit amb. if lto = fst (snd rit)
        then sinsert (pack_less h) [(l, i_from ei, lto), rit] amb else amb) rc amb). ?near q" if "\<not> is_nt l" for l lto
      by (rule fold_near[OF assms(3)]) (use r that in \<open>auto simp: near_Cons\<close>)
    have one: "\<forall>q \<in> set (fold (\<lambda>rit amb. if i_from ei = fst (snd rit)
        then sinsert (pack_less h) [rit] amb else amb) rc amb). ?near q"
      by (rule fold_near[OF assms(3)]) (use r in auto)
    show ?thesis
      using rc join[OF lits(1)] join[OF tmp] two one assms(3)
      by (simp add: binarize_comb_def rhs_of_def Let_def)
  qed
qed

lemma item_packs_near:
  assumes "builder_ok b" "i \<in> all_items b"
  shows "\<forall>p \<in> set (item_packs h b i). near (node_lits b) (node_span b) p"
proof (cases "b_binarize b")
  case True
  then show ?thesis using binarize_comb_near[OF assms, of "[]"] by (simp add: item_packs_def)
next
  case False
  have "i_from v \<le> node_span b" if "v \<in> set (child_items b n k)" for n k v
    using child_items_sub[OF assms(1), of n k] node_span_ge(2)[of v b] that by blast
  moreover have "set (rhs_of b i) \<subseteq> node_lits b" using assms(2) unfolding node_lits_def by blast
  ultimately show ?thesis
    using sbl_chd_forest_near[of b "node_span b" i "node_lits b" "[]" "[]" "i_set i" h] node_span_ge(1)[OF assms(2)] False
    by (simp add: item_packs_def)
qed

lemma node_set_closed:
  assumes "builder_ok b"
  shows "node_closed h b (node_set b sl)"
  unfolding node_closed_def
proof (intro ballI impI)
  fix n p c assume n: "n \<in> node_set b sl" and p: "p \<in> set (snd (collect_packs h b n))" and c: "c \<in> set p" "is_nt (fst c)"
  let ?near = "near (node_lits b) (node_span b)"
  obtain l i j where nij: "n = (l, i, j)" "i \<le> node_span b" "j \<le> node_span b" using n by (auto simp: node_set_def)
  have m: "matching_items b w i j = ms \<Longrightarrow> set ms \<subseteq> all_items b" for w ms
    using vget_items[of _ j b] by (auto simp: matching_items_def)
  have best: "\<forall>p \<in> set (snd (best_packs h b ms)). ?near p" if "set ms \<subseteq> all_items b" for ms
    unfolding best_packs_def
    by (rule fold_invariant[where Q = "\<lambda>i. i \<in> all_items b" and P = "\<lambda>s. \<forall>p \<in> set (snd s). ?near p"])
      (use that item_packs_near[OF assms] in \<open>auto simp: best_step_def Let_def split: prod.splits\<close>)
  have joined: "\<forall>p \<in> set (fold (\<lambda>i. sinserts (pack_less h) (item_packs h b i)) ms []). ?near p"
    if "set ms \<subseteq> all_items b" for ms
    by (rule fold_invariant[where Q = "\<lambda>i. i \<in> all_items b" and P = "\<lambda>s. \<forall>p \<in> set s. ?near p"])
      (use that in \<open>auto simp: sinserts_near[OF item_packs_near[OF assms]]\<close>)
  have acc: "\<forall>p \<in> set (accepting_packs b w i). ?near p" if "j = i + 1" for w
  proof
    fix p assume "p \<in> set (accepting_packs b w i)"
    then obtain k cj where p: "k \<in> set (enabled_source_prods (b_gr b) w)" "cj \<in> set (body (b_gr b) k)"
      "p = [(hd (seq cj), i, i + 1)]" by (auto simp: accepting_packs_def)
    have "k < gsize (b_gr b)" using assms p(1) unfolding builder_ok_def by blast
    then have "hd (seq cj) \<in> node_lits b" using p(2) unfolding node_lits_def by blast
    then show "?near p" using p(3) nij that by (simp add: near_Cons)
  qed
  have der: "\<forall>p \<in> set (derived_class_packs h b w i ad []). ?near p" if "j = i + 1" for w ad
    using acc[OF that, of w] set_take_subset[of 1 "accepting_packs b w i"]
    unfolding derived_class_packs_def Let_def by (intro sinserts_near) (auto split: if_splits)
  have "?near p"
    using p der joined[OF m[OF refl]] best[OF m[OF refl]]
    by (auto simp: collect_packs_def nij Let_def near_Cons split: if_splits)
  then show "c \<in> node_set b sl" using c unfolding near_def node_set_def by (cases c) auto
qed

lemma emits_terminal: "emits h b V n out \<Longrightarrow> \<not> is_nt (fst n) \<Longrightarrow> out = [leaf n]"
  by (erule emits.cases; simp)

section \<open>The tree of a chart\<close>

lemma bin_lit_fields:
  "bin_lit v b = (l, c) \<Longrightarrow> b_S c = b_S b \<and> b_tpos c = b_tpos b \<and> sorted_citem c = sorted_citem b \<and>
     rsorted_citem c = rsorted_citem b \<and> prods (b_gr c) = prods (b_gr b) \<and>
     cc_source_prods (b_gr c) = cc_source_prods (b_gr b)"
  by (auto simp: bin_lit_def get_fresh_tnt_def grammar_nt_def split: option.splits prod.splits)

lemma bin_lit_keeps:
  "bin_lit v b = (l, c) \<Longrightarrow> builder_ok c = builder_ok b \<and> b_S c = b_S b \<and> b_tpos c = b_tpos b"
  using bin_lit_fields[of v b l c]
  by (simp add: builder_ok_def all_items_def gsize_def enabled_source_prods_def)

lemma index_item_keeps:
  "builder_ok c \<Longrightarrow> i \<in> all_items c \<Longrightarrow>
     builder_ok (index_item i k c) \<and> b_S (index_item i k c) = b_S c \<and> b_tpos (index_item i k c) = b_tpos c"
  by (simp add: builder_ok_def index_item_def all_items_def)

lemma pre_process_keeps:
  assumes "builder_ok b" "i \<in> all_items b"
  shows "builder_ok (pre_process i b) \<and> b_S (pre_process i b) = b_S b \<and> b_tpos (pre_process i b) = b_tpos b"
proof -
  obtain l c where l: "bin_lit (take (i_dot i) (seq (body (b_gr b) (i_prod i) ! i_con i))) b = (l, c)" by fastforce
  have "i \<in> all_items c" using bin_lit_keeps[OF l] assms(2) by (simp add: all_items_def)
  then show ?thesis
    using assms bin_lit_keeps[OF l] index_item_keeps[of c i "lit_n l"] index_item_keeps[OF assms]
    by (simp add: pre_process_def l)
qed

lemma prepare_bintree_ok:
  fixes b :: "'t::{linorder,zero} builder"
  assumes "\<forall>n. \<forall>p \<in> set (enabled_source_prods (b_gr b) n). p < gsize (b_gr b)"
  shows "builder_ok (prepare_bintree b) \<and> b_tpos (prepare_bintree b) = b_tpos b"
proof -
  let ?c = "(clear_indexes b)\<lparr>use_citem_index := b_binarize b\<rparr>"
  have c: "builder_ok ?c" "b_S ?c = b_S b" "b_tpos ?c = b_tpos b"
    using assms by (auto simp: builder_ok_def clear_indexes_def)
  have "builder_ok (fold pre_process is ?c) \<and> b_S (fold pre_process is ?c) = b_S b \<and>
      b_tpos (fold pre_process is ?c) = b_tpos b" if "set is \<subseteq> all_items b" for "is"
  proof (rule fold_invariant[where Q = "\<lambda>i. i \<in> all_items b" and
        P = "\<lambda>d. builder_ok d \<and> b_S d = b_S b \<and> b_tpos d = b_tpos b"])
    fix i and d :: "'t builder" assume "i \<in> all_items b" "builder_ok d \<and> b_S d = b_S b \<and> b_tpos d = b_tpos b"
    then show "builder_ok (pre_process i d) \<and> b_S (pre_process i d) = b_S b \<and> b_tpos (pre_process i d) = b_tpos b"
      using pre_process_keeps[of d i] by (simp add: all_items_def)
  qed (use that c in auto)
  moreover have "set (concat (take k (b_S b))) \<subseteq> all_items b" for k
    unfolding all_items_def by (metis set_concat UN_mono set_take_subset subset_refl)
  ultimately have "builder_ok (do_preprocess ?c) \<and> b_tpos (do_preprocess ?c) = b_tpos b"
    unfolding do_preprocess_def c(2,3) by blast
  then show ?thesis using c by (cases "b_binarize b") (simp_all add: prepare_bintree_def Let_def)
qed

lemma build_bintree_emits:
  assumes "emits h (prepare_bintree b) {} (sl, 0, b_tpos b) out"
  shows "\<exists>b'. build_bintree h sl b = Some (if out = [] then None else Some (hd out), b')"
proof (cases "is_nt sl")
  case False
  then have "out = [leaf (sl, 0, b_tpos b)]" using emits_terminal[OF assms] by simp
  then show ?thesis using False by (simp add: build_bintree_def build_root_def)
next
  case True
  let ?b = "prepare_bintree b"
  have "runs_to h ?b (\<lambda>c. offer h (sl, 0, b_tpos b) None (bst c [] [] {}))
      (\<lambda>c. push_out None out (bst c [] [] {}))"
    using emits_runs(1)[OF assms, of "[]" None "[]"] by (simp add: stack_ok_def from_ok_def sink_from_def)
  then obtain c where "build_loop h (open_node h (sl, 0, b_tpos b) None (bst ?b [] [] {})) =
      build_loop h (push_out None out (bst c [] [] {}))"
    using True by (auto simp: runs_to_def same_builder_def offer_def)
  also have "\<dots> = Some (bst c [] out {})"
    by (subst build_loop.simps) (simp add: push_out_def)
  finally show ?thesis using True by (auto simp: build_bintree_def build_root_def)
qed

text \<open>C2: for every chart the stack machine returns; the tree it gives is the one the recursion over
  the packs gives, which always has a result: the root's children are built from a pack of the root,
  a node that is open above is not entered again, an EBNF helper leaves its children to the node
  above, alternatives go under an ambiguity node.\<close>

theorem build_bintree_is_recursion:
  assumes "\<forall>n. \<forall>p \<in> set (enabled_source_prods (b_gr b) n). p < gsize (b_gr b)"
  shows "(\<exists>out. emits h (prepare_bintree b) {} (sl, 0, b_tpos b) out) \<and>
    (\<forall>out. emits h (prepare_bintree b) {} (sl, 0, b_tpos b) out \<longrightarrow>
      (\<exists>b'. build_bintree h sl b = Some (if out = [] then None else Some (hd out), b')))"
proof -
  let ?b = "prepare_bintree b"
  note ok = prepare_bintree_ok[OF assms]
  have "(sl, 0, b_tpos b) \<in> node_set ?b sl" using ok node_span_ge(3)[of ?b] by (simp add: node_set_def)
  then have "\<exists>out. emits h ?b {} (sl, 0, b_tpos b) out"
    using emits_total[OF finite_node_set node_set_closed] ok by blast
  then show ?thesis using build_bintree_emits by blast
qed

definition pairs_tree :: "int ptree" where
  "pairs_tree =
     PNode (Nt 3, 0, 3)
      [PNode (Nt 0, 0, 3)
        [PNode (Nt 0, 0, 1) [leaf (Tm 5, 0, 1)],
         PNode (Nt 0, 1, 3)
          [PNode (Nt 0, 1, 2) [leaf (Tm 5, 1, 2)], PNode (Nt 0, 2, 3) [leaf (Tm 5, 2, 3)]]],
       PNode (Nt 0, 0, 3)
        [PNode (Nt 0, 0, 2)
          [PNode (Nt 0, 0, 1) [leaf (Tm 5, 0, 1)], PNode (Nt 0, 1, 2) [leaf (Tm 5, 1, 2)]],
         PNode (Nt 0, 2, 3) [leaf (Tm 5, 2, 3)]]]"

lemma pairs_tree_built: "map_option fst (build_bintree (\<lambda>_. 0) (Nt 0) pairs_builder) = Some (Some pairs_tree)"
  by code_simp

theorem build_bintree_is_recursion_witness:
  "\<exists>out b'. emits (\<lambda>_. 0) (prepare_bintree pairs_builder) {} (Nt 0, 0, 3) (pairs_tree # out) \<and>
     build_bintree (\<lambda>_. 0) (Nt 0) pairs_builder = Some (Some pairs_tree, b')"
proof -
  have "\<forall>n. \<forall>p \<in> set (enabled_source_prods (b_gr pairs_builder) n). p < gsize (b_gr pairs_builder)"
    by (simp add: pairs_builder_def pairs_grammar_def digits_grammar_def enabled_source_prods_def)
  note t = build_bintree_is_recursion[OF this, of "\<lambda>_. 0" "Nt 0"]
  obtain out b' where o: "emits (\<lambda>_. 0) (prepare_bintree pairs_builder) {} (Nt 0, 0, 3) out"
    "build_bintree (\<lambda>_. 0) (Nt 0) pairs_builder = Some (if out = [] then None else Some (hd out), b')"
    using t by (auto simp: pairs_builder_def)
  then have "out \<noteq> []" "hd out = pairs_tree" using pairs_tree_built by (auto split: if_splits)
  then show ?thesis using o by (cases out) auto
qed

end
