(* ===== verification/Trees.thy ===== *)
theory Trees
  imports Bintree
begin

text \<open>
  The recognizer and the tree builder together: the tree of an accepted input is a derivation tree
  of the grammar over the input. A nonterminal without children is one that repeats a node above (a
  cycle) or has no decomposition in the chart; disambiguation can choose a cyclic pack and lose a part
  of the input.
\<close>

section \<open>Derivation trees\<close>






section \<open>The packs of an accepted chart\<close>













section \<open>The tree of an accepted input\<close>










section \<open>What a derivation tree spells\<close>







section \<open>Examples\<close>

definition parse_tree :: "('c, 't) env \<Rightarrow> 't::{comm_ring_1,linorder} grammar \<Rightarrow> ('c, 't) input \<Rightarrow> 't ptree option" where
  "parse_tree e g i =
     (case run_earley e False g i of
        Some (Ran s) \<Rightarrow>
          if found e s then (case build_bintree (\<lambda>_. 0) (start_lit e g) (builder_of e s) of Some (t, _) \<Rightarrow> t | None \<Rightarrow> None)
          else None
      | _ \<Rightarrow> None)"




text \<open>\<open>s => a s | null\<close>, \<open>a => 5 | null\<close> with disambiguation.\<close>

definition list_grammar :: "int grammar" where
  "list_grammar = digits_grammar\<lparr>opt := (opt digits_grammar)\<lparr>auto_disambiguate := True\<rparr>,
     cc_fns := (cc_fns digits_grammar)\<lparr>fns := Map.empty\<rparr>, nts := [''s'', ''a'', ''eof''],
     ntsm := (\<lambda>_. [])(Nt 0 := [0, 1], Nt 1 := [2, 3]), ntsm_by_nt := [[0, 1], [2, 3], []], nullables := {0, 1},
     prods := [(Nt 0, [Lits False [Nt 1, Nt 0]]), (Nt 0, [Lits False [Null]]),
               (Nt 1, [Lits False [Tm 5]]), (Nt 1, [Lits False [Null]])],
     source_productions := 4\<rparr>"

text \<open>The smallest spans can be those of a cyclic pack: for \<open>s => a s | null\<close>, \<open>a => 5 | null\<close> and
  the input 5 the root's pack \<open>a(0,0) s(0,1)\<close> is preferred to \<open>a(0,1) s(1,1)\<close>, its second child is the
  root again and is left without children, and the tree does not contain the input.\<close>

theorem disambiguation_drops_input:
  "parse_tree (digits_env False) list_grammar (digits_input [5]) =
     Some (PNode (Nt 0, 0, 1) [PNode (Nt 1, 0, 0) [leaf (Null, 0, 0)], leaf (Nt 0, 0, 1)]) \<and>
   pick_best [[(Nt 1 :: int lit, 0, 1), (Nt 0, 1, 1)], [(Nt 1, 0, 0), (Nt 0, 0, 1)]] = [(Nt 1, 0, 0), (Nt 0, 0, 1::nat)]"
proof
  show "parse_tree (digits_env False) list_grammar (digits_input [5]) =
     Some (PNode (Nt 0, 0, 1) [PNode (Nt 1, 0, 0) [leaf (Null, 0, 0)], leaf (Nt 0, 0, 1)])"
    by code_simp
  show "pick_best [[(Nt 1 :: int lit, 0, 1), (Nt 0, 1, 1)], [(Nt 1, 0, 0), (Nt 0, 0, 1)]] = [(Nt 1, 0, 0), (Nt 0, 0, 1::nat)]"
    by code_simp
qed

end
