(* ===== verification/Forest.thy ===== *)
theory Forest
  imports Bintree
begin

text \<open>
  The parse forest: the container of \<open>src/src/utility/forest.h\<close> and \<open>forest.tmpl.h\<close>, and its
  construction from the chart in \<open>src/src/parser.tmpl.h\<close>, \<open>init_forest\<close> and \<open>build_forest\<close>.
  A \<open>node_graph\<close> is the sorted list of its entries. The two ways to a tree, the forest and the
  binary tree builder, see the same packs.
\<close>

section \<open>The container\<close>

type_synonym 't node_graph = "('t pnode \<times> 't pnodes list) list"

record 't forest =
  f_g :: "'t node_graph"
  f_rt :: "'t pnode option"

definition forest_empty :: "'t forest" where
  "forest_empty = \<lparr>f_g = [], f_rt = None\<rparr>"

definition set_root :: "'t pnode \<Rightarrow> 't forest \<Rightarrow> 't forest" where
  "set_root n f = f\<lparr>f_rt := Some n\<rparr>"

definition forest_clear :: "'t forest \<Rightarrow> 't forest" where
  "forest_clear f = f\<lparr>f_g := []\<rparr>"

definition contains :: "'t forest \<Rightarrow> 't pnode \<Rightarrow> bool" where
  "contains f n \<longleftrightarrow> map_of (f_g f) n \<noteq> None"

definition set_packs :: "'t::{linorder,zero} node_hash \<Rightarrow> 't pnode \<Rightarrow> 't pnodes list \<Rightarrow> 't forest \<Rightarrow> 't forest" where
  "set_packs h n packs f = f\<lparr>f_g := smap_update (node_less h) n packs (f_g f)\<rparr>"

definition is_binarized :: "'t forest \<Rightarrow> bool" where
  "is_binarized f = list_all (\<lambda>kv. list_all (\<lambda>rhs. length rhs \<le> 2) (snd kv)) (f_g f)"

section \<open>Building the forest\<close>

text \<open>The packs of a node so far, the production they come from, the nodes that were disambiguated.\<close>

record 't node_state =
  ambset :: "'t pnodes list"
  last_p :: nat
  snodes :: "'t pnode list"
  n_f :: "'t forest"

definition forest_item ::
  "'t::{linorder,zero} node_hash \<Rightarrow> 't builder \<Rightarrow> 't pnode \<Rightarrow> item \<Rightarrow> 't node_state \<Rightarrow> 't node_state" where
  "forest_item h b root it s =
     (if i_set it \<noteq> snd (snd root) then s
      else
        let cnode = ((if completed (b_gr b) it then head (b_gr b) (i_prod it) else Nt (lit_n (fst root))),
                     i_from it, i_set it);
            allowed = check_allowed b cnode;
            packs = (if b_binarize b then binarize_comb h b it (if allowed then [] else ambset s)
                     else sbl_chd_forest h b it [] (i_set it) (if allowed then [] else ambset s));
            s = (if allowed then
                   (if packs \<noteq> [] \<and> (ambset s = [] \<or> last_p s > i_prod it)
                    then s\<lparr>last_p := i_prod it, ambset := packs\<rparr> else s)
                     \<lparr>snodes := sinsert pnode_less cnode (snodes s)\<rparr>
                 else s\<lparr>ambset := packs\<rparr>)
        in s\<lparr>n_f := set_packs h cnode (ambset s) (n_f s)\<rparr>)"

text \<open>The choice within a production: the loop runs at least once.\<close>

definition choose_pack :: "'t pnodes list \<Rightarrow> 't pnodes list" where
  "choose_pack packs =
     (if packs = [] then []
      else [hd (let m = Min (length ` set packs); cand = min_column 0 packs
                in pick_columns 1 m cand)])"

text \<open>A node that is not in the forest yet. It gives the children to visit.\<close>

definition start_node :: "'t forest \<Rightarrow> 't node_state" where
  "start_node f = \<lparr>ambset = [], last_p = SIZE_MAX, snodes = [], n_f = f\<rparr>"

definition is_cc_free :: "'t builder \<Rightarrow> 't pnode \<Rightarrow> bool" where
  "is_cc_free b root \<longleftrightarrow> snd (snd root) = fst (snd root) + 1 \<and> is_cc_fn (b_gr b) (lit_n (fst root)) \<and>
     \<not> is_derived (cc_fns (b_gr b)) (lit_n (fst root)) \<and> \<not> is_eof_fn (b_gr b) (lit_n (fst root))"

definition forest_node ::
  "'t::{linorder,zero} node_hash \<Rightarrow> 't builder \<Rightarrow> 't pnode \<Rightarrow> 't forest \<Rightarrow> 't node_state" where
  "forest_node h b root f =
     (let n = lit_n (fst root); from = fst (snd root); to = snd (snd root);
          items = sorted_citem b (n, from);
          s = start_node f
      in if to = from + 1 \<and> uses_derived_recipe (b_gr b) n then
           (let packs = derived_class_packs h b n from (check_allowed b root) []
            in s\<lparr>ambset := packs, snodes := [root], n_f := set_packs h root packs f\<rparr>)
         else if is_cc_free b root \<and> \<not> list_ex (\<lambda>it. i_set it = to) items then
           (let packs = [[(Tm (b_tat b from), from, to)]]
            in s\<lparr>ambset := packs, snodes := [root], n_f := set_packs h root packs f\<rparr>)
         else fold (forest_item h b root) items s)"

definition visit_node ::
  "'t::{linorder,zero} node_hash \<Rightarrow> 't builder \<Rightarrow> 't pnode \<Rightarrow> 't forest \<Rightarrow> 't pnodes \<times> 't forest" where
  "visit_node h b root f =
     (let s = forest_node h b root f in
      if snodes s \<noteq> [] \<and> check_allowed b (hd (snodes s)) then
        (concat (choose_pack (ambset s)), set_packs h (hd (snodes s)) (choose_pack (ambset s)) (n_f s))
      else (concat (ambset s), n_f s))"

text \<open>The stack; the first child is visited first. The flag says whether a node was built.\<close>

partial_function (option) forest_loop ::
  "'t::{linorder,zero} node_hash \<Rightarrow> 't builder \<Rightarrow> 't pnodes \<Rightarrow> bool \<Rightarrow> 't forest \<Rightarrow> (bool \<times> 't forest) option" where
  [code]: "forest_loop h b todo built f =
     (case todo of
        [] \<Rightarrow> Some (built, f)
      | root # todo \<Rightarrow>
          if \<not> is_nt (fst root) \<or> contains f root then forest_loop h b todo built f
          else case visit_node h b root f of
                 (children, f) \<Rightarrow> forest_loop h b (children @ todo) True f)"

definition build_forest ::
  "'t::{linorder,zero} node_hash \<Rightarrow> 't builder \<Rightarrow> 't pnode \<Rightarrow> 't forest \<Rightarrow> (bool \<times> 't forest) option" where
  "build_forest h b root f = forest_loop h b [root] False f"

definition prepare_forest :: "'t::{linorder,zero} builder \<Rightarrow> 't builder" where
  "prepare_forest b = do_preprocess ((clear_indexes b)\<lparr>use_citem_index := True\<rparr>)"

definition init_forest ::
  "'t::{linorder,zero} node_hash \<Rightarrow> 't lit \<Rightarrow> 't builder \<Rightarrow> 't forest \<Rightarrow> (bool \<times> 't forest) option" where
  "init_forest h sl b f =
     (let root = (sl, 0, b_tpos b) in build_forest h (prepare_forest b) root (set_root root f))"

section \<open>The packs through the indexes\<close>

text \<open>A chart whose items lie in the set they name, begin before it, and have a nonempty
  right-hand side.\<close>

definition placed :: "'t builder \<Rightarrow> bool" where
  "placed b \<longleftrightarrow> length (b_S b) = b_tpos b + 1 \<and>
     (\<forall>k < length (b_S b). \<forall>i \<in> set (b_S b ! k).
        i_set i = k \<and> i_from i \<le> k \<and> i_prod i < SIZE_MAX \<and> is_nt (head (b_gr b) (i_prod i)) \<and>
        seq (body (b_gr b) (i_prod i) ! i_con i) \<noteq> [])"

text \<open>A set of packs is filled with a list of packs, whatever it holds.\<close>

lemma sinserts_append: "sinserts lt (xs @ ys) s = sinserts lt ys (sinserts lt xs s)"
  by (simp add: sinserts_def)

lemma sbl_chd_forest_list:
  "\<exists>L. \<forall>amb. sbl_chd_forest h b ei curchd xto amb = sinserts (pack_less h) L amb"
proof (induction h b ei curchd xto "[] :: 'a pnodes list" rule: sbl_chd_forest.induct)
  case (1 h b ei curchd xto)
  let ?n = "len (b_gr b) (i_prod ei) (i_con ei)"
  let ?l = "seq (body (b_gr b) (i_prod ei) ! i_con ei) ! (?n - 1 - length curchd)"
  note unfold = sbl_chd_forest.simps[of h b ei curchd xto] Let_def
  show ?case
  proof (cases "?n \<le> length curchd")
    case True
    then show ?thesis
      by (intro exI[of _ "if xto = i_from ei then [rev curchd] else []"]) (simp add: unfold sinserts_def)
  next
    case more: False
    show ?thesis
    proof (cases ?l)
      case (Nt w)
      have "\<forall>v \<in> set (child_items b w xto). \<exists>L. \<not> i_from v < i_from ei \<longrightarrow>
          (\<forall>amb. sbl_chd_forest h b ei (curchd @ [(?l, i_from v, xto)]) (i_from v) amb = sinserts (pack_less h) L amb)"
        using 1(3)[OF refl more refl] Nt by auto
      then obtain L where L: "\<And>v amb. v \<in> set (child_items b w xto) \<Longrightarrow> \<not> i_from v < i_from ei \<Longrightarrow>
          sbl_chd_forest h b ei (curchd @ [(?l, i_from v, xto)]) (i_from v) amb = sinserts (pack_less h) (L v) amb"
        by metis
      let ?L = "\<lambda>v. if i_from v < i_from ei then [] else L v"
      have "fold (\<lambda>v amb. if i_from v < i_from ei then amb
          else sbl_chd_forest h b ei (curchd @ [(?l, i_from v, xto)]) (i_from v) amb) vs amb =
          sinserts (pack_less h) (concat (map ?L vs)) amb" if "set vs \<subseteq> set (child_items b w xto)" for vs amb
        using that L by (induction vs arbitrary: amb) (auto simp: sinserts_append, simp_all add: sinserts_def)
      then show ?thesis using more Nt
        by (intro exI[of _ "concat (map ?L (child_items b w xto))"]) (simp add: unfold cong: if_cong)
    next
      case (Tm c)
      show ?thesis
      proof (cases "xto > i_from ei \<and> b_tat b (xto - 1) = c")
        case True
        obtain L where "\<forall>amb. sbl_chd_forest h b ei (curchd @ [(?l, xto - 1, xto)]) (xto - 1) amb = sinserts (pack_less h) L amb"
          using 1(2)[OF refl more refl] Tm True by auto
        then show ?thesis using more Tm True by (intro exI[of _ L]) (simp add: unfold)
      next
        case False
        then show ?thesis using more Tm by (intro exI[of _ "[]"]) (auto simp: unfold sinserts_def)
      qed
    next
      case Null
      obtain L where "\<forall>amb. sbl_chd_forest h b ei (curchd @ [(?l, xto, xto)]) xto amb = sinserts (pack_less h) L amb"
        using 1(1)[OF refl more refl] Null by auto
      then show ?thesis using more Null by (intro exI[of _ L]) (simp add: unfold)
    qed
  qed
qed

lemma sbl_chd_forest_into:
  assumes "sorted_wrt (pack_less h) amb"
  shows "sbl_chd_forest h b ei curchd xto amb = sinserts (pack_less h) (sbl_chd_forest h b ei curchd xto []) amb"
proof -
  obtain L where L: "\<And>amb. sbl_chd_forest h b ei curchd xto amb = sinserts (pack_less h) L amb"
    using sbl_chd_forest_list by metis
  show ?thesis unfolding L using pack.sinserts_sset[OF assms, of L] by (simp add: sset_def)
qed

lemma sorted_sbl_chd_forest:
  "sorted_wrt (pack_less h) amb \<Longrightarrow> sorted_wrt (pack_less h) (sbl_chd_forest h b ei curchd xto amb)"
  using sbl_chd_forest_list[of h b ei curchd xto] pack.sorted_sinserts by metis

lemma filter_sets:
  assumes "\<forall>k < length xss. \<forall>i \<in> set (xss ! k). f i = m + k" "x < m + length xss"
  shows "filter (\<lambda>i. P i \<and> f i = x) (concat xss) = (if x < m then [] else filter P (xss ! (x - m)))"
  using assms
proof (induction xss arbitrary: m)
  case (Cons ys xss)
  have i: "\<forall>i \<in> set ys. f i = m" using Cons.prems(1) by (metis add_0_right length_Cons nth_Cons_0 zero_less_Suc)
  have t: "\<forall>k < length xss. \<forall>i \<in> set (xss ! k). f i = Suc m + k"
    using Cons.prems(1) by (metis add_Suc_shift Suc_less_eq length_Cons nth_Cons_Suc)
  have h: "filter (\<lambda>i. P i \<and> f i = x) ys = (if x = m then filter P ys else [])"
    using i by (auto simp: filter_empty_conv cong: filter_cong)
  show ?case
  proof (cases "x < Suc m")
    case True
    have "filter (\<lambda>i. P i \<and> f i = x) (concat xss) = []"
    proof (intro filter_False ballI notI)
      fix i assume "i \<in> set (concat xss)" "P i \<and> f i = x"
      then obtain ys where "ys \<in> set xss" "i \<in> set ys" "f i = x" by auto
      then obtain k where "k < length xss" "i \<in> set (xss ! k)" "f i = x" by (metis in_set_conv_nth)
      then show False using t True by fastforce
    qed
    then show ?thesis using h True by auto
  next
    case False
    then show ?thesis using Cons.IH[OF t] Cons.prems(2) h by (auto simp: Suc_diff_Suc nth_Cons')
  qed
qed simp

definition ended_at :: "'t builder \<Rightarrow> nat \<Rightarrow> item \<Rightarrow> bool" where
  "ended_at b n i \<longleftrightarrow> completed (b_gr b) i \<and> lit_n (get_nt (b_gr b) i) = n"

lemma preprocess_indexes:
  assumes "\<not> b_binarize c"
  shows "let d = fold pre_process is c in
    sorted_citem d (n, k) = sorted_citem c (n, k) @ filter (\<lambda>i. ended_at c n i \<and> i_from i = k) is \<and>
    rsorted_citem d (n, k) = rsorted_citem c (n, k) @ filter (\<lambda>i. ended_at c n i \<and> i_set i = k) is \<and>
    b_gr d = b_gr c \<and> b_tat d = b_tat c \<and> b_S d = b_S c \<and> b_tpos d = b_tpos c \<and>
    use_citem_index d = use_citem_index c \<and> \<not> b_binarize d"
  using assms
proof (induction "is" arbitrary: c)
  case (Cons i is')
  have "\<not> b_binarize (pre_process i c)" using Cons.prems by (simp add: pre_process_def index_item_def)
  from Cons.IH[OF this] Cons.prems show ?case
    by (auto simp: pre_process_def index_item_def ended_at_def Let_def get_nt_def)
qed simp

lemma forest_fields:
  assumes "\<not> b_binarize b"
  shows "b_gr (prepare_forest b) = b_gr b" "b_tat (prepare_forest b) = b_tat b" "b_S (prepare_forest b) = b_S b"
    "b_tpos (prepare_forest b) = b_tpos b" "use_citem_index (prepare_forest b)" "\<not> b_binarize (prepare_forest b)"
    "sorted_citem (prepare_forest b) (n, k) =
       filter (\<lambda>i. ended_at b n i \<and> i_from i = k) (concat (take (b_tpos b + 1) (b_S b)))"
    "rsorted_citem (prepare_forest b) (n, k) =
       filter (\<lambda>i. ended_at b n i \<and> i_set i = k) (concat (take (b_tpos b + 1) (b_S b)))"
proof -
  let ?c = "(clear_indexes b)\<lparr>use_citem_index := True\<rparr>"
  have c: "b_S ?c = b_S b" "b_tpos ?c = b_tpos b" "b_gr ?c = b_gr b" "b_tat ?c = b_tat b"
    "sorted_citem ?c k = []" "rsorted_citem ?c k = []" "use_citem_index ?c" for k
    by (simp_all add: clear_indexes_def)
  have "\<not> b_binarize ?c" using assms by (simp add: clear_indexes_def)
  note p = preprocess_indexes[OF this, of "concat (take (b_tpos b + 1) (b_S b))" n k, unfolded Let_def c ended_at_def]
  show "b_gr (prepare_forest b) = b_gr b" "b_tat (prepare_forest b) = b_tat b" "b_S (prepare_forest b) = b_S b"
    "b_tpos (prepare_forest b) = b_tpos b" "use_citem_index (prepare_forest b)" "\<not> b_binarize (prepare_forest b)"
    "sorted_citem (prepare_forest b) (n, k) =
       filter (\<lambda>i. ended_at b n i \<and> i_from i = k) (concat (take (b_tpos b + 1) (b_S b)))"
    "rsorted_citem (prepare_forest b) (n, k) =
       filter (\<lambda>i. ended_at b n i \<and> i_set i = k) (concat (take (b_tpos b + 1) (b_S b)))"
    using p by (simp_all add: prepare_forest_def do_preprocess_def c ended_at_def)
qed

lemma bintree_fields:
  assumes "\<not> b_binarize b"
  shows "b_gr (prepare_bintree b) = b_gr b" "b_tat (prepare_bintree b) = b_tat b" "b_S (prepare_bintree b) = b_S b"
    "b_tpos (prepare_bintree b) = b_tpos b" "\<not> use_citem_index (prepare_bintree b)" "\<not> b_binarize (prepare_bintree b)"
  using assms by (simp_all add: prepare_bintree_def clear_indexes_def Let_def)

lemma placed_take:
  assumes "placed b"
  shows "filter (\<lambda>i. P i \<and> i_set i = x) (concat (take (b_tpos b + 1) (b_S b))) =
    (if x \<le> b_tpos b then filter P (vget x (b_S b)) else [])"
proof -
  let ?xss = "take (b_tpos b + 1) (b_S b)"
  have p: "\<forall>k < length ?xss. \<forall>i \<in> set (?xss ! k). i_set i = 0 + k" "length ?xss = b_tpos b + 1"
    using assms by (auto simp: placed_def)
  show ?thesis
  proof (cases "x \<le> b_tpos b")
    case True
    then show ?thesis using filter_sets[OF p(1), of x P] p(2) assms by (simp add: vget_def placed_def)
  next
    case False
    have "i_set i \<le> b_tpos b" if mem: "i \<in> set (concat ?xss)" for i
    proof -
      obtain ys where "ys \<in> set ?xss" "i \<in> set ys" using mem by auto
      then obtain k where "k < length ?xss" "i \<in> set (?xss ! k)" by (metis in_set_conv_nth)
      then show ?thesis using p by fastforce
    qed
    then show ?thesis using False by (auto simp: filter_empty_conv)
  qed
qed

lemma child_items_agree:
  assumes "placed b" "\<not> b_binarize b"
  shows "child_items (prepare_forest b) n x = child_items (prepare_bintree b) n x"
proof -
  have "length (b_S b) = b_tpos b + 1" using assms(1) by (simp add: placed_def)
  then show ?thesis using placed_take[OF assms(1), of "ended_at b n" x]
    by (simp add: child_items_def forest_fields[OF assms(2)] bintree_fields[OF assms(2)] ended_at_def[abs_def] vget_def)
qed

lemma sbl_agree:
  assumes "placed b" "\<not> b_binarize b"
  shows "sbl_chd_forest h (prepare_forest b) ei p x amb = sbl_chd_forest h (prepare_bintree b) ei p x amb"
proof (rule sbl_chd_forest_cong)
  show "body (b_gr (prepare_forest b)) = body (b_gr (prepare_bintree b))"
    "len (b_gr (prepare_forest b)) = len (b_gr (prepare_bintree b))"
    "b_tat (prepare_forest b) = b_tat (prepare_bintree b)"
    by (simp_all add: forest_fields[OF assms(2)] bintree_fields[OF assms(2)])
  show "child_items (prepare_forest b) = child_items (prepare_bintree b)"
    by (intro ext) (rule child_items_agree[OF assms])
qed

text \<open>The packs the binary tree builder works with at a node.\<close>

definition node_packs :: "'t::{linorder,zero} node_hash \<Rightarrow> 't builder \<Rightarrow> 't pnode \<Rightarrow> 't pnodes list" where
  "node_packs h b n =
     (case collect_packs h b n of (ad, packs) \<Rightarrow> if ad \<and> packs \<noteq> [] then [pick_best packs] else packs)"

lemma choose_pack_best:
  assumes "\<forall>p \<in> set packs. p \<noteq> []"
  shows "choose_pack packs = (if packs = [] then [] else [pick_best packs])"
proof (cases "packs = []")
  case False
  let ?m = "Min (length ` set packs)"
  have m: "0 < ?m" using False assms by (simp add: Min_gr_iff)
  have "pick_columns 0 ?m packs = pick_columns 1 ?m (min_column 0 packs)"
  proof (cases "length packs > 1")
    case True
    then show ?thesis using m by (subst pick_columns.simps) simp
  next
    case one: False
    then obtain p where p: "packs = [p]" using False by (cases packs) auto
    have "min_column 0 [p] = [p]" by (simp add: min_column_def)
    then show ?thesis unfolding p by (simp add: pick_columns.simps)
  qed
  then show ?thesis using False by (simp add: choose_pack_def pick_best_def)
qed (simp add: choose_pack_def)

text \<open>The entries are sorted and their keys are nonterminals.\<close>

definition graph_ok :: "'t::{linorder,zero} node_hash \<Rightarrow> 't forest \<Rightarrow> bool" where
  "graph_ok h f \<longleftrightarrow> sorted_wrt (node_less h) (map fst (f_g f)) \<and> (\<forall>n \<in> fst ` set (f_g f). is_nt (fst n))"

lemma nt_node_equiv: "equiv (node_less h) a b \<Longrightarrow> is_nt (fst a) \<Longrightarrow> is_nt (fst b) \<Longrightarrow> a = b"
  by (cases a; cases b; cases "fst a"; cases "fst b")
    (auto simp: equiv_def node_less_def pnode_less_def pair_less_def lit_less_def split: if_splits)

lemma set_packs_map:
  assumes "graph_ok h f" "is_nt (fst n)"
  shows "map_of (f_g (set_packs h n packs f)) = (map_of (f_g f))(n \<mapsto> packs)" "graph_ok h (set_packs h n packs f)"
    "f_rt (set_packs h n packs f) = f_rt f"
proof -
  note c = comparator_node[of h]
  have sep: "comparator.separates (node_less h) (insert n (fst ` set (f_g f)))"
    using assms nt_node_equiv[of h] unfolding comparator.separates_def[OF c] graph_ok_def by blast
  have sorted: "sorted_wrt (node_less h) (map fst (f_g f))" using assms(1) by (simp add: graph_ok_def)
  show "map_of (f_g (set_packs h n packs f)) = (map_of (f_g f))(n \<mapsto> packs)"
    using comparator.map_of_smap_update[OF c sorted sep, of packs] by (simp add: set_packs_def)
  show "graph_ok h (set_packs h n packs f)"
    unfolding graph_ok_def
  proof (intro conjI ballI)
    show "sorted_wrt (node_less h) (map fst (f_g (set_packs h n packs f)))"
      using comparator.sorted_smap_update[OF c sorted, of n packs] by (simp add: set_packs_def)
    fix m assume "m \<in> fst ` set (f_g (set_packs h n packs f))"
    then have "m \<in> fst ` set (smap_update (node_less h) n packs (f_g f))" by (simp add: set_packs_def)
    then have "m \<in> insert n (fst ` set (f_g f))" by (rule subsetD[OF comparator.keys_smap_update[OF c]])
    then show "is_nt (fst m)" using assms by (auto simp: graph_ok_def)
  qed
qed (simp add: set_packs_def)

section \<open>The loop over the items of a node\<close>

lemma fold_filter: "fold (\<lambda>x s. if P x then g x s else s) xs s = fold g (filter P xs) s"
  by (induction xs arbitrary: s) auto

lemma fold_skip:
  assumes "\<And>x s. x \<in> set xs \<Longrightarrow> \<not> P x \<Longrightarrow> g x s = s"
  shows "fold g xs s = fold g (filter P xs) s"
  using assms by (induction xs arbitrary: s) auto

text \<open>The items of a node are those the other builder finds in the set.\<close>

lemma node_items:
  assumes "placed b" "\<not> b_binarize b"
  shows "filter (\<lambda>i. i_set i = to) (sorted_citem (prepare_forest b) (n, k)) = matching_items (prepare_bintree b) n k to"
proof -
  let ?P = "\<lambda>i. i_from i = k \<and> completed (b_gr b) i \<and> lit_n (get_nt (b_gr b) i) = n"
  have "filter (\<lambda>i. i_set i = to) (sorted_citem (prepare_forest b) (n, k)) =
      filter (\<lambda>i. ?P i \<and> i_set i = to) (concat (take (b_tpos b + 1) (b_S b)))"
    unfolding forest_fields(7)[OF assms(2)] filter_filter by (rule filter_cong) (auto simp: ended_at_def)
  also have "\<dots> = filter ?P (vget to (b_S b))"
    using placed_take[OF assms(1), of ?P to] assms(1) by (simp add: placed_def vget_def)
  finally show ?thesis by (simp add: matching_items_def bintree_fields[OF assms(2)])
qed

lemma matching_placed:
  assumes "placed b" "\<not> b_binarize b" "i \<in> set (matching_items (prepare_bintree b) n k to)"
  shows "i_set i = to" "i_from i = k" "completed (b_gr b) i" "head (b_gr b) (i_prod i) = Nt n" "i_prod i < SIZE_MAX"
    "k \<le> to" "to \<le> b_tpos b" "seq (body (b_gr b) (i_prod i) ! i_con i) \<noteq> []"
proof -
  have "i \<in> set (vget to (b_S b))" "i_from i = k" "completed (b_gr b) i" "lit_n (head (b_gr b) (i_prod i)) = n"
    using assms(3) by (auto simp: matching_items_def bintree_fields[OF assms(2)] get_nt_def)
  then have "to < length (b_S b)" "i \<in> set (b_S b ! to)" by (auto simp: vget_def split: if_splits)
  note p = assms(1)[unfolded placed_def, THEN conjunct2, rule_format, OF this] assms(1)[unfolded placed_def, THEN conjunct1]
  show "i_set i = to" "i_from i = k" "completed (b_gr b) i" "i_prod i < SIZE_MAX" "k \<le> to" "to \<le> b_tpos b"
    "seq (body (b_gr b) (i_prod i) ! i_con i) \<noteq> []"
    using p \<open>i_from i = k\<close> \<open>completed (b_gr b) i\<close> \<open>to < length (b_S b)\<close> by simp_all
  show "head (b_gr b) (i_prod i) = Nt n"
    using p \<open>lit_n (head (b_gr b) (i_prod i)) = n\<close> by (cases "head (b_gr b) (i_prod i)") auto
qed

lemma forest_item_at:
  assumes "placed b" "\<not> b_binarize b" "it \<in> set (matching_items (prepare_bintree b) n k to)" "root = (Nt n, k, to)"
  shows "forest_item h (prepare_forest b) root it s =
    (let packs = sbl_chd_forest h (prepare_bintree b) it [] (i_set it) (if check_allowed b root then [] else ambset s);
         s = (if check_allowed b root then
                (if packs \<noteq> [] \<and> (ambset s = [] \<or> last_p s > i_prod it)
                 then s\<lparr>last_p := i_prod it, ambset := packs\<rparr> else s)\<lparr>snodes := sinsert pnode_less root (snodes s)\<rparr>
              else s\<lparr>ambset := packs\<rparr>)
     in s\<lparr>n_f := set_packs h root (ambset s) (n_f s)\<rparr>)"
proof -
  note m = matching_placed[OF assms(1-3)]
  have "check_allowed (prepare_forest b) c = check_allowed b c" for c
    by (simp add: check_allowed_def forest_fields[OF assms(2)])
  then show ?thesis
    unfolding forest_item_def Let_def sbl_agree[OF assms(1,2)]
    using m by (simp add: forest_fields[OF assms(2)] assms(4))
qed

abbreviation put :: "bool \<Rightarrow> 't pnode \<Rightarrow> 't pnodes list \<Rightarrow> ('t pnode \<rightharpoonup> 't pnodes list) \<Rightarrow> 't pnode \<rightharpoonup> 't pnodes list" where
  "put u n packs m \<equiv> (if u then m(n \<mapsto> packs) else m)"

text \<open>With disambiguation: the packs of the smallest production that has some.\<close>

lemma forest_fold_best:
  assumes "placed b" "\<not> b_binarize b" "root = (Nt n, k, to)" "check_allowed b root"
    "set ms \<subseteq> set (matching_items (prepare_bintree b) n k to)" "graph_ok h (n_f s)"
    "ambset s = [] \<longleftrightarrow> last_p s = SIZE_MAX" "snodes s = [] \<or> snodes s = [root]"
  shows "let s' = fold (forest_item h (prepare_forest b) root) ms s;
      r = fold (best_step h (prepare_bintree b)) ms (last_p s, ambset s)
    in ambset s' = snd r \<and> graph_ok h (n_f s') \<and> f_rt (n_f s') = f_rt (n_f s) \<and>
       snodes s' = (if ms = [] then snodes s else [root]) \<and>
       map_of (f_g (n_f s')) = put (ms \<noteq> []) root (snd r) (map_of (f_g (n_f s)))"
  using assms(5-8)
proof (induction ms arbitrary: s)
  case Nil
  then show ?case by simp
next
  case (Cons i ms)
  let ?q = "item_packs h (prepare_bintree b) i"
  let ?s = "forest_item h (prepare_forest b) root i s"
  have i: "i \<in> set (matching_items (prepare_bintree b) n k to)" using Cons.prems(1) by simp
  note m = matching_placed[OF assms(1,2) i]
  define r where "r = (if i_prod i \<ge> last_p s then (last_p s, ambset s)
      else if ?q \<noteq> [] then (i_prod i, ?q) else (last_p s, ambset s))"
  have "?q = sbl_chd_forest h (prepare_bintree b) i [] (i_set i) []"
    by (simp add: item_packs_def bintree_fields[OF assms(2)])
  then have f: "?s = (let s = s\<lparr>last_p := fst r, ambset := snd r, snodes := [root]\<rparr>
      in s\<lparr>n_f := set_packs h root (ambset s) (n_f s)\<rparr>)"
    using Cons.prems(3,4) m(5)
    by (auto simp: forest_item_at[OF assms(1,2) i assms(3)] assms(4) r_def Let_def pack.irrefl
        comparator.irrefl[OF comparator_pnode])
  note p = set_packs_map[OF Cons.prems(2), of root "snd r"]
  have "graph_ok h (n_f ?s)" "ambset ?s = [] \<longleftrightarrow> last_p ?s = SIZE_MAX" "snodes ?s = [root]"
    using p assms(3) Cons.prems(3) m(5) unfolding f by (auto simp: Let_def r_def)
  note ih = Cons.IH[of ?s, OF _ this(1,2) disjI2[OF this(3)]] this(3)
  have e: "last_p ?s = fst r" "ambset ?s = snd r" "n_f ?s = set_packs h root (snd r) (n_f s)"
    unfolding f by (simp_all add: Let_def)
  have ms: "set ms \<subseteq> set (matching_items (prepare_bintree b) n k to)" using Cons.prems(1) by simp
  have step: "best_step h (prepare_bintree b) i (last_p s, ambset s) = r"
    by (simp add: best_step_def r_def Let_def)
  have "is_nt (fst root)" using assms(3) by simp
  then show ?case
    using ih(1)[OF ms] ih(2) p(1,3)
    unfolding fold_simps(2) step Let_def e prod.collapse by simp
qed

text \<open>Without it: the packs of all items.\<close>

lemma forest_fold_all:
  assumes "placed b" "\<not> b_binarize b" "root = (Nt n, k, to)" "\<not> check_allowed b root"
    "set ms \<subseteq> set (matching_items (prepare_bintree b) n k to)" "graph_ok h (n_f s)"
    "sorted_wrt (pack_less h) (ambset s)"
  shows "let s' = fold (forest_item h (prepare_forest b) root) ms s;
      r = fold (\<lambda>i. sinserts (pack_less h) (item_packs h (prepare_bintree b) i)) ms (ambset s)
    in ambset s' = r \<and> graph_ok h (n_f s') \<and> f_rt (n_f s') = f_rt (n_f s) \<and> snodes s' = snodes s \<and>
       map_of (f_g (n_f s')) = put (ms \<noteq> []) root r (map_of (f_g (n_f s)))"
  using assms(5-7)
proof (induction ms arbitrary: s)
  case Nil
  then show ?case by simp
next
  case (Cons i ms)
  let ?q = "item_packs h (prepare_bintree b) i"
  let ?s = "forest_item h (prepare_forest b) root i s"
  have i: "i \<in> set (matching_items (prepare_bintree b) n k to)" using Cons.prems(1) by simp
  define r where "r = sinserts (pack_less h) ?q (ambset s)"
  have "sbl_chd_forest h (prepare_bintree b) i [] (i_set i) (ambset s) = r"
    using sbl_chd_forest_into[OF Cons.prems(3)] by (simp add: r_def item_packs_def bintree_fields[OF assms(2)])
  then have f: "?s = (let s = s\<lparr>ambset := r\<rparr> in s\<lparr>n_f := set_packs h root r (n_f s)\<rparr>)"
    by (simp add: forest_item_at[OF assms(1,2) i assms(3)] assms(4) Let_def)
  have nt: "is_nt (fst root)" using assms(3) by simp
  note p = set_packs_map[OF Cons.prems(2) nt, of r]
  have e: "graph_ok h (n_f ?s)" "sorted_wrt (pack_less h) (ambset ?s)" "snodes ?s = snodes s" "ambset ?s = r"
    "n_f ?s = set_packs h root r (n_f s)"
    using p pack.sorted_sinserts[OF Cons.prems(3)] unfolding f by (simp_all add: Let_def r_def)
  have ms: "set ms \<subseteq> set (matching_items (prepare_bintree b) n k to)" using Cons.prems(1) by simp
  show ?case
    using Cons.IH[OF ms e(1,2)] p(1,3) unfolding fold_simps(2) Let_def e(3-5) r_def[symmetric] by simp
qed

section \<open>A node of the forest has the packs of the other builder\<close>

text \<open>A completed item of a class has a pack: its character.\<close>

definition class_items_ok :: "'t::{linorder,zero} node_hash \<Rightarrow> 't builder \<Rightarrow> bool" where
  "class_items_ok h b \<longleftrightarrow> (\<forall>n k to. \<forall>i \<in> set (matching_items b n k to). is_cc_fn (b_gr b) n \<longrightarrow> item_packs h b i \<noteq> [])"

lemma placed_forward: "placed b \<Longrightarrow> \<not> b_binarize b \<Longrightarrow> spans_forward (prepare_bintree b)"
  unfolding spans_forward_def
proof (intro allI ballI)
  fix n j v assume "placed b" "\<not> b_binarize b" "v \<in> set (child_items (prepare_bintree b) n j)"
  then have "v \<in> set (vget j (b_S b))" by (simp add: child_items_def bintree_fields)
  then show "i_from v \<le> j" using \<open>placed b\<close> by (auto simp: placed_def vget_def split: if_splits)
qed

lemma item_packs_covers:
  assumes "placed b" "\<not> b_binarize b" "p \<in> set (item_packs h (prepare_bintree b) i)"
  shows "covers (child_ok (prepare_bintree b)) (seq (body (b_gr b) (i_prod i) ! i_con i)) (i_from i) (i_set i) p"
  using sbl_chd_forest_set[OF placed_forward[OF assms(1,2)], of "[]" i "[]" h "i_set i"] assms(3)
  by (simp add: item_packs_def bintree_fields[OF assms(2)] extends_def len_def)

lemma item_packs_nonempty:
  assumes "placed b" "\<not> b_binarize b" "i \<in> set (matching_items (prepare_bintree b) n k to)"
    "p \<in> set (item_packs h (prepare_bintree b) i)"
  shows "p \<noteq> []"
  using covers_packs[OF item_packs_covers[OF assms(1,2,4)]] matching_placed(8)[OF assms(1-3)] by (auto simp: packs_of_def)

lemma best_packs_cases:
  "set ms \<subseteq> A \<Longrightarrow> \<forall>p \<in> set (snd (fold (best_step h d) ms (best, packs))). p \<in> set packs \<or> (\<exists>i \<in> A. p \<in> set (item_packs h d i))"
proof (induction ms arbitrary: best packs)
  case (Cons i ms)
  obtain best' packs' where e: "best_step h d i (best, packs) = (best', packs')" by fastforce
  then have "packs' = packs \<or> packs' = item_packs h d i"
    by (auto simp: best_step_def Let_def split: if_splits)
  then show ?case using Cons.IH[of best' packs'] Cons.prems by (auto simp: e)
qed simp

lemma best_packs_some:
  "packs \<noteq> [] \<or> (i \<in> set ms \<and> item_packs h d i \<noteq> [] \<and> i_prod i < best) \<Longrightarrow>
     snd (fold (best_step h d) ms (best, packs)) \<noteq> []"
proof (induction ms arbitrary: best packs)
  case (Cons j ms)
  obtain best' packs' where e: "best_step h d j (best, packs) = (best', packs')" by fastforce
  then have "packs' \<noteq> [] \<or> (packs' = packs \<and> best' = best \<and> (i = j \<longrightarrow> packs' \<noteq> [] \<or> \<not> (item_packs h d i \<noteq> [] \<and> i_prod i < best)))"
    by (auto simp: best_step_def Let_def split: if_splits)
  then show ?case using Cons.IH[of packs' best'] Cons.prems by (auto simp: e)
qed simp

lemma derived_nonempty: "p \<in> set (derived_class_packs h b n k ad []) \<Longrightarrow> p \<noteq> []"
proof -
  assume "p \<in> set (derived_class_packs h b n k ad [])"
  then have "p \<in> set (if ad then take 1 (accepting_packs b n k) else accepting_packs b n k)"
    using pack.set_sinserts_sub[of h _ "[]"] unfolding derived_class_packs_def Let_def by force
  then have "p \<in> set (accepting_packs b n k)" using set_take_subset[of 1 "accepting_packs b n k"] by (auto split: if_splits)
  then show ?thesis by (auto simp: accepting_packs_def)
qed

lemma fold_sinserts_some:
  "amb \<noteq> [] \<or> (\<exists>i \<in> set ms. q i \<noteq> []) \<Longrightarrow> fold (\<lambda>i. sinserts (pack_less h) (q i)) ms amb \<noteq> []"
proof (induction ms arbitrary: amb)
  case (Cons i ms)
  have "sinserts (pack_less h) (q i) amb \<noteq> []" if "amb \<noteq> [] \<or> q i \<noteq> []"
    using that pack.set_sinserts_sup[of amb h "q i"] pack.sinserts_has[of "hd (q i)" "q i" h amb]
    by (cases "q i") auto
  then show ?case using Cons.IH[of "sinserts (pack_less h) (q i) amb"] Cons.prems by auto
qed simp

lemma visit_node_packs:
  assumes "placed b" "\<not> b_binarize b" "class_items_ok h (prepare_bintree b)" "root = (Nt n, k, to)" "to \<le> b_tpos b"
    "graph_ok h f"
  shows "\<exists>u f'. visit_node h (prepare_forest b) root f = (concat (node_packs h (prepare_bintree b) root), f') \<and>
    graph_ok h f' \<and> f_rt f' = f_rt f \<and>
    map_of (f_g f') = put u root (node_packs h (prepare_bintree b) root) (map_of (f_g f)) \<and>
    (\<not> u \<longrightarrow> f' = f \<and> node_packs h (prepare_bintree b) root = [])"
proof -
  let ?c = "prepare_forest b" let ?d = "prepare_bintree b"
  let ?ad = "check_allowed b root" let ?ms = "matching_items ?d n k to"
  note cf = forest_fields[OF assms(2)] and df = bintree_fields[OF assms(2)]
  have ad: "check_allowed ?c x = check_allowed b x" "check_allowed ?d x = check_allowed b x" for x
    by (simp_all add: check_allowed_def cf df)
  have nt: "is_nt (fst root)" using assms(4) by simp
  have der: "derived_class_packs h ?c n k ad [] = derived_class_packs h ?d n k ad []" for ad
    by (simp add: derived_class_packs_def accepting_packs_def cf df)
  have len: "\<not> length (b_S b) \<le> to" using assms(1,5) by (simp add: placed_def)
  note items = node_items[OF assms(1,2), of to n k]
  have single: ?thesis if fn: "forest_node h ?c root f = (start_node f)\<lparr>ambset := ps, snodes := [root], n_f := set_packs h root ps f\<rparr>"
    and col: "collect_packs h ?d root = (?ad, ps)" and ne: "\<forall>p \<in> set ps. p \<noteq> []" for ps
  proof -
    note g = set_packs_map[OF assms(6) nt]
    note g2 = set_packs_map[OF g(2) nt]
    show ?thesis
      by (rule exI[of _ True]) (use choose_pack_best[OF ne] g g2 in
        \<open>auto simp: visit_node_def fn ad node_packs_def col Let_def start_node_def\<close>)
  qed
  consider (recipe) "to = k + 1 \<and> uses_derived_recipe (b_gr b) n"
    | (character) "\<not> (to = k + 1 \<and> uses_derived_recipe (b_gr b) n)" "is_cc_free b root" "?ms = []"
    | (items) "\<not> (to = k + 1 \<and> uses_derived_recipe (b_gr b) n)" "is_cc_free b root \<longrightarrow> ?ms \<noteq> []" by blast
  then show ?thesis
  proof cases
    case recipe
    then show ?thesis
      by (intro single[of "derived_class_packs h ?d n k ?ad []"])
        (use derived_nonempty[of "[]"] in \<open>auto simp: forest_node_def collect_packs_def assms(4) Let_def cf df der ad\<close>)
  next
    case character
    have no: "\<not> list_ex (\<lambda>it. i_set it = to) (sorted_citem ?c (n, k))"
      using items character(3) by (auto simp: list_ex_iff filter_empty_conv)
    have "is_cc_free ?c root" using character(2) by (simp add: is_cc_free_def cf)
    then have "forest_node h ?c root f = (start_node f)\<lparr>ambset := [[(Tm (b_tat b k), k, to)]], snodes := [root],
        n_f := set_packs h root [[(Tm (b_tat b k), k, to)]] f\<rparr>"
      using character(1) no by (auto simp: forest_node_def assms(4) Let_def cf)
    moreover have "collect_packs h ?d root = (?ad, [[(Tm (b_tat b k), k, to)]])"
      using character len by (auto simp: collect_packs_def assms(4) Let_def df ad best_packs_def is_cc_free_def)
    moreover have "\<forall>p \<in> set [[(Tm (b_tat b k), k, to)]]. p \<noteq> []" by auto
    ultimately show ?thesis by (intro single)
  next
    case items': items
    let ?ps = "if ?ad then snd (best_packs h ?d ?ms) else fold (\<lambda>i. sinserts (pack_less h) (item_packs h ?d i)) ?ms []"
    have some: "?ps \<noteq> []" if cc: "is_cc_free b root"
    proof -
      obtain i where i: "i \<in> set ?ms" using items'(2) cc by (cases ?ms) auto
      have "is_cc_fn (b_gr ?d) n" using cc by (simp add: is_cc_free_def assms(4) df)
      then have q: "item_packs h ?d i \<noteq> []" using assms(3) i unfolding class_items_ok_def by blast
      have "fold (\<lambda>i. sinserts (pack_less h) (item_packs h ?d i)) ?ms [] \<noteq> []"
        using q i by (intro fold_sinserts_some) blast
      moreover have "snd (best_packs h ?d ?ms) \<noteq> []"
        unfolding best_packs_def using q i matching_placed(5)[OF assms(1,2) i] by (intro best_packs_some) blast
      ultimately show ?thesis by simp
    qed
    have col: "collect_packs h ?d root = (?ad, ?ps)"
      using items'(1) some len
      by (auto simp: collect_packs_def assms(4) Let_def df ad is_cc_free_def)
    have cfree: "is_cc_free ?c root = is_cc_free b root" by (simp add: is_cc_free_def cf)
    have ex: "list_ex (\<lambda>it. i_set it = to) (sorted_citem ?c (n, k)) \<longleftrightarrow> ?ms \<noteq> []"
      unfolding items[symmetric] by (auto simp: list_ex_iff filter_empty_conv)
    have "forest_node h ?c root f = fold (forest_item h ?c root) (sorted_citem ?c (n, k)) (start_node f)"
      using items' ex cfree by (auto simp: forest_node_def assms(4) Let_def cf)
    also have "\<dots> = fold (forest_item h ?c root) ?ms (start_node f)"
      unfolding items[symmetric] by (rule fold_skip) (simp add: forest_item_def assms(4))
    finally have fn: "forest_node h ?c root f = fold (forest_item h ?c root) ?ms (start_node f)" .
    have st: "graph_ok h (n_f (start_node f))" "ambset (start_node f) = []" "last_p (start_node f) = SIZE_MAX"
      "snodes (start_node f) = []" "n_f (start_node f) = f" "sorted_wrt (pack_less h) (ambset (start_node f))"
      using assms(6) by (simp_all add: start_node_def)
    show ?thesis
    proof (cases ?ad)
      case True
      note r = forest_fold_best[OF assms(1,2,4) True order_refl st(1), unfolded Let_def st(2-5)]
      have ps: "?ps = snd (fold (best_step h ?d) ?ms (SIZE_MAX, []))" using True by (simp add: best_packs_def)
      have ne: "\<forall>p \<in> set ?ps. p \<noteq> []"
        using best_packs_cases[of ?ms "set ?ms" h ?d SIZE_MAX "[]"] item_packs_nonempty[OF assms(1,2), of _ n k to _ h]
        unfolding ps by fastforce
      have np: "node_packs h ?d root = choose_pack ?ps"
        using choose_pack_best[OF ne] True by (simp add: node_packs_def col)
      show ?thesis
      proof (cases "?ms = []")
        case ms: True
        then have "?ps = []" using True by (simp add: best_packs_def)
        then show ?thesis using r ms np
          by (intro exI[of _ False]) (simp add: visit_node_def fn Let_def st assms(6) choose_pack_def)
      next
        case False
        let ?s = "fold (forest_item h ?c root) ?ms (start_node f)"
        have s: "ambset ?s = ?ps" "snodes ?s = [root]" "graph_ok h (n_f ?s)" "f_rt (n_f ?s) = f_rt f"
          "map_of (f_g (n_f ?s)) = (map_of (f_g f))(root \<mapsto> ?ps)"
          using r False unfolding ps by simp_all
        have v: "visit_node h ?c root f = (concat (choose_pack ?ps), set_packs h root (choose_pack ?ps) (n_f ?s))"
          unfolding visit_node_def Let_def fn s(1,2) ad using True by simp
        show ?thesis
          unfolding v np by (intro exI[of _ True]) (simp add: set_packs_map[OF s(3) nt] s(4,5))
      qed
    next
      case False
      note r = forest_fold_all[OF assms(1,2,4) False order_refl st(1,6), unfolded Let_def st(2-5)]
      have np: "node_packs h ?d root = ?ps" using False by (simp add: node_packs_def col)
      have ps: "?ps = fold (\<lambda>i. sinserts (pack_less h) (item_packs h ?d i)) ?ms []" using False by simp
      let ?s = "fold (forest_item h ?c root) ?ms (start_node f)"
      have v: "visit_node h ?c root f = (concat ?ps, n_f ?s)"
        unfolding visit_node_def Let_def fn using r False by (simp add: ps)
      show ?thesis
        unfolding v np using r by (intro exI[of _ "?ms \<noteq> []"] exI[of _ "n_f ?s"]) (auto simp: ps st)
    qed
  qed
qed

lemma covers_bound:
  assumes "spans_forward b"
  shows "covers (child_ok b) ls i j qs \<Longrightarrow> c \<in> set qs \<Longrightarrow> snd (snd c) \<le> j"
proof (induction ls arbitrary: i qs)
  case (Cons l ls)
  then obtain k rest where k: "qs = (l, i, k) # rest" "covers (child_ok b) ls k j rest" by auto
  then show ?case using Cons covers_le[OF assms k(2)] by auto
qed simp

section \<open>The forest holds what is reachable\<close>

lemma item_packs_within:
  assumes "placed b" "\<not> b_binarize b" "i \<in> set (matching_items (prepare_bintree b) n k to)"
    "p \<in> set (item_packs h (prepare_bintree b) i)" "c \<in> set p"
  shows "snd (snd c) \<le> to"
  using covers_bound[OF placed_forward[OF assms(1,2)] item_packs_covers[OF assms(1,2,4)] assms(5)]
    matching_placed(1)[OF assms(1-3)] by simp

lemma collect_within:
  fixes b :: "'t::{linorder,zero} builder"
  assumes "placed b" "\<not> b_binarize b" "p \<in> set (snd (collect_packs h (prepare_bintree b) (Nt n, k, to)))" "c \<in> set p"
  shows "snd (snd c) \<le> to"
proof -
  let ?d = "prepare_bintree b" let ?ms = "matching_items ?d n k to"
  let ?in = "\<lambda>p. \<forall>c \<in> set p. snd (snd c) \<le> to"
  have item: "\<forall>p \<in> set (item_packs h ?d i). ?in p" if "i \<in> set ?ms" for i
    using item_packs_within[OF assms(1,2) that] by blast
  have best: "\<forall>p \<in> set (snd (best_packs h ?d ?ms)). ?in p"
    using best_packs_cases[of ?ms "set ?ms" h ?d SIZE_MAX "[]"] item unfolding best_packs_def by fastforce
  have all: "\<forall>p \<in> set (fold (\<lambda>i. sinserts (pack_less h) (item_packs h ?d i)) ?ms []). ?in p"
  proof (rule fold_invariant[where Q = "\<lambda>i. i \<in> set ?ms" and P = "\<lambda>ps. \<forall>p \<in> set ps. ?in p"])
    fix i and ps :: "'t pnodes list" assume i: "i \<in> set ?ms" and ps: "\<forall>p \<in> set ps. ?in p"
    show "\<forall>p \<in> set (sinserts (pack_less h) (item_packs h ?d i) ps). ?in p"
    proof
      fix p assume "p \<in> set (sinserts (pack_less h) (item_packs h ?d i) ps)"
      then have "p \<in> set (item_packs h ?d i) \<union> set ps" using pack.set_sinserts_sub by blast
      then show "?in p" using item[OF i] ps by blast
    qed
  qed simp_all
  have der: "\<forall>p \<in> set (derived_class_packs h ?d n k ad []). ?in p" if "to = k + 1" for ad
  proof
    fix p assume "p \<in> set (derived_class_packs h ?d n k ad [])"
    then have "p \<in> set (if ad then take 1 (accepting_packs ?d n k) else accepting_packs ?d n k)"
      using pack.set_sinserts_sub[of h _ "[]"] unfolding derived_class_packs_def Let_def by force
    then have "p \<in> set (accepting_packs ?d n k)" using set_take_subset[of 1 "accepting_packs ?d n k"] by (auto split: if_splits)
    then show "?in p" using that by (auto simp: accepting_packs_def)
  qed
  have "?in p"
    using assms(3) best all der by (auto simp: collect_packs_def Let_def split: if_splits)
  then show ?thesis using assms(4) by blast
qed

lemma node_packs_sub: "p \<in> set (node_packs h b n) \<Longrightarrow> p \<in> set (snd (collect_packs h b n))"
  using pick_best_mem[of "snd (collect_packs h b n)"]
  by (cases "collect_packs h b n") (auto simp: node_packs_def split: if_splits)

inductive reached :: "'t::{linorder,zero} node_hash \<Rightarrow> 't builder \<Rightarrow> 't pnode \<Rightarrow> 't pnode \<Rightarrow> bool" for h b root where
  reached_root: "reached h b root root"
| reached_child: "reached h b root n \<Longrightarrow> p \<in> set (node_packs h b n) \<Longrightarrow> c \<in> set p \<Longrightarrow> is_nt (fst c) \<Longrightarrow> reached h b root c"

definition forest_packs :: "'t forest \<Rightarrow> 't pnode \<Rightarrow> 't pnodes list" where
  "forest_packs f n = (case map_of (f_g f) n of None \<Rightarrow> [] | Some packs \<Rightarrow> packs)"

text \<open>What holds while the stack \<open>todo\<close> is worked off.\<close>

abbreviation settled :: "'t::{linorder,zero} node_hash \<Rightarrow> 't builder \<Rightarrow> 't pnodes \<Rightarrow> 't forest \<Rightarrow> 't pnode \<Rightarrow> bool" where
  "settled h d todo f c \<equiv> contains f c \<or> c \<in> set todo \<or> node_packs h d c = []"

definition forest_inv ::
  "'t::{linorder,zero} node_hash \<Rightarrow> 't builder \<Rightarrow> 't pnode set \<Rightarrow> 't pnode \<Rightarrow> 't pnodes \<Rightarrow> 't forest \<Rightarrow> bool" where
  "forest_inv h d N root todo f \<longleftrightarrow> graph_ok h f \<and> f_rt f = Some root \<and> settled h d todo f root \<and>
     (\<forall>c \<in> set todo. is_nt (fst c) \<longrightarrow> c \<in> N \<and> reached h d root c) \<and>
     (\<forall>n ps. map_of (f_g f) n = Some ps \<longrightarrow> n \<in> N \<and> reached h d root n \<and> ps = node_packs h d n \<and>
        (\<forall>p \<in> set ps. \<forall>c \<in> set p. is_nt (fst c) \<longrightarrow> settled h d todo f c))"

lemma forest_inv_pop:
  assumes inv: "forest_inv h d N root (c # todo) f" and root: "is_nt (fst root)"
    and skip: "\<not> is_nt (fst c) \<or> contains f c \<or> node_packs h d c = []"
  shows "forest_inv h d N root todo f"
proof -
  have st: "settled h d todo f y" if "settled h d (c # todo) f y" "is_nt (fst y)" for y using that skip by auto
  have "settled h d todo f root" using inv root by (intro st) (simp_all add: forest_inv_def)
  moreover have "settled h d todo f y"
    if "map_of (f_g f) n = Some ps" "p \<in> set ps" "y \<in> set p" "is_nt (fst y)" for n ps p y
    using inv that unfolding forest_inv_def by (intro st) blast+
  ultimately show ?thesis using inv unfolding forest_inv_def by simp
qed

lemma forest_loop_inv:
  fixes b :: "'t::{linorder,zero} builder"
  assumes setting: "placed b" "\<not> b_binarize b" "class_items_ok h (prepare_bintree b)"
    and N: "finite N" "\<forall>n \<in> N. snd (snd n) \<le> b_tpos b"
      "\<forall>n \<in> N. \<forall>p \<in> set (node_packs h (prepare_bintree b) n). \<forall>c \<in> set p. is_nt (fst c) \<longrightarrow> c \<in> N"
    and root: "is_nt (fst root)" and inv: "forest_inv h (prepare_bintree b) N root todo f"
  shows "\<exists>r f'. forest_loop h (prepare_forest b) todo built f = Some (r, f') \<and>
    forest_inv h (prepare_bintree b) N root [] f'"
  using inv
proof (induction "card (N - {n. contains f n})" arbitrary: todo f built rule: less_induct)
  case less
  let ?d = "prepare_bintree b"
  from less.prems show ?case
  proof (induction todo arbitrary: built)
    case Nil
    then show ?case by (subst forest_loop.simps) auto
  next
    case (Cons c todo)
    show ?case
    proof (cases "\<not> is_nt (fst c) \<or> contains f c")
      case True
      then have "forest_inv h ?d N root todo f"
        using forest_inv_pop[OF Cons.prems root] by blast
      then show ?thesis using Cons.IH True by (subst forest_loop.simps) auto
    next
      case new: False
      have c: "c \<in> N" "reached h ?d root c" using Cons.prems new by (auto simp: forest_inv_def)
      obtain n k to where nk: "c = (Nt n, k, to)" using new by (cases c; cases "fst c") auto
      have g: "graph_ok h f" "to \<le> b_tpos b" using Cons.prems N(2) c nk by (auto simp: forest_inv_def)
      obtain u f' where v: "visit_node h (prepare_forest b) c f = (concat (node_packs h ?d c), f')" "graph_ok h f'"
        "f_rt f' = f_rt f" "map_of (f_g f') = put u c (node_packs h ?d c) (map_of (f_g f))"
        "\<not> u \<longrightarrow> f' = f \<and> node_packs h ?d c = []"
        using visit_node_packs[OF setting nk g(2,1)] by blast
      have loop: "forest_loop h (prepare_forest b) (c # todo) built f =
          forest_loop h (prepare_forest b) (concat (node_packs h ?d c) @ todo) True f'"
        using new v(1) by (subst forest_loop.simps) auto
      show ?thesis
      proof (cases u)
        case False
        then have "forest_inv h ?d N root todo f" using forest_inv_pop[OF Cons.prems root] v(5) by blast
        then show ?thesis using Cons.IH[of True] v(5) False unfolding loop by simp
      next
        case True
        have m: "map_of (f_g f') = (map_of (f_g f))(c \<mapsto> node_packs h ?d c)" using v(4) True by simp
        then have cont: "contains f' x \<longleftrightarrow> x = c \<or> contains f x" for x by (simp add: contains_def)
        have "N - {n. contains f' n} \<subset> N - {n. contains f n}" using c(1) new cont by auto
        then have lt: "card (N - {n. contains f' n}) < card (N - {n. contains f n})"
          using N(1) by (simp add: psubset_card_mono)
        let ?new = "concat (node_packs h ?d c)"
        have kids: "x \<in> N \<and> reached h ?d root x" if "x \<in> set ?new" "is_nt (fst x)" for x
          using that N(3) c by (auto intro: reached_child)
        have "forest_inv h ?d N root (?new @ todo) f'"
          unfolding forest_inv_def
        proof (intro conjI allI impI ballI)
          show "graph_ok h f'" "f_rt f' = Some root" using v(2,3) Cons.prems by (simp_all add: forest_inv_def)
          show "settled h ?d (?new @ todo) f' root" using Cons.prems cont by (auto simp: forest_inv_def)
          show "x \<in> N" "reached h ?d root x" if "x \<in> set (?new @ todo)" "is_nt (fst x)" for x
            using that kids[of x] Cons.prems by (auto simp: forest_inv_def)
          fix x ps assume x: "map_of (f_g f') x = Some ps"
          have "x \<in> N \<and> reached h ?d root x \<and> ps = node_packs h ?d x"
          proof (cases "x = c")
            case True
            then show ?thesis using x m c by simp
          next
            case False
            then have "map_of (f_g f) x = Some ps" using x m by simp
            then show ?thesis using Cons.prems unfolding forest_inv_def by blast
          qed
          then show "x \<in> N" "reached h ?d root x" "ps = node_packs h ?d x" by simp_all
          fix p y assume y: "p \<in> set ps" "y \<in> set p" "is_nt (fst y)"
          show "settled h ?d (?new @ todo) f' y"
          proof (cases "x = c")
            case True
            then have "ps = node_packs h ?d c" using x m by simp
            then show ?thesis using y by auto
          next
            case False
            then have "map_of (f_g f) x = Some ps" using x m by simp
            then have "settled h ?d (c # todo) f y" using y Cons.prems unfolding forest_inv_def by blast
            then show ?thesis using cont by auto
          qed
        qed
        then show ?thesis using less.hyps[OF lt] unfolding loop by blast
      qed
    qed
  qed
qed

text \<open>C5: the forest of a chart, without binarization: \<open>init_forest\<close> returns; the entries are nodes the root reaches, and
  every node the root reaches has in the forest exactly the packs the binary tree builder uses for
  it: all of them, or the chosen one when the node is disambiguated.\<close>

theorem forest_matches_bintree:
  assumes "placed b" and "\<not> b_binarize b" and "class_items_ok h (prepare_bintree b)" and "is_nt sl"
    and "\<forall>n. \<forall>p \<in> set (enabled_source_prods (b_gr b) n). p < gsize (b_gr b)"
  shows "\<exists>r f. init_forest h sl b forest_empty = Some (r, f) \<and> f_rt f = Some (sl, 0, b_tpos b) \<and>
    (\<forall>n. contains f n \<longrightarrow> reached h (prepare_bintree b) (sl, 0, b_tpos b) n) \<and>
    (\<forall>n. reached h (prepare_bintree b) (sl, 0, b_tpos b) n \<longrightarrow> forest_packs f n = node_packs h (prepare_bintree b) n)"
proof -
  let ?d = "prepare_bintree b" let ?root = "(sl, 0, b_tpos b)"
  let ?N = "{n \<in> node_set ?d sl. is_nt (fst n) \<and> snd (snd n) \<le> b_tpos b}"
  note ok = prepare_bintree_ok[OF assms(5)] and df = bintree_fields[OF assms(2)]
  have N: "finite ?N" "\<forall>n \<in> ?N. snd (snd n) \<le> b_tpos b" using finite_node_set[of ?d sl] by auto
  have closed: "\<forall>n \<in> ?N. \<forall>p \<in> set (node_packs h ?d n). \<forall>c \<in> set p. is_nt (fst c) \<longrightarrow> c \<in> ?N"
  proof (intro ballI impI)
    fix n p c assume n: "n \<in> ?N" and p: "p \<in> set (node_packs h ?d n)" and c: "c \<in> set p" "is_nt (fst c)"
    note col = node_packs_sub[OF p]
    have "c \<in> node_set ?d sl" using node_set_closed[of ?d h sl] ok n col c unfolding node_closed_def by blast
    moreover obtain w k to where "n = (Nt w, k, to)" "to \<le> b_tpos b" using n by (cases n; cases "fst n") auto
    moreover from this have "snd (snd c) \<le> b_tpos b" using collect_within[OF assms(1,2) _ c(1)] col by fastforce
    ultimately show "c \<in> ?N" using c(2) by simp
  qed
  have root: "?root \<in> ?N" using ok node_span_ge(3)[of ?d] assms(4) by (simp add: node_set_def)
  have "forest_inv h ?d ?N ?root [?root] (set_root ?root forest_empty)"
    using root by (auto simp: forest_inv_def graph_ok_def set_root_def forest_empty_def intro: reached_root)
  from forest_loop_inv[OF assms(1-3) N closed _ this, of False] assms(4)
  obtain r f where f: "init_forest h sl b forest_empty = Some (r, f)" "forest_inv h ?d ?N ?root [] f"
    by (auto simp: init_forest_def build_forest_def forest_fields(4)[OF assms(2)])
  have entry: "reached h ?d ?root n" "ps = node_packs h ?d n" if "map_of (f_g f) n = Some ps" for n ps
    using f(2) that unfolding forest_inv_def by blast+
  have "forest_packs f n = node_packs h ?d n" if "reached h ?d ?root n" for n
  proof -
    have known: "forest_packs f n = node_packs h ?d n" if "settled h ?d [] f n" for n
      using that entry(2)[of n] by (cases "map_of (f_g f) n") (auto simp: forest_packs_def contains_def)
    have "settled h ?d [] f n"
      using that
    proof (induction rule: reached.induct)
      case reached_root
      then show ?case using f(2) by (simp add: forest_inv_def)
    next
      case (reached_child n p c)
      then have "forest_packs f n = node_packs h ?d n" using known by blast
      then have "map_of (f_g f) n = Some (node_packs h ?d n)"
        using reached_child(2) by (auto simp: forest_packs_def split: option.splits)
      then show ?case using f(2) reached_child(2-4) unfolding forest_inv_def by blast
    qed
    then show ?thesis by (rule known)
  qed
  moreover have "f_rt f = Some ?root" using f(2) by (simp add: forest_inv_def)
  moreover have "\<forall>n. contains f n \<longrightarrow> reached h ?d ?root n"
    unfolding contains_def using entry(1) by blast
  ultimately show ?thesis using f(1) by blast
qed

lemma pairs_node_packs:
  "node_packs (\<lambda>_. 0) (prepare_bintree pairs_builder) (Nt 0, 0, 3) =
     [[(Nt 0, 0, 1), (Nt 0, 1, 3)], [(Nt 0, 0, 2), (Nt 0, 2, 3)]]"
  by code_simp

theorem forest_matches_bintree_witness:
  "\<exists>r f. init_forest (\<lambda>_. 0) (Nt 0) pairs_builder forest_empty = Some (r, f) \<and>
     forest_packs f (Nt 0, 0, 3) = [[(Nt 0, 0, 1), (Nt 0, 1, 3)], [(Nt 0, 0, 2), (Nt 0, 2, 3)]]"
proof -
  have "placed pairs_builder"
    by (auto simp: placed_def pairs_builder_def pairs_grammar_def mk_item_def head_def body_def nth_Cons' SIZE_MAX_def split: if_splits)
  moreover have "\<not> b_binarize pairs_builder" by (simp add: pairs_builder_def)
  moreover have "class_items_ok (\<lambda>_. 0) (prepare_bintree pairs_builder)"
    by (simp add: class_items_ok_def is_cc_fn_def is_fn_def prepare_bintree_def clear_indexes_def pairs_builder_def
        pairs_grammar_def digits_grammar_def)
  moreover have "\<forall>n. \<forall>p \<in> set (enabled_source_prods (b_gr pairs_builder) n). p < gsize (b_gr pairs_builder)"
    by (simp add: pairs_builder_def pairs_grammar_def digits_grammar_def enabled_source_prods_def)
  ultimately obtain r f where f: "init_forest (\<lambda>_. 0) (Nt 0) pairs_builder forest_empty = Some (r, f)"
    "\<forall>n. reached (\<lambda>_. 0) (prepare_bintree pairs_builder) (Nt 0, 0, 3) n \<longrightarrow>
       forest_packs f n = node_packs (\<lambda>_. 0) (prepare_bintree pairs_builder) n"
    using forest_matches_bintree[of pairs_builder "\<lambda>_. 0" "Nt 0"] by (auto simp: pairs_builder_def)
  then show ?thesis using pairs_node_packs reached_root by metis
qed

end
