(* ===== verification/ForestWalk.thy ===== *)
theory ForestWalk
  imports Forest
begin

text \<open>
  Traversal of a node graph with a visitor, in \<open>src/src/utility/forest.tmpl.h\<close>, and its uses:
  \<open>count_trees\<close>, \<open>count_useful_nodes\<close>, \<open>detect_cycle\<close>. The recursion takes fuel for its depth;
  one more than the number of entries is enough. The locale \<open>depth_first\<close> has the contract of a
  visitor; its interpretations give what the counts and the search for cycles compute.
\<close>

section \<open>Traversal\<close>

text \<open>The callbacks of \<open>traverse\<close>, over a state of the caller.\<close>

record ('t, 'u) visitor =
  v_enter :: "'t pnode \<Rightarrow> 'u \<Rightarrow> 'u"
  v_exit :: "'t pnode \<Rightarrow> 't pnodes list \<Rightarrow> 'u \<Rightarrow> 'u"
  v_revisit :: "'t pnode \<Rightarrow> 'u \<Rightarrow> bool \<times> 'u"
  v_ambig :: "'t pnode \<Rightarrow> 't pnodes list \<Rightarrow> 'u \<Rightarrow> 't pnodes list \<times> 'u"

definition no_visit :: "('t, 'u) visitor" where
  "no_visit = \<lparr>v_enter = (\<lambda>_ u. u), v_exit = (\<lambda>_ _ u. u), v_revisit = (\<lambda>_ u. (False, u)), v_ambig = (\<lambda>_ packs u. (packs, u))\<rparr>"

text \<open>The loop over the children: one that was visited is entered again if \<open>cb_revisit\<close> says so.\<close>

fun visit_children ::
  "('t pnode \<Rightarrow> 't pnode set \<times> 'u \<Rightarrow> (bool \<times> 't pnode set \<times> 'u) option) \<Rightarrow> ('t pnode \<Rightarrow> 'u \<Rightarrow> bool \<times> 'u) \<Rightarrow>
   't pnodes \<Rightarrow> bool \<Rightarrow> 't pnode set \<times> 'u \<Rightarrow> (bool \<times> 't pnode set \<times> 'u) option" where
  "visit_children rec again [] ret s = Some (ret, s)"
| "visit_children rec again (c # cs) ret (don, u) =
     (case (if c \<notin> don then (True, u) else again c u) of
        (go, u) \<Rightarrow>
          if go then (case rec c (don, u) of
                        None \<Rightarrow> None
                      | Some (r, s) \<Rightarrow> visit_children rec again cs (ret \<and> r) s)
          else visit_children rec again cs ret (don, u))"

definition visit_root :: "('t, 'u) visitor \<Rightarrow> 't pnode \<Rightarrow> 't pnode set \<times> 'u \<Rightarrow> 't pnode set \<times> 'u" where
  "visit_root v n s = (insert n (fst s), v_enter v n (snd s))"

fun traverse_rec ::
  "nat \<Rightarrow> 't node_graph \<Rightarrow> ('t, 'u) visitor \<Rightarrow> bool \<Rightarrow> 't pnode \<Rightarrow> 't pnode set \<times> 'u \<Rightarrow>
   (bool \<times> 't pnode set \<times> 'u) option" where
  "traverse_rec 0 g v post_ord root s = None"
| "traverse_rec (Suc fuel) g v post_ord root s =
     (case (if is_nt (fst root) then map_of g root else Some []) of
        None \<Rightarrow> Some (False, s)
      | Some packs \<Rightarrow>
          (case (if post_ord then s else visit_root v root s) of (don, u) \<Rightarrow>
           case (if length packs > 1 then v_ambig v root packs u else (packs, u)) of (chosen, u) \<Rightarrow>
           case visit_children (traverse_rec fuel g v post_ord) (v_revisit v)
                  (concat (map (if post_ord then rev else id) chosen)) True (don, u) of
             None \<Rightarrow> None
           | Some (ret, s) \<Rightarrow>
               (case (if post_ord then visit_root v root s else s) of (don, u) \<Rightarrow>
                  Some (ret, don, v_exit v root chosen u))))"

definition traverse ::
  "nat \<Rightarrow> 't node_graph \<Rightarrow> ('t, 'u) visitor \<Rightarrow> bool \<Rightarrow> 't pnode \<Rightarrow> 'u \<Rightarrow> (bool \<times> 'u) option" where
  "traverse fuel g v post_ord root u =
     (case traverse_rec fuel g v post_ord root ({}, u) of None \<Rightarrow> None | Some (ret, _, u) \<Rightarrow> Some (ret, u))"

section \<open>Counting\<close>

text \<open>The count of one pack; \<open>None\<close> when the product exceeds \<open>size_t\<close>.\<close>

fun pack_count :: "('t pnode \<Rightarrow> nat) \<Rightarrow> 't pnodes \<Rightarrow> nat \<Rightarrow> nat option" where
  "pack_count ndc [] pkc = Some pkc"
| "pack_count ndc (c # cs) pkc =
     (if is_nt (fst c) \<and> ndc c \<noteq> 0 then
        (let x = pkc * ndc c mod (SIZE_MAX + 1)
         in if pkc \<noteq> 0 \<and> x div pkc \<noteq> ndc c then None else pack_count ndc cs x)
      else pack_count ndc cs pkc)"

fun count_packs :: "'t pnode \<Rightarrow> 't pnodes list \<Rightarrow> ('t pnode \<Rightarrow> nat) \<Rightarrow> 't pnode \<Rightarrow> nat" where
  "count_packs n [] ndc = ndc"
| "count_packs n (p # packs) ndc =
     (case pack_count ndc p 1 of
        None \<Rightarrow> ndc(n := SIZE_MAX)
      | Some pkc \<Rightarrow> count_packs n packs (ndc(n := (ndc n + pkc) mod (SIZE_MAX + 1))))"

definition count_trees :: "nat \<Rightarrow> 't node_graph \<Rightarrow> 't pnode \<Rightarrow> nat option" where
  "count_trees fuel g root =
     map_option (\<lambda>(_, ndc). ndc root)
       (traverse fuel g (no_visit\<lparr>v_exit := count_packs\<rparr>) False root (\<lambda>_. 0))"

definition count_useful_nodes :: "nat \<Rightarrow> 't node_graph \<Rightarrow> 't pnode \<Rightarrow> (nat \<times> nat) option" where
  "count_useful_nodes fuel g root =
     map_option snd (traverse fuel g
       (no_visit\<lparr>v_exit := \<lambda>n _ (ntc, tc). if is_nt (fst n) then (ntc + 1, tc) else (ntc, tc + 1)\<rparr>) False root (0, 0))"

section \<open>Cycles\<close>

text \<open>The nodes in progress and the nodes that lead to a cycle; a node that is not in \<open>inprog\<close> reads
  as \<open>false\<close>.\<close>

definition cycle_visitor :: "('t, 't pnode set \<times> 't pnode set) visitor" where
  "cycle_visitor = no_visit
     \<lparr>v_enter := \<lambda>n (inprog, cycles). (if is_nt (fst n) then insert n inprog else inprog, cycles),
      v_revisit := \<lambda>n (inprog, cycles). (False, inprog, if n \<in> inprog then insert n cycles else cycles),
      v_exit := \<lambda>n _ (inprog, cycles). (if is_nt (fst n) then inprog - {n} else inprog, cycles)\<rparr>"

definition detect_cycle :: "nat \<Rightarrow> 't node_graph \<Rightarrow> 't pnode \<Rightarrow> (bool \<times> 't pnode set) option" where
  "detect_cycle fuel g root =
     map_option (\<lambda>(ret, u). (ret, snd u)) (traverse fuel g cycle_visitor False root ({}, {}))"

section \<open>The contract of a visitor\<close>

definition packs_at :: "'t node_graph \<Rightarrow> 't pnode \<Rightarrow> 't pnodes list option" where
  "packs_at g n = (if is_nt (fst n) then map_of g n else Some [])"

definition kids :: "'t node_graph \<Rightarrow> 't pnode \<Rightarrow> 't pnode set" where
  "kids g n = (case packs_at g n of None \<Rightarrow> {} | Some packs \<Rightarrow> \<Union> (set ` set packs))"

definition present :: "'t node_graph \<Rightarrow> 't pnode \<Rightarrow> bool" where
  "present g n \<longleftrightarrow> packs_at g n \<noteq> None"

text \<open>The child relation.\<close>

definition child_of :: "'t node_graph \<Rightarrow> ('t pnode \<times> 't pnode) set" where
  "child_of g = {(c, n). c \<in> kids g n}"

text \<open>The path from the root to the node in progress (its head), and the nodes entered.\<close>

fun is_path :: "'t node_graph \<Rightarrow> 't pnode list \<Rightarrow> bool" where
  "is_path g (c # n # A) \<longleftrightarrow> c \<in> kids g n \<and> is_path g (n # A)"
| "is_path g A \<longleftrightarrow> True"

definition walk_ok :: "'t node_graph \<Rightarrow> 't pnode list \<Rightarrow> 't pnode set \<Rightarrow> bool" where
  "walk_ok g A don \<longleftrightarrow> is_path g A \<and> distinct A \<and> set A \<subseteq> don \<and> (\<forall>m \<in> don. present g m) \<and>
     (\<forall>m \<in> don - set A. \<forall>c \<in> kids g m. present g c \<longrightarrow> c \<in> don)"

lemma is_path_Cons: "is_path g (n # A) \<longleftrightarrow> (A \<noteq> [] \<longrightarrow> n \<in> kids g (hd A)) \<and> is_path g A"
  by (cases A) auto

lemma path_reaches: "is_path g A \<Longrightarrow> c \<in> set A \<Longrightarrow> (hd A, c) \<in> (child_of g)\<^sup>*"
proof (induction g A rule: is_path.induct)
  case (1 g c' n A)
  then show ?case
    by (auto simp: child_of_def intro: converse_rtrancl_into_rtrancl)
qed auto

lemma walk_ok_enter:
  assumes "walk_ok g A don" "n \<notin> don" "present g n" "A \<noteq> [] \<Longrightarrow> n \<in> kids g (hd A)"
  shows "walk_ok g (n # A) (insert n don)"
proof -
  have "is_path g A" "distinct A" "set A \<subseteq> don" "\<forall>m \<in> don. present g m"
    and c: "\<forall>m \<in> don - set A. \<forall>c \<in> kids g m. present g c \<longrightarrow> c \<in> don"
    using assms(1) unfolding walk_ok_def by blast+
  moreover have "\<forall>m \<in> insert n don - set (n # A). \<forall>c \<in> kids g m. present g c \<longrightarrow> c \<in> insert n don"
    using c by fastforce
  moreover have "is_path g (n # A)" using assms(4) \<open>is_path g A\<close> is_path_Cons[of g n A] by blast
  moreover have "distinct (n # A)" "set (n # A) \<subseteq> insert n don" using assms(2) \<open>distinct A\<close> \<open>set A \<subseteq> don\<close> by auto
  moreover have "\<forall>m \<in> insert n don. present g m" using assms(3) \<open>\<forall>m \<in> don. present g m\<close> by blast
  ultimately show ?thesis unfolding walk_ok_def by blast
qed

lemma walk_ok_exit:
  assumes "walk_ok g (n # A) don" "\<And>c. c \<in> kids g n \<Longrightarrow> present g c \<Longrightarrow> c \<in> don"
  shows "walk_ok g A don"
proof -
  have "is_path g (n # A)" "distinct (n # A)" "set (n # A) \<subseteq> don" "\<forall>m \<in> don. present g m"
    and c: "\<forall>m \<in> don - set (n # A). \<forall>c \<in> kids g m. present g c \<longrightarrow> c \<in> don"
    using assms(1) unfolding walk_ok_def by blast+
  moreover have "\<forall>m \<in> don - set A. \<forall>c \<in> kids g m. present g c \<longrightarrow> c \<in> don"
  proof (intro ballI impI)
    fix m k assume m: "m \<in> don - set A" "k \<in> kids g m" "present g k"
    show "k \<in> don"
    proof (cases "m = n")
      case False
      then have "m \<in> don - set (n # A)" using m(1) by simp
      then show ?thesis using c m(2,3) by blast
    qed (use assms(2) m in blast)
  qed
  moreover have "is_path g A" using \<open>is_path g (n # A)\<close> is_path_Cons[of g n A] by blast
  moreover have "distinct A" "set A \<subseteq> don" using \<open>distinct (n # A)\<close> \<open>set (n # A) \<subseteq> don\<close> by auto
  ultimately show ?thesis unfolding walk_ok_def by blast
qed

locale depth_first =
  fixes g :: "'t node_graph" and v :: "('t, 'u) visitor" and root :: "'t pnode"
    and inv :: "'t pnode list \<Rightarrow> 't pnode set \<Rightarrow> 'u \<Rightarrow> bool" and closes :: "'t pnode \<Rightarrow> 'u \<Rightarrow> bool"
  assumes enter: "walk_ok g A don \<Longrightarrow> inv A don u \<Longrightarrow> n \<notin> don \<Longrightarrow> present g n \<Longrightarrow>
      (if A = [] then n = root else n \<in> kids g (hd A)) \<Longrightarrow> inv (n # A) (insert n don) (v_enter v n u)"
    and revisit: "walk_ok g (n # A) don \<Longrightarrow> inv (n # A) don u \<Longrightarrow> c \<in> don \<Longrightarrow> c \<in> kids g n \<Longrightarrow>
      \<not> fst (v_revisit v c u) \<and> inv (n # A) don (snd (v_revisit v c u)) \<and>
      (c \<in> set (n # A) \<longrightarrow> closes c (snd (v_revisit v c u)))"
    and closes_mono: "closes c u \<Longrightarrow> closes c (v_enter v n u)" "closes c u \<Longrightarrow> closes c (v_exit v n packs u)"
      "closes c u \<Longrightarrow> closes c (snd (v_revisit v n u))"
    and ambig: "v_ambig v n packs u = (packs, u)"
    and exit: "walk_ok g (n # A) don \<Longrightarrow> inv (n # A) don u \<Longrightarrow> packs_at g n = Some packs \<Longrightarrow>
      \<forall>c \<in> kids g n. present g c \<longrightarrow> c \<in> don \<and> (c \<in> set (n # A) \<longrightarrow> closes c u) \<Longrightarrow> inv A don (v_exit v n packs u)"
begin

definition reached :: "'t pnode list \<Rightarrow> 't pnode set \<Rightarrow> 'u \<Rightarrow> 't pnode set \<Rightarrow> 'u \<Rightarrow> bool" where
  "reached A don u don' u' \<longleftrightarrow> walk_ok g A don' \<and> inv A don' u' \<and> don \<subseteq> don' \<and> (\<forall>c. closes c u \<longrightarrow> closes c u')"

definition complete :: "'t pnode set \<Rightarrow> 't pnode set \<Rightarrow> bool" where
  "complete don don' \<longleftrightarrow> (\<forall>m \<in> don' - don. \<forall>c \<in> kids g m. present g c)"

lemma complete_trans: "don \<subseteq> don1 \<Longrightarrow> don1 \<subseteq> don2 \<Longrightarrow> complete don don2 \<longleftrightarrow> complete don don1 \<and> complete don1 don2"
  by (auto simp: complete_def)

lemma visit_children_ok:
  assumes rec: "\<And>n don u. walk_ok g A don \<Longrightarrow> inv A don u \<Longrightarrow> n \<notin> don \<Longrightarrow> n \<in> kids g (hd A) \<Longrightarrow> D \<subseteq> don \<Longrightarrow>
      \<exists>don' u'. rec n (don, u) = Some (present g n \<and> complete don don', don', u') \<and> reached A don u don' u' \<and>
        (present g n \<longrightarrow> n \<in> don')"
    and A: "A \<noteq> []"
  shows "walk_ok g A don \<Longrightarrow> inv A don u \<Longrightarrow> set cs \<subseteq> kids g (hd A) \<Longrightarrow> D \<subseteq> don \<Longrightarrow>
    \<exists>don' u'. visit_children rec (v_revisit v) cs ret (don, u) =
        Some (ret \<and> (\<forall>c \<in> set cs. present g c) \<and> complete don don', don', u') \<and>
      reached A don u don' u' \<and> (\<forall>c \<in> set cs. present g c \<longrightarrow> c \<in> don' \<and> (c \<in> set A \<longrightarrow> closes c u'))"
proof (induction cs arbitrary: ret don u)
  case Nil
  then show ?case by (auto simp: reached_def complete_def)
next
  case (Cons c cs)
  obtain n B where AB: "A = n # B" using A by (cases A) auto
  show ?case
  proof (cases "c \<in> don")
    case True
    obtain go u1 where r: "v_revisit v c u = (go, u1)" by fastforce
    have i: "\<not> go" "inv A don u1" "c \<in> set A \<longrightarrow> closes c u1" "\<forall>d. closes d u \<longrightarrow> closes d u1"
      using revisit[of n B don u c] closes_mono(3)[of _ u c] Cons.prems True AB r by auto
    have "present g c" using Cons.prems(1) True by (auto simp: walk_ok_def)
    moreover obtain don' u' where
      "visit_children rec (v_revisit v) cs ret (don, u1) =
        Some (ret \<and> (\<forall>c \<in> set cs. present g c) \<and> complete don don', don', u')"
      "reached A don u1 don' u'" "\<forall>c \<in> set cs. present g c \<longrightarrow> c \<in> don' \<and> (c \<in> set A \<longrightarrow> closes c u')"
      using Cons.IH[of don u1 ret] Cons.prems i by auto
    moreover from this have "c \<in> set A \<longrightarrow> closes c u'" using i(3) unfolding reached_def by blast
    moreover have "reached A don u don' u'" using calculation(3) i(4) unfolding reached_def by blast
    ultimately show ?thesis using True r i(1) unfolding reached_def
      by (intro exI[of _ don'] exI[of _ u']) auto
  next
    case False
    obtain don1 u1 where r: "rec c (don, u) = Some (present g c \<and> complete don don1, don1, u1)" "reached A don u don1 u1"
      "present g c \<longrightarrow> c \<in> don1"
      using rec[of don u c] Cons.prems False by auto
    have w: "walk_ok g A don1" "inv A don1 u1" "don \<subseteq> don1" using r(2) by (auto simp: reached_def)
    let ?ret = "ret \<and> present g c \<and> complete don don1"
    have "set cs \<subseteq> kids g (hd A)" "D \<subseteq> don1" using Cons.prems(3,4) w(3) by auto
    from Cons.IH[OF w(1,2) this, of ?ret]
    obtain don' u' where s:
      "visit_children rec (v_revisit v) cs ?ret (don1, u1) =
        Some (?ret \<and> (\<forall>c \<in> set cs. present g c) \<and> complete don1 don', don', u')"
      "reached A don1 u1 don' u'" "\<forall>c \<in> set cs. present g c \<longrightarrow> c \<in> don' \<and> (c \<in> set A \<longrightarrow> closes c u')"
      by blast
    have l: "don1 \<subseteq> don'" "reached A don u don' u'" using r(2) s(2) by (auto simp: reached_def)
    have "(ret \<and> (\<forall>c \<in> set (c # cs). present g c) \<and> complete don don') =
        (?ret \<and> (\<forall>c \<in> set cs. present g c) \<and> complete don1 don')"
      using complete_trans[OF w(3) l(1)] by auto
    moreover have "c \<notin> set A" using False Cons.prems(1) by (auto simp: walk_ok_def)
    ultimately show ?thesis using r(1,3) s(1,3) l False
      by (intro exI[of _ don'] exI[of _ u']) auto
  qed
qed

lemma traverse_rec_ok:
  assumes "walk_ok g A don" "inv A don u" "n \<notin> don" "if A = [] then n = root else n \<in> kids g (hd A)"
    and "card (fst ` set g - don) < fuel"
  shows "\<exists>don' u'. traverse_rec fuel g v False n (don, u) = Some (present g n \<and> complete don don', don', u') \<and>
    reached A don u don' u' \<and> (present g n \<longrightarrow> n \<in> don')"
  using assms
proof (induction fuel arbitrary: A don u n)
  case 0
  then show ?case by simp
next
  case (Suc fuel)
  show ?case
  proof (cases "packs_at g n")
    case None
    then show ?thesis using Suc.prems(1,2)
      by (auto simp: packs_at_def present_def reached_def split: if_splits)
  next
    case (Some packs)
    let ?u = "v_enter v n u" and ?d = "insert n don"
    have p: "present g n" using Some by (simp add: present_def)
    have w: "walk_ok g (n # A) ?d"
      using Suc.prems(4) by (intro walk_ok_enter[OF Suc.prems(1,3) p]) auto
    have i: "inv (n # A) ?d ?u" by (rule enter[OF Suc.prems(1-3) p Suc.prems(4)])
    have k: "kids g n = set (concat packs)" using Some by (simp add: kids_def)
    have fuel: "card (fst ` set g - don1) < fuel" if sub: "?d \<subseteq> don1" and nt: "kids g n \<noteq> {}" for don1
    proof -
      have "is_nt (fst n)" "map_of g n = Some packs"
        using Some nt k by (auto simp: packs_at_def split: if_splits)
      then have "n \<in> fst ` set g" by (metis domI dom_map_of_conv_image_fst)
      then have "fst ` set g - don1 \<subset> fst ` set g - don" using sub Suc.prems(3) by blast
      then have "card (fst ` set g - don1) < card (fst ` set g - don)" by (intro psubset_card_mono) auto
      then show ?thesis using Suc.prems(5) by simp
    qed
    have rec: "\<exists>don' u'. traverse_rec fuel g v False c (don1, u1) = Some (present g c \<and> complete don1 don', don', u') \<and>
        reached (n # A) don1 u1 don' u' \<and> (present g c \<longrightarrow> c \<in> don')"
      if "walk_ok g (n # A) don1" "inv (n # A) don1 u1" "c \<notin> don1" and c: "c \<in> kids g (hd (n # A))" and d: "?d \<subseteq> don1" for c don1 u1
    proof (rule Suc.IH[OF that(1-3)])
      show "if n # A = [] then c = root else c \<in> kids g (hd (n # A))" using c by simp
      show "card (fst ` set g - don1) < fuel" using fuel[OF d] c by auto
    qed
    obtain don' u' where v:
      "visit_children (traverse_rec fuel g v False) (v_revisit v) (concat packs) True (?d, ?u) =
        Some (True \<and> (\<forall>c \<in> set (concat packs). present g c) \<and> complete ?d don', don', u')"
      "reached (n # A) ?d ?u don' u'" "\<forall>c \<in> set (concat packs). present g c \<longrightarrow> c \<in> don' \<and> (c \<in> set (n # A) \<longrightarrow> closes c u')"
      using visit_children_ok[where D = ?d, OF rec, OF _ _ _ _ _ _ w i, of "concat packs" True] k by simp blast
    have w1: "walk_ok g (n # A) don'" "inv (n # A) don' u'" "?d \<subseteq> don'" "\<forall>c. closes c ?u \<longrightarrow> closes c u'" using v(2) by (auto simp: reached_def)
    have e: "inv A don' (v_exit v n packs u')"
      by (rule exit[OF w1(1,2) Some]) (use v(3) k in blast)
    have "walk_ok g A don'"
      using v(3) k by (intro walk_ok_exit[OF w1(1)]) auto
    then have "reached A don u don' (v_exit v n packs u')"
      using e w1(3,4) closes_mono(1,2) by (auto simp: reached_def)
    moreover have "n \<in> don'" using w1(3) by auto
    moreover have "((\<forall>c \<in> set (concat packs). present g c) \<and> complete ?d don') = complete don don'"
      using k w1(3) Suc.prems(3) unfolding complete_def by blast
    then have "traverse_rec (Suc fuel) g v False n (don, u) = Some (complete don don', don', v_exit v n packs u')"
      using Some v(1) by (simp add: packs_at_def visit_root_def ambig)
    ultimately show ?thesis using p by auto
  qed
qed

theorem traverse_ok:
  assumes "inv [] {} u" "card (fst ` set g) < fuel"
  shows "\<exists>ret don u'. traverse fuel g v False root u = Some (ret, u') \<and> walk_ok g [] don \<and> inv [] don u' \<and>
    (present g root \<longrightarrow> root \<in> don) \<and> (ret \<longleftrightarrow> present g root \<and> (\<forall>m \<in> don. \<forall>c \<in> kids g m. present g c))"
proof -
  have w: "walk_ok g [] {}" by (simp add: walk_ok_def)
  obtain don' u' where
    "traverse_rec fuel g v False root ({}, u) = Some (present g root \<and> complete {} don', don', u')"
    "reached [] {} u don' u'" "present g root \<longrightarrow> root \<in> don'"
    using traverse_rec_ok[OF w assms(1), of root fuel] assms(2) by auto
  then show ?thesis by (auto simp: traverse_def reached_def complete_def)
qed

end

section \<open>Cycles are found\<close>

lemma path_to_last: "is_path g A \<Longrightarrow> c \<in> set A \<Longrightarrow> (c, last A) \<in> (child_of g)\<^sup>*"
proof (induction g A arbitrary: c rule: is_path.induct)
  case (1 g c' n A)
  have e: "(c', n) \<in> child_of g" and p: "is_path g (n # A)" using 1(2) by (simp_all add: child_of_def)
  have "(n, last (n # A)) \<in> (child_of g)\<^sup>*" by (rule "1.IH"[OF p]) simp
  then have "(c', last (n # A)) \<in> (child_of g)\<^sup>*" using e by (rule converse_rtrancl_into_rtrancl[rotated])
  moreover have "(c, last (n # A)) \<in> (child_of g)\<^sup>*" if "c \<in> set (n # A)" by (rule "1.IH"[OF p that])
  ultimately show ?case using 1(3) by (metis last_ConsR list.distinct(1) set_ConsD)
qed auto

definition cycle_inv ::
  "'t node_graph \<Rightarrow> 't pnode \<Rightarrow> 't pnode list \<Rightarrow> 't pnode set \<Rightarrow> 't pnode set \<times> 't pnode set \<Rightarrow> bool" where
  "cycle_inv g root A don u \<longleftrightarrow> fst u = {m \<in> set A. is_nt (fst m)} \<and> (A \<noteq> [] \<longrightarrow> last A = root) \<and>
     (\<forall>c \<in> snd u. (c, root) \<in> (child_of g)\<^sup>* \<and> (c, c) \<in> (child_of g)\<^sup>+) \<and>
     (snd u = {} \<longrightarrow> don - set A \<subseteq> Wellfounded.acc (child_of g)) \<and> (\<forall>m \<in> don. (m, root) \<in> (child_of g)\<^sup>*)"

lemma kids_terminal: "\<not> is_nt (fst c) \<Longrightarrow> kids g c = {}"
  by (simp add: kids_def packs_at_def)

lemma kids_absent: "\<not> present g c \<Longrightarrow> kids g c = {}"
  by (simp add: kids_def present_def)

lemma acc_no_kids: "kids g c = {} \<Longrightarrow> c \<in> Wellfounded.acc (child_of g)"
  by (rule accI) (simp add: child_of_def)

interpretation cyc: depth_first g cycle_visitor root "cycle_inv g root" "\<lambda>c u. is_nt (fst c) \<longrightarrow> c \<in> snd u" for g root
proof (unfold_locales, goal_cases)
  case (1 A don u n)
  obtain inprog cycles where u: "u = (inprog, cycles)" by fastforce
  have n: "n \<notin> set A" "set A \<subseteq> don" using 1 by (auto simp: walk_ok_def)
  have "(n, root) \<in> (child_of g)\<^sup>*"
  proof (cases A)
    case (Cons p B)
    then have "(n, p) \<in> child_of g" "(p, root) \<in> (child_of g)\<^sup>*"
      using 1(2,5) n(2) by (auto simp: cycle_inv_def child_of_def)
    then show ?thesis by (rule converse_rtrancl_into_rtrancl)
  qed (use 1(5) in simp)
  then show ?case using 1(2,5) n unfolding u by (auto simp: cycle_inv_def cycle_visitor_def no_visit_def)
next
  case (2 n A don u c)
  obtain inprog cycles where u: "u = (inprog, cycles)" by fastforce
  have p: "is_path g (n # A)" using 2(1) by (simp add: walk_ok_def)
  have e: "(c, n) \<in> child_of g" using 2(4) by (simp add: child_of_def)
  have "(c, c) \<in> (child_of g)\<^sup>+ \<and> (c, root) \<in> (child_of g)\<^sup>*" if "c \<in> set (n # A)"
  proof -
    have "(n, c) \<in> (child_of g)\<^sup>*" using path_reaches[OF p that] by simp
    moreover have "(c, root) \<in> (child_of g)\<^sup>*" using path_to_last[OF p that] 2(2) by (simp add: cycle_inv_def)
    ultimately show ?thesis using e by (simp add: rtrancl_into_trancl2)
  qed
  then show ?case using 2(2) unfolding u by (auto simp: cycle_inv_def cycle_visitor_def no_visit_def)
next
  case (3 c u n)
  then show ?case by (simp add: cycle_visitor_def no_visit_def case_prod_beta)
next
  case (4 c u n packs)
  then show ?case by (simp add: cycle_visitor_def no_visit_def case_prod_beta)
next
  case (5 c u n)
  then show ?case by (simp add: cycle_visitor_def no_visit_def case_prod_beta)
next
  case (6 n packs u)
  then show ?case by (simp add: cycle_visitor_def no_visit_def)
next
  case (7 n A don u packs)
  obtain inprog cycles where u: "u = (inprog, cycles)" by fastforce
  have d: "n \<notin> set A" using 7(1) by (simp add: walk_ok_def)
  have acc: "n \<in> Wellfounded.acc (child_of g)" if "cycles = {}"
  proof (rule accI)
    fix c assume "(c, n) \<in> child_of g"
    then have c: "c \<in> kids g n" by (simp add: child_of_def)
    show "c \<in> Wellfounded.acc (child_of g)"
    proof (cases "present g c \<and> is_nt (fst c)")
      case True
      then have "c \<in> don" "c \<notin> set (n # A)" using 7(4) c that u by auto
      then show ?thesis using 7(2) that u by (auto simp: cycle_inv_def)
    next
      case False
      then show ?thesis using acc_no_kids kids_absent kids_terminal by blast
    qed
  qed
  have "don - set A \<subseteq> insert n (don - set (n # A))" by auto
  then show ?case using 7(2) acc d unfolding u
    by (auto simp: cycle_inv_def cycle_visitor_def no_visit_def split: if_splits)
qed

lemma acc_no_cycle: "x \<in> Wellfounded.acc r \<Longrightarrow> (x, x) \<notin> r\<^sup>+"
proof (induction rule: acc_induct_rule)
  case (1 x)
  show ?case
  proof
    assume "(x, x) \<in> r\<^sup>+"
    then obtain y where y: "(x, y) \<in> r\<^sup>*" "(y, x) \<in> r" by (meson tranclD2)
    then have "(y, y) \<in> r\<^sup>+" by simp
    then show False using 1(2) y(2) by blast
  qed
qed

lemma reaches_done:
  assumes w: "walk_ok g [] don" and p: "\<forall>m \<in> don. \<forall>c \<in> kids g m. present g c" and "root \<in> don"
  shows "(c, root) \<in> (child_of g)\<^sup>* \<Longrightarrow> c \<in> don"
proof (induction rule: converse_rtrancl_induct)
  case (step y z)
  then show ?case using w p by (auto simp: child_of_def walk_ok_def)
qed (use assms in simp)

lemma acc_reaches: "root \<in> Wellfounded.acc r \<Longrightarrow> (c, root) \<in> r\<^sup>* \<Longrightarrow> c \<in> Wellfounded.acc r"
  by (rule acc_downwards)

lemma detect_cycle_acc:
  assumes "card (fst ` set g) < fuel" and d: "detect_cycle fuel g root = Some (ret, {})"
  shows "root \<in> Wellfounded.acc (child_of g)"
proof (cases "present g root")
  case True
  have "cycle_inv g root [] {} ({}, {})" by (simp add: cycle_inv_def)
  from cyc.traverse_ok[OF this assms(1)] obtain ret' don u where
    t: "traverse fuel g cycle_visitor False root ({}, {}) = Some (ret', u)" "cycle_inv g root [] don u"
    "present g root \<longrightarrow> root \<in> don" by blast
  have "snd u = {}" using t(1) d by (simp add: detect_cycle_def)
  then show ?thesis using t(2,3) True by (auto simp: cycle_inv_def)
next
  case False
  then show ?thesis by (intro acc_no_kids kids_absent)
qed

text \<open>C7: for every graph and root, \<open>detect_cycle\<close> ends when the fuel exceeds the number of entries of
  the graph. Every node it records lies on a cycle that is reached from the root, and it records none
  only if no cycle is reached. Its return value is another matter: it is true iff every node that is
  reached has an entry in the graph.\<close>

theorem detect_cycle_exact:
  assumes "card (fst ` set g) < fuel"
  shows "\<exists>ret cycles. detect_cycle fuel g root = Some (ret, cycles) \<and>
    (\<forall>c \<in> cycles. (c, root) \<in> (child_of g)\<^sup>* \<and> (c, c) \<in> (child_of g)\<^sup>+) \<and>
    (cycles = {} \<longleftrightarrow> (\<nexists>c. (c, root) \<in> (child_of g)\<^sup>* \<and> (c, c) \<in> (child_of g)\<^sup>+)) \<and>
    (ret \<longleftrightarrow> (\<forall>c. (c, root) \<in> (child_of g)\<^sup>* \<longrightarrow> present g c))"
proof -
  have "cycle_inv g root [] {} ({}, {})" by (simp add: cycle_inv_def)
  from cyc.traverse_ok[OF this assms] obtain ret don u where
    t: "traverse fuel g cycle_visitor False root ({}, {}) = Some (ret, u)" "cycle_inv g root [] don u"
    "present g root \<longrightarrow> root \<in> don" "walk_ok g [] don"
    "ret \<longleftrightarrow> present g root \<and> (\<forall>m \<in> don. \<forall>c \<in> kids g m. present g c)" by blast
  have c: "\<forall>c \<in> snd u. (c, root) \<in> (child_of g)\<^sup>* \<and> (c, c) \<in> (child_of g)\<^sup>+" using t(2) by (simp add: cycle_inv_def)
  have acc: "root \<in> Wellfounded.acc (child_of g)" if "snd u = {}"
    using detect_cycle_acc[OF assms, of root ret] t(1) that by (simp add: detect_cycle_def)
  have "snd u = {} \<longleftrightarrow> (\<nexists>c. (c, root) \<in> (child_of g)\<^sup>* \<and> (c, c) \<in> (child_of g)\<^sup>+)"
  proof
    assume "snd u = {}"
    then have "(c, c) \<notin> (child_of g)\<^sup>+" if "(c, root) \<in> (child_of g)\<^sup>*" for c
      by (intro acc_no_cycle acc_reaches[OF acc that])
    then show "\<nexists>c. (c, root) \<in> (child_of g)\<^sup>* \<and> (c, c) \<in> (child_of g)\<^sup>+" by blast
  qed (use c in blast)
  moreover have "ret \<longleftrightarrow> (\<forall>c. (c, root) \<in> (child_of g)\<^sup>* \<longrightarrow> present g c)"
  proof
    assume "ret"
    then have "c \<in> don" if "(c, root) \<in> (child_of g)\<^sup>*" for c
      using reaches_done[OF t(4) _ _ that] t(3,5) by blast
    then show "\<forall>c. (c, root) \<in> (child_of g)\<^sup>* \<longrightarrow> present g c" using t(4) by (simp add: walk_ok_def)
  next
    assume a: "\<forall>c. (c, root) \<in> (child_of g)\<^sup>* \<longrightarrow> present g c"
    have "present g c" if "m \<in> don" "c \<in> kids g m" for m c
    proof -
      have "(c, m) \<in> child_of g" using that(2) by (simp add: child_of_def)
      moreover have "(m, root) \<in> (child_of g)\<^sup>*" using t(2) that(1) by (simp add: cycle_inv_def)
      ultimately show ?thesis using a by (meson converse_rtrancl_into_rtrancl)
    qed
    then show ret using a t(5) by blast
  qed
  ultimately show ?thesis using t(1) c by (auto simp: detect_cycle_def)
qed

text \<open>The theorem at a graph whose only node is its own child.\<close>

theorem detect_cycle_exact_witness:
  "\<exists>cycles. detect_cycle 2 [((Nt 0 :: nat lit, 0, 1), [[(Nt 0, 0, 1)]])] (Nt 0, 0, 1) = Some (True, cycles) \<and> cycles \<noteq> {}"
proof -
  let ?n = "(Nt 0 :: nat lit, 0, 1)" and ?g = "[((Nt 0 :: nat lit, 0, 1), [[(Nt 0, 0, 1)]])]"
  have k: "kids ?g ?n = {?n}" by (simp add: kids_def packs_at_def)
  then have e: "(?n, ?n) \<in> child_of ?g" by (simp add: child_of_def)
  have p: "present ?g c" if "(c, ?n) \<in> (child_of ?g)\<^sup>*" for c
    using that by (induction rule: converse_rtrancl_induct)
      (auto simp: child_of_def kids_def packs_at_def present_def split: if_splits)
  have "card (fst ` set ?g) < 2" by simp
  from detect_cycle_exact[OF this, of ?n] obtain ret cycles where
    r: "detect_cycle 2 ?g ?n = Some (ret, cycles)"
    "cycles = {} \<longleftrightarrow> (\<nexists>c. (c, ?n) \<in> (child_of ?g)\<^sup>* \<and> (c, c) \<in> (child_of ?g)\<^sup>+)"
    "ret \<longleftrightarrow> (\<forall>c. (c, ?n) \<in> (child_of ?g)\<^sup>* \<longrightarrow> present ?g c)" by blast
  have "ret" unfolding r(3) by (intro allI impI p)
  moreover have "cycles \<noteq> {}" unfolding r(2) not_not
    by (intro exI[of _ ?n] conjI rtrancl_refl r_into_trancl e)
  ultimately show ?thesis using r(1) by simp
qed

end
