(* ===== verification/ForestGraphs.thy ===== *)
theory ForestGraphs
  imports ForestWalk
begin

text \<open>
  Extraction of unambiguous graphs from a forest and of trees from a graph, in
  \<open>src/src/utility/forest.tmpl.h\<close>. The recursive operations take fuel; \<open>None\<close> says that it ran out.
\<close>

section \<open>Graphs\<close>

text \<open>An entry of a graph gets one more pack.\<close>

record 't graph =
  gr_g :: "'t node_graph"
  gr_root :: "'t pnode"
  gr_cycles :: "'t pnode set"

type_synonym edge = "nat \<times> nat"

definition find_packs :: "'t node_graph \<Rightarrow> 't pnode \<Rightarrow> 't pnodes list" where
  "find_packs g n = (case map_of g n of None \<Rightarrow> [] | Some packs \<Rightarrow> packs)"

definition add_pack :: "'t::{linorder,zero} node_hash \<Rightarrow> 't pnode \<Rightarrow> 't pnodes \<Rightarrow> 't graph \<Rightarrow> 't graph" where
  "add_pack h n p G = G\<lparr>gr_g := smap_update (node_less h) n (sinsert (pack_less h) p (find_packs (gr_g G) n)) (gr_g G)\<rparr>"

text \<open>The node ids: each node of the forest takes one id and one for each of its packs.\<close>

fun node_ids :: "nat \<Rightarrow> 't node_graph \<Rightarrow> 't pnode \<Rightarrow> nat" where
  "node_ids i [] n = 0"
| "node_ids i ((k, packs) # g) n = (if k = n then i else node_ids (i + 1 + length packs) g n)"

text \<open>The nonterminals of a pack are pushed once for each edge from the pack.\<close>

definition push_child ::
  "('t pnode \<Rightarrow> nat) \<Rightarrow> nat \<Rightarrow> 't pnode \<Rightarrow> edge set \<times> 't pnodes \<Rightarrow> edge set \<times> 't pnodes" where
  "push_child ids e nd s =
     (if is_nt (fst nd) \<and> (e, ids nd) \<notin> fst s then (insert (e, ids nd) (fst s), nd # snd s) else s)"

text \<open>The first pack whose edge is new.\<close>

fun new_pack :: "edge set \<Rightarrow> nat \<Rightarrow> nat \<Rightarrow> 't pnodes list \<Rightarrow> (nat \<times> 't pnodes) option" where
  "new_pack de rid amb [] = None"
| "new_pack de rid amb (p # packs) =
     (if (rid, rid + amb + 1) \<notin> de then Some (amb, p) else new_pack de rid (amb + 1) packs)"

definition first_graph_step ::
  "'t::{linorder,zero} node_hash \<Rightarrow> 't node_graph \<Rightarrow> 't pnode \<Rightarrow> edge set \<times> 't pnodes \<times> 't graph \<Rightarrow> edge set \<times> 't pnodes \<times> 't graph" where
  "first_graph_step h g crt s =
     (case s of (de, todo, gs) \<Rightarrow>
      case new_pack de (node_ids 0 g crt) 0 (find_packs g crt) of
        None \<Rightarrow> (de, todo, gs)
      | Some (amb, p) \<Rightarrow>
          (case fold (push_child (node_ids 0 g) (node_ids 0 g crt + amb + 1)) p
                  (insert (node_ids 0 g crt, node_ids 0 g crt + amb + 1) de, todo) of
             (de, todo) \<Rightarrow> (de, todo, add_pack h crt p gs)))"

partial_function (option) first_graph_loop ::
  "'t::{linorder,zero} node_hash \<Rightarrow> 't node_graph \<Rightarrow> edge set \<times> 't pnodes \<times> 't graph \<Rightarrow> 't graph option" where
  [code]: "first_graph_loop h g s =
     (case fst (snd s) of
        [] \<Rightarrow> Some (snd (snd s))
      | crt # todo \<Rightarrow> first_graph_loop h g (first_graph_step h g crt (fst s, todo, snd (snd s))))"

definition new_graph :: "'t pnode \<Rightarrow> 't graph" where
  "new_graph root = \<lparr>gr_g = [], gr_root = root, gr_cycles = {}\<rparr>"

definition extract_first_graph ::
  "'t::{linorder,zero} node_hash \<Rightarrow> 't forest \<Rightarrow> 't pnode \<Rightarrow> 't graph option" where
  "extract_first_graph h f root = first_graph_loop h (f_g f) ({}, [root], new_graph root)"

text \<open>All graphs. A state has the graphs so far, the flag \<open>no_stop\<close> and the state of the callback,
  which gets a reference to the graph.\<close>

record ('t, 'u) extraction =
  x_graphs :: "'t graph list"
  x_no_stop :: bool
  x_user :: 'u

type_synonym ('t, 'u) cb_next_graph = "'t graph \<Rightarrow> 'u \<Rightarrow> bool \<times> 't graph \<times> 'u"

definition next_graph :: "('t, 'u) cb_next_graph \<Rightarrow> nat \<Rightarrow> ('t, 'u) extraction \<Rightarrow> ('t, 'u) extraction" where
  "next_graph cb gid x =
     (if x_no_stop x then
        (case cb (x_graphs x ! gid) (x_user x) of
           (go, G, u) \<Rightarrow> x\<lparr>x_graphs := (x_graphs x)[gid := G], x_no_stop := go, x_user := u\<rparr>)
      else x)"

definition change_graph :: "nat \<Rightarrow> ('t graph \<Rightarrow> 't graph) \<Rightarrow> ('t, 'u) extraction \<Rightarrow> ('t, 'u) extraction" where
  "change_graph gid f x = x\<lparr>x_graphs := (x_graphs x)[gid := f (x_graphs x ! gid)]\<rparr>"

text \<open>The loops over the packs of a node: the first pack goes to the current graph, each other one
  to a copy of the graph as it was, which is completed by a recursive call. With unique nodes:\<close>

definition insert_new :: "'t::{linorder,zero} node_hash \<Rightarrow> 't pnode \<Rightarrow> 't pnodes \<Rightarrow> 't graph \<Rightarrow> 't graph" where
  "insert_new h n p G =
     (if map_of (gr_g G) n = None then G\<lparr>gr_g := smap_update (node_less h) n [p] (gr_g G)\<rparr> else G)"

fun fork_nodes ::
  "('t pnode set \<Rightarrow> 't pnodes \<Rightarrow> nat \<Rightarrow> ('t, 'u) extraction \<Rightarrow> ('t, 'u) extraction option) \<Rightarrow>
   't::{linorder,zero} node_hash \<Rightarrow> 't pnode \<Rightarrow> 't graph \<Rightarrow> 't pnode set \<Rightarrow> 't pnodes \<Rightarrow> 't pnodes list \<Rightarrow>
   ('t, 'u) extraction \<Rightarrow> ('t, 'u) extraction option" where
  "fork_nodes rec h root curgraph don todo [] x = Some x"
| "fork_nodes rec h root curgraph don todo (p # packs) x =
     (case rec don (rev p @ todo) (length (x_graphs x))
             (x\<lparr>x_graphs := x_graphs x @ [insert_new h root p curgraph]\<rparr>) of
        None \<Rightarrow> None
      | Some x \<Rightarrow> fork_nodes rec h root curgraph don todo packs x)"

fun extract_uniq_node ::
  "nat \<Rightarrow> ('t, 'u) cb_next_graph \<Rightarrow> 't::{linorder,zero} node_hash \<Rightarrow> 't node_graph \<Rightarrow>
   't pnode set \<Rightarrow> 't pnodes \<Rightarrow> nat \<Rightarrow> ('t, 'u) extraction \<Rightarrow> ('t, 'u) extraction option" where
  "extract_uniq_node 0 cb h g don todo gid x = None"
| "extract_uniq_node (Suc fuel) cb h g don todo gid x =
     (if todo = [] \<or> \<not> x_no_stop x then Some (next_graph cb gid x)
      else
        (case todo of
           [] \<Rightarrow> None
         | root # todo \<Rightarrow>
             if \<not> is_nt (fst root) \<or> map_of g root = None \<or> root \<in> don
             then extract_uniq_node fuel cb h g don todo gid x
             else
               (case find_packs g root of
                  [] \<Rightarrow> extract_uniq_node fuel cb h g (insert root don) todo gid x
                | p # packs \<Rightarrow>
                    (case fork_nodes (extract_uniq_node fuel cb h g) h root (x_graphs x ! gid)
                            (insert root don) todo packs (change_graph gid (insert_new h root p) x) of
                       None \<Rightarrow> None
                     | Some x \<Rightarrow> extract_uniq_node fuel cb h g (insert root don) (rev p @ todo) gid x))))"

text \<open>With unique edges: a node can come back from another edge and get the next pack. \<open>ids\<close> is
  \<open>ndmap\<close>.\<close>

fun fork_edges ::
  "(edge set \<Rightarrow> 't pnodes \<Rightarrow> nat \<Rightarrow> ('t, 'u) extraction \<Rightarrow> ('t, 'u) extraction option) \<Rightarrow>
   't::{linorder,zero} node_hash \<Rightarrow> ('t pnode \<Rightarrow> nat) \<Rightarrow> 't pnode \<Rightarrow> 't graph \<Rightarrow> edge set \<Rightarrow> 't pnodes \<Rightarrow>
   nat \<Rightarrow> 't pnodes list \<Rightarrow> ('t, 'u) extraction \<Rightarrow> ('t, 'u) extraction option" where
  "fork_edges rec h ids root curgraph don todo amb [] x = Some x"
| "fork_edges rec h ids root curgraph don todo amb (p # packs) x =
     (let e = (ids root, ids root + amb + 1) in
      if e \<in> don then fork_edges rec h ids root curgraph don todo (amb + 1) packs x
      else
        (case fold (push_child ids (snd e)) p (insert e don, todo) of
           (ndone, ntodo) \<Rightarrow>
             (case rec ndone ntodo (length (x_graphs x))
                     (x\<lparr>x_graphs := x_graphs x @ [add_pack h root p curgraph]\<rparr>) of
                None \<Rightarrow> None
              | Some x \<Rightarrow> fork_edges rec h ids root curgraph don todo (amb + 1) packs x)))"

fun extract_uniq_edge ::
  "nat \<Rightarrow> ('t, 'u) cb_next_graph \<Rightarrow> 't::{linorder,zero} node_hash \<Rightarrow> 't node_graph \<Rightarrow>
   edge set \<Rightarrow> 't pnodes \<Rightarrow> nat \<Rightarrow> ('t, 'u) extraction \<Rightarrow> ('t, 'u) extraction option" where
  "extract_uniq_edge 0 cb h g don todo gid x = None"
| "extract_uniq_edge (Suc fuel) cb h g don todo gid x =
     (if todo = [] \<or> \<not> x_no_stop x then Some (next_graph cb gid x)
      else
        (case todo of
           [] \<Rightarrow> None
         | root # todo \<Rightarrow>
             if \<not> is_nt (fst root) \<or> map_of g root = None
             then extract_uniq_edge fuel cb h g don todo gid x
             else
               (let ids = node_ids 0 g in
                case new_pack don (ids root) 0 (find_packs g root) of
                  None \<Rightarrow> extract_uniq_edge fuel cb h g don todo gid x
                | Some (amb, p) \<Rightarrow>
                    (let e = (ids root, ids root + amb + 1) in
                     case fork_edges (extract_uniq_edge fuel cb h g) h ids root (x_graphs x ! gid) don todo
                            (amb + 1) (drop (amb + 1) (find_packs g root)) (change_graph gid (add_pack h root p) x) of
                       None \<Rightarrow> None
                     | Some x \<Rightarrow>
                         (case fold (push_child ids (snd e)) p (insert e don, todo) of
                            (don, todo) \<Rightarrow> extract_uniq_edge fuel cb h g don todo gid x)))))"

definition extract_graphs ::
  "nat \<Rightarrow> 't::{linorder,zero} node_hash \<Rightarrow> 't forest \<Rightarrow> 't pnode \<Rightarrow> ('t, 'u) cb_next_graph \<Rightarrow> bool \<Rightarrow> 'u \<Rightarrow>
   ('t graph list \<times> 'u) option" where
  "extract_graphs fuel h f root cb unique_edge u =
     map_option (\<lambda>x. (x_graphs x, x_user x))
       (let x = \<lparr>x_graphs = [new_graph root], x_no_stop = True, x_user = u\<rparr> in
        if unique_edge then extract_uniq_edge fuel cb h (f_g f) {} [root] 0 x
        else extract_uniq_node fuel cb h (f_g f) {} [root] 0 x)"

section \<open>The trees of a graph\<close>

text \<open>\<open>_extract_trees\<close>: the stack visits the nodes depth first, left to right; a node takes its next
  pack each time it is visited, and none when it has used them all.\<close>

datatype 't ftree = FNode (fvalue: "'t pnode") (fchild: "'t ftree list")

fun extract_all ::
  "('t pnode \<Rightarrow> ('t pnode \<Rightarrow> nat) \<Rightarrow> ('t ftree \<times> ('t pnode \<Rightarrow> nat)) option) \<Rightarrow> 't pnodes \<Rightarrow> ('t pnode \<Rightarrow> nat) \<Rightarrow>
   ('t ftree list \<times> ('t pnode \<Rightarrow> nat)) option" where
  "extract_all rec [] cnt = Some ([], cnt)"
| "extract_all rec (n # ns) cnt =
     (case rec n cnt of None \<Rightarrow> None
      | Some (t, cnt) \<Rightarrow> map_option (\<lambda>(ts, cnt). (t # ts, cnt)) (extract_all rec ns cnt))"

fun extract_trees ::
  "nat \<Rightarrow> 't node_graph \<Rightarrow> 't pnode \<Rightarrow> ('t pnode \<Rightarrow> nat) \<Rightarrow> ('t ftree \<times> ('t pnode \<Rightarrow> nat)) option" where
  "extract_trees 0 g n cnt = None"
| "extract_trees (Suc fuel) g n cnt =
     (let ns = find_packs g n in
      if \<not> is_nt (fst n) \<or> cnt n \<ge> length ns then Some (FNode n [], cnt)
      else map_option (\<lambda>(ts, cnt). (FNode n ts, cnt))
             (extract_all (extract_trees fuel g) (ns ! cnt n) (cnt(n := cnt n + 1))))"

definition graph_trees :: "nat \<Rightarrow> 't graph \<Rightarrow> 't ftree option" where
  "graph_trees fuel G = map_option fst (extract_trees fuel (gr_g G) (gr_root G) (\<lambda>_. 0))"

text \<open>\<open>_extract_tree2\<close> builds the left-child right-sibling tree from the right.\<close>

datatype 't btree = BNil | BNode (bval: "'t pnode") (bleft: "'t btree") (bright: "'t btree")

fun post_packs ::
  "('t pnode \<Rightarrow> 't btree \<Rightarrow> ('t pnode \<Rightarrow> nat) \<Rightarrow> ('t btree \<times> ('t pnode \<Rightarrow> nat)) option) \<Rightarrow> 't pnodes \<Rightarrow> 't btree \<Rightarrow>
   ('t pnode \<Rightarrow> nat) \<Rightarrow> ('t btree \<times> ('t pnode \<Rightarrow> nat)) option" where
  "post_packs rec [] t cnt = Some (t, cnt)"
| "post_packs rec (n # ns) t cnt =
     (case rec n t cnt of None \<Rightarrow> None | Some (t, cnt) \<Rightarrow> post_packs rec ns t cnt)"

fun post_trav ::
  "nat \<Rightarrow> 't node_graph \<Rightarrow> 't pnode \<Rightarrow> 't btree \<Rightarrow> ('t pnode \<Rightarrow> nat) \<Rightarrow> ('t btree \<times> ('t pnode \<Rightarrow> nat)) option" where
  "post_trav 0 g root rchd cnt = None"
| "post_trav (Suc fuel) g root rchd cnt =
     (if \<not> is_nt (fst root) then Some (BNode root BNil rchd, cnt)
      else
        (case map_of g root of
           None \<Rightarrow> Some (BNil, cnt)
         | Some ns \<Rightarrow>
             if ns = [] \<or> cnt root \<ge> length ns then Some (BNode root BNil rchd, cnt)
             else map_option (\<lambda>(crchd, cnt). (BNode root crchd rchd, cnt))
                    (post_packs (post_trav fuel g) (rev (ns ! cnt root)) BNil (cnt(root := cnt root + 1)))))"

definition extract_tree2 :: "nat \<Rightarrow> 't graph \<Rightarrow> 't btree option" where
  "extract_tree2 fuel G = map_option fst (post_trav fuel (gr_g G) (gr_root G) BNil (\<lambda>_. 0))"

end
