(* ===== verification/ForestCount.thy ===== *)
theory ForestCount
  imports ForestGraphs
begin

text \<open>
  What \<open>count_trees\<close> of \<open>src/src/utility/forest.tmpl.h\<close> counts: on a graph without cycles, the number
  of trees under the root, as long as that number fits \<open>size_t\<close>.
\<close>

section \<open>The trees of a graph\<close>

text \<open>A tree takes one pack at each node that has any.\<close>

definition packs_under :: "'t node_graph \<Rightarrow> 't pnode \<Rightarrow> 't pnodes list" where
  "packs_under g n = (if is_nt (fst n) then find_packs g n else [])"

fun tree_in :: "'t node_graph \<Rightarrow> 't ftree \<Rightarrow> bool" where
  "tree_in g (FNode n ts) \<longleftrightarrow>
     (if packs_under g n = [] then ts = [] else map fvalue ts \<in> set (packs_under g n) \<and> list_all (tree_in g) ts)"

definition trees_at :: "'t node_graph \<Rightarrow> 't pnode \<Rightarrow> 't ftree set" where
  "trees_at g n = {t. fvalue t = n \<and> tree_in g t}"

definition rows :: "'t node_graph \<Rightarrow> 't pnodes \<Rightarrow> 't ftree list set" where
  "rows g p = {ts. map fvalue ts = p \<and> list_all (tree_in g) ts}"

lemma trees_at_packs:
  "trees_at g n = (if packs_under g n = [] then {FNode n []} else FNode n ` (\<Union>p \<in> set (packs_under g n). rows g p))"
proof -
  have "t \<in> trees_at g n \<longleftrightarrow>
      t \<in> (if packs_under g n = [] then {FNode n []} else FNode n ` (\<Union>p \<in> set (packs_under g n). rows g p))" for t
    by (cases t) (auto simp: trees_at_def rows_def)
  then show ?thesis by blast
qed

lemma rows_Nil [simp]: "rows g [] = {[]}"
  by (auto simp: rows_def)

lemma rows_Cons: "rows g (n # p) = (\<lambda>(t, ts). t # ts) ` (trees_at g n \<times> rows g p)"
proof -
  have "ts \<in> rows g (n # p) \<longleftrightarrow> ts \<in> (\<lambda>(t, ts). t # ts) ` (trees_at g n \<times> rows g p)" for ts
    by (cases ts) (auto simp: rows_def trees_at_def)
  then show ?thesis by blast
qed

lemma card_rows_Cons: "card (rows g (n # p)) = card (trees_at g n) * card (rows g p)"
proof -
  have "inj_on (\<lambda>(t, ts). t # ts) (trees_at g n \<times> rows g p)" by (auto simp: inj_on_def)
  then show ?thesis by (simp add: rows_Cons card_image card_cartesian_product)
qed

lemma finite_rows: "\<forall>c \<in> set p. finite (trees_at g c) \<Longrightarrow> finite (rows g p)"
  by (induction p) (auto simp: rows_Cons)

lemma card_rows: "card (rows g p) = prod_list (map (\<lambda>c. card (trees_at g c)) p)"
  by (induction p) (auto simp: card_rows_Cons)

lemma card_trees:
  assumes "packs_under g n \<noteq> []" "distinct (packs_under g n)" "\<forall>p \<in> set (packs_under g n). finite (rows g p)"
  shows "card (trees_at g n) = sum_list (map (\<lambda>p. card (rows g p)) (packs_under g n))"
proof -
  have inj: "inj_on (FNode n) A" for A by (auto simp: inj_on_def)
  have "card (trees_at g n) = card (\<Union>p \<in> set (packs_under g n). rows g p)"
    using assms(1) by (simp add: trees_at_packs card_image[OF inj])
  also have "\<dots> = (\<Sum>p \<in> set (packs_under g n). card (rows g p))"
    using assms(3) by (intro card_UN_disjoint) (auto simp: rows_def)
  also have "\<dots> = sum_list (map (\<lambda>p. card (rows g p)) (packs_under g n))"
    by (simp add: sum_list_distinct_conv_sum_set[OF assms(2)])
  finally show ?thesis .
qed

lemma kids_packs_under: "kids g n = \<Union> (set ` set (packs_under g n))"
  by (auto simp: kids_def packs_at_def packs_under_def find_packs_def split: option.splits)

lemma finite_trees:
  assumes "n \<in> Wellfounded.acc (child_of g)"
  shows "finite (trees_at g n) \<and> 0 < card (trees_at g n)"
  using assms
proof (induction rule: acc_induct_rule)
  case (1 n)
  have c: "finite (trees_at g c) \<and> 0 < card (trees_at g c)" if "p \<in> set (packs_under g n)" "c \<in> set p" for p c
    using 1(2)[of c] that by (auto simp: child_of_def kids_packs_under)
  then have r: "finite (rows g p) \<and> rows g p \<noteq> {}" if "p \<in> set (packs_under g n)" for p
  proof -
    have "card (rows g p) \<noteq> 0" using c[OF that] by (simp add: card_rows prod_list_zero_iff) (metis imageE less_irrefl)
    moreover have "finite (rows g p)" by (rule finite_rows) (use c[OF that] in blast)
    ultimately show ?thesis by (metis card.empty)
  qed
  then have f: "finite (trees_at g n)" by (simp add: trees_at_packs)
  moreover have "trees_at g n \<noteq> {}" using r by (cases "packs_under g n") (auto simp: trees_at_packs)
  ultimately show ?case by (simp add: card_gt_0_iff)
qed

text \<open>A node under the root has no more trees than the root.\<close>

lemma card_trees_kid:
  assumes n: "n \<in> Wellfounded.acc (child_of g)" and p: "p \<in> set (packs_under g n)" and d: "distinct (packs_under g n)"
  shows "card (rows g p) \<le> card (trees_at g n)"
proof -
  have "c \<in> Wellfounded.acc (child_of g)" if "c \<in> kids g n" for c
    using acc_downward[OF n] that by (auto simp: child_of_def)
  then have f: "finite (trees_at g c)" if "c \<in> kids g n" for c using finite_trees that by blast
  have "\<forall>p \<in> set (packs_under g n). finite (rows g p)"
  proof
    fix p assume "p \<in> set (packs_under g n)"
    then show "finite (rows g p)" by (intro finite_rows ballI f) (auto simp: kids_packs_under)
  qed
  then have "card (trees_at g n) = sum_list (map (\<lambda>p. card (rows g p)) (packs_under g n))"
    using card_trees[OF _ d] p by (metis empty_iff list.set(1))
  then show ?thesis using p by (simp add: member_le_sum_list)
qed

lemma prod_list_factor_le:
  assumes "\<forall>x \<in> set xs. 0 < (f x :: nat)" "x \<in> set xs"
  shows "f x \<le> prod_list (map f xs)"
  using assms
proof (induction xs)
  case (Cons y xs)
  have "0 < prod_list (map f xs)" using Cons.prems(1) by (induction xs) auto
  then show ?case using Cons by (auto intro: order_trans)
qed simp

lemma card_trees_below:
  assumes "(c, root) \<in> (child_of g)\<^sup>*" and r: "root \<in> Wellfounded.acc (child_of g)" and d: "\<forall>n. distinct (find_packs g n)"
  shows "card (trees_at g c) \<le> card (trees_at g root)"
  using assms(1)
proof (induction rule: converse_rtrancl_induct)
  case (step c n)
  have n: "n \<in> Wellfounded.acc (child_of g)" by (rule acc_reaches[OF r step(2)])
  obtain p where p: "p \<in> set (packs_under g n)" "c \<in> set p" using step(1) by (auto simp: child_of_def kids_packs_under)
  have "\<forall>x \<in> set p. 0 < card (trees_at g x)"
  proof
    fix x assume "x \<in> set p"
    then have "(x, n) \<in> child_of g" using p(1) by (auto simp: child_of_def kids_packs_under)
    then show "0 < card (trees_at g x)" using finite_trees acc_downward[OF n] by blast
  qed
  then have "card (trees_at g c) \<le> card (rows g p)"
    using prod_list_factor_le[of p "\<lambda>x. card (trees_at g x)"] p(2) by (simp add: card_rows)
  also have "\<dots> \<le> card (trees_at g n)"
    using card_trees_kid[OF n p(1)] d[rule_format, of n] by (simp add: packs_under_def)
  finally show ?case using step(3) by simp
qed simp

section \<open>The count\<close>

text \<open>The factor of a child in \<open>pack_count\<close>.\<close>

definition factor :: "('t pnode \<Rightarrow> nat) \<Rightarrow> 't pnode \<Rightarrow> nat" where
  "factor ndc c = (if is_nt (fst c) \<and> ndc c \<noteq> 0 then ndc c else 1)"

lemma prod_factor_pos: "0 < prod_list (map (factor ndc) p)"
  by (induction p) (auto simp: factor_def)

lemma pack_count_prod:
  "0 < k \<Longrightarrow> k * prod_list (map (factor ndc) p) \<le> SIZE_MAX \<Longrightarrow>
   pack_count ndc p k = Some (k * prod_list (map (factor ndc) p))"
proof (induction p arbitrary: k)
  case (Cons c p)
  show ?case
  proof (cases "is_nt (fst c) \<and> ndc c \<noteq> 0")
    case True
    have "k * ndc c * 1 \<le> k * ndc c * prod_list (map (factor ndc) p)"
      using prod_factor_pos[of ndc p] by (intro mult_le_mono2) simp
    also have "\<dots> \<le> SIZE_MAX" using Cons.prems(2) True by (simp add: factor_def[of ndc c] mult.assoc)
    finally have x: "k * ndc c mod (SIZE_MAX + 1) = k * ndc c" by simp
    then show ?thesis using Cons.IH[of "k * ndc c"] Cons.prems True by (simp add: factor_def mult.assoc Let_def)
  next
    case False
    then show ?thesis using Cons by (auto simp: factor_def)
  qed
qed simp

lemma count_packs_sum:
  assumes "\<forall>p \<in> set packs. n \<notin> set p" "ndc n + sum_list (map (\<lambda>p. prod_list (map (factor ndc) p)) packs) \<le> SIZE_MAX"
  shows "count_packs n packs ndc = ndc(n := ndc n + sum_list (map (\<lambda>p. prod_list (map (factor ndc) p)) packs))"
  using assms
proof (induction packs arbitrary: ndc)
  case (Cons p packs)
  let ?k = "prod_list (map (factor ndc) p)" and ?ndc = "ndc(n := ndc n + prod_list (map (factor ndc) p))"
  have f: "map (factor ?ndc) q = map (factor ndc) q" if "q \<in> set packs" for q
    using Cons.prems(1) that by (auto simp: factor_def)
  have s: "map (\<lambda>q. prod_list (map (factor ?ndc) q)) packs = map (\<lambda>q. prod_list (map (factor ndc) q)) packs"
    by (intro map_cong refl arg_cong[of _ _ prod_list] f)
  have "pack_count ndc p 1 = Some ?k" using pack_count_prod[of 1 ndc p] Cons.prems(2) by simp
  moreover have "count_packs n packs ?ndc = ?ndc(n := ?ndc n + sum_list (map (\<lambda>q. prod_list (map (factor ?ndc) q)) packs))"
    by (rule Cons.IH) (use Cons.prems in \<open>auto simp add: s[symmetric] fun_upd_def[symmetric] add.assoc\<close>)
  ultimately show ?case unfolding s using Cons.prems(2) by (simp add: add.assoc)
qed simp

definition countable_from :: "'t node_graph \<Rightarrow> 't pnode \<Rightarrow> bool" where
  "countable_from g root \<longleftrightarrow> root \<in> Wellfounded.acc (child_of g) \<and> (\<forall>n. distinct (find_packs g n)) \<and>
     card (trees_at g root) \<le> SIZE_MAX"

definition count_inv ::
  "'t node_graph \<Rightarrow> 't pnode \<Rightarrow> 't pnode list \<Rightarrow> 't pnode set \<Rightarrow> ('t pnode \<Rightarrow> nat) \<Rightarrow> bool" where
  "count_inv g root A don ndc \<longleftrightarrow> (A \<noteq> [] \<longrightarrow> last A = root) \<and> (countable_from g root \<longrightarrow>
     (\<forall>m. ndc m = (if m \<in> don - set A \<and> packs_under g m \<noteq> [] then card (trees_at g m) else 0)))"

lemma count_exit:
  assumes w: "walk_ok g (n # A) don" and i: "count_inv g root (n # A) don ndc" and p: "packs_at g n = Some packs"
    and k: "\<forall>c \<in> kids g n. present g c \<longrightarrow> c \<in> don" and c: "countable_from g root"
  shows "count_packs n packs ndc m = (if m \<in> don - set A \<and> packs_under g m \<noteq> [] then card (trees_at g m) else 0)"
proof -
  have path: "is_path g (n # A)" and nA: "n \<notin> set A" "n \<in> don" using w by (auto simp: walk_ok_def)
  have r: "root \<in> Wellfounded.acc (child_of g)" and d: "\<forall>n. distinct (find_packs g n)"
    and le: "card (trees_at g root) \<le> SIZE_MAX" using c by (auto simp: countable_from_def)
  have ndc: "ndc m = (if m \<in> don - set (n # A) \<and> packs_under g m \<noteq> [] then card (trees_at g m) else 0)" for m
    using i c unfolding count_inv_def by blast
  have nr: "(n, root) \<in> (child_of g)\<^sup>*" using path_to_last[OF path, of n] i by (simp add: count_inv_def)
  have n: "n \<in> Wellfounded.acc (child_of g)" by (rule acc_reaches[OF r nr])
  have np: "packs_under g n = packs"
    using p by (auto simp: packs_at_def packs_under_def find_packs_def split: if_splits)
  have off: "c \<notin> set (n # A)" if "c \<in> kids g n" for c
  proof
    assume "c \<in> set (n # A)"
    then have "(n, c) \<in> (child_of g)\<^sup>*" using path_reaches[OF path] by simp
    moreover have e: "(c, n) \<in> child_of g" using that by (simp add: child_of_def)
    ultimately have "(n, n) \<in> (child_of g)\<^sup>+" by (rule rtrancl_into_trancl1)
    then show False using acc_no_cycle[OF n] by simp
  qed
  have f: "factor ndc c = card (trees_at g c)" if "c \<in> kids g n" for c
  proof (cases "packs_under g c = []")
    case True
    then show ?thesis by (simp add: factor_def ndc trees_at_packs)
  next
    case False
    then have "is_nt (fst c)" "present g c"
      by (auto simp: packs_under_def find_packs_def present_def packs_at_def split: if_splits option.splits)
    moreover have "(c, n) \<in> child_of g" using that by (simp add: child_of_def)
    then have "0 < card (trees_at g c)" using finite_trees acc_downward[OF n] by blast
    ultimately show ?thesis using False off[OF that] k that by (simp add: factor_def ndc)
  qed
  have rows: "prod_list (map (factor ndc) q) = card (rows g q)" if "q \<in> set packs" for q
  proof -
    have "map (factor ndc) q = map (\<lambda>c. card (trees_at g c)) q"
      using f that by (auto simp: kids_packs_under np)
    then show ?thesis unfolding card_rows by (rule arg_cong)
  qed
  show ?thesis
  proof (cases "packs = []")
    case True
    then show ?thesis using ndc np nA by auto
  next
    case False
    have fin: "\<forall>q \<in> set packs. finite (rows g q)"
    proof (intro ballI finite_rows)
      fix q c assume "q \<in> set packs" "c \<in> set q"
      then have "(c, n) \<in> child_of g" by (auto simp: child_of_def kids_packs_under np)
      then show "finite (trees_at g c)" using finite_trees acc_downward[OF n] by blast
    qed
    have "distinct (packs_under g n)" using d[rule_format, of n] by (simp add: packs_under_def)
    then have "card (trees_at g n) = sum_list (map (\<lambda>q. card (rows g q)) packs)"
      using card_trees[of g n] False fin np by simp
    also have "\<dots> = sum_list (map (\<lambda>q. prod_list (map (factor ndc) q)) packs)"
      using rows by (intro arg_cong[of _ _ sum_list] map_cong) auto
    finally have sum: "sum_list (map (\<lambda>q. prod_list (map (factor ndc) q)) packs) = card (trees_at g n)" by simp
    have "card (trees_at g n) \<le> SIZE_MAX" using card_trees_below[OF nr r d] le by simp
    moreover have "\<forall>q \<in> set packs. n \<notin> set q"
    proof (intro ballI notI)
      fix q assume "q \<in> set packs" "n \<in> set q"
      then have "n \<in> kids g n" by (auto simp: kids_packs_under np)
      then show False using off by fastforce
    qed
    ultimately have "count_packs n packs ndc = ndc(n := card (trees_at g n))"
      using count_packs_sum[of packs n ndc] sum ndc[of n] by simp
    then show ?thesis using ndc np False nA by auto
  qed
qed

interpretation counting: depth_first g "no_visit\<lparr>v_exit := count_packs\<rparr>" root "count_inv g root" "\<lambda>_ _. True" for g root
proof (unfold_locales, goal_cases)
  case (1 A don u n)
  have "insert n don - set (n # A) = don - set A" using 1(3) by auto
  moreover have "A \<noteq> [] \<longrightarrow> last A = root" using 1(2) by (simp add: count_inv_def)
  then have "last (n # A) = root" using 1(5) by auto
  ultimately show ?case using 1(2) unfolding count_inv_def by (simp add: no_visit_def)
next
  case (6 n A don u packs)
  have "\<forall>c \<in> kids g n. present g c \<longrightarrow> c \<in> don" using 6(4) by blast
  from count_exit[OF 6(1,2,3) this] have
    "countable_from g root \<longrightarrow> (\<forall>m. count_packs n packs u m = (if m \<in> don - set A \<and> packs_under g m \<noteq> [] then card (trees_at g m) else 0))"
    by blast
  moreover have "A \<noteq> [] \<longrightarrow> last A = root" using 6(2) unfolding count_inv_def by (cases A) simp_all
  ultimately show ?case unfolding count_inv_def by (simp add: no_visit_def)
qed (simp_all add: no_visit_def)

text \<open>C8: when \<open>detect_cycle\<close> finds no cycle under the root, the sets of packs have no duplicates, the
  root has packs and the number of its trees fits \<open>size_t\<close>, \<open>count_trees\<close> is the number of trees: of
  the ways to take one pack at each node.\<close>

theorem count_trees_counts:
  assumes "card (fst ` set g) < fuel" "detect_cycle fuel g root = Some (ret, {})"
    and "\<forall>n. distinct (find_packs g n)" "packs_under g root \<noteq> []" "card (trees_at g root) \<le> SIZE_MAX"
  shows "count_trees fuel g root = Some (card (trees_at g root)) \<and> finite (trees_at g root)"
proof -
  have r: "root \<in> Wellfounded.acc (child_of g)" by (rule detect_cycle_acc[OF assms(1,2)])
  then have c: "countable_from g root" using assms(3,5) by (simp add: countable_from_def)
  have "count_inv g root [] {} (\<lambda>_. 0)" by (simp add: count_inv_def)
  from counting.traverse_ok[OF this assms(1)] obtain ret don ndc where
    t: "traverse fuel g (no_visit\<lparr>v_exit := count_packs\<rparr>) False root (\<lambda>_. 0) = Some (ret, ndc)"
    "count_inv g root [] don ndc" "present g root \<longrightarrow> root \<in> don" by blast
  have "present g root"
    using assms(4) by (auto simp: packs_under_def find_packs_def present_def packs_at_def split: if_splits option.splits)
  moreover have "ndc root = (if root \<in> don - set [] \<and> packs_under g root \<noteq> [] then card (trees_at g root) else 0)"
    using t(2) c unfolding count_inv_def by blast
  ultimately have "ndc root = card (trees_at g root)" using t(3) assms(4) by simp
  then show ?thesis using t(1) finite_trees[OF r] by (simp add: count_trees_def)
qed

text \<open>The theorem at an ambiguous graph: two packs at the root, and two at one of its children.\<close>

definition two_by_two :: "nat node_graph" where
  "two_by_two =
     [((Nt 0, 0, 2), [[(Nt 1, 0, 1), (Nt 1, 1, 2)], [(Nt 2, 0, 2)]]),
      ((Nt 1, 0, 1), [[(Tm 7, 0, 1)], [(Null, 0, 0), (Tm 7, 0, 1)]]),
      ((Nt 1, 1, 2), [[(Tm 7, 1, 2)]]),
      ((Nt 2, 0, 2), [[(Tm 7, 0, 1), (Tm 7, 1, 2)]])]"

lemma two_by_two_packs: "distinct (find_packs two_by_two n)"
  by (auto simp: find_packs_def two_by_two_def)

lemma two_by_two_acyclic: "detect_cycle 5 two_by_two (Nt 0, 0, 2) = Some (True, {})"
  by code_simp

lemma two_by_two_trees: "card (trees_at two_by_two (Nt 0, 0, 2)) = 3"
  by (simp add: trees_at_packs rows_Cons packs_under_def find_packs_def two_by_two_def)

theorem count_trees_counts_witness: "count_trees 5 two_by_two (Nt 0, 0, 2) = Some 3"
proof -
  have "card (fst ` set two_by_two) < 5" "packs_under two_by_two (Nt 0, 0, 2) \<noteq> []"
    by (simp_all add: two_by_two_def packs_under_def find_packs_def)
  then show ?thesis
    using count_trees_counts[OF _ two_by_two_acyclic] two_by_two_packs two_by_two_trees by (simp add: SIZE_MAX_def)
qed

section \<open>The count when it does not fit\<close>

text \<open>One node: a pack whose product does not fit makes the count \<open>SIZE_MAX\<close>; the sum over the packs
  wraps.\<close>

definition node_count :: "('t pnode \<Rightarrow> nat) \<Rightarrow> 't pnodes list \<Rightarrow> nat" where
  "node_count f packs =
     (if \<exists>p \<in> set packs. prod_list (map (factor f) p) > SIZE_MAX then SIZE_MAX
      else sum_list (map (\<lambda>p. prod_list (map (factor f) p)) packs) mod (SIZE_MAX + 1))"

lemma pack_count_exact:
  "0 < k \<Longrightarrow> k \<le> SIZE_MAX \<Longrightarrow> pack_count ndc p k =
     (if k * prod_list (map (factor ndc) p) > SIZE_MAX then None else Some (k * prod_list (map (factor ndc) p)))"
proof (induction p arbitrary: k)
  case (Cons c p)
  show ?case
  proof (cases "is_nt (fst c) \<and> ndc c \<noteq> 0")
    case nt: True
    let ?P = "prod_list (map (factor ndc) p)"
    show ?thesis
    proof (cases "k * ndc c \<le> SIZE_MAX")
      case True
      then show ?thesis using Cons.IH[of "k * ndc c"] Cons.prems nt by (simp add: factor_def[of ndc c] mult.assoc Let_def)
    next
      case False
      have "k * ndc c mod (SIZE_MAX + 1) < ndc c * k"
        using False by (metis Suc_eq_plus1 le_simps(2) linorder_not_le mod_less_divisor mult.commute order_less_trans zero_less_Suc
            order_le_less_trans)
      then have "k * ndc c mod (SIZE_MAX + 1) div k < ndc c" by (rule less_mult_imp_div_less)
      moreover have "k * ndc c * 1 \<le> k * ndc c * ?P"
        using prod_factor_pos[of ndc p] by (intro mult_le_mono2) simp
      then have "SIZE_MAX < k * ndc c * ?P" using False by linarith
      then have "SIZE_MAX < k * (ndc c * ?P)" by (simp only: mult.assoc)
      ultimately show ?thesis using Cons.prems nt by (simp add: factor_def[of ndc c] Let_def)
    qed
  next
    case False
    then show ?thesis using Cons by (auto simp: factor_def[of ndc c])
  qed
qed simp

lemma count_packs_exact:
  assumes "\<forall>p \<in> set packs. n \<notin> set p" "ndc n \<le> SIZE_MAX"
  shows "count_packs n packs ndc = ndc(n :=
    (if \<exists>p \<in> set packs. prod_list (map (factor ndc) p) > SIZE_MAX then SIZE_MAX
     else (ndc n + sum_list (map (\<lambda>p. prod_list (map (factor ndc) p)) packs)) mod (SIZE_MAX + 1)))"
  using assms
proof (induction packs arbitrary: ndc)
  case Nil
  then show ?case by (simp add: fun_upd_idem)
next
  case (Cons p packs)
  let ?k = "prod_list (map (factor ndc) p)"
  define ndc' where "ndc' = ndc(n := (ndc n + ?k) mod (SIZE_MAX + 1))"
  have pc: "pack_count ndc p 1 = (if ?k > SIZE_MAX then None else Some ?k)"
    using pack_count_exact[of 1 ndc p] by (simp add: SIZE_MAX_def)
  have f: "map (factor ndc') q = map (factor ndc) q" if "q \<in> set packs" for q
    using Cons.prems(1) that by (auto simp: factor_def ndc'_def)
  have s: "map (\<lambda>q. prod_list (map (factor ndc') q)) packs = map (\<lambda>q. prod_list (map (factor ndc) q)) packs"
    by (intro map_cong refl arg_cong[of _ _ prod_list] f)
  have e: "(\<exists>q \<in> set packs. prod_list (map (factor ndc') q) > SIZE_MAX) \<longleftrightarrow>
      (\<exists>q \<in> set packs. prod_list (map (factor ndc) q) > SIZE_MAX)"
    using f by metis
  have n: "ndc' n \<le> SIZE_MAX" by (simp add: ndc'_def less_Suc_eq_le[symmetric])
  let ?big = "\<exists>q \<in> set packs. prod_list (map (factor ndc) q) > SIZE_MAX"
  let ?sum = "sum_list (map (\<lambda>q. prod_list (map (factor ndc) q)) packs)"
  have IH: "count_packs n packs ndc' m =
      (if m = n then if ?big then SIZE_MAX else (ndc' n + ?sum) mod (SIZE_MAX + 1) else ndc' m)" for m
    using Cons.IH[of ndc'] Cons.prems(1) n unfolding s e by (simp only: fun_upd_apply) simp
  show ?case
  proof
    fix m
    show "count_packs n (p # packs) ndc m = (ndc(n :=
      (if \<exists>q \<in> set (p # packs). prod_list (map (factor ndc) q) > SIZE_MAX then SIZE_MAX
       else (ndc n + sum_list (map (\<lambda>q. prod_list (map (factor ndc) q)) (p # packs))) mod (SIZE_MAX + 1)))) m"
    proof (cases "?k > SIZE_MAX")
      case True
      then show ?thesis using pc by simp
    next
      case False
      then have "count_packs n (p # packs) ndc = count_packs n packs ndc'" using pc by (simp add: ndc'_def)
      moreover have "((ndc n + ?k) mod (SIZE_MAX + 1) + ?sum) mod (SIZE_MAX + 1) = (ndc n + (?k + ?sum)) mod (SIZE_MAX + 1)"
        by (metis add.assoc mod_add_left_eq)
      ultimately show ?thesis using False IH[of m] by (simp add: ndc'_def)
    qed
  qed
qed

inductive count_at :: "'t node_graph \<Rightarrow> 't pnode \<Rightarrow> nat \<Rightarrow> bool" for g where
  "\<forall>c \<in> kids g n. count_at g c (f c) \<Longrightarrow> count_at g n (node_count f (packs_under g n))"

lemma node_count_cong:
  "\<forall>c \<in> kids g n. f c = f' c \<Longrightarrow> node_count f (packs_under g n) = node_count f' (packs_under g n)"
proof -
  assume "\<forall>c \<in> kids g n. f c = f' c"
  then have m: "map (factor f) p = map (factor f') p" if "p \<in> set (packs_under g n)" for p
    using that by (auto simp: factor_def kids_packs_under)
  then have p: "prod_list (map (factor f) p) = prod_list (map (factor f') p)" if "p \<in> set (packs_under g n)" for p
    by (simp only: m[OF that])
  then have "map (\<lambda>p. prod_list (map (factor f) p)) (packs_under g n) = map (\<lambda>p. prod_list (map (factor f') p)) (packs_under g n)"
    by (intro map_cong refl)
  moreover have "(\<exists>p \<in> set (packs_under g n). prod_list (map (factor f) p) > SIZE_MAX) =
      (\<exists>p \<in> set (packs_under g n). prod_list (map (factor f') p) > SIZE_MAX)" using p by simp
  ultimately show ?thesis by (simp only: node_count_def)
qed

lemma count_at_unique: "count_at g n k \<Longrightarrow> count_at g n k' \<Longrightarrow> k = k'"
proof (induction arbitrary: k' rule: count_at.induct)
  case (1 n f)
  from 1(2) obtain f' where f': "k' = node_count f' (packs_under g n)" "\<forall>c \<in> kids g n. count_at g c (f' c)"
    by (auto elim: count_at.cases)
  have "\<forall>c \<in> kids g n. f c = f' c" using 1(1) f'(2) by blast
  then show ?case using node_count_cong f'(1) by blast
qed

text \<open>The walk: a node that is closed has its count, every other has 0.\<close>

definition exact_inv ::
  "'t node_graph \<Rightarrow> 't pnode \<Rightarrow> 't pnode list \<Rightarrow> 't pnode set \<Rightarrow> ('t pnode \<Rightarrow> nat) \<Rightarrow> bool" where
  "exact_inv g root A don ndc \<longleftrightarrow> (A \<noteq> [] \<longrightarrow> last A = root) \<and> (root \<in> Wellfounded.acc (child_of g) \<longrightarrow>
     (\<forall>m. if m \<in> don - set A then count_at g m (ndc m) else ndc m = 0))"

lemma count_at_absent: "\<not> present g c \<Longrightarrow> count_at g c 0"
proof -
  assume "\<not> present g c"
  then have p: "packs_under g c = []"
    by (auto simp: packs_under_def find_packs_def present_def packs_at_def split: option.splits)
  then have "kids g c = {}" by (simp add: kids_packs_under)
  then have "count_at g c (node_count (\<lambda>_. 0) (packs_under g c))" by (intro count_at.intros) simp
  then show ?thesis by (simp add: p node_count_def)
qed

lemma exact_exit:
  assumes w: "walk_ok g (n # A) don" and i: "exact_inv g root (n # A) don ndc" and p: "packs_at g n = Some packs"
    and k: "\<forall>c \<in> kids g n. present g c \<longrightarrow> c \<in> don" and r: "root \<in> Wellfounded.acc (child_of g)"
  shows "if m \<in> don - set A then count_at g m (count_packs n packs ndc m) else count_packs n packs ndc m = 0"
proof -
  have path: "is_path g (n # A)" and nA: "n \<notin> set A" "n \<in> don" using w by (auto simp: walk_ok_def)
  have ndc: "if m \<in> don - set (n # A) then count_at g m (ndc m) else ndc m = 0" for m
    using i r unfolding exact_inv_def by blast
  have nr: "(n, root) \<in> (child_of g)\<^sup>*" using path_to_last[OF path, of n] i by (simp add: exact_inv_def)
  have n: "n \<in> Wellfounded.acc (child_of g)" by (rule acc_reaches[OF r nr])
  have np: "packs_under g n = packs"
    using p by (auto simp: packs_at_def packs_under_def find_packs_def split: if_splits)
  have off: "c \<notin> set (n # A)" if "c \<in> kids g n" for c
  proof
    assume "c \<in> set (n # A)"
    then have "(n, c) \<in> (child_of g)\<^sup>*" using path_reaches[OF path] by simp
    moreover have e: "(c, n) \<in> child_of g" using that by (simp add: child_of_def)
    ultimately have "(n, n) \<in> (child_of g)\<^sup>+" by (rule rtrancl_into_trancl1)
    then show False using acc_no_cycle[OF n] by simp
  qed
  have c: "count_at g c (ndc c)" if "c \<in> kids g n" for c
  proof (cases "present g c")
    case True
    then show ?thesis using ndc[of c] k off[OF that] that by auto
  next
    case False
    then have "c \<notin> don" using w by (auto simp: walk_ok_def)
    then show ?thesis using ndc[of c] count_at_absent[OF False] by simp
  qed
  have "\<forall>q \<in> set packs. n \<notin> set q" using off by (fastforce simp: kids_packs_under np)
  then have e: "count_packs n packs ndc = ndc(n := node_count ndc packs)"
    using count_packs_exact[of packs n ndc] ndc[of n] by (simp add: node_count_def)
  have "count_at g n (node_count ndc packs)" using count_at.intros[of g n ndc] c np by simp
  then show ?thesis using ndc[of m] nA e by auto
qed

interpretation exact_counting: depth_first g "no_visit\<lparr>v_exit := count_packs\<rparr>" root "exact_inv g root" "\<lambda>_ _. True" for g root
proof (unfold_locales, goal_cases)
  case (1 A don u n)
  have "insert n don - set (n # A) = don - set A" using 1(3) by auto
  moreover have "A \<noteq> [] \<longrightarrow> last A = root" using 1(2) by (simp add: exact_inv_def)
  then have "last (n # A) = root" using 1(5) by auto
  ultimately show ?case using 1(2) unfolding exact_inv_def by (simp add: no_visit_def)
next
  case (6 n A don u packs)
  have "\<forall>c \<in> kids g n. present g c \<longrightarrow> c \<in> don" using 6(4) by blast
  from exact_exit[OF 6(1,2,3) this]
  have "root \<in> Wellfounded.acc (child_of g) \<longrightarrow> (\<forall>m. if m \<in> don - set A then count_at g m (count_packs n packs u m)
      else count_packs n packs u m = 0)" by blast
  moreover have "A \<noteq> [] \<longrightarrow> last A = root" using 6(2) unfolding exact_inv_def by (cases A) simp_all
  ultimately show ?case unfolding exact_inv_def by (simp add: no_visit_def)
qed (simp_all add: no_visit_def)

lemma count_trees_at:
  assumes "card (fst ` set g) < fuel" "root \<in> Wellfounded.acc (child_of g)"
  shows "\<exists>k. count_trees fuel g root = Some k \<and> count_at g root k"
proof -
  have "exact_inv g root [] {} (\<lambda>_. 0)" by (simp add: exact_inv_def)
  from exact_counting.traverse_ok[OF this assms(1)] obtain ret don ndc where
    t: "traverse fuel g (no_visit\<lparr>v_exit := count_packs\<rparr>) False root (\<lambda>_. 0) = Some (ret, ndc)"
    "exact_inv g root [] don ndc" "present g root \<longrightarrow> root \<in> don" "walk_ok g [] don" by blast
  have i: "if root \<in> don - set [] then count_at g root (ndc root) else ndc root = 0"
    using t(2) assms(2) unfolding exact_inv_def by blast
  have "count_at g root (ndc root)"
  proof (cases "present g root")
    case False
    then have "root \<notin> don" using t(4) by (auto simp: walk_ok_def)
    then show ?thesis using i count_at_absent[OF False] by simp
  qed (use i t(3) in simp)
  then show ?thesis using t(1) by (simp add: count_trees_def)
qed

text \<open>C17: what \<open>count_trees\<close> returns on every graph in which \<open>detect_cycle\<close> finds no cycle, whatever the
  size of the counts: from the counts of the children, the products over the packs are checked (one that
  does not fit makes the count \<open>SIZE_MAX\<close>) and their sum is not (it wraps at \<open>SIZE_MAX + 1\<close>), and a child
  whose count is 0 multiplies like a leaf. So a node with a saturated child and one more pack can get the
  count 0.\<close>

theorem count_trees_equation:
  assumes "card (fst ` set g) < fuel" "detect_cycle fuel g root = Some (ret, {})"
  shows "count_trees fuel g root =
    Some (let count = (\<lambda>c. the (count_trees fuel g c));
              times = (\<lambda>c. if is_nt (fst c) \<and> count c \<noteq> 0 then count c else 1);
              pack = (\<lambda>p. prod_list (map times p))
          in if \<exists>p \<in> set (packs_under g root). pack p > SIZE_MAX then SIZE_MAX
             else sum_list (map pack (packs_under g root)) mod (SIZE_MAX + 1))"
proof -
  have r: "root \<in> Wellfounded.acc (child_of g)" by (rule detect_cycle_acc[OF assms])
  obtain k where k: "count_trees fuel g root = Some k" "count_at g root k"
    using count_trees_at[OF assms(1) r] by blast
  let ?f = "\<lambda>c. the (count_trees fuel g c)"
  have "count_at g c (?f c)" if "c \<in> kids g root" for c
    using count_trees_at[OF assms(1), of c] acc_downward[OF r, of c] that by (fastforce simp: child_of_def)
  then have "k = node_count ?f (packs_under g root)"
    using count_at.intros[of g root ?f] count_at_unique[OF k(2)] by blast
  then show ?thesis unfolding k(1) by (simp add: node_count_def Let_def factor_def[abs_def])
qed

theorem count_trees_equation_witness:
  "count_trees 5 two_by_two (Nt 0, 0, 2) = Some (2 * 1 + 1)"
proof -
  have c: "count_trees 5 two_by_two (Nt 1, 0, 1) = Some 2" "count_trees 5 two_by_two (Nt 1, 1, 2) = Some 1"
    "count_trees 5 two_by_two (Nt 2, 0, 2) = Some 1"
    by code_simp+
  have "packs_under two_by_two (Nt 0, 0, 2) = [[(Nt 1, 0, 1), (Nt 1, 1, 2)], [(Nt 2, 0, 2)]]"
    by (simp add: packs_under_def find_packs_def two_by_two_def)
  moreover have "card (fst ` set two_by_two) < 5" by (simp add: two_by_two_def)
  ultimately show ?thesis
    using count_trees_equation[OF _ two_by_two_acyclic] by (simp add: c[unfolded One_nat_def] Let_def SIZE_MAX_def)
qed

end
