(* ===== verification/ForestReplace.thy ===== *)
theory ForestReplace
  imports ForestCount
begin

text \<open>
  Replacement of nodes by their children, and the reverse index, in
  \<open>src/src/utility/forest.tmpl.h\<close>: \<open>replace_nodes\<close>, \<open>replace_node\<close>, \<open>build_reverse_index\<close>,
  \<open>predecessors\<close>, \<open>traverse_backward\<close>. Inlining nodes keeps the words that an acyclic graph derives.
\<close>

section \<open>Inlining nodes\<close>

text \<open>The replacement of each node that is in the graph: its first pack, \<open>None\<close> when one of the nodes
  is its own child.\<close>

fun replacement_map :: "'t node_graph \<Rightarrow> 't pnodes \<Rightarrow> ('t pnode \<rightharpoonup> 't pnodes) \<Rightarrow> ('t pnode \<rightharpoonup> 't pnodes) option" where
  "replacement_map g [] m = Some m"
| "replacement_map g (n # ns) m =
     (case map_of g n of
        None \<Rightarrow> replacement_map g ns m
      | Some packs \<Rightarrow> if n \<in> set (hd packs) then None else replacement_map g ns (m(n \<mapsto> hd packs)))"

text \<open>The stack of \<open>expand\<close>: what is left of each vector. The nodes being expanded are in \<open>open\<close>.\<close>

partial_function (option) expand_loop ::
  "('t pnode \<rightharpoonup> 't pnodes) \<Rightarrow> 't pnodes list \<Rightarrow> 't pnodes \<Rightarrow> 't pnodes \<Rightarrow> 't pnode set \<Rightarrow> ('t pnodes \<times> 't pnode set) option" where
  [code]: "expand_loop m stack opened out cleanup =
     (case stack of
        [] \<Rightarrow> Some (out, cleanup)
      | fr # stack \<Rightarrow>
          (case fr of
             [] \<Rightarrow> expand_loop m stack (tl opened) out cleanup
           | x # rest \<Rightarrow>
               if m x = None \<or> x \<in> set opened
               then expand_loop m (rest # stack) opened (out @ [x]) cleanup
               else expand_loop m (the (m x) # rest # stack) (x # opened) out (insert x cleanup)))"

definition expand :: "('t pnode \<rightharpoonup> 't pnodes) \<Rightarrow> 't pnodes \<Rightarrow> 't pnode set \<Rightarrow> ('t pnodes \<times> 't pnode set) option" where
  "expand m rhs cleanup = expand_loop m [rhs] [] [] cleanup"

fun expand_set ::
  "'t::{linorder,zero} node_hash \<Rightarrow> ('t pnode \<rightharpoonup> 't pnodes) \<Rightarrow> 't pnodes list \<Rightarrow> 't pnodes list \<Rightarrow> 't pnode set \<Rightarrow>
   ('t pnodes list \<times> 't pnode set) option" where
  "expand_set h m [] updated cleanup = Some (updated, cleanup)"
| "expand_set h m (rhs # rhss) updated cleanup =
     (case expand m rhs cleanup of
        None \<Rightarrow> None
      | Some (out, cleanup) \<Rightarrow> expand_set h m rhss (sinsert (pack_less h) out updated) cleanup)"

fun expand_graph ::
  "'t::{linorder,zero} node_hash \<Rightarrow> ('t pnode \<rightharpoonup> 't pnodes) \<Rightarrow> 't pnode \<Rightarrow> 't node_graph \<Rightarrow> 't node_graph \<Rightarrow> bool \<Rightarrow> 't pnode set \<Rightarrow>
   ('t node_graph \<times> bool \<times> 't pnode set) option" where
  "expand_graph h m root [] done_g change cleanup = Some (done_g, change, cleanup)"
| "expand_graph h m root ((lhs, rhss) # g) done_g change cleanup =
     (if lhs \<noteq> root \<and> m lhs \<noteq> None then expand_graph h m root g (done_g @ [(lhs, rhss)]) change cleanup
      else
        (case expand_set h m rhss [] cleanup of
           None \<Rightarrow> None
         | Some (updated, cleanup) \<Rightarrow>
             if updated \<noteq> [] then expand_graph h m root g (done_g @ [(lhs, updated)]) True cleanup
             else expand_graph h m root g (done_g @ [(lhs, rhss)]) change cleanup))"

text \<open>The result: whether the graph changed, and the graph.\<close>

definition replace_nodes :: "'t::{linorder,zero} node_hash \<Rightarrow> 't graph \<Rightarrow> 't pnodes \<Rightarrow> (bool \<times> 't graph) option" where
  "replace_nodes h G s =
     (case replacement_map (gr_g G) s Map.empty of
        None \<Rightarrow> Some (False, G)
      | Some m \<Rightarrow>
          map_option (\<lambda>(g, change, cleanup). (change, G\<lparr>gr_g := filter (\<lambda>kv. fst kv \<notin> cleanup) g\<rparr>))
            (expand_graph h m (gr_root G) (gr_g G) [] False {}))"

text \<open>\<open>inline_nodes\<close> of \<open>parser_result.tmpl.h\<close>: the nodes of the forest with the given nonterminals.\<close>

definition inline_nodes :: "'t::{linorder,zero} node_hash \<Rightarrow> 't forest \<Rightarrow> 't graph \<Rightarrow> nat set \<Rightarrow> (bool \<times> 't graph) option" where
  "inline_nodes h f G ns =
     replace_nodes h G (filter (\<lambda>n. is_nt (fst n) \<and> lit_n (fst n) \<in> ns) (map fst (f_g f)))"

section \<open>Replacing one node\<close>

text \<open>One vector: the replacement is not searched again.\<close>

definition replace_in :: "'t pnode \<Rightarrow> 't pnodes \<Rightarrow> 't pnodes \<Rightarrow> 't pnodes" where
  "replace_in torepl repl rhs = concat (map (\<lambda>n. if n = torepl then repl else [n]) rhs)"

text \<open>The loop over the packs of a node. A changed pack is erased and the new one inserted; the loop
  goes on with the successor of the new one.\<close>

partial_function (option) replace_packs ::
  "'t::{linorder,zero} node_hash \<Rightarrow> 't pnode \<Rightarrow> 't pnodes \<Rightarrow> nat \<Rightarrow> 't pnodes list \<Rightarrow> bool \<Rightarrow> ('t pnodes list \<times> bool) option" where
  [code]: "replace_packs h torepl repl i packs change =
     (if i \<ge> length packs then Some (packs, change)
      else if torepl \<notin> set (packs ! i) then replace_packs h torepl repl (i + 1) packs change
      else
        (let new = replace_in torepl repl (packs ! i);
             packs = sinsert (pack_less h) new (take i packs @ drop (i + 1) packs)
         in replace_packs h torepl repl (length (takeWhile (\<lambda>p. pack_less h p new) packs) + 1) packs True))"

fun replace_graph ::
  "'t::{linorder,zero} node_hash \<Rightarrow> 't pnode \<Rightarrow> 't pnodes \<Rightarrow> 't node_graph \<Rightarrow> bool \<Rightarrow> (bool \<times> 't node_graph) option" where
  "replace_graph h torepl repl [] change = Some (change, [])"
| "replace_graph h torepl repl ((lhs, packs) # g) change =
     (case replace_packs h torepl repl 0 packs change of
        None \<Rightarrow> None
      | Some (packs, change) \<Rightarrow>
          map_option (\<lambda>(change, g). (change, (lhs, packs) # g)) (replace_graph h torepl repl g change))"

definition replace_node ::
  "'t::{linorder,zero} node_hash \<Rightarrow> 't graph \<Rightarrow> 't pnode \<Rightarrow> 't pnodes \<Rightarrow> (bool \<times> 't graph) option" where
  "replace_node h G torepl repl =
     (if torepl \<in> set repl then Some (False, G)
      else map_option (\<lambda>(change, g). (change, G\<lparr>gr_g := g\<rparr>)) (replace_graph h torepl repl (gr_g G) False))"

section \<open>The reverse index\<close>

text \<open>The index maps a child to the nodes that have it in a pack, once for each occurrence; \<open>None\<close>
  is an index that is not valid.\<close>

record 't indexed =
  ix_forest :: "'t forest"
  ix_reverse :: "('t pnode \<Rightarrow> 't pnodes) option"

definition build_reverse_index :: "'t indexed \<Rightarrow> 't indexed" where
  "build_reverse_index f = f\<lparr>ix_reverse := Some (\<lambda>child.
     concat (map (\<lambda>(n, packs). map (\<lambda>_. n) (filter ((=) child) (concat packs))) (f_g (ix_forest f))))\<rparr>"

definition invalidate_reverse_index :: "'t indexed \<Rightarrow> 't indexed" where
  "invalidate_reverse_index f = f\<lparr>ix_reverse := None\<rparr>"

definition predecessors :: "'t indexed \<Rightarrow> 't pnode \<Rightarrow> 't pnodes option" where
  "predecessors f n = map_option (\<lambda>ri. ri n) (ix_reverse f)"

text \<open>Breadth first from the nodes of the given packs. The result is the sequence of the nodes entered.
  What \<open>cb_revisit\<close> answers has no effect: a parent that is in \<open>visited\<close> is not inserted again.\<close>

definition enqueue_new :: "'t pnodes \<Rightarrow> 't pnode set \<times> 't pnodes \<Rightarrow> 't pnode set \<times> 't pnodes" where
  "enqueue_new ns s = fold (\<lambda>n (visited, queue). if n \<in> visited then (visited, queue) else (insert n visited, queue @ [n])) ns s"

partial_function (option) backward_loop ::
  "('t pnode \<Rightarrow> 't pnodes) \<Rightarrow> 't pnode set \<times> 't pnodes \<Rightarrow> 't pnodes \<Rightarrow> 't pnodes option" where
  [code]: "backward_loop ri s entered =
     (case snd s of
        [] \<Rightarrow> Some entered
      | n # queue \<Rightarrow> backward_loop ri (enqueue_new (ri n) (fst s, queue)) (entered @ [n]))"

definition traverse_backward :: "'t indexed \<Rightarrow> 't pnodes list \<Rightarrow> 't pnodes option" where
  "traverse_backward f starts =
     (case ix_reverse f of None \<Rightarrow> None
      | Some ri \<Rightarrow> backward_loop ri (enqueue_new (concat starts) ({}, [])) [])"

section \<open>Inlining keeps the words\<close>

text \<open>The sequences of leaves that a node derives.\<close>

inductive yields :: "'t node_graph \<Rightarrow> 't pnode \<Rightarrow> 't pnodes \<Rightarrow> bool"
  and yields_all :: "'t node_graph \<Rightarrow> 't pnodes \<Rightarrow> 't pnodes \<Rightarrow> bool" for g where
  yields_leaf: "packs_under g n = [] \<Longrightarrow> yields g n [n]"
| yields_node: "p \<in> set (packs_under g n) \<Longrightarrow> yields_all g p w \<Longrightarrow> yields g n w"
| yields_Nil: "yields_all g [] []"
| yields_Cons: "yields g n v \<Longrightarrow> yields_all g p w \<Longrightarrow> yields_all g (n # p) (v @ w)"

inductive_simps yields_iff: "yields g n w"
inductive_simps yields_all_Nil [simp]: "yields_all g [] w"
inductive_simps yields_all_Cons: "yields_all g (n # p) w"

lemma yields_all_append: "yields_all g (p @ q) w \<longleftrightarrow> (\<exists>u v. w = u @ v \<and> yields_all g p u \<and> yields_all g q v)"
  by (induction p arbitrary: w) (auto simp: yields_all_Cons, metis append_assoc, metis append_assoc)

lemma yields_all_cong: "(\<And>n w. n \<in> set p \<Longrightarrow> yields g n w \<longleftrightarrow> yields g' n w) \<Longrightarrow> yields_all g p w \<longleftrightarrow> yields_all g' p w"
  by (induction p arbitrary: w) (auto simp: yields_all_Cons)

text \<open>What \<open>expand\<close> computes, and the nodes it expands.\<close>

inductive expands :: "('a \<rightharpoonup> 'a list) \<Rightarrow> 'a list \<Rightarrow> 'a list \<Rightarrow> 'a set \<Rightarrow> bool" for m where
  "expands m [] [] {}"
| "m x = None \<Longrightarrow> expands m p q E \<Longrightarrow> expands m (x # p) (x # q) E"
| "m x = Some r \<Longrightarrow> expands m r u D \<Longrightarrow> expands m p q E \<Longrightarrow> expands m (x # p) (u @ q) (insert x (D \<union> E))"

lemma expands_set: "expands m p q E \<Longrightarrow> set q \<inter> dom m = {} \<and> E \<subseteq> dom m \<and> set p \<inter> dom m \<subseteq> E \<and>
    (\<forall>x \<in> E. set (the (m x)) \<inter> dom m \<subseteq> E)"
proof (induction rule: expands.induct)
  case (3 x r u D p q E)
  have "set (the (m y)) \<inter> dom m \<subseteq> D \<union> E" if y: "y \<in> insert x (D \<union> E)" for y
  proof -
    have c: "\<forall>x \<in> D. set (the (m x)) \<inter> dom m \<subseteq> D" "\<forall>x \<in> E. set (the (m x)) \<inter> dom m \<subseteq> E" "set r \<inter> dom m \<subseteq> D"
      using 3(4,5) by blast+
    consider "y = x" | "y \<in> D" | "y \<in> E" using y by blast
    then show ?thesis
    proof cases
      case 1
      then show ?thesis using c(3) 3(1) by (simp add: le_supI1)
    next
      case 2
      then have "set (the (m y)) \<inter> dom m \<subseteq> D" by (rule c(1)[rule_format])
      then show ?thesis by (rule le_supI1)
    next
      case 3
      then have "set (the (m y)) \<inter> dom m \<subseteq> E" by (rule c(2)[rule_format])
      then show ?thesis by (rule le_supI2)
    qed
  qed
  then show ?case using 3 by auto
qed auto

lemma expands_yields:
  assumes "\<And>n r. m n = Some r \<Longrightarrow> packs_under g n = [r]"
  shows "expands m p q E \<Longrightarrow> yields_all g p w \<longleftrightarrow> yields_all g q w"
proof (induction arbitrary: w rule: expands.induct)
  case (3 x r u D p q E)
  have "yields g x v \<longleftrightarrow> yields_all g u v" for v
    using 3(4) assms[OF 3(1)] by (subst yields_iff) auto
  then show ?case using 3(5) by (simp add: yields_all_Cons yields_all_append)
qed (simp_all add: yields_all_Cons)

definition within :: "('a \<times> 'a) set \<Rightarrow> ('a \<rightharpoonup> 'a list) \<Rightarrow> bool" where
  "within R m \<longleftrightarrow> (\<forall>n r c. m n = Some r \<longrightarrow> c \<in> set r \<longrightarrow> (c, n) \<in> R)"

lemma withinD: "within R m \<Longrightarrow> m n = Some r \<Longrightarrow> c \<in> set r \<Longrightarrow> (c, n) \<in> R"
  unfolding within_def by blast

lemma expands_reach:
  assumes R: "within R m"
  shows "expands m p q E \<Longrightarrow> y \<in> set q \<Longrightarrow> \<exists>x \<in> set p. (y, x) \<in> R\<^sup>*"
proof (induction arbitrary: y rule: expands.induct)
  case (3 x r u D p q E)
  show ?case
  proof (cases "y \<in> set u")
    case True
    then obtain c where "c \<in> set r" "(y, c) \<in> R\<^sup>*" using 3 by blast
    then have "(y, x) \<in> R\<^sup>*" using withinD[OF R 3(1)] by (meson rtrancl.rtrancl_into_rtrancl)
    then show ?thesis by auto
  next
    case False
    then show ?thesis using 3 by auto
  qed
qed auto

lemma expands_append: "expands m p q E \<Longrightarrow> expands m p' q' E' \<Longrightarrow> expands m (p @ p') (q @ q') (E \<union> E')"
proof (induction rule: expands.induct)
  case (3 x r u D p q E)
  then show ?case using expands.intros(3)[OF 3(1,2) 3(5)[OF 3(6)]] by (simp add: Un_assoc)
qed (auto intro: expands.intros)

lemma expands_list:
  assumes "\<forall>c \<in> set p. \<exists>q E. expands m [c] q E"
  shows "\<exists>q E. expands m p q E"
  using assms
proof (induction p)
  case (Cons c p)
  then obtain q E q' E' where "expands m [c] q E" "expands m p q' E'" by auto
  from expands_append[OF this] show ?case by auto
qed (use expands.intros(1) in blast)

lemma expands_exists:
  assumes R: "within R m" and p: "set p \<subseteq> Wellfounded.acc R"
  shows "\<exists>q E. expands m p q E"
proof -
  have "\<exists>q E. expands m [x] q E" if "x \<in> Wellfounded.acc R" for x
    using that
  proof (induction rule: acc_induct_rule)
    case (1 x)
    show ?case
    proof (cases "m x")
      case None
      have "expands m [x] [x] {}" using expands.intros(2)[of m x "[]" "[]" "{}"] None expands.intros(1)[of m] by simp
      then show ?thesis by blast
    next
      case (Some r)
      have "\<forall>c \<in> set r. \<exists>q E. expands m [c] q E" using 1(2) withinD[OF R Some] by blast
      then obtain q E where "expands m r q E" using expands_list by blast
      then have "expands m [x] (q @ []) (insert x (E \<union> {}))"
        using expands.intros(3)[of m x r q E "[]" "[]" "{}"] Some expands.intros(1)[of m] by simp
      then show ?thesis by blast
    qed
  qed
  then show ?thesis using p by (intro expands_list) blast
qed

declare expand_loop.simps [simp del]

lemma expand_loop_expands:
  assumes R: "within R m"
  shows "expands m p q E \<Longrightarrow> set p \<subseteq> Wellfounded.acc R \<Longrightarrow> \<forall>x \<in> set p. \<forall>y \<in> set opened. (x, y) \<in> R\<^sup>+ \<Longrightarrow>
    expand_loop m ((p @ rest) # stack) opened out cl = expand_loop m (rest # stack) opened (out @ q) (cl \<union> E)"
proof (induction arbitrary: rest stack opened out cl rule: expands.induct)
  case 1
  then show ?case by simp
next
  case (2 x p q E)
  then show ?case by (subst expand_loop.simps) simp
next
  case (3 x r u D p q E)
  have x: "x \<in> Wellfounded.acc R" using 3(6) by simp
  then have "x \<notin> set opened" using acc_no_cycle[OF x] 3(7) by auto
  then have "expand_loop m (((x # p) @ rest) # stack) opened out cl =
      expand_loop m ((r @ []) # (p @ rest) # stack) (x # opened) out (insert x cl)"
    using 3(1) by (subst expand_loop.simps) simp
  also have "\<dots> = expand_loop m ([] # (p @ rest) # stack) (x # opened) (out @ u) (insert x cl \<union> D)"
  proof (rule 3(4))
    show "set r \<subseteq> Wellfounded.acc R" using withinD[OF R 3(1)] acc_downward[OF x] by blast
    show "\<forall>c \<in> set r. \<forall>y \<in> set (x # opened). (c, y) \<in> R\<^sup>+"
    proof (intro ballI)
      fix c y assume c: "c \<in> set r" and y: "y \<in> set (x # opened)"
      have e: "(c, x) \<in> R" by (rule withinD[OF R 3(1) c])
      show "(c, y) \<in> R\<^sup>+"
      proof (cases "y = x")
        case False
        then have "(x, y) \<in> R\<^sup>+" using 3(7) y by simp
        then show ?thesis using e by (rule trancl_into_trancl2[rotated])
      qed (use e in blast)
    qed
  qed
  also have "\<dots> = expand_loop m ((p @ rest) # stack) opened (out @ u) (insert x cl \<union> D)"
    by (subst expand_loop.simps) simp
  also have "\<dots> = expand_loop m (rest # stack) opened ((out @ u) @ q) ((insert x cl \<union> D) \<union> E)"
    by (rule 3(5)) (use 3(6,7) in auto)
  finally show ?case by (simp add: Un_assoc)
qed

lemma expand_expands:
  assumes "within R m" "set p \<subseteq> Wellfounded.acc R" "expands m p q E"
  shows "expand m p cl = Some (q, cl \<union> E)"
proof -
  have "expand m p cl = expand_loop m [[]] [] q (cl \<union> E)"
    using expand_loop_expands[OF assms(1,3,2), where opened = "[]" and rest = "[]" and stack = "[]" and out = "[]"] by (simp add: expand_def)
  then show ?thesis by (simp add: expand_loop.simps)
qed

lemma expands_expanded:
  assumes R: "within R m"
  shows "expands m p q E \<Longrightarrow> y \<in> E \<Longrightarrow> \<exists>x \<in> set p. (y, x) \<in> R\<^sup>*"
proof (induction arbitrary: y rule: expands.induct)
  case (3 x r u D p q E)
  consider "y = x" | "y \<in> D" | "y \<in> E" using 3(6) by blast
  then show ?case
  proof cases
    case 2
    then obtain c where "c \<in> set r" "(y, c) \<in> R\<^sup>*" using 3(4) by blast
    then have "(y, x) \<in> R\<^sup>*" using withinD[OF R 3(1)] by (meson rtrancl.rtrancl_into_rtrancl)
    then show ?thesis by auto
  next
    case 3
    then show ?thesis using "3.IH"(2) by auto
  qed auto
qed auto

section \<open>The whole graph\<close>

lemma expand_set_all:
  assumes "\<And>p cl. p \<in> set rhss \<Longrightarrow> expand m p cl = Some (f p, cl \<union> F p)"
  shows "expand_set h m rhss upd cl = Some (sinserts (pack_less h) (map f rhss) upd, cl \<union> (\<Union>p \<in> set rhss. F p))"
  using assms by (induction rhss arbitrary: upd cl) (auto simp: sinserts_def Un_assoc)

definition skipped :: "('t pnode \<rightharpoonup> 't pnodes) \<Rightarrow> 't pnode \<Rightarrow> 't pnode \<Rightarrow> bool" where
  "skipped m root n \<longleftrightarrow> n \<noteq> root \<and> m n \<noteq> None"

lemma expand_graph_all:
  assumes "\<And>n rhss p cl. (n, rhss) \<in> set g \<Longrightarrow> \<not> skipped m root n \<Longrightarrow> p \<in> set rhss \<Longrightarrow> expand m p cl = Some (f p, cl \<union> F p)"
  shows "\<exists>change'. expand_graph h m root g dn change cl =
    Some (dn @ map (\<lambda>(n, rhss). (n, if skipped m root n then rhss else sset (pack_less h) (map f rhss))) g, change',
      cl \<union> (\<Union>(n, rhss) \<in> {e \<in> set g. \<not> skipped m root (fst e)}. \<Union>p \<in> set rhss. F p))"
  using assms
proof (induction g arbitrary: dn change cl)
  case (Cons e g)
  obtain n rhss where e: "e = (n, rhss)" by fastforce
  have IH: "\<exists>change'. expand_graph h m root g dn change cl =
    Some (dn @ map (\<lambda>(n, rhss). (n, if skipped m root n then rhss else sset (pack_less h) (map f rhss))) g, change',
      cl \<union> (\<Union>(n, rhss) \<in> {e \<in> set g. \<not> skipped m root (fst e)}. \<Union>p \<in> set rhss. F p))" for dn change cl
  proof (rule Cons.IH)
    fix n rhss p cl assume "(n, rhss) \<in> set g" "\<not> skipped m root n" "p \<in> set rhss"
    then show "expand m p cl = Some (f p, cl \<union> F p)" by (intro Cons.prems[of n rhss]) simp_all
  qed
  show ?case
  proof (cases "skipped m root n")
    case True
    then have "{x \<in> set (e # g). \<not> skipped m root (fst x)} = {e \<in> set g. \<not> skipped m root (fst e)}" using e by auto
    then show ?thesis using IH[of "dn @ [(n, rhss)]" change cl] True e by (simp add: skipped_def)
  next
    case False
    let ?U = "sset (pack_less h) (map f rhss)" and ?cl = "cl \<union> (\<Union>p \<in> set rhss. F p)"
    have s: "expand_set h m rhss [] cl = Some (?U, ?cl)"
      using expand_set_all[of rhss m f F h "[]" cl] Cons.prems[of n rhss] False e by (simp add: sset_def)
    have d: "{x \<in> set (e # g). \<not> skipped m root (fst x)} = insert (n, rhss) {e \<in> set g. \<not> skipped m root (fst e)}"
      using e False by auto
    have "?U = [] \<Longrightarrow> rhss = []"
      by (cases rhss) (use pack.sinserts_has[of "f (hd rhss)" "map f rhss" h "[]"] in \<open>auto simp: sset_def\<close>)
    then have u: "?U = [] \<Longrightarrow> rhss = ?U" by (simp add: sset_def sinserts_def)
    have "\<exists>change'. expand_graph h m root (e # g) dn change cl = expand_graph h m root g (dn @ [(n, ?U)]) change' ?cl"
      using s False e u by (auto simp: skipped_def)
    then obtain change' where "expand_graph h m root (e # g) dn change cl = expand_graph h m root g (dn @ [(n, ?U)]) change' ?cl" by blast
    then show ?thesis using IH[of "dn @ [(n, ?U)]" change' ?cl] False d e by (simp add: Un_assoc)
  qed
qed simp

text \<open>A graph as the extraction gives it: each entry is a nonterminal that the root reaches, the nodes
  to inline have one pack, and the order of the packs tells the nodes apart.\<close>

definition inlinable :: "'t::{linorder,zero} node_hash \<Rightarrow> 't graph \<Rightarrow> 't pnodes \<Rightarrow> bool" where
  "inlinable h G s \<longleftrightarrow> distinct (map fst (gr_g G)) \<and>
     (\<forall>n \<in> fst ` set (gr_g G). is_nt (fst n) \<and> (n, gr_root G) \<in> (child_of (gr_g G))\<^sup>*) \<and>
     (\<forall>n \<in> set s. map_of (gr_g G) n \<noteq> None \<longrightarrow> length (find_packs (gr_g G) n) = 1) \<and>
     (\<forall>n n' a b. a \<in> kids (gr_g G) n \<longrightarrow> b \<in> kids (gr_g G) n' \<longrightarrow> equiv (node_less h) a b \<longrightarrow> a = b)"

definition inlined :: "'t node_graph \<Rightarrow> 't pnodes \<Rightarrow> 't pnode \<rightharpoonup> 't pnodes" where
  "inlined g s n = (if n \<in> set s \<and> map_of g n \<noteq> None then Some (hd (find_packs g n)) else None)"

lemma replacement_map_inlined:
  assumes "\<And>n. n \<in> set s \<Longrightarrow> map_of g n \<noteq> None \<Longrightarrow> n \<notin> set (hd (find_packs g n))"
  shows "replacement_map g s m = Some (m ++ inlined g s)"
  using assms
proof (induction s arbitrary: m)
  case (Cons n s)
  have e: "m ++ inlined g (n # s) = (if map_of g n = None then m else m(n \<mapsto> hd (find_packs g n))) ++ inlined g s"
    by (rule ext) (auto simp: map_add_def inlined_def split: option.splits)
  have "replacement_map g s k = Some (k ++ inlined g s)" for k by (rule Cons.IH) (use Cons.prems in simp)
  then show ?case using Cons.prems[of n] unfolding e by (cases "map_of g n") (auto simp: find_packs_def)
qed (simp add: inlined_def map_add_def fun_eq_iff)

lemma map_of_filter_keys: "map_of (filter (\<lambda>kv. fst kv \<notin> C) xs) n = (if n \<in> C then None else map_of xs n)"
  by (induction xs) auto

lemma map_of_map_entries: "map_of (map (\<lambda>(n, v). (n, f n v)) xs) n = map_option (f n) (map_of xs n)"
  by (induction xs) auto

text \<open>The facts shared by the lemmas below: \<open>ready\<close> adds that the root reaches no cycle.\<close>

definition ready :: "'t::{linorder,zero} node_hash \<Rightarrow> 't graph \<Rightarrow> 't pnodes \<Rightarrow> bool" where
  "ready h G s \<longleftrightarrow> gr_root G \<in> Wellfounded.acc (child_of (gr_g G)) \<and> inlinable h G s"

lemma entry_under: "packs_under g n \<noteq> [] \<Longrightarrow> map_of g n \<noteq> None"
  by (cases "map_of g n") (simp_all add: packs_under_def find_packs_def split: if_splits)

lemma kid_under: "p \<in> set (packs_under g n) \<Longrightarrow> c \<in> set p \<Longrightarrow> (c, n) \<in> child_of g"
  by (auto simp: child_of_def kids_packs_under)

lemma ready_key:
  assumes "ready h G s" "map_of (gr_g G) n \<noteq> None"
  shows "(n, gr_root G) \<in> (child_of (gr_g G))\<^sup>*" "n \<in> Wellfounded.acc (child_of (gr_g G))"
    "packs_under (gr_g G) n = find_packs (gr_g G) n"
proof -
  have "n \<in> fst ` set (gr_g G)" using assms(2) by (simp add: map_of_eq_None_iff)
  then have k: "is_nt (fst n)" "(n, gr_root G) \<in> (child_of (gr_g G))\<^sup>*"
    using assms(1) unfolding ready_def inlinable_def by blast+
  show "(n, gr_root G) \<in> (child_of (gr_g G))\<^sup>*" by (rule k(2))
  show "n \<in> Wellfounded.acc (child_of (gr_g G))"
    by (rule acc_reaches[OF _ k(2)]) (use assms(1) in \<open>simp add: ready_def\<close>)
  show "packs_under (gr_g G) n = find_packs (gr_g G) n" using k(1) by (simp add: packs_under_def)
qed

lemma ready_entry:
  assumes "ready h G s" "(n, rhss) \<in> set (gr_g G)"
  shows "packs_under (gr_g G) n = rhss"
proof -
  have "distinct (map fst (gr_g G))" using assms(1) unfolding ready_def inlinable_def by blast
  then have e: "map_of (gr_g G) n = Some rhss" using assms(2) by simp
  then show ?thesis using ready_key(3)[OF assms(1), of n] by (simp add: find_packs_def)
qed

lemma ready_pack:
  assumes "ready h G s" and p: "p \<in> set (packs_under (gr_g G) n)"
  shows "(n, gr_root G) \<in> (child_of (gr_g G))\<^sup>*" "set p \<subseteq> Wellfounded.acc (child_of (gr_g G))"
proof -
  have e: "map_of (gr_g G) n \<noteq> None" by (rule entry_under) (use p in auto)
  show "(n, gr_root G) \<in> (child_of (gr_g G))\<^sup>*" by (rule ready_key(1)[OF assms(1) e])
  show "set p \<subseteq> Wellfounded.acc (child_of (gr_g G))"
    by (intro subsetI acc_downward[OF ready_key(2)[OF assms(1) e]] kid_under[OF p])
qed

lemma ready_single:
  assumes "ready h G s" "inlined (gr_g G) s n = Some q"
  shows "packs_under (gr_g G) n = [q]"
proof -
  have n: "n \<in> set s" "map_of (gr_g G) n \<noteq> None" "q = hd (find_packs (gr_g G) n)"
    using assms(2) by (auto simp: inlined_def split: if_splits)
  then have "length (find_packs (gr_g G) n) = 1" using assms(1) unfolding ready_def inlinable_def by blast
  then show ?thesis unfolding ready_key(3)[OF assms(1) n(2)] n(3) by (cases "find_packs (gr_g G) n") auto
qed

lemma ready_inlined:
  assumes "ready h G s"
  shows "within (child_of (gr_g G)) (inlined (gr_g G) s)"
  unfolding within_def
proof (intro allI impI)
  fix n q c assume q: "inlined (gr_g G) s n = Some q" and c: "c \<in> set q"
  show "(c, n) \<in> child_of (gr_g G)" by (rule kid_under[of q]) (use ready_single[OF assms q] c in auto)
qed

lemma ready_map:
  assumes "ready h G s"
  shows "replacement_map (gr_g G) s Map.empty = Some (inlined (gr_g G) s)"
proof -
  have "n \<notin> set (hd (find_packs (gr_g G) n))" if n: "n \<in> set s" "map_of (gr_g G) n \<noteq> None" for n
  proof
    assume "n \<in> set (hd (find_packs (gr_g G) n))"
    moreover have "inlined (gr_g G) s n = Some (hd (find_packs (gr_g G) n))" using n by (simp add: inlined_def)
    ultimately have "(n, n) \<in> child_of (gr_g G)" using withinD[OF ready_inlined[OF assms]] by blast
    then show False using acc_no_cycle[OF ready_key(2)[OF assms n(2)]] by blast
  qed
  then show ?thesis using replacement_map_inlined[of s "gr_g G" Map.empty] by simp
qed

text \<open>The expansions of all packs, as functions.\<close>

definition expansion :: "'t graph \<Rightarrow> 't pnodes \<Rightarrow> ('t pnodes \<Rightarrow> 't pnodes) \<Rightarrow> ('t pnodes \<Rightarrow> 't pnode set) \<Rightarrow> bool" where
  "expansion G s f F \<longleftrightarrow> (\<forall>n. \<forall>p \<in> set (packs_under (gr_g G) n). expands (inlined (gr_g G) s) p (f p) (F p))"

lemma expansion_exists:
  assumes "ready h G s"
  shows "\<exists>f F. expansion G s f F"
proof -
  have "\<forall>p \<in> (\<Union>n. set (packs_under (gr_g G) n)). \<exists>q E. expands (inlined (gr_g G) s) p q E"
  proof
    fix p assume "p \<in> (\<Union>n. set (packs_under (gr_g G) n))"
    then obtain n where "p \<in> set (packs_under (gr_g G) n)" by blast
    then show "\<exists>q E. expands (inlined (gr_g G) s) p q E"
      by (intro expands_exists[OF ready_inlined[OF assms]] ready_pack(2)[OF assms])
  qed
  then obtain f where "\<forall>p \<in> (\<Union>n. set (packs_under (gr_g G) n)). \<exists>E. expands (inlined (gr_g G) s) p (f p) E"
    using bchoice[of "\<Union>n. set (packs_under (gr_g G) n)" "\<lambda>p q. \<exists>E. expands (inlined (gr_g G) s) p q E"] by presburger
  then obtain F where "\<forall>p \<in> (\<Union>n. set (packs_under (gr_g G) n)). expands (inlined (gr_g G) s) p (f p) (F p)"
    using bchoice[of "\<Union>n. set (packs_under (gr_g G) n)" "\<lambda>p E. expands (inlined (gr_g G) s) p (f p) E"] by presburger
  then have "expansion G s f F" unfolding expansion_def by (intro allI ballI) (erule bspec, rule UN_I[OF UNIV_I])
  then show ?thesis by (intro exI)
qed

text \<open>The nodes that are erased.\<close>

definition erased :: "'t graph \<Rightarrow> 't pnodes \<Rightarrow> ('t pnodes \<Rightarrow> 't pnode set) \<Rightarrow> 't pnode set" where
  "erased G s F = (\<Union>n \<in> {n. \<not> skipped (inlined (gr_g G) s) (gr_root G) n}. \<Union>p \<in> set (packs_under (gr_g G) n). F p)"

lemma replace_nodes_result:
  assumes "ready h G s" "expansion G s f F"
  shows "\<exists>change. replace_nodes h G s = Some (change, G\<lparr>gr_g := filter (\<lambda>kv. fst kv \<notin> erased G s F)
    (map (\<lambda>(n, rhss). (n, if skipped (inlined (gr_g G) s) (gr_root G) n then rhss
       else sset (pack_less h) (map f rhss))) (gr_g G))\<rparr>)"
proof -
  let ?m = "inlined (gr_g G) s" and ?root = "gr_root G"
  have x: "expand ?m p cl = Some (f p, cl \<union> F p)" if "(n, rhss) \<in> set (gr_g G)" "p \<in> set rhss" for n rhss p cl
  proof -
    have p: "p \<in> set (packs_under (gr_g G) n)" using ready_entry[OF assms(1) that(1)] that(2) by simp
    show ?thesis
      by (rule expand_expands[OF ready_inlined[OF assms(1)] ready_pack(2)[OF assms(1) p]])
        (use assms(2) p in \<open>unfold expansion_def, blast\<close>)
  qed
  have "(\<Union>(n, rhss) \<in> {e \<in> set (gr_g G). \<not> skipped ?m ?root (fst e)}. \<Union>p \<in> set rhss. F p) = erased G s F" (is "?C = _")
  proof
    show "?C \<subseteq> erased G s F"
    proof
      fix y assume "y \<in> ?C"
      then obtain n rhss p where n: "(n, rhss) \<in> set (gr_g G)" "\<not> skipped ?m ?root n" "p \<in> set rhss" "y \<in> F p" by auto
      have "p \<in> set (packs_under (gr_g G) n)" using ready_entry[OF assms(1) n(1)] n(3) by simp
      then show "y \<in> erased G s F" unfolding erased_def using n(2,4) by blast
    qed
    show "erased G s F \<subseteq> ?C"
    proof
      fix y assume "y \<in> erased G s F"
      then obtain n p where n: "\<not> skipped ?m ?root n" "p \<in> set (packs_under (gr_g G) n)" "y \<in> F p"
        unfolding erased_def by blast
      have "packs_under (gr_g G) n \<noteq> []" using n(2) by auto
      then have "map_of (gr_g G) n \<noteq> None" by (rule entry_under)
      then obtain rhss where rhss: "(n, rhss) \<in> set (gr_g G)" using map_of_SomeD by fastforce
      have "p \<in> set rhss" using ready_entry[OF assms(1) rhss] n(2) by simp
      then show "y \<in> ?C" using n(1,3) rhss by (intro UN_I[of "(n, rhss)"]) auto
    qed
  qed
  moreover have "\<exists>change. expand_graph h ?m ?root (gr_g G) [] False {} =
      Some ([] @ map (\<lambda>(n, rhss). (n, if skipped ?m ?root n then rhss else sset (pack_less h) (map f rhss))) (gr_g G),
        change, {} \<union> (\<Union>(n, rhss) \<in> {e \<in> set (gr_g G). \<not> skipped ?m ?root (fst e)}. \<Union>p \<in> set rhss. F p))"
    by (rule expand_graph_all) (rule x)
  ultimately obtain change where "expand_graph h ?m ?root (gr_g G) [] False {} =
      Some (map (\<lambda>(n, rhss). (n, if skipped ?m ?root n then rhss else sset (pack_less h) (map f rhss))) (gr_g G),
        change, erased G s F)" by auto
  then show ?thesis using ready_map[OF assms(1)] by (simp add: replace_nodes_def)
qed

lemma erased_inlined:
  assumes "expansion G s f F" "y \<in> erased G s F"
  shows "inlined (gr_g G) s y \<noteq> None"
proof -
  obtain n p where "p \<in> set (packs_under (gr_g G) n)" "y \<in> F p" using assms(2) unfolding erased_def by blast
  then show ?thesis using expands_set[of "inlined (gr_g G) s" p "f p" "F p"] assms(1) unfolding expansion_def by blast
qed

lemma root_not_erased:
  assumes "ready h G s" "expansion G s f F"
  shows "gr_root G \<notin> erased G s F"
proof
  let ?R = "child_of (gr_g G)" and ?root = "gr_root G"
  assume "?root \<in> erased G s F"
  then obtain n p where p: "p \<in> set (packs_under (gr_g G) n)" "?root \<in> F p" unfolding erased_def by blast
  have "expands (inlined (gr_g G) s) p (f p) (F p)" using assms(2) p(1) unfolding expansion_def by blast
  from expands_expanded[OF ready_inlined[OF assms(1)] this p(2)]
  obtain x where x: "x \<in> set p" "(?root, x) \<in> ?R\<^sup>*" by blast
  have "(?root, n) \<in> ?R\<^sup>+" by (rule rtrancl_into_trancl1[OF x(2) kid_under[OF p(1) x(1)]])
  then have "(?root, ?root) \<in> ?R\<^sup>+" using ready_pack(1)[OF assms(1) p(1)] by (rule trancl_rtrancl_trancl)
  moreover have "?root \<in> Wellfounded.acc ?R" using assms(1) by (simp add: ready_def)
  ultimately show False using acc_no_cycle[of ?root ?R] by simp
qed

lemma reached_erased:
  assumes "ready h G s" and f: "expansion G s f F"
  shows "(n, gr_root G) \<in> (child_of (gr_g G))\<^sup>* \<Longrightarrow> n \<noteq> gr_root G \<Longrightarrow> inlined (gr_g G) s n \<noteq> None \<Longrightarrow> n \<in> erased G s F"
proof (induction rule: converse_rtrancl_induct)
  case (step y z)
  let ?m = "inlined (gr_g G) s"
  obtain p where p: "p \<in> set (packs_under (gr_g G) z)" "y \<in> set p" using step(1) by (auto simp: child_of_def kids_packs_under)
  have e: "expands ?m p (f p) (F p)" if "p \<in> set (packs_under (gr_g G) n)" for n p using f that unfolding expansion_def by blast
  show ?case
  proof (cases "skipped ?m (gr_root G) z")
    case False
    then show ?thesis using expands_set[OF e[OF p(1)]] p step(5) unfolding erased_def by blast
  next
    case True
    then have z: "z \<in> erased G s F" "?m z \<noteq> None" using step(3) by (auto simp: skipped_def)
    obtain q where q: "?m z = Some q" using z(2) by blast
    have yq: "y \<in> set (the (?m z))" using ready_single[OF assms(1) q] p q by simp
    obtain n r where r: "\<not> skipped ?m (gr_root G) n" "r \<in> set (packs_under (gr_g G) n)" "z \<in> F r"
      using z(1) unfolding erased_def by blast
    have "set (the (?m z)) \<inter> dom ?m \<subseteq> F r" using expands_set[OF e[OF r(2)]] r(3) by blast
    then have "y \<in> F r" using yq step(5) by blast
    then show ?thesis using r unfolding erased_def by blast
  qed
qed simp

lemma expansions_separate:
  assumes "ready h G s" "expansion G s f F"
  shows "pack.separates h (f ` set (packs_under (gr_g G) n))"
proof -
  have k: "\<exists>z. y \<in> kids (gr_g G) z" if p: "p \<in> set (packs_under (gr_g G) n)" and y: "y \<in> set (f p)" for p y
  proof -
    have "expands (inlined (gr_g G) s) p (f p) (F p)" using assms(2) p unfolding expansion_def by blast
    from expands_reach[OF ready_inlined[OF assms(1)] this y]
    obtain x where x: "x \<in> set p" "(y, x) \<in> (child_of (gr_g G))\<^sup>*" by blast
    from x(2) kid_under[OF p x(1)] have "\<exists>z. (y, z) \<in> child_of (gr_g G)" by (cases rule: converse_rtranclE) blast+
    then show ?thesis by (simp add: child_of_def)
  qed
  have nd: "a = b" if "a \<in> kids (gr_g G) z" "b \<in> kids (gr_g G) z'" "equiv (node_less h) a b" for a b z z'
    using assms(1) that unfolding ready_def inlinable_def by blast
  show ?thesis unfolding pack.separates_def unfolding pack_less_def lex_equiv
  proof (intro ballI impI)
    fix q q' assume q: "q \<in> f ` set (packs_under (gr_g G) n)" "q' \<in> f ` set (packs_under (gr_g G) n)"
      and e: "list_all2 (equiv (node_less h)) q q'"
    have "\<exists>z z'. a \<in> kids (gr_g G) z \<and> b \<in> kids (gr_g G) z'" if "a \<in> set q" "b \<in> set q'" for a b using k q that by blast
    then have "list_all2 (=) q q'" using nd by (intro list.rel_mono_strong[OF e]) blast
    then show "q = q'" by (simp add: list.rel_eq)
  qed
qed

text \<open>The packs and the entries of the replaced graph.\<close>

lemma replace_nodes_graph:
  assumes "ready h G s" and f: "expansion G s f F"
  shows "\<exists>change g'. replace_nodes h G s = Some (change, G\<lparr>gr_g := g'\<rparr>) \<and>
    (\<forall>n. n = gr_root G \<or> inlined (gr_g G) s n = None \<longrightarrow> set (packs_under g' n) = f ` set (packs_under (gr_g G) n)) \<and>
    (\<forall>n \<in> fst ` set g'. n \<in> fst ` set (gr_g G) \<and> (n = gr_root G \<or> inlined (gr_g G) s n = None))"
proof -
  let ?m = "inlined (gr_g G) s" and ?root = "gr_root G"
  let ?g1 = "map (\<lambda>(n, rhss). (n, if skipped ?m ?root n then rhss else sset (pack_less h) (map f rhss))) (gr_g G)"
  let ?g' = "filter (\<lambda>kv. fst kv \<notin> erased G s F) ?g1"
  have p: "set (packs_under ?g' n) = f ` set (packs_under (gr_g G) n)" if n: "n = ?root \<or> ?m n = None" for n
  proof -
    have "n \<notin> erased G s F" "\<not> skipped ?m ?root n"
      using n erased_inlined[OF f, of n] root_not_erased[OF assms] by (auto simp: skipped_def)
    then have "map_of ?g' n = map_option (\<lambda>rhss. sset (pack_less h) (map f rhss)) (map_of (gr_g G) n)"
      by (simp add: map_of_filter_keys map_of_map_entries)
    then have "packs_under ?g' n = sset (pack_less h) (map f (packs_under (gr_g G) n))"
      by (auto simp: packs_under_def find_packs_def sset_def sinserts_def split: option.splits)
    then show ?thesis
      using pack.set_sinserts[of h "map f (packs_under (gr_g G) n)" "[]"] expansions_separate[OF assms, of n] by (simp add: sset_def)
  qed
  have b: "n \<in> fst ` set (gr_g G) \<and> (n = ?root \<or> ?m n = None)" if "n \<in> fst ` set ?g'" for n
  proof -
    have "n \<in> fst ` set (gr_g G)" "n \<notin> erased G s F" using that by force+
    then have "(n, ?root) \<in> (child_of (gr_g G))\<^sup>*" by (intro ready_key(1)[OF assms(1)]) (simp add: map_of_eq_None_iff)
    then show ?thesis using reached_erased[OF assms, of n] \<open>n \<notin> erased G s F\<close> \<open>n \<in> fst ` set (gr_g G)\<close>
      by (cases "n = ?root"; cases "?m n") simp_all
  qed
  obtain change where r: "replace_nodes h G s = Some (change, G\<lparr>gr_g := ?g'\<rparr>)"
    using replace_nodes_result[OF assms] by (elim exE)
  show ?thesis by (rule exI[of _ change], rule exI[of _ ?g'], intro conjI[OF r conjI] allI impI ballI p b)
qed

text \<open>Below the root, the nodes that stay derive what they derived.\<close>

lemma replaced_yields:
  assumes R: "ready h G s" and f: "expansion G s f F"
    and g': "\<forall>n. n = gr_root G \<or> inlined (gr_g G) s n = None \<longrightarrow> set (packs_under g' n) = f ` set (packs_under (gr_g G) n)"
  shows "x \<in> Wellfounded.acc (child_of (gr_g G)) \<Longrightarrow> (y, x) \<in> (child_of (gr_g G))\<^sup>* \<Longrightarrow>
    y = gr_root G \<or> inlined (gr_g G) s y = None \<Longrightarrow> yields g' y w \<longleftrightarrow> yields (gr_g G) y w"
proof (induction arbitrary: y w rule: acc_induct_rule)
  case (1 x)
  let ?g = "gr_g G" and ?m = "inlined (gr_g G) s"
  show ?case
  proof (cases "y = x")
    case False
    then obtain c where "(y, c) \<in> (child_of ?g)\<^sup>*" "(c, x) \<in> child_of ?g" using 1(3) by (meson rtranclE)
    then show ?thesis by (intro "1.IH"[OF _ _ 1(4)])
  next
    case y: True
    have e: "yields_all g' (f p) w \<longleftrightarrow> yields_all ?g p w" if p: "p \<in> set (packs_under ?g x)" for p w
    proof -
      have ex: "expands ?m p (f p) (F p)" using f p unfolding expansion_def by blast
      have "yields g' z v \<longleftrightarrow> yields ?g z v" if z: "z \<in> set (f p)" for z v
      proof -
        from expands_reach[OF ready_inlined[OF R] ex z]
        obtain c where c: "c \<in> set p" "(z, c) \<in> (child_of ?g)\<^sup>*" by blast
        have "z \<notin> dom ?m" using expands_set[OF ex] z by blast
        then have "z = gr_root G \<or> ?m z = None" by (simp add: domIff)
        then show ?thesis by (rule "1.IH"[OF kid_under[OF p c(1)] c(2)])
      qed
      then have "yields_all g' (f p) w \<longleftrightarrow> yields_all ?g (f p) w" by (rule yields_all_cong)
      then show ?thesis using expands_yields[OF ready_single[OF R] ex] by simp
    qed
    have "set (packs_under g' x) = f ` set (packs_under ?g x)" by (intro g'[rule_format] 1(4)[unfolded y])
    then show ?thesis unfolding y yields_iff using e by auto
  qed
qed

text \<open>C6: in a graph whose entries are nonterminals under the root and in which \<open>detect_cycle\<close> finds no
  cycle, inlining nodes with one pack returns a graph in which the root derives exactly the sequences of
  leaves it derived before, and none of the inlined nodes is left but for the root itself.\<close>

theorem inlining_keeps_words:
  assumes "card (fst ` set (gr_g G)) < fuel" "detect_cycle fuel (gr_g G) (gr_root G) = Some (ret, {})" "inlinable h G s"
  shows "\<exists>change g'. replace_nodes h G s = Some (change, G\<lparr>gr_g := g'\<rparr>) \<and>
    (\<forall>w. yields g' (gr_root G) w \<longleftrightarrow> yields (gr_g G) (gr_root G) w) \<and>
    (\<forall>n \<in> fst ` set g'. n = gr_root G \<or> n \<notin> set s)"
proof -
  have r: "gr_root G \<in> Wellfounded.acc (child_of (gr_g G))" by (rule detect_cycle_acc[OF assms(1,2)])
  have R: "ready h G s" using r assms(3) by (simp add: ready_def)
  obtain f F where f: "expansion G s f F" using expansion_exists[OF R] by (elim exE)
  from replace_nodes_graph[OF R f] obtain change g' where
    g: "replace_nodes h G s = Some (change, G\<lparr>gr_g := g'\<rparr>)"
    "\<forall>n. n = gr_root G \<or> inlined (gr_g G) s n = None \<longrightarrow> set (packs_under g' n) = f ` set (packs_under (gr_g G) n)"
    "\<forall>n \<in> fst ` set g'. n \<in> fst ` set (gr_g G) \<and> (n = gr_root G \<or> inlined (gr_g G) s n = None)" by (elim exE conjE)
  have "n = gr_root G \<or> n \<notin> set s" if "n \<in> fst ` set g'" for n
    using bspec[OF g(3) that] by (auto simp: inlined_def map_of_eq_None_iff split: if_splits)
  moreover have "yields g' (gr_root G) w \<longleftrightarrow> yields (gr_g G) (gr_root G) w" for w
    by (rule replaced_yields[OF R f g(2) r]) simp_all
  ultimately show ?thesis using g(1) by (intro exI[of _ change] exI[of _ g'] conjI allI ballI)
qed

text \<open>The theorem at the ambiguous graph of \<open>two_by_two\<close>: two of its nodes are inlined.\<close>

definition two_graph :: "nat graph" where
  "two_graph = \<lparr>gr_g = two_by_two, gr_root = (Nt 0, 0, 2), gr_cycles = {}\<rparr>"

lemma two_by_two_under: "packs_under two_by_two n =
    (if n = (Nt 0, 0, 2) then [[(Nt 1, 0, 1), (Nt 1, 1, 2)], [(Nt 2, 0, 2)]]
     else if n = (Nt 1, 0, 1) then [[(Tm 7, 0, 1)], [(Null, 0, 0), (Tm 7, 0, 1)]]
     else if n = (Nt 1, 1, 2) then [[(Tm 7, 1, 2)]]
     else if n = (Nt 2, 0, 2) then [[(Tm 7, 0, 1), (Tm 7, 1, 2)]] else [])"
  by (simp add: packs_under_def find_packs_def two_by_two_def)

lemma two_graph_inlinable: "inlinable (\<lambda>_. 0) two_graph [(Nt 1, 1, 2), (Nt 2, 0, 2)]"
proof -
  let ?g = "two_by_two" and ?root = "(Nt 0, 0, 2) :: nat pnode"
  have k: "kids ?g n = (if n = (Nt 0, 0, 2) then {(Nt 1, 0, 1), (Nt 1, 1, 2), (Nt 2, 0, 2)}
      else if n = (Nt 1, 0, 1) then {(Tm 7, 0, 1), (Null, 0, 0)}
      else if n = (Nt 1, 1, 2) then {(Tm 7, 1, 2)}
      else if n = (Nt 2, 0, 2) then {(Tm 7, 0, 1), (Tm 7, 1, 2)} else {})" for n
    unfolding kids_packs_under two_by_two_under by (simp add: insert_commute)
  have "(c, ?root) \<in> (child_of ?g)\<^sup>*" if "c \<in> kids ?g ?root" for c using that by (auto simp: child_of_def)
  then have "\<forall>n \<in> fst ` set ?g. is_nt (fst n) \<and> (n, ?root) \<in> (child_of ?g)\<^sup>*"
    by (simp add: k) (simp add: two_by_two_def)
  moreover have "a = b" if "a \<in> kids ?g n" "b \<in> kids ?g n'" "equiv (node_less (\<lambda>_. 0)) a b" for n n' a b
    using that by (auto simp: k equiv_def node_less_def pnode_less_def pair_less_def lit_less_def split: if_splits)
  ultimately show ?thesis unfolding inlinable_def two_graph_def
    by (simp add: find_packs_def) (simp add: two_by_two_def)
qed

theorem inlining_keeps_words_witness:
  "\<exists>change g'. replace_nodes (\<lambda>_. 0) two_graph [(Nt 1, 1, 2), (Nt 2, 0, 2)] = Some (change, two_graph\<lparr>gr_g := g'\<rparr>) \<and>
    yields g' (Nt 0, 0, 2) [(Null, 0, 0), (Tm 7, 0, 1), (Tm 7, 1, 2)]"
proof -
  have "yields two_by_two (Nt 0, 0, 2) [(Null, 0, 0), (Tm 7, 0, 1), (Tm 7, 1, 2)]"
  proof (rule yields_node[of "[(Nt 1, 0, 1), (Nt 1, 1, 2)]"])
    have leaf: "yields two_by_two n [n]" if "\<not> is_nt (fst n)" for n
      using that by (intro yields_leaf) (simp add: packs_under_def)
    have "yields two_by_two (Nt 1, 0, 1) ([(Null, 0, 0)] @ [(Tm 7, 0, 1)] @ [])"
      by (intro yields_node[of "[(Null, 0, 0), (Tm 7, 0, 1)]"] yields_Cons yields_Nil leaf) (simp_all add: two_by_two_under)
    moreover have "yields two_by_two (Nt 1, 1, 2) ([(Tm 7, 1, 2)] @ [])"
      by (intro yields_node[of "[(Tm 7, 1, 2)]"] yields_Cons yields_Nil leaf) (simp_all add: two_by_two_under)
    ultimately show "yields_all two_by_two [(Nt 1, 0, 1), (Nt 1, 1, 2)] [(Null, 0, 0), (Tm 7, 0, 1), (Tm 7, 1, 2)]"
      using yields_Cons[OF _ yields_Cons[OF _ yields_Nil]] by fastforce
  qed (simp add: two_by_two_under)
  moreover have "card (fst ` set (gr_g two_graph)) < 5" by (simp add: two_graph_def two_by_two_def)
  moreover have "detect_cycle 5 (gr_g two_graph) (gr_root two_graph) = Some (True, {})"
    using two_by_two_acyclic by (simp add: two_graph_def)
  ultimately show ?thesis using inlining_keeps_words[OF _ _ two_graph_inlinable] by (fastforce simp: two_graph_def)
qed

section \<open>Where replacement goes wrong\<close>

text \<open>\<open>replace_node\<close> is to replace a node everywhere, but it erases a changed pack from the set it
  iterates over, inserts the new one and goes on behind the new one. When the new pack is greater, the
  packs between the two are not visited: here \<open>(Nt 1, 0, 1)\<close> is replaced in the first pack only.\<close>

theorem replace_node_skips:
  "replace_node (\<lambda>_. 0)
     \<lparr>gr_g = [((Nt 0, 0, 2), [[(Nt 1, 0, 1), (Tm (7 :: nat), 1, 2)], [(Nt 1, 0, 1), (Tm 8, 1, 2)]])],
      gr_root = (Nt 0, 0, 2), gr_cycles = {}\<rparr> (Nt 1, 0, 1) [(Nt 2, 0, 1)] =
   Some (True,
     \<lparr>gr_g = [((Nt 0, 0, 2), [[(Nt 1, 0, 1), (Tm 8, 1, 2)], [(Nt 2, 0, 1), (Tm 7, 1, 2)]])],
      gr_root = (Nt 0, 0, 2), gr_cycles = {}\<rparr>)"
  by code_simp

text \<open>Without the hypothesis on cycles inlining loses the graph: of two nodes that derive each other,
  one is kept in the pack of the root, since it is open on the stack, and both are erased.\<close>

theorem cyclic_inlining_dangles:
  "replace_nodes (\<lambda>_. 0)
     \<lparr>gr_g = [((Nt 0, 0, 1), [[(Nt 1, 0, 1)]]), ((Nt 1, 0, 1), [[(Nt 2, 0, 1)]]),
              ((Nt 2, 0, 1), [[(Nt 1, 0, 1)], [(Tm (7 :: nat), 0, 1)]])],
      gr_root = (Nt 0, 0, 1), gr_cycles = {}\<rparr> [(Nt 1, 0, 1), (Nt 2, 0, 1)] =
   Some (True, \<lparr>gr_g = [((Nt 0, 0, 1), [[(Nt 1, 0, 1)]])], gr_root = (Nt 0, 0, 1), gr_cycles = {}\<rparr>)"
  by code_simp

end
