(* ===== verification/Hashing.thy ===== *)
theory Hashing
  imports Prelude
begin

text \<open>
  The hashes of \<open>src/src/utility/hashing.h\<close>, in 64-bit words on every platform: the string hash
  (MurmurHash64A with a fixed seed), the combination of hashes and the hash of a sequence.
\<close>

unbundle bit_operations_syntax

type_synonym u64 = "64 word"

definition grcprime :: u64 where
  "grcprime = 0x9e3779b97f4a7c15"

section \<open>The string hash\<close>

definition murmur_m :: u64 where
  "murmur_m = 0xc6a4a7935bd1e995"

definition murmur_seed :: u64 where
  "murmur_seed = 0xc70f6907"

text \<open>\<open>k |= byte(i + b) << (8 * b)\<close> for the bytes of a block, from the first.\<close>

definition le_block :: "u8 list \<Rightarrow> u64" where
  "le_block bs = fold (\<lambda>(b, x) k. k OR push_bit (8 * b) (ucast x)) (enumerate 0 bs) 0"

definition mix_block :: "u64 \<Rightarrow> u64 \<Rightarrow> u64" where
  "mix_block h k =
     (let k = k * murmur_m; k = k XOR drop_bit 47 k; k = k * murmur_m
      in (h XOR k) * murmur_m)"

fun mix_blocks :: "u64 \<Rightarrow> u8 list \<Rightarrow> u64 \<times> u8 list" where
  "mix_blocks h bs = (if length bs < 8 then (h, bs) else mix_blocks (mix_block h (le_block (take 8 bs))) (drop 8 bs))"

declare mix_blocks.simps [simp del]

text \<open>The bytes that are left are mixed into the state one by one.\<close>

definition mix_tail :: "u64 \<Rightarrow> u8 list \<Rightarrow> u64" where
  "mix_tail h bs =
     (if bs = [] then h else fold (\<lambda>(b, x) h. h XOR push_bit (8 * b) (ucast x)) (enumerate 0 bs) h * murmur_m)"

definition portable_string_hash :: "u8 list \<Rightarrow> u64" where
  "portable_string_hash s =
     (case mix_blocks (murmur_seed XOR (of_nat (length s) * murmur_m)) s of
        (h, rest) \<Rightarrow>
          (let h = mix_tail h rest; h = h XOR drop_bit 47 h; h = h * murmur_m
           in h XOR drop_bit 47 h))"

section \<open>Combination\<close>

text \<open>\<open>hash_combine\<close> with the hash of the value.\<close>

definition hash_combine :: "u64 \<Rightarrow> u64 \<Rightarrow> u64" where
  "hash_combine seed v = seed XOR (v + grcprime + push_bit 12 seed + drop_bit 4 seed)"

definition hash_combines :: "u64 \<Rightarrow> u64 list \<Rightarrow> u64" where
  "hash_combines seed vs = fold (\<lambda>v seed. hash_combine seed v) vs seed"

definition hash_pair :: "u64 \<Rightarrow> u64 \<Rightarrow> u64" where
  "hash_pair a b = hash_combines 0 [a, b]"

definition hash_seq :: "u64 list \<Rightarrow> u64" where
  "hash_seq vs = hash_combines (of_nat (length vs)) vs"

definition hash_int :: "int \<Rightarrow> u64" where
  "hash_int i = of_int i"

text \<open>For a fixed seed nothing is lost: the combined hash determines the hash of the value.\<close>

lemma xor_twice: "(x :: 'a::len word) XOR (x XOR y) = y"
  by (simp flip: xor.assoc)

lemma xor_cancel: "(x :: 'a::len word) XOR y = x XOR z \<longleftrightarrow> y = z"
proof
  assume "x XOR y = x XOR z"
  then have "x XOR (x XOR y) = x XOR (x XOR z)" by (rule arg_cong)
  then show "y = z" unfolding xor_twice .
qed simp

lemma hash_combine_inj: "hash_combine seed v = hash_combine seed w \<longleftrightarrow> v = w"
  unfolding hash_combine_def xor_cancel by simp

end
