(* ===== verification/TreeStore.thy ===== *)
theory TreeStore
  imports Hashing
begin

text \<open>
  The store of binary tree nodes in \<open>src/src/utility/tree.h\<close> and \<open>tree.tmpl.h\<close>: \<open>bintree<T>::get\<close>
  interns a node, so that a reference stands for the tree below it. \<open>M()\<close> is the list of its entries,
  the newest first; a reference is an address, \<open>None\<close> is \<open>nullptr\<close>. The allocator gives the address
  of a new entry, and the hash and the order of the values are those of the value type.
\<close>

section \<open>The store\<close>

type_synonym tref = "nat option"

record 'v bnode =
  n_value :: 'v
  n_l :: tref
  n_r :: tref
  n_hash :: u64

type_synonym 'v nodes = "(nat \<times> 'v bnode) list"

text \<open>The live handles are those whose weak pointer in \<open>M()\<close> has not expired. \<open>gc_pause_depth\<close> counts
  the pauses of the collector.\<close>

record 'v store =
  st_M :: "'v nodes"
  st_handles :: "nat set"
  st_pause :: int

definition empty_store :: "'v store" where
  "empty_store = \<lparr>st_M = [], st_handles = {}, st_pause = 0\<rparr>"

text \<open>\<open>bintree::get(ref)\<close> dereferences an address.\<close>

definition node_at :: "'v nodes \<Rightarrow> nat \<Rightarrow> 'v bnode" where
  "node_at M a = the (map_of M a)"

definition ref_hash :: "'v nodes \<Rightarrow> tref \<Rightarrow> u64" where
  "ref_hash M t = (case t of None \<Rightarrow> 0 | Some a \<Rightarrow> n_hash (node_at M a))"

definition hashit :: "('v \<Rightarrow> u64) \<Rightarrow> 'v nodes \<Rightarrow> 'v \<Rightarrow> tref \<Rightarrow> tref \<Rightarrow> u64" where
  "hashit vh M v l r = hash_combines 0 [vh v, ref_hash M l, ref_hash M r]"

definition same_node :: "'v \<Rightarrow> tref \<Rightarrow> tref \<Rightarrow> 'v bnode \<Rightarrow> bool" where
  "same_node v l r n \<longleftrightarrow> n_value n = v \<and> n_l n = l \<and> n_r n = r"

type_synonym alloc = "nat set \<Rightarrow> nat"

text \<open>\<open>bintree::get(v, l, r)\<close>.\<close>

definition get_node :: "alloc \<Rightarrow> ('v \<Rightarrow> u64) \<Rightarrow> 'v \<Rightarrow> tref \<Rightarrow> tref \<Rightarrow> 'v store \<Rightarrow> nat \<times> 'v store" where
  "get_node al vh v l r s =
     (case find (\<lambda>(a, n). same_node v l r n) (st_M s) of
        Some (a, n) \<Rightarrow> (a, s)
      | None \<Rightarrow>
          (let a = al (fst ` set (st_M s));
               n = \<lparr>n_value = v, n_l = l, n_r = r, n_hash = hashit vh (st_M s) v l r\<rparr>
           in (a, s\<lparr>st_M := (a, n) # st_M s\<rparr>)))"

definition replace_value :: "alloc \<Rightarrow> ('v \<Rightarrow> u64) \<Rightarrow> nat \<Rightarrow> 'v \<Rightarrow> 'v store \<Rightarrow> nat \<times> 'v store" where
  "replace_value al vh a v s = get_node al vh v (n_l (node_at (st_M s) a)) (n_r (node_at (st_M s) a)) s"

text \<open>\<open>geth\<close>: the handle of an entry, which keeps it from being collected. A reference that is not in
  the store gives the null handle.\<close>

definition geth :: "tref \<Rightarrow> 'v store \<Rightarrow> tref \<times> 'v store" where
  "geth t s =
     (case t of
        None \<Rightarrow> (None, s)
      | Some a \<Rightarrow>
          if map_of (st_M s) a = None then (None, s)
          else (Some a, s\<lparr>st_handles := insert a (st_handles s)\<rparr>))"

definition drop_handle :: "nat \<Rightarrow> 'v store \<Rightarrow> 'v store" where
  "drop_handle a s = s\<lparr>st_handles := st_handles s - {a}\<rparr>"

text \<open>\<open>operator<\<close> of the nodes. The recursion goes to the left children or, when they are the same
  reference, to the right ones.\<close>

partial_function (option) node_less ::
  "'v::linorder nodes \<Rightarrow> nat \<Rightarrow> nat \<Rightarrow> bool option" where
  [code]: "node_less M a b =
     (let x = node_at M a; y = node_at M b in
      if n_hash x \<noteq> n_hash y then Some (n_hash x < n_hash y)
      else if n_value x \<noteq> n_value y then Some (n_value x < n_value y)
      else if n_l x = n_l y then
        (if n_r x = n_r y \<or> n_r y = None then Some False
         else if n_r x = None then Some True
         else node_less M (the (n_r x)) (the (n_r y)))
      else if n_l x = None then Some True
      else if n_l y = None then Some False
      else node_less M (the (n_l x)) (the (n_l y)))"

definition node_eq :: "'v nodes \<Rightarrow> nat \<Rightarrow> nat \<Rightarrow> bool" where
  "node_eq M a b \<longleftrightarrow> same_node (n_value (node_at M a)) (n_l (node_at M a)) (n_r (node_at M a)) (node_at M b)"

section \<open>The trees\<close>

text \<open>What a reference stands for. The children of an entry are older than the entry.\<close>

datatype 'v bt = Nil | Bt (bt_value: 'v) (bt_l: "'v bt") (bt_r: "'v bt")

fun den :: "'v nodes \<Rightarrow> tref \<Rightarrow> 'v bt" where
  "den M None = Nil"
| "den [] (Some a) = Nil"
| "den ((b, n) # M) (Some a) =
     (if a = b then Bt (n_value n) (den M (n_l n)) (den M (n_r n)) else den M (Some a))"

definition refs :: "'v nodes \<Rightarrow> tref set" where
  "refs M = insert None (Some ` fst ` set M)"

fun wf_nodes :: "('v \<Rightarrow> u64) \<Rightarrow> 'v nodes \<Rightarrow> bool" where
  "wf_nodes vh [] \<longleftrightarrow> True"
| "wf_nodes vh ((a, n) # M) \<longleftrightarrow>
     a \<notin> fst ` set M \<and> n_l n \<in> refs M \<and> n_r n \<in> refs M \<and>
     \<not> list_ex (\<lambda>(b, m). same_node (n_value n) (n_l n) (n_r n) m) M \<and>
     n_hash n = hashit vh M (n_value n) (n_l n) (n_r n) \<and> wf_nodes vh M"

definition wf_store :: "('v \<Rightarrow> u64) \<Rightarrow> 'v store \<Rightarrow> bool" where
  "wf_store vh s \<longleftrightarrow> wf_nodes vh (st_M s) \<and> st_handles s \<subseteq> fst ` set (st_M s)"

text \<open>The hash and the order of a tree.\<close>

fun bt_hash :: "('v \<Rightarrow> u64) \<Rightarrow> 'v bt \<Rightarrow> u64" where
  "bt_hash vh Nil = 0"
| "bt_hash vh (Bt v l r) = hash_combines 0 [vh v, bt_hash vh l, bt_hash vh r]"

fun bt_less :: "('v::linorder \<Rightarrow> u64) \<Rightarrow> 'v bt \<Rightarrow> 'v bt \<Rightarrow> bool" where
  "bt_less vh x Nil = False"
| "bt_less vh Nil (Bt v l r) = True"
| "bt_less vh (Bt v l r) (Bt w l' r') =
     (let h = bt_hash vh (Bt v l r); h' = bt_hash vh (Bt w l' r') in
      if h \<noteq> h' then h < h' else if v \<noteq> w then v < w
      else if l \<noteq> l' then bt_less vh l l' else bt_less vh r r')"

section \<open>A reference is the tree below it\<close>

lemma refs_Cons: "refs ((a, n) # M) = insert (Some a) (refs M)"
  by (auto simp: refs_def)

lemma refs_None [simp]: "None \<in> refs M"
  by (simp add: refs_def)

lemma refs_Some: "Some a \<in> refs M \<longleftrightarrow> a \<in> fst ` set M"
  by (auto simp: refs_def)

lemma den_None [simp]: "den M None = Nil"
  by (cases M) auto

lemma den_Cons: "t \<in> refs M \<Longrightarrow> a \<notin> fst ` set M \<Longrightarrow> den ((a, n) # M) t = den M t"
  by (cases t) (auto simp: refs_Some)

lemma den_Some:
  assumes "wf_nodes vh M" "map_of M a = Some n"
  shows "n_l n \<in> refs M \<and> n_r n \<in> refs M \<and> den M (Some a) = Bt (n_value n) (den M (n_l n)) (den M (n_r n))"
  using assms
proof (induction M)
  case (Cons e M)
  obtain b m where e: "e = (b, m)" by fastforce
  show ?case
  proof (cases "a = b")
    case True
    then show ?thesis using Cons.prems e by (auto simp: refs_Cons den_Cons)
  next
    case False
    then have "n_l n \<in> refs M \<and> n_r n \<in> refs M \<and> den M (Some a) = Bt (n_value n) (den M (n_l n)) (den M (n_r n))"
      using Cons e by simp
    then show ?thesis using Cons.prems False e by (auto simp: refs_Cons den_Cons)
  qed
qed simp

lemma den_node_at:
  assumes "wf_nodes vh M" "Some a \<in> refs M"
  shows "den M (Some a) = Bt (n_value (node_at M a)) (den M (n_l (node_at M a))) (den M (n_r (node_at M a)))"
    "n_l (node_at M a) \<in> refs M" "n_r (node_at M a) \<in> refs M"
proof -
  obtain n where "map_of M a = Some n" using assms(2) by (metis map_of_eq_None_iff not_None_eq refs_Some)
  then show "den M (Some a) = Bt (n_value (node_at M a)) (den M (n_l (node_at M a))) (den M (n_r (node_at M a)))"
    "n_l (node_at M a) \<in> refs M" "n_r (node_at M a) \<in> refs M"
    using den_Some[OF assms(1)] by (simp_all add: node_at_def)
qed

lemma den_Nil: "wf_nodes vh M \<Longrightarrow> t \<in> refs M \<Longrightarrow> den M t = Nil \<longleftrightarrow> t = None"
  using den_node_at(1)[of vh M "the t"] by (cases t) auto

lemma den_inj:
  "wf_nodes vh M \<Longrightarrow> s \<in> refs M \<Longrightarrow> t \<in> refs M \<Longrightarrow> den M s = den M t \<longleftrightarrow> s = t"
proof (induction M arbitrary: s t)
  case Nil
  then show ?case by (simp add: refs_def)
next
  case (Cons e M)
  obtain a n where e: "e = (a, n)" by fastforce
  have w: "wf_nodes vh M" "a \<notin> fst ` set M" "n_l n \<in> refs M" "n_r n \<in> refs M"
    "\<not> list_ex (\<lambda>(b, m). same_node (n_value n) (n_l n) (n_r n) m) M" using Cons.prems(1) e by auto
  have new: "den M t \<noteq> Bt (n_value n) (den M (n_l n)) (den M (n_r n))" if t: "t \<in> refs M" for t
  proof
    assume d: "den M t = Bt (n_value n) (den M (n_l n)) (den M (n_r n))"
    then obtain b where b: "t = Some b" by (cases t) auto
    then obtain m where m: "map_of M b = Some m" using t by (metis map_of_eq_None_iff not_None_eq refs_Some)
    have "same_node (n_value n) (n_l n) (n_r n) m"
      using den_Some[OF w(1) m] d b Cons.IH[OF w(1)] w(3,4) by (auto simp: same_node_def)
    then show False using w(5) map_of_SomeD[OF m] by (auto simp: list_ex_iff)
  qed
  show ?case
  proof (cases "s = Some a"; cases "t = Some a")
    assume "s \<noteq> Some a" "t \<noteq> Some a"
    then show ?thesis using Cons.IH[OF w(1), of s t] Cons.prems(2,3) w(2) e by (auto simp: refs_Cons den_Cons)
  next
    assume "s = Some a" "t \<noteq> Some a"
    then show ?thesis using new[of t] Cons.prems(3) w(2) e by (auto simp: refs_Cons den_Cons)
  next
    assume "s \<noteq> Some a" "t = Some a"
    then show ?thesis using new[of s] Cons.prems(2) w(2) e by (auto simp: refs_Cons den_Cons)
  qed simp
qed

lemma node_at_Cons: "a \<notin> fst ` set M \<Longrightarrow> b \<in> fst ` set M \<Longrightarrow> node_at ((a, n) # M) b = node_at M b"
  by (auto simp: node_at_def)

lemma ref_hash_Cons: "t \<in> refs M \<Longrightarrow> a \<notin> fst ` set M \<Longrightarrow> ref_hash ((a, n) # M) t = ref_hash M t"
  by (cases t) (auto simp: ref_hash_def refs_Some node_at_Cons)

lemma ref_hash_den: "wf_nodes vh M \<Longrightarrow> t \<in> refs M \<Longrightarrow> ref_hash M t = bt_hash vh (den M t)"
proof (induction M arbitrary: t)
  case Nil
  then show ?case by (simp add: refs_def ref_hash_def)
next
  case (Cons e M)
  obtain a n where e: "e = (a, n)" by fastforce
  show ?case
  proof (cases "t = Some a")
    case True
    then show ?thesis using Cons e by (simp add: ref_hash_def node_at_def hashit_def)
  next
    case False
    then show ?thesis using Cons e by (auto simp: refs_Cons den_Cons ref_hash_Cons)
  qed
qed

section \<open>Interning\<close>

text \<open>The allocator gives an address that is not in use.\<close>

definition fresh :: "alloc \<Rightarrow> bool" where
  "fresh al \<longleftrightarrow> (\<forall>A. finite A \<longrightarrow> al A \<notin> A)"

lemma wf_distinct: "wf_nodes vh M \<Longrightarrow> distinct (map fst M)"
  by (induction vh M rule: wf_nodes.induct) auto

lemma get_node_ok:
  assumes al: "fresh al" and w: "wf_store vh s" and l: "l \<in> refs (st_M s)" and r: "r \<in> refs (st_M s)"
    and g: "get_node al vh v l r s = (a, s')"
  shows "wf_store vh s'" "Some a \<in> refs (st_M s')" "refs (st_M s) \<subseteq> refs (st_M s')"
    "\<And>t. t \<in> refs (st_M s) \<Longrightarrow> den (st_M s') t = den (st_M s) t"
    "den (st_M s') (Some a) = Bt v (den (st_M s) l) (den (st_M s) r)"
    "st_handles s' = st_handles s" "st_pause s' = st_pause s"
proof -
  let ?M = "st_M s" and ?f = "find (\<lambda>(a, n). same_node v l r n) (st_M s)"
  have wM: "wf_nodes vh ?M" using w by (simp add: wf_store_def)
  have "wf_store vh s' \<and> Some a \<in> refs (st_M s') \<and> refs ?M \<subseteq> refs (st_M s') \<and>
      (\<forall>t \<in> refs ?M. den (st_M s') t = den ?M t) \<and> den (st_M s') (Some a) = Bt v (den ?M l) (den ?M r) \<and>
      st_handles s' = st_handles s \<and> st_pause s' = st_pause s"
  proof (cases ?f)
    case None
    let ?a = "al (fst ` set ?M)" and ?n = "\<lparr>n_value = v, n_l = l, n_r = r, n_hash = hashit vh ?M v l r\<rparr>"
    have s': "a = ?a" "st_M s' = (?a, ?n) # ?M" "st_handles s' = st_handles s" "st_pause s' = st_pause s"
      using g None by (auto simp: get_node_def Let_def)
    have f: "?a \<notin> fst ` set ?M" using al unfolding fresh_def by (metis List.finite_set finite_imageI)
    have "wf_nodes vh (st_M s')"
      using s'(2) f l r wM None by (auto simp: find_None_iff list_ex_iff)
    moreover have "den (st_M s') (Some ?a) = Bt v (den ?M l) (den ?M r)" using s'(2) by simp
    ultimately show ?thesis using s' w f by (auto simp: wf_store_def refs_Cons den_Cons)
  next
    case (Some e)
    obtain b n where e: "e = (b, n)" by fastforce
    have s': "s' = s" "a = b" using g Some e by (auto simp: get_node_def)
    have n: "same_node v l r n" "(b, n) \<in> set ?M" using Some e by (auto simp: find_Some_iff in_set_conv_nth)
    have "map_of ?M b = Some n" using n(2) wf_distinct[OF wM] by simp
    then show ?thesis using den_Some[OF wM] n s' w by (auto simp: same_node_def refs_Some intro: image_eqI[OF _ n(2)])
  qed
  then show "wf_store vh s'" "Some a \<in> refs (st_M s')" "refs ?M \<subseteq> refs (st_M s')"
    "\<And>t. t \<in> refs ?M \<Longrightarrow> den (st_M s') t = den ?M t" "den (st_M s') (Some a) = Bt v (den ?M l) (den ?M r)"
    "st_handles s' = st_handles s" "st_pause s' = st_pause s" by auto
qed

section \<open>The order of the nodes\<close>

lemma bt_less_irrefl: "\<not> bt_less vh x x"
  by (induction x) (auto simp: Let_def)

lemma bt_less_total: "x \<noteq> y \<Longrightarrow> bt_less vh x y \<or> bt_less vh y x"
proof (induction x arbitrary: y)
  case Nil
  then show ?case by (cases y) auto
next
  case (Bt v l r)
  then show ?case by (cases y) (auto simp: Let_def)
qed

lemma bt_less_trans: "bt_less vh x y \<Longrightarrow> bt_less vh y z \<Longrightarrow> bt_less vh x z"
proof (induction x arbitrary: y z)
  case Nil
  then show ?case by (cases y; cases z) auto
next
  case (Bt v l r)
  then obtain w l' r' u l'' r'' where yz: "y = Bt w l' r'" "z = Bt u l'' r''" by (cases y; cases z) auto
  have asym: "\<not> bt_less vh b a" if "bt_less vh a b" "\<And>c. bt_less vh a b \<Longrightarrow> bt_less vh b c \<Longrightarrow> bt_less vh a c" for a b :: "'a bt"
    using that bt_less_irrefl by blast
  show ?case
    using Bt.prems Bt.IH(1)[of l' l''] Bt.IH(2)[of r' r''] bt_less_irrefl[of vh] Bt.IH(1)[of l' l] Bt.IH(2)[of r' r]
    unfolding yz by (auto simp del: bt_hash.simps simp: Let_def split: if_splits)
qed

text \<open>\<open>operator<\<close> compares the trees and no addresses.\<close>

lemma node_less_den:
  assumes w: "wf_nodes vh M"
  shows "Some a \<in> refs M \<Longrightarrow> Some b \<in> refs M \<Longrightarrow> node_less M a b = Some (bt_less vh (den M (Some a)) (den M (Some b)))"
proof (induction "size (den M (Some a))" arbitrary: a b rule: less_induct)
  case less
  let ?x = "node_at M a" and ?y = "node_at M b"
  note x = den_node_at[OF w less.prems(1)] and y = den_node_at[OF w less.prems(2)]
  have h: "n_hash (node_at M c) = bt_hash vh (den M (Some c))" if "Some c \<in> refs M" for c
    using ref_hash_den[OF w that] by (simp add: ref_hash_def)
  have eq: "s = t \<longleftrightarrow> den M s = den M t" if "s \<in> refs M" "t \<in> refs M" for s t using den_inj[OF w that] by simp
  have IH: "node_less M (the s) (the t) = Some (bt_less vh (den M s) (den M t))"
    if "s \<in> refs M" "t \<in> refs M" "s \<noteq> None" "t \<noteq> None" "size (den M s) < size (den M (Some a))" for s t
    using less.hyps[of "the s" "the t"] that by auto
  have sz: "size (den M (n_l ?x)) < size (den M (Some a))" "size (den M (n_r ?x)) < size (den M (Some a))"
    unfolding x(1) by simp_all
  have nil: "bt_less vh Nil (den M t)" if "t \<noteq> None" "t \<in> refs M" for t
    using den_Nil[OF w that(2)] that(1) by (cases "den M t") auto
  have "bt_less vh (den M (Some a)) (den M (Some b)) =
      (if n_hash ?x \<noteq> n_hash ?y then n_hash ?x < n_hash ?y
       else if n_value ?x \<noteq> n_value ?y then n_value ?x < n_value ?y
       else if n_l ?x \<noteq> n_l ?y then bt_less vh (den M (n_l ?x)) (den M (n_l ?y))
       else bt_less vh (den M (n_r ?x)) (den M (n_r ?y)))"
    unfolding h[OF less.prems(1)] h[OF less.prems(2)] eq[OF x(2) y(2)] unfolding x(1) y(1) by (simp add: Let_def)
  then show ?case
    unfolding node_less.simps[of M a b] Let_def
    using IH[OF x(2) y(2)] IH[OF x(3) y(3)] sz nil x(2,3) y(2,3)
    by (auto simp: bt_less_irrefl)
qed

end
