(* ===== verification/LcrsTree.thy ===== *)
theory LcrsTree
  imports TreeStore
begin

text \<open>
  Left-child right-sibling trees over the store, \<open>lcrs_tree\<close> of \<open>src/src/utility/tree.h\<close> and
  \<open>tree.tmpl.h\<close>: creation with children, hooks, siblings and children added and removed, access to the
  children, the comparisons of subtrees, which leave out the right sibling. A tree of the store is
  read as a list of siblings; the operations are operations on such lists.
\<close>

section \<open>Creation\<close>

text \<open>The loop of \<open>get_raw\<close> from the last child to the first: each child is copied with its right
  sibling.\<close>

fun link_children :: "alloc \<Rightarrow> ('v \<Rightarrow> u64) \<Rightarrow> nat list \<Rightarrow> 'v store \<Rightarrow> tref \<times> 'v store" where
  "link_children al vh [] s = (None, s)"
| "link_children al vh (c # cs) s =
     (case link_children al vh cs s of
        (pr, s) \<Rightarrow>
          (case get_node al vh (n_value (node_at (st_M s) c)) (n_l (node_at (st_M s) c)) pr s of
             (a, s) \<Rightarrow> (Some a, s)))"

definition get_raw :: "alloc \<Rightarrow> ('v \<Rightarrow> u64) \<Rightarrow> 'v \<Rightarrow> nat list \<Rightarrow> tref \<Rightarrow> 'v store \<Rightarrow> nat \<times> 'v store" where
  "get_raw al vh v ch r s = (case link_children al vh ch s of (pr, s) \<Rightarrow> get_node al vh v pr r s)"

type_synonym 'v hook = "'v \<Rightarrow> nat list \<Rightarrow> tref \<Rightarrow> 'v store \<Rightarrow> tref \<times> 'v store"

record 'v hooks =
  use_hooks :: bool
  hook :: "'v hook option"

definition set_hook :: "'v hook \<Rightarrow> 'v hooks \<Rightarrow> 'v hooks" where
  "set_hook f hk = hk\<lparr>hook := Some f\<rparr>"

definition reset_hook :: "'v hooks \<Rightarrow> 'v hooks" where
  "reset_hook hk = hk\<lparr>hook := None\<rparr>"

definition is_hooked :: "'v hooks \<Rightarrow> bool" where
  "is_hooked hk \<longleftrightarrow> hook hk \<noteq> None"

definition tree_get :: "alloc \<Rightarrow> ('v \<Rightarrow> u64) \<Rightarrow> 'v hooks \<Rightarrow> 'v \<Rightarrow> nat list \<Rightarrow> tref \<Rightarrow> 'v store \<Rightarrow> tref \<times> 'v store" where
  "tree_get al vh hk v ch r s =
     (if \<not> use_hooks hk \<or> hook hk = None then (case get_raw al vh v ch r s of (a, s) \<Rightarrow> (Some a, s))
      else the (hook hk) v ch r s)"

text \<open>\<open>get(n, r)\<close> and \<open>trim_right_sibling\<close>.\<close>

definition with_sibling :: "alloc \<Rightarrow> ('v \<Rightarrow> u64) \<Rightarrow> nat \<Rightarrow> tref \<Rightarrow> 'v store \<Rightarrow> nat \<times> 'v store" where
  "with_sibling al vh n r s =
     (let t = node_at (st_M s) n in if n_r t = r then (n, s) else get_node al vh (n_value t) (n_l t) r s)"

definition trim_right_sibling :: "alloc \<Rightarrow> ('v \<Rightarrow> u64) \<Rightarrow> nat \<Rightarrow> 'v store \<Rightarrow> nat \<times> 'v store" where
  "trim_right_sibling al vh n s =
     get_node al vh (n_value (node_at (st_M s) n)) (n_l (node_at (st_M s) n)) None s"

section \<open>Siblings and children\<close>

partial_function (option) add_sibling ::
  "alloc \<Rightarrow> ('v \<Rightarrow> u64) \<Rightarrow> nat \<Rightarrow> nat \<Rightarrow> int \<Rightarrow> 'v store \<Rightarrow> (nat \<times> 'v store) option" where
  [code]: "add_sibling al vh n x pos s =
     (let t = node_at (st_M s) n in
      if pos < 0 then
        (if n_r t = None then Some (get_node al vh (n_value t) (n_l t) (Some x) s)
         else Option.bind (add_sibling al vh (the (n_r t)) x (-1) s)
                (\<lambda>(ns, s). Some (get_node al vh (n_value t) (n_l t) (Some ns) s)))
      else if pos = 0 then
        (if n_r t \<noteq> None then
           (case get_node al vh (n_value (node_at (st_M s) x)) (n_l (node_at (st_M s) x)) (n_r t) s of
              (ns, s) \<Rightarrow> Some (get_node al vh (n_value t) (n_l t) (Some ns) s))
         else Some (get_node al vh (n_value t) (n_l t) (Some x) s))
      else if n_r t \<noteq> None then
        Option.bind (add_sibling al vh (the (n_r t)) x (pos - 1) s)
          (\<lambda>(ns, s). Some (get_node al vh (n_value t) (n_l t) (Some ns) s))
      else Some (get_node al vh (n_value t) (n_l t) (Some x) s))"

definition add_child ::
  "alloc \<Rightarrow> ('v \<Rightarrow> u64) \<Rightarrow> nat \<Rightarrow> nat \<Rightarrow> int \<Rightarrow> 'v store \<Rightarrow> (nat \<times> 'v store) option" where
  "add_child al vh n c pos s =
     (let t = node_at (st_M s) n in
      case n_l t of
        None \<Rightarrow> Some (get_node al vh (n_value t) (Some c) (n_r t) s)
      | Some l \<Rightarrow>
          Option.bind (add_sibling al vh l c pos s)
            (\<lambda>(nc, s). Some (get_node al vh (n_value t) (Some nc) (n_r t) s)))"

partial_function (option) remove_sibling ::
  "alloc \<Rightarrow> ('v \<Rightarrow> u64) \<Rightarrow> nat \<Rightarrow> int \<Rightarrow> 'v store \<Rightarrow> (tref \<times> 'v store) option" where
  [code]: "remove_sibling al vh n pos s =
     (let t = node_at (st_M s) n;
          keep = (\<lambda>(ns, s). case get_node al vh (n_value t) (n_l t) ns s of (a, s) \<Rightarrow> Some (Some a, s)) in
      if pos < 0 then
        (if n_r t = None then Some (None, s) else Option.bind (remove_sibling al vh (the (n_r t)) (-1) s) keep)
      else if pos = 0 then
        (if n_r t \<noteq> None then
           (let u = node_at (st_M s) (the (n_r t)) in
            case get_node al vh (n_value u) (n_l u) (n_r u) s of (a, s) \<Rightarrow> Some (Some a, s))
         else Some (None, s))
      else if n_r t \<noteq> None then Option.bind (remove_sibling al vh (the (n_r t)) (pos - 1) s) keep
      else Some (Some n, s))"

definition remove_child ::
  "alloc \<Rightarrow> ('v \<Rightarrow> u64) \<Rightarrow> nat \<Rightarrow> int \<Rightarrow> 'v store \<Rightarrow> (nat \<times> 'v store) option" where
  "remove_child al vh n pos s =
     (let t = node_at (st_M s) n in
      case n_l t of
        None \<Rightarrow> Some (n, s)
      | Some l \<Rightarrow>
          Option.bind (remove_sibling al vh l pos s)
            (\<lambda>(nc, s). Some (get_node al vh (n_value t) nc (n_r t) s)))"

text \<open>The range from a reference along the right siblings.\<close>

partial_function (option) tref_range :: "'v nodes \<Rightarrow> tref \<Rightarrow> nat list option" where
  [code]: "tref_range M t =
     (case t of None \<Rightarrow> Some []
      | Some a \<Rightarrow> Option.bind (tref_range M (n_r (node_at M a))) (\<lambda>as. Some (a # as)))"

definition children :: "'v nodes \<Rightarrow> nat \<Rightarrow> nat list option" where
  "children M n = tref_range M (n_l (node_at M n))"

definition children_size :: "'v nodes \<Rightarrow> nat \<Rightarrow> nat option" where
  "children_size M n = map_option length (children M n)"

definition child :: "'v nodes \<Rightarrow> nat \<Rightarrow> nat \<Rightarrow> tref option" where
  "child M n i = map_option (\<lambda>cs. if i < length cs then Some (cs ! i) else None) (children M n)"

definition only_child :: "'v nodes \<Rightarrow> nat \<Rightarrow> tref option" where
  "only_child M n = map_option (\<lambda>cs. case cs of [c] \<Rightarrow> Some c | _ \<Rightarrow> None) (children M n)"

definition has_child :: "'v nodes \<Rightarrow> nat \<Rightarrow> bool" where
  "has_child M n \<longleftrightarrow> n_l (node_at M n) \<noteq> None"

definition has_right_sibling :: "'v nodes \<Rightarrow> nat \<Rightarrow> bool" where
  "has_right_sibling M n \<longleftrightarrow> n_r (node_at M n) \<noteq> None"

section \<open>Comparisons\<close>

definition subtree_equals :: "'v nodes \<Rightarrow> tref \<Rightarrow> tref \<Rightarrow> bool" where
  "subtree_equals M a b \<longleftrightarrow>
     a = b \<or> a \<noteq> None \<and> b \<noteq> None \<and> n_value (node_at M (the a)) = n_value (node_at M (the b)) \<and>
     n_l (node_at M (the a)) = n_l (node_at M (the b))"

text \<open>\<open>operator<\<close> of \<open>lcrs_tree\<close>.\<close>

definition lcrs_less :: "'v::linorder nodes \<Rightarrow> nat \<Rightarrow> nat \<Rightarrow> bool option" where
  "lcrs_less M a b =
     (let x = node_at M a; y = node_at M b in
      if n_value x \<noteq> n_value y then Some (n_value x < n_value y)
      else if n_l x = n_l y \<or> n_l y = None then Some False
      else if n_l x = None then Some True
      else node_less M (the (n_l x)) (the (n_l y)))"

definition subtree_less :: "'v::linorder nodes \<Rightarrow> tref \<Rightarrow> tref \<Rightarrow> bool option" where
  "subtree_less M a b =
     (if a = b then Some False else if a = None then Some True else if b = None then Some False
      else lcrs_less M (the a) (the b))"

definition contains_subtree :: "'v nodes \<Rightarrow> tref list \<Rightarrow> tref \<Rightarrow> bool" where
  "contains_subtree M ns x = list_ex (\<lambda>n. subtree_equals M n x) ns"

section \<open>Trees as lists of siblings\<close>

text \<open>A subtree is a value and its left tree; a tree is the list of its siblings.\<close>

fun items :: "'v bt \<Rightarrow> ('v \<times> 'v bt) list" where
  "items Nil = []"
| "items (Bt v l r) = (v, l) # items r"

fun chain :: "('v \<times> 'v bt) list \<Rightarrow> 'v bt \<Rightarrow> 'v bt" where
  "chain [] r = r"
| "chain ((v, l) # xs) r = Bt v l (chain xs r)"

definition subtree :: "'v nodes \<Rightarrow> nat \<Rightarrow> 'v \<times> 'v bt" where
  "subtree M a = (bt_value (den M (Some a)), bt_l (den M (Some a)))"

lemma chain_items [simp]: "chain (items t) Nil = t"
  by (induction t) auto

lemma items_chain [simp]: "items (chain xs r) = xs @ items r"
  by (induction xs r rule: chain.induct) auto

text \<open>A later state of the store: what was there is kept.\<close>

definition grows :: "('v \<Rightarrow> u64) \<Rightarrow> 'v store \<Rightarrow> 'v store \<Rightarrow> bool" where
  "grows vh s s' \<longleftrightarrow> wf_store vh s' \<and> refs (st_M s) \<subseteq> refs (st_M s') \<and>
     (\<forall>t \<in> refs (st_M s). den (st_M s') t = den (st_M s) t) \<and> st_handles s' = st_handles s \<and> st_pause s' = st_pause s"

lemma grown_refl: "wf_store vh s \<Longrightarrow> grows vh s s"
  by (simp add: grows_def)

lemma grown_trans: "grows vh s s' \<Longrightarrow> grows vh s' s'' \<Longrightarrow> grows vh s s''"
  unfolding grows_def by (metis subset_iff)

lemma get_node_grows:
  assumes "fresh al" "wf_store vh s" "l \<in> refs (st_M s)" "r \<in> refs (st_M s)" "get_node al vh v l r s = (a, s')"
  shows "grows vh s s' \<and> Some a \<in> refs (st_M s') \<and> den (st_M s') (Some a) = Bt v (den (st_M s) l) (den (st_M s) r)"
  using get_node_ok[OF assms] by (simp add: grows_def)

lemma grows_wf: "grows vh s s' \<Longrightarrow> wf_store vh s'"
  by (simp add: grows_def)

lemma grows_refs: "grows vh s s' \<Longrightarrow> t \<in> refs (st_M s) \<Longrightarrow> t \<in> refs (st_M s')"
  unfolding grows_def by blast

lemma grows_den: "grows vh s s' \<Longrightarrow> t \<in> refs (st_M s) \<Longrightarrow> den (st_M s') t = den (st_M s) t"
  unfolding grows_def by blast

lemma grows_pause: "grows vh s s' \<Longrightarrow> st_pause s' = st_pause s"
  by (simp add: grows_def)

lemma wf_store_nodes: "wf_store vh s \<Longrightarrow> wf_nodes vh (st_M s)"
  by (simp add: wf_store_def)

lemma subtree_node:
  assumes "wf_nodes vh M" "Some a \<in> refs M"
  shows "subtree M a = (n_value (node_at M a), den M (n_l (node_at M a)))"
  using den_node_at(1)[OF assms] by (simp add: subtree_def)

lemma subtree_grows: "grows vh s s' \<Longrightarrow> Some a \<in> refs (st_M s) \<Longrightarrow> subtree (st_M s') a = subtree (st_M s) a"
  by (simp add: subtree_def grows_den)

lemma items_node:
  assumes "wf_nodes vh M" "Some a \<in> refs M"
  shows "items (den M (Some a)) = subtree M a # items (den M (n_r (node_at M a)))"
  using den_node_at(1)[OF assms] subtree_node[OF assms] by simp

text \<open>A node is determined by its tree, so it stays the same when the store grows.\<close>

lemma node_fields:
  assumes w: "wf_nodes vh M" and a: "Some a \<in> refs M" and l: "l \<in> refs M" and r: "r \<in> refs M"
    and d: "den M (Some a) = Bt v (den M l) (den M r)"
  shows "n_value (node_at M a) = v" "n_l (node_at M a) = l" "n_r (node_at M a) = r"
  using den_node_at[OF w a] d den_inj[OF w _ l] den_inj[OF w _ r] by auto

lemma node_grows:
  assumes g: "grows vh s s'" and w: "wf_store vh s" and a: "Some a \<in> refs (st_M s)"
  shows "n_value (node_at (st_M s') a) = n_value (node_at (st_M s) a)" "n_l (node_at (st_M s') a) = n_l (node_at (st_M s) a)"
    "n_r (node_at (st_M s') a) = n_r (node_at (st_M s) a)"
proof -
  note n = den_node_at[OF wf_store_nodes[OF w] a]
  have "den (st_M s') (Some a) =
      Bt (n_value (node_at (st_M s) a)) (den (st_M s') (n_l (node_at (st_M s) a))) (den (st_M s') (n_r (node_at (st_M s) a)))"
    unfolding grows_den[OF g n(2)] grows_den[OF g n(3)] grows_den[OF g a] by (rule n(1))
  note node_fields[OF wf_store_nodes[OF grows_wf[OF g]] grows_refs[OF g a] grows_refs[OF g n(2)] grows_refs[OF g n(3)] this]
  then show "n_value (node_at (st_M s') a) = n_value (node_at (st_M s) a)" "n_l (node_at (st_M s') a) = n_l (node_at (st_M s) a)"
    "n_r (node_at (st_M s') a) = n_r (node_at (st_M s) a)" by simp_all
qed

section \<open>Creation, addition, removal\<close>

lemma link_children_ok:
  assumes al: "fresh al"
  shows "wf_store vh s \<Longrightarrow> \<forall>c \<in> set cs. Some c \<in> refs (st_M s) \<Longrightarrow> link_children al vh cs s = (pr, s') \<Longrightarrow>
    grows vh s s' \<and> pr \<in> refs (st_M s') \<and> den (st_M s') pr = chain (map (subtree (st_M s)) cs) Nil"
proof (induction cs arbitrary: pr s')
  case Nil
  then show ?case by (simp add: grown_refl)
next
  case (Cons c cs)
  obtain p s1 where 1: "link_children al vh cs s = (p, s1)" by fastforce
  let ?n = "node_at (st_M s1) c"
  obtain a s2 where 2: "get_node al vh (n_value ?n) (n_l ?n) p s1 = (a, s2)" by fastforce
  have g: "grows vh s s1" "p \<in> refs (st_M s1)" "den (st_M s1) p = chain (map (subtree (st_M s)) cs) Nil"
    using Cons.IH[OF Cons.prems(1) _ 1] Cons.prems(2) by auto
  have c: "Some c \<in> refs (st_M s1)" using grows_refs[OF g(1)] Cons.prems(2) by simp
  note w = wf_store_nodes[OF grows_wf[OF g(1)]]
  have g2: "grows vh s1 s2" "Some a \<in> refs (st_M s2)" "den (st_M s2) (Some a) = Bt (n_value ?n) (den (st_M s1) (n_l ?n)) (den (st_M s1) p)"
    using get_node_grows[OF al grows_wf[OF g(1)] den_node_at(2)[OF w c] g(2) 2] by auto
  have "subtree (st_M s) c = (n_value ?n, den (st_M s1) (n_l ?n))"
    using subtree_node[OF w c] subtree_grows[OF g(1)] Cons.prems(2) by simp
  then show ?case using Cons.prems(3) 1 2 g g2 grown_trans[OF g(1) g2(1)] by simp
qed

lemma get_raw_ok:
  assumes "fresh al" "wf_store vh s" "\<forall>c \<in> set ch. Some c \<in> refs (st_M s)" "r \<in> refs (st_M s)"
    and g: "get_raw al vh v ch r s = (a, s')"
  shows "grows vh s s' \<and> Some a \<in> refs (st_M s') \<and>
    den (st_M s') (Some a) = Bt v (chain (map (subtree (st_M s)) ch) Nil) (den (st_M s) r)"
proof -
  obtain p s1 where 1: "link_children al vh ch s = (p, s1)" by fastforce
  have l: "grows vh s s1" "p \<in> refs (st_M s1)" "den (st_M s1) p = chain (map (subtree (st_M s)) ch) Nil"
    using link_children_ok[OF assms(1-3) 1] by auto
  have 2: "get_node al vh v p r s1 = (a, s')" using g 1 by (simp add: get_raw_def)
  from get_node_grows[OF assms(1) grows_wf[OF l(1)] l(2) grows_refs[OF l(1) assms(4)] 2]
  show ?thesis using l grown_trans[OF l(1)] grows_den[OF l(1) assms(4)] by auto
qed

text \<open>The lists of siblings that \<open>add_sibling\<close> and \<open>remove_sibling\<close> give. At a position before the end
  only the subtree of the new sibling is taken, at the end its siblings come along.\<close>

definition add_at :: "'a list \<Rightarrow> 'a list \<Rightarrow> int \<Rightarrow> 'a list" where
  "add_at ys new pos =
     (if pos < 0 \<or> int (length ys) \<le> pos + 1 then ys @ new
      else take (nat pos + 1) ys @ hd new # drop (nat pos + 1) ys)"

definition remove_at :: "'a list \<Rightarrow> int \<Rightarrow> 'a list" where
  "remove_at ys pos = (if pos < 0 then butlast ys else take (nat pos) ys @ drop (nat pos + 1) ys)"

lemma add_at_neg: "pos < 0 \<Longrightarrow> add_at ys new pos = ys @ new"
  by (simp add: add_at_def)

lemma add_at_last: "add_at [y] new pos = y # new"
  by (cases "pos < 0") (simp_all add: add_at_def)

lemma add_at_0: "ys \<noteq> [] \<Longrightarrow> add_at (y # ys) new 0 = y # hd new # ys"
  by (cases ys) (simp_all add: add_at_def)

lemma add_at_pos:
  assumes "0 < pos"
  shows "add_at (y # ys) new pos = y # add_at ys new (pos - 1)"
proof -
  obtain k where "pos = int (Suc k)" using assms by (metis gr0_implies_Suc zero_less_imp_eq_int)
  moreover have "nat (1 + int k) = Suc k" by simp
  ultimately show ?thesis by (simp add: add_at_def)
qed

lemma remove_at_neg: "pos < 0 \<Longrightarrow> remove_at ys pos = butlast ys"
  by (simp add: remove_at_def)

lemma remove_at_0: "remove_at (y # ys) 0 = ys"
  by (simp add: remove_at_def)

lemma remove_at_pos:
  assumes "0 < pos"
  shows "remove_at (y # ys) pos = y # remove_at ys (pos - 1)"
proof -
  obtain k where "pos = int (Suc k)" using assms by (metis gr0_implies_Suc zero_less_imp_eq_int)
  moreover have "nat (1 + int k) = Suc k" by simp
  ultimately show ?thesis by (simp add: remove_at_def)
qed

lemma add_sibling_ok:
  assumes al: "fresh al"
  shows "wf_store vh s \<Longrightarrow> Some n \<in> refs (st_M s) \<Longrightarrow> Some x \<in> refs (st_M s) \<Longrightarrow>
    \<exists>a s'. add_sibling al vh n x pos s = Some (a, s') \<and> grows vh s s' \<and> Some a \<in> refs (st_M s') \<and>
      items (den (st_M s') (Some a)) = add_at (items (den (st_M s) (Some n))) (items (den (st_M s) (Some x))) pos"
proof (induction "size (den (st_M s) (Some n))" arbitrary: n pos rule: less_induct)
  case less
  note w = wf_store_nodes[OF less.prems(1)]
  let ?t = "node_at (st_M s) n" and ?X = "items (den (st_M s) (Some x))"
  note n = den_node_at[OF w less.prems(2)]
  have new: "\<exists>a s2. get_node al vh (n_value ?t) (n_l ?t) r s1 = (a, s2) \<and> grows vh s s2 \<and> Some a \<in> refs (st_M s2) \<and>
      items (den (st_M s2) (Some a)) = subtree (st_M s) n # items (den (st_M s1) r)"
    if g: "grows vh s s1" and r: "r \<in> refs (st_M s1)" for r s1
  proof -
    obtain a s2 where 2: "get_node al vh (n_value ?t) (n_l ?t) r s1 = (a, s2)" by fastforce
    show ?thesis
      using get_node_grows[OF al grows_wf[OF g] grows_refs[OF g n(2)] r 2] grown_trans[OF g] grows_den[OF g n(2)] 2
        subtree_node[OF w less.prems(2)] by auto
  qed
  have xs: "items (den (st_M s) (Some n)) = subtree (st_M s) n # items (den (st_M s) (n_r ?t))"
    by (rule items_node[OF w less.prems(2)])
  show ?case
  proof (cases "n_r ?t")
    case None
    have "add_sibling al vh n x pos s = Some (get_node al vh (n_value ?t) (n_l ?t) (Some x) s)"
      using None by (subst add_sibling.simps) (simp add: Let_def)
    then show ?thesis using new[OF grown_refl[OF less.prems(1)] less.prems(3)] None xs by (auto simp: add_at_last)
  next
    case (Some m)
    have m: "Some m \<in> refs (st_M s)" "size (den (st_M s) (Some m)) < size (den (st_M s) (Some n))"
      using n Some by simp_all
    have rec: "\<exists>a s'. Option.bind (add_sibling al vh m x q s) (\<lambda>(ns, s). Some (get_node al vh (n_value ?t) (n_l ?t) (Some ns) s)) = Some (a, s') \<and>
        grows vh s s' \<and> Some a \<in> refs (st_M s') \<and>
        items (den (st_M s') (Some a)) = subtree (st_M s) n # add_at (items (den (st_M s) (Some m))) ?X q" for q
    proof -
      obtain b s1 where 1: "add_sibling al vh m x q s = Some (b, s1)" "grows vh s s1" "Some b \<in> refs (st_M s1)"
        "items (den (st_M s1) (Some b)) = add_at (items (den (st_M s) (Some m))) ?X q"
        using less.hyps[OF m(2) less.prems(1) m(1) less.prems(3), of q] by blast
      show ?thesis using new[OF 1(2,3)] 1(1,4) by auto
    qed
    consider "pos < 0" | "pos = 0" | "0 < pos" by linarith
    then show ?thesis
    proof cases
      case 1
      then show ?thesis using rec[of "-1"] xs Some
        by (subst add_sibling.simps) (simp add: Let_def add_at_neg)
    next
      case 2
      let ?x = "node_at (st_M s) x"
      obtain b s1 where 1: "get_node al vh (n_value ?x) (n_l ?x) (Some m) s = (b, s1)" by fastforce
      note x = den_node_at[OF w less.prems(3)]
      have g: "grows vh s s1" "Some b \<in> refs (st_M s1)" "den (st_M s1) (Some b) = Bt (n_value ?x) (den (st_M s) (n_l ?x)) (den (st_M s) (Some m))"
        using get_node_grows[OF al less.prems(1) x(2) m(1) 1] by auto
      have "items (den (st_M s1) (Some b)) = hd ?X # items (den (st_M s) (Some m))" unfolding g(3) x(1) by simp
      moreover have "items (den (st_M s) (Some m)) \<noteq> []" using den_node_at(1)[OF w m(1)] by simp
      ultimately show ?thesis using new[OF g(1,2)] 1 2 xs Some
        by (subst add_sibling.simps) (auto simp: Let_def add_at_0)
    next
      case 3
      then show ?thesis using rec[of "pos - 1"] xs Some
        by (subst add_sibling.simps) (simp add: Let_def add_at_pos)
    qed
  qed
qed

lemma add_child_ok:
  assumes al: "fresh al" and s: "wf_store vh s" and n: "Some n \<in> refs (st_M s)" and c: "Some c \<in> refs (st_M s)"
    and d: "den (st_M s) (Some n) = Bt v l r"
  shows "\<exists>a s'. add_child al vh n c pos s = Some (a, s') \<and> grows vh s s' \<and> Some a \<in> refs (st_M s') \<and>
    den (st_M s') (Some a) = Bt v (chain (if l = Nil then items (den (st_M s) (Some c))
      else add_at (items l) (items (den (st_M s) (Some c))) pos) Nil) r"
proof -
  note w = wf_store_nodes[OF s]
  let ?t = "node_at (st_M s) n" and ?X = "items (den (st_M s) (Some c))"
  note n' = den_node_at[OF w n]
  have v: "n_value ?t = v" "den (st_M s) (n_l ?t) = l" "den (st_M s) (n_r ?t) = r" using n'(1) d by auto
  have new: "\<exists>a s2. get_node al vh (n_value ?t) t (n_r ?t) s1 = (a, s2) \<and> grows vh s s2 \<and> Some a \<in> refs (st_M s2) \<and>
      den (st_M s2) (Some a) = Bt v (den (st_M s1) t) r"
    if g: "grows vh s s1" and t: "t \<in> refs (st_M s1)" for t s1
  proof -
    obtain a s2 where 2: "get_node al vh (n_value ?t) t (n_r ?t) s1 = (a, s2)" by fastforce
    show ?thesis
      using get_node_grows[OF al grows_wf[OF g] t grows_refs[OF g n'(3)] 2] grown_trans[OF g] grows_den[OF g n'(3)] 2 v by auto
  qed
  show ?thesis
  proof (cases "n_l ?t")
    case None
    then have "l = Nil" using v(2) by simp
    then show ?thesis using new[OF grown_refl[OF s] c] None by (auto simp: add_child_def Let_def)
  next
    case (Some m)
    have m: "Some m \<in> refs (st_M s)" "l = den (st_M s) (Some m)" using n'(2) v(2) Some by auto
    then have "l \<noteq> Nil" using den_Nil[OF w, of "Some m"] by simp
    obtain b s1 where 1: "add_sibling al vh m c pos s = Some (b, s1)" "grows vh s s1" "Some b \<in> refs (st_M s1)"
      "items (den (st_M s1) (Some b)) = add_at (items l) ?X pos"
      using add_sibling_ok[OF al s m(1) c, of pos] m(2) by blast
    have "den (st_M s1) (Some b) = chain (add_at (items l) ?X pos) Nil" using 1(4) by (metis chain_items)
    then show ?thesis using new[OF 1(2,3)] 1(1) Some \<open>l \<noteq> Nil\<close> by (auto simp: add_child_def Let_def)
  qed
qed

lemma remove_sibling_ok:
  assumes al: "fresh al"
  shows "wf_store vh s \<Longrightarrow> Some n \<in> refs (st_M s) \<Longrightarrow>
    \<exists>t s'. remove_sibling al vh n pos s = Some (t, s') \<and> grows vh s s' \<and> t \<in> refs (st_M s') \<and>
      items (den (st_M s') t) = remove_at (items (den (st_M s) (Some n))) pos"
proof (induction "size (den (st_M s) (Some n))" arbitrary: n pos rule: less_induct)
  case less
  note w = wf_store_nodes[OF less.prems(1)]
  let ?t = "node_at (st_M s) n"
  note n = den_node_at[OF w less.prems(2)]
  have xs: "items (den (st_M s) (Some n)) = subtree (st_M s) n # items (den (st_M s) (n_r ?t))"
    by (rule items_node[OF w less.prems(2)])
  show ?case
  proof (cases "n_r ?t")
    case None
    consider "pos < 0" | "pos = 0" | "0 < pos" by linarith
    then show ?thesis using None xs grown_refl[OF less.prems(1)] less.prems(2)
      by cases (simp_all add: remove_sibling.simps[of al vh n] Let_def remove_at_neg remove_at_0 remove_at_pos,
        simp_all add: remove_at_def)
  next
    case (Some m)
    have m: "Some m \<in> refs (st_M s)" "size (den (st_M s) (Some m)) < size (den (st_M s) (Some n))"
      using n Some by simp_all
    have rec: "\<exists>t s'. Option.bind (remove_sibling al vh m q s)
          (\<lambda>(ns, s). case get_node al vh (n_value ?t) (n_l ?t) ns s of (a, s) \<Rightarrow> Some (Some a, s)) = Some (t, s') \<and>
        grows vh s s' \<and> t \<in> refs (st_M s') \<and>
        items (den (st_M s') t) = subtree (st_M s) n # remove_at (items (den (st_M s) (Some m))) q" for q
    proof -
      obtain t s1 where 1: "remove_sibling al vh m q s = Some (t, s1)" "grows vh s s1" "t \<in> refs (st_M s1)"
        "items (den (st_M s1) t) = remove_at (items (den (st_M s) (Some m))) q"
        using less.hyps[OF m(2) less.prems(1) m(1), of q] by blast
      obtain a s2 where 2: "get_node al vh (n_value ?t) (n_l ?t) t s1 = (a, s2)" by fastforce
      show ?thesis
        using get_node_grows[OF al grows_wf[OF 1(2)] grows_refs[OF 1(2) n(2)] 1(3) 2] grown_trans[OF 1(2)]
          grows_den[OF 1(2) n(2)] 1(1,4) 2 subtree_node[OF w less.prems(2)] by auto
    qed
    have ne: "items (den (st_M s) (Some m)) \<noteq> []" using den_node_at(1)[OF w m(1)] by simp
    consider "pos < 0" | "pos = 0" | "0 < pos" by linarith
    then show ?thesis
    proof cases
      case 1
      then show ?thesis using rec[of "-1"] xs Some ne
        by (subst remove_sibling.simps) (simp add: Let_def remove_at_neg)
    next
      case 2
      let ?u = "node_at (st_M s) m"
      note u = den_node_at[OF w m(1)]
      obtain a s2 where a: "get_node al vh (n_value ?u) (n_l ?u) (n_r ?u) s = (a, s2)" by fastforce
      show ?thesis
        using get_node_grows[OF al less.prems(1) u(2,3) a] a u(1) xs Some 2
        by (subst remove_sibling.simps) (simp add: Let_def remove_at_0)
    next
      case 3
      then show ?thesis using rec[of "pos - 1"] xs Some
        by (subst remove_sibling.simps) (simp add: Let_def remove_at_pos)
    qed
  qed
qed

lemma remove_child_ok:
  assumes al: "fresh al" and s: "wf_store vh s" and n: "Some n \<in> refs (st_M s)"
    and d: "den (st_M s) (Some n) = Bt v l r"
  shows "\<exists>a s'. remove_child al vh n pos s = Some (a, s') \<and> grows vh s s' \<and> Some a \<in> refs (st_M s') \<and>
    den (st_M s') (Some a) = Bt v (chain (remove_at (items l) pos) Nil) r"
proof -
  note w = wf_store_nodes[OF s]
  let ?t = "node_at (st_M s) n"
  note n' = den_node_at[OF w n]
  have v: "n_value ?t = v" "den (st_M s) (n_l ?t) = l" "den (st_M s) (n_r ?t) = r" using n'(1) d by auto
  show ?thesis
  proof (cases "n_l ?t")
    case None
    then have "l = Nil" using v(2) by simp
    then show ?thesis using None grown_refl[OF s] n d by (simp add: remove_child_def Let_def remove_at_def)
  next
    case (Some m)
    have m: "Some m \<in> refs (st_M s)" "l = den (st_M s) (Some m)" using n'(2) v(2) Some by auto
    obtain b s1 where 1: "remove_sibling al vh m pos s = Some (b, s1)" "grows vh s s1" "b \<in> refs (st_M s1)"
      "items (den (st_M s1) b) = remove_at (items l) pos"
      using remove_sibling_ok[OF al s m(1), of pos] m(2) by blast
    obtain a s2 where 2: "get_node al vh (n_value ?t) b (n_r ?t) s1 = (a, s2)" by fastforce
    have "den (st_M s1) b = chain (remove_at (items l) pos) Nil" using 1(4) by (metis chain_items)
    then show ?thesis
      using get_node_grows[OF al grows_wf[OF 1(2)] 1(3) grows_refs[OF 1(2) n'(3)] 2] grown_trans[OF 1(2)]
        grows_den[OF 1(2) n'(3)] 1(1) 2 v Some by (auto simp: remove_child_def Let_def)
  qed
qed

section \<open>Access to the children\<close>

lemma tref_range_ok:
  "wf_nodes vh M \<Longrightarrow> t \<in> refs M \<Longrightarrow>
    \<exists>as. tref_range M t = Some as \<and> Some ` set as \<subseteq> refs M \<and> map (subtree M) as = items (den M t)"
proof (induction "size (den M t)" arbitrary: t rule: less_induct)
  case less
  show ?case
  proof (cases t)
    case None
    then show ?thesis by (simp add: tref_range.simps)
  next
    case (Some a)
    have a: "Some a \<in> refs M" using less.prems(2) Some by simp
    let ?r = "n_r (node_at M a)"
    note n = den_node_at[OF less.prems(1) a]
    have "size (den M ?r) < size (den M t)" using n(1) Some by simp
    from less.hyps[OF this less.prems(1) n(3)] obtain as where as: "tref_range M ?r = Some as" "Some ` set as \<subseteq> refs M"
      "map (subtree M) as = items (den M ?r)" by blast
    have "tref_range M t = Some (a # as)" using Some as(1) by (simp add: tref_range.simps[of M "Some a"])
    then show ?thesis using as(2,3) a Some items_node[OF less.prems(1) a] by simp
  qed
qed

lemma children_ok:
  assumes "wf_nodes vh M" "Some a \<in> refs M"
  shows "\<exists>cs. children M a = Some cs \<and> Some ` set cs \<subseteq> refs M \<and> map (subtree M) cs = items (bt_l (den M (Some a)))"
  using tref_range_ok[OF assms(1) den_node_at(2)[OF assms]] den_node_at(1)[OF assms] by (simp add: children_def)

lemma subtree_equals_subtree:
  assumes "wf_nodes vh M" "Some a \<in> refs M" "Some b \<in> refs M"
  shows "subtree_equals M (Some a) (Some b) \<longleftrightarrow> subtree M a = subtree M b"
  using den_inj[OF assms(1) den_node_at(2)[OF assms(1,2)] den_node_at(2)[OF assms(1,3)]] subtree_node[OF assms(1,2)]
    subtree_node[OF assms(1,3)] by (auto simp: subtree_equals_def)

lemma bt_eqI:
  assumes w: "wf_nodes vh M" and a: "Some a \<in> refs M" and b: "Some b \<in> refs M"
    and e: "den M (Some a) = den M (Some b)"
  shows "a = b"
  using den_inj[OF w a b] e by simp

section \<open>What the operations promise\<close>

text \<open>A concrete allocator and a value hash for the examples: the first address above those in use.\<close>

definition next_address :: alloc where
  "next_address A = Suc (fold max (sorted_list_of_set A) 0)"

lemma fold_max: "x \<in> set xs \<or> x \<le> m \<Longrightarrow> (x::nat) \<le> fold max xs m"
  by (induction xs arbitrary: m) (auto simp: le_max_iff_disj)

lemma fresh_next_address: "fresh next_address"
proof -
  have "x \<le> fold max (sorted_list_of_set A) 0" if "finite A" "x \<in> A" for A and x :: nat
    by (rule fold_max) (simp add: that)
  then show ?thesis unfolding fresh_def next_address_def by fastforce
qed

definition abc_store :: "nat store" where
  "abc_store = \<lparr>st_M = [
      (6, \<lparr>n_value = 0, n_l = Some 5, n_r = None, n_hash = hash_combines 0 [0, hash_combines 0 [1, 0, hash_combines 0 [2, 0, 0]], 0]\<rparr>),
      (5, \<lparr>n_value = 1, n_l = None, n_r = Some 2, n_hash = hash_combines 0 [1, 0, hash_combines 0 [2, 0, 0]]\<rparr>),
      (3, \<lparr>n_value = 3, n_l = None, n_r = None, n_hash = hash_combines 0 [3, 0, 0]\<rparr>),
      (2, \<lparr>n_value = 2, n_l = None, n_r = None, n_hash = hash_combines 0 [2, 0, 0]\<rparr>),
      (1, \<lparr>n_value = 1, n_l = None, n_r = None, n_hash = hash_combines 0 [1, 0, 0]\<rparr>)],
    st_handles = {6}, st_pause = 0\<rparr>"

abbreviation nat_hash :: "nat \<Rightarrow> u64" where
  "nat_hash \<equiv> of_nat"

lemma abc_wf: "wf_store nat_hash abc_store"
  by (simp add: wf_store_def abc_store_def refs_def same_node_def hashit_def ref_hash_def node_at_def)

text \<open>Creating a node makes it the root of its subtree: the children read back from a node that
  \<open>get_raw\<close> made are the subtrees that were passed, in their order, its value and its right sibling are
  those passed, and every reference that was in the store before still stands for the same tree.\<close>
theorem get_raw_children:
  assumes "fresh al" "wf_store vh s" "Some ` set ch \<subseteq> refs (st_M s)" "r \<in> refs (st_M s)"
    "get_raw al vh v ch r s = (a, s')"
  shows "\<exists>cs. children (st_M s') a = Some cs \<and> map (subtree (st_M s')) cs = map (subtree (st_M s)) ch \<and>
    n_value (node_at (st_M s') a) = v \<and> n_r (node_at (st_M s') a) = r \<and> wf_store vh s' \<and>
    (\<forall>t \<in> refs (st_M s). t \<in> refs (st_M s') \<and> den (st_M s') t = den (st_M s) t)"
proof -
  have "\<forall>c \<in> set ch. Some c \<in> refs (st_M s)" using assms(3) by blast
  note g = get_raw_ok[OF assms(1,2) this assms(4,5)]
  then have w: "wf_nodes vh (st_M s')" "Some a \<in> refs (st_M s')" and gr: "grows vh s s'"
    by (auto dest: grows_wf simp: wf_store_nodes)
  note n = den_node_at[OF w]
  have "n_value (node_at (st_M s') a) = v" "den (st_M s') (n_r (node_at (st_M s') a)) = den (st_M s') r"
    using g n(1) grows_den[OF gr assms(4)] by auto
  then show ?thesis
    using children_ok[OF w] g gr den_inj[OF w(1) n(3) grows_refs[OF gr assms(4)]]
    by (auto simp: grows_wf grows_den dest: grows_refs)
qed

theorem get_raw_children_witness:
  "\<exists>cs. children (st_M (snd (get_raw next_address nat_hash 7 [3, 5] (Some 2) abc_store))) (fst (get_raw next_address nat_hash 7 [3, 5] (Some 2) abc_store)) = Some cs \<and>
    map (subtree (st_M (snd (get_raw next_address nat_hash 7 [3, 5] (Some 2) abc_store)))) cs = [(3, Nil), (1, Nil)]"
proof -
  let ?g = "get_raw next_address nat_hash 7 [3, 5] (Some 2) abc_store"
  have "Some ` set [3, 5] \<subseteq> refs (st_M abc_store)" "Some 2 \<in> refs (st_M abc_store)"
    by (simp_all add: abc_store_def refs_def)
  from get_raw_children[OF fresh_next_address abc_wf this prod.collapse[symmetric]]
  obtain cs where "children (st_M (snd ?g)) (fst ?g) = Some cs"
    "map (subtree (st_M (snd ?g))) cs = map (subtree (st_M abc_store)) [3, 5]" by blast
  moreover have "map (subtree (st_M abc_store)) [3, 5] = [(3, Nil), (1, Nil)]"
    by (simp add: abc_store_def subtree_def)
  ultimately show ?thesis by auto
qed

lemma remove_add_at:
  assumes "0 \<le> pos" "pos < int (length ys)"
  shows "remove_at (add_at ys [x] pos) (pos + 1) = ys"
proof -
  obtain k where k: "pos = int k" using assms(1) nonneg_int_cases by blast
  have n: "nat (int k + 1) = Suc k" by simp
  show ?thesis
  proof (cases "Suc k = length ys")
    case True
    then show ?thesis using k by (simp add: add_at_def remove_at_def n)
  next
    case False
    then have "Suc k < length ys" using assms(2) k by simp
    then show ?thesis using k by (simp add: add_at_def remove_at_def n min_def)
  qed
qed

text \<open>C28: Removing a child undoes adding it: when a subtree without right siblings is added after the
  child at a position of the tree, removing the child at the next position gives back the very reference
  that the tree had, and both calls return.\<close>
theorem remove_child_add_child:
  assumes "fresh al" "wf_store vh s" "Some n \<in> refs (st_M s)" "Some c \<in> refs (st_M s)"
    "n_r (node_at (st_M s) c) = None" "children (st_M s) n = Some cs" "0 \<le> pos" "pos < int (length cs)"
  shows "\<exists>a s1 s2. add_child al vh n c pos s = Some (a, s1) \<and>
    map_option (map (subtree (st_M s1))) (children (st_M s1) a) =
      Some (add_at (map (subtree (st_M s)) cs) [subtree (st_M s) c] pos) \<and>
    remove_child al vh a (pos + 1) s1 = Some (n, s2)"
proof -
  note w = wf_store_nodes[OF assms(2)]
  obtain v l r where d: "den (st_M s) (Some n) = Bt v l r" using den_node_at(1)[OF w assms(3)] by blast
  have l: "map (subtree (st_M s)) cs = items l" using children_ok[OF w assms(3)] assms(6) d by auto
  have c: "items (den (st_M s) (Some c)) = [subtree (st_M s) c]"
    using items_node[OF w assms(4)] assms(5) by simp
  have ne: "length (items l) = length cs" using l by (metis length_map)
  then have "l \<noteq> Nil" using assms(7,8) by auto
  then obtain a s1 where 1: "add_child al vh n c pos s = Some (a, s1)" "grows vh s s1" "Some a \<in> refs (st_M s1)"
    "den (st_M s1) (Some a) = Bt v (chain (add_at (items l) [subtree (st_M s) c] pos) Nil) r"
    using add_child_ok[OF assms(1-4) d, of pos] c by auto
  note w1 = wf_store_nodes[OF grows_wf[OF 1(2)]]
  obtain b s2 where 2: "remove_child al vh a (pos + 1) s1 = Some (b, s2)" "grows vh s1 s2" "Some b \<in> refs (st_M s2)"
    "den (st_M s2) (Some b) = Bt v (chain (remove_at (items (chain (add_at (items l) [subtree (st_M s) c] pos) Nil)) (pos + 1)) Nil) r"
    using remove_child_ok[OF assms(1) grows_wf[OF 1(2)] 1(3,4), of "pos + 1"] by blast
  have "den (st_M s2) (Some b) = den (st_M s2) (Some n)"
    using 2(4) d remove_add_at[of pos "items l"] ne assms(3,7,8) grows_den[OF grown_trans[OF 1(2) 2(2)]] by simp
  then have "b = n"
    using bt_eqI[OF wf_store_nodes[OF grows_wf[OF 2(2)]] 2(3) grows_refs[OF grown_trans[OF 1(2) 2(2)] assms(3)]] by blast
  moreover have "map_option (map (subtree (st_M s1))) (children (st_M s1) a) = Some (add_at (items l) [subtree (st_M s) c] pos)"
    using children_ok[OF w1 1(3)] 1(4) by auto
  ultimately show ?thesis using 1(1) 2(1) l by auto
qed

theorem remove_child_add_child_witness:
  "\<exists>a s1 s2. add_child next_address nat_hash 6 3 0 abc_store = Some (a, s1) \<and>
    remove_child next_address nat_hash a 1 s1 = Some (6, s2)"
proof -
  have c: "children (st_M abc_store) 6 = Some [5, 2]"
    by (simp add: children_def abc_store_def node_at_def tref_range.simps)
  have "\<exists>a s1 s2. add_child next_address nat_hash 6 3 0 abc_store = Some (a, s1) \<and>
      map_option (map (subtree (st_M s1))) (children (st_M s1) a) =
        Some (add_at (map (subtree (st_M abc_store)) [5, 2]) [subtree (st_M abc_store) 3] 0) \<and>
      remove_child next_address nat_hash a (0 + 1) s1 = Some (6, s2)"
    by (rule remove_child_add_child[OF fresh_next_address abc_wf _ _ _ c])
      (simp_all add: abc_store_def refs_def node_at_def)
  then show ?thesis by auto
qed

text \<open>C27: The order of the subtrees, used as the key order of the maps, is a strict total order of the
  subtrees that does not depend on the addresses: it always returns, it is false for equal subtrees, for
  two different ones it holds in exactly one direction, it is transitive, and two stores that hold the
  same two subtrees order them alike.\<close>
theorem subtree_order:
  fixes M :: "'v::linorder nodes"
  assumes "wf_nodes vh M" "Some a \<in> refs M" "Some b \<in> refs M" "Some c \<in> refs M"
    "wf_nodes vh M'" "Some a' \<in> refs M'" "Some b' \<in> refs M'"
    "subtree M' a' = subtree M a" "subtree M' b' = subtree M b"
  shows "\<exists>x y z. subtree_less M (Some a) (Some b) = Some x \<and> subtree_less M (Some b) (Some a) = Some y \<and>
    subtree_less M (Some b) (Some c) = Some z \<and> subtree_less M' (Some a') (Some b') = Some x \<and>
    (if subtree_equals M (Some a) (Some b) then \<not> x \<and> \<not> y else x \<noteq> y) \<and>
    (x \<and> z \<longrightarrow> subtree_less M (Some a) (Some c) = Some True)"
proof -
  define lt where "lt = (\<lambda>(v, l) (w, l'). if v \<noteq> w then v < (w::'v) else bt_less vh l l')"
  have less: "subtree_less N (Some p) (Some q) = Some (lt (subtree N p) (subtree N q))"
    if w: "wf_nodes vh N" and p: "Some p \<in> refs N" and q: "Some q \<in> refs N" for N p q
  proof -
    note m = den_node_at[OF w p] den_node_at[OF w q]
    note s = subtree_node[OF w p] subtree_node[OF w q]
    show ?thesis
    proof (cases "n_l (node_at N p)"; cases "n_l (node_at N q)")
      fix x y assume xy: "n_l (node_at N p) = Some x" "n_l (node_at N q) = Some y"
      then have r: "Some x \<in> refs N" "Some y \<in> refs N" using m by simp_all
      show ?thesis using xy s node_less_den[OF w r]
        by (auto simp: lt_def subtree_less_def lcrs_less_def Let_def bt_less_irrefl)
    next
      fix x assume xy: "n_l (node_at N p) = None" "n_l (node_at N q) = Some x"
      then have "den N (Some x) \<noteq> Nil" using m(5) den_Nil[OF w, of "Some x"] by simp
      then show ?thesis using xy s
        by (cases "den N (Some x)") (auto simp: lt_def subtree_less_def lcrs_less_def Let_def)
    qed (use s in \<open>auto simp: lt_def subtree_less_def lcrs_less_def Let_def bt_less_irrefl\<close>)
  qed
  have irr: "\<not> lt p p" for p by (auto simp: lt_def bt_less_irrefl)
  have tr: "lt p q \<Longrightarrow> lt q r \<Longrightarrow> lt p r" for p q r
    by (auto simp: lt_def split: prod.splits if_splits intro: bt_less_trans)
  have tot: "p \<noteq> q \<Longrightarrow> lt p q \<or> lt q p" for p q
    by (auto simp: lt_def split: prod.splits dest: bt_less_total)
  show ?thesis
    unfolding less[OF assms(1,2,3)] less[OF assms(1,3,2)] less[OF assms(1,3,4)] less[OF assms(1,2,4)] less[OF assms(5-7)]
      subtree_equals_subtree[OF assms(1-3)] assms(8,9)
  proof (intro exI conjI)
    show "if subtree M a = subtree M b then \<not> lt (subtree M a) (subtree M b) \<and> \<not> lt (subtree M b) (subtree M a)
        else lt (subtree M a) (subtree M b) \<noteq> lt (subtree M b) (subtree M a)"
      using irr tot tr by metis
    show "lt (subtree M a) (subtree M b) \<and> lt (subtree M b) (subtree M c) \<longrightarrow> Some (lt (subtree M a) (subtree M c)) = Some True"
      by (auto intro: tr)
  qed simp_all
qed

theorem subtree_order_witness:
  "\<exists>x. subtree_less (st_M abc_store) (Some 3) (Some 2) = Some x \<and> subtree_less (st_M abc_store) (Some 2) (Some 3) = Some (\<not> x)"
proof -
  have r: "Some 3 \<in> refs (st_M abc_store)" "Some 2 \<in> refs (st_M abc_store)" by (simp_all add: abc_store_def refs_def)
  note w = wf_store_nodes[OF abc_wf]
  from subtree_order[OF w r(1,2,1) w r refl refl]
  show ?thesis by (auto simp: abc_store_def subtree_equals_def node_at_def)
qed

end
