(* ===== verification/TreeGc.thy ===== *)
theory TreeGc
  imports LcrsTree
begin

text \<open>
  The garbage collector of the store, \<open>bintree<T>::gc\<close> and \<open>create_cache\<close> in
  \<open>src/src/utility/tree.tmpl.h\<close>: marking from the live handles and the nodes to keep, the expansion
  of the marked set through the caches to a fixpoint, the sweep, and the cleaning of the caches. A cache
  is the list of its entries, each with the references of its key and of its value. Marking a null
  reference or one that is not in the store dereferences it: the result is then \<open>None\<close>.
\<close>

section \<open>The collector\<close>

type_synonym cache = "(tref list \<times> tref list) list"

text \<open>The recursive \<open>mark\<close> of \<open>gc\<close>.\<close>

partial_function (option) mark :: "'v nodes \<Rightarrow> nat set \<Rightarrow> tref \<Rightarrow> nat set option" where
  [code]: "mark M next r =
     (case r of None \<Rightarrow> None
      | Some a \<Rightarrow>
          if a \<in> next then Some next
          else (case map_of M a of None \<Rightarrow> None
                | Some n \<Rightarrow>
                    Option.bind (if n_r n \<noteq> None then mark M (insert a next) (n_r n) else Some (insert a next))
                      (\<lambda>next. if n_l n \<noteq> None then mark M next (n_l n) else Some next)))"

fun mark_all :: "'v nodes \<Rightarrow> nat set \<Rightarrow> nat list \<Rightarrow> nat set option" where
  "mark_all M next [] = Some next"
| "mark_all M next (a # as) = Option.bind (mark M next (Some a)) (\<lambda>next. mark_all M next as)"

definition contains :: "nat set \<Rightarrow> tref \<Rightarrow> bool" where
  "contains A t = (case t of None \<Rightarrow> False | Some a \<Rightarrow> a \<in> A)"

text \<open>The callback of a cache before the sweep: the references of the values whose key is reachable.\<close>

definition expand_cache :: "nat set \<Rightarrow> cache \<Rightarrow> tref list" where
  "expand_cache reachable c =
     concat (map (\<lambda>(ks, vs). if list_all (contains reachable) ks
       then filter (\<lambda>v. \<not> contains reachable v) vs else []) c)"

text \<open>The callback of a cache after the sweep.\<close>

definition clean_cache :: "nat set \<Rightarrow> cache \<Rightarrow> cache" where
  "clean_cache kept c = filter (\<lambda>(ks, vs). list_all (contains kept) ks \<and> list_all (contains kept) vs) c"

fun mark_new :: "'v nodes \<Rightarrow> tref list \<Rightarrow> nat set \<Rightarrow> bool \<Rightarrow> (nat set \<times> bool) option" where
  "mark_new M [] next grown = Some (next, grown)"
| "mark_new M (t # ts) next grown =
     (if contains next t then mark_new M ts next grown
      else Option.bind (mark M next t) (\<lambda>next. mark_new M ts next True))"

partial_function (option) expand :: "'v nodes \<Rightarrow> cache list \<Rightarrow> nat set \<Rightarrow> nat set option" where
  [code]: "expand M caches next =
     Option.bind (mark_new M (concat (map (expand_cache next) caches)) next False)
       (\<lambda>(next, grown). if grown then expand M caches next else Some next)"

definition gc ::
  "nat set \<Rightarrow> cache list \<Rightarrow> 'v store \<Rightarrow> (nat set \<times> cache list \<times> 'v store) option" where
  "gc keep caches s =
     (if st_pause s > 0 then Some (keep, caches, s)
      else Option.bind (mark_all (st_M s) {} (filter (\<lambda>a. a \<in> st_handles s) (map fst (st_M s)) @ sorted_list_of_set keep))
        (\<lambda>next.
           if st_M s = [] \<or> card next = length (st_M s) then Some (keep, caches, s)
           else Option.bind (expand (st_M s) caches next)
             (\<lambda>next.
                let M = filter (\<lambda>(a, n). a \<in> next) (st_M s);
                    kept = keep \<union> fst ` set M
                in Some (kept, map (clean_cache kept) caches, s\<lparr>st_M := M\<rparr>))))"

text \<open>The constructor and the destructor of \<open>gc_pause\<close>.\<close>

definition pause_gc :: "'v store \<Rightarrow> 'v store" where
  "pause_gc s = s\<lparr>st_pause := st_pause s + 1\<rparr>"

definition resume_gc :: "'v store \<Rightarrow> 'v store" where
  "resume_gc s = s\<lparr>st_pause := st_pause s - 1\<rparr>"

section \<open>What is live\<close>

definition kids :: "'v nodes \<Rightarrow> nat \<Rightarrow> nat set" where
  "kids M a = {b. n_l (node_at M a) = Some b \<or> n_r (node_at M a) = Some b}"

text \<open>A node is live when it is a root, a child of a live node, or in the value of a cache entry whose
  key is live.\<close>

inductive_set live :: "'v nodes \<Rightarrow> cache list \<Rightarrow> nat set \<Rightarrow> nat set" for M caches R where
  root: "a \<in> R \<Longrightarrow> a \<in> live M caches R"
| kid: "a \<in> live M caches R \<Longrightarrow> b \<in> kids M a \<Longrightarrow> b \<in> live M caches R"
| entry: "c \<in> set caches \<Longrightarrow> (ks, vs) \<in> set c \<Longrightarrow> \<forall>k \<in> set ks. k \<noteq> None \<and> the k \<in> live M caches R \<Longrightarrow>
    Some b \<in> set vs \<Longrightarrow> b \<in> live M caches R"

definition closed :: "'v nodes \<Rightarrow> nat set \<Rightarrow> bool" where
  "closed M A \<longleftrightarrow> (\<forall>a \<in> A. kids M a \<subseteq> A)"

definition cache_closed :: "cache list \<Rightarrow> nat set \<Rightarrow> bool" where
  "cache_closed caches A \<longleftrightarrow> (\<forall>c \<in> set caches. \<forall>(ks, vs) \<in> set c.
     list_all (contains A) ks \<longrightarrow> (\<forall>b. Some b \<in> set vs \<longrightarrow> b \<in> A))"

text \<open>The references of the caches are in the store and those of the values are not null.\<close>

definition caches_ok :: "'v nodes \<Rightarrow> cache list \<Rightarrow> bool" where
  "caches_ok M caches \<longleftrightarrow> (\<forall>c \<in> set caches. \<forall>(ks, vs) \<in> set c. set ks \<subseteq> refs M \<and> set vs \<subseteq> refs M - {None})"

lemma contains_Some [simp]: "contains A (Some a) \<longleftrightarrow> a \<in> A"
  by (simp add: contains_def)

lemma contains_None [simp]: "\<not> contains A None"
  by (simp add: contains_def)

lemma list_all_contains: "list_all (contains A) ks \<longleftrightarrow> (\<forall>k \<in> set ks. k \<noteq> None \<and> the k \<in> A)"
  by (auto simp: list_all_iff contains_def split: option.splits)

lemma live_least:
  assumes "R \<subseteq> A" "closed M A" "cache_closed caches A"
  shows "live M caches R \<subseteq> A"
proof
  fix x assume "x \<in> live M caches R"
  then show "x \<in> A"
  proof (induction rule: live.induct)
    case (entry c ks vs b)
    have "list_all (contains A) ks" using entry.IH by (simp add: list_all_contains)
    moreover have "list_all (contains A) ks \<longrightarrow> (\<forall>b. Some b \<in> set vs \<longrightarrow> b \<in> A)"
      using entry.hyps(1,2) assms(3) unfolding cache_closed_def by blast
    ultimately show ?case using entry.hyps by blast
  qed (use assms(1,2) in \<open>auto simp: closed_def\<close>)
qed

lemma live_closed: "closed M (live M caches R)" "cache_closed caches (live M caches R)" "R \<subseteq> live M caches R"
  by (auto simp: closed_def cache_closed_def list_all_contains intro: live.intros)

lemma kids_refs: "wf_nodes vh M \<Longrightarrow> a \<in> fst ` set M \<Longrightarrow> kids M a \<subseteq> fst ` set M"
  using den_node_at(2,3)[of vh M a] by (auto simp: kids_def refs_Some)

lemma closed_all: "wf_nodes vh M \<Longrightarrow> closed M (fst ` set M)"
  using kids_refs unfolding closed_def by blast

lemma cache_closed_all: "caches_ok M caches \<Longrightarrow> cache_closed caches (fst ` set M)"
  by (fastforce simp: cache_closed_def caches_ok_def refs_Some)

section \<open>Marking\<close>

lemma mark_ok:
  assumes w: "wf_nodes vh M"
  shows "Some a \<in> refs M \<Longrightarrow> \<exists>next'. mark M next (Some a) = Some next' \<and> next \<subseteq> next' \<and> a \<in> next' \<and>
    (\<forall>x \<in> next' - next. kids M x \<subseteq> next') \<and>
    (\<forall>L. next \<subseteq> L \<and> a \<in> L \<and> closed M L \<longrightarrow> next' \<subseteq> L)"
proof (induction "size (den M (Some a))" arbitrary: a "next" rule: less_induct)
  case less
  let ?n = "node_at M a"
  note n = den_node_at[OF w less.prems]
  have m: "map_of M a = Some ?n" using less.prems by (metis map_of_eq_None_iff not_None_eq refs_Some node_at_def option.sel)
  have step: "\<exists>N'. (if t \<noteq> None then mark M N t else Some N) = Some N' \<and> N \<subseteq> N' \<and> (\<forall>b. t = Some b \<longrightarrow> b \<in> N') \<and>
      (\<forall>x \<in> N' - N. kids M x \<subseteq> N') \<and> (\<forall>L. N \<subseteq> L \<and> (\<forall>b. t = Some b \<longrightarrow> b \<in> L) \<and> closed M L \<longrightarrow> N' \<subseteq> L)"
    if t: "t \<in> refs M" "size (den M t) < size (den M (Some a))" for t N
  proof (cases t)
    case None
    then show ?thesis by simp
  next
    case (Some b)
    then show ?thesis using less.hyps[of b N] t by auto
  qed
  show ?case
  proof (cases "a \<in> next")
    case True
    then show ?thesis by (simp add: mark.simps)
  next
    case False
    obtain N1 where 1: "(if n_r ?n \<noteq> None then mark M (insert a next) (n_r ?n) else Some (insert a next)) = Some N1"
      "insert a next \<subseteq> N1" "\<forall>b. n_r ?n = Some b \<longrightarrow> b \<in> N1" "\<forall>x \<in> N1 - insert a next. kids M x \<subseteq> N1"
      "\<forall>L. insert a next \<subseteq> L \<and> (\<forall>b. n_r ?n = Some b \<longrightarrow> b \<in> L) \<and> closed M L \<longrightarrow> N1 \<subseteq> L"
      using step[of "n_r ?n" "insert a next"] n by auto
    obtain N2 where 2: "(if n_l ?n \<noteq> None then mark M N1 (n_l ?n) else Some N1) = Some N2"
      "N1 \<subseteq> N2" "\<forall>b. n_l ?n = Some b \<longrightarrow> b \<in> N2" "\<forall>x \<in> N2 - N1. kids M x \<subseteq> N2"
      "\<forall>L. N1 \<subseteq> L \<and> (\<forall>b. n_l ?n = Some b \<longrightarrow> b \<in> L) \<and> closed M L \<longrightarrow> N2 \<subseteq> L"
      using step[of "n_l ?n" N1] n by auto
    have "mark M next (Some a) = Some N2"
      using False m 1(1) 2(1) by (subst mark.simps) simp
    moreover have "\<forall>x \<in> N2 - next. kids M x \<subseteq> N2"
    proof
      fix x assume x: "x \<in> N2 - next"
      show "kids M x \<subseteq> N2"
      proof (cases "x = a")
        case True
        then show ?thesis using 1(3) 2(2,3) by (auto simp: kids_def)
      next
        case False
        then show ?thesis using x 1(4) 2(2,4) by blast
      qed
    qed
    moreover have "N2 \<subseteq> L" if L: "next \<subseteq> L" "a \<in> L" "closed M L" for L
    proof -
      have "kids M a \<subseteq> L" using L by (simp add: closed_def)
      then have k: "\<forall>b. n_r ?n = Some b \<longrightarrow> b \<in> L" "\<forall>b. n_l ?n = Some b \<longrightarrow> b \<in> L" by (auto simp: kids_def)
      then have "N1 \<subseteq> L" using 1(5) L by simp
      then show ?thesis using 2(5) L k(2) by simp
    qed
    ultimately show ?thesis using 1(2) 2(2) by blast
  qed
qed

lemma mark_closed:
  assumes "wf_nodes vh M" "Some a \<in> refs M" "closed M N"
  shows "\<exists>N'. mark M N (Some a) = Some N' \<and> insert a N \<subseteq> N' \<and> closed M N' \<and>
    (\<forall>L. N \<subseteq> L \<and> a \<in> L \<and> closed M L \<longrightarrow> N' \<subseteq> L)"
proof -
  obtain N' where 1: "mark M N (Some a) = Some N'" "N \<subseteq> N'" "a \<in> N'" "\<forall>x \<in> N' - N. kids M x \<subseteq> N'"
    "\<forall>L. N \<subseteq> L \<and> a \<in> L \<and> closed M L \<longrightarrow> N' \<subseteq> L" using mark_ok[OF assms(1,2)] by blast
  have "closed M N'" using 1(2,4) assms(3) unfolding closed_def by blast
  then show ?thesis using 1 by blast
qed

lemma mark_all_ok:
  assumes w: "wf_nodes vh M"
  shows "set as \<subseteq> fst ` set M \<Longrightarrow> closed M N \<Longrightarrow>
    \<exists>N'. mark_all M N as = Some N' \<and> N \<subseteq> N' \<and> set as \<subseteq> N' \<and> closed M N' \<and>
      (\<forall>L. N \<subseteq> L \<and> set as \<subseteq> L \<and> closed M L \<longrightarrow> N' \<subseteq> L)"
proof (induction as arbitrary: N)
  case (Cons a as)
  have "Some a \<in> refs M" using Cons.prems(1) by (simp add: refs_Some)
  from mark_closed[OF w this Cons.prems(2)] obtain N1 where 1: "mark M N (Some a) = Some N1" "insert a N \<subseteq> N1" "closed M N1"
    "\<forall>L. N \<subseteq> L \<and> a \<in> L \<and> closed M L \<longrightarrow> N1 \<subseteq> L" by blast
  have "set as \<subseteq> fst ` set M" using Cons.prems(1) by simp
  from Cons.IH[OF this 1(3)] obtain N2 where 2: "mark_all M N1 as = Some N2" "N1 \<subseteq> N2" "set as \<subseteq> N2" "closed M N2"
    "\<forall>L. N1 \<subseteq> L \<and> set as \<subseteq> L \<and> closed M L \<longrightarrow> N2 \<subseteq> L" by blast
  show ?case using 1 2 by (intro exI[of _ N2]) auto
qed simp

lemma mark_new_ok:
  assumes w: "wf_nodes vh M"
  shows "set ts \<subseteq> refs M - {None} \<Longrightarrow> closed M N \<Longrightarrow>
    \<exists>N' g'. mark_new M ts N g = Some (N', g') \<and> N \<subseteq> N' \<and> list_all (contains N') ts \<and> closed M N' \<and>
      (g' \<longleftrightarrow> g \<or> N' \<noteq> N) \<and> (\<forall>L. N \<subseteq> L \<and> list_all (contains L) ts \<and> closed M L \<longrightarrow> N' \<subseteq> L)"
proof (induction ts arbitrary: N g)
  case (Cons t ts)
  have ts: "set ts \<subseteq> refs M - {None}" using Cons.prems(1) by simp
  obtain a where t: "t = Some a" using Cons.prems(1) by auto
  show ?case
  proof (cases "a \<in> N")
    case True
    from Cons.IH[OF ts Cons.prems(2), of g] obtain N' g' where
      *: "mark_new M ts N g = Some (N', g')" "N \<subseteq> N'" "list_all (contains N') ts" "closed M N'"
      "g' \<longleftrightarrow> g \<or> N' \<noteq> N" "\<forall>L. N \<subseteq> L \<and> list_all (contains L) ts \<and> closed M L \<longrightarrow> N' \<subseteq> L" by blast
    show ?thesis using * True t by (intro exI[of _ N'] exI[of _ g']) auto
  next
    case False
    have "Some a \<in> refs M" using Cons.prems(1) t by simp
    from mark_closed[OF w this Cons.prems(2)] obtain N1 where 1: "mark M N (Some a) = Some N1" "insert a N \<subseteq> N1" "closed M N1"
      "\<forall>L. N \<subseteq> L \<and> a \<in> L \<and> closed M L \<longrightarrow> N1 \<subseteq> L" by blast
    from Cons.IH[OF ts 1(3), of True] obtain N' g' where
      2: "mark_new M ts N1 True = Some (N', g')" "N1 \<subseteq> N'" "list_all (contains N') ts" "closed M N'"
      "g'" "\<forall>L. N1 \<subseteq> L \<and> list_all (contains L) ts \<and> closed M L \<longrightarrow> N' \<subseteq> L" by blast
    have "mark_new M (t # ts) N g = Some (N', g')" using False t 1(1) 2(1) by simp
    moreover have "N' \<noteq> N" using False 1(2) 2(2) by blast
    moreover have "list_all (contains N') (t # ts)" using t 1(2) 2(2,3) by auto
    moreover have "N' \<subseteq> L" if "N \<subseteq> L" "list_all (contains L) (t # ts)" "closed M L" for L
      using that t 1(4) 2(6) by auto
    ultimately show ?thesis using 1(2) 2(2,4,5) by (intro exI[of _ N'] exI[of _ g']) auto
  qed
qed simp

section \<open>The fixpoint over the caches\<close>

lemma expand_cache_refs:
  "caches_ok M caches \<Longrightarrow> set (concat (map (expand_cache N) caches)) \<subseteq> refs M - {None}"
  by (force simp: caches_ok_def expand_cache_def split: if_splits)

lemma expand_cache_closed: "list_all (contains N) (concat (map (expand_cache N) caches)) \<Longrightarrow> cache_closed caches N"
  by (fastforce simp: cache_closed_def expand_cache_def list_all_iff)

lemma cache_closed_expand:
  assumes "caches_ok M caches" "cache_closed caches L" "N \<subseteq> L"
  shows "list_all (contains L) (concat (map (expand_cache N) caches))"
proof -
  have "contains L v" if c: "c \<in> set caches" "(ks, vs) \<in> set c" and k: "list_all (contains N) ks" and v: "v \<in> set vs"
    for c ks vs v
  proof -
    obtain b where "v = Some b" using assms(1) c v by (cases v) (fastforce simp: caches_ok_def)+
    moreover have "list_all (contains L) ks" using k assms(3) by (auto simp: list_all_contains)
    ultimately show ?thesis using assms(2) c v by (fastforce simp: cache_closed_def)
  qed
  then show ?thesis by (auto simp: expand_cache_def list_all_iff split: if_splits)
qed

lemma expand_ok:
  assumes w: "wf_nodes vh M" and c: "caches_ok M caches"
  shows "closed M N \<Longrightarrow> N \<subseteq> fst ` set M \<Longrightarrow>
    \<exists>N'. expand M caches N = Some N' \<and> N \<subseteq> N' \<and> closed M N' \<and> cache_closed caches N' \<and>
      (\<forall>L. N \<subseteq> L \<and> closed M L \<and> cache_closed caches L \<longrightarrow> N' \<subseteq> L)"
proof (induction "card (fst ` set M - N)" arbitrary: N rule: less_induct)
  case less
  let ?ts = "concat (map (expand_cache N) caches)"
  obtain N1 g where 1: "mark_new M ?ts N False = Some (N1, g)" "N \<subseteq> N1" "list_all (contains N1) ?ts" "closed M N1"
    "g \<longleftrightarrow> N1 \<noteq> N" "\<forall>L. N \<subseteq> L \<and> list_all (contains L) ?ts \<and> closed M L \<longrightarrow> N1 \<subseteq> L"
    using mark_new_ok[OF w expand_cache_refs[OF c, of N] less.prems(1), where g = False] by auto
  have sub: "N1 \<subseteq> fst ` set M"
    using 1(6) less.prems(2) closed_all[OF w] cache_closed_expand[OF c cache_closed_all[OF c] less.prems(2)] by blast
  have least: "N1 \<subseteq> L" if "N \<subseteq> L" "closed M L" "cache_closed caches L" for L
    using 1(6) that cache_closed_expand[OF c that(3,1)] by blast
  show ?case
  proof (cases "N1 = N")
    case True
    then have "cache_closed caches N" using 1(3) expand_cache_closed by blast
    moreover have "expand M caches N = Some N" using 1(1,5) True by (subst expand.simps) simp
    ultimately show ?thesis using less.prems(1) by blast
  next
    case False
    then have "card (fst ` set M - N1) < card (fst ` set M - N)"
      using 1(2) sub by (intro psubset_card_mono) auto
    from less.hyps[OF this 1(4) sub] obtain N2 where 2: "expand M caches N1 = Some N2" "N1 \<subseteq> N2" "closed M N2"
      "cache_closed caches N2" "\<forall>L. N1 \<subseteq> L \<and> closed M L \<and> cache_closed caches L \<longrightarrow> N2 \<subseteq> L" by blast
    have "expand M caches N = Some N2" using 1(1,5) False 2(1) by (subst expand.simps) simp
    then show ?thesis using 1(2) 2(2-5) least by (intro exI[of _ N2]) blast
  qed
qed

section \<open>The sweep\<close>

definition closed_on :: "'v nodes \<Rightarrow> nat set \<Rightarrow> bool" where
  "closed_on M A \<longleftrightarrow> (\<forall>(a, n) \<in> set M. a \<in> A \<longrightarrow> (\<forall>b. n_l n = Some b \<or> n_r n = Some b \<longrightarrow> b \<in> A))"

lemma closed_on: "wf_nodes vh M \<Longrightarrow> closed M A \<Longrightarrow> closed_on M A"
proof -
  assume w: "wf_nodes vh M" and c: "closed M A"
  have "node_at M a = n" if "(a, n) \<in> set M" for a n
    using that wf_distinct[OF w] by (simp add: node_at_def)
  then show ?thesis using c by (fastforce simp: closed_on_def closed_def kids_def)
qed

definition swept :: "nat set \<Rightarrow> 'v nodes \<Rightarrow> 'v nodes" where
  "swept A M = filter (\<lambda>(a, n). a \<in> A) M"

lemma swept_dom: "fst ` set (swept A M) = fst ` set M \<inter> A"
  by (force simp: swept_def)

lemma swept_refs: "t \<in> refs (swept A M) \<longleftrightarrow> t \<in> refs M \<and> (\<forall>b. t = Some b \<longrightarrow> b \<in> A)"
  by (cases t) (simp_all add: refs_Some swept_dom)

lemma swept_ok:
  "wf_nodes vh M \<Longrightarrow> closed_on M A \<Longrightarrow>
    wf_nodes vh (swept A M) \<and> (\<forall>t \<in> refs (swept A M). den (swept A M) t = den M t)"
proof (induction M)
  case Nil
  then show ?case by (simp add: swept_def)
next
  case (Cons e M)
  obtain a n where e: "e = (a, n)" by fastforce
  let ?M = "swept A M"
  have w: "wf_nodes vh M" "a \<notin> fst ` set M" "n_l n \<in> refs M" "n_r n \<in> refs M" using Cons.prems(1) e by auto
  have "closed_on M A" using Cons.prems(2) by (simp add: closed_on_def)
  then have IH: "wf_nodes vh ?M" "\<And>t. t \<in> refs ?M \<Longrightarrow> den ?M t = den M t" using Cons.IH w(1) by auto
  show ?case
  proof (cases "a \<in> A")
    case False
    then have "swept A (e # M) = ?M" using e by (simp add: swept_def)
    moreover have "t \<in> refs M" if "t \<in> refs ?M" for t using that by (simp add: swept_refs)
    ultimately show ?thesis using IH e w(2) by (auto simp: den_Cons)
  next
    case True
    then have s: "swept A (e # M) = (a, n) # ?M" using e by (simp add: swept_def)
    have k: "n_l n \<in> refs ?M" "n_r n \<in> refs ?M"
      using Cons.prems(2) True e w(3,4) by (auto simp: closed_on_def swept_refs)
    have h: "ref_hash ?M t = ref_hash M t" if "t \<in> refs ?M" for t
      using ref_hash_den[OF IH(1) that] ref_hash_den[OF w(1), of t] IH(2)[OF that] that by (simp add: swept_refs)
    have f: "a \<notin> fst ` set ?M" using w(2) by (simp add: swept_dom)
    have "\<not> list_ex (\<lambda>(b, m). same_node (n_value n) (n_l n) (n_r n) m) ?M"
      using Cons.prems(1) e by (auto simp: swept_def list_ex_iff)
    moreover have "n_hash n = hashit vh ?M (n_value n) (n_l n) (n_r n)"
      using Cons.prems(1) e h k by (simp add: hashit_def)
    ultimately have "wf_nodes vh ((a, n) # ?M)" using IH(1) k f by simp
    moreover have "den ((a, n) # ?M) t = den (e # M) t" if "t \<in> refs ((a, n) # ?M)" for t
    proof (cases "t = Some a")
      case True
      then show ?thesis using IH(2)[OF k(1)] IH(2)[OF k(2)] e by simp
    next
      case False
      then have t: "t \<in> refs ?M" using that by (simp add: refs_Cons)
      then show ?thesis using IH(2)[OF t] f w(2) e by (simp add: den_Cons swept_refs)
    qed
    ultimately show ?thesis using s by simp
  qed
qed

lemma clean_keeps:
  assumes "cache_closed caches A" "caches_ok M caches" "c \<in> set caches"
  shows "filter (\<lambda>(ks, vs). list_all (contains A) ks) (clean_cache A c) = filter (\<lambda>(ks, vs). list_all (contains A) ks) c"
    "clean_cache A c = filter (\<lambda>(ks, vs). list_all (contains A) ks) c"
proof -
  have "list_all (contains A) vs" if e: "(ks, vs) \<in> set c" "list_all (contains A) ks" for ks vs
  proof -
    have "set vs \<subseteq> refs M - {None}" using assms(2,3) e(1) unfolding caches_ok_def by blast
    moreover have "\<forall>b. Some b \<in> set vs \<longrightarrow> b \<in> A" using assms(1,3) e unfolding cache_closed_def by blast
    ultimately show ?thesis unfolding list_all_contains by (metis DiffE insertI1 option.collapse subsetD)
  qed
  then show *: "clean_cache A c = filter (\<lambda>(ks, vs). list_all (contains A) ks) c"
    unfolding clean_cache_def by (intro filter_cong) auto
  show "filter (\<lambda>(ks, vs). list_all (contains A) ks) (clean_cache A c) = filter (\<lambda>(ks, vs). list_all (contains A) ks) c"
    unfolding * by simp
qed

lemma caches_ok_clean:
  assumes "A = fst ` set (swept A M)" "caches_ok M caches"
  shows "caches_ok (swept A M) (map (clean_cache A) caches)"
proof -
  have r: "refs (swept A M) = insert None (Some ` A)" using assms(1) by (simp add: refs_def)
  show ?thesis
    unfolding caches_ok_def r by (fastforce simp: clean_cache_def list_all_contains)
qed

lemma gc_ok:
  assumes w: "wf_store vh s" and k: "keep \<subseteq> fst ` set (st_M s)" and c: "caches_ok (st_M s) caches"
    and p: "\<not> st_pause s > 0"
  defines "L \<equiv> live (st_M s) caches (st_handles s \<union> keep)"
    and "L0 \<equiv> live (st_M s) [] (st_handles s \<union> keep)"
  shows "\<exists>kept caches' s'. gc keep caches s = Some (kept, caches', s') \<and> st_M s' = swept L (st_M s) \<and>
    st_handles s' = st_handles s \<and> st_pause s' = st_pause s \<and> L \<subseteq> fst ` set (st_M s) \<and>
    kept = (if L0 = fst ` set (st_M s) then keep else L) \<and>
    caches' = (if L0 = fst ` set (st_M s) then caches else map (clean_cache L) caches)"
proof -
  let ?M = "st_M s" and ?D = "fst ` set (st_M s)"
  note wM = wf_store_nodes[OF w]
  let ?rs = "filter (\<lambda>a. a \<in> st_handles s) (map fst ?M) @ sorted_list_of_set keep"
  have fin: "finite keep" using k finite_subset by blast
  have rs: "set ?rs = st_handles s \<union> keep" using w fin by (auto simp: wf_store_def)
  have rsD: "set ?rs \<subseteq> ?D" using rs k w by (auto simp: wf_store_def)
  have cl: "closed ?M {}" by (simp add: closed_def)
  obtain N where N: "mark_all ?M {} ?rs = Some N" "set ?rs \<subseteq> N" "closed ?M N"
    "\<forall>L. set ?rs \<subseteq> L \<and> closed ?M L \<longrightarrow> N \<subseteq> L" using mark_all_ok[OF wM rsD cl] by auto
  have RN: "st_handles s \<union> keep \<subseteq> N" using N(2) unfolding rs .
  have ND: "N \<subseteq> ?D" using N(4) rsD closed_all[OF wM] by blast
  have L0: "L0 = N"
  proof
    show "L0 \<subseteq> N" unfolding L0_def by (rule live_least[OF RN N(3)]) (simp add: cache_closed_def)
    show "N \<subseteq> L0" unfolding L0_def
      using N(4)[unfolded rs] live_closed(1,3)[where M = ?M and caches = "[]" and R = "st_handles s \<union> keep"] by blast
  qed
  have LD: "L \<subseteq> ?D" unfolding L_def using live_least[OF rsD[unfolded rs] closed_all[OF wM] cache_closed_all[OF c]] .
  have L0L: "L0 \<subseteq> L"
    unfolding L_def L0_def using live_closed[where M = ?M and caches = caches and R = "st_handles s \<union> keep"] by (intro live_least) (auto simp: cache_closed_def)
  have card: "card N = length ?M \<longleftrightarrow> N = ?D"
  proof -
    have "card ?D = length ?M" using distinct_card[OF wf_distinct[OF wM]] by simp
    then show ?thesis using ND by (metis List.finite_set card_subset_eq finite_imageI)
  qed
  show ?thesis
  proof (cases "?M = [] \<or> card N = length ?M")
    case True
    have ND': "N = ?D"
    proof (cases "?M = []")
      case True
      then show ?thesis using ND by simp
    next
      case False
      then show ?thesis using True card by simp
    qed
    then have "L = ?D" using L0 L0L LD by blast
    then have "swept L ?M = ?M" by (simp add: swept_def filter_id_conv split_beta)
    moreover have "gc keep caches s = Some (keep, caches, s)" using p N(1) True by (simp add: gc_def)
    ultimately show ?thesis using L0 ND' LD by auto
  next
    case False
    then have ne: "L0 \<noteq> ?D" using card L0 by simp
    obtain N2 where 2: "expand ?M caches N = Some N2" "N \<subseteq> N2" "closed ?M N2" "cache_closed caches N2"
      "\<forall>L. N \<subseteq> L \<and> closed ?M L \<and> cache_closed caches L \<longrightarrow> N2 \<subseteq> L" using expand_ok[OF wM c N(3) ND] by blast
    have "N2 = L"
    proof
      show "N2 \<subseteq> L" using 2(5) L0 L0L live_closed[where M = ?M and caches = caches and R = "st_handles s \<union> keep"] unfolding L_def by blast
      show "L \<subseteq> N2" unfolding L_def using live_least[OF _ 2(3,4)] RN 2(2) by blast
    qed
    moreover have "keep \<union> fst ` set (swept L ?M) = L"
      using LD rs live_closed(3)[where M = ?M and caches = caches and R = "st_handles s \<union> keep"] unfolding swept_dom L_def by blast
    ultimately show ?thesis using p N(1) 2(1) False ne LD
      by (simp add: gc_def Let_def flip: swept_def)
  qed
qed

lemma live_sweep:
  fixes R :: "nat set"
  assumes w: "wf_store vh s" and c: "caches_ok (st_M s) caches"
  defines "L \<equiv> live (st_M s) caches R"
  assumes L: "L \<subseteq> fst ` set (st_M s)" and R: "st_handles s \<subseteq> R"
  shows "wf_store vh (s\<lparr>st_M := swept L (st_M s)\<rparr>)" "fst ` set (swept L (st_M s)) = L"
    "\<forall>t \<in> refs (swept L (st_M s)). den (swept L (st_M s)) t = den (st_M s) t"
    "caches_ok (swept L (st_M s)) (map (clean_cache L) caches)"
proof -
  note wM = wf_store_nodes[OF w]
  show d: "fst ` set (swept L (st_M s)) = L" using L by (auto simp: swept_dom)
  show "caches_ok (swept L (st_M s)) (map (clean_cache L) caches)" using caches_ok_clean[OF _ c] d by simp
  have "closed_on (st_M s) L" unfolding L_def by (rule closed_on[OF wM live_closed(1)])
  note * = swept_ok[OF wM this]
  then show "\<forall>t \<in> refs (swept L (st_M s)). den (swept L (st_M s)) t = den (st_M s) t" by blast
  have "st_handles s \<subseteq> L" using R live_closed(3) unfolding L_def by blast
  then show "wf_store vh (s\<lparr>st_M := swept L (st_M s)\<rparr>)" using * d by (simp add: wf_store_def)
qed

section \<open>Runs of the store\<close>

text \<open>What clients do: they create nodes over references of the store, take and drop handles, pause the
  collector, enter references into the caches, and collect.\<close>

inductive store_step :: "alloc \<Rightarrow> ('v \<Rightarrow> u64) \<Rightarrow> 'v store \<times> cache list \<Rightarrow> 'v store \<times> cache list \<Rightarrow> bool" for al vh where
  get: "l \<in> refs (st_M s) \<Longrightarrow> r \<in> refs (st_M s) \<Longrightarrow> store_step al vh (s, cs) (snd (get_node al vh v l r s), cs)"
| geth: "store_step al vh (s, cs) (snd (geth t s), cs)"
| drop: "store_step al vh (s, cs) (drop_handle a s, cs)"
| pause: "store_step al vh (s, cs) (pause_gc s, cs)"
| resume: "store_step al vh (s, cs) (resume_gc s, cs)"
| create_cache: "caches_ok (st_M s) [init] \<Longrightarrow> store_step al vh (s, cs) (s, cs @ [init])"
| emplace: "i < length cs \<Longrightarrow> set ks \<subseteq> refs (st_M s) \<Longrightarrow> set vs \<subseteq> refs (st_M s) - {None} \<Longrightarrow>
    store_step al vh (s, cs) (s, cs[i := (cs ! i) @ [(ks, vs)]])"
| collect: "keep \<subseteq> fst ` set (st_M s) \<Longrightarrow> gc keep cs s = Some (kept, cs', s') \<Longrightarrow> store_step al vh (s, cs) (s', cs')"

inductive run :: "alloc \<Rightarrow> ('v \<Rightarrow> u64) \<Rightarrow> nat set \<Rightarrow> 'v store \<times> cache list \<Rightarrow> 'v store \<times> cache list \<Rightarrow> bool"
  for al vh H where
  run_refl: "run al vh H x x"
| run_step: "run al vh H x (s, cs) \<Longrightarrow> H \<subseteq> st_handles s \<Longrightarrow> store_step al vh (s, cs) y \<Longrightarrow> run al vh H x y"

definition store_inv :: "('v \<Rightarrow> u64) \<Rightarrow> 'v store \<times> cache list \<Rightarrow> bool" where
  "store_inv vh x \<longleftrightarrow> wf_store vh (fst x) \<and> caches_ok (st_M (fst x)) (snd x)"

lemma store_inv_empty: "store_inv vh (empty_store, [])"
  by (simp add: store_inv_def empty_store_def wf_store_def caches_ok_def)

lemma caches_ok_mono: "refs M \<subseteq> refs M' \<Longrightarrow> caches_ok M cs \<Longrightarrow> caches_ok M' cs"
  unfolding caches_ok_def by fast

text \<open>A step keeps the invariant and the tree of every handle.\<close>

lemma gc_step:
  assumes i: "store_inv vh (s, cs)" and k: "keep \<subseteq> fst ` set (st_M s)" and g: "gc keep cs s = Some (kept, cs', s')"
  shows "store_inv vh (s', cs') \<and> st_handles s' = st_handles s \<and> refs (st_M s') \<subseteq> refs (st_M s) \<and>
    (\<forall>t \<in> refs (st_M s'). den (st_M s') t = den (st_M s) t)"
proof (cases "st_pause s > 0")
  case True
  then show ?thesis using g i by (simp add: gc_def)
next
  case False
  let ?L = "live (st_M s) cs (st_handles s \<union> keep)" and ?D = "fst ` set (st_M s)"
  have w: "wf_store vh s" and c: "caches_ok (st_M s) cs" using i by (simp_all add: store_inv_def)
  have s': "st_M s' = swept ?L (st_M s)" "st_handles s' = st_handles s" "?L \<subseteq> ?D"
    "cs' = (if live (st_M s) [] (st_handles s \<union> keep) = ?D then cs else map (clean_cache ?L) cs)"
    using gc_ok[OF w k c False] g by auto
  note * = live_sweep[OF w c s'(3) Un_upper1]
  have "refs (swept ?L (st_M s)) \<subseteq> refs (st_M s)" by (auto simp: refs_def swept_dom)
  moreover have "caches_ok (swept ?L (st_M s)) cs'"
  proof (cases "live (st_M s) [] (st_handles s \<union> keep) = ?D")
    case True
    have "live (st_M s) [] (st_handles s \<union> keep) \<subseteq> ?L"
      using live_closed[where M = "st_M s" and caches = cs and R = "st_handles s \<union> keep"]
      by (intro live_least) (auto simp: cache_closed_def)
    then have "?L = ?D" using True s'(3) by blast
    then have "swept ?L (st_M s) = st_M s" by (simp add: swept_def filter_id_conv split_beta)
    then show ?thesis using True s'(4) c by simp
  next
    case False
    then show ?thesis using s'(4) *(4) by simp
  qed
  moreover have "wf_store vh s'" using *(1) s'(1,2) by (simp add: wf_store_def)
  ultimately show ?thesis using s'(1,2) *(3) by (simp add: store_inv_def)
qed

lemma step_ok:
  assumes al: "fresh al" and i: "store_inv vh (s, cs)" and st: "store_step al vh (s, cs) (s', cs')"
  shows "store_inv vh (s', cs') \<and>
    (\<forall>t \<in> refs (st_M s) \<inter> refs (st_M s'). den (st_M s') t = den (st_M s) t)"
proof -
  have w: "wf_store vh s" and c: "caches_ok (st_M s) cs" using i by (simp_all add: store_inv_def)
  from st show ?thesis
  proof (cases rule: store_step.cases)
    case (get l r v)
    then have l: "l \<in> refs (st_M s)" "r \<in> refs (st_M s)" "cs' = cs" by auto
    obtain a where g: "get_node al vh v l r s = (a, s')" using get by (metis prod.collapse prod.inject)
    show ?thesis using get_node_ok[OF al w l(1,2) g] c l(3) caches_ok_mono by (auto simp: store_inv_def)
  next
    case (geth t)
    then have "st_M s' = st_M s" "st_handles s' \<subseteq> st_handles s \<union> fst ` set (st_M s)"
      by (auto simp: geth_def map_of_eq_None_iff split: option.splits if_splits)
    then show ?thesis using w c geth by (auto simp: store_inv_def wf_store_def)
  next
    case (drop a)
    then show ?thesis using w c by (auto simp: store_inv_def wf_store_def drop_handle_def)
  next
    case create_cache
    then show ?thesis using w c by (auto simp: store_inv_def caches_ok_def)
  next
    case (emplace j ks vs)
    then have e: "s' = s" "cs' = cs[j := (cs ! j) @ [(ks, vs)]]" "cs ! j \<in> set cs" "set ks \<subseteq> refs (st_M s)"
      "set vs \<subseteq> refs (st_M s) - {None}" by auto
    have "caches_ok (st_M s) cs'"
      unfolding caches_ok_def
    proof
      fix d assume "d \<in> set cs'"
      then have "d \<in> set cs \<or> d = cs ! j @ [(ks, vs)]" using e(2) set_update_subset_insert[of cs j] by blast
      then show "\<forall>(ks, vs) \<in> set d. set ks \<subseteq> refs (st_M s) \<and> set vs \<subseteq> refs (st_M s) - {None}"
      proof
        assume "d \<in> set cs"
        then show ?thesis using c unfolding caches_ok_def by blast
      next
        assume d: "d = cs ! j @ [(ks, vs)]"
        have "\<forall>(ks, vs) \<in> set (cs ! j). set ks \<subseteq> refs (st_M s) \<and> set vs \<subseteq> refs (st_M s) - {None}"
          using c e(3) unfolding caches_ok_def by blast
        then show ?thesis using e(4,5) unfolding d by simp
      qed
    qed
    then show ?thesis using w e(1) by (simp add: store_inv_def)
  next
    case (collect keep kept)
    then have "keep \<subseteq> fst ` set (st_M s)" "gc keep cs s = Some (kept, cs', s')" by auto
    from gc_step[OF i this] show ?thesis by blast
  qed (use w c in \<open>auto simp: store_inv_def wf_store_def pause_gc_def resume_gc_def\<close>)
qed

lemma run_ok:
  assumes al: "fresh al"
  shows "run al vh H x y \<Longrightarrow> store_inv vh x \<Longrightarrow> H \<subseteq> st_handles (fst x) \<Longrightarrow>
    store_inv vh y \<and> (\<forall>a \<in> H. H \<subseteq> st_handles (fst y) \<longrightarrow> den (st_M (fst y)) (Some a) = den (st_M (fst x)) (Some a))"
proof (induction rule: run.induct)
  case (run_step x s cs y)
  obtain s' cs' where y: "y = (s', cs')" by fastforce
  have i: "store_inv vh (s, cs)" and d: "\<forall>a \<in> H. den (st_M s) (Some a) = den (st_M (fst x)) (Some a)"
    using run_step.IH[OF run_step.prems] run_step.hyps(2) by auto
  note s = step_ok[OF al i run_step.hyps(3)[unfolded y]]
  have h: "\<forall>a \<in> A. Some a \<in> refs (st_M u)" if "wf_store vh u" "A \<subseteq> st_handles u" for u :: "'a store" and A
    using that by (auto simp: wf_store_def refs_Some)
  have "den (st_M s') (Some a) = den (st_M s) (Some a)" if "a \<in> H" "H \<subseteq> st_handles s'" for a
    using s h[of s H] h[of s' H] that i run_step.hyps(2) by (auto simp: store_inv_def)
  then show ?case using s d y by simp
qed simp

section \<open>What the store promises\<close>

lemma run_inv:
  assumes "fresh al" "run al vh {} (empty_store, []) x"
  shows "store_inv vh x"
  using run_ok[OF assms store_inv_empty] by simp

lemma one_node:
  "get_node next_address nat_hash 4 None None empty_store =
    (1, \<lparr>st_M = [(1, \<lparr>n_value = 4, n_l = None, n_r = None, n_hash = hash_combines 0 [4, 0, 0]\<rparr>)],
      st_handles = {}, st_pause = 0\<rparr>)"
  by (simp add: get_node_def empty_store_def next_address_def hashit_def ref_hash_def)

lemma two_nodes:
  "get_node next_address nat_hash 5 None None (snd (get_node next_address nat_hash 4 None None empty_store)) =
    (2, \<lparr>st_M = [(2, \<lparr>n_value = 5, n_l = None, n_r = None, n_hash = hash_combines 0 [5, 0, 0]\<rparr>),
        (1, \<lparr>n_value = 4, n_l = None, n_r = None, n_hash = hash_combines 0 [4, 0, 0]\<rparr>)],
      st_handles = {}, st_pause = 0\<rparr>)"
  unfolding one_node by (simp add: get_node_def next_address_def hashit_def ref_hash_def same_node_def)

text \<open>Two leaves, the older one with a handle.\<close>

definition leaves :: "nat store" where
  "leaves = snd (geth (Some 1) (snd (get_node next_address nat_hash 5 None None
     (snd (get_node next_address nat_hash 4 None None empty_store)))))"

lemma leaves_run: "run next_address nat_hash {} (empty_store, []) (leaves, [])"
  unfolding leaves_def
  by (rule run_step[OF run_step[OF run_step[OF run_refl _ store_step.get] _ store_step.get] _ store_step.geth]) simp_all

lemma leaves_simp:
  "leaves = \<lparr>st_M = [(2, \<lparr>n_value = 5, n_l = None, n_r = None, n_hash = hash_combines 0 [5, 0, 0]\<rparr>),
        (1, \<lparr>n_value = 4, n_l = None, n_r = None, n_hash = hash_combines 0 [4, 0, 0]\<rparr>)],
      st_handles = {1}, st_pause = 0\<rparr>"
  unfolding leaves_def two_nodes by (simp add: geth_def)

text \<open>C19: In every state that clients can reach by creating nodes, taking and dropping handles, pausing,
  filling caches and collecting, a reference identifies its tree: two references of the store are equal
  exactly when the trees below them are equal, and creating a node whose tree is there already gives back
  its reference and leaves the store unchanged.\<close>
theorem reference_is_tree:
  assumes "fresh al" "run al vh {} (empty_store, []) (s, cs)" "t \<in> refs (st_M s)" "u \<in> refs (st_M s)"
  shows "(den (st_M s) t = den (st_M s) u \<longleftrightarrow> t = u) \<and>
    (\<forall>a v. u = Some a \<and> l \<in> refs (st_M s) \<and> r \<in> refs (st_M s) \<and> den (st_M s) u = Bt v (den (st_M s) l) (den (st_M s) r) \<longrightarrow>
      get_node al vh v l r s = (a, s))"
proof -
  have w: "wf_store vh s" using run_inv[OF assms(1,2)] by (simp add: store_inv_def)
  note wM = wf_store_nodes[OF w]
  have "get_node al vh v l r s = (a, s)"
    if "u = Some a" "l \<in> refs (st_M s)" "r \<in> refs (st_M s)" "den (st_M s) u = Bt v (den (st_M s) l) (den (st_M s) r)" for a v
  proof -
    have u: "Some a \<in> refs (st_M s)" using assms(4) that(1) by simp
    have d: "n_value (node_at (st_M s) a) = v" "n_l (node_at (st_M s) a) = l" "n_r (node_at (st_M s) a) = r"
      using that den_node_at[OF wM u] den_inj[OF wM] by auto
    obtain n where n: "(a, n) \<in> set (st_M s)" "node_at (st_M s) a = n"
      using u by (metis map_of_SomeD map_of_eq_None_iff not_None_eq refs_Some node_at_def option.sel)
    obtain b s' where g: "get_node al vh v l r s = (b, s')" by fastforce
    have "find (\<lambda>(a, n). same_node v l r n) (st_M s) \<noteq> None"
      using n d by (auto simp: find_None_iff same_node_def)
    then have "s' = s" using g by (auto simp: get_node_def split: option.splits)
    then have "den (st_M s) (Some b) = den (st_M s) (Some a)" "Some b \<in> refs (st_M s)"
      using get_node_ok(2,5)[OF assms(1) w that(2,3) g] that(1,4) by simp_all
    then show ?thesis using bt_eqI[OF wM _ u] g \<open>s' = s\<close> by blast
  qed
  then show ?thesis using den_inj[OF wM assms(3,4)] by blast
qed

theorem reference_is_tree_witness:
  "den (st_M leaves) (Some 1) \<noteq> den (st_M leaves) (Some 2) \<and>
    get_node next_address nat_hash 5 None None leaves = (2, leaves)"
proof -
  have r: "Some 1 \<in> refs (st_M leaves)" "Some 2 \<in> refs (st_M leaves)" by (simp_all add: leaves_simp refs_def)
  have "den (st_M leaves) (Some 2) = Bt 5 Nil Nil" by (simp add: leaves_simp)
  then show ?thesis
    using reference_is_tree[OF fresh_next_address leaves_run r, of None None] by auto
qed

text \<open>C20: A handle keeps its tree: whatever clients do, collections included, as long as they hold a
  set of handles, the references of these handles stay in the store and stand for the same trees.\<close>
theorem handles_keep_trees:
  assumes "fresh al" "run al vh {} (empty_store, []) (s, cs)" "H \<subseteq> st_handles s"
    "run al vh H (s, cs) (s', cs')" "H \<subseteq> st_handles s'" "a \<in> H"
  shows "Some a \<in> refs (st_M s') \<and> den (st_M s') (Some a) = den (st_M s) (Some a) \<and> den (st_M s') (Some a) \<noteq> Nil"
proof -
  note i = run_ok[OF assms(1,4) run_inv[OF assms(1,2)]]
  then have w: "wf_store vh s'" and d: "den (st_M s') (Some a) = den (st_M s) (Some a)"
    using assms(3,5,6) by (auto simp: store_inv_def)
  have "Some a \<in> refs (st_M s')" using w assms(5,6) by (auto simp: wf_store_def refs_Some)
  then show ?thesis using d den_Nil[OF wf_store_nodes[OF w], of "Some a"] by simp
qed

lemma leaves_gc:
  "gc {} [[([Some 2], [Some 1])]] leaves = Some ({1}, [[]], leaves\<lparr>st_M := swept {1} (st_M leaves)\<rparr>)"
proof -
  have m: "mark (st_M leaves) {} (Some 1) = Some {1}" by (simp add: leaves_simp mark.simps)
  have e: "expand (st_M leaves) [[([Some 2], [Some 1])]] {1} = Some {1}"
    by (subst expand.simps) (simp add: expand_cache_def)
  have f: "filter (\<lambda>a. a \<in> st_handles leaves) (map fst (st_M leaves)) @ sorted_list_of_set {} = [1]"
    "\<not> 0 < st_pause leaves" "st_M leaves \<noteq> []" "length (st_M leaves) = 2"
    by (simp_all add: leaves_simp)
  have k: "{} \<union> fst ` set (swept {1} (st_M leaves)) = {1}" by (simp add: leaves_simp swept_def)
  have "clean_cache {1} [([Some 2], [Some 1])] = []" by (simp add: clean_cache_def)
  then show ?thesis
    unfolding gc_def f(1) using f(2-4) m e k by (simp add: Let_def flip: swept_def)
qed

theorem handles_keep_trees_witness:
  "den (swept {1} (st_M leaves)) (Some 1) = den (st_M leaves) (Some 1)"
proof -
  have k: "{} \<subseteq> fst ` set (st_M leaves)" by simp
  have "gc {} [] leaves = Some ({1}, [], leaves\<lparr>st_M := swept {1} (st_M leaves)\<rparr>)"
  proof -
    have m: "mark (st_M leaves) {} (Some 1) = Some {1}" by (simp add: leaves_simp mark.simps)
    have e: "expand (st_M leaves) [] {1} = Some {1}" by (subst expand.simps) simp
    have f: "filter (\<lambda>a. a \<in> st_handles leaves) (map fst (st_M leaves)) @ sorted_list_of_set {} = [1]"
      "\<not> 0 < st_pause leaves" "st_M leaves \<noteq> []" "length (st_M leaves) = 2"
      by (simp_all add: leaves_simp)
    have "{} \<union> fst ` set (swept {1} (st_M leaves)) = {1}" by (simp add: leaves_simp swept_def)
    then show ?thesis unfolding gc_def f(1) using f(2-4) m e by (simp add: Let_def flip: swept_def)
  qed
  note c = store_step.collect[OF k this]
  have H: "{1} \<subseteq> st_handles leaves" by (simp add: leaves_simp)
  note r = run_step[OF run_refl H c]
  show ?thesis
    using handles_keep_trees[OF fresh_next_address leaves_run H r, of 1] by (simp add: leaves_simp)
qed

text \<open>C18: A collection removes exactly the garbage. In every state that clients can reach, and for any
  set of nodes to keep, it returns; a paused collector changes nothing; otherwise the nodes left are
  exactly the live ones, that is those below a handle or a node to keep, or in the value of a cache entry
  whose key is live. The handles are kept, every node left stands for the same tree, the entries of the
  caches whose key is live are kept, and no cache refers to a node that is gone.\<close>
theorem gc_removes_garbage:
  assumes "fresh al" "run al vh {} (empty_store, []) (s, cs)" "keep \<subseteq> fst ` set (st_M s)"
  shows "\<exists>kept cs' s'. gc keep cs s = Some (kept, cs', s') \<and> st_handles s' = st_handles s \<and>
    (if st_pause s > 0 then s' = s \<and> cs' = cs
     else fst ` set (st_M s') = live (st_M s) cs (st_handles s \<union> keep)) \<and>
    (\<forall>t \<in> refs (st_M s'). den (st_M s') t = den (st_M s) t) \<and> wf_store vh s' \<and> caches_ok (st_M s') cs' \<and>
    map (filter (\<lambda>(ks, vs). list_all (contains (live (st_M s) cs (st_handles s \<union> keep))) ks)) cs' =
    map (filter (\<lambda>(ks, vs). list_all (contains (live (st_M s) cs (st_handles s \<union> keep))) ks)) cs"
proof (cases "st_pause s > 0")
  case True
  then show ?thesis using run_inv[OF assms(1,2)] by (simp add: gc_def store_inv_def)
next
  case False
  let ?L = "live (st_M s) cs (st_handles s \<union> keep)"
  have i: "store_inv vh (s, cs)" by (rule run_inv[OF assms(1,2)])
  then have w: "wf_store vh s" and c: "caches_ok (st_M s) cs" by (simp_all add: store_inv_def)
  obtain kept cs' s' where g: "gc keep cs s = Some (kept, cs', s')" "st_M s' = swept ?L (st_M s)" "?L \<subseteq> fst ` set (st_M s)"
    "cs' = (if live (st_M s) [] (st_handles s \<union> keep) = fst ` set (st_M s) then cs else map (clean_cache ?L) cs)"
    using gc_ok[OF w assms(3) c False] by blast
  note s = gc_step[OF i assms(3) g(1)]
  have "fst ` set (st_M s') = ?L" using live_sweep(2)[OF w c g(3) Un_upper1] g(2) by simp
  moreover have "map (filter (\<lambda>(ks, vs). list_all (contains ?L) ks)) cs' = map (filter (\<lambda>(ks, vs). list_all (contains ?L) ks)) cs"
    using g(4) clean_keeps(1)[OF live_closed(2) c] by (auto simp: o_def)
  ultimately show ?thesis using g(1) s False by (auto simp: store_inv_def)
qed

theorem gc_removes_garbage_witness:
  "\<exists>kept cs' s'. gc {2} [] leaves = Some (kept, cs', s') \<and> fst ` set (st_M s') = live (st_M leaves) [] {1, 2}"
proof -
  have k: "{2} \<subseteq> fst ` set (st_M leaves)" by (simp add: leaves_simp)
  have h: "st_handles leaves \<union> {2} = {1, 2}" "\<not> st_pause leaves > 0" by (auto simp: leaves_simp)
  show ?thesis
    using gc_removes_garbage[OF fresh_next_address leaves_run k] unfolding h(1) using h(2) by auto
qed

text \<open>The set of nodes to keep is completed only by a collection that sweeps: a collector that is
  paused, or that finds every node below a handle or a node to keep, leaves the set as it was passed,
  otherwise the set then holds all the nodes left.\<close>
theorem gc_completes_keep:
  assumes "fresh al" "run al vh {} (empty_store, []) (s, cs)" "keep \<subseteq> fst ` set (st_M s)"
    "gc keep cs s = Some (kept, cs', s')"
  shows "kept = (if st_pause s > 0 \<or> live (st_M s) [] (st_handles s \<union> keep) = fst ` set (st_M s) then keep
    else fst ` set (st_M s'))"
proof (cases "st_pause s > 0")
  case True
  then show ?thesis using assms(4) by (simp add: gc_def)
next
  case False
  let ?L = "live (st_M s) cs (st_handles s \<union> keep)"
  have w: "wf_store vh s" and c: "caches_ok (st_M s) cs" using run_inv[OF assms(1,2)] by (simp_all add: store_inv_def)
  have g: "st_M s' = swept ?L (st_M s)" "?L \<subseteq> fst ` set (st_M s)"
    "kept = (if live (st_M s) [] (st_handles s \<union> keep) = fst ` set (st_M s) then keep else ?L)"
    using gc_ok[OF w assms(3) c False] assms(4) by auto
  then show ?thesis using live_sweep(2)[OF w c g(2) Un_upper1] False by simp
qed

theorem gc_completes_keep_witness:
  "\<exists>cs' s'. gc {2} [] leaves = Some ({2}, cs', s') \<and> fst ` set (st_M leaves) = {1, 2}"
proof -
  let ?N = "fst ` set (st_M leaves)"
  have d: "?N = {1, 2}" by (auto simp: leaves_simp)
  have m: "mark_all (st_M leaves) {} [1, 2] = Some {1, 2}" by (auto simp: leaves_simp mark.simps)
  have g: "gc {2} [] leaves = Some ({2}, [], leaves)"
  proof -
    have f: "filter (\<lambda>a. a \<in> st_handles leaves) (map fst (st_M leaves)) @ sorted_list_of_set {2} = [1, 2]"
      "\<not> 0 < st_pause leaves" "length (st_M leaves) = 2" by (simp_all add: leaves_simp)
    show ?thesis unfolding gc_def f(1) using f(2,3) m by simp
  qed
  have k: "{2} \<subseteq> ?N" by (simp add: d)
  have "{2} = (if st_pause leaves > 0 \<or> live (st_M leaves) [] (st_handles leaves \<union> {2}) = ?N then {2} else ?N)"
    by (rule gc_completes_keep[OF fresh_next_address leaves_run k g])
  then show ?thesis using g d by auto
qed

end
