(* ===== verification/TreeVisit.thy ===== *)
theory TreeVisit
  imports TreeGc
begin

text \<open>
  The read-only traversals of the trees, \<open>pre_order::const_traverse\<close> in
  \<open>src/src/utility/tree_traversals_pre_order.tmpl.h\<close> and \<open>post_order::const_traverse\<close> in
  \<open>tree_traversals_post_order.tmpl.h\<close>: loops over a stack of nodes and a stack of the positions of the
  unprocessed ones. The callbacks are functions on the state that they capture. The loops are compared
  with a recursion over the tree of the addresses.
\<close>

section \<open>The callbacks\<close>

text \<open>A callback is called with a node and its parent. The flags are the template arguments.\<close>

record 's visitor =
  v_search :: bool
  v_unique :: bool
  v_subtree :: "'s \<Rightarrow> nat \<Rightarrow> tref \<Rightarrow> bool \<times> 's"
  v_visit :: "'s \<Rightarrow> nat \<Rightarrow> tref \<Rightarrow> bool \<times> 's"
  v_up :: "'s \<Rightarrow> nat \<Rightarrow> tref \<Rightarrow> 's"
  v_between :: "'s \<Rightarrow> nat \<Rightarrow> tref \<Rightarrow> 's"

text \<open>\<open>cache\<close> is a set of nodes up to equality of subtrees.\<close>

definition seen :: "'v nodes \<Rightarrow> nat list \<Rightarrow> nat \<Rightarrow> bool" where
  "seen M K a = list_ex (\<lambda>k. subtree_equals M (Some k) (Some a)) K"

definition remember :: "'s visitor \<Rightarrow> 'v nodes \<Rightarrow> nat \<Rightarrow> nat list \<Rightarrow> nat list" where
  "remember vt M a K = (if v_unique vt \<and> \<not> seen M K a then a # K else K)"

text \<open>\<open>get_parent\<close> of \<open>pre_order\<close>.\<close>

definition pre_parent :: "nat list \<Rightarrow> nat list \<Rightarrow> tref" where
  "pre_parent stack upos = (if upos = [] then None else Some (stack ! last upos))"

section \<open>Pre-order\<close>

text \<open>A node is left: \<open>up\<close>, and \<open>between\<close> when it has a right sibling.\<close>

definition leave :: "'s visitor \<Rightarrow> 'v nodes \<Rightarrow> 's \<Rightarrow> nat \<Rightarrow> tref \<Rightarrow> 's" where
  "leave vt M s a par =
     (let s = v_up vt s a par in if n_r (node_at M a) \<noteq> None then v_between vt s a par else s)"

text \<open>The loop. The stacks are vectors, their last element is the top.\<close>

partial_function (option) pre_loop ::
  "'s visitor \<Rightarrow> 'v nodes \<Rightarrow> nat list \<Rightarrow> nat list \<Rightarrow> nat list \<Rightarrow> 's \<Rightarrow> 's option" where
  [code]: "pre_loop vt M stack upos K s =
     (if upos = [] then Some s
      else
        (let c_node = stack ! last upos; t = node_at M c_node in
         if n_l t = None then
           (let upos = butlast upos
            in pre_loop vt M stack upos K (leave vt M s c_node (pre_parent stack upos)))
         else
           (case (if last stack = c_node then n_l t else n_r (node_at M (last stack))) of
              None \<Rightarrow>
                (let c_pos = (length stack - 1) - last upos; upos = butlast upos
                 in pre_loop vt M (take (length stack - c_pos) stack) upos K
                      (leave vt M s c_node (pre_parent stack upos)))
            | Some c \<Rightarrow>
                (let stack = stack @ [c] in
                 if v_unique vt \<and> seen M K c then pre_loop vt M stack upos K s
                 else
                   (case v_subtree vt s c (Some c_node) of
                      (enter, s) \<Rightarrow>
                        if \<not> enter then pre_loop vt M stack upos (remember vt M c K) s
                        else
                          (case v_visit vt s c (Some c_node) of
                             (go_on, s) \<Rightarrow>
                               if go_on then pre_loop vt M stack (upos @ [length stack - 1]) (remember vt M c K) s
                               else if v_search vt then Some s
                               else pre_loop vt M stack upos (remember vt M c K) s))))))"

definition pre_const_traverse :: "'s visitor \<Rightarrow> 'v nodes \<Rightarrow> tref \<Rightarrow> 's \<Rightarrow> 's option" where
  "pre_const_traverse vt M n s =
     (case n of None \<Rightarrow> Some s
      | Some n \<Rightarrow>
          (case v_subtree vt s n None of
             (False, s) \<Rightarrow> Some s
           | (True, s) \<Rightarrow>
               (case v_visit vt s n None of
                  (True, s) \<Rightarrow> pre_loop vt M [n] [0] (remember vt M n []) s
                | (False, s) \<Rightarrow> if v_search vt then Some s else pre_loop vt M [n] [] (remember vt M n []) s)))"

text \<open>\<open>visit\<close>, \<open>search\<close>, \<open>visit_unique\<close> and \<open>search_unique\<close> with a predicate: it is asked about the root
  before the traversal asks again.\<close>

definition pre_visit :: "'s visitor \<Rightarrow> 'v nodes \<Rightarrow> nat \<Rightarrow> 's \<Rightarrow> 's option" where
  "pre_visit vt M n s =
     (case v_subtree vt s n None of (True, s) \<Rightarrow> pre_const_traverse vt M (Some n) s | (False, s) \<Rightarrow> Some s)"

text \<open>Without a predicate, \<open>all\<close>, \<open>identity\<close> and \<open>do_nothing\<close> are the others.\<close>

definition visit_all :: "('s \<Rightarrow> nat \<Rightarrow> tref \<Rightarrow> bool \<times> 's) \<Rightarrow> 's visitor" where
  "visit_all f = \<lparr>v_search = False, v_unique = False, v_subtree = (\<lambda>s a p. (True, s)), v_visit = f,
     v_up = (\<lambda>s a p. s), v_between = (\<lambda>s a p. s)\<rparr>"

section \<open>Post-order\<close>

text \<open>\<open>get_parent\<close> of \<open>post_order\<close>: the current node is still on \<open>upos\<close>.\<close>

definition post_parent :: "nat list \<Rightarrow> nat list \<Rightarrow> tref" where
  "post_parent stack upos =
     (if length upos < 2 then None else Some (stack ! (upos ! (length upos - 2))))"

partial_function (option) post_loop ::
  "'s visitor \<Rightarrow> 'v nodes \<Rightarrow> nat list \<Rightarrow> nat list \<Rightarrow> nat list \<Rightarrow> 's \<Rightarrow> 's option" where
  [code]: "post_loop vt M stack upos K s =
     (if upos = [] then Some s
      else
        (let c_node = stack ! last upos; t = node_at M c_node in
         if n_l t = None then
           (case v_visit vt s c_node (post_parent stack upos) of
              (go_on, s) \<Rightarrow> if go_on then post_loop vt M stack (butlast upos) K s else Some s)
         else
           (case (if last stack = c_node then n_l t else n_r (node_at M (last stack))) of
              None \<Rightarrow>
                (case v_visit vt s c_node (post_parent stack upos) of
                   (go_on, s) \<Rightarrow>
                     if \<not> go_on then Some s
                     else
                       (let c_pos = (length stack - 1) - last upos
                        in post_loop vt M (take (length stack - c_pos) stack) (butlast upos) K s))
            | Some c \<Rightarrow>
                (let stack = stack @ [c] in
                 if v_unique vt \<and> seen M K c then post_loop vt M stack upos K s
                 else
                   (case v_subtree vt s c (Some c_node) of
                      (enter, s) \<Rightarrow>
                        if enter then post_loop vt M stack (upos @ [length stack - 1]) (remember vt M c K) s
                        else post_loop vt M stack upos (remember vt M c K) s)))))"

definition post_const_traverse :: "'s visitor \<Rightarrow> 'v nodes \<Rightarrow> tref \<Rightarrow> 's \<Rightarrow> 's option" where
  "post_const_traverse vt M n s =
     (case n of None \<Rightarrow> Some s | Some n \<Rightarrow> post_loop vt M [n] [0] (remember vt M n []) s)"

definition post_search :: "'s visitor \<Rightarrow> 'v nodes \<Rightarrow> nat \<Rightarrow> 's \<Rightarrow> 's option" where
  "post_search vt M n s =
     (case v_subtree vt s n None of (True, s) \<Rightarrow> post_const_traverse vt M (Some n) s | (False, s) \<Rightarrow> Some s)"

section \<open>The recursions\<close>

text \<open>The tree of the addresses below a reference.\<close>

fun addresses :: "'v nodes \<Rightarrow> tref \<Rightarrow> nat bt" where
  "addresses M None = Nil"
| "addresses [] (Some a) = Nil"
| "addresses ((b, n) # M) (Some a) =
     (if a = b then Bt a (addresses M (n_l n)) (addresses M (n_r n)) else addresses M (Some a))"

text \<open>A list of siblings is visited with their subtrees, one after the other. The result tells whether
  the search has stopped.\<close>

fun pre_rec :: "'s visitor \<Rightarrow> 'v nodes \<Rightarrow> tref \<Rightarrow> nat bt \<Rightarrow> nat list \<times> 's \<Rightarrow> bool \<times> nat list \<times> 's" where
  "pre_rec vt M par Nil x = (False, x)"
| "pre_rec vt M par (Bt a l r) (K, s) =
     (if v_unique vt \<and> seen M K a then pre_rec vt M par r (K, s)
      else
        (case v_subtree vt s a par of
           (False, s) \<Rightarrow> pre_rec vt M par r (remember vt M a K, s)
         | (True, s) \<Rightarrow>
             (case v_visit vt s a par of
                (False, s) \<Rightarrow>
                  if v_search vt then (True, K, s) else pre_rec vt M par r (remember vt M a K, s)
              | (True, s) \<Rightarrow>
                  (case pre_rec vt M (Some a) l (remember vt M a K, s) of
                     (True, x) \<Rightarrow> (True, x)
                   | (False, K, s) \<Rightarrow> pre_rec vt M par r (K, leave vt M s a par)))))"

fun post_rec :: "'s visitor \<Rightarrow> 'v nodes \<Rightarrow> tref \<Rightarrow> nat bt \<Rightarrow> nat list \<times> 's \<Rightarrow> bool \<times> nat list \<times> 's" where
  "post_rec vt M par Nil x = (False, x)"
| "post_rec vt M par (Bt a l r) (K, s) =
     (if v_unique vt \<and> seen M K a then post_rec vt M par r (K, s)
      else
        (case v_subtree vt s a par of
           (False, s) \<Rightarrow> post_rec vt M par r (remember vt M a K, s)
         | (True, s) \<Rightarrow>
             (case post_rec vt M (Some a) l (remember vt M a K, s) of
                (True, x) \<Rightarrow> (True, x)
              | (False, K, s) \<Rightarrow>
                  (case v_visit vt s a par of
                     (False, s) \<Rightarrow> (True, K, s)
                   | (True, s) \<Rightarrow> post_rec vt M par r (K, s)))))"

lemma addresses_None [simp]: "addresses M None = Nil"
  by (cases M) auto

lemma addresses_Cons: "t \<in> refs M \<Longrightarrow> a \<notin> fst ` set M \<Longrightarrow> addresses ((a, n) # M) t = addresses M t"
  by (cases t) (auto simp: refs_Some)

lemma addresses_node:
  assumes "wf_nodes vh M" "Some a \<in> refs M"
  shows "addresses M (Some a) = Bt a (addresses M (n_l (node_at M a))) (addresses M (n_r (node_at M a)))"
  using assms
proof (induction M)
  case (Cons e M)
  obtain b m where e: "e = (b, m)" by fastforce
  show ?case
  proof (cases "a = b")
    case True
    then show ?thesis using Cons.prems e by (simp add: node_at_def addresses_Cons)
  next
    case False
    then have a: "Some a \<in> refs M" using Cons.prems e by (simp add: refs_Cons)
    have w: "wf_nodes vh M" "b \<notin> fst ` set M" using Cons.prems e by simp_all
    have "node_at (e # M) a = node_at M a" using False e by (simp add: node_at_def)
    then show ?thesis
      using Cons.IH[OF w(1) a] e w(2) a False den_node_at(2,3)[OF w(1) a] by (simp add: addresses_Cons)
  qed
qed (simp add: refs_def)

lemma size_addresses:
  "wf_nodes vh M \<Longrightarrow> t \<in> refs M \<Longrightarrow> size (addresses M t) = size (den M t)"
proof (induction "size (den M t)" arbitrary: t rule: less_induct)
  case less
  show ?case
  proof (cases t)
    case (Some a)
    have a: "Some a \<in> refs M" using less.prems(2) Some by simp
    note n = den_node_at[OF less.prems(1) a]
    have "size (den M (n_l (node_at M a))) < size (den M t)" "size (den M (n_r (node_at M a))) < size (den M t)"
      unfolding Some n(1) by simp_all
    then show ?thesis
      using less.hyps[OF _ less.prems(1) n(2)] less.hyps[OF _ less.prems(1) n(3)]
      unfolding Some addresses_node[OF less.prems(1) a] n(1) by simp
  qed simp
qed

section \<open>The loops compute the recursions\<close>

text \<open>The children of \<open>p\<close>, the last node of the stack, that are on the stack already, and the next one.\<close>

definition at_child :: "'v nodes \<Rightarrow> nat \<Rightarrow> nat list \<Rightarrow> tref \<Rightarrow> bool" where
  "at_child M p ds t \<longleftrightarrow> n_l (node_at M p) \<noteq> None \<and> p \<notin> set ds \<and> t \<in> refs M \<and>
     size (den M t) < size (den M (Some p)) \<and>
     t = (if ds = [] then n_l (node_at M p) else n_r (node_at M (last ds)))"

lemma at_child_next:
  assumes "wf_nodes vh M" "at_child M p ds (Some c)"
  shows "at_child M p (ds @ [c]) (n_r (node_at M c))" "Some c \<in> refs M"
    "size (den M (n_r (node_at M c))) < size (den M (Some c))"
    "n_l (node_at M c) \<noteq> None \<Longrightarrow> at_child M c [] (n_l (node_at M c))"
    "size (den M (n_l (node_at M c))) < size (den M (Some c))"
proof -
  show c: "Some c \<in> refs M" using assms(2) unfolding at_child_def by blast
  note n = den_node_at[OF assms(1) c]
  show "size (den M (n_r (node_at M c))) < size (den M (Some c))"
    "size (den M (n_l (node_at M c))) < size (den M (Some c))" unfolding n(1) by simp_all
  then show "at_child M p (ds @ [c]) (n_r (node_at M c))"
    "n_l (node_at M c) \<noteq> None \<Longrightarrow> at_child M c [] (n_l (node_at M c))"
    using assms(2) n(2,3) by (auto simp: at_child_def)
qed

lemma at_child_last:
  assumes "at_child M (last stack) ds t" "stack \<noteq> []"
  shows "(if last (stack @ ds) = last stack then n_l (node_at M (last stack))
      else n_r (node_at M (last (stack @ ds)))) = t"
    "(stack @ ds) ! (length stack - 1) = last stack"
proof -
  have "last stack \<notin> set ds" using assms(1) by (simp add: at_child_def)
  then have "ds \<noteq> [] \<Longrightarrow> last ds \<noteq> last stack" using last_in_set[of ds] by metis
  then show "(if last (stack @ ds) = last stack then n_l (node_at M (last stack))
      else n_r (node_at M (last (stack @ ds)))) = t"
    using assms by (cases "ds = []") (auto simp: at_child_def)
  show "(stack @ ds) ! (length stack - 1) = last stack" using assms(2) by (simp add: nth_append last_conv_nth)
qed

text \<open>The positions are below the top of the stack.\<close>

definition below_top :: "nat list \<Rightarrow> nat list \<Rightarrow> bool" where
  "below_top stack upos \<longleftrightarrow> stack \<noteq> [] \<and> (\<forall>u \<in> set upos. u < length stack - 1)"

lemma below_top_push:
  "below_top stack upos \<Longrightarrow> below_top (stack @ ds @ [c]) (upos @ [length stack - 1])"
  by (cases stack) (auto simp: below_top_def)

lemma pre_parent_append: "below_top stack upos \<Longrightarrow> pre_parent (stack @ ds) upos = pre_parent stack upos"
  using last_in_set[of upos] by (fastforce simp: pre_parent_def below_top_def nth_append)

lemma pre_loop_step:
  assumes "stack ! k = p" "n_l (node_at M p) \<noteq> None"
    "(if last stack = p then n_l (node_at M p) else n_r (node_at M (last stack))) = t"
  shows "pre_loop vt M stack (upos @ [k]) K s =
    (case t of
       None \<Rightarrow> pre_loop vt M (take (length stack - (length stack - 1 - k)) stack) upos K (leave vt M s p (pre_parent stack upos))
     | Some c \<Rightarrow>
         if v_unique vt \<and> seen M K c then pre_loop vt M (stack @ [c]) (upos @ [k]) K s
         else case v_subtree vt s c (Some p) of
           (enter, s) \<Rightarrow> if \<not> enter then pre_loop vt M (stack @ [c]) (upos @ [k]) (remember vt M c K) s
             else (case v_visit vt s c (Some p) of
               (go_on, s) \<Rightarrow> if go_on then pre_loop vt M (stack @ [c]) ((upos @ [k]) @ [length (stack @ [c]) - 1]) (remember vt M c K) s
                 else if v_search vt then Some s else pre_loop vt M (stack @ [c]) (upos @ [k]) (remember vt M c K) s))"
  by (subst pre_loop.simps) (simp only: Let_def assms last_snoc butlast_snoc if_False append_is_Nil_conv list.distinct simp_thms)

lemma pre_loop_leaf:
  "n_l (node_at M (stack ! k)) = None \<Longrightarrow>
    pre_loop vt M stack (upos @ [k]) K s = pre_loop vt M stack upos K (leave vt M s (stack ! k) (pre_parent stack upos))"
  by (subst pre_loop.simps) (simp add: Let_def)

lemma pre_loop_rec:
  assumes w: "wf_nodes vh M"
  shows "at_child M (last stack) ds t \<Longrightarrow> below_top stack upos \<Longrightarrow>
    pre_loop vt M (stack @ ds) (upos @ [length stack - 1]) K s =
      (case pre_rec vt M (Some (last stack)) (addresses M t) (K, s) of
         (stop, K, s) \<Rightarrow> if stop then Some s
           else pre_loop vt M stack upos K (leave vt M s (last stack) (pre_parent stack upos)))"
proof (induction "size (den M t)" arbitrary: stack ds t upos K s rule: less_induct)
  case less
  let ?p = "last stack" and ?k = "length stack - 1"
  have ne: "stack \<noteq> []" using less.prems(2) by (simp add: below_top_def)
  have l: "n_l (node_at M ?p) \<noteq> None" using less.prems(1) by (simp add: at_child_def)
  note next_ok = at_child_last[OF less.prems(1) ne]
  show ?case
  proof (cases t)
    case None
    have k: "length (stack @ ds) - 1 - ?k = length ds" using ne by (cases stack) auto
    have "take (length (stack @ ds) - (length (stack @ ds) - 1 - ?k)) (stack @ ds) = stack"
      unfolding k by simp
    then have "pre_loop vt M (stack @ ds) (upos @ [?k]) K s = pre_loop vt M stack upos K (leave vt M s ?p (pre_parent stack upos))"
      using pre_loop_step[OF next_ok(2) l next_ok(1), of vt upos K s] pre_parent_append[OF less.prems(2), of ds] None
      by (simp only: option.case)
    then show ?thesis using None by simp
  next
    case (Some c)
    note c = at_child_next[OF w less.prems(1)[unfolded Some]]
    let ?stack = "stack @ ds @ [c]" and ?fin = "\<lambda>(stop, K, s). if stop then Some s
      else pre_loop vt M stack upos K (leave vt M s ?p (pre_parent stack upos))"
    have rest: "pre_loop vt M ?stack (upos @ [?k]) K s = ?fin (pre_rec vt M (Some ?p) (addresses M (n_r (node_at M c))) (K, s))" for K s
      using less.hyps[OF _ c(1) less.prems(2)] c(3) Some by simp
    have top: "?stack ! (length ?stack - 1) = c" "last ?stack = c" by (simp_all add: nth_append)
    have par: "pre_parent ?stack (upos @ [?k]) = Some ?p"
      using ne by (simp add: pre_parent_def nth_append last_conv_nth)
    have enter: "pre_loop vt M ?stack ((upos @ [?k]) @ [length ?stack - 1]) K s =
        (case pre_rec vt M (Some c) (addresses M (n_l (node_at M c))) (K, s) of
           (stop, K, s) \<Rightarrow> if stop then Some s else pre_loop vt M ?stack (upos @ [?k]) K (leave vt M s c (Some ?p)))" for K s
    proof (cases "n_l (node_at M c)")
      case None
      have "pre_loop vt M ?stack ((upos @ [?k]) @ [length ?stack - 1]) K s =
          pre_loop vt M ?stack (upos @ [?k]) K (leave vt M s c (Some ?p))"
        using pre_loop_leaf[of M ?stack "length ?stack - 1" vt "upos @ [?k]" K s] None unfolding top par by simp
      then show ?thesis using None by simp
    next
      case (Some d)
      have "size (den M (n_l (node_at M c))) < size (den M t)" using c(5) \<open>t = Some c\<close> by simp
      moreover have "at_child M (last ?stack) [] (n_l (node_at M c))" using c(4) Some by simp
      ultimately have "pre_loop vt M (?stack @ []) ((upos @ [?k]) @ [length ?stack - 1]) K s =
          (case pre_rec vt M (Some (last ?stack)) (addresses M (n_l (node_at M c))) (K, s) of
             (stop, K, s) \<Rightarrow> if stop then Some s
               else pre_loop vt M ?stack (upos @ [?k]) K (leave vt M s (last ?stack) (pre_parent ?stack (upos @ [?k]))))"
        using below_top_push[OF less.prems(2)] by (rule less.hyps)
      then show ?thesis unfolding top(2) par append_Nil2 .
    qed
    have step: "pre_loop vt M (stack @ ds) (upos @ [?k]) K s =
        (if v_unique vt \<and> seen M K c then pre_loop vt M ?stack (upos @ [?k]) K s
         else case v_subtree vt s c (Some ?p) of
           (enter, s) \<Rightarrow> if \<not> enter then pre_loop vt M ?stack (upos @ [?k]) (remember vt M c K) s
             else (case v_visit vt s c (Some ?p) of
               (go_on, s) \<Rightarrow> if go_on then pre_loop vt M ?stack ((upos @ [?k]) @ [length ?stack - 1]) (remember vt M c K) s
                 else if v_search vt then Some s else pre_loop vt M ?stack (upos @ [?k]) (remember vt M c K) s))"
      using pre_loop_step[OF next_ok(2) l next_ok(1), of vt upos K s] Some by (simp only: option.case append_assoc)
    have a: "addresses M t = Bt c (addresses M (n_l (node_at M c))) (addresses M (n_r (node_at M c)))"
      unfolding Some by (rule addresses_node[OF w c(2)])
    show ?thesis
      unfolding step enter rest a
      by (simp split: prod.splits bool.splits)
  qed
qed

lemma post_parent_snoc: "post_parent stack (upos @ [k]) = pre_parent stack upos"
  by (cases upos rule: rev_cases) (auto simp: post_parent_def pre_parent_def nth_append)

lemma post_loop_step:
  assumes "stack ! k = p" "n_l (node_at M p) \<noteq> None"
    "(if last stack = p then n_l (node_at M p) else n_r (node_at M (last stack))) = t"
  shows "post_loop vt M stack (upos @ [k]) K s =
    (case t of
       None \<Rightarrow> (case v_visit vt s p (pre_parent stack upos) of
         (go_on, s) \<Rightarrow> if \<not> go_on then Some s
           else post_loop vt M (take (length stack - (length stack - 1 - k)) stack) upos K s)
     | Some c \<Rightarrow>
         if v_unique vt \<and> seen M K c then post_loop vt M (stack @ [c]) (upos @ [k]) K s
         else case v_subtree vt s c (Some p) of
           (enter, s) \<Rightarrow> if enter then post_loop vt M (stack @ [c]) ((upos @ [k]) @ [length (stack @ [c]) - 1]) (remember vt M c K) s
             else post_loop vt M (stack @ [c]) (upos @ [k]) (remember vt M c K) s)"
  by (subst post_loop.simps)
    (simp only: Let_def assms post_parent_snoc last_snoc butlast_snoc if_False append_is_Nil_conv list.distinct simp_thms)

lemma post_loop_leaf:
  "n_l (node_at M (stack ! k)) = None \<Longrightarrow>
    post_loop vt M stack (upos @ [k]) K s =
      (case v_visit vt s (stack ! k) (pre_parent stack upos) of (go_on, s) \<Rightarrow> if go_on then post_loop vt M stack upos K s else Some s)"
  by (subst post_loop.simps) (simp add: Let_def post_parent_snoc split: prod.splits)

lemma post_loop_rec:
  assumes w: "wf_nodes vh M"
  shows "at_child M (last stack) ds t \<Longrightarrow> below_top stack upos \<Longrightarrow>
    post_loop vt M (stack @ ds) (upos @ [length stack - 1]) K s =
      (case post_rec vt M (Some (last stack)) (addresses M t) (K, s) of
         (stop, K, s) \<Rightarrow> if stop then Some s
           else (case v_visit vt s (last stack) (pre_parent stack upos) of
             (go_on, s) \<Rightarrow> if go_on then post_loop vt M stack upos K s else Some s))"
proof (induction "size (den M t)" arbitrary: stack ds t upos K s rule: less_induct)
  case less
  let ?p = "last stack" and ?k = "length stack - 1"
  have ne: "stack \<noteq> []" using less.prems(2) by (simp add: below_top_def)
  have l: "n_l (node_at M ?p) \<noteq> None" using less.prems(1) by (simp add: at_child_def)
  note next_ok = at_child_last[OF less.prems(1) ne]
  note step = post_loop_step[OF next_ok(2) l next_ok(1), of vt upos K s]
  show ?case
  proof (cases t)
    case None
    have k: "length (stack @ ds) - 1 - ?k = length ds" using ne by (cases stack) auto
    have k: "take (length (stack @ ds) - (length (stack @ ds) - 1 - ?k)) (stack @ ds) = stack"
      unfolding k by simp
    show ?thesis
      unfolding step None option.case k pre_parent_append[OF less.prems(2)]
      by (simp split: prod.splits)
  next
    case (Some c)
    note c = at_child_next[OF w less.prems(1)[unfolded Some]]
    let ?stack = "stack @ ds @ [c]" and ?fin = "\<lambda>(stop, K, s). if stop then Some s
      else (case v_visit vt s ?p (pre_parent stack upos) of
        (go_on, s) \<Rightarrow> if go_on then post_loop vt M stack upos K s else Some s)"
    have rest: "post_loop vt M ?stack (upos @ [?k]) K s = ?fin (post_rec vt M (Some ?p) (addresses M (n_r (node_at M c))) (K, s))" for K s
      using less.hyps[OF _ c(1) less.prems(2)] c(3) Some by simp
    have top: "?stack ! (length ?stack - 1) = c" "last ?stack = c" by (simp_all add: nth_append)
    have par: "pre_parent ?stack (upos @ [?k]) = Some ?p"
      using ne by (simp add: pre_parent_def nth_append last_conv_nth)
    have enter: "post_loop vt M ?stack ((upos @ [?k]) @ [length ?stack - 1]) K s =
        (case post_rec vt M (Some c) (addresses M (n_l (node_at M c))) (K, s) of
           (stop, K, s) \<Rightarrow> if stop then Some s
             else (case v_visit vt s c (Some ?p) of
               (go_on, s) \<Rightarrow> if go_on then post_loop vt M ?stack (upos @ [?k]) K s else Some s))" for K s
    proof (cases "n_l (node_at M c)")
      case None
      show ?thesis
        using post_loop_leaf[of M ?stack "length ?stack - 1" vt "upos @ [?k]" K s] None unfolding top par by simp
    next
      case (Some d)
      have "size (den M (n_l (node_at M c))) < size (den M t)" using c(5) \<open>t = Some c\<close> by simp
      moreover have "at_child M (last ?stack) [] (n_l (node_at M c))" using c(4) Some by simp
      ultimately have "post_loop vt M (?stack @ []) ((upos @ [?k]) @ [length ?stack - 1]) K s =
          (case post_rec vt M (Some (last ?stack)) (addresses M (n_l (node_at M c))) (K, s) of
             (stop, K, s) \<Rightarrow> if stop then Some s
               else (case v_visit vt s (last ?stack) (pre_parent ?stack (upos @ [?k])) of
                 (go_on, s) \<Rightarrow> if go_on then post_loop vt M ?stack (upos @ [?k]) K s else Some s))"
        using below_top_push[OF less.prems(2)] by (rule less.hyps)
      then show ?thesis unfolding top(2) par append_Nil2 .
    qed
    have step2: "post_loop vt M (stack @ ds) (upos @ [?k]) K s =
        (if v_unique vt \<and> seen M K c then post_loop vt M ?stack (upos @ [?k]) K s
         else case v_subtree vt s c (Some ?p) of
           (enter, s) \<Rightarrow> if enter then post_loop vt M ?stack ((upos @ [?k]) @ [length ?stack - 1]) (remember vt M c K) s
             else post_loop vt M ?stack (upos @ [?k]) (remember vt M c K) s)"
      using step Some by (simp only: option.case append_assoc)
    have a: "addresses M t = Bt c (addresses M (n_l (node_at M c))) (addresses M (n_r (node_at M c)))"
      unfolding Some by (rule addresses_node[OF w c(2)])
    show ?thesis
      unfolding step2 enter rest a by (simp split: prod.splits bool.splits)
  qed
qed

section \<open>Printing in a line\<close>

text \<open>\<open>print_in_line\<close>: the values, with the printer of the value type.\<close>

definition line_visitor :: "'v nodes \<Rightarrow> ('v \<Rightarrow> string) \<Rightarrow> string \<Rightarrow> string \<Rightarrow> string \<Rightarrow> string visitor" where
  "line_visitor M pv opn cls sep = \<lparr>v_search = False, v_unique = False,
     v_subtree = (\<lambda>s a p. (True, s)),
     v_visit = (\<lambda>s a p. (True, s @ pv (n_value (node_at M a)) @ (if n_l (node_at M a) \<noteq> None then opn else []))),
     v_up = (\<lambda>s a p. s @ (if n_l (node_at M a) \<noteq> None then cls else [])),
     v_between = (\<lambda>s a p. s @ sep)\<rparr>"

definition print_in_line ::
  "'v nodes \<Rightarrow> ('v \<Rightarrow> string) \<Rightarrow> string \<Rightarrow> string \<Rightarrow> string \<Rightarrow> nat \<Rightarrow> string \<Rightarrow> string option" where
  "print_in_line M pv opn cls sep n os = pre_visit (line_visitor M pv opn cls sep) M n os"

text \<open>What is meant: the siblings with separators between them, and the children of each in brackets.\<close>

fun line :: "('v \<Rightarrow> string) \<Rightarrow> string \<Rightarrow> string \<Rightarrow> string \<Rightarrow> 'v bt \<Rightarrow> string" where
  "line pv opn cls sep Nil = []"
| "line pv opn cls sep (Bt v l r) =
     pv v @ (if l = Nil then [] else opn @ line pv opn cls sep l @ cls) @
     (if r = Nil then [] else sep @ line pv opn cls sep r)"

lemma pre_const_traverse_rec:
  assumes w: "wf_nodes vh M" and n: "Some n \<in> refs M"
  shows "pre_const_traverse vt M (Some n) s =
    Some (snd (snd (pre_rec vt M None (Bt n (addresses M (n_l (node_at M n))) Nil) ([], s))))"
proof -
  have loop: "pre_loop vt M [n] [0] K s =
      (case pre_rec vt M (Some n) (addresses M (n_l (node_at M n))) (K, s) of
         (stop, K, s) \<Rightarrow> Some (if stop then s else leave vt M s n None))" for K s
  proof (cases "n_l (node_at M n)")
    case None
    then show ?thesis
      using pre_loop_leaf[of M "[n]" 0 vt "[]" K s] pre_loop.simps[of vt M "[n]" "[]"] by (simp add: pre_parent_def)
  next
    case (Some d)
    then have "at_child M (last [n]) [] (n_l (node_at M n))"
      using den_node_at[OF w n] by (simp add: at_child_def)
    moreover have "below_top [n] []" by (simp add: below_top_def)
    ultimately show ?thesis
      using pre_loop_rec[OF w, of "[n]" "[]" "n_l (node_at M n)" "[]" vt K s]
      by (simp add: pre_loop.simps[of vt M "[n]" "[]"] pre_parent_def split: prod.splits)
  qed
  show ?thesis
    by (simp add: pre_const_traverse_def loop pre_loop.simps[of vt M "[n]" "[]"] seen_def split: prod.splits bool.splits)
qed

lemma line_rec:
  assumes w: "wf_nodes vh M"
  shows "t \<in> refs M \<Longrightarrow> \<exists>K'. pre_rec (line_visitor M pv opn cls sep) M par (addresses M t) (K, s) =
    (False, K', s @ line pv opn cls sep (den M t))"
proof (induction "size (den M t)" arbitrary: t par K s rule: less_induct)
  case less
  let ?vt = "line_visitor M pv opn cls sep"
  show ?case
  proof (cases t)
    case None
    then show ?thesis by simp
  next
    case (Some a)
    have a: "Some a \<in> refs M" using less.prems Some by simp
    let ?n = "node_at M a"
    note n = den_node_at[OF w a]
    let ?e = "pv (n_value ?n) @ (if n_l ?n \<noteq> None then opn else [])"
    have "size (den M (n_l ?n)) < size (den M t)" "size (den M (n_r ?n)) < size (den M t)"
      unfolding Some n(1) by simp_all
    note IH = less.hyps[OF this(1) n(2)] less.hyps[OF this(2) n(3)]
    obtain K1 where 1: "pre_rec ?vt M (Some a) (addresses M (n_l ?n)) (remember ?vt M a K, s @ ?e) =
        (False, K1, (s @ ?e) @ line pv opn cls sep (den M (n_l ?n)))" using IH(1) by blast
    obtain K2 where 2: "pre_rec ?vt M par (addresses M (n_r ?n)) (K1, leave ?vt M ((s @ ?e) @ line pv opn cls sep (den M (n_l ?n))) a par) =
        (False, K2, leave ?vt M ((s @ ?e) @ line pv opn cls sep (den M (n_l ?n))) a par @ line pv opn cls sep (den M (n_r ?n)))"
      using IH(2) by blast
    have f: "\<not> v_unique ?vt" "v_subtree ?vt s a par = (True, s)" "v_visit ?vt s a par = (True, s @ ?e)"
      by (simp_all add: line_visitor_def)
    have "pre_rec ?vt M par (addresses M t) (K, s) =
        (False, K2, leave ?vt M ((s @ ?e) @ line pv opn cls sep (den M (n_l ?n))) a par @ line pv opn cls sep (den M (n_r ?n)))"
      unfolding Some addresses_node[OF w a] by (simp add: f 1[simplified] 2[simplified])
    moreover have "leave ?vt M ((s @ ?e) @ line pv opn cls sep (den M (n_l ?n))) a par @ line pv opn cls sep (den M (n_r ?n)) =
        s @ line pv opn cls sep (den M t)"
      unfolding Some n(1) using den_Nil[OF w n(2)] den_Nil[OF w n(3)] by (auto simp: leave_def line_visitor_def)
    ultimately show ?thesis by simp
  qed
qed

section \<open>Each subtree once\<close>

text \<open>\<open>visit_unique\<close> with a callback that collects the nodes it is called with.\<close>

definition collect :: "nat list visitor" where
  "collect = \<lparr>v_search = False, v_unique = True, v_subtree = (\<lambda>s a p. (True, s)), v_visit = (\<lambda>s a p. (True, s @ [a])),
     v_up = (\<lambda>s a p. s), v_between = (\<lambda>s a p. s)\<rparr>"

fun subtrees :: "'v bt \<Rightarrow> ('v \<times> 'v bt) set" where
  "subtrees Nil = {}"
| "subtrees (Bt v l r) = insert (v, l) (subtrees l \<union> subtrees r)"

lemma subtrees_size: "(v, l) \<in> subtrees t \<Longrightarrow> size l < size t"
  by (induction t) fastforce+

text \<open>The subtrees of the nodes in the cache. Below those that are not open, all are in the cache.\<close>

abbreviation trees_of :: "'v nodes \<Rightarrow> nat list \<Rightarrow> ('v \<times> 'v bt) set" where
  "trees_of M K \<equiv> subtree M ` set K"

definition complete_but :: "('v \<times> 'v bt) set \<Rightarrow> ('v \<times> 'v bt) set \<Rightarrow> bool" where
  "complete_but Opn A \<longleftrightarrow> (\<forall>x \<in> A - Opn. subtrees (snd x) \<subseteq> A)"

lemma seen_subtree:
  assumes "wf_nodes vh M" "Some a \<in> refs M" "Some ` set K \<subseteq> refs M"
  shows "seen M K a \<longleftrightarrow> subtree M a \<in> trees_of M K"
proof -
  have "subtree_equals M (Some k) (Some a) \<longleftrightarrow> subtree M k = subtree M a" if "k \<in> set K" for k
    using subtree_equals_subtree[OF assms(1) _ assms(2)] assms(3) that by blast
  then show ?thesis unfolding seen_def list_ex_iff image_iff by metis
qed

lemma collect_simps:
  "v_unique collect" "v_subtree collect s a par = (True, s)" "v_visit collect s a par = (True, s @ [a])"
  "leave collect M s a par = s" "remember collect M a K = (if seen M K a then K else a # K)"
  by (simp_all add: collect_def leave_def remember_def)

lemma collect_rec:
  assumes w: "wf_nodes vh M"
  shows "t \<in> refs M \<Longrightarrow> Some ` set K \<subseteq> refs M \<Longrightarrow> complete_but Opn (trees_of M K) \<Longrightarrow> subtrees (den M t) \<inter> Opn = {} \<Longrightarrow>
    \<exists>ns. pre_rec collect M par (addresses M t) (K, s) = (False, rev ns @ K, s @ ns) \<and> Some ` set ns \<subseteq> refs M \<and>
      distinct (map (subtree M) ns) \<and> trees_of M ns \<inter> trees_of M K = {} \<and> trees_of M ns \<subseteq> subtrees (den M t) \<and>
      subtrees (den M t) \<subseteq> trees_of M (ns @ K) \<and> complete_but Opn (trees_of M (ns @ K))"
proof (induction "size (den M t)" arbitrary: t K Opn par s rule: less_induct)
  case less
  show ?case
  proof (cases t)
    case None
    then show ?thesis using less.prems by simp
  next
    case (Some a)
    have a: "Some a \<in> refs M" using less.prems Some by simp
    let ?n = "node_at M a"
    let ?l = "n_l ?n" and ?r = "n_r ?n" and ?x = "subtree M a"
    note n = den_node_at[OF w a]
    have sz: "size (den M ?l) < size (den M t)" "size (den M ?r) < size (den M t)" unfolding Some n(1) by simp_all
    have sub: "subtrees (den M t) = insert ?x (subtrees (den M ?l) \<union> subtrees (den M ?r))" "snd ?x = den M ?l"
      unfolding Some n(1) subtree_node[OF w a] by simp_all
    have ad: "addresses M t = Bt a (addresses M ?l) (addresses M ?r)" unfolding Some by (rule addresses_node[OF w a])
    have op: "subtrees (den M ?r) \<inter> Opn = {}" "subtrees (den M ?l) \<inter> Opn = {}" "?x \<notin> Opn" using less.prems(4) sub(1) by auto
    show ?thesis
    proof (cases "seen M K a")
      case True
      then have x: "?x \<in> trees_of M K" using seen_subtree[OF w a less.prems(2)] by blast
      have xl: "subtrees (den M ?l) \<subseteq> trees_of M K"
        using less.prems(3) x op(3) unfolding complete_but_def sub(2)[symmetric] by blast
      obtain ns where ns: "pre_rec collect M par (addresses M ?r) (K, s) = (False, rev ns @ K, s @ ns)"
        "Some ` set ns \<subseteq> refs M" "distinct (map (subtree M) ns)" "trees_of M ns \<inter> trees_of M K = {}"
        "trees_of M ns \<subseteq> subtrees (den M ?r)" "subtrees (den M ?r) \<subseteq> trees_of M (ns @ K)" "complete_but Opn (trees_of M (ns @ K))"
        using less.hyps[OF sz(2) n(3) less.prems(2,3) op(1), of par s] by blast
      have "pre_rec collect M par (addresses M t) (K, s) = (False, rev ns @ K, s @ ns)"
        unfolding ad using True ns(1) by (simp add: collect_def)
      moreover have "subtrees (den M t) \<subseteq> trees_of M (ns @ K)" unfolding sub(1) using x xl ns(6) by auto
      ultimately show ?thesis using ns(2-5,7) sub(1) by (intro exI[of _ ns]) blast
    next
      case False
      then have x: "?x \<notin> trees_of M K" using seen_subtree[OF w a less.prems(2)] by blast
      let ?K1 = "a # K" and ?O1 = "insert ?x Opn"
      have c1: "complete_but ?O1 (trees_of M ?K1)" using less.prems(3) by (auto simp: complete_but_def)
      have "?x \<notin> subtrees (den M ?l)"
        using subtrees_size[of "fst ?x" "snd ?x" "den M ?l"] unfolding sub(2) prod.collapse
        by (metis less_irrefl prod.collapse sub(2))
      then have o1: "subtrees (den M ?l) \<inter> ?O1 = {}" using op(2) by simp
      have k1: "Some ` set ?K1 \<subseteq> refs M" using less.prems(2) a by simp
      obtain n1 where n1: "pre_rec collect M (Some a) (addresses M ?l) (?K1, s @ [a]) = (False, rev n1 @ ?K1, (s @ [a]) @ n1)"
        "Some ` set n1 \<subseteq> refs M" "distinct (map (subtree M) n1)" "trees_of M n1 \<inter> trees_of M ?K1 = {}"
        "trees_of M n1 \<subseteq> subtrees (den M ?l)" "subtrees (den M ?l) \<subseteq> trees_of M (n1 @ ?K1)" "complete_but ?O1 (trees_of M (n1 @ ?K1))"
        using less.hyps[OF sz(1) n(2) k1 c1 o1, of "Some a" "s @ [a]"] by blast
      let ?K2 = "rev n1 @ ?K1"
      have eq: "trees_of M ?K2 = trees_of M (n1 @ ?K1)" by simp
      have c2: "complete_but Opn (trees_of M ?K2)"
        unfolding complete_but_def
      proof
        fix y assume y: "y \<in> trees_of M ?K2 - Opn"
        show "subtrees (snd y) \<subseteq> trees_of M ?K2"
        proof (cases "y = ?x")
          case True
          then show ?thesis using n1(6) sub(2) eq by metis
        next
          case False
          then have "y \<in> trees_of M (n1 @ ?K1) - ?O1" using y eq by blast
          then show ?thesis using n1(7) eq unfolding complete_but_def by metis
        qed
      qed
      have k2: "Some ` set ?K2 \<subseteq> refs M" using n1(2) k1 by auto
      obtain n2 where n2: "pre_rec collect M par (addresses M ?r) (?K2, (s @ [a]) @ n1) = (False, rev n2 @ ?K2, ((s @ [a]) @ n1) @ n2)"
        "Some ` set n2 \<subseteq> refs M" "distinct (map (subtree M) n2)" "trees_of M n2 \<inter> trees_of M ?K2 = {}"
        "trees_of M n2 \<subseteq> subtrees (den M ?r)" "subtrees (den M ?r) \<subseteq> trees_of M (n2 @ ?K2)" "complete_but Opn (trees_of M (n2 @ ?K2))"
        using less.hyps[OF sz(2) n(3) k2 c2 op(1), of par "(s @ [a]) @ n1"] by blast
      have "pre_rec collect M par (addresses M t) (K, s) = (False, rev n2 @ ?K2, ((s @ [a]) @ n1) @ n2)"
        unfolding ad using False n1(1) n2(1) by (simp add: collect_simps)
      moreover have "distinct (map (subtree M) (a # n1 @ n2))" using n1(3,4) n2(3,4) by auto
      moreover have "trees_of M (a # n1 @ n2) \<inter> trees_of M K = {}" using n1(4) n2(4) x by auto
      moreover have "trees_of M (a # n1 @ n2) \<subseteq> subtrees (den M t)" unfolding sub(1) using n1(5) n2(5) by auto
      moreover have "subtrees (den M t) \<subseteq> trees_of M ((a # n1 @ n2) @ K)" unfolding sub(1) using n1(6) n2(6) by auto
      moreover have "complete_but Opn (trees_of M ((a # n1 @ n2) @ K))"
      proof -
        have "trees_of M ((a # n1 @ n2) @ K) = trees_of M (n2 @ ?K2)" by auto
        then show ?thesis using n2(7) by metis
      qed
      ultimately show ?thesis using n1(2) n2(2) a by (intro exI[of _ "a # n1 @ n2"]) auto
    qed
  qed
qed

section \<open>What the traversals promise\<close>

lemma abc_refs: "Some 6 \<in> refs (st_M abc_store)" "Some 5 \<in> refs (st_M abc_store)"
  by (simp_all add: abc_store_def refs_def)

lemma abc_addresses: "addresses (st_M abc_store) (Some 5) = Bt 5 Nil (Bt 2 Nil Nil)"
  by (simp add: abc_store_def)

text \<open>The pre-order traversal with its explicit stacks returns for every tree and every callbacks,
  and it is the recursion over the tree below its root: ask the predicate about the node, call the visitor,
  go through the children, call \<open>up\<close> and, when there is a right sibling, \<open>between\<close>. The unique variants skip
  a subtree that equals one they have seen, the searching ones stop when the visitor says so.\<close>
theorem pre_order_is_recursion:
  assumes "wf_nodes vh M" "Some n \<in> refs M"
  shows "pre_const_traverse vt M (Some n) s =
    Some (snd (snd (pre_rec vt M None (Bt n (addresses M (n_l (node_at M n))) Nil) ([], s))))"
  by (rule pre_const_traverse_rec[OF assms])

theorem pre_order_is_recursion_witness:
  "pre_const_traverse collect (st_M abc_store) (Some 6) [] = Some [6, 5, 2]"
proof -
  have l: "n_l (node_at (st_M abc_store) 6) = Some 5" by (simp add: abc_store_def node_at_def)
  show ?thesis
    unfolding pre_order_is_recursion[OF wf_store_nodes[OF abc_wf] abc_refs(1)] l abc_addresses
    by (simp add: collect_def seen_def remember_def leave_def subtree_equals_def abc_store_def node_at_def)
qed

text \<open>The post-order traversal is the recursion that calls the visitor after the children, and it
  returns for every tree.\<close>
theorem post_order_is_recursion:
  assumes "wf_nodes vh M" "Some n \<in> refs M"
  shows "post_const_traverse vt M (Some n) s =
    (case post_rec vt M (Some n) (addresses M (n_l (node_at M n))) (remember vt M n [], s) of
       (stop, K, s) \<Rightarrow> Some (if stop then s else snd (v_visit vt s n None)))"
proof (cases "n_l (node_at M n)")
  case None
  then show ?thesis
    using post_loop_leaf[of M "[n]" 0 vt "[]" "remember vt M n []" s] post_loop.simps[of vt M "[n]" "[]"]
    by (simp add: post_const_traverse_def pre_parent_def split: prod.splits)
next
  case (Some d)
  then have "at_child M (last [n]) [] (n_l (node_at M n))"
    using den_node_at[OF assms] by (simp add: at_child_def)
  moreover have "below_top [n] []" by (simp add: below_top_def)
  ultimately show ?thesis
    using post_loop_rec[OF assms(1), of "[n]" "[]" "n_l (node_at M n)" "[]" vt "remember vt M n []" s]
    by (simp add: post_const_traverse_def post_loop.simps[of vt M "[n]" "[]"] pre_parent_def split: prod.splits)
qed

theorem post_order_is_recursion_witness:
  "post_const_traverse (collect\<lparr>v_unique := False\<rparr>) (st_M abc_store) (Some 6) [] = Some [5, 2, 6]"
proof -
  have l: "n_l (node_at (st_M abc_store) 6) = Some 5" by (simp add: abc_store_def node_at_def)
  show ?thesis
    unfolding post_order_is_recursion[OF wf_store_nodes[OF abc_wf] abc_refs(1)] l abc_addresses
    by (simp add: collect_def remember_def)
qed

text \<open>C26: Visiting the unique nodes calls the visitor exactly once for each subtree of the tree: the
  subtrees of the nodes it is called with are pairwise different, and they are the subtree of the root
  and all those below it.\<close>
theorem visit_unique_once:
  assumes w: "wf_nodes vh M" and n: "Some n \<in> refs M"
  shows "\<exists>ns. pre_visit collect M n s = Some (s @ ns) \<and> distinct (map (subtree M) ns) \<and>
    subtree M ` set ns = insert (subtree M n) (subtrees (snd (subtree M n)))"
proof -
  let ?l = "n_l (node_at M n)" and ?x = "subtree M n"
  note nn = den_node_at[OF w n]
  have x: "snd ?x = den M ?l" unfolding subtree_node[OF w n] by simp
  have "?x \<notin> subtrees (snd ?x)"
    using subtrees_size[of "fst ?x" "snd ?x" "snd ?x"] by auto
  then have o: "subtrees (den M ?l) \<inter> {?x} = {}" using x by simp
  have k: "Some ` set [n] \<subseteq> refs M" "complete_but {?x} (trees_of M [n])" using n by (simp_all add: complete_but_def)
  obtain ns where ns: "pre_rec collect M (Some n) (addresses M ?l) ([n], s @ [n]) = (False, rev ns @ [n], (s @ [n]) @ ns)"
    "distinct (map (subtree M) ns)" "trees_of M ns \<inter> trees_of M [n] = {}" "trees_of M ns \<subseteq> subtrees (den M ?l)"
    "subtrees (den M ?l) \<subseteq> trees_of M (ns @ [n])"
    using collect_rec[OF w nn(2) k o, of "Some n" "s @ [n]"] by blast
  have "pre_rec collect M None (Bt n (addresses M ?l) Nil) ([], s) = (False, rev ns @ [n], s @ n # ns)"
    using ns(1) by (simp add: collect_simps seen_def)
  moreover have "pre_visit collect M n s = pre_const_traverse collect M (Some n) s" by (simp add: pre_visit_def collect_def)
  ultimately have "pre_visit collect M n s = Some (s @ n # ns)" unfolding pre_const_traverse_rec[OF w n] by simp
  moreover have "distinct (map (subtree M) (n # ns))" using ns(2,3) by auto
  moreover have "trees_of M (n # ns) = insert ?x (subtrees (snd ?x))" using ns(3,4,5) o unfolding x by auto
  ultimately show ?thesis by blast
qed

theorem visit_unique_once_witness:
  "\<exists>ns. pre_visit collect (st_M abc_store) 6 [] = Some ns \<and> distinct (map (subtree (st_M abc_store)) ns)"
  using visit_unique_once[OF wf_store_nodes[OF abc_wf] abc_refs(1), of "[]"] by auto

text \<open>Printing a tree in a line writes its value and, in brackets, its children with separators
  between them. When the tree has a right sibling, which is not printed, the separator is written after
  the tree all the same.\<close>
theorem print_in_line_text:
  assumes w: "wf_nodes vh M" and n: "Some n \<in> refs M" and d: "den M (Some n) = Bt v l r"
  shows "print_in_line M pv opn cls sep n os =
    Some (os @ line pv opn cls sep (Bt v l Nil) @ (if r = Nil then [] else sep))"
proof -
  let ?vt = "line_visitor M pv opn cls sep" and ?n = "node_at M n"
  note nn = den_node_at[OF w n]
  have v: "n_value ?n = v" "den M (n_l ?n) = l" "den M (n_r ?n) = r" using nn(1) d by auto
  let ?e = "pv v @ (if l \<noteq> Nil then opn else [])"
  have ne: "(n_l ?n \<noteq> None) = (l \<noteq> Nil)" "(n_r ?n \<noteq> None) = (r \<noteq> Nil)"
    using den_Nil[OF w nn(2)] den_Nil[OF w nn(3)] v by auto
  obtain K where K: "pre_rec ?vt M (Some n) (addresses M (n_l ?n)) (remember ?vt M n [], os @ ?e) =
      (False, K, (os @ ?e) @ line pv opn cls sep l)"
    using line_rec[OF w nn(2)] v(2) by metis
  have f: "\<not> v_unique ?vt" "v_subtree ?vt os n None = (True, os)" "v_visit ?vt os n None = (True, os @ ?e)"
    using ne v(1) by (simp_all add: line_visitor_def)
  have "pre_rec ?vt M None (Bt n (addresses M (n_l ?n)) Nil) ([], os) =
      (False, K, leave ?vt M ((os @ ?e) @ line pv opn cls sep l) n None)"
    using K f by simp
  moreover have "leave ?vt M ((os @ ?e) @ line pv opn cls sep l) n None =
      os @ line pv opn cls sep (Bt v l Nil) @ (if r = Nil then [] else sep)"
    using ne by (simp add: leave_def line_visitor_def)
  moreover have "print_in_line M pv opn cls sep n os = pre_const_traverse ?vt M (Some n) os"
    by (simp add: print_in_line_def pre_visit_def line_visitor_def)
  ultimately show ?thesis unfolding pre_const_traverse_rec[OF w n] by simp
qed

theorem print_in_line_text_witness:
  "print_in_line (st_M abc_store) (\<lambda>v. if v = 1 then ''a'' else ''b'') ''('' '')'' '','' 5 [] = Some ''a,''"
proof -
  have "den (st_M abc_store) (Some 5) = Bt 1 Nil (Bt 2 Nil Nil)" by (simp add: abc_store_def)
  from print_in_line_text[OF wf_store_nodes[OF abc_wf] abc_refs(2) this]
  show ?thesis by simp
qed

end
