(* ===== verification/TreeMemo.thy ===== *)
theory TreeMemo
  imports TreeVisit
begin

text \<open>
  What the traversals that rewrite trees share: the memories for results, of the call and of the program,
  in \<open>src/src/utility/tree_traversals_pre_order.tmpl.h\<close> and \<open>tree_traversals_post_order.tmpl.h\<close>, and the
  interface of their loops, the locale \<open>memo_walk\<close>: a loop that recalls, descends into children, takes
  other children as they come and rebuilds a node when its children are done computes a recursion over
  the tree, whatever it has memorized.
\<close>

section \<open>The memories\<close>

type_synonym memo = "((nat \<times> nat) \<times> nat) list"

type_synonym 'v callback = "nat \<Rightarrow> tref \<Rightarrow> 'v store \<Rightarrow> tref \<times> 'v store"

text \<open>The memory of the program is keyed by a node and a slot, that of the call by a node, both up to
  equality of subtrees. \<open>emplace\<close> keeps what is there.\<close>

definition recall :: "'v nodes \<Rightarrow> nat \<Rightarrow> memo \<Rightarrow> (nat \<times> nat) list \<Rightarrow> nat \<Rightarrow> tref" where
  "recall M slot m cache a =
     (if slot \<noteq> 0
      then map_option snd (find (\<lambda>((k, sl), r). sl = slot \<and> subtree_equals M (Some k) (Some a)) m)
      else map_option snd (find (\<lambda>(k, r). subtree_equals M (Some k) (Some a)) cache))"

definition memorize ::
  "'v nodes \<Rightarrow> nat \<Rightarrow> nat \<Rightarrow> nat \<Rightarrow> memo \<times> (nat \<times> nat) list \<Rightarrow> memo \<times> (nat \<times> nat) list" where
  "memorize M slot a r mc =
     (if recall M slot (fst mc) (snd mc) a \<noteq> None then mc
      else if slot \<noteq> 0 then (((a, slot), r) # fst mc, snd mc) else (fst mc, (a, r) # snd mc))"

text \<open>A traversal that is not \<open>unique\<close> looks nothing up.\<close>

definition consult :: "bool \<Rightarrow> 'v nodes \<Rightarrow> nat \<Rightarrow> memo \<times> (nat \<times> nat) list \<Rightarrow> nat \<Rightarrow> tref" where
  "consult u M slot mc a = (if u then recall M slot (fst mc) (snd mc) a else None)"

lemma consult_Some: "consult u M slot mc a = Some r \<Longrightarrow> recall M slot (fst mc) (snd mc) a = Some r"
  by (simp add: consult_def split: if_splits)

lemma consult_unique [simp]: "consult True M slot mc a = recall M slot (fst mc) (snd mc) a"
  by (simp add: consult_def)

text \<open>The lambda \<open>call\<close>: the result gets the right sibling of the node.\<close>

definition call_cb :: "alloc \<Rightarrow> ('v \<Rightarrow> u64) \<Rightarrow> 'v callback \<Rightarrow> nat \<Rightarrow> tref \<Rightarrow> 'v store \<Rightarrow> tref \<times> 'v store" where
  "call_cb al vh cb n par s =
     (case cb n par s of
        (nn, s) \<Rightarrow>
          if nn = Some n then (Some n, s)
          else if nn = None then (None, s)
          else (let t = node_at (st_M s) (the nn) in
            case get_node al vh (n_value t) (n_l t) (n_r (node_at (st_M s) n)) s of (a, s) \<Rightarrow> (Some a, s)))"

section \<open>Functions on subtrees\<close>

text \<open>The callback computes \<open>F\<close>, the predicate \<open>V\<close>, in every store that has the trees of \<open>s0\<close>.\<close>

definition extends :: "('v \<Rightarrow> u64) \<Rightarrow> 'v store \<Rightarrow> 'v store \<Rightarrow> bool" where
  "extends vh s0 s \<longleftrightarrow> wf_store vh s \<and> (\<forall>t \<in> refs (st_M s0). t \<in> refs (st_M s) \<and> den (st_M s) t = den (st_M s0) t)"

lemma extends_refl: "wf_store vh s \<Longrightarrow> extends vh s s"
  by (simp add: extends_def)

lemma extends_wf: "extends vh s0 s \<Longrightarrow> wf_store vh s"
  by (simp add: extends_def)

lemma extends_grows: "extends vh s0 s \<Longrightarrow> grows vh s s' \<Longrightarrow> extends vh s0 s'"
  by (auto simp: extends_def grows_refs grows_den grows_wf)

lemma extends_subtree:
  "extends vh s0 s \<Longrightarrow> Some a \<in> refs (st_M s0) \<Longrightarrow> Some a \<in> refs (st_M s) \<and> subtree (st_M s) a = subtree (st_M s0) a"
  by (auto simp: extends_def subtree_def)


definition computes :: "('v \<Rightarrow> u64) \<Rightarrow> 'v store \<Rightarrow> 'v callback \<Rightarrow> ('v \<times> 'v bt \<Rightarrow> 'v \<times> 'v bt) \<Rightarrow> bool" where
  "computes vh s0 f F \<longleftrightarrow> (\<forall>s a par. extends vh s0 s \<and> Some a \<in> refs (st_M s) \<longrightarrow>
     (\<exists>b s'. f a par s = (Some b, s') \<and> grows vh s s' \<and> Some b \<in> refs (st_M s') \<and>
       subtree (st_M s') b = F (subtree (st_M s) a)))"

definition decides :: "('v \<Rightarrow> u64) \<Rightarrow> 'v store \<Rightarrow> (nat \<Rightarrow> tref \<Rightarrow> 'v store \<Rightarrow> bool) \<Rightarrow> ('v \<times> 'v bt \<Rightarrow> bool) \<Rightarrow> bool" where
  "decides vh s0 vs V \<longleftrightarrow> (\<forall>s a par. extends vh s0 s \<and> Some a \<in> refs (st_M s) \<longrightarrow> vs a par s = V (subtree (st_M s) a))"

text \<open>The memories hold results of the map.\<close>

definition memo_ok :: "('v \<times> 'v bt \<Rightarrow> 'v \<times> 'v bt) \<Rightarrow> 'v store \<Rightarrow> nat \<Rightarrow> memo \<times> (nat \<times> nat) list \<Rightarrow> bool" where
  "memo_ok g s slot mc \<longleftrightarrow>
     (\<forall>((k, sl), r) \<in> set (fst mc). sl = slot \<longrightarrow>
        Some k \<in> refs (st_M s) \<and> Some r \<in> refs (st_M s) \<and> subtree (st_M s) r = g (subtree (st_M s) k)) \<and>
     (\<forall>(k, r) \<in> set (snd mc).
        Some k \<in> refs (st_M s) \<and> Some r \<in> refs (st_M s) \<and> subtree (st_M s) r = g (subtree (st_M s) k))"

lemma memo_ok_grows: "grows vh s s' \<Longrightarrow> memo_ok g s slot mc \<Longrightarrow> memo_ok g s' slot mc"
  unfolding memo_ok_def by (fastforce simp: subtree_grows dest: grows_refs)

lemma find_SomeD: "find P xs = Some x \<Longrightarrow> x \<in> set xs \<and> P x"
  by (induction xs) (auto split: if_splits)

lemma recall_ok:
  assumes w: "wf_nodes vh (st_M s)" and a: "Some a \<in> refs (st_M s)" and m: "memo_ok g s slot mc"
    and r: "recall (st_M s) slot (fst mc) (snd mc) a = Some r"
  shows "Some r \<in> refs (st_M s)" "subtree (st_M s) r = g (subtree (st_M s) a)"
proof -
  obtain k where "Some k \<in> refs (st_M s) \<and> Some r \<in> refs (st_M s) \<and> subtree (st_M s) r = g (subtree (st_M s) k)"
    "subtree_equals (st_M s) (Some k) (Some a)"
  proof (cases "slot = 0")
    case True
    then obtain k where k: "(k, r) \<in> set (snd mc)" "subtree_equals (st_M s) (Some k) (Some a)"
      using r by (auto simp: recall_def dest!: find_SomeD)
    show ?thesis by (rule that[OF _ k(2)]) (use m k(1) in \<open>auto simp: memo_ok_def\<close>)
  next
    case False
    then obtain k where k: "((k, slot), r) \<in> set (fst mc)" "subtree_equals (st_M s) (Some k) (Some a)"
      using r by (auto simp: recall_def dest!: find_SomeD)
    show ?thesis by (rule that[OF _ k(2)]) (use m k(1) in \<open>auto simp: memo_ok_def\<close>)
  qed
  then show "Some r \<in> refs (st_M s)" "subtree (st_M s) r = g (subtree (st_M s) a)"
    using subtree_equals_subtree[OF w _ a] by auto
qed

lemma memorize_ok:
  "memo_ok g s slot mc \<Longrightarrow> Some a \<in> refs (st_M s) \<Longrightarrow> Some r \<in> refs (st_M s) \<Longrightarrow>
    subtree (st_M s) r = g (subtree (st_M s) a) \<Longrightarrow> memo_ok g s slot (memorize M slot a r mc)"
  by (auto simp: memo_ok_def memorize_def)

text \<open>The subtrees that the memory of the call, or of the slot, knows.\<close>

definition memo_keys :: "bool \<Rightarrow> 'v store \<Rightarrow> nat \<Rightarrow> memo \<times> (nat \<times> nat) list \<Rightarrow> ('v \<times> 'v bt) set" where
  "memo_keys u s slot mc =
     (if \<not> u then {}
      else if slot \<noteq> 0 then {subtree (st_M s) k | k r. ((k, slot), r) \<in> set (fst mc)}
      else {subtree (st_M s) k | k r. (k, r) \<in> set (snd mc)})"

lemma find_NoneD: "find P xs = None \<longleftrightarrow> (\<forall>x \<in> set xs. \<not> P x)"
  by (induction xs) auto

lemma consult_None:
  assumes w: "wf_nodes vh (st_M s)" and m: "memo_ok g s slot mc" and q: "Some q \<in> refs (st_M s)"
  shows "consult u (st_M s) slot mc q = None \<longleftrightarrow> subtree (st_M s) q \<notin> memo_keys u s slot mc"
proof -
  have "subtree_equals (st_M s) (Some k) (Some q) \<longleftrightarrow> subtree (st_M s) k = subtree (st_M s) q"
    if "((k, slot), r) \<in> set (fst mc) \<or> (k, r) \<in> set (snd mc)" for k r
    by (rule subtree_equals_subtree[OF w _ q]) (use m that in \<open>auto simp: memo_ok_def\<close>)
  then show ?thesis
    unfolding consult_def recall_def memo_keys_def by (cases u; cases "slot = 0") (fastforce simp: find_NoneD)+
qed

lemma memo_keys_grows: "grows vh s s' \<Longrightarrow> memo_ok g s slot mc \<Longrightarrow> memo_keys u s' slot mc = memo_keys u s slot mc"
proof -
  assume g: "grows vh s s'" and m: "memo_ok g s slot mc"
  have "subtree (st_M s') k = subtree (st_M s) k" if "((k, slot), r) \<in> set (fst mc) \<or> (k, r) \<in> set (snd mc)" for k r
    by (rule subtree_grows[OF g]) (use m that in \<open>auto simp: memo_ok_def\<close>)
  then show ?thesis unfolding memo_keys_def by (cases u; cases "slot = 0") (force+)
qed

lemma memo_keys_memorize:
  "memo_keys u s slot (memorize (st_M s) slot a r mc) \<subseteq> insert (subtree (st_M s) a) (memo_keys u s slot mc)"
  by (auto simp: memo_keys_def memorize_def)


lemma butlast_update: "stack \<noteq> [] \<Longrightarrow> stack[length stack - 1 := r] = butlast stack @ [r]"
  by (cases stack rule: rev_cases) simp_all

section \<open>The interface of the loops\<close>

text \<open>The result of a node: the subtree computed, with the right sibling of the node.\<close>

definition result_of :: "('v \<Rightarrow> u64) \<Rightarrow> 'v store \<Rightarrow> nat \<Rightarrow> 'v store \<Rightarrow> nat \<Rightarrow> 'v \<times> 'v bt \<Rightarrow> bool" where
  "result_of vh s p s' r x \<longleftrightarrow> grows vh s s' \<and> Some r \<in> refs (st_M s') \<and> subtree (st_M s') r = x \<and>
     n_r (node_at (st_M s') r) = n_r (node_at (st_M s) p)"

text \<open>What processing a node leaves: its result and the memories.\<close>

definition node_done ::
  "bool \<Rightarrow> ('v \<Rightarrow> u64) \<Rightarrow> nat \<Rightarrow> ('v \<times> 'v bt \<Rightarrow> 'v \<times> 'v bt) \<Rightarrow> 'v store \<Rightarrow> memo \<times> (nat \<times> nat) list \<Rightarrow>
    nat \<Rightarrow> 'v store \<Rightarrow> memo \<times> (nat \<times> nat) list \<Rightarrow> nat \<Rightarrow> bool" where
  "node_done u vh slot g s mc p s' mc' r \<longleftrightarrow>
     grows vh s s' \<and> Some r \<in> refs (st_M s') \<and> subtree (st_M s') r = g (subtree (st_M s) p) \<and>
     memo_ok g s' slot mc' \<and>
     memo_keys u s' slot mc' \<subseteq> memo_keys u s slot mc \<union> {x. size (snd x) \<le> size (snd (subtree (st_M s) p))}"

text \<open>The state of the loop while the children of \<open>p\<close> are processed: those done are on the stack as \<open>ds\<close>, with
  their right siblings \<open>nds\<close>, and \<open>t\<close> is the next one. A child is mapped by \<open>pr\<close>.\<close>

definition children_inv ::
  "bool \<Rightarrow> ('v \<Rightarrow> u64) \<Rightarrow> nat \<Rightarrow> ('v \<times> 'v bt \<Rightarrow> 'v \<times> 'v bt) \<Rightarrow> ('v \<times> 'v bt \<Rightarrow> 'v \<times> 'v bt) \<Rightarrow> 'v store \<Rightarrow> memo \<times> (nat \<times> nat) list \<Rightarrow> nat \<Rightarrow>
    'v store \<Rightarrow> memo \<times> (nat \<times> nat) list \<Rightarrow> nat list \<Rightarrow> tref list \<Rightarrow> tref \<Rightarrow> bool" where
  "children_inv u vh slot g pr s mc p s1 mc1 ds nds t \<longleftrightarrow>
     grows vh s s1 \<and> memo_ok g s1 slot mc1 \<and>
     memo_keys u s1 slot mc1 \<subseteq> memo_keys u s slot mc \<union> {x. size (snd x) < size (snd (subtree (st_M s) p))} \<and>
     t \<in> refs (st_M s1) \<and> size (den (st_M s1) t) \<le> size (snd (subtree (st_M s) p)) \<and> length nds = length ds \<and>
     t = (if ds = [] then n_l (node_at (st_M s) p) else last nds) \<and> Some ` set ds \<subseteq> refs (st_M s1) \<and>
     map (subtree (st_M s1)) ds @ map pr (items (den (st_M s1) t)) = map pr (items (snd (subtree (st_M s) p)))"

text \<open>A node with children that the memories do not know, on top of the stack.\<close>

definition at_node ::
  "bool \<Rightarrow> ('v \<Rightarrow> u64) \<Rightarrow> nat \<Rightarrow> ('v \<times> 'v bt \<Rightarrow> 'v \<times> 'v bt) \<Rightarrow> 'v store \<Rightarrow> memo \<times> (nat \<times> nat) list \<Rightarrow>
    nat list \<Rightarrow> tref list \<Rightarrow> nat \<Rightarrow> bool" where
  "at_node u vh slot g s mc stack nxt p \<longleftrightarrow> wf_store vh s \<and> Some p \<in> refs (st_M s) \<and> memo_ok g s slot mc \<and>
     stack \<noteq> [] \<and> last stack = p \<and> length nxt = length stack \<and> n_l (node_at (st_M s) p) \<noteq> None \<and>
     subtree (st_M s) p \<notin> memo_keys u s slot mc"

lemma at_node_parent:
  assumes "at_node u vh slot g s mc stack nxt p" "children_inv u vh slot g pr s mc p s1 mc1 ds nds t"
  shows "wf_store vh s1" "Some p \<in> refs (st_M s1)" "subtree (st_M s1) p = subtree (st_M s) p"
    "consult u (st_M s1) slot mc1 p = None" "(stack @ ds) ! (length stack - 1) = p"
    "length (stack @ ds) - 1 - (length stack - 1) = length ds" "n_l (node_at (st_M s1) p) \<noteq> None"
    "(if length (stack @ ds) - 1 - (length stack - 1) = 0 then n_l (node_at (st_M s1) p) else last (nxt @ nds)) = t"
    "n_value (node_at (st_M s1) p) = n_value (node_at (st_M s) p)" "n_r (node_at (st_M s1) p) = n_r (node_at (st_M s) p)"
    "drop (length stack - 1 + 1) (stack @ ds) = ds"
proof -
  have a: "wf_store vh s" "Some p \<in> refs (st_M s)" "stack \<noteq> []" "last stack = p"
    "subtree (st_M s) p \<notin> memo_keys u s slot mc" using assms(1) by (simp_all add: at_node_def)
  have c: "grows vh s s1" "memo_ok g s1 slot mc1" "length nds = length ds"
    "memo_keys u s1 slot mc1 \<subseteq> memo_keys u s slot mc \<union> {x. size (snd x) < size (snd (subtree (st_M s) p))}"
    "t = (if ds = [] then n_l (node_at (st_M s) p) else last nds)"
    using assms(2) unfolding children_inv_def by auto
  show w: "wf_store vh s1" by (rule grows_wf[OF c(1)])
  show p: "Some p \<in> refs (st_M s1)" by (rule grows_refs[OF c(1) a(2)])
  show e: "subtree (st_M s1) p = subtree (st_M s) p" by (rule subtree_grows[OF c(1) a(2)])
  show "consult u (st_M s1) slot mc1 p = None"
    using consult_None[OF wf_store_nodes[OF w] c(2) p] c(4) a(5) e by auto
  show "(stack @ ds) ! (length stack - 1) = p" using a(3,4) by (simp add: nth_append last_conv_nth)
  show len: "length (stack @ ds) - 1 - (length stack - 1) = length ds" using a(3) by (cases stack) auto
  note n = node_grows[OF c(1) a(1,2)]
  then show "n_l (node_at (st_M s1) p) \<noteq> None" using assms(1) by (simp add: at_node_def)
  show "(if length (stack @ ds) - 1 - (length stack - 1) = 0 then n_l (node_at (st_M s1) p) else last (nxt @ nds)) = t"
    unfolding len n(2) c(5) using c(3) by (cases ds; cases nds) auto
  show "n_value (node_at (st_M s1) p) = n_value (node_at (st_M s) p)" "n_r (node_at (st_M s1) p) = n_r (node_at (st_M s) p)"
    by (fact n)+
  show "drop (length stack - 1 + 1) (stack @ ds) = ds" using a(3) by (cases stack) auto
qed

text \<open>A child is taken as it comes, or it is processed.\<close>

lemma children_inv_next:
  assumes inv: "children_inv u vh slot g pr s mc p s1 mc1 ds nds (Some c)"
  shows "wf_store vh s1" "Some c \<in> refs (st_M s1)" "memo_ok g s1 slot mc1"
    "size (snd (subtree (st_M s1) c)) < size (snd (subtree (st_M s) p))"
    "length (items (den (st_M s1) (n_r (node_at (st_M s1) c)))) < length (items (den (st_M s1) (Some c)))"
    "grows vh s1 s2 \<Longrightarrow> Some r \<in> refs (st_M s2) \<Longrightarrow> subtree (st_M s2) r = pr (subtree (st_M s1) c) \<Longrightarrow> memo_ok g s2 slot mc2 \<Longrightarrow>
      memo_keys u s2 slot mc2 \<subseteq> memo_keys u s1 slot mc1 \<union> {x. size (snd x) \<le> size (snd (subtree (st_M s1) c))} \<Longrightarrow>
      children_inv u vh slot g pr s mc p s2 mc2 (ds @ [r]) (nds @ [n_r (node_at (st_M s1) c)]) (n_r (node_at (st_M s1) c)) \<and>
      den (st_M s2) (n_r (node_at (st_M s1) c)) = den (st_M s1) (n_r (node_at (st_M s1) c))"
proof -
  let ?t = "n_r (node_at (st_M s1) c)"
  have gr: "grows vh s s1" and m1: "memo_ok g s1 slot mc1" and dr: "Some ` set ds \<subseteq> refs (st_M s1)"
    and keys: "memo_keys u s1 slot mc1 \<subseteq> memo_keys u s slot mc \<union> {x. size (snd x) < size (snd (subtree (st_M s) p))}"
    and c: "Some c \<in> refs (st_M s1)" and sz: "size (den (st_M s1) (Some c)) \<le> size (snd (subtree (st_M s) p))"
    and ln: "length nds = length ds"
    and eq: "map (subtree (st_M s1)) ds @ map pr (items (den (st_M s1) (Some c))) = map pr (items (snd (subtree (st_M s) p)))"
    using inv unfolding children_inv_def by blast+
  note w1 = wf_store_nodes[OF grows_wf[OF gr]]
  note n = den_node_at[OF w1 c]
  have it: "items (den (st_M s1) (Some c)) = subtree (st_M s1) c # items (den (st_M s1) ?t)" by (rule items_node[OF w1 c])
  show "wf_store vh s1" "Some c \<in> refs (st_M s1)" "memo_ok g s1 slot mc1" using grows_wf[OF gr] c m1 by simp_all
  show cs: "size (snd (subtree (st_M s1) c)) < size (snd (subtree (st_M s) p))" using sz n(1) subtree_node[OF w1 c] by simp
  have ts: "size (den (st_M s1) ?t) \<le> size (snd (subtree (st_M s) p))" using sz n(1) by simp
  show "length (items (den (st_M s1) ?t)) < length (items (den (st_M s1) (Some c)))" using it by simp
  assume g2: "grows vh s1 s2" "Some r \<in> refs (st_M s2)" "subtree (st_M s2) r = pr (subtree (st_M s1) c)" "memo_ok g s2 slot mc2"
    "memo_keys u s2 slot mc2 \<subseteq> memo_keys u s1 slot mc1 \<union> {x. size (snd x) \<le> size (snd (subtree (st_M s1) c))}"
  have d2: "den (st_M s2) ?t = den (st_M s1) ?t" by (rule grows_den[OF g2(1) n(3)])
  have md: "map (subtree (st_M s2)) ds = map (subtree (st_M s1)) ds" using subtree_grows[OF g2(1)] dr by auto
  have "memo_keys u s2 slot mc2 \<subseteq> memo_keys u s slot mc \<union> {x. size (snd x) < size (snd (subtree (st_M s) p))}"
    using g2(5) keys cs by fastforce
  moreover have "Some ` set (ds @ [r]) \<subseteq> refs (st_M s2)" using dr grows_refs[OF g2(1)] g2(2) by auto
  moreover have "map (subtree (st_M s2)) (ds @ [r]) @ map pr (items (den (st_M s2) ?t)) = map pr (items (snd (subtree (st_M s) p)))"
    unfolding map_append md d2 using eq it g2(3) by simp
  ultimately show "children_inv u vh slot g pr s mc p s2 mc2 (ds @ [r]) (nds @ [?t]) ?t \<and> den (st_M s2) ?t = den (st_M s1) ?t"
    using grown_trans[OF gr g2(1)] g2(4) grows_refs[OF g2(1) n(3)] ts d2 ln unfolding children_inv_def by simp
qed

lemma tree_get_raw:
  assumes al: "fresh al" and h: "\<not> use_hooks hooks \<or> hook hooks = None" and s: "wf_store vh s" and ds: "Some ` set ds \<subseteq> refs (st_M s)" and p: "Some p \<in> refs (st_M s)"
  shows "\<exists>q s'. tree_get al vh hooks (n_value (node_at (st_M s) p)) ds (n_r (node_at (st_M s) p)) s = (Some q, s') \<and>
    grows vh s s' \<and> Some q \<in> refs (st_M s') \<and>
    subtree (st_M s') q = (n_value (node_at (st_M s) p), chain (map (subtree (st_M s)) ds) Nil) \<and>
    n_r (node_at (st_M s') q) = n_r (node_at (st_M s) p)"
proof -
  let ?n = "node_at (st_M s) p"
  obtain q s' where g: "get_raw al vh (n_value ?n) ds (n_r ?n) s = (q, s')" by fastforce
  note r = den_node_at(3)[OF wf_store_nodes[OF s] p]
  have "\<forall>c \<in> set ds. Some c \<in> refs (st_M s)" using ds by blast
  note k = get_raw_ok[OF al s this r g]
  then have w: "wf_nodes vh (st_M s')" "Some q \<in> refs (st_M s')" and gr: "grows vh s s'"
    by (auto dest: grows_wf simp: wf_store_nodes)
  have "den (st_M s') (n_r (node_at (st_M s') q)) = den (st_M s') (n_r ?n)"
    using den_node_at(1)[OF w] k grows_den[OF gr r] by simp
  then have "n_r (node_at (st_M s') q) = n_r ?n" using den_inj[OF w(1) den_node_at(3)[OF w] grows_refs[OF gr r]] by simp
  moreover have "subtree (st_M s') q = (n_value ?n, chain (map (subtree (st_M s)) ds) Nil)" using k by (simp add: subtree_def)
  ultimately show ?thesis using g h w(2) gr by (simp add: tree_get_def)
qed

text \<open>A node whose children are done is kept when they have not changed, and rebuilt otherwise.\<close>

lemma rebuild_ok:
  assumes al: "fresh al" and h: "\<not> use_hooks hooks \<or> hook hooks = None" and s: "wf_store vh s"
    and ds: "Some ` set ds \<subseteq> refs (st_M s)" and p: "Some p \<in> refs (st_M s)"
  shows "\<exists>cs q s'. children (st_M s) p = Some cs \<and>
    (if ds = cs then (Some p, s)
     else tree_get al vh hooks (n_value (node_at (st_M s) p)) ds (n_r (node_at (st_M s) p)) s) = (Some q, s') \<and>
    result_of vh s p s' q (n_value (node_at (st_M s) p), chain (map (subtree (st_M s)) ds) Nil)"
proof -
  note w = wf_store_nodes[OF s]
  obtain cs where cs: "children (st_M s) p = Some cs" "map (subtree (st_M s)) cs = items (snd (subtree (st_M s) p))"
    using children_ok[OF w p] by (auto simp: subtree_def)
  show ?thesis
  proof (cases "ds = cs")
    case True
    then show ?thesis using cs grown_refl[OF s] p subtree_node[OF w p] by (simp add: result_of_def)
  next
    case False
    then show ?thesis using tree_get_raw[OF al h s ds p] cs(1) by (auto simp: result_of_def)
  qed
qed

text \<open>The lambda \<open>call\<close> computes the function and keeps the right sibling.\<close>

lemma call_cb_ok:
  assumes al: "fresh al" and f: "computes vh s0 f F" and s0: "extends vh s0 s" and a: "Some a \<in> refs (st_M s)"
  shows "\<exists>b s'. call_cb al vh f a par s = (Some b, s') \<and> grows vh s s' \<and> Some b \<in> refs (st_M s') \<and>
    subtree (st_M s') b = F (subtree (st_M s) a) \<and> n_r (node_at (st_M s') b) = n_r (node_at (st_M s) a)"
proof -
  obtain b s1 where 1: "f a par s = (Some b, s1)" "grows vh s s1" "Some b \<in> refs (st_M s1)"
    "subtree (st_M s1) b = F (subtree (st_M s) a)" using f s0 a unfolding computes_def by blast
  note s = extends_wf[OF s0]
  note w = wf_store_nodes[OF s] and w1 = wf_store_nodes[OF grows_wf[OF 1(2)]]
  have a1: "Some a \<in> refs (st_M s1)" using grows_refs[OF 1(2) a] .
  note r = node_grows(3)[OF 1(2) s a]
  show ?thesis
  proof (cases "b = a")
    case True
    then show ?thesis using 1 a1 r by (auto simp: call_cb_def)
  next
    case False
    let ?t = "node_at (st_M s1) b"
    obtain c s2 where 2: "get_node al vh (n_value ?t) (n_l ?t) (n_r (node_at (st_M s1) a)) s1 = (c, s2)" by fastforce
    note n = den_node_at[OF w1 1(3)]
    note ra = den_node_at(3)[OF w1 a1]
    have g: "grows vh s1 s2" "Some c \<in> refs (st_M s2)"
      "den (st_M s2) (Some c) = Bt (n_value ?t) (den (st_M s1) (n_l ?t)) (den (st_M s1) (n_r (node_at (st_M s1) a)))"
      using get_node_grows[OF al grows_wf[OF 1(2)] n(2) ra 2] by simp_all
    have "subtree (st_M s2) c = subtree (st_M s1) b"
      unfolding subtree_node[OF w1 1(3)] by (simp add: subtree_def g(3))
    moreover have "n_r (node_at (st_M s2) c) = n_r (node_at (st_M s) a)"
      using node_fields(3)[OF wf_store_nodes[OF grows_wf[OF g(1)]] g(2) grows_refs[OF g(1) n(2)] grows_refs[OF g(1) ra]]
        g(3) grows_den[OF g(1) ra] grows_den[OF g(1) n(2)] unfolding r by simp
    moreover have "call_cb al vh f a par s = (Some c, s2)"
      using 1(1) 2 False by (simp add: call_cb_def Let_def)
    ultimately show ?thesis using 1(4) g(2) grown_trans[OF 1(2) g(1)]
      by (intro exI[of _ c] exI[of _ s2]) simp
  qed
qed

text \<open>The laws of a loop \<open>lp\<close> of a traversal \<open>c\<close>: a known node is replaced by its result; a node without
  children is left; of a node with children the next one is entered or taken as it comes; when there is no
  next one, the node is rebuilt from the children and left. \<open>lv\<close> is what leaving does to a subtree, \<open>oth\<close> what
  becomes of a child that is not entered, and \<open>inn\<close> what an entered child becomes before its children are
  processed; it does not grow. The laws are about the stores that have grown from \<open>base\<close>.\<close>

locale memo_walk =
  fixes lp :: "'c \<Rightarrow> nat list \<Rightarrow> tref list \<Rightarrow> nat list \<Rightarrow> memo \<times> (nat \<times> nat) list \<Rightarrow> 'v store \<Rightarrow> 'r option"
    and valid uq :: "'c \<Rightarrow> bool" and vh :: "'c \<Rightarrow> 'v \<Rightarrow> u64" and base :: "'c \<Rightarrow> 'v store" and slot :: "'c \<Rightarrow> nat"
    and ent :: "'c \<Rightarrow> 'v \<times> 'v bt \<Rightarrow> bool" and inn oth lv g :: "'c \<Rightarrow> 'v \<times> 'v bt \<Rightarrow> 'v \<times> 'v bt"
  assumes g_rec: "valid c \<Longrightarrow> g c x = lv c (fst x, chain (map (\<lambda>x. if ent c x then g c (inn c x) else oth c x) (items (snd x))) Nil)"
    and inn_size: "valid c \<Longrightarrow> ent c x \<Longrightarrow> size (snd (inn c x)) \<le> size (snd x)"
    and known: "valid c \<Longrightarrow> stack ! u = p \<Longrightarrow> consult (uq c) (st_M s) (slot c) mc p = Some r \<Longrightarrow>
      lp c stack nxt (upos @ [u]) mc s = lp c (stack[u := r]) nxt upos mc s"
    and leaf: "valid c \<Longrightarrow> extends (vh c) (base c) s \<Longrightarrow> Some p \<in> refs (st_M s) \<Longrightarrow> stack ! u = p \<Longrightarrow>
      consult (uq c) (st_M s) (slot c) mc p = None \<Longrightarrow> n_l (node_at (st_M s) p) = None \<Longrightarrow>
      \<exists>r s'. lp c stack nxt (upos @ [u]) mc s = lp c (stack[u := r]) nxt upos mc s' \<and>
        result_of (vh c) s p s' r (lv c (subtree (st_M s) p))"
    and child: "valid c \<Longrightarrow> extends (vh c) (base c) s \<Longrightarrow> Some p \<in> refs (st_M s) \<Longrightarrow> Some k \<in> refs (st_M s) \<Longrightarrow> stack ! u = p \<Longrightarrow>
      consult (uq c) (st_M s) (slot c) mc p = None \<Longrightarrow> n_l (node_at (st_M s) p) \<noteq> None \<Longrightarrow>
      (if length stack - 1 - u = 0 then n_l (node_at (st_M s) p) else last nxt) = Some k \<Longrightarrow>
      \<exists>r s'. lp c stack nxt (upos @ [u]) mc s = lp c (stack @ [r]) (nxt @ [n_r (node_at (st_M s) k)])
          (if ent c (subtree (st_M s) k) then (upos @ [u]) @ [length (stack @ [r]) - 1] else upos @ [u]) mc s' \<and>
        grows (vh c) s s' \<and> Some r \<in> refs (st_M s') \<and>
        subtree (st_M s') r = (if ent c (subtree (st_M s) k) then inn c (subtree (st_M s) k) else oth c (subtree (st_M s) k))"
    and finish: "valid c \<Longrightarrow> extends (vh c) (base c) s \<Longrightarrow> Some p \<in> refs (st_M s) \<Longrightarrow> stack ! u = p \<Longrightarrow>
      consult (uq c) (st_M s) (slot c) mc p = None \<Longrightarrow> n_l (node_at (st_M s) p) \<noteq> None \<Longrightarrow>
      (if length stack - 1 - u = 0 then n_l (node_at (st_M s) p) else last nxt) = None \<Longrightarrow>
      drop (u + 1) stack = ds \<Longrightarrow> Some ` set ds \<subseteq> refs (st_M s) \<Longrightarrow>
      \<exists>r s' mc'. lp c stack nxt (upos @ [u]) mc s =
          lp c ((take (length stack - (length stack - 1 - u)) stack)[u := r]) (take (length nxt - (length stack - 1 - u)) nxt) upos mc' s' \<and>
        result_of (vh c) s p s' r (lv c (n_value (node_at (st_M s) p), chain (map (subtree (st_M s)) ds) Nil)) \<and>
        (mc' = mc \<or> mc' = memorize (st_M s') (slot c) p r mc)"
begin

definition pr :: "'c \<Rightarrow> 'v \<times> 'v bt \<Rightarrow> 'v \<times> 'v bt" where
  "pr c x = (if ent c x then g c (inn c x) else oth c x)"

lemma walk_finish:
  assumes v: "valid c" and w: "extends (vh c) (base c) s" and at: "at_node (uq c) (vh c) (slot c) (g c) s mc stack nxt p"
    and inv: "children_inv (uq c) (vh c) (slot c) (g c) (pr c) s mc p s1 mc1 ds nds None"
  shows "\<exists>r mc' s'. lp c (stack @ ds) (nxt @ nds) (upos @ [length stack - 1]) mc1 s1 = lp c (butlast stack @ [r]) nxt upos mc' s' \<and>
    node_done (uq c) (vh c) (slot c) (g c) s mc p s' mc' r \<and> n_r (node_at (st_M s') r) = n_r (node_at (st_M s) p)"
proof -
  let ?u = "length stack - 1" and ?n = "node_at (st_M s) p"
  have s: "wf_store (vh c) s" and p: "Some p \<in> refs (st_M s)" and ne: "stack \<noteq> []" and ln: "length nxt = length stack"
    using at by (simp_all add: at_node_def)
  note par = at_node_parent[OF at inv]
  have gr: "grows (vh c) s s1" and m1: "memo_ok (g c) s1 (slot c) mc1" and dr: "Some ` set ds \<subseteq> refs (st_M s1)"
    and keys: "memo_keys (uq c) s1 (slot c) mc1 \<subseteq> memo_keys (uq c) s (slot c) mc \<union> {x. size (snd x) < size (snd (subtree (st_M s) p))}"
    and res: "map (subtree (st_M s1)) ds = map (pr c) (items (snd (subtree (st_M s) p)))" and nds: "length nds = length ds"
    using inv unfolding children_inv_def by simp_all
  note w1 = extends_grows[OF w gr]
  obtain r s3 mc' where r: "lp c (stack @ ds) (nxt @ nds) (upos @ [?u]) mc1 s1 =
      lp c ((take (length (stack @ ds) - (length (stack @ ds) - 1 - ?u)) (stack @ ds))[?u := r])
        (take (length (nxt @ nds) - (length (stack @ ds) - 1 - ?u)) (nxt @ nds)) upos mc' s3"
    "result_of (vh c) s1 p s3 r (lv c (n_value (node_at (st_M s1) p), chain (map (subtree (st_M s1)) ds) Nil))"
    "mc' = mc1 \<or> mc' = memorize (st_M s3) (slot c) p r mc1"
    using finish[OF v w1 par(2,5,4,7,8,11) dr, of upos] by blast
  have g3: "grows (vh c) s1 s3" "Some r \<in> refs (st_M s3)" "n_r (node_at (st_M s3) r) = n_r ?n"
    using r(2) par(10) by (simp_all add: result_of_def)
  note g03 = grown_trans[OF gr g3(1)]
  have "subtree (st_M s3) r = lv c (fst (subtree (st_M s) p), chain (map (pr c) (items (snd (subtree (st_M s) p)))) Nil)"
    using r(2) par(9) subtree_node[OF wf_store_nodes[OF s] p] unfolding result_of_def res by simp
  then have rg: "subtree (st_M s3) r = g c (subtree (st_M s) p)" using g_rec[OF v] unfolding pr_def by simp
  have rs: "subtree (st_M s3) p = subtree (st_M s) p" by (rule subtree_grows[OF g03 p])
  note m3 = memo_ok_grows[OF g3(1) m1]
  have mo: "memo_ok (g c) s3 (slot c) mc'"
    using r(3) m3 memorize_ok[OF m3 grows_refs[OF g03 p] g3(2)] rg rs by auto
  have "memo_keys (uq c) s3 (slot c) mc' \<subseteq> insert (subtree (st_M s) p) (memo_keys (uq c) s1 (slot c) mc1)"
    using r(3) memo_keys_memorize[of "uq c" s3 "slot c" p r mc1] memo_keys_grows[OF g3(1) m1] rs by auto
  then have "memo_keys (uq c) s3 (slot c) mc' \<subseteq> memo_keys (uq c) s (slot c) mc \<union> {x. size (snd x) \<le> size (snd (subtree (st_M s) p))}"
    using keys by fastforce
  then have nd: "node_done (uq c) (vh c) (slot c) (g c) s mc p s3 mc' r" using g03 g3(2) rg mo by (simp add: node_done_def)
  have "(take (length (stack @ ds) - (length (stack @ ds) - 1 - ?u)) (stack @ ds))[?u := r] = butlast stack @ [r]"
    unfolding par(6) using butlast_update[OF ne] by simp
  moreover have "take (length (nxt @ nds) - (length (stack @ ds) - 1 - ?u)) (nxt @ nds) = nxt"
    unfolding par(6) using nds by simp
  ultimately show ?thesis using nd r(1) g3(3) by metis
qed

lemma walk_children:
  assumes v: "valid c" and w: "extends (vh c) (base c) s" and at: "at_node (uq c) (vh c) (slot c) (g c) s mc stack nxt p"
    and IH: "\<And>s1 k mc1 stack nxt upos. size (snd (subtree (st_M s1) k)) < size (snd (subtree (st_M s) p)) \<Longrightarrow>
      extends (vh c) (base c) s1 \<Longrightarrow> Some k \<in> refs (st_M s1) \<Longrightarrow> memo_ok (g c) s1 (slot c) mc1 \<Longrightarrow>
      stack \<noteq> [] \<Longrightarrow> last stack = k \<Longrightarrow> length nxt = length stack \<Longrightarrow>
      \<exists>r mc' s'. lp c stack nxt (upos @ [length stack - 1]) mc1 s1 = lp c (butlast stack @ [r]) nxt upos mc' s' \<and>
        node_done (uq c) (vh c) (slot c) (g c) s1 mc1 k s' mc' r"
  shows "children_inv (uq c) (vh c) (slot c) (g c) (pr c) s mc p s1 mc1 ds nds t \<Longrightarrow>
    \<exists>r mc' s'. lp c (stack @ ds) (nxt @ nds) (upos @ [length stack - 1]) mc1 s1 = lp c (butlast stack @ [r]) nxt upos mc' s' \<and>
      node_done (uq c) (vh c) (slot c) (g c) s mc p s' mc' r \<and> n_r (node_at (st_M s') r) = n_r (node_at (st_M s) p)"
proof (induction "length (items (den (st_M s1) t))" arbitrary: t ds nds s1 mc1 rule: less_induct)
  case less
  let ?u = "length stack - 1"
  note par = at_node_parent[OF at less.prems]
  show ?case
  proof (cases t)
    case None
    then show ?thesis using walk_finish[OF v w at] less.prems by blast
  next
    case (Some k)
    note k = children_inv_next[OF less.prems[unfolded Some]]
    let ?t = "n_r (node_at (st_M s1) k)"
    have w1: "extends (vh c) (base c) s1" using extends_grows[OF w] less.prems unfolding children_inv_def by blast
    note step = child[OF v w1 par(2) k(2) par(5,4,7) par(8)[unfolded Some], of upos]
    show ?thesis
    proof (cases "ent c (subtree (st_M s1) k)")
      case False
      then obtain r s2 where r: "lp c (stack @ ds) (nxt @ nds) (upos @ [?u]) mc1 s1 =
          lp c ((stack @ ds) @ [r]) ((nxt @ nds) @ [?t]) (upos @ [?u]) mc1 s2" "grows (vh c) s1 s2" "Some r \<in> refs (st_M s2)"
        "subtree (st_M s2) r = oth c (subtree (st_M s1) k)" using step by auto
      have "subtree (st_M s2) r = pr c (subtree (st_M s1) k)" using r(4) False by (simp add: pr_def)
      note inv = k(6)[OF r(2,3) this memo_ok_grows[OF r(2) k(3)]]
      have keys: "memo_keys (uq c) s2 (slot c) mc1 \<subseteq>
          memo_keys (uq c) s1 (slot c) mc1 \<union> {x. size (snd x) \<le> size (snd (subtree (st_M s1) k))}"
        using memo_keys_grows[OF r(2) k(3)] by blast
      show ?thesis using less.hyps[OF _ conjunct1[OF inv[OF keys]]] k(5) conjunct2[OF inv[OF keys]] r(1) Some by simp
    next
      case True
      then obtain q s2 where q: "lp c (stack @ ds) (nxt @ nds) (upos @ [?u]) mc1 s1 =
          lp c ((stack @ ds) @ [q]) ((nxt @ nds) @ [?t]) ((upos @ [?u]) @ [length ((stack @ ds) @ [q]) - 1]) mc1 s2"
        "grows (vh c) s1 s2" "Some q \<in> refs (st_M s2)" "subtree (st_M s2) q = inn c (subtree (st_M s1) k)" using step by auto
      have sz: "size (snd (subtree (st_M s2) q)) \<le> size (snd (subtree (st_M s1) k))" using inn_size[OF v True] q(4) by simp
      let ?stack = "(stack @ ds) @ [q]" and ?nxt = "(nxt @ nds) @ [?t]"
      have "length ?nxt = length ?stack" using less.prems at by (simp add: children_inv_def at_node_def)
      then obtain r mc2 s3 where r: "lp c ?stack ?nxt ((upos @ [?u]) @ [length ?stack - 1]) mc1 s2 =
          lp c (butlast ?stack @ [r]) ?nxt (upos @ [?u]) mc2 s3" "node_done (uq c) (vh c) (slot c) (g c) s2 mc1 q s3 mc2 r"
        using IH[OF le_less_trans[OF sz k(4)] extends_grows[OF w1 q(2)] q(3) memo_ok_grows[OF q(2) k(3)], of ?stack ?nxt "upos @ [?u]"] by auto
      have nd: "grows (vh c) s1 s3" "Some r \<in> refs (st_M s3)" "subtree (st_M s3) r = pr c (subtree (st_M s1) k)" "memo_ok (g c) s3 (slot c) mc2"
        using r(2) True q(4) grown_trans[OF q(2)] by (simp_all add: node_done_def pr_def)
      have keys: "memo_keys (uq c) s3 (slot c) mc2 \<subseteq>
          memo_keys (uq c) s1 (slot c) mc1 \<union> {x. size (snd x) \<le> size (snd (subtree (st_M s1) k))}"
        using r(2) sz memo_keys_grows[OF q(2) k(3)] unfolding node_done_def by fastforce
      have "lp c (stack @ ds) (nxt @ nds) (upos @ [?u]) mc1 s1 = lp c (stack @ ds @ [r]) (nxt @ nds @ [?t]) (upos @ [?u]) mc2 s3"
        using q(1) r(1) by (simp add: butlast_append)
      then show ?thesis using less.hyps[OF _ conjunct1[OF k(6)[OF nd keys]]] k(5) k(6)[OF nd keys] Some by simp
    qed
  qed
qed

lemma walk_node:
  assumes v: "valid c"
  shows "extends (vh c) (base c) s \<Longrightarrow> Some p \<in> refs (st_M s) \<Longrightarrow> memo_ok (g c) s (slot c) mc \<Longrightarrow>
    stack \<noteq> [] \<Longrightarrow> last stack = p \<Longrightarrow> length nxt = length stack \<Longrightarrow>
    \<exists>r mc' s'. lp c stack nxt (upos @ [length stack - 1]) mc s = lp c (butlast stack @ [r]) nxt upos mc' s' \<and>
      node_done (uq c) (vh c) (slot c) (g c) s mc p s' mc' r \<and>
      (consult (uq c) (st_M s) (slot c) mc p = None \<longrightarrow> n_r (node_at (st_M s') r) = n_r (node_at (st_M s) p))"
proof (induction "size (snd (subtree (st_M s) p))" arbitrary: s p mc stack nxt upos rule: less_induct)
  case less
  let ?u = "length stack - 1" and ?n = "node_at (st_M s) p"
  note gs = less.prems(1) and s = extends_wf[OF less.prems(1)] and p = less.prems(2)
  note w = wf_store_nodes[OF s]
  have sp: "subtree (st_M s) p = (n_value ?n, den (st_M s) (n_l ?n))" by (rule subtree_node[OF w p])
  have top: "stack ! ?u = p" using less.prems(4,5) by (simp add: last_conv_nth)
  show ?case
  proof (cases "consult (uq c) (st_M s) (slot c) mc p")
    case (Some r)
    note * = recall_ok[OF w p less.prems(3) consult_Some[OF Some]]
    have "lp c stack nxt (upos @ [?u]) mc s = lp c (butlast stack @ [r]) nxt upos mc s"
      using known[OF v top Some] butlast_update[OF less.prems(4)] by simp
    moreover have "node_done (uq c) (vh c) (slot c) (g c) s mc p s mc r"
      using * less.prems(3) grown_refl[OF s] by (auto simp: node_done_def)
    ultimately show ?thesis using Some by (intro exI[of _ r] exI[of _ mc] exI[of _ s]) simp
  next
    case None
    note unknown = this
    have keys: "subtree (st_M s) p \<notin> memo_keys (uq c) s (slot c) mc" using consult_None[OF w less.prems(3) p] None by blast
    show ?thesis
    proof (cases "n_l ?n")
      case None
      obtain r s' where r: "lp c stack nxt (upos @ [?u]) mc s = lp c (stack[?u := r]) nxt upos mc s'"
        "result_of (vh c) s p s' r (lv c (subtree (st_M s) p))" using leaf[OF v gs p top unknown None] by blast
      have "lv c (subtree (st_M s) p) = g c (subtree (st_M s) p)" using g_rec[OF v, of "subtree (st_M s) p"] sp None by simp
      then have "node_done (uq c) (vh c) (slot c) (g c) s mc p s' mc r"
        using r(2) memo_ok_grows[OF _ less.prems(3)] memo_keys_grows[OF _ less.prems(3)]
        by (auto simp: node_done_def result_of_def)
      moreover have "lp c stack nxt (upos @ [?u]) mc s = lp c (butlast stack @ [r]) nxt upos mc s'"
        using r(1) butlast_update[OF less.prems(4)] by simp
      moreover have "n_r (node_at (st_M s') r) = n_r ?n" using r(2) by (simp add: result_of_def)
      ultimately show ?thesis by blast
    next
      case (Some d)
      have at: "at_node (uq c) (vh c) (slot c) (g c) s mc stack nxt p" using less.prems s Some keys by (simp add: at_node_def)
      have "children_inv (uq c) (vh c) (slot c) (g c) (pr c) s mc p s mc [] [] (n_l ?n)"
        using grown_refl[OF s] less.prems(3) den_node_at(2)[OF w p] sp by (auto simp: children_inv_def)
      from walk_children[OF v gs at _ this, of upos] less.hyps
      have "\<exists>r mc' s'. lp c (stack @ []) (nxt @ []) (upos @ [?u]) mc s = lp c (butlast stack @ [r]) nxt upos mc' s' \<and>
          node_done (uq c) (vh c) (slot c) (g c) s mc p s' mc' r \<and> n_r (node_at (st_M s') r) = n_r ?n" by blast
      then show ?thesis unfolding append_Nil2 by blast
    qed
  qed
qed

end


end
