(* ===== verification/TreeApply.thy ===== *)
theory TreeApply
  imports TreeMemo
begin

text \<open>
  The traversal that rewrites a tree bottom-up, \<open>post_order::traverse\<close> and \<open>apply_unique\<close> in
  \<open>src/src/utility/tree_traversals_post_order.tmpl.h\<close>. Callbacks may create nodes; a null result ends the
  traversal. The loop has the laws of \<open>memo_walk\<close>, so it computes the bottom-up map of the function.
\<close>

section \<open>The traversal\<close>

text \<open>What a traversal is called with: the allocator and the hash of the values, the hooks, the slot, the
  function and the predicate.\<close>

record 'v rewriting =
  rw_al :: alloc
  rw_vh :: "'v \<Rightarrow> u64"
  rw_hooks :: "'v hooks"
  rw_slot :: nat
  rw_f :: "'v callback"
  rw_subtree :: "nat \<Rightarrow> tref \<Rightarrow> 'v store \<Rightarrow> bool"

partial_function (option) apply_loop ::
  "'v rewriting \<Rightarrow> nat list \<Rightarrow> tref list \<Rightarrow> nat list \<Rightarrow> memo \<times> (nat \<times> nat) list \<Rightarrow> 'v store \<Rightarrow> (tref \<times> memo \<times> 'v store) option" where
  [code]: "apply_loop rw stack nxt upos mc s =
     (if upos = [] then Some (Some (stack ! 0), fst mc, s)
      else
        (let u = last upos; c_node = stack ! u; t = node_at (st_M s) c_node;
             known = recall (st_M s) (rw_slot rw) (fst mc) (snd mc) c_node in
         if known \<noteq> None then apply_loop rw (stack[u := the known]) nxt (butlast upos) mc s
         else if n_l t = None then
           (case call_cb (rw_al rw) (rw_vh rw) (rw_f rw) c_node (post_parent stack upos) s of
              (r, s) \<Rightarrow> if r = None then Some (None, fst mc, s)
                else apply_loop rw (stack[u := the r]) nxt (butlast upos) mc s)
         else
           (let c_pos = (length stack - 1) - u; c = (if c_pos = 0 then n_l t else last nxt) in
            if c = None then
              Option.bind (children (st_M s) c_node)
                (\<lambda>ch_range.
                   case (if drop (u + 1) stack = ch_range then (Some c_node, s)
                         else tree_get (rw_al rw) (rw_vh rw) (rw_hooks rw) (n_value t) (drop (u + 1) stack) (n_r t) s) of
                     (res, s) \<Rightarrow>
                       if res = None then Some (None, fst mc, s)
                       else (case call_cb (rw_al rw) (rw_vh rw) (rw_f rw) (the res) (post_parent stack upos) s of
                         (r, s) \<Rightarrow>
                           if r = None then Some (None, fst mc, s)
                           else apply_loop rw
                             ((take (length stack - c_pos) stack)[u := the r]) (take (length nxt - c_pos) nxt) (butlast upos)
                             (memorize (st_M s) (rw_slot rw) c_node (the r) mc) s))
            else
              (let stack = stack @ [the c]; nxt = nxt @ [n_r (node_at (st_M s) (the c))] in
               if rw_subtree rw (the c) (Some c_node) s
               then apply_loop rw stack nxt (upos @ [length stack - 1]) mc s
               else apply_loop rw stack nxt upos mc s))))"

definition post_traverse :: "'v rewriting \<Rightarrow> tref \<Rightarrow> memo \<Rightarrow> 'v store \<Rightarrow> (tref \<times> memo \<times> 'v store) option" where
  "post_traverse rw n m s =
     (case n of None \<Rightarrow> Some (None, m, s)
      | Some n \<Rightarrow>
          if rw_slot rw \<noteq> 0 \<and> recall (st_M s) (rw_slot rw) m [] n \<noteq> None
          then Some (recall (st_M s) (rw_slot rw) m [] n, m, s)
          else apply_loop rw [n] [None] [0] (m, []) s)"

text \<open>\<open>apply_unique\<close>, with the collector paused.\<close>

definition apply_unique :: "'v rewriting \<Rightarrow> nat \<Rightarrow> memo \<Rightarrow> 'v store \<Rightarrow> (tref \<times> memo \<times> 'v store) option" where
  "apply_unique rw n m s =
     (if rw_subtree rw n None s
      then Option.bind (post_traverse rw (Some n) m (pause_gc s)) (\<lambda>(r, m, s). Some (r, m, resume_gc s))
      else Some (Some n, m, s))"

section \<open>The bottom-up map\<close>

text \<open>What it computes: the function on subtrees is applied to each subtree after the ones below it.
  Subtrees that do not satisfy the predicate are left as they are.\<close>

fun bottom_up :: "('v \<times> 'v bt \<Rightarrow> 'v \<times> 'v bt) \<Rightarrow> ('v \<times> 'v bt \<Rightarrow> bool) \<Rightarrow> 'v bt \<Rightarrow> ('v \<times> 'v bt) list" where
  "bottom_up F V Nil = []"
| "bottom_up F V (Bt v l r) = (if V (v, l) then F (v, chain (bottom_up F V l) Nil) else (v, l)) # bottom_up F V r"

definition bottom_up_at :: "('v \<times> 'v bt \<Rightarrow> 'v \<times> 'v bt) \<Rightarrow> ('v \<times> 'v bt \<Rightarrow> bool) \<Rightarrow> 'v \<times> 'v bt \<Rightarrow> 'v \<times> 'v bt" where
  "bottom_up_at F V x = F (fst x, chain (bottom_up F V (snd x)) Nil)"

section \<open>The loop computes the map\<close>

definition rw_ok :: "'v rewriting \<Rightarrow> 'v store \<Rightarrow> ('v \<times> 'v bt \<Rightarrow> 'v \<times> 'v bt) \<Rightarrow> ('v \<times> 'v bt \<Rightarrow> bool) \<Rightarrow> bool" where
  "rw_ok rw s0 F V \<longleftrightarrow> fresh (rw_al rw) \<and> computes (rw_vh rw) s0 (rw_f rw) F \<and> decides (rw_vh rw) s0 (rw_subtree rw) V \<and>
     (\<not> use_hooks (rw_hooks rw) \<or> hook (rw_hooks rw) = None)"

lemma bottom_up_items:
  "bottom_up F V t = map (\<lambda>x. if V x then bottom_up_at F V x else x) (items t)"
  by (induction t) (auto simp: bottom_up_at_def)

lemma apply_known:
  assumes "stack ! u = p" "recall (st_M s) (rw_slot rw) (fst mc) (snd mc) p = Some r"
  shows "apply_loop rw stack nxt (upos @ [u]) mc s = apply_loop rw (stack[u := r]) nxt upos mc s"
  by (subst apply_loop.simps) (simp add: Let_def assms)

lemma apply_leaf:
  assumes "stack ! u = p" "recall (st_M s) (rw_slot rw) (fst mc) (snd mc) p = None" "n_l (node_at (st_M s) p) = None"
    "call_cb (rw_al rw) (rw_vh rw) (rw_f rw) p (post_parent stack (upos @ [u])) s = (Some r, s')"
  shows "apply_loop rw stack nxt (upos @ [u]) mc s = apply_loop rw (stack[u := r]) nxt upos mc s'"
  by (subst apply_loop.simps) (simp add: Let_def assms)

lemma apply_child:
  assumes "stack ! u = p" "recall (st_M s) (rw_slot rw) (fst mc) (snd mc) p = None" "n_l (node_at (st_M s) p) \<noteq> None"
    "(if length stack - 1 - u = 0 then n_l (node_at (st_M s) p) else last nxt) = Some c"
  shows "apply_loop rw stack nxt (upos @ [u]) mc s =
    (if rw_subtree rw c (Some p) s
     then apply_loop rw (stack @ [c]) (nxt @ [n_r (node_at (st_M s) c)]) ((upos @ [u]) @ [length (stack @ [c]) - 1]) mc s
     else apply_loop rw (stack @ [c]) (nxt @ [n_r (node_at (st_M s) c)]) (upos @ [u]) mc s)"
  by (subst apply_loop.simps)
    (simp only: Let_def assms last_snoc append_is_Nil_conv list.distinct simp_thms if_False if_True option.distinct option.sel)

lemma apply_done:
  assumes "stack ! u = p" "recall (st_M s) (rw_slot rw) (fst mc) (snd mc) p = None" "n_l (node_at (st_M s) p) \<noteq> None"
    "(if length stack - 1 - u = 0 then n_l (node_at (st_M s) p) else last nxt) = None"
    "children (st_M s) p = Some cs"
    "(if drop (u + 1) stack = cs then (Some p, s)
      else tree_get (rw_al rw) (rw_vh rw) (rw_hooks rw) (n_value (node_at (st_M s) p)) (drop (u + 1) stack) (n_r (node_at (st_M s) p)) s) = (Some q, s1)"
    "call_cb (rw_al rw) (rw_vh rw) (rw_f rw) q (post_parent stack (upos @ [u])) s1 = (Some r, s2)"
  shows "apply_loop rw stack nxt (upos @ [u]) mc s =
    apply_loop rw ((take (length stack - (length stack - 1 - u)) stack)[u := r]) (take (length nxt - (length stack - 1 - u)) nxt) upos
      (memorize (st_M s2) (rw_slot rw) p r mc) s2"
  by (subst apply_loop.simps)
    (simp only: Let_def assms last_snoc butlast_snoc append_is_Nil_conv list.distinct simp_thms if_False if_True
      option.distinct option.sel Option.bind.bind_lunit prod.case)

lemma apply_finish:
  assumes ok: "rw_ok rw s0 F V" and s0: "extends (rw_vh rw) s0 s" and p: "Some p \<in> refs (st_M s)" and top: "stack ! u = p"
    and unknown: "recall (st_M s) (rw_slot rw) (fst mc) (snd mc) p = None" and l: "n_l (node_at (st_M s) p) \<noteq> None"
    and no: "(if length stack - 1 - u = 0 then n_l (node_at (st_M s) p) else last nxt) = None"
    and drp: "drop (u + 1) stack = ds" and dr: "Some ` set ds \<subseteq> refs (st_M s)"
  shows "\<exists>r s' mc'. apply_loop rw stack nxt (upos @ [u]) mc s =
      apply_loop rw ((take (length stack - (length stack - 1 - u)) stack)[u := r]) (take (length nxt - (length stack - 1 - u)) nxt) upos mc' s' \<and>
    result_of (rw_vh rw) s p s' r (F (n_value (node_at (st_M s) p), chain (map (subtree (st_M s)) ds) Nil)) \<and>
    (mc' = mc \<or> mc' = memorize (st_M s') (rw_slot rw) p r mc)"
proof -
  let ?vh = "rw_vh rw" and ?n = "node_at (st_M s) p"
  note s = extends_wf[OF s0]
  have al: "fresh (rw_al rw)" and f: "computes ?vh s0 (rw_f rw) F" and h: "\<not> use_hooks (rw_hooks rw) \<or> hook (rw_hooks rw) = None"
    using ok by (simp_all add: rw_ok_def)
  obtain cs q s1 where cs: "children (st_M s) p = Some cs" and
    q: "(if ds = cs then (Some p, s) else tree_get (rw_al rw) ?vh (rw_hooks rw) (n_value ?n) ds (n_r ?n) s) = (Some q, s1)"
    and qr: "result_of ?vh s p s1 q (n_value ?n, chain (map (subtree (st_M s)) ds) Nil)"
    using rebuild_ok[OF al h s dr p] by blast
  note gq = qr[unfolded result_of_def]
  obtain r s2 where r: "call_cb (rw_al rw) ?vh (rw_f rw) q (post_parent stack (upos @ [u])) s1 = (Some r, s2)" "grows ?vh s1 s2"
    "Some r \<in> refs (st_M s2)" "subtree (st_M s2) r = F (subtree (st_M s1) q)" "n_r (node_at (st_M s2) r) = n_r (node_at (st_M s1) q)"
    using call_cb_ok[OF al f extends_grows[OF s0]] gq by blast
  have "result_of ?vh s p s2 r (F (n_value ?n, chain (map (subtree (st_M s)) ds) Nil))"
    using r(3-5) gq grown_trans[OF _ r(2)] by (simp add: result_of_def)
  moreover have "apply_loop rw stack nxt (upos @ [u]) mc s =
      apply_loop rw ((take (length stack - (length stack - 1 - u)) stack)[u := r]) (take (length nxt - (length stack - 1 - u)) nxt) upos
        (memorize (st_M s2) (rw_slot rw) p r mc) s2"
    by (rule apply_done[OF top unknown l no cs _ r(1)]) (unfold drp, rule q)
  ultimately show ?thesis by (intro exI conjI) (assumption, assumption, rule disjI2, rule refl)
qed

text \<open>The loop has the laws of a memoized walk: nodes that satisfy the predicate are entered, the others are
  taken as they are, and leaving a node applies the function.\<close>

interpretation post: memo_walk
  "\<lambda>(rw, s0, F, V). apply_loop rw" "\<lambda>(rw, s0, F, V). rw_ok rw s0 F V" "\<lambda>c. True" "\<lambda>(rw, s0, F, V). rw_vh rw" "\<lambda>(rw, s0, F, V). s0" "\<lambda>(rw, s0, F, V). rw_slot rw"
  "\<lambda>(rw, s0, F, V). V" "\<lambda>c x. x" "\<lambda>c x. x" "\<lambda>(rw, s0, F, V). F" "\<lambda>(rw, s0, F, V). bottom_up_at F V"
proof (unfold_locales, goal_cases g_rec inn_size known leaf child finish)
  case (g_rec c x)
  obtain rw s0 F V where c: "c = (rw, s0, F, V)" by (cases c)
  show ?case unfolding c prod.case by (simp add: bottom_up_at_def bottom_up_items)
next
  case (inn_size c x)
  then show ?case by simp
next
  case (known c stack u p s mc r nxt upos)
  then show ?case by (cases c) (simp add: apply_known)
next
  case (leaf c s p stack u mc nxt upos)
  obtain rw s0 F V where c: "c = (rw, s0, F, V)" by (cases c)
  have "fresh (rw_al rw)" "computes (rw_vh rw) s0 (rw_f rw) F" using leaf(1) by (simp_all add: c rw_ok_def)
  from call_cb_ok[OF this, of s p "post_parent stack (upos @ [u])"] leaf(2,3) obtain r s' where
    r: "call_cb (rw_al rw) (rw_vh rw) (rw_f rw) p (post_parent stack (upos @ [u])) s = (Some r, s')"
      "result_of (rw_vh rw) s p s' r (F (subtree (st_M s) p))" by (auto simp: c result_of_def)
  show ?case using apply_leaf[OF leaf(4) _ leaf(6) r(1)] leaf(5) r(2) unfolding c by auto
next
  case (child c s p k stack u mc nxt upos)
  obtain rw s0 F V where c: "c = (rw, s0, F, V)" by (cases c)
  have "rw_subtree rw k (Some p) s = V (subtree (st_M s) k)"
    using child(1,2,4) unfolding rw_ok_def decides_def c by auto
  moreover have "grows (rw_vh rw) s s" using grown_refl[OF extends_wf] child(2) by (simp add: c)
  ultimately show ?case using apply_child[OF child(5) _ child(7,8), of rw mc upos] child(4,6) unfolding c prod.case
    by (intro exI[of _ k] exI[of _ s]) simp
next
  case (finish c s p stack u mc nxt ds upos)
  then show ?case using apply_finish by (cases c) simp
qed

section \<open>What the traversal promises\<close>

text \<open>A callback that changes the value of the node and nothing else.\<close>

definition map_value :: "alloc \<Rightarrow> ('v \<Rightarrow> u64) \<Rightarrow> ('v \<Rightarrow> 'v) \<Rightarrow> 'v callback" where
  "map_value al vh h a par s =
     (case replace_value al vh a (h (n_value (node_at (st_M s) a))) s of (b, s) \<Rightarrow> (Some b, s))"

lemma map_value_computes:
  assumes "fresh al"
  shows "computes vh s0 (map_value al vh h) (\<lambda>(v, l). (h v, l))"
  unfolding computes_def
proof (intro allI impI)
  fix s a par assume a: "extends vh s0 s \<and> Some a \<in> refs (st_M s)"
  then have w: "wf_nodes vh (st_M s)" using extends_wf wf_store_nodes by blast
  let ?n = "node_at (st_M s) a"
  note n = den_node_at[OF w conjunct2[OF a]]
  obtain b s' where b: "get_node al vh (h (n_value ?n)) (n_l ?n) (n_r ?n) s = (b, s')" by fastforce
  note g = get_node_grows[OF assms extends_wf[OF conjunct1[OF a]] n(2,3) b]
  then have "subtree (st_M s') b = (h (n_value ?n), den (st_M s) (n_l ?n))" by (simp add: subtree_def)
  then show "\<exists>b s'. map_value al vh h a par s = (Some b, s') \<and> grows vh s s' \<and> Some b \<in> refs (st_M s') \<and>
      subtree (st_M s') b = (case subtree (st_M s) a of (v, l) \<Rightarrow> (h v, l))"
    using b g subtree_node[OF w conjunct2[OF a]] by (simp add: map_value_def replace_value_def)
qed

lemma pause_gc_M [simp]: "st_M (pause_gc s) = st_M s" "st_M (resume_gc s) = st_M s"
  by (simp_all add: pause_gc_def resume_gc_def)

lemma grows_pause_gc: "grows vh (pause_gc s) s' \<Longrightarrow> grows vh s (resume_gc s')"
  by (auto simp: grows_def wf_store_def pause_gc_def resume_gc_def)

text \<open>C21: Rewriting a tree with memoization is the bottom-up map of the function: for a callback that
  computes a function of the subtree it is called with, and with a memory that holds earlier results of
  the same function, the traversal returns, its result is the subtree that the plain recursion gives
  whatever was memorized before or during the call, the right sibling of the root is kept when the memory
  of the program is not used, no tree that was in the store is changed, and the memory is left correct.\<close>
theorem apply_unique_maps:
  assumes ok: "rw_ok rw s F V" and s: "wf_store (rw_vh rw) s" and n: "Some n \<in> refs (st_M s)"
    and m: "memo_ok (bottom_up_at F V) s (rw_slot rw) (m, [])"
  shows "\<exists>r m' s'. apply_unique rw n m s = Some (Some r, m', s') \<and> grows (rw_vh rw) s s' \<and> Some r \<in> refs (st_M s') \<and>
    subtree (st_M s') r = (if V (subtree (st_M s) n) then bottom_up_at F V (subtree (st_M s) n) else subtree (st_M s) n) \<and>
    (rw_slot rw = 0 \<longrightarrow> n_r (node_at (st_M s') r) = n_r (node_at (st_M s) n)) \<and>
    memo_ok (bottom_up_at F V) s' (rw_slot rw) (m', [])"
proof (cases "V (subtree (st_M s) n)")
  case False
  then have "apply_unique rw n m s = Some (Some n, m, s)"
    using ok n extends_refl[OF s] by (simp add: apply_unique_def rw_ok_def decides_def)
  then show ?thesis using False n m grown_refl[OF s] by auto
next
  case True
  let ?g = "bottom_up_at F V" and ?s = "pause_gc s"
  have ps: "extends (rw_vh rw) s ?s" using s by (simp add: extends_def wf_store_def pause_gc_def)
  have pm: "memo_ok ?g ?s (rw_slot rw) (m, [])" using m by (simp add: memo_ok_def)
  have un: "apply_unique rw n m s = Option.bind (post_traverse rw (Some n) m ?s) (\<lambda>(r, m, s). Some (r, m, resume_gc s))"
    using True ok n extends_refl[OF s] by (simp add: apply_unique_def rw_ok_def decides_def)
  show ?thesis
  proof (cases "rw_slot rw \<noteq> 0 \<and> recall (st_M s) (rw_slot rw) m [] n \<noteq> None")
    case True': True
    then obtain r where r: "recall (st_M s) (rw_slot rw) m [] n = Some r" by blast
    have "apply_unique rw n m s = Some (Some r, m, resume_gc ?s)"
      unfolding un using True' r by (simp add: post_traverse_def)
    moreover have "resume_gc ?s = s" by (simp add: pause_gc_def resume_gc_def)
    ultimately show ?thesis
      using recall_ok[OF wf_store_nodes[OF s] n m, of r] r True True' m grown_refl[OF s] by auto
  next
    case False
    obtain r mc' s' where r: "apply_loop rw [n] [None] ([] @ [length [n] - 1]) (m, []) ?s = apply_loop rw (butlast [n] @ [r]) [None] [] mc' s'"
      "node_done True (rw_vh rw) (rw_slot rw) ?g ?s (m, []) n s' mc' r"
      "recall (st_M ?s) (rw_slot rw) m [] n = None \<longrightarrow> n_r (node_at (st_M s') r) = n_r (node_at (st_M ?s) n)"
      using post.walk_node[of "(rw, s, F, V)" ?s n "(m, [])" "[n]" "[None]" "[]"] ok ps n pm by auto
    have "apply_unique rw n m s = Some (Some r, fst mc', resume_gc s')"
      unfolding un using False r(1) by (auto simp: post_traverse_def apply_loop.simps[of rw "[r]"])
    moreover have "memo_ok ?g (resume_gc s') (rw_slot rw) (fst mc', [])"
      using r(2) unfolding node_done_def memo_ok_def pause_gc_M by simp
    moreover have "recall (st_M s) 0 m [] n = None" by (simp add: recall_def)
    ultimately show ?thesis
      using r(2,3) True grows_pause_gc by (auto simp: node_done_def)
  qed
qed

definition inc_values :: "nat rewriting" where
  "inc_values = \<lparr>rw_al = next_address, rw_vh = nat_hash, rw_hooks = \<lparr>use_hooks = False, hook = None\<rparr>, rw_slot = 0,
     rw_f = map_value next_address nat_hash Suc, rw_subtree = (\<lambda>a par s. True)\<rparr>"

theorem apply_unique_maps_witness:
  "\<exists>r m' s'. apply_unique inc_values 6 [] abc_store = Some (Some r, m', s') \<and>
    subtree (st_M s') r = (1, Bt 2 Nil (Bt 3 Nil Nil))"
proof -
  have ok: "rw_ok inc_values abc_store (\<lambda>(v, l). (Suc v, l)) (\<lambda>x. True)"
    using map_value_computes[OF fresh_next_address] fresh_next_address
    by (simp add: rw_ok_def inc_values_def decides_def)
  have s: "wf_store (rw_vh inc_values) abc_store" using abc_wf by (simp add: inc_values_def)
  have m: "memo_ok (bottom_up_at (\<lambda>(v, l). (Suc v, l)) (\<lambda>x. True)) abc_store (rw_slot inc_values) ([], [])"
    by (simp add: memo_ok_def)
  have "subtree (st_M abc_store) 6 = (0, Bt 1 Nil (Bt 2 Nil Nil))" by (simp add: abc_store_def subtree_def)
  then have "bottom_up_at (\<lambda>(v, l). (Suc v, l)) (\<lambda>x. True) (subtree (st_M abc_store) 6) = (1, Bt 2 Nil (Bt 3 Nil Nil))"
    by (simp add: bottom_up_at_def)
  then show ?thesis using apply_unique_maps[OF ok s abc_refs(1) m] by auto
qed

end
