(* ===== verification/TreeReplace.thy ===== *)
theory TreeReplace
  imports TreeApply
begin

text \<open>
  The traversal that rewrites a tree top-down, \<open>pre_order::traverse\<close> in
  \<open>src/src/utility/tree_traversals_pre_order.tmpl.h\<close> with its entries \<open>apply_unique\<close>, \<open>apply\<close>,
  \<open>apply_unique_until_change\<close> and \<open>apply_until_change\<close>, and what \<open>tree_rewriter.tmpl.h\<close> builds on it: the
  replacement of subtrees.
\<close>

section \<open>The traversal\<close>

text \<open>The parameters of the template, the callbacks and what they are called with.\<close>

record 'v pre_rewriting =
  rp_al :: alloc
  rp_vh :: "'v \<Rightarrow> u64"
  rp_hooks :: "'v hooks"
  rp_break :: bool
  rp_slot :: nat
  rp_unique :: bool
  rp_f :: "'v callback"
  rp_subtree :: "nat \<Rightarrow> 'v store \<Rightarrow> bool"
  rp_up :: "'v callback"
  rp_cache_ok :: "nat \<Rightarrow> nat \<Rightarrow> 'v store \<Rightarrow> bool"

text \<open>What becomes of a node that is reached: \<open>f\<close> is called, and the result is entered, or \<open>up\<close> is called on
  it and it is passed over; a null result ends the traversal. With \<open>break_on_change\<close> a null result of \<open>up\<close> is
  kept.\<close>

datatype reached = Stop | Enter nat | Pass tref

definition reach :: "'v pre_rewriting \<Rightarrow> tref \<Rightarrow> nat \<Rightarrow> 'v store \<Rightarrow> reached \<times> 'v store" where
  "reach rp par n s =
     (case call_cb (rp_al rp) (rp_vh rp) (rp_f rp) n par s of
        (r, s) \<Rightarrow>
          if r = None then (Stop, s)
          else if (if rp_break rp then the r = n else rp_subtree rp (the r) s) then (Enter (the r), s)
          else (case call_cb (rp_al rp) (rp_vh rp) (rp_up rp) (the r) par s of
            (r, s) \<Rightarrow> if r = None \<and> \<not> rp_break rp then (Stop, s) else (Pass r, s)))"

text \<open>The loop. A null child that has been kept is dereferenced when the parent is rebuilt, so it has no
  result.\<close>

partial_function (option) replace_loop ::
  "'v pre_rewriting \<Rightarrow> nat list \<Rightarrow> tref list \<Rightarrow> nat list \<Rightarrow> memo \<times> (nat \<times> nat) list \<Rightarrow> 'v store \<Rightarrow> (tref \<times> memo \<times> 'v store) option" where
  [code]: "replace_loop rp stack nxt upos mc s =
     (if upos = [] then Some (Some (stack ! 0), fst mc, s)
      else
        (let u = last upos; c_node = stack ! u; t = node_at (st_M s) c_node;
             known = consult (rp_unique rp) (st_M s) (rp_slot rp) mc c_node in
         if known \<noteq> None then replace_loop rp (stack[u := the known]) nxt (butlast upos) mc s
         else if n_l t = None then
           (case call_cb (rp_al rp) (rp_vh rp) (rp_up rp) c_node (pre_parent stack (butlast upos)) s of
              (r, s) \<Rightarrow> if r = None then Some (None, fst mc, s)
                else replace_loop rp (stack[u := the r]) nxt (butlast upos) mc s)
         else
           (let c_pos = (length stack - 1) - u; c = (if c_pos = 0 then n_l t else last nxt) in
            if c = None then
              Option.bind (children (st_M s) c_node)
                (\<lambda>ch_range.
                   case (if drop (u + 1) stack = ch_range then (Some c_node, s)
                         else tree_get (rp_al rp) (rp_vh rp) (rp_hooks rp) (n_value t) (drop (u + 1) stack) (n_r t) s) of
                     (res, s) \<Rightarrow>
                       if res = None then Some (None, fst mc, s)
                       else (case call_cb (rp_al rp) (rp_vh rp) (rp_up rp) (the res) (pre_parent stack (butlast upos)) s of
                         (r, s) \<Rightarrow>
                           if r = None then Some (None, fst mc, s)
                           else replace_loop rp
                             ((take (length stack - c_pos) stack)[u := the r]) (take (length nxt - c_pos) nxt) (butlast upos)
                             (if rp_unique rp \<and> rp_cache_ok rp c_node (the r) s
                              then memorize (st_M s) (rp_slot rp) c_node (the r) mc else mc) s))
            else if rp_subtree rp (the c) s then
              (case reach rp (pre_parent stack upos) (the c) s of
                 (e, s) \<Rightarrow>
                   (let nxt = nxt @ [n_r (node_at (st_M s) (the c))] in
                    case e of
                      Stop \<Rightarrow> Some (None, fst mc, s)
                    | Enter r \<Rightarrow> replace_loop rp (stack @ [r]) nxt (upos @ [length (stack @ [r]) - 1]) mc s
                    | Pass r \<Rightarrow> Option.bind r (\<lambda>r. replace_loop rp (stack @ [r]) nxt upos mc s)))
            else replace_loop rp (stack @ [the c]) (nxt @ [n_r (node_at (st_M s) (the c))]) upos mc s)))"

definition pre_traverse :: "'v pre_rewriting \<Rightarrow> tref \<Rightarrow> memo \<Rightarrow> 'v store \<Rightarrow> (tref \<times> memo \<times> 'v store) option" where
  "pre_traverse rp n m s =
     (case n of None \<Rightarrow> Some (None, m, s)
      | Some n \<Rightarrow>
          (case reach rp None n s of
             (e, s) \<Rightarrow>
               (case e of
                  Stop \<Rightarrow> Some (None, m, s)
                | Enter r \<Rightarrow> replace_loop rp [r] [None] [0] (m, []) s
                | Pass r \<Rightarrow> Some (r, m, s))))"

text \<open>The entries, with the collector paused.\<close>

definition pre_apply :: "'v pre_rewriting \<Rightarrow> nat \<Rightarrow> memo \<Rightarrow> 'v store \<Rightarrow> (tref \<times> memo \<times> 'v store) option" where
  "pre_apply rp n m s =
     (if rp_subtree rp n s
      then Option.bind (pre_traverse rp (Some n) m (pause_gc s)) (\<lambda>(r, m, s). Some (r, m, resume_gc s))
      else Some (Some n, m, s))"

section \<open>The top-down map\<close>

text \<open>A node that satisfies \<open>V\<close> is mapped by \<open>F\<close>. With \<open>break_on_change\<close> the result is entered when it is
  the node itself, otherwise when it satisfies \<open>V\<close>. Leaving a subtree, or passing over it, applies \<open>Up\<close>.\<close>

record 'v maps =
  m_break :: bool
  m_f :: "'v \<times> 'v bt \<Rightarrow> 'v \<times> 'v bt"
  m_subtree :: "'v \<times> 'v bt \<Rightarrow> bool"
  m_up :: "'v \<times> 'v bt \<Rightarrow> 'v \<times> 'v bt"

definition goes_in :: "'v maps \<Rightarrow> 'v \<times> 'v bt \<Rightarrow> bool" where
  "goes_in mp x = (if m_break mp then m_f mp x = x else m_subtree mp (m_f mp x))"

text \<open>The recursion stops where \<open>F\<close> makes a subtree grow.\<close>

fun top_down :: "'v maps \<Rightarrow> 'v bt \<Rightarrow> ('v \<times> 'v bt) list" where
  "top_down mp Nil = []"
| "top_down mp (Bt v l r) =
     (if \<not> m_subtree mp (v, l) then (v, l)
      else if goes_in mp (v, l) \<and> size (snd (m_f mp (v, l))) \<le> size l
      then m_up mp (fst (m_f mp (v, l)), chain (top_down mp (snd (m_f mp (v, l)))) Nil)
      else m_up mp (m_f mp (v, l))) # top_down mp r"

definition top_down_in :: "'v maps \<Rightarrow> 'v \<times> 'v bt \<Rightarrow> 'v \<times> 'v bt" where
  "top_down_in mp x = m_up mp (fst x, chain (top_down mp (snd x)) Nil)"

definition top_down_at :: "'v maps \<Rightarrow> 'v \<times> 'v bt \<Rightarrow> 'v \<times> 'v bt" where
  "top_down_at mp x =
     (if \<not> m_subtree mp x then x else if goes_in mp x then top_down_in mp (m_f mp x) else m_up mp (m_f mp x))"

text \<open>What is entered does not grow. With \<open>break_on_change\<close> that is always so.\<close>

definition shrinks :: "'v maps \<Rightarrow> bool" where
  "shrinks mp \<longleftrightarrow> (\<forall>x. m_subtree mp x \<and> goes_in mp x \<longrightarrow> size (snd (m_f mp x)) \<le> size (snd x))"

lemma shrinks_break: "m_break mp \<Longrightarrow> shrinks mp"
  by (simp add: shrinks_def goes_in_def)

lemma top_down_items: "shrinks mp \<Longrightarrow> top_down mp t = map (top_down_at mp) (items t)"
  by (induction mp t rule: top_down.induct) (auto simp: top_down_at_def top_down_in_def shrinks_def)

section \<open>The loop computes the map\<close>

definition pre_ok :: "'v pre_rewriting \<Rightarrow> 'v store \<Rightarrow> 'v maps \<Rightarrow> bool" where
  "pre_ok rp s0 mp \<longleftrightarrow> fresh (rp_al rp) \<and> computes (rp_vh rp) s0 (rp_f rp) (m_f mp) \<and>
     computes (rp_vh rp) s0 (rp_up rp) (m_up mp) \<and> decides (rp_vh rp) s0 (\<lambda>a par. rp_subtree rp a) (m_subtree mp) \<and>
     (\<not> use_hooks (rp_hooks rp) \<or> hook (rp_hooks rp) = None) \<and> m_break mp = rp_break rp \<and> shrinks mp"

lemma pre_okD:
  assumes "pre_ok rp s0 mp"
  shows "fresh (rp_al rp)" "computes (rp_vh rp) s0 (rp_f rp) (m_f mp)" "computes (rp_vh rp) s0 (rp_up rp) (m_up mp)"
    "\<not> use_hooks (rp_hooks rp) \<or> hook (rp_hooks rp) = None" "m_break mp = rp_break rp" "shrinks mp"
    "extends (rp_vh rp) s0 s \<Longrightarrow> Some a \<in> refs (st_M s) \<Longrightarrow> rp_subtree rp a s = m_subtree mp (subtree (st_M s) a)"
  using assms by (auto simp: pre_ok_def decides_def)

lemma same_subtree:
  assumes w: "wf_nodes vh M" and a: "Some a \<in> refs M" and b: "Some b \<in> refs M" and r: "n_r (node_at M a) = n_r (node_at M b)"
  shows "subtree M a = subtree M b \<longleftrightarrow> a = b"
proof
  assume "subtree M a = subtree M b"
  then have "den M (Some a) = den M (Some b)"
    using den_node_at(1)[OF w a] den_node_at(1)[OF w b] subtree_node[OF w a] subtree_node[OF w b] r by simp
  then show "a = b" using den_inj[OF w a b] by simp
qed simp

lemma reach_ok:
  assumes ok: "pre_ok rp s0 mp" and s0: "extends (rp_vh rp) s0 s" and n: "Some n \<in> refs (st_M s)"
  shows "\<exists>r s'. reach rp par n s = (if goes_in mp (subtree (st_M s) n) then Enter r else Pass (Some r), s') \<and>
    result_of (rp_vh rp) s n s' r
      (if goes_in mp (subtree (st_M s) n) then m_f mp (subtree (st_M s) n) else m_up mp (m_f mp (subtree (st_M s) n)))"
proof -
  let ?x = "subtree (st_M s) n"
  note ok' = pre_okD[OF ok]
  obtain r s1 where r: "call_cb (rp_al rp) (rp_vh rp) (rp_f rp) n par s = (Some r, s1)" "grows (rp_vh rp) s s1"
    "Some r \<in> refs (st_M s1)" "subtree (st_M s1) r = m_f mp ?x" "n_r (node_at (st_M s1) r) = n_r (node_at (st_M s) n)"
    using call_cb_ok[OF ok'(1,2) s0 n] by blast
  note s1 = extends_grows[OF s0 r(2)]
  note n1 = grows_refs[OF r(2) n]
  have "r = n \<longleftrightarrow> m_f mp ?x = ?x"
    using same_subtree[OF wf_store_nodes[OF extends_wf[OF s1]] r(3) n1] r(4,5) subtree_grows[OF r(2) n]
      node_grows(3)[OF r(2) extends_wf[OF s0] n] by auto
  then have e: "(if rp_break rp then r = n else rp_subtree rp r s1) = goes_in mp ?x"
    using ok'(5) ok'(7)[OF s1 r(3)] r(4) by (simp add: goes_in_def)
  show ?thesis
  proof (cases "goes_in mp ?x")
    case True
    then have "reach rp par n s = (Enter r, s1)" using r(1) e by (simp add: reach_def)
    then show ?thesis using True r(2-5) by (simp add: result_of_def)
  next
    case False
    obtain q s2 where q: "call_cb (rp_al rp) (rp_vh rp) (rp_up rp) r par s1 = (Some q, s2)" "grows (rp_vh rp) s1 s2"
      "Some q \<in> refs (st_M s2)" "subtree (st_M s2) q = m_up mp (m_f mp ?x)" "n_r (node_at (st_M s2) q) = n_r (node_at (st_M s1) r)"
      using call_cb_ok[OF ok'(1,3) s1 r(3), of par] unfolding r(4) by blast
    then have "reach rp par n s = (Pass (Some q), s2)" using r(1) e False by (auto simp: reach_def split: if_splits)
    then show ?thesis using False q r(5) grown_trans[OF r(2) q(2)] by (simp add: result_of_def)
  qed
qed

lemma replace_known:
  assumes "stack ! u = p" "consult (rp_unique rp) (st_M s) (rp_slot rp) mc p = Some r"
  shows "replace_loop rp stack nxt (upos @ [u]) mc s = replace_loop rp (stack[u := r]) nxt upos mc s"
  by (subst replace_loop.simps) (simp add: Let_def assms)

lemma replace_leaf:
  assumes "stack ! u = p" "consult (rp_unique rp) (st_M s) (rp_slot rp) mc p = None" "n_l (node_at (st_M s) p) = None"
    "call_cb (rp_al rp) (rp_vh rp) (rp_up rp) p (pre_parent stack upos) s = (Some r, s')"
  shows "replace_loop rp stack nxt (upos @ [u]) mc s = replace_loop rp (stack[u := r]) nxt upos mc s'"
  by (subst replace_loop.simps) (simp add: Let_def assms)

lemma replace_child:
  assumes "stack ! u = p" "consult (rp_unique rp) (st_M s) (rp_slot rp) mc p = None" "n_l (node_at (st_M s) p) \<noteq> None"
    "(if length stack - 1 - u = 0 then n_l (node_at (st_M s) p) else last nxt) = Some k"
  shows "\<not> rp_subtree rp k s \<Longrightarrow> replace_loop rp stack nxt (upos @ [u]) mc s =
      replace_loop rp (stack @ [k]) (nxt @ [n_r (node_at (st_M s) k)]) (upos @ [u]) mc s"
    "rp_subtree rp k s \<Longrightarrow> reach rp (pre_parent stack (upos @ [u])) k s = (Enter r, s') \<Longrightarrow>
      replace_loop rp stack nxt (upos @ [u]) mc s =
      replace_loop rp (stack @ [r]) (nxt @ [n_r (node_at (st_M s') k)]) ((upos @ [u]) @ [length (stack @ [r]) - 1]) mc s'"
    "rp_subtree rp k s \<Longrightarrow> reach rp (pre_parent stack (upos @ [u])) k s = (Pass (Some r), s') \<Longrightarrow>
      replace_loop rp stack nxt (upos @ [u]) mc s =
      replace_loop rp (stack @ [r]) (nxt @ [n_r (node_at (st_M s') k)]) (upos @ [u]) mc s'"
  by (subst replace_loop.simps;
    simp only: Let_def assms last_snoc append_is_Nil_conv list.distinct simp_thms if_False if_True option.distinct option.sel
      prod.case reached.case Option.bind.bind_lunit)+

lemma replace_done:
  assumes "stack ! u = p" "consult (rp_unique rp) (st_M s) (rp_slot rp) mc p = None" "n_l (node_at (st_M s) p) \<noteq> None"
    "(if length stack - 1 - u = 0 then n_l (node_at (st_M s) p) else last nxt) = None"
    "children (st_M s) p = Some cs"
    "(if drop (u + 1) stack = cs then (Some p, s)
      else tree_get (rp_al rp) (rp_vh rp) (rp_hooks rp) (n_value (node_at (st_M s) p)) (drop (u + 1) stack) (n_r (node_at (st_M s) p)) s) = (Some q, s1)"
    "call_cb (rp_al rp) (rp_vh rp) (rp_up rp) q (pre_parent stack upos) s1 = (Some r, s2)"
  shows "replace_loop rp stack nxt (upos @ [u]) mc s =
    replace_loop rp ((take (length stack - (length stack - 1 - u)) stack)[u := r]) (take (length nxt - (length stack - 1 - u)) nxt) upos
      (if rp_unique rp \<and> rp_cache_ok rp p r s2 then memorize (st_M s2) (rp_slot rp) p r mc else mc) s2"
  by (subst replace_loop.simps)
    (simp only: Let_def assms last_snoc butlast_snoc append_is_Nil_conv list.distinct simp_thms if_False if_True
      option.distinct option.sel Option.bind.bind_lunit prod.case)

lemma replace_finish:
  assumes ok: "pre_ok rp s0 mp" and s0: "extends (rp_vh rp) s0 s" and p: "Some p \<in> refs (st_M s)" and top: "stack ! u = p"
    and unknown: "consult (rp_unique rp) (st_M s) (rp_slot rp) mc p = None" and l: "n_l (node_at (st_M s) p) \<noteq> None"
    and no: "(if length stack - 1 - u = 0 then n_l (node_at (st_M s) p) else last nxt) = None"
    and drp: "drop (u + 1) stack = ds" and dr: "Some ` set ds \<subseteq> refs (st_M s)"
  shows "\<exists>r s' mc'. replace_loop rp stack nxt (upos @ [u]) mc s =
      replace_loop rp ((take (length stack - (length stack - 1 - u)) stack)[u := r]) (take (length nxt - (length stack - 1 - u)) nxt) upos mc' s' \<and>
    result_of (rp_vh rp) s p s' r (m_up mp (n_value (node_at (st_M s) p), chain (map (subtree (st_M s)) ds) Nil)) \<and>
    (mc' = mc \<or> mc' = memorize (st_M s') (rp_slot rp) p r mc)"
proof -
  let ?vh = "rp_vh rp" and ?n = "node_at (st_M s) p"
  note ok' = pre_okD[OF ok]
  obtain cs q s1 where cs: "children (st_M s) p = Some cs" and
    q: "(if ds = cs then (Some p, s) else tree_get (rp_al rp) ?vh (rp_hooks rp) (n_value ?n) ds (n_r ?n) s) = (Some q, s1)"
    and qr: "result_of ?vh s p s1 q (n_value ?n, chain (map (subtree (st_M s)) ds) Nil)"
    using rebuild_ok[OF ok'(1,4) extends_wf[OF s0] dr p] by blast
  note gq = qr[unfolded result_of_def]
  obtain r s2 where r: "call_cb (rp_al rp) ?vh (rp_up rp) q (pre_parent stack upos) s1 = (Some r, s2)" "grows ?vh s1 s2"
    "Some r \<in> refs (st_M s2)" "subtree (st_M s2) r = m_up mp (subtree (st_M s1) q)" "n_r (node_at (st_M s2) r) = n_r (node_at (st_M s1) q)"
    using call_cb_ok[OF ok'(1,3) extends_grows[OF s0]] gq by blast
  have "result_of ?vh s p s2 r (m_up mp (n_value ?n, chain (map (subtree (st_M s)) ds) Nil))"
    using r(3-5) gq grown_trans[OF _ r(2)] by (simp add: result_of_def)
  moreover have "replace_loop rp stack nxt (upos @ [u]) mc s =
      replace_loop rp ((take (length stack - (length stack - 1 - u)) stack)[u := r]) (take (length nxt - (length stack - 1 - u)) nxt) upos
        (if rp_unique rp \<and> rp_cache_ok rp p r s2 then memorize (st_M s2) (rp_slot rp) p r mc else mc) s2"
    by (rule replace_done[OF top unknown l no cs _ r(1)]) (unfold drp, rule q)
  ultimately show ?thesis by (intro exI conjI) (assumption, assumption, simp)
qed

text \<open>The laws of a memoized walk.\<close>

interpretation pre: memo_walk
  "\<lambda>(rp, s0, mp). replace_loop rp" "\<lambda>(rp, s0, mp). pre_ok rp s0 mp" "\<lambda>(rp, s0, mp). rp_unique rp" "\<lambda>(rp, s0, mp). rp_vh rp"
  "\<lambda>(rp, s0, mp). s0" "\<lambda>(rp, s0, mp). rp_slot rp" "\<lambda>(rp, s0, mp) x. m_subtree mp x \<and> goes_in mp x" "\<lambda>(rp, s0, mp). m_f mp"
  "\<lambda>(rp, s0, mp) x. if m_subtree mp x then m_up mp (m_f mp x) else x" "\<lambda>(rp, s0, mp). m_up mp" "\<lambda>(rp, s0, mp). top_down_in mp"
proof (unfold_locales, goal_cases g_rec inn_size known leaf child finish)
  case (g_rec c x)
  obtain rp s0 mp where c: "c = (rp, s0, mp)" by (cases c)
  have "top_down_at mp = (\<lambda>x. if m_subtree mp x \<and> goes_in mp x then top_down_in mp (m_f mp x)
      else if m_subtree mp x then m_up mp (m_f mp x) else x)" by (auto simp: top_down_at_def)
  moreover have "shrinks mp" using g_rec pre_okD(6)[of rp s0 mp] by (simp add: c)
  ultimately show ?case unfolding c prod.case using top_down_items[of mp] by (simp add: top_down_in_def)
next
  case (inn_size c x)
  obtain rp s0 mp where c: "c = (rp, s0, mp)" by (cases c)
  then have "shrinks mp" using inn_size(1) pre_okD(6)[of rp s0 mp] by simp
  then show ?case using inn_size(2) unfolding c prod.case shrinks_def by blast
next
  case (known c stack u p s mc r nxt upos)
  then show ?case by (cases c) (simp add: replace_known)
next
  case (leaf c s p stack u mc nxt upos)
  obtain rp s0 mp where c: "c = (rp, s0, mp)" by (cases c)
  have ok: "pre_ok rp s0 mp" using leaf(1) by (simp add: c)
  from call_cb_ok[OF pre_okD(1,3)[OF ok], of s p "pre_parent stack upos"] leaf(2,3) obtain r s' where
    r: "call_cb (rp_al rp) (rp_vh rp) (rp_up rp) p (pre_parent stack upos) s = (Some r, s')"
      "result_of (rp_vh rp) s p s' r (m_up mp (subtree (st_M s) p))" by (auto simp: c result_of_def)
  show ?case using replace_leaf[OF leaf(4) _ leaf(6) r(1)] leaf(5) r(2) unfolding c by auto
next
  case (child c s p k stack u mc nxt upos)
  obtain rp s0 mp where c: "c = (rp, s0, mp)" by (cases c)
  have ok: "pre_ok rp s0 mp" and s0: "extends (rp_vh rp) s0 s" and un: "consult (rp_unique rp) (st_M s) (rp_slot rp) mc p = None"
    using child by (simp_all add: c)
  note step = replace_child[OF child(5) un child(7,8), where upos = upos]
  let ?x = "subtree (st_M s) k"
  show ?case
  proof (cases "m_subtree mp ?x")
    case False
    then show ?thesis using step(1) pre_okD(7)[OF ok s0 child(4)] child(4) grown_refl[OF extends_wf[OF s0]]
      unfolding c prod.case by (intro exI[of _ k] exI[of _ s]) simp
  next
    case True
    obtain r s' where r: "reach rp (pre_parent stack (upos @ [u])) k s = (if goes_in mp ?x then Enter r else Pass (Some r), s')"
      "result_of (rp_vh rp) s k s' r (if goes_in mp ?x then m_f mp ?x else m_up mp (m_f mp ?x))"
      using reach_ok[OF ok s0 child(4)] by blast
    have k: "n_r (node_at (st_M s') k) = n_r (node_at (st_M s) k)"
      using node_grows(3)[OF _ extends_wf[OF s0] child(4)] r(2) by (simp add: result_of_def)
    show ?thesis using step(2,3)[where r = r and s' = s'] r True pre_okD(7)[OF ok s0 child(4)] unfolding c prod.case
      by (intro exI[of _ r] exI[of _ s']) (simp add: result_of_def k)
  qed
next
  case (finish c s p stack u mc nxt ds upos)
  then show ?case using replace_finish by (cases c) simp
qed

lemma pre_apply_ok:
  assumes ok: "pre_ok rp s mp" and s: "wf_store (rp_vh rp) s" and n: "Some n \<in> refs (st_M s)"
    and m: "memo_ok (top_down_in mp) s (rp_slot rp) (m, [])"
  shows "\<exists>r m' s'. pre_apply rp n m s = Some (Some r, m', s') \<and> grows (rp_vh rp) s s' \<and> Some r \<in> refs (st_M s') \<and>
    subtree (st_M s') r = top_down_at mp (subtree (st_M s) n) \<and>
    (rp_slot rp = 0 \<longrightarrow> n_r (node_at (st_M s') r) = n_r (node_at (st_M s) n)) \<and> memo_ok (top_down_in mp) s' (rp_slot rp) (m', [])"
proof (cases "m_subtree mp (subtree (st_M s) n)")
  case False
  then have "pre_apply rp n m s = Some (Some n, m, s)"
    using pre_okD(7)[OF ok extends_refl[OF s] n] by (simp add: pre_apply_def)
  then show ?thesis using False n m grown_refl[OF s] by (auto simp: top_down_at_def)
next
  case True
  let ?s = "pause_gc s" and ?x = "subtree (st_M s) n"
  have ps: "extends (rp_vh rp) s ?s" using s by (simp add: extends_def wf_store_def pause_gc_def)
  have ap: "pre_apply rp n m s = Option.bind (pre_traverse rp (Some n) m ?s) (\<lambda>(r, m, s). Some (r, m, resume_gc s))"
    using True pre_okD(7)[OF ok extends_refl[OF s] n] by (simp add: pre_apply_def)
  obtain r s1 where r: "reach rp None n ?s = (if goes_in mp ?x then Enter r else Pass (Some r), s1)"
    "result_of (rp_vh rp) ?s n s1 r (if goes_in mp ?x then m_f mp ?x else m_up mp (m_f mp ?x))"
    using reach_ok[OF ok ps, of n None] n unfolding pause_gc_M by blast
  have g1: "grows (rp_vh rp) ?s s1" "Some r \<in> refs (st_M s1)" using r(2) by (simp_all add: result_of_def)
  have m1: "memo_ok (top_down_in mp) s1 (rp_slot rp) (m, [])"
    by (rule memo_ok_grows[OF g1(1)]) (use m in \<open>simp add: memo_ok_def\<close>)
  show ?thesis
  proof (cases "goes_in mp ?x")
    case False
    then have "pre_apply rp n m s = Some (Some r, m, resume_gc s1)" unfolding ap by (simp add: pre_traverse_def r(1))
    then show ?thesis using False True r(2) m1 grows_pause_gc[OF g1(1)] by (auto simp: top_down_at_def result_of_def memo_ok_def)
  next
    case True': True
    obtain q mc' s2 where q: "replace_loop rp [r] [None] ([] @ [length [r] - 1]) (m, []) s1 = replace_loop rp (butlast [r] @ [q]) [None] [] mc' s2"
      "node_done (rp_unique rp) (rp_vh rp) (rp_slot rp) (top_down_in mp) s1 (m, []) r s2 mc' q"
      "consult (rp_unique rp) (st_M s1) (rp_slot rp) (m, []) r = None \<longrightarrow> n_r (node_at (st_M s2) q) = n_r (node_at (st_M s1) r)"
      using pre.walk_node[of "(rp, s, mp)" s1 r "(m, [])" "[r]" "[None]" "[]"] ok extends_grows[OF ps g1(1)] g1(2) m1 by auto
    have g2: "grows (rp_vh rp) ?s s2" using q(2) grown_trans[OF g1(1)] by (simp add: node_done_def)
    have "pre_apply rp n m s = Some (Some q, fst mc', resume_gc s2)"
      unfolding ap using True' q(1) by (simp add: pre_traverse_def r(1) replace_loop.simps[of rp "[q]"])
    moreover have "memo_ok (top_down_in mp) (resume_gc s2) (rp_slot rp) (fst mc', [])"
      using q(2) unfolding node_done_def memo_ok_def pause_gc_M by simp
    moreover have "rp_slot rp = 0 \<Longrightarrow> consult (rp_unique rp) (st_M s1) (rp_slot rp) (m, []) r = None"
      by (simp add: consult_def recall_def)
    ultimately show ?thesis
      using q(2,3) r(2) True True' grows_pause_gc[OF g2] by (auto simp: node_done_def result_of_def top_down_at_def)
  qed
qed

section \<open>Replacing subtrees\<close>

text \<open>\<open>apply_unique_until_change\<close>.\<close>

definition until_change :: "alloc \<Rightarrow> ('v \<Rightarrow> u64) \<Rightarrow> 'v hooks \<Rightarrow> nat \<Rightarrow> 'v callback \<Rightarrow> (nat \<Rightarrow> 'v store \<Rightarrow> bool) \<Rightarrow>
    'v callback \<Rightarrow> 'v pre_rewriting" where
  "until_change al vh hooks slot f vs up = \<lparr>rp_al = al, rp_vh = vh, rp_hooks = hooks, rp_break = True, rp_slot = slot,
     rp_unique = True, rp_f = f, rp_subtree = vs, rp_up = up, rp_cache_ok = (\<lambda>a r s. True)\<rparr>"

text \<open>\<open>get_cached\<close> of a map of subtrees: the keys are compared as subtrees.\<close>

definition get_cached :: "'v nodes \<Rightarrow> (nat \<times> nat) list \<Rightarrow> nat \<Rightarrow> nat" where
  "get_cached M changes n =
     (case find (\<lambda>(k, w). subtree_equals M (Some k) (Some n)) changes of Some (k, w) \<Rightarrow> w | None \<Rightarrow> n)"

definition replace_if :: "alloc \<Rightarrow> ('v \<Rightarrow> u64) \<Rightarrow> 'v hooks \<Rightarrow> nat \<Rightarrow> (nat \<times> nat) list \<Rightarrow> (nat \<Rightarrow> 'v store \<Rightarrow> bool) \<Rightarrow>
    memo \<Rightarrow> 'v store \<Rightarrow> (tref \<times> memo \<times> 'v store) option" where
  "replace_if al vh hooks n changes query m s =
     pre_apply (until_change al vh hooks 0 (\<lambda>a par s. (Some (get_cached (st_M s) changes a), s)) query (\<lambda>a par s. (Some a, s))) n m s"

definition replace_until :: "alloc \<Rightarrow> ('v \<Rightarrow> u64) \<Rightarrow> 'v hooks \<Rightarrow> nat \<Rightarrow> (nat \<times> nat) list \<Rightarrow> (nat \<Rightarrow> 'v store \<Rightarrow> bool) \<Rightarrow>
    memo \<Rightarrow> 'v store \<Rightarrow> (tref \<times> memo \<times> 'v store) option" where
  "replace_until al vh hooks n changes query m s = replace_if al vh hooks n changes (\<lambda>a s. \<not> query a s) m s"

text \<open>\<open>replace\<close> with a map, and with one subtree.\<close>

definition replace_map :: "alloc \<Rightarrow> ('v \<Rightarrow> u64) \<Rightarrow> 'v hooks \<Rightarrow> nat \<Rightarrow> (nat \<times> nat) list \<Rightarrow>
    memo \<Rightarrow> 'v store \<Rightarrow> (tref \<times> memo \<times> 'v store) option" where
  "replace_map al vh hooks n changes m s = replace_if al vh hooks n changes (\<lambda>a s. True) m s"

definition replace_one :: "alloc \<Rightarrow> ('v \<Rightarrow> u64) \<Rightarrow> 'v hooks \<Rightarrow> nat \<Rightarrow> nat \<Rightarrow> nat \<Rightarrow>
    memo \<Rightarrow> 'v store \<Rightarrow> (tref \<times> memo \<times> 'v store) option" where
  "replace_one al vh hooks n rp_from rp_with m s =
     pre_apply (until_change al vh hooks 0
       (\<lambda>a par s. (Some (if subtree_equals (st_M s) (Some a) (Some rp_from) then rp_with else a), s))
       (\<lambda>a s. True) (\<lambda>a par s. (Some a, s))) n m s"

text \<open>The substitution: subtrees that \<open>V\<close> rejects are left, those that \<open>F\<close> changes are replaced, and what
  replaces them is not looked into.\<close>

fun substitute :: "('v \<times> 'v bt \<Rightarrow> 'v \<times> 'v bt) \<Rightarrow> ('v \<times> 'v bt \<Rightarrow> bool) \<Rightarrow> 'v bt \<Rightarrow> ('v \<times> 'v bt) list" where
  "substitute F V Nil = []"
| "substitute F V (Bt v l r) =
     (if \<not> V (v, l) then (v, l) else if F (v, l) \<noteq> (v, l) then F (v, l) else (v, chain (substitute F V l) Nil)) # substitute F V r"

definition substitution :: "('v \<times> 'v bt \<Rightarrow> 'v \<times> 'v bt) \<Rightarrow> ('v \<times> 'v bt \<Rightarrow> bool) \<Rightarrow> 'v \<times> 'v bt \<Rightarrow> 'v \<times> 'v bt" where
  "substitution F V x = hd (substitute F V (Bt (fst x) (snd x) Nil))"

definition changed :: "'v nodes \<Rightarrow> (nat \<times> nat) list \<Rightarrow> 'v \<times> 'v bt \<Rightarrow> 'v \<times> 'v bt" where
  "changed M changes x = (case find (\<lambda>(k, w). subtree M k = x) changes of Some (k, w) \<Rightarrow> subtree M w | None \<Rightarrow> x)"

lemma substitute_top_down:
  "substitute F V t = top_down \<lparr>m_break = True, m_f = F, m_subtree = V, m_up = (\<lambda>x. x)\<rparr> t"
  by (induction F V t rule: substitute.induct) (auto simp: goes_in_def)

lemma substitution_top_down:
  "substitution F V x = top_down_at \<lparr>m_break = True, m_f = F, m_subtree = V, m_up = (\<lambda>x. x)\<rparr> x"
  by (cases x) (auto simp: substitution_def top_down_at_def top_down_in_def goes_in_def substitute_top_down)

lemma substitute_none: "(\<And>x. x \<in> subtrees t \<Longrightarrow> F x = x) \<Longrightarrow> substitute F V t = items t"
  by (induction t) auto

lemma find_cong: "(\<And>x. x \<in> set xs \<Longrightarrow> P x = Q x) \<Longrightarrow> find P xs = find Q xs"
  by (induction xs) auto

lemma get_cached_changed:
  assumes e: "extends vh s0 s" and a: "Some a \<in> refs (st_M s)" and ch: "\<forall>(k, w) \<in> set changes. Some k \<in> refs (st_M s0) \<and> Some w \<in> refs (st_M s0)"
  shows "Some (get_cached (st_M s) changes a) \<in> refs (st_M s)"
    "subtree (st_M s) (get_cached (st_M s) changes a) = changed (st_M s0) changes (subtree (st_M s) a)"
proof -
  have "find (\<lambda>(k, w). subtree_equals (st_M s) (Some k) (Some a)) changes = find (\<lambda>(k, w). subtree (st_M s0) k = subtree (st_M s) a) changes"
    by (rule find_cong)
      (use ch extends_subtree[OF e] subtree_equals_subtree[OF wf_store_nodes[OF extends_wf[OF e]] _ a] in fastforce)
  moreover have "Some w \<in> refs (st_M s) \<and> subtree (st_M s) w = subtree (st_M s0) w" if "find P changes = Some (k, w)" for P k w
    using find_SomeD[OF that] ch extends_subtree[OF e] by blast
  ultimately show "Some (get_cached (st_M s) changes a) \<in> refs (st_M s)"
    "subtree (st_M s) (get_cached (st_M s) changes a) = changed (st_M s0) changes (subtree (st_M s) a)"
    using a by (auto simp: get_cached_def changed_def split: option.splits)
qed

lemma until_change_simps [simp]:
  "rp_al (until_change al vh hooks slot f vs up) = al" "rp_vh (until_change al vh hooks slot f vs up) = vh"
  "rp_hooks (until_change al vh hooks slot f vs up) = hooks" "rp_break (until_change al vh hooks slot f vs up)"
  "rp_slot (until_change al vh hooks slot f vs up) = slot" "rp_f (until_change al vh hooks slot f vs up) = f"
  "rp_subtree (until_change al vh hooks slot f vs up) = vs" "rp_up (until_change al vh hooks slot f vs up) = up"
  by (simp_all add: until_change_def)

text \<open>A callback that creates nothing.\<close>

lemma computes_pure:
  assumes "\<And>s a. extends vh s0 s \<Longrightarrow> Some a \<in> refs (st_M s) \<Longrightarrow> Some (h s a) \<in> refs (st_M s) \<and> subtree (st_M s) (h s a) = F (subtree (st_M s) a)"
  shows "computes vh s0 (\<lambda>a par s. (Some (h s a), s)) F"
  using assms grown_refl extends_wf unfolding computes_def by blast

lemma until_change_substitutes:
  assumes al: "fresh al" and h: "\<not> use_hooks hooks \<or> hook hooks = None" and s: "wf_store vh s" and n: "Some n \<in> refs (st_M s)"
    and f: "computes vh s f F" and V: "decides vh s (\<lambda>a par. vs a) V"
  shows "\<exists>r m' s'. pre_apply (until_change al vh hooks 0 f vs (\<lambda>a par s. (Some a, s))) n [] s = Some (Some r, m', s') \<and>
    grows vh s s' \<and> Some r \<in> refs (st_M s') \<and> subtree (st_M s') r = substitution F V (subtree (st_M s) n) \<and>
    n_r (node_at (st_M s') r) = n_r (node_at (st_M s) n)"
proof -
  let ?rp = "until_change al vh hooks 0 f vs (\<lambda>a par s. (Some a, s))"
  let ?mp = "\<lparr>m_break = True, m_f = F, m_subtree = V, m_up = (\<lambda>x. x)\<rparr>"
  have ok: "pre_ok ?rp s ?mp"
    using al f V h computes_pure[of vh s "\<lambda>s a. a" "\<lambda>x. x"] by (simp add: pre_ok_def shrinks_break)
  have "memo_ok (top_down_in ?mp) s (rp_slot ?rp) ([], [])" by (simp add: memo_ok_def)
  from pre_apply_ok[OF ok _ n this] s show ?thesis by (auto simp: substitution_top_down)
qed

section \<open>Trimming\<close>

text \<open>\<open>trim_top\<close>: a node loses the children that satisfy the query.\<close>

definition trim_children :: "alloc \<Rightarrow> ('v \<Rightarrow> u64) \<Rightarrow> 'v hooks \<Rightarrow> (nat \<Rightarrow> 'v store \<Rightarrow> bool) \<Rightarrow> 'v callback" where
  "trim_children al vh hooks query a par s =
     (let t = node_at (st_M s) a; cs = the (children (st_M s) a); ch = filter (\<lambda>c. \<not> query c s) cs in
      if length cs = length ch then (Some a, s) else tree_get al vh hooks (n_value t) ch None s)"

definition trim_top :: "alloc \<Rightarrow> ('v \<Rightarrow> u64) \<Rightarrow> 'v hooks \<Rightarrow> nat \<Rightarrow> (nat \<Rightarrow> 'v store \<Rightarrow> bool) \<Rightarrow>
    memo \<Rightarrow> 'v store \<Rightarrow> (tref \<times> memo \<times> 'v store) option" where
  "trim_top al vh hooks n query m s =
     pre_apply (until_change al vh hooks 0 (trim_children al vh hooks query) (\<lambda>a s. True) (\<lambda>a par s. (Some a, s))) n m s"

definition trimmed :: "('v \<times> 'v bt \<Rightarrow> bool) \<Rightarrow> 'v \<times> 'v bt \<Rightarrow> 'v \<times> 'v bt" where
  "trimmed Q x = (fst x, chain (filter (\<lambda>y. \<not> Q y) (items (snd x))) Nil)"

lemma filter_map_cong:
  "(\<And>x. x \<in> set xs \<Longrightarrow> P x = Q (f x)) \<Longrightarrow> map f (filter (\<lambda>x. \<not> P x) xs) = filter (\<lambda>y. \<not> Q y) (map f xs)"
  by (induction xs) auto

lemma trim_children_computes:
  assumes al: "fresh al" and h: "\<not> use_hooks hooks \<or> hook hooks = None" and Q: "decides vh s0 (\<lambda>a par. query a) Q"
  shows "computes vh s0 (trim_children al vh hooks query) (trimmed Q)"
  unfolding computes_def
proof (intro allI impI, elim conjE)
  fix s a par assume e: "extends vh s0 s" and a: "Some a \<in> refs (st_M s)"
  note s = extends_wf[OF e] and w = wf_store_nodes[OF extends_wf[OF e]]
  note sa = subtree_node[OF w a]
  obtain cs where cs: "children (st_M s) a = Some cs" "Some ` set cs \<subseteq> refs (st_M s)"
    "map (subtree (st_M s)) cs = items (snd (subtree (st_M s) a))"
    using children_ok[OF w a] by (auto simp: subtree_def)
  let ?ch = "filter (\<lambda>c. \<not> query c s) cs" and ?v = "n_value (node_at (st_M s) a)"
  have ch: "map (subtree (st_M s)) ?ch = filter (\<lambda>y. \<not> Q y) (items (snd (subtree (st_M s) a)))"
    unfolding cs(3)[symmetric] by (rule filter_map_cong) (use Q e cs(2) in \<open>auto simp: decides_def\<close>)
  show "\<exists>b s'. trim_children al vh hooks query a par s = (Some b, s') \<and> grows vh s s' \<and> Some b \<in> refs (st_M s') \<and>
      subtree (st_M s') b = trimmed Q (subtree (st_M s) a)"
  proof (cases "length cs = length ?ch")
    case True
    then have "?ch = cs" by (metis filter_id_conv length_filter_less less_irrefl)
    then have "chain (filter (\<lambda>y. \<not> Q y) (items (snd (subtree (st_M s) a)))) Nil = snd (subtree (st_M s) a)"
      using ch cs(3) by simp
    then have "trimmed Q (subtree (st_M s) a) = subtree (st_M s) a" by (simp add: trimmed_def)
    then show ?thesis using True cs(1) a grown_refl[OF s] by (simp add: trim_children_def Let_def)
  next
    case False
    obtain b s' where g: "get_raw al vh ?v ?ch None s = (b, s')" by fastforce
    have "\<forall>c \<in> set ?ch. Some c \<in> refs (st_M s)" using cs(2) by auto
    note k = get_raw_ok[OF al s this _ g]
    then have "subtree (st_M s') b = trimmed Q (subtree (st_M s) a)" using ch sa by (simp add: trimmed_def subtree_def)
    moreover have "trim_children al vh hooks query a par s = (Some b, s')"
      using False cs(1) g h by (simp add: trim_children_def Let_def tree_get_def)
    ultimately show ?thesis using k by simp
  qed
qed

section \<open>What the traversal promises\<close>

text \<open>C23: Rewriting a tree top-down is a recursion over the tree: for callbacks that compute functions of the
  subtree they are called with, whose result, where the traversal goes into it, is not larger than the
  subtree it replaces (so that the traversal ends), with no hook in use, in both modes, with and without memoization, and with a memory that holds
  earlier results, the traversal returns, its result is the subtree that the plain recursion gives, the
  right sibling is kept when the memory of the program is not used, no tree that was in the store is
  changed, and the memory is left correct.\<close>
theorem pre_apply_maps:
  assumes "pre_ok rp s mp" "wf_store (rp_vh rp) s" "Some n \<in> refs (st_M s)" "memo_ok (top_down_in mp) s (rp_slot rp) (m, [])"
  shows "\<exists>r m' s'. pre_apply rp n m s = Some (Some r, m', s') \<and> grows (rp_vh rp) s s' \<and> Some r \<in> refs (st_M s') \<and>
    subtree (st_M s') r = top_down_at mp (subtree (st_M s) n) \<and>
    (rp_slot rp = 0 \<longrightarrow> n_r (node_at (st_M s') r) = n_r (node_at (st_M s) n)) \<and> memo_ok (top_down_in mp) s' (rp_slot rp) (m', [])"
  by (rule pre_apply_ok[OF assms])

definition inc_down :: "nat pre_rewriting" where
  "inc_down = \<lparr>rp_al = next_address, rp_vh = nat_hash, rp_hooks = \<lparr>use_hooks = False, hook = None\<rparr>, rp_break = False,
     rp_slot = 0, rp_unique = False, rp_f = map_value next_address nat_hash Suc, rp_subtree = (\<lambda>a s. True),
     rp_up = (\<lambda>a par s. (Some a, s)), rp_cache_ok = (\<lambda>a r s. True)\<rparr>"

theorem pre_apply_maps_witness:
  "\<exists>r m' s'. pre_apply inc_down 6 [] abc_store = Some (Some r, m', s') \<and> subtree (st_M s') r = (1, Bt 2 Nil (Bt 3 Nil Nil))"
proof -
  let ?mp = "\<lparr>m_break = False, m_f = (\<lambda>(v, l). (Suc v, l)), m_subtree = (\<lambda>x. True), m_up = (\<lambda>x. x)\<rparr>"
  have ok: "pre_ok inc_down abc_store ?mp"
    using map_value_computes[OF fresh_next_address] fresh_next_address
      computes_pure[of nat_hash abc_store "\<lambda>s a. a" "\<lambda>x. x"]
    by (auto simp: pre_ok_def inc_down_def decides_def shrinks_def)
  have s: "wf_store (rp_vh inc_down) abc_store" using abc_wf by (simp add: inc_down_def)
  have m: "memo_ok (top_down_in ?mp) abc_store (rp_slot inc_down) ([], [])" by (simp add: memo_ok_def)
  have "subtree (st_M abc_store) 6 = (0, Bt 1 Nil (Bt 2 Nil Nil))" by (simp add: abc_store_def subtree_def)
  then have "top_down_at ?mp (subtree (st_M abc_store) 6) = (1, Bt 2 Nil (Bt 3 Nil Nil))"
    by (simp add: top_down_at_def top_down_in_def goes_in_def)
  then show ?thesis using pre_apply_maps[OF ok s abc_refs(1) m] by auto
qed

text \<open>C22: Replacing is substitution: the result of \<open>replace_if\<close> is the subtree in which, from the top and
  within the subtrees that satisfy the query, each subtree equal to a key is replaced by its value, which is
  not looked into; where no subtree is changed the result is the very node it was called with; every tree
  that was in the store is kept.\<close>
theorem replace_if_substitutes:
  assumes al: "fresh al" and h: "\<not> use_hooks hooks \<or> hook hooks = None" and s: "wf_store vh s" and n: "Some n \<in> refs (st_M s)"
    and ch: "\<forall>(k, w) \<in> set changes. Some k \<in> refs (st_M s) \<and> Some w \<in> refs (st_M s)"
    and q: "decides vh s (\<lambda>a par. query a) Q"
  shows "\<exists>r m' s'. replace_if al vh hooks n changes query [] s = Some (Some r, m', s') \<and> grows vh s s' \<and> Some r \<in> refs (st_M s') \<and>
    subtree (st_M s') r = substitution (changed (st_M s) changes) Q (subtree (st_M s) n) \<and>
    ((\<forall>x \<in> insert (subtree (st_M s) n) (subtrees (snd (subtree (st_M s) n))). changed (st_M s) changes x = x) \<longrightarrow> r = n)"
proof -
  let ?F = "changed (st_M s) changes" and ?x = "subtree (st_M s) n"
  have "computes vh s (\<lambda>a par s. (Some (get_cached (st_M s) changes a), s)) ?F"
    by (rule computes_pure) (use get_cached_changed[OF _ _ ch] in blast)
  from until_change_substitutes[OF al h s n this q] obtain r m' s' where
    r: "replace_if al vh hooks n changes query [] s = Some (Some r, m', s')" "grows vh s s'" "Some r \<in> refs (st_M s')"
      "subtree (st_M s') r = substitution ?F Q ?x" "n_r (node_at (st_M s') r) = n_r (node_at (st_M s) n)"
    unfolding replace_if_def by blast
  have "r = n" if same: "\<forall>x \<in> insert ?x (subtrees (snd ?x)). ?F x = x"
  proof -
    have "substitution ?F Q ?x = ?x" using same substitute_none[of "snd ?x" ?F Q] by (cases ?x) (auto simp: substitution_def)
    then show ?thesis
      using same_subtree[OF wf_store_nodes[OF grows_wf[OF r(2)]] r(3) grows_refs[OF r(2) n]] r(4,5) subtree_grows[OF r(2) n]
        node_grows(3)[OF r(2) s n] by simp
  qed
  then show ?thesis using r by blast
qed

theorem replace_if_substitutes_witness:
  "\<exists>r m' s'. replace_if next_address nat_hash \<lparr>use_hooks = False, hook = None\<rparr> 6 [(1, 3)] (\<lambda>a s. True) [] abc_store = Some (Some r, m', s') \<and>
    subtree (st_M s') r = (0, Bt 3 Nil (Bt 2 Nil Nil))"
proof -
  have "\<forall>(k, w) \<in> set [(1, 3)]. Some k \<in> refs (st_M abc_store) \<and> Some w \<in> refs (st_M abc_store)"
    by (simp add: abc_store_def refs_def)
  moreover have "substitution (changed (st_M abc_store) [(1, 3)]) (\<lambda>x. True) (subtree (st_M abc_store) 6) = (0, Bt 3 Nil (Bt 2 Nil Nil))"
    by (simp add: abc_store_def subtree_def substitution_def changed_def)
  moreover have "decides nat_hash abc_store (\<lambda>a par s. True) (\<lambda>x. True)" by (simp add: decides_def)
  ultimately show ?thesis
    using replace_if_substitutes[OF fresh_next_address _ abc_wf abc_refs(1), of "\<lparr>use_hooks = False, hook = None\<rparr>" "[(1, 3)]"
      "\<lambda>a s. True" "\<lambda>x. True"] by auto
qed

lemma replace_one_substitutes:
  assumes al: "fresh al" and h: "\<not> use_hooks hooks \<or> hook hooks = None" and s: "wf_store vh s" and n: "Some n \<in> refs (st_M s)"
    and a: "Some a \<in> refs (st_M s)" and b: "Some b \<in> refs (st_M s)"
  shows "\<exists>r m' s'. replace_one al vh hooks n a b [] s = Some (Some r, m', s') \<and> grows vh s s' \<and> Some r \<in> refs (st_M s') \<and>
    subtree (st_M s') r = substitution (\<lambda>x. if x = subtree (st_M s) a then subtree (st_M s) b else x) (\<lambda>x. True) (subtree (st_M s) n)"
proof -
  let ?F = "\<lambda>x. if x = subtree (st_M s) a then subtree (st_M s) b else x"
  have "computes vh s (\<lambda>c par s. (Some (if subtree_equals (st_M s) (Some c) (Some a) then b else c), s)) ?F"
  proof (rule computes_pure)
    fix s' c assume e: "extends vh s s'" and c: "Some c \<in> refs (st_M s')"
    note k = extends_subtree[OF e a] extends_subtree[OF e b]
    show "Some (if subtree_equals (st_M s') (Some c) (Some a) then b else c) \<in> refs (st_M s') \<and>
        subtree (st_M s') (if subtree_equals (st_M s') (Some c) (Some a) then b else c) = ?F (subtree (st_M s') c)"
      using subtree_equals_subtree[OF wf_store_nodes[OF extends_wf[OF e]] c, of a] k c by auto
  qed
  from until_change_substitutes[OF al h s n this, where vs = "\<lambda>a s. True" and V = "\<lambda>x. True"] show ?thesis
    unfolding replace_one_def by (auto simp: decides_def)
qed

text \<open>C24: Trimming stops where it has trimmed: \<open>trim_top\<close> takes the children that satisfy the query away
  from a node, and goes into a node only when none of its children was taken away. So a subtree that
  satisfies the query survives below the siblings of one that is deleted.\<close>
theorem trim_top_stops_at_change:
  assumes al: "fresh al" and h: "\<not> use_hooks hooks \<or> hook hooks = None" and s: "wf_store vh s" and n: "Some n \<in> refs (st_M s)"
    and q: "decides vh s (\<lambda>a par. query a) Q"
  shows "\<exists>r m' s'. trim_top al vh hooks n query [] s = Some (Some r, m', s') \<and> grows vh s s' \<and> Some r \<in> refs (st_M s') \<and>
    subtree (st_M s') r = substitution (trimmed Q) (\<lambda>x. True) (subtree (st_M s) n)"
proof -
  from until_change_substitutes[OF al h s n trim_children_computes[OF al h q], where vs = "\<lambda>a s. True" and V = "\<lambda>x. True"]
  show ?thesis unfolding trim_top_def by (auto simp: decides_def)
qed

definition nested_store :: "nat store" where
  "nested_store = \<lparr>st_M = [
      (4, \<lparr>n_value = 0, n_l = Some 3, n_r = None,
        n_hash = hash_combines 0 [0, hash_combines 0 [1, 0, hash_combines 0 [2, hash_combines 0 [1, 0, 0], 0]], 0]\<rparr>),
      (3, \<lparr>n_value = 1, n_l = None, n_r = Some 2, n_hash = hash_combines 0 [1, 0, hash_combines 0 [2, hash_combines 0 [1, 0, 0], 0]]\<rparr>),
      (2, \<lparr>n_value = 2, n_l = Some 1, n_r = None, n_hash = hash_combines 0 [2, hash_combines 0 [1, 0, 0], 0]\<rparr>),
      (1, \<lparr>n_value = 1, n_l = None, n_r = None, n_hash = hash_combines 0 [1, 0, 0]\<rparr>)],
    st_handles = {4}, st_pause = 0\<rparr>"

theorem trim_top_stops_at_change_witness:
  "\<exists>r m' s'. trim_top next_address nat_hash \<lparr>use_hooks = False, hook = None\<rparr> 4 (\<lambda>a s. n_value (node_at (st_M s) a) = 1) [] nested_store =
      Some (Some r, m', s') \<and>
    subtree (st_M nested_store) 4 = (0, Bt 1 Nil (Bt 2 (Bt 1 Nil Nil) Nil)) \<and> subtree (st_M s') r = (0, Bt 2 (Bt 1 Nil Nil) Nil)"
proof -
  have s: "wf_store nat_hash nested_store"
    by (simp add: wf_store_def nested_store_def refs_def same_node_def hashit_def ref_hash_def node_at_def)
  have n: "Some 4 \<in> refs (st_M nested_store)" by (simp add: nested_store_def refs_def)
  have q: "decides nat_hash nested_store (\<lambda>a par s. n_value (node_at (st_M s) a) = 1) (\<lambda>x. fst x = 1)"
    by (auto simp: decides_def subtree_node dest!: extends_wf wf_store_nodes)
  have t: "subtree (st_M nested_store) 4 = (0, Bt 1 Nil (Bt 2 (Bt 1 Nil Nil) Nil))" by (simp add: nested_store_def subtree_def)
  then have "substitution (trimmed (\<lambda>x. fst x = 1)) (\<lambda>x. True) (subtree (st_M nested_store) 4) = (0, Bt 2 (Bt 1 Nil Nil) Nil)"
    by (simp add: substitution_def trimmed_def)
  then show ?thesis using trim_top_stops_at_change[OF fresh_next_address _ s n q, of "\<lparr>use_hooks = False, hook = None\<rparr>"] t by auto
qed

end
