(* ===== verification/UnionFind.thy ===== *)
theory UnionFind
  imports LcrsTree
begin

text \<open>
  The union-find over the nodes of the store, \<open>tref_union_find\<close> of \<open>src/src/utility/tree.h\<close>: path halving
  and union by rank. The maps are keyed by subtrees, but the nodes they hold are compared as
  references, so a node is found under a node with the same subtree and another right sibling. The store
  does not change.
\<close>

section \<open>The maps\<close>

text \<open>\<open>subtree_unordered_map\<close>: the key that is there is kept when a value is assigned.\<close>

type_synonym node_map = "(nat \<times> nat) list"

definition mget :: "'v nodes \<Rightarrow> node_map \<Rightarrow> nat \<Rightarrow> nat option" where
  "mget M m x = map_option snd (find (\<lambda>(k, v). subtree_equals M (Some k) (Some x)) m)"

definition mput :: "'v nodes \<Rightarrow> node_map \<Rightarrow> nat \<Rightarrow> nat \<Rightarrow> node_map" where
  "mput M m x v =
     (if mget M m x = None then m @ [(x, v)]
      else map (\<lambda>(k, w). (k, if subtree_equals M (Some k) (Some x) then v else w)) m)"

record union_find =
  uf_parent :: node_map
  uf_rank :: node_map

definition empty_uf :: union_find where
  "empty_uf = \<lparr>uf_parent = [], uf_rank = []\<rparr>"

section \<open>The operations\<close>

partial_function (option) root_of :: "'v nodes \<Rightarrow> node_map \<Rightarrow> nat \<Rightarrow> (nat \<times> node_map) option" where
  [code]: "root_of M m x =
     (case mget M m x of
        None \<Rightarrow> Some (x, m)
      | Some p \<Rightarrow>
          if p = x then Some (x, m)
          else
            (let gp = mget M m p;
                 m = (if gp \<noteq> None \<and> gp \<noteq> Some p then mput M m x (the gp) else m)
             in root_of M m (the (mget M m x))))"

definition uf_find :: "'v nodes \<Rightarrow> nat \<Rightarrow> union_find \<Rightarrow> (nat \<times> union_find) option" where
  "uf_find M x uf =
     (if mget M (uf_parent uf) x = None
      then Some (x, \<lparr>uf_parent = mput M (uf_parent uf) x x,
        uf_rank = (if mget M (uf_rank uf) x = None then mput M (uf_rank uf) x 0 else uf_rank uf)\<rparr>)
      else map_option (\<lambda>(r, m). (r, uf\<lparr>uf_parent := m\<rparr>)) (root_of M (uf_parent uf) x))"

definition rank_of :: "'v nodes \<Rightarrow> union_find \<Rightarrow> nat \<Rightarrow> nat" where
  "rank_of M uf x = (case mget M (uf_rank uf) x of Some r \<Rightarrow> r | None \<Rightarrow> 0)"

definition unite :: "'v nodes \<Rightarrow> nat \<Rightarrow> nat \<Rightarrow> union_find \<Rightarrow> (nat \<times> union_find) option" where
  "unite M x y uf =
     Option.bind (uf_find M x uf) (\<lambda>(x, uf).
       Option.bind (uf_find M y uf) (\<lambda>(y, uf).
         if x = y then Some (x, uf)
         else
           (let rx = rank_of M uf x; ry = rank_of M uf y; (x, y) = (if rx < ry then (y, x) else (x, y));
                uf = uf\<lparr>uf_parent := mput M (uf_parent uf) y x\<rparr>
            in Some (x, if rx = ry then uf\<lparr>uf_rank := mput M (uf_rank uf) x (rank_of M uf x + 1)\<rparr> else uf))))"

definition same :: "'v nodes \<Rightarrow> nat \<Rightarrow> nat \<Rightarrow> union_find \<Rightarrow> (bool \<times> union_find) option" where
  "same M x y uf =
     Option.bind (uf_find M x uf) (\<lambda>(rx, uf). Option.bind (uf_find M y uf) (\<lambda>(ry, uf). Some (rx = ry, uf)))"

text \<open>\<open>each_class\<close>: the representatives with their members; it follows the parents without changing them.\<close>

partial_function (option) follow :: "'v nodes \<Rightarrow> node_map \<Rightarrow> nat \<Rightarrow> nat option" where
  [code]: "follow M m r =
     (case mget M m r of None \<Rightarrow> Some r | Some p \<Rightarrow> if p = r then Some r else follow M m p)"

fun add_member :: "nat \<Rightarrow> nat \<Rightarrow> (nat \<times> nat list) list \<Rightarrow> (nat \<times> nat list) list" where
  "add_member r k [] = [(r, [k])]"
| "add_member r k ((q, ks) # cs) = (if q = r then (q, ks @ [k]) # cs else (q, ks) # add_member r k cs)"

fun classes_of :: "'v nodes \<Rightarrow> node_map \<Rightarrow> node_map \<Rightarrow> (nat \<times> nat list) list \<Rightarrow> (nat \<times> nat list) list option" where
  "classes_of M m [] cs = Some cs"
| "classes_of M m ((k, v) # es) cs = Option.bind (follow M m k) (\<lambda>r. classes_of M m es (add_member r k cs))"

definition each_class :: "'v nodes \<Rightarrow> union_find \<Rightarrow> (nat \<times> nat list) list option" where
  "each_class M uf = classes_of M (uf_parent uf) (uf_parent uf) []"

section \<open>Parents as a function\<close>

text \<open>The fixed point that a function leads to.\<close>

definition rooted :: "(nat \<Rightarrow> nat) \<Rightarrow> nat \<Rightarrow> nat \<Rightarrow> bool" where
  "rooted f a r \<longleftrightarrow> f r = r \<and> (\<exists>n. (f ^^ n) a = r)"

lemma rooted_fix: "f a = a \<Longrightarrow> rooted f a r \<longleftrightarrow> r = a"
proof -
  assume "f a = a"
  then have "(f ^^ n) a = a" for n by (induction n) simp_all
  then show ?thesis using \<open>f a = a\<close> by (auto simp: rooted_def)
qed

lemma rooted_step: "f a \<noteq> a \<Longrightarrow> rooted f a r \<longleftrightarrow> rooted f (f a) r"
proof
  assume ne: "f a \<noteq> a" and r: "rooted f a r"
  then obtain n where n: "(f ^^ n) a = r" "f r = r" by (auto simp: rooted_def)
  then obtain k where "n = Suc k" using ne by (cases n) auto
  then show "rooted f (f a) r" using n by (auto simp: rooted_def funpow_swap1)
next
  assume "rooted f (f a) r"
  then obtain n where "(f ^^ n) (f a) = r" "f r = r" by (auto simp: rooted_def)
  then have "(f ^^ Suc n) a = r" by (simp add: funpow_swap1)
  then show "rooted f a r" using \<open>f r = r\<close> unfolding rooted_def by blast
qed

text \<open>A function on a finite set along which a rank grows has one root for each element.\<close>

definition ranked :: "nat set \<Rightarrow> (nat \<Rightarrow> nat) \<Rightarrow> (nat \<Rightarrow> nat) \<Rightarrow> bool" where
  "ranked A rk f \<longleftrightarrow> finite A \<and> (\<forall>a \<in> A. f a \<in> A \<and> (f a \<noteq> a \<longrightarrow> rk a < rk (f a)))"

lemma ranked_induct [consumes 2, case_names step]:
  assumes r: "ranked A rk f" and a: "a \<in> A"
    and step: "\<And>a. a \<in> A \<Longrightarrow> (f a \<noteq> a \<Longrightarrow> P (f a)) \<Longrightarrow> (f a \<noteq> a \<Longrightarrow> f (f a) \<noteq> f a \<Longrightarrow> P (f (f a))) \<Longrightarrow> P a"
  shows "P a"
  using a
proof (induction "card {b \<in> A. rk a < rk b}" arbitrary: a rule: less_induct)
  case less
  have up: "card {c \<in> A. rk (f b) < rk c} < card {c \<in> A. rk b < rk c}" if "b \<in> A" "f b \<noteq> b" for b
    using r that unfolding ranked_def by (intro psubset_card_mono) (auto intro: less_trans)
  have fa: "f a \<in> A" using r less.prems by (simp add: ranked_def)
  show ?case
  proof (rule step[OF less.prems])
    assume "f a \<noteq> a"
    then show "P (f a)" using less.hyps up less.prems fa by blast
  next
    assume n: "f a \<noteq> a" "f (f a) \<noteq> f a"
    have "f (f a) \<in> A" using r fa by (simp add: ranked_def)
    then show "P (f (f a))" using less.hyps up[OF less.prems n(1)] up[OF fa n(2)] by (meson less_trans)
  qed
qed

lemma ranked_root: "ranked A rk f \<Longrightarrow> a \<in> A \<Longrightarrow> \<exists>!r. rooted f a r"
proof (induction a rule: ranked_induct)
  case (step a)
  then show ?case using rooted_fix[of f a] rooted_step[of f a] by (cases "f a = a") auto
qed

lemma rooted_in: "ranked A rk f \<Longrightarrow> a \<in> A \<Longrightarrow> rooted f a r \<Longrightarrow> r \<in> A"
proof (induction a rule: ranked_induct)
  case (step a)
  then show ?case using rooted_fix[of f a] rooted_step[of f a] by (cases "f a = a") auto
qed

lemma rooted_unique: "ranked A rk f \<Longrightarrow> a \<in> A \<Longrightarrow> rooted f a r \<Longrightarrow> rooted f a q \<Longrightarrow> r = q"
  using ranked_root by blast

text \<open>Halving a path keeps the roots.\<close>

lemma halve_ranked:
  assumes r: "ranked A rk f" and k: "k \<in> A" "f k \<noteq> k" "f (f k) \<noteq> f k"
  shows "ranked A rk (f(k := f (f k)))"
  using assms unfolding ranked_def by (auto intro: less_trans)

lemma halve_rooted:
  assumes r: "ranked A rk f" and k: "k \<in> A" "f k \<noteq> k" "f (f k) \<noteq> f k" and a: "a \<in> A"
  shows "rooted (f(k := f (f k))) a q \<longleftrightarrow> rooted f a q"
proof -
  define h where "h = f(k := f (f k))"
  have h: "h k = f (f k)" "\<And>b. b \<noteq> k \<Longrightarrow> h b = f b" by (simp_all add: h_def)
  have "rk k < rk (f k)" "rk (f k) < rk (f (f k))" using r k by (auto simp: ranked_def)
  then have fk: "f (f k) \<noteq> k" by auto
  have "rooted f a q \<longrightarrow> rooted h a q" for q
    using r a
  proof (induction a rule: ranked_induct)
    case (step a)
    consider "f a = a" | "f a \<noteq> a" "a = k" | "f a \<noteq> a" "a \<noteq> k" by blast
    then show ?case
    proof cases
      case 1
      then have "h a = a" using k(2) h(2) by metis
      then show ?thesis using 1 by (simp add: rooted_fix)
    next
      case 2
      then have "rooted f a q \<longleftrightarrow> rooted f (f (f a)) q" using rooted_step[of f a] rooted_step[of f "f a"] k by simp
      moreover have "rooted h a q \<longleftrightarrow> rooted h (f (f a)) q" using rooted_step[of h a] h(1) 2 fk by simp
      ultimately show ?thesis using step(3) 2 k by simp
    next
      case 3
      then show ?thesis using step(2) rooted_step[of f a] rooted_step[of h a] h(2) by simp
    qed
  qed
  then show ?thesis using ranked_root[OF r a] ranked_root[OF halve_ranked[OF r k] a] unfolding h_def by blast
qed

text \<open>Linking a root below another one.\<close>

lemma link_rooted:
  assumes r: "ranked A rk f" and x: "x \<in> A" "f x = x" and y: "y \<in> A" "f y = y" "x \<noteq> y" and a: "a \<in> A"
    and q: "rooted f a q"
  shows "rooted (f(y := x)) a (if q = y then x else q)"
proof -
  define h where "h = f(y := x)"
  have h: "h y = x" "\<And>b. b \<noteq> y \<Longrightarrow> h b = f b" by (simp_all add: h_def)
  have hx: "h x = x" using h(2) x(2) y(3) by simp
  have "rooted f a q \<longrightarrow> rooted h a (if q = y then x else q)" for q
    using r a
  proof (induction a rule: ranked_induct)
    case (step a)
    consider "f a = a" "a = y" | "f a = a" "a \<noteq> y" | "f a \<noteq> a" by blast
    then show ?case
    proof cases
      case 1
      then have "rooted h a x" using rooted_step[of h a] rooted_fix[of h x] h(1) hx y(3) by simp
      then show ?thesis using 1 rooted_fix[of f a] by simp
    next
      case 2
      then show ?thesis using rooted_fix[of f a] rooted_fix[of h a] h(2) by simp
    next
      case 3
      then have "a \<noteq> y" using y(2) by auto
      then show ?thesis using 3 step(2) rooted_step[of f a] rooted_step[of h a] h(2) by simp
    qed
  qed
  then show ?thesis using q unfolding h_def by blast
qed

section \<open>The maps as functions\<close>

definition node_map_ok :: "'v nodes \<Rightarrow> node_map \<Rightarrow> bool" where
  "node_map_ok M m \<longleftrightarrow> Some ` fst ` set m \<subseteq> refs M \<and> distinct (map (subtree M) (map fst m))"

definition fn :: "node_map \<Rightarrow> nat \<Rightarrow> nat" where
  "fn m k = (case map_of m k of Some v \<Rightarrow> v | None \<Rightarrow> k)"

lemma node_map_ok_keys: "map fst m' = map fst m \<Longrightarrow> node_map_ok M m' \<longleftrightarrow> node_map_ok M m"
  unfolding node_map_ok_def set_map[symmetric] by simp

lemma fn_in: "k \<in> fst ` set m \<Longrightarrow> (k, fn m k) \<in> set m"
  unfolding fn_def by (auto split: option.splits dest: map_of_SomeD simp: map_of_eq_None_iff)

lemma key_unique:
  assumes "node_map_ok M m" "k \<in> fst ` set m" "j \<in> fst ` set m" "subtree M k = subtree M j"
  shows "k = j"
proof -
  have "inj_on (subtree M) (set (map fst m))" using assms(1) unfolding node_map_ok_def distinct_map by blast
  then show ?thesis using assms(2-4) unfolding inj_on_def set_map by blast
qed

lemma mget_key:
  assumes w: "wf_nodes vh M" and m: "node_map_ok M m" and x: "Some x \<in> refs M"
    and k: "k \<in> fst ` set m" "subtree M k = subtree M x"
  shows "mget M m x = Some (fn m k)"
proof -
  have "mget M m x = map_of m k"
    using m k
  proof (induction m)
    case (Cons e m)
    obtain j v where e: "e = (j, v)" by fastforce
    have "Some j \<in> refs M" using Cons.prems(1) e by (simp add: node_map_ok_def)
    note eq = subtree_equals_subtree[OF w this x]
    have ok: "node_map_ok M m" using Cons.prems(1) e by (auto simp: node_map_ok_def)
    show ?case
    proof (cases "j = k")
      case True
      then show ?thesis using eq Cons.prems(3) e by (simp add: mget_def)
    next
      case False
      then have "subtree M j \<noteq> subtree M x" using key_unique[OF Cons.prems(1), of j k] Cons.prems(2,3) e by auto
      then show ?thesis using eq False Cons.IH[OF ok] Cons.prems(2,3) e by (simp add: mget_def)
    qed
  qed simp
  moreover have "map_of m k \<noteq> None" using k(1) by (simp add: map_of_eq_None_iff)
  ultimately show ?thesis by (auto simp: fn_def)
qed

lemma mget_None:
  assumes w: "wf_nodes vh M" and m: "node_map_ok M m" and x: "Some x \<in> refs M"
  shows "mget M m x = None \<longleftrightarrow> subtree M x \<notin> subtree M ` fst ` set m"
proof
  assume "mget M m x = None"
  then show "subtree M x \<notin> subtree M ` fst ` set m" using mget_key[OF assms] by fastforce
next
  assume n: "subtree M x \<notin> subtree M ` fst ` set m"
  have "\<not> subtree_equals M (Some k) (Some x)" if "(k, v) \<in> set m" for k v
  proof -
    have k: "k \<in> fst ` set m" using that by force
    then have "Some k \<in> refs M" using m unfolding node_map_ok_def by blast
    then show ?thesis using subtree_equals_subtree[OF w _ x, of k] n k by (metis imageI)
  qed
  then show "mget M m x = None" unfolding mget_def by (auto simp: find_None_iff)
qed

lemma mput_key:
  assumes w: "wf_nodes vh M" and m: "node_map_ok M m" and x: "Some x \<in> refs M"
    and k: "k \<in> fst ` set m" "subtree M k = subtree M x"
  shows "map fst (mput M m x v) = map fst m" "fn (mput M m x v) = (fn m)(k := v)"
proof -
  have "mget M m x \<noteq> None" using mget_key[OF assms] by simp
  then have p: "mput M m x v = map (\<lambda>(j, u). (j, if subtree_equals M (Some j) (Some x) then v else u)) m"
    by (simp add: mput_def)
  then show f: "map fst (mput M m x v) = map fst m" by (induction m) (auto simp: mput_def split: if_splits)
  have eq: "subtree_equals M (Some j) (Some x) \<longleftrightarrow> j = k" if "j \<in> fst ` set m" for j
    using subtree_equals_subtree[OF w _ x, of j] key_unique[OF m that k(1)] k(2) m that by (auto simp: node_map_ok_def)
  have "mput M m x v = map (\<lambda>(j, u). (j, if j = k then v else u)) m"
    unfolding p
  proof (rule map_cong[OF refl])
    fix e assume "e \<in> set m"
    then have "fst e \<in> fst ` set m" by blast
    from eq[OF this] show "(\<lambda>(j, u). (j, if subtree_equals M (Some j) (Some x) then v else u)) e = (\<lambda>(j, u). (j, if j = k then v else u)) e"
      by (simp add: split_beta)
  qed
  moreover have "map_of (map (\<lambda>(j, u). (j, if j = k then v else u)) m) a =
      (if a = k \<and> map_of m a \<noteq> None then Some v else map_of m a)" for a
    by (induction m) auto
  moreover have "map_of m k \<noteq> None" using k(1) by (simp add: map_of_eq_None_iff)
  ultimately show "fn (mput M m x v) = (fn m)(k := v)" by (auto simp: fn_def fun_eq_iff)
qed

lemma mput_new:
  assumes w: "wf_nodes vh M" and m: "node_map_ok M m" and x: "Some x \<in> refs M" and n: "mget M m x = None"
  shows "map fst (mput M m x v) = map fst m @ [x]" "fn (mput M m x v) = (fn m)(x := v)" "x \<notin> fst ` set m"
    "node_map_ok M (mput M m x v)"
proof -
  have s: "subtree M x \<notin> subtree M ` fst ` set m" using mget_None[OF w m x] n by blast
  have p: "mput M m x v = m @ [(x, v)]" using n by (simp add: mput_def)
  show nx: "x \<notin> fst ` set m" using s by auto
  show "map fst (mput M m x v) = map fst m @ [x]" by (simp add: p)
  show "node_map_ok M (mput M m x v)" using m x s by (auto simp: p node_map_ok_def)
  have "map_of m x = None" using nx by (simp add: map_of_eq_None_iff)
  then show "fn (mput M m x v) = (fn m)(x := v)" by (auto simp: p fn_def fun_eq_iff map_add_def split: option.splits)
qed

section \<open>Finding\<close>

lemma root_of_ok:
  assumes w: "wf_nodes vh M"
  shows "node_map_ok M m \<Longrightarrow> ranked (fst ` set m) rk (fn m) \<Longrightarrow> Some x \<in> refs M \<Longrightarrow> k \<in> fst ` set m \<Longrightarrow>
    subtree M k = subtree M x \<Longrightarrow>
    \<exists>r m'. root_of M m x = Some (r, m') \<and> map fst m' = map fst m \<and> ranked (fst ` set m) rk (fn m') \<and> rooted (fn m) k r \<and>
      (\<forall>a \<in> fst ` set m. \<forall>q. rooted (fn m') a q \<longleftrightarrow> rooted (fn m) a q)"
proof (induction "card {b \<in> fst ` set m. rk k < rk b}" arbitrary: m x k rule: less_induct)
  case less
  note m = less.prems(1) and r = less.prems(2) and x = less.prems(3) and k = less.prems(4,5)
  have key: "a \<in> fst ` set m \<Longrightarrow> Some a \<in> refs M" for a using m by (auto simp: node_map_ok_def)
  let ?f = "fn m" and ?A = "fst ` set m"
  note g = mget_key[OF w m x k]
  have fk: "?f k \<in> ?A" using r k(1) unfolding ranked_def by blast
  have ffk: "?f (?f k) \<in> ?A" using r fk unfolding ranked_def by blast
  note gp = mget_key[OF w m key[OF fk] fk refl]
  consider "?f k = x" | "?f k \<noteq> x" "?f (?f k) = ?f k" | "?f k \<noteq> x" "?f (?f k) \<noteq> ?f k" by blast
  then show ?case
  proof cases
    case 1
    then have "x = k" using key_unique[OF m _ k(1)] fk k(2) by auto
    then have "?f k = k" "root_of M m x = Some (k, m)" using g 1 by (simp, subst root_of.simps, simp)
    then show ?thesis using r by (simp add: rooted_fix)
  next
    case 2
    have "root_of M m (?f k) = Some (?f k, m)" using gp 2 by (subst root_of.simps) simp
    then have "root_of M m x = Some (?f k, m)" using g gp 2 by (subst root_of.simps) simp
    moreover have "rooted ?f k (?f k)" using rooted_step[of ?f k] rooted_fix[of ?f "?f k"] 2 by (cases "?f k = k") simp_all
    ultimately show ?thesis using r by simp
  next
    case 3
    then have ne: "?f k \<noteq> k" by auto
    let ?m = "mput M m x (?f (?f k))"
    note p = mput_key[OF w m x k, of "?f (?f k)"]
    have A: "fst ` set ?m = ?A" using arg_cong[OF p(1), of set] by simp
    have ok: "node_map_ok M ?m" using m node_map_ok_keys[OF p(1)] by blast
    have r': "ranked ?A rk (fn ?m)" unfolding p(2) by (rule halve_ranked[OF r k(1) ne 3(2)])
    have "mget M ?m x = Some (?f (?f k))" using mget_key[OF w ok x _ k(2)] k(1) by (simp add: A p(2))
    then have step: "root_of M m x = root_of M ?m (?f (?f k))" using g gp 3 by (subst root_of.simps) simp
    have "rk k < rk (?f k)" "rk (?f k) < rk (?f (?f k))" using r k(1) fk ne 3(2) unfolding ranked_def by blast+
    then have "card {b \<in> ?A. rk (?f (?f k)) < rk b} < card {b \<in> ?A. rk k < rk b}"
      using fk ffk by (intro psubset_card_mono) (auto intro: less_trans)
    from less.hyps[of ?m "?f (?f k)", unfolded A, OF this ok r' key[OF ffk] ffk refl]
    obtain q m' where q: "root_of M ?m (?f (?f k)) = Some (q, m')" "map fst m' = map fst ?m" "ranked ?A rk (fn m')"
      "rooted (fn ?m) (?f (?f k)) q" "\<forall>a \<in> ?A. \<forall>q. rooted (fn m') a q \<longleftrightarrow> rooted (fn ?m) a q" by blast
    have same: "rooted (fn ?m) a q \<longleftrightarrow> rooted ?f a q" if "a \<in> ?A" for a q
      unfolding p(2) by (rule halve_rooted[OF r k(1) ne 3(2) that])
    have "rooted ?f k q" using q(4) same[OF ffk] rooted_step[of ?f k] rooted_step[of ?f "?f k"] ne 3(2) by simp
    then show ?thesis using q step p(1) same by simp
  qed
qed

section \<open>The invariant\<close>

abbreviation uf_keys :: "union_find \<Rightarrow> nat set" where
  "uf_keys uf \<equiv> fst ` set (uf_parent uf)"

definition uf_ok :: "'v nodes \<Rightarrow> union_find \<Rightarrow> bool" where
  "uf_ok M uf \<longleftrightarrow> node_map_ok M (uf_parent uf) \<and> map fst (uf_rank uf) = map fst (uf_parent uf) \<and>
     ranked (uf_keys uf) (fn (uf_rank uf)) (fn (uf_parent uf))"

text \<open>Subtrees in one class: equal, or of nodes with the same representative.\<close>

definition joined :: "'v nodes \<Rightarrow> union_find \<Rightarrow> 'v \<times> 'v bt \<Rightarrow> 'v \<times> 'v bt \<Rightarrow> bool" where
  "joined M uf X Y \<longleftrightarrow> X = Y \<or> (\<exists>a \<in> uf_keys uf. \<exists>b \<in> uf_keys uf. \<exists>q.
     subtree M a = X \<and> subtree M b = Y \<and> rooted (fn (uf_parent uf)) a q \<and> rooted (fn (uf_parent uf)) b q)"

lemma joined_sym: "joined M uf X Y \<Longrightarrow> joined M uf Y X"
  unfolding joined_def by blast

lemma joined_trans:
  assumes ok: "uf_ok M uf" and 1: "joined M uf X Y" and 2: "joined M uf Y Z"
  shows "joined M uf X Z"
proof (cases "X = Y \<or> Y = Z")
  case False
  then obtain a b q c d p where a: "a \<in> uf_keys uf" "b \<in> uf_keys uf" "subtree M a = X" "subtree M b = Y"
      "rooted (fn (uf_parent uf)) a q" "rooted (fn (uf_parent uf)) b q"
    and c: "c \<in> uf_keys uf" "d \<in> uf_keys uf" "subtree M c = Y" "subtree M d = Z"
      "rooted (fn (uf_parent uf)) c p" "rooted (fn (uf_parent uf)) d p"
    using 1 2 unfolding joined_def by blast
  have "b = c" using key_unique[of M "uf_parent uf" b c] ok a c by (simp add: uf_ok_def)
  then have "p = q" using rooted_unique[of "uf_keys uf" "fn (uf_rank uf)" "fn (uf_parent uf)" b] ok a c by (simp add: uf_ok_def)
  then show ?thesis using a c unfolding joined_def by blast
qed (use 1 2 in auto)

lemma uf_find_ok:
  assumes w: "wf_nodes vh M" and ok: "uf_ok M uf" and x: "Some x \<in> refs M"
  shows "\<exists>r uf'. uf_find M x uf = Some (r, uf') \<and> uf_ok M uf' \<and> (\<forall>X Y. joined M uf' X Y \<longleftrightarrow> joined M uf X Y) \<and>
    uf_keys uf \<subseteq> uf_keys uf' \<and> (\<forall>a \<in> uf_keys uf. \<forall>q. rooted (fn (uf_parent uf')) a q \<longleftrightarrow> rooted (fn (uf_parent uf)) a q) \<and>
    (\<exists>k \<in> uf_keys uf'. subtree M k = subtree M x \<and> rooted (fn (uf_parent uf')) k r)"
proof -
  have m: "node_map_ok M (uf_parent uf)" and rk: "map fst (uf_rank uf) = map fst (uf_parent uf)"
    and r: "ranked (uf_keys uf) (fn (uf_rank uf)) (fn (uf_parent uf))" using ok by (simp_all add: uf_ok_def)
  have mr: "node_map_ok M (uf_rank uf)" using m node_map_ok_keys[OF rk] by blast
  let ?f = "fn (uf_parent uf)" and ?A = "uf_keys uf"
  show ?thesis
  proof (cases "mget M (uf_parent uf) x")
    case None
    have nr: "mget M (uf_rank uf) x = None"
      using None mget_None[OF w m x] mget_None[OF w mr x] arg_cong[OF rk, of set] by simp
    note p = mput_new[OF w m x None] and q = mput_new[OF w mr x nr]
    let ?uf = "\<lparr>uf_parent = mput M (uf_parent uf) x x, uf_rank = mput M (uf_rank uf) x 0\<rparr>"
    have A: "uf_keys ?uf = insert x ?A" using arg_cong[OF p(1), of set, of x] by auto
    have fx: "?f x = x" using p(3) by (simp add: fn_def map_of_eq_None_iff[THEN iffD2])
    then have f: "fn (uf_parent ?uf) = ?f" by (simp add: p(2) fun_upd_idem)
    have "ranked (insert x ?A) ((fn (uf_rank uf))(x := 0)) ?f"
      using r p(3) fx unfolding ranked_def by auto
    moreover have "map fst (mput M (uf_rank uf) x 0) = map fst (mput M (uf_parent uf) x x)" using p(1) q(1) rk by simp
    ultimately have ok': "uf_ok M ?uf" using p(4) A f by (simp add: uf_ok_def q(2))
    have same: "rooted (fn (uf_parent ?uf)) a c \<longleftrightarrow> rooted ?f a c" if "a \<in> ?A" for a c
      by (simp only: f)
    have rx: "rooted (fn (uf_parent ?uf)) x x" unfolding f by (simp add: fx rooted_fix)
    have "joined M ?uf X Y \<longleftrightarrow> joined M uf X Y" for X Y
    proof
      assume "joined M uf X Y"
      then show "joined M ?uf X Y" unfolding joined_def A using same by blast
    next
      assume j: "joined M ?uf X Y"
      show "joined M uf X Y"
      proof (cases "X = Y")
        case False
        then obtain a b c where ab: "a \<in> insert x ?A" "b \<in> insert x ?A" "subtree M a = X" "subtree M b = Y"
          "rooted (fn (uf_parent ?uf)) a c" "rooted (fn (uf_parent ?uf)) b c" using j unfolding joined_def A by blast
        have new: "c \<noteq> x" if "d \<in> ?A" "rooted (fn (uf_parent ?uf)) d c" for d
          using rooted_in[OF r that(1)] same[OF that(1)] that(2) p(3) by blast
        have old: "c = x" if "d = x" "rooted (fn (uf_parent ?uf)) d c" for d
          using that rooted_fix[of ?f x] fx unfolding f by simp
        have "a \<in> ?A \<and> b \<in> ?A" using ab new old False by blast
        then show ?thesis using ab same unfolding joined_def by blast
      qed (simp add: joined_def)
    qed
    moreover have "uf_find M x uf = Some (x, ?uf)" using None nr by (simp add: uf_find_def)
    ultimately show ?thesis using ok' A same rx by (intro exI[of _ x] exI[of _ ?uf]) auto
  next
    case (Some v)
    then obtain k where k: "k \<in> ?A" "subtree M k = subtree M x" using mget_None[OF w m x] by fastforce
    from root_of_ok[OF w m r x k] obtain q m' where q: "root_of M (uf_parent uf) x = Some (q, m')"
      "map fst m' = map fst (uf_parent uf)" "ranked ?A (fn (uf_rank uf)) (fn m')" "rooted ?f k q"
      "\<forall>a \<in> ?A. \<forall>q. rooted (fn m') a q \<longleftrightarrow> rooted ?f a q" by blast
    have A: "fst ` set m' = ?A" using arg_cong[OF q(2), of set] by simp
    have "uf_find M x uf = Some (q, uf\<lparr>uf_parent := m'\<rparr>)" using Some q(1) by (simp add: uf_find_def)
    moreover have "uf_ok M (uf\<lparr>uf_parent := m'\<rparr>)" using m rk q(2,3) node_map_ok_keys[OF q(2), of M] A by (simp add: uf_ok_def)
    moreover have "joined M (uf\<lparr>uf_parent := m'\<rparr>) X Y \<longleftrightarrow> joined M uf X Y" for X Y
      unfolding joined_def using q(5) A by simp
    ultimately show ?thesis using k q(4,5) A by (intro exI[of _ q] exI[of _ "uf\<lparr>uf_parent := m'\<rparr>"]) auto
  qed
qed

lemma rank_of_key:
  assumes w: "wf_nodes vh M" and ok: "uf_ok M uf" and k: "k \<in> uf_keys uf"
  shows "rank_of M uf k = fn (uf_rank uf) k"
proof -
  have rk: "map fst (uf_rank uf) = map fst (uf_parent uf)" and m: "node_map_ok M (uf_parent uf)" using ok by (simp_all add: uf_ok_def)
  have "k \<in> fst ` set (uf_rank uf)" using k arg_cong[OF rk, of set] by simp
  moreover have "Some k \<in> refs M" using m k unfolding node_map_ok_def by blast
  moreover have "node_map_ok M (uf_rank uf)" using m node_map_ok_keys[OF rk, of M] by simp
  ultimately show ?thesis using mget_key[OF w] by (simp add: rank_of_def)
qed

text \<open>Linking one root below another joins their classes and nothing else. The rank of the new root exceeds
  that of the old one.\<close>

lemma link_ok:
  assumes w: "wf_nodes vh M" and ok: "uf_ok M uf"
    and x: "x \<in> uf_keys uf" "fn (uf_parent uf) x = x" and y: "y \<in> uf_keys uf" "fn (uf_parent uf) y = y" "x \<noteq> y"
    and le: "fn (uf_rank uf) y \<le> fn (uf_rank uf) x"
    and uf': "uf_parent uf' = mput M (uf_parent uf) y x"
      "uf_rank uf' = (if fn (uf_rank uf) x = fn (uf_rank uf) y then mput M (uf_rank uf) x (fn (uf_rank uf) x + 1) else uf_rank uf)"
  shows "uf_ok M uf'" "uf_keys uf' = uf_keys uf"
    "\<And>X Y. joined M uf' X Y \<longleftrightarrow> joined M uf X Y \<or> joined M uf X (subtree M x) \<and> joined M uf Y (subtree M y) \<or>
      joined M uf X (subtree M y) \<and> joined M uf Y (subtree M x)"
    "rooted (fn (uf_parent uf')) x x"
proof -
  let ?f = "fn (uf_parent uf)" and ?A = "uf_keys uf" and ?rk = "fn (uf_rank uf)"
  have m: "node_map_ok M (uf_parent uf)" and rk: "map fst (uf_rank uf) = map fst (uf_parent uf)" and r: "ranked ?A ?rk ?f"
    using ok by (simp_all add: uf_ok_def)
  have xr: "Some x \<in> refs M" and yr: "Some y \<in> refs M" using m x y unfolding node_map_ok_def by blast+
  have mr: "node_map_ok M (uf_rank uf)" using m node_map_ok_keys[OF rk, of M] by simp
  have xk: "x \<in> fst ` set (uf_rank uf)" using x arg_cong[OF rk, of set] by simp
  note p = mput_key[OF w m yr y(1) refl, of x] and q = mput_key[OF w mr xr xk refl]
  define h where "h = ?f(y := x)"
  define rk' where "rk' = fn (uf_rank uf')"
  have h: "fn (uf_parent uf') = h" "h y = x" "\<And>b. b \<noteq> y \<Longrightarrow> h b = ?f b" by (simp_all add: h_def uf'(1) p(2))
  have rk': "\<And>b. b \<noteq> x \<Longrightarrow> rk' b = ?rk b" "?rk x \<le> rk' x" "?rk y < rk' x"
    using le by (auto simp: rk'_def uf'(2) q(2))
  show A: "uf_keys uf' = ?A" using arg_cong[OF p(1), of set] by (simp add: uf'(1))
  have hx: "h x = x" using h(3) x(2) y(3) by simp
  have r': "ranked ?A rk' h"
    unfolding ranked_def
  proof (intro conjI ballI impI)
    show "finite ?A" by simp
    fix a assume a: "a \<in> ?A"
    show "h a \<in> ?A" using h x r a by (cases "a = y") (auto simp: ranked_def)
    assume ne: "h a \<noteq> a"
    show "rk' a < rk' (h a)"
    proof (cases "a = y")
      case True
      then show ?thesis using h(2) rk'(1)[of y] rk'(3) y(3) by simp
    next
      case False
      then have "?rk a < ?rk (?f a)" using r a ne h(3) unfolding ranked_def by metis
      moreover have "a \<noteq> x" using ne hx by auto
      ultimately show ?thesis using rk'(1)[of a] rk'(1)[of "?f a"] rk'(2) h(3) False by (cases "?f a = x") auto
    qed
  qed
  have "map fst (uf_rank uf') = map fst (uf_parent uf')" using rk p(1) q(1) by (simp add: uf'(1,2))
  moreover have "node_map_ok M (uf_parent uf')" using m node_map_ok_keys[OF p(1), of M] by (simp add: uf'(1))
  ultimately show "uf_ok M uf'" using r' A by (simp add: uf_ok_def h(1) rk'_def)
  have link: "rooted ?f a c \<Longrightarrow> rooted h a (if c = y then x else c)" if "a \<in> ?A" for a c
    unfolding h_def by (rule link_rooted[OF r x y that])
  show "rooted (fn (uf_parent uf')) x x" unfolding h(1) using rooted_fix[of h x] hx by simp
  have root: "\<exists>c \<in> ?A. rooted ?f a c" if "a \<in> ?A" for a using ranked_root[OF r that] rooted_in[OF r that] by blast
  have joins: "joined M uf (subtree M a) (subtree M c)" if "a \<in> ?A" "rooted ?f a c" for a c
    using that rooted_in[OF r that] rooted_fix[of ?f c c] unfolding joined_def rooted_def by (metis funpow_0)
  fix X Y
  show "joined M uf' X Y \<longleftrightarrow> joined M uf X Y \<or> joined M uf X (subtree M x) \<and> joined M uf Y (subtree M y) \<or>
      joined M uf X (subtree M y) \<and> joined M uf Y (subtree M x)" (is "?L \<longleftrightarrow> ?R")
  proof
    assume L: ?L
    show ?R
    proof (cases "X = Y")
      case False
      then obtain a b c where ab: "a \<in> ?A" "b \<in> ?A" "subtree M a = X" "subtree M b = Y" "rooted h a c" "rooted h b c"
        using L unfolding joined_def A h(1) by blast
      obtain p q where pq: "rooted ?f a p" "rooted ?f b q" using root[OF ab(1)] root[OF ab(2)] by blast
      have "c = (if p = y then x else p)" "c = (if q = y then x else q)"
        using rooted_unique[OF r' ab(1) ab(5) link[OF ab(1) pq(1)]] rooted_unique[OF r' ab(2) ab(6) link[OF ab(2) pq(2)]] by blast+
      then have "p = q \<or> p = y \<and> q = x \<or> p = x \<and> q = y" by (metis (full_types))
      then show ?thesis using joins[OF ab(1) pq(1)] joins[OF ab(2) pq(2)] ab(3,4) joined_sym joined_trans[OF ok] by blast
    qed (simp add: joined_def)
  next
    assume R: ?R
    have up: "joined M uf' X Y" if "joined M uf X Y" for X Y
      using that link unfolding joined_def A h(1) by blast
    have "rooted h y x" using rooted_step[of h y] rooted_fix[of h x] h(2) hx y(3) by simp
    moreover have "rooted h x x" using rooted_fix[of h x] hx by simp
    ultimately have "joined M uf' (subtree M x) (subtree M y)" using x y unfolding joined_def A h(1) by blast
    then show ?L using R up joined_sym joined_trans[OF \<open>uf_ok M uf'\<close>] by meson
  qed
qed

lemma root_facts:
  assumes ok: "uf_ok M uf" and k: "k \<in> uf_keys uf" "rooted (fn (uf_parent uf)) k r"
  shows "r \<in> uf_keys uf" "fn (uf_parent uf) r = r" "joined M uf (subtree M k) (subtree M r)"
proof -
  have r: "ranked (uf_keys uf) (fn (uf_rank uf)) (fn (uf_parent uf))" using ok by (simp add: uf_ok_def)
  show 1: "r \<in> uf_keys uf" by (rule rooted_in[OF r k])
  show 2: "fn (uf_parent uf) r = r" using k(2) by (simp add: rooted_def)
  have "rooted (fn (uf_parent uf)) r r" using 2 by (simp add: rooted_fix)
  then show "joined M uf (subtree M k) (subtree M r)" using 1 k unfolding joined_def by blast
qed

lemma roots_joined:
  assumes ok: "uf_ok M uf" and a: "a \<in> uf_keys uf" "rooted (fn (uf_parent uf)) a p" and b: "b \<in> uf_keys uf" "rooted (fn (uf_parent uf)) b q"
  shows "p = q \<longleftrightarrow> joined M uf (subtree M a) (subtree M b)"
proof
  assume "p = q"
  then show "joined M uf (subtree M a) (subtree M b)" using a b unfolding joined_def by blast
next
  have m: "node_map_ok M (uf_parent uf)" and r: "ranked (uf_keys uf) (fn (uf_rank uf)) (fn (uf_parent uf))"
    using ok by (simp_all add: uf_ok_def)
  assume "joined M uf (subtree M a) (subtree M b)"
  then consider "subtree M a = subtree M b" |
    c d s where "c \<in> uf_keys uf" "d \<in> uf_keys uf" "subtree M c = subtree M a" "subtree M d = subtree M b"
      "rooted (fn (uf_parent uf)) c s" "rooted (fn (uf_parent uf)) d s" unfolding joined_def by blast
  then show "p = q"
  proof cases
    case 1
    then have "a = b" using key_unique[OF m a(1) b(1)] by simp
    then show ?thesis using rooted_unique[OF r a] b(2) by blast
  next
    case 2
    then have "c = a" "d = b" using key_unique[OF m _ a(1)] key_unique[OF m _ b(1)] by simp_all
    then show ?thesis using 2 rooted_unique[OF r a(1)] rooted_unique[OF r b(1)] a(2) b(2) by blast
  qed
qed

text \<open>Two finds: both nodes are keys then, with their roots.\<close>

lemma two_finds:
  assumes w: "wf_nodes vh M" and ok: "uf_ok M uf" and x: "Some x \<in> refs M" and y: "Some y \<in> refs M"
  obtains p u1 q u2 where "uf_find M x uf = Some (p, u1)" "uf_find M y u1 = Some (q, u2)" "uf_ok M u2"
    "joined M u2 = joined M uf" "p \<in> uf_keys u2" "q \<in> uf_keys u2" "fn (uf_parent u2) p = p" "fn (uf_parent u2) q = q"
    "joined M uf (subtree M x) (subtree M p)" "joined M uf (subtree M y) (subtree M q)"
    "p = q \<longleftrightarrow> joined M uf (subtree M x) (subtree M y)"
proof -
  obtain p u1 where P: "uf_find M x uf = Some (p, u1)" "uf_ok M u1" "\<forall>X Y. joined M u1 X Y \<longleftrightarrow> joined M uf X Y"
    "\<exists>k \<in> uf_keys u1. subtree M k = subtree M x \<and> rooted (fn (uf_parent u1)) k p"
    using uf_find_ok[OF w ok x] by (elim exE conjE) (rule that, assumption+)
  from P(4) obtain k where K: "k \<in> uf_keys u1" "subtree M k = subtree M x" "rooted (fn (uf_parent u1)) k p" by (elim bexE conjE)
  obtain q u2 where Q: "uf_find M y u1 = Some (q, u2)" "uf_ok M u2" "\<forall>X Y. joined M u2 X Y \<longleftrightarrow> joined M u1 X Y"
    "uf_keys u1 \<subseteq> uf_keys u2" "\<forall>a \<in> uf_keys u1. \<forall>q. rooted (fn (uf_parent u2)) a q \<longleftrightarrow> rooted (fn (uf_parent u1)) a q"
    "\<exists>k \<in> uf_keys u2. subtree M k = subtree M y \<and> rooted (fn (uf_parent u2)) k q"
    using uf_find_ok[OF w P(2) y] by (elim exE conjE) (rule that, assumption+)
  from Q(6) obtain j where J: "j \<in> uf_keys u2" "subtree M j = subtree M y" "rooted (fn (uf_parent u2)) j q" by (elim bexE conjE)
  have jj: "joined M u2 = joined M uf" by (intro ext) (simp only: Q(3) P(3))
  have k: "k \<in> uf_keys u2" "rooted (fn (uf_parent u2)) k p"
    using K(1) Q(4) bspec[OF Q(5) K(1)] K(3) by blast+
  note fk = root_facts[OF Q(2) k] and fj = root_facts[OF Q(2) J(1,3)]
  note e = roots_joined[OF Q(2) k J(1,3)]
  show ?thesis
    by (rule that[OF P(1) Q(1,2) jj fk(1) fj(1) fk(2) fj(2) fk(3)[unfolded jj K(2)] fj(3)[unfolded jj J(2)] e[unfolded jj K(2) J(2)]])
qed

lemma unite_ok:
  assumes w: "wf_nodes vh M" and ok: "uf_ok M uf" and x: "Some x \<in> refs M" and y: "Some y \<in> refs M"
  shows "\<exists>r uf'. unite M x y uf = Some (r, uf') \<and> uf_ok M uf' \<and>
    (\<forall>X Y. joined M uf' X Y \<longleftrightarrow> joined M uf X Y \<or> joined M uf X (subtree M x) \<and> joined M uf Y (subtree M y) \<or>
      joined M uf X (subtree M y) \<and> joined M uf Y (subtree M x))"
proof -
  obtain p u1 q u2 where f: "uf_find M x uf = Some (p, u1)" "uf_find M y u1 = Some (q, u2)" "uf_ok M u2"
    and jj: "joined M u2 = joined M uf" and k: "p \<in> uf_keys u2" "q \<in> uf_keys u2"
      "fn (uf_parent u2) p = p" "fn (uf_parent u2) q = q"
    and r: "joined M uf (subtree M x) (subtree M p)" "joined M uf (subtree M y) (subtree M q)"
    and e: "p = q \<longleftrightarrow> joined M uf (subtree M x) (subtree M y)" using two_finds[OF w ok x y] by metis
  note tr = joined_trans[OF ok]
  have px: "joined M uf Z (subtree M p) \<longleftrightarrow> joined M uf Z (subtree M x)" for Z using r(1) tr joined_sym by metis
  have qy: "joined M uf Z (subtree M q) \<longleftrightarrow> joined M uf Z (subtree M y)" for Z using r(2) tr joined_sym by metis
  show ?thesis
  proof (cases "p = q")
    case True
    have "unite M x y uf = Some (p, u2)" using f True by (simp add: unite_def)
    moreover have "joined M uf X Y" if "joined M uf X (subtree M x) \<and> joined M uf Y (subtree M y) \<or>
      joined M uf X (subtree M y) \<and> joined M uf Y (subtree M x)" for X Y
      using that e True tr joined_sym by metis
    ultimately show ?thesis using f(3) unfolding jj[symmetric] by blast
  next
    case False
    let ?rk = "fn (uf_rank u2)"
    have rp: "rank_of M u2 p = ?rk p" "rank_of M u2 q = ?rk q" using rank_of_key[OF w f(3)] k by simp_all
    define hi where "hi = (if ?rk p < ?rk q then q else p)"
    define lo where "lo = (if ?rk p < ?rk q then p else q)"
    let ?u = "u2\<lparr>uf_parent := mput M (uf_parent u2) lo hi\<rparr>"
    let ?uf = "if ?rk p = ?rk q then ?u\<lparr>uf_rank := mput M (uf_rank u2) hi (?rk hi + 1)\<rparr> else ?u"
    have hl: "hi \<in> uf_keys u2" "fn (uf_parent u2) hi = hi" "lo \<in> uf_keys u2" "fn (uf_parent u2) lo = lo" "hi \<noteq> lo" "?rk lo \<le> ?rk hi"
      "?rk hi = ?rk lo \<longleftrightarrow> ?rk p = ?rk q"
      using k False by (auto simp: hi_def lo_def)
    have parent: "uf_parent ?uf = mput M (uf_parent u2) lo hi"
      "uf_rank ?uf = (if ?rk hi = ?rk lo then mput M (uf_rank u2) hi (?rk hi + 1) else uf_rank u2)" using hl(7) by auto
    note l = link_ok[OF w f(3) hl(1-6) parent]
    have "rank_of M u2 hi = ?rk hi" using rank_of_key[OF w f(3) hl(1)] .
    then have rh: "rank_of M ?u hi = ?rk hi" by (simp add: rank_of_def)
    have "unite M x y uf = Some (hi, ?uf)"
      using f False rp rh by (cases "?rk p < ?rk q") (simp_all add: unite_def Let_def hi_def lo_def)
    moreover have "joined M ?uf X Y \<longleftrightarrow> joined M uf X Y \<or> joined M uf X (subtree M x) \<and> joined M uf Y (subtree M y) \<or>
      joined M uf X (subtree M y) \<and> joined M uf Y (subtree M x)" for X Y
      unfolding l(3) unfolding jj hi_def lo_def
      by (cases "?rk p < ?rk q") (simp_all only: if_True if_False px qy, blast+)
    ultimately show ?thesis using l(1) by blast
  qed
qed

section \<open>The classes\<close>

lemma follow_root:
  assumes w: "wf_nodes vh M" and m: "node_map_ok M m" and r: "ranked (fst ` set m) rk (fn m)"
    and k: "k \<in> fst ` set m" "rooted (fn m) k r"
  shows "follow M m k = Some r"
proof -
  have "rooted (fn m) k r \<longrightarrow> follow M m k = Some r"
    using r k(1)
  proof (induction k rule: ranked_induct)
    case (step k)
    have "mget M m k = Some (fn m k)" using mget_key[OF w m _ step(1) refl] m step(1) unfolding node_map_ok_def by blast
    then show ?case using step(2) rooted_fix[of "fn m" k] rooted_step[of "fn m" k]
      by (subst follow.simps) (cases "fn m k = k", simp_all)
  qed
  then show ?thesis using k(2) by blast
qed

lemma add_member_set:
  "distinct (map fst cs) \<Longrightarrow> distinct (map fst (add_member r k cs)) \<and>
    (\<forall>q j. (\<exists>ks. (q, ks) \<in> set (add_member r k cs) \<and> j \<in> set ks) \<longleftrightarrow> (\<exists>ks. (q, ks) \<in> set cs \<and> j \<in> set ks) \<or> q = r \<and> j = k) \<and>
    fst ` set (add_member r k cs) = insert r (fst ` set cs)"
proof (induction cs)
  case (Cons c cs)
  obtain q ks where c: "c = (q, ks)" by fastforce
  have d: "distinct (map fst cs)" "q \<notin> fst ` set cs" using Cons.prems c by simp_all
  note I = Cons.IH[OF d(1)]
  show ?case
  proof (cases "q = r")
    case True
    then have "(q, js) \<notin> set cs" for js using d(2) by force
    then show ?thesis using c True Cons.prems by (auto simp: image_iff)
  next
    case False
    then have "q \<notin> fst ` set (add_member r k cs)" using I d(2) by simp
    moreover have "(\<exists>ks'. (p, ks') \<in> set (add_member r k (c # cs)) \<and> j \<in> set ks') \<longleftrightarrow>
        p = q \<and> j \<in> set ks \<or> (\<exists>ks'. (p, ks') \<in> set (add_member r k cs) \<and> j \<in> set ks')" for p j
      using c False by auto
    moreover have "(\<exists>ks'. (p, ks') \<in> set (c # cs) \<and> j \<in> set ks') \<longleftrightarrow> p = q \<and> j \<in> set ks \<or> (\<exists>ks'. (p, ks') \<in> set cs \<and> j \<in> set ks')" for p j
      using c by auto
    ultimately show ?thesis using I c False by auto
  qed
qed auto

lemma classes_of_ok:
  "\<forall>e \<in> set es. follow M m (fst e) = Some (g (fst e)) \<Longrightarrow> distinct (map fst cs) \<Longrightarrow>
    \<exists>cs'. classes_of M m es cs = Some cs' \<and> distinct (map fst cs') \<and>
      (\<forall>q j. (\<exists>ks. (q, ks) \<in> set cs' \<and> j \<in> set ks) \<longleftrightarrow> (\<exists>ks. (q, ks) \<in> set cs \<and> j \<in> set ks) \<or> j \<in> fst ` set es \<and> q = g j)"
proof (induction es arbitrary: cs)
  case (Cons e es)
  obtain k v where e: "e = (k, v)" by fastforce
  note A = add_member_set[OF Cons.prems(2), of "g k" k]
  from Cons.IH[of "add_member (g k) k cs"] Cons.prems(1) A obtain cs' where c: "classes_of M m es (add_member (g k) k cs) = Some cs'"
    "distinct (map fst cs')" "\<forall>q j. (\<exists>ks. (q, ks) \<in> set cs' \<and> j \<in> set ks) \<longleftrightarrow>
      (\<exists>ks. (q, ks) \<in> set (add_member (g k) k cs) \<and> j \<in> set ks) \<or> j \<in> fst ` set es \<and> q = g j" by auto
  have "classes_of M m (e # es) cs = Some cs'" using c(1) Cons.prems(1) e by simp
  moreover have "(\<exists>ks. (q, ks) \<in> set cs' \<and> j \<in> set ks) \<longleftrightarrow> (\<exists>ks. (q, ks) \<in> set cs \<and> j \<in> set ks) \<or> j \<in> fst ` set (e # es) \<and> q = g j" for q j
    using c(3) A e by auto
  ultimately show ?case using c(2) by blast
qed auto

text \<open>\<open>each_class\<close> reports every class once, under its representative, with exactly the nodes of that class.\<close>

theorem each_class_partition:
  assumes w: "wf_nodes vh M" and ok: "uf_ok M uf"
  shows "\<exists>cs. each_class M uf = Some cs \<and> distinct (map fst cs) \<and>
    (\<forall>r k. (\<exists>ks. (r, ks) \<in> set cs \<and> k \<in> set ks) \<longleftrightarrow> k \<in> uf_keys uf \<and> rooted (fn (uf_parent uf)) k r)"
proof -
  have m: "node_map_ok M (uf_parent uf)" and r: "ranked (uf_keys uf) (fn (uf_rank uf)) (fn (uf_parent uf))"
    using ok by (simp_all add: uf_ok_def)
  define g where "g k = (THE r. rooted (fn (uf_parent uf)) k r)" for k
  have g: "rooted (fn (uf_parent uf)) k r \<longleftrightarrow> r = g k" if "k \<in> uf_keys uf" for k r
    using ranked_root[OF r that] the1_equality theI' unfolding g_def by metis
  have "\<forall>e \<in> set (uf_parent uf). follow M (uf_parent uf) (fst e) = Some (g (fst e))"
    using follow_root[OF w m r] g by blast
  from classes_of_ok[OF this, of "[]"] obtain cs where c: "each_class M uf = Some cs" "distinct (map fst cs)"
    "\<forall>q j. (\<exists>ks. (q, ks) \<in> set cs \<and> j \<in> set ks) \<longleftrightarrow> j \<in> uf_keys uf \<and> q = g j" unfolding each_class_def by auto
  have "(\<exists>ks. (r, ks) \<in> set cs \<and> k \<in> set ks) \<longleftrightarrow> k \<in> uf_keys uf \<and> rooted (fn (uf_parent uf)) k r" for r k
    unfolding c(3)[rule_format] using g by blast
  then show ?thesis using c(1,2) by blast
qed

section \<open>Runs\<close>

datatype uf_op = Find nat | Unite nat nat | Same nat nat

fun op_nodes :: "uf_op \<Rightarrow> nat set" where
  "op_nodes (Find x) = {x}"
| "op_nodes (Unite x y) = {x, y}"
| "op_nodes (Same x y) = {x, y}"

fun uf_step :: "'v nodes \<Rightarrow> uf_op \<Rightarrow> union_find \<Rightarrow> union_find option" where
  "uf_step M (Find x) uf = map_option snd (uf_find M x uf)"
| "uf_step M (Unite x y) uf = map_option snd (unite M x y uf)"
| "uf_step M (Same x y) uf = map_option snd (same M x y uf)"

fun uf_run :: "'v nodes \<Rightarrow> uf_op list \<Rightarrow> union_find \<Rightarrow> union_find option" where
  "uf_run M [] uf = Some uf"
| "uf_run M (p # ps) uf = Option.bind (uf_step M p uf) (uf_run M ps)"

text \<open>The specification: the equivalence that the united pairs generate.\<close>

inductive connected :: "'v nodes \<Rightarrow> uf_op list \<Rightarrow> 'v \<times> 'v bt \<Rightarrow> 'v \<times> 'v bt \<Rightarrow> bool" for M ps where
  connected_refl: "connected M ps X X"
| connected_unite: "Unite x y \<in> set ps \<Longrightarrow> connected M ps (subtree M x) (subtree M y)"
| connected_sym: "connected M ps X Y \<Longrightarrow> connected M ps Y X"
| connected_trans: "connected M ps X Y \<Longrightarrow> connected M ps Y Z \<Longrightarrow> connected M ps X Z"

lemma connected_mono: "connected M ps X Y \<Longrightarrow> set ps \<subseteq> set qs \<Longrightarrow> connected M qs X Y"
  by (induction rule: connected.induct) (auto intro: connected.intros)

lemma uf_step_ok:
  assumes w: "wf_nodes vh M" and ok: "uf_ok M uf" and n: "Some ` op_nodes p \<subseteq> refs M"
  shows "\<exists>uf'. uf_step M p uf = Some uf' \<and> uf_ok M uf' \<and>
    (\<forall>X Y. joined M uf' X Y \<longleftrightarrow> joined M uf X Y \<or>
      (\<exists>x y. p = Unite x y \<and> (joined M uf X (subtree M x) \<and> joined M uf Y (subtree M y) \<or>
        joined M uf X (subtree M y) \<and> joined M uf Y (subtree M x))))"
proof (cases p)
  case (Find x)
  then have "Some x \<in> refs M" using n by simp
  from uf_find_ok[OF w ok this] show ?thesis unfolding Find by (elim exE conjE) simp
next
  case (Unite x y)
  then have "Some x \<in> refs M" "Some y \<in> refs M" using n by auto
  from unite_ok[OF w ok this] show ?thesis unfolding Unite by (elim exE conjE) simp
next
  case (Same x y)
  then have r: "Some x \<in> refs M" "Some y \<in> refs M" using n by auto
  obtain p u1 q u2 where "uf_find M x uf = Some (p, u1)" "uf_find M y u1 = Some (q, u2)" "uf_ok M u2" "joined M u2 = joined M uf"
    by (rule two_finds[OF w ok r])
  then show ?thesis using Same by (simp add: same_def)
qed

lemma uf_run_ok:
  assumes w: "wf_nodes vh M"
  shows "uf_ok M uf \<Longrightarrow> \<forall>p \<in> set ps. Some ` op_nodes p \<subseteq> refs M \<Longrightarrow> \<forall>X Y. joined M uf X Y \<longleftrightarrow> connected M qs X Y \<Longrightarrow>
    \<exists>uf'. uf_run M ps uf = Some uf' \<and> uf_ok M uf' \<and> (\<forall>X Y. joined M uf' X Y \<longleftrightarrow> connected M (qs @ ps) X Y)"
proof (induction ps arbitrary: uf qs)
  case (Cons p ps)
  from uf_step_ok[OF w Cons.prems(1), of p] Cons.prems(2) obtain u where u: "uf_step M p uf = Some u" "uf_ok M u"
    "\<forall>X Y. joined M u X Y \<longleftrightarrow> joined M uf X Y \<or>
      (\<exists>x y. p = Unite x y \<and> (joined M uf X (subtree M x) \<and> joined M uf Y (subtree M y) \<or>
        joined M uf X (subtree M y) \<and> joined M uf Y (subtree M x)))" by auto
  have up: "connected M (qs @ [p]) X Y" if "connected M qs X Y" for X Y by (rule connected_mono[OF that]) auto
  have "joined M u X Y \<longleftrightarrow> connected M (qs @ [p]) X Y" for X Y
  proof
    assume j: "joined M u X Y"
    have un: "connected M (qs @ [p]) (subtree M x) (subtree M y)" if "p = Unite x y" for x y
      by (rule connected_unite) (simp add: that)
    have c: "connected M (qs @ [p]) X Y" if "joined M uf X Y" for X Y using that Cons.prems(3) up by blast
    from j u(3) consider "joined M uf X Y" |
      x y where "p = Unite x y" "joined M uf X (subtree M x)" "joined M uf Y (subtree M y)" |
      x y where "p = Unite x y" "joined M uf X (subtree M y)" "joined M uf Y (subtree M x)" by blast
    then show "connected M (qs @ [p]) X Y"
    proof cases
      case 1
      then show ?thesis by (rule c)
    next
      case 2
      from connected_trans[OF connected_trans[OF c[OF 2(2)] un[OF 2(1)]] connected_sym[OF c[OF 2(3)]]] show ?thesis .
    next
      case 3
      from connected_trans[OF connected_trans[OF c[OF 3(2)] connected_sym[OF un[OF 3(1)]]] connected_sym[OF c[OF 3(3)]]] show ?thesis .
    qed
  next
    assume "connected M (qs @ [p]) X Y"
    then show "joined M u X Y"
    proof induction
      case (connected_unite x y)
      have r: "joined M uf Z Z" for Z by (simp add: joined_def)
      show ?case
      proof (cases "p = Unite x y")
        case True
        then show ?thesis using u(3) r by blast
      next
        case False
        then have "connected M qs (subtree M x) (subtree M y)" using connected_unite by (auto intro: connected.connected_unite)
        then show ?thesis using u(3) Cons.prems(3) by blast
      qed
    next
      case (connected_refl X)
      show ?case by (simp add: joined_def)
    next
      case (connected_sym X Y)
      show ?case by (rule joined_sym[OF connected_sym.IH])
    next
      case (connected_trans X Y Z)
      show ?case by (rule joined_trans[OF u(2) connected_trans.IH])
    qed
  qed
  with Cons.IH[OF u(2), of "qs @ [p]"] Cons.prems(2) u(1) show ?case by simp
qed simp

text \<open>C25: The union-find over the nodes of the store refines the equivalence that its unions generate.
  Whatever sequence of finds, unions and tests is run on nodes of a well-formed store, from the empty
  structure, every operation returns (the loop along the parents ends although it rewrites them on its way),
  and two nodes test as the same afterwards exactly if the united pairs connect their subtrees. A node
  stands for its subtree: two references to equal subtrees that differ in their right siblings are always
  the same.\<close>

theorem union_find_refines:
  assumes w: "wf_nodes vh M" and n: "\<forall>p \<in> set ps. Some ` op_nodes p \<subseteq> refs M" and x: "Some x \<in> refs M" and y: "Some y \<in> refs M"
  shows "\<exists>uf uf' b. uf_run M ps empty_uf = Some uf \<and> same M x y uf = Some (b, uf') \<and>
    (b \<longleftrightarrow> connected M ps (subtree M x) (subtree M y))"
proof -
  have "uf_ok M empty_uf" by (simp add: uf_ok_def empty_uf_def node_map_ok_def ranked_def)
  moreover have "connected M [] X Y \<Longrightarrow> X = Y" for X Y by (induction rule: connected.induct) simp_all
  then have "\<forall>X Y. joined M empty_uf X Y \<longleftrightarrow> connected M [] X Y"
    using connected_refl by (auto simp: joined_def empty_uf_def simp del: split_paired_All)
  ultimately obtain uf where uf: "uf_run M ps empty_uf = Some uf" "uf_ok M uf" "\<forall>X Y. joined M uf X Y \<longleftrightarrow> connected M ps X Y"
    using uf_run_ok[OF w _ n, of empty_uf "[]"] by (auto simp del: split_paired_All)
  obtain p u1 q u2 where f: "uf_find M x uf = Some (p, u1)" "uf_find M y u1 = Some (q, u2)"
    "p = q \<longleftrightarrow> joined M uf (subtree M x) (subtree M y)" by (rule two_finds[OF w uf(2) x y])
  then show ?thesis using uf(1,3) by (simp add: same_def)
qed

text \<open>Uniting the nodes 2 and 1 of \<open>abc_store\<close> makes 5 the same as 2, since 1 and 5 are references to equal
  subtrees.\<close>

theorem union_find_refines_witness:
  "\<exists>uf uf' b. uf_run (st_M abc_store) [Unite 2 1, Find 3] empty_uf = Some uf \<and> same (st_M abc_store) 5 2 uf = Some (b, uf') \<and> b"
proof -
  let ?ps = "[Unite 2 1, Find 3]"
  have "wf_nodes nat_hash (st_M abc_store)" using abc_wf by (simp add: wf_store_def)
  moreover have "\<forall>p \<in> set ?ps. Some ` op_nodes p \<subseteq> refs (st_M abc_store)" by (simp add: abc_store_def refs_def)
  moreover have "Some 5 \<in> refs (st_M abc_store)" "Some 2 \<in> refs (st_M abc_store)" by (simp_all add: abc_store_def refs_def)
  moreover have "connected (st_M abc_store) ?ps (subtree (st_M abc_store) 5) (subtree (st_M abc_store) 2)"
  proof -
    have "subtree (st_M abc_store) 5 = subtree (st_M abc_store) 1" by (simp add: abc_store_def subtree_def)
    then show ?thesis using connected_sym[OF connected_unite[of 2 1 ?ps "st_M abc_store"]] by simp
  qed
  ultimately show ?thesis using union_find_refines[of nat_hash "st_M abc_store" ?ps 5 2] by blast
qed

end
