(* ===== verification/Shape.thy ===== *)
theory Shape
  imports ForestReplace
begin

text \<open>
  The shaping of parse trees in \<open>src/src/parser_result.tmpl.h\<close>: a tree is taken out of the forest without the
  nodes to trim, nodes and paths of nodes are inlined, and terminals are trimmed. The options are those
  of the grammar. A shared tree is an \<open>ftree\<close>; a null pointer is \<open>None\<close>.
\<close>

section \<open>What the options say of a node\<close>

definition trimmable_node :: "shaping_options \<Rightarrow> 't pnode \<Rightarrow> bool" where
  "trimmable_node opts n = (if \<not> is_nt (fst n) then fst n = Null else lit_n (fst n) \<in> to_trim opts)"

definition trimmable_child :: "shaping_options \<Rightarrow> 't pnode \<Rightarrow> 't pnode \<Rightarrow> bool" where
  "trimmable_child opts n c \<longleftrightarrow>
     trimmable_node opts c \<or> is_nt (fst n) \<and> lit_n (fst n) \<in> to_trim_children opts \<or>
     \<not> is_nt (fst c) \<and> lit_n (fst n) \<in> to_trim_children_terminals opts"

text \<open>\<open>name.find(prefix)\<close> finds it anywhere in the name.\<close>

fun contains_text :: "string \<Rightarrow> string \<Rightarrow> bool" where
  "contains_text p [] \<longleftrightarrow> p = []"
| "contains_text p (c # s) \<longleftrightarrow> take (length p) (c # s) = p \<or> contains_text p s"

definition inline_prefixes :: "string list" where
  "inline_prefixes = [''__E_'', ''__B_'']"

definition char_class_names :: "string list" where
  "char_class_names =
     [''eof'', ''alnum'', ''alpha'', ''blank'', ''cntrl'', ''digit'', ''graph'', ''lower'', ''printable'',
      ''punct'', ''space'', ''upper'', ''xdigit'', ''unicode_alnum'', ''unicode_alpha'', ''unicode_blank'',
      ''unicode_cntrl'', ''unicode_digit'', ''unicode_graph'', ''unicode_lower'', ''unicode_printable'',
      ''unicode_punct'', ''unicode_space'', ''unicode_upper'', ''unicode_xdigit'']"

definition node_to_inline :: "names \<Rightarrow> shaping_options \<Rightarrow> 't pnode \<Rightarrow> bool" where
  "node_to_inline ns opts n \<longleftrightarrow>
     is_nt (fst n) \<and>
     (let name = ns ! lit_n (fst n) in
      inline_char_classes opts \<and> name \<in> set char_class_names \<or>
      list_ex (\<lambda>p. contains_text p name) inline_prefixes \<or> [lit_n (fst n)] \<in> set (to_inline opts))"

text \<open>\<open>if (x) push_back(x)\<close>.\<close>

definition pushed :: "'a option \<Rightarrow> 'a list" where
  "pushed x = (case x of None \<Rightarrow> [] | Some y \<Rightarrow> [y])"

lemma pushed_simps [simp]: "pushed None = []" "pushed (Some y) = [y]"
  by (simp_all add: pushed_def)

section \<open>Trimming\<close>

text \<open>The loop over the children of a pack.\<close>

fun trimmed_children ::
  "('t pnode \<Rightarrow> 't ftree option option) \<Rightarrow> shaping_options \<Rightarrow> 't pnode \<Rightarrow> 't pnodes \<Rightarrow> 't ftree list option" where
  "trimmed_children rec opts n [] = Some []"
| "trimmed_children rec opts n (c # cs) =
     (if trimmable_child opts n c then trimmed_children rec opts n cs
      else Option.bind (rec c) (\<lambda>x.
        map_option (\<lambda>xs. pushed x @ xs) (trimmed_children rec opts n cs)))"

fun trimmed_packs ::
  "('t pnode \<Rightarrow> 't ftree option option) \<Rightarrow> shaping_options \<Rightarrow> 't pnode \<Rightarrow> 't pnodes list \<Rightarrow> 't ftree list list option" where
  "trimmed_packs rec opts n [] = Some []"
| "trimmed_packs rec opts n (p # qs) =
     Option.bind (trimmed_children rec opts n p) (\<lambda>xs. map_option (\<lambda>xss. xs # xss) (trimmed_packs rec opts n qs))"

text \<open>An ambiguous node becomes the node \<open>__AMB__\<close> over its alternatives, which keep the value. Without
  fuel the result is \<open>None\<close>.\<close>

fun get_trimmed_forest_tree ::
  "nat \<Rightarrow> 't node_graph \<Rightarrow> 't lit \<Rightarrow> shaping_options \<Rightarrow> 't pnode \<Rightarrow> 't ftree option option" where
  "get_trimmed_forest_tree 0 g amb opts n = None"
| "get_trimmed_forest_tree (Suc fuel) g amb opts n =
     (if fst n = Null \<or> trimmable_node opts n then Some None
      else if \<not> is_nt (fst n) then Some (Some (FNode n []))
      else
        (case map_of g n of
           None \<Rightarrow> Some None
         | Some packs \<Rightarrow>
             map_option
               (\<lambda>xss. Some (if length packs > 1 then FNode (amb, snd n) (map (FNode n) xss) else FNode n (concat xss)))
               (trimmed_packs (get_trimmed_forest_tree fuel g amb opts) opts n packs)))"

section \<open>Inlining nodes\<close>

text \<open>The trees that a child pushes to its parent: those of its children when it is inlined.\<close>

fun inlined_into :: "names \<Rightarrow> shaping_options \<Rightarrow> 't ftree \<Rightarrow> 't ftree list" where
  "inlined_into ns opts (FNode v cs) =
     (if fst v = Null then []
      else if \<not> is_nt (fst v) then [FNode v []]
      else if node_to_inline ns opts v then concat (map (inlined_into ns opts) cs)
      else [FNode v (concat (map (inlined_into ns opts) cs))])"

text \<open>The call at the root, which is its own parent.\<close>

definition inline_forest_tree_nodes :: "names \<Rightarrow> shaping_options \<Rightarrow> 't ftree option \<Rightarrow> 't ftree option" where
  "inline_forest_tree_nodes ns opts t =
     (case t of None \<Rightarrow> None
      | Some (FNode v cs) \<Rightarrow>
          if fst v = Null then None
          else if \<not> is_nt (fst v) then Some (FNode v [])
          else Some (FNode v (concat (map (inlined_into ns opts) cs))))"

section \<open>Inlining paths\<close>

text \<open>The lambda \<open>go\<close>: the first node at the end of the path, from the left.\<close>

fun path_hit :: "nat list \<Rightarrow> 't ftree \<Rightarrow> 't ftree option"
and path_hits :: "nat list \<Rightarrow> 't ftree list \<Rightarrow> 't ftree option" where
  "path_hit [] t = None"
| "path_hit (p # qs) t =
     (if \<not> is_nt (fst (fvalue t)) \<or> lit_n (fst (fvalue t)) \<noteq> p then None
      else if qs = [] then Some t
      else path_hits qs (fchild t))"
| "path_hits qs [] = None"
| "path_hits qs (c # cs) = (case path_hit qs c of Some y \<Rightarrow> Some y | None \<Rightarrow> path_hits qs cs)"

fun first_hit :: "nat list list \<Rightarrow> 't ftree \<Rightarrow> 't ftree option" where
  "first_hit [] t = None"
| "first_hit (pa # pas) t =
     (if length pa < 2 then first_hit pas t
      else case path_hit pa t of Some y \<Rightarrow> Some y | None \<Rightarrow> first_hit pas t)"

lemma path_hit_size:
  "path_hit qs t = Some y \<Longrightarrow> size y \<le> size t \<and> (length qs \<ge> 2 \<longrightarrow> size y < size t)"
  "path_hits qs cs = Some y \<Longrightarrow> size y < Suc (size_list size cs)"
proof (induction qs t and qs cs arbitrary: y and y rule: path_hit_path_hits.induct)
  case (2 p qs t)
  show ?case
  proof (cases "qs = []")
    case False
    then have "path_hits qs (fchild t) = Some y" using 2(2) by (simp split: if_splits)
    then have "size y < Suc (size_list size (fchild t))" using 2(1,2) False by (simp split: if_splits)
    then show ?thesis by (cases t) simp
  qed (use 2 in \<open>simp split: if_splits\<close>)
next
  case (4 qs c cs)
  then show ?case by (fastforce split: option.splits)
qed simp_all

lemma first_hit_size: "first_hit pas t = Some y \<Longrightarrow> size y < size t"
  by (induction pas) (use path_hit_size(1)[of _ t y] in \<open>auto split: if_splits option.splits\<close>)

function inline_forest_tree_paths :: "shaping_options \<Rightarrow> 't ftree \<Rightarrow> 't ftree option" where
  "inline_forest_tree_paths opts t =
     (if fst (fvalue t) = Null then None
      else if \<not> is_nt (fst (fvalue t)) then Some (FNode (fvalue t) [])
      else
        (case first_hit (to_inline opts) t of
           Some hit \<Rightarrow> inline_forest_tree_paths opts hit
         | None \<Rightarrow> Some (FNode (fvalue t) (concat (map (\<lambda>c. pushed (inline_forest_tree_paths opts c)) (fchild t))))))"
  by pat_completeness auto

termination
proof (relation "measure (\<lambda>(opts, t). size t)")
  fix opts and t c :: "'t ftree" assume "c \<in> set (fchild t)"
  then have "size c < size t" using size_list_estimation'[of c "fchild t" "size c" size] by (cases t) simp
  then show "((opts, c), opts, t) \<in> measure (\<lambda>(opts, t). size t)" by simp
qed (simp_all add: first_hit_size)

declare inline_forest_tree_paths.simps [simp del]

section \<open>Trimming terminals\<close>

definition trims_terminals :: "shaping_options \<Rightarrow> nat \<Rightarrow> bool" where
  "trims_terminals opts n \<longleftrightarrow>
     trim_terminals opts \<and> n \<notin> dont_trim_terminals_of opts \<or> n \<in> to_trim_children_terminals opts"

fun trim_forest_tree_child_terminals :: "shaping_options \<Rightarrow> 't ftree \<Rightarrow> 't ftree" where
  "trim_forest_tree_child_terminals opts (FNode v cs) =
     (if \<not> is_nt (fst v) then FNode v cs
      else FNode v (map (trim_forest_tree_child_terminals opts)
        (filter (\<lambda>c. is_nt (fst (fvalue c)) \<or> fst (fvalue c) = Null \<or> \<not> trims_terminals opts (lit_n (fst v))) cs)))"

section \<open>The shaped tree\<close>

definition inline_forest_tree :: "names \<Rightarrow> shaping_options \<Rightarrow> 't ftree option \<Rightarrow> 't ftree option" where
  "inline_forest_tree ns opts t = Option.bind (inline_forest_tree_nodes ns opts t) (inline_forest_tree_paths opts)"

definition get_shaped_forest_tree ::
  "nat \<Rightarrow> 't node_graph \<Rightarrow> names \<Rightarrow> 't lit \<Rightarrow> shaping_options \<Rightarrow> 't pnode \<Rightarrow> 't ftree option option" where
  "get_shaped_forest_tree fuel g ns amb opts n =
     map_option (\<lambda>t. map_option (trim_forest_tree_child_terminals opts) (inline_forest_tree ns opts t))
       (get_trimmed_forest_tree fuel g amb opts n)"

section \<open>The first tree of a forest\<close>

definition get_nts_by_prefixes :: "names \<Rightarrow> string list \<Rightarrow> nat set" where
  "get_nts_by_prefixes ns prefixes =
     set (filter (\<lambda>i. list_ex (\<lambda>p. contains_text p (ns ! i)) prefixes) [0..<length ns])"

definition inline_grammar_transformations ::
  "'t::{linorder,zero} node_hash \<Rightarrow> names \<Rightarrow> 't forest \<Rightarrow> 't graph \<Rightarrow> (bool \<times> 't graph) option" where
  "inline_grammar_transformations h ns f G = inline_nodes h f G (get_nts_by_prefixes ns inline_prefixes)"

definition inline_prefixed_nodes ::
  "'t::{linorder,zero} node_hash \<Rightarrow> names \<Rightarrow> 't forest \<Rightarrow> 't graph \<Rightarrow> string \<Rightarrow> (bool \<times> 't graph) option" where
  "inline_prefixed_nodes h ns f G pre = inline_nodes h f G (get_nts_by_prefixes ns [pre])"

text \<open>\<open>is_ambiguous\<close> and \<open>ambiguous_nodes\<close> of a forest.\<close>

definition forest_ambiguous :: "'t forest \<Rightarrow> bool" where
  "forest_ambiguous f = list_ex (\<lambda>kv. length (snd kv) > 1) (f_g f)"

definition ambiguous_nodes_from_forest :: "'t forest \<Rightarrow> ('t pnode \<times> 't pnodes list) set" where
  "ambiguous_nodes_from_forest f = set (filter (\<lambda>kv. length (snd kv) > 1) (f_g f))"

section \<open>What a shaped tree looks like\<close>

fun all_nodes :: "('t pnode \<Rightarrow> 't ftree list \<Rightarrow> bool) \<Rightarrow> 't ftree \<Rightarrow> bool" where
  "all_nodes P (FNode v cs) \<longleftrightarrow> P v cs \<and> (\<forall>c \<in> set cs. all_nodes P c)"

text \<open>Trimmed: no null node, no node to trim, no child under a node whose children are trimmed; terminals are
  leaves. The ambiguity node is not one of the grammar's.\<close>

definition trimmed_at :: "'t lit \<Rightarrow> shaping_options \<Rightarrow> 't pnode \<Rightarrow> 't ftree list \<Rightarrow> bool" where
  "trimmed_at amb opts v cs \<longleftrightarrow>
     fst v \<noteq> Null \<and> (\<not> is_nt (fst v) \<longrightarrow> cs = []) \<and>
     (is_nt (fst v) \<and> fst v \<noteq> amb \<longrightarrow>
        lit_n (fst v) \<notin> to_trim opts \<and> (lit_n (fst v) \<in> to_trim_children opts \<longrightarrow> cs = []))"

definition no_inlined :: "names \<Rightarrow> shaping_options \<Rightarrow> 't ftree list \<Rightarrow> bool" where
  "no_inlined ns opts cs = list_all (\<lambda>c. \<not> node_to_inline ns opts (fvalue c)) cs"

definition terminals_kept :: "shaping_options \<Rightarrow> 't pnode \<Rightarrow> 't ftree list \<Rightarrow> bool" where
  "terminals_kept opts v cs \<longleftrightarrow> (trims_terminals opts (lit_n (fst v)) \<longrightarrow> list_all (\<lambda>c. is_nt (fst (fvalue c))) cs)"

abbreviation inlined_at :: "'t lit \<Rightarrow> names \<Rightarrow> shaping_options \<Rightarrow> 't pnode \<Rightarrow> 't ftree list \<Rightarrow> bool" where
  "inlined_at amb ns opts v cs \<equiv> trimmed_at amb opts v cs \<and> no_inlined ns opts cs"

lemma trimmed_at_change: "trimmed_at amb opts v cs \<Longrightarrow> (cs = [] \<Longrightarrow> cs' = []) \<Longrightarrow> trimmed_at amb opts v cs'"
  by (auto simp: trimmed_at_def)

lemma trimmed_children_ok:
  assumes "\<And>c x. rec c = Some (Some x) \<Longrightarrow> Q x"
  shows "trimmed_children rec opts n cs = Some xs \<Longrightarrow>
    (\<forall>x \<in> set xs. Q x) \<and> (is_nt (fst n) \<and> lit_n (fst n) \<in> to_trim_children opts \<longrightarrow> xs = [])"
proof (induction cs arbitrary: xs)
  case (Cons c cs)
  show ?case
  proof (cases "trimmable_child opts n c")
    case False
    then obtain x ys where x: "rec c = Some x" "trimmed_children rec opts n cs = Some ys" "xs = pushed x @ ys"
      using Cons.prems by (auto split: Option.bind_splits)
    then have "\<forall>x \<in> set xs. Q x" using Cons.IH[OF x(2)] assms by (cases x) auto
    moreover have "\<not> (is_nt (fst n) \<and> lit_n (fst n) \<in> to_trim_children opts)" using False by (auto simp: trimmable_child_def)
    ultimately show ?thesis by blast
  qed (use Cons in simp)
qed simp

lemma trimmed_packs_ok:
  assumes "\<And>c x. rec c = Some (Some x) \<Longrightarrow> Q x"
  shows "trimmed_packs rec opts n qs = Some xss \<Longrightarrow> length xss = length qs \<and>
    (\<forall>xs \<in> set xss. (\<forall>x \<in> set xs. Q x) \<and> (is_nt (fst n) \<and> lit_n (fst n) \<in> to_trim_children opts \<longrightarrow> xs = []))"
proof (induction qs arbitrary: xss)
  case (Cons q qs)
  then obtain ys yss where y: "trimmed_children rec opts n q = Some ys" "trimmed_packs rec opts n qs = Some yss" "xss = ys # yss"
    by (auto split: Option.bind_splits)
  show ?case using trimmed_children_ok[of rec Q, OF assms y(1)] Cons.IH[OF y(2)] y(3) by simp
qed simp

lemma get_trimmed_ok:
  "is_nt amb \<Longrightarrow> get_trimmed_forest_tree fuel g amb opts n = Some (Some t) \<Longrightarrow> all_nodes (trimmed_at amb opts) t"
proof (induction fuel arbitrary: n t)
  case (Suc fuel)
  show ?case
  proof (cases "is_nt (fst n)")
    case True
    then obtain packs xss where p: "map_of g n = Some packs" "\<not> trimmable_node opts n"
      "trimmed_packs (get_trimmed_forest_tree fuel g amb opts) opts n packs = Some xss"
      "t = (if length packs > 1 then FNode (amb, snd n) (map (FNode n) xss) else FNode n (concat xss))"
      using Suc.prems(2) by (auto split: if_splits option.splits)
    have q: "length xss = length packs" "\<forall>xs \<in> set xss. (\<forall>x \<in> set xs. all_nodes (trimmed_at amb opts) x) \<and>
        (lit_n (fst n) \<in> to_trim_children opts \<longrightarrow> xs = [])"
      using trimmed_packs_ok[of "get_trimmed_forest_tree fuel g amb opts" "all_nodes (trimmed_at amb opts)", OF Suc.IH[OF Suc.prems(1)] p(3)] True
      by auto
    have n: "fst n \<noteq> Null" "lit_n (fst n) \<notin> to_trim opts" using p(2) True by (auto simp: trimmable_node_def)
    show ?thesis
    proof (cases "length packs > 1")
      case True
      have "all_nodes (trimmed_at amb opts) (FNode n xs)" if "xs \<in> set xss" for xs
        using that q(2) n \<open>is_nt (fst n)\<close> by (auto simp: trimmed_at_def)
      moreover have "trimmed_at amb opts (amb, snd n) (map (FNode n) xss)" using Suc.prems(1) by (auto simp: trimmed_at_def)
      ultimately show ?thesis using True p(4) by auto
    next
      case False
      have "trimmed_at amb opts n (concat xss)" using q(2) n \<open>is_nt (fst n)\<close> by (auto simp: trimmed_at_def)
      then show ?thesis using False p(4) q(2) by auto
    qed
  next
    case False
    then show ?thesis using Suc.prems(2) by (auto simp: trimmed_at_def split: if_splits)
  qed
qed simp

lemma inlined_into_ok:
  "all_nodes (trimmed_at amb opts) t \<Longrightarrow>
    \<forall>x \<in> set (inlined_into ns opts t). all_nodes (inlined_at amb ns opts) x \<and> \<not> node_to_inline ns opts (fvalue x)"
proof (induction t)
  case (FNode v cs)
  have I: "\<forall>x \<in> set (concat (map (inlined_into ns opts) cs)). all_nodes (inlined_at amb ns opts) x \<and> \<not> node_to_inline ns opts (fvalue x)"
    using FNode by auto
  have "trimmed_at amb opts v (concat (map (inlined_into ns opts) cs))"
    by (rule trimmed_at_change[of _ _ _ cs]) (use FNode.prems in auto)
  moreover have "no_inlined ns opts (concat (map (inlined_into ns opts) cs))" using I by (auto simp: no_inlined_def list_all_iff)
  moreover have "trimmed_at amb opts v cs" using FNode.prems by simp
  then have "\<not> is_nt (fst v) \<longrightarrow> trimmed_at amb opts v []" by (auto simp: trimmed_at_def)
  ultimately show ?case using I by (auto simp: node_to_inline_def no_inlined_def)
qed

lemma inline_nodes_ok:
  assumes "all_nodes (trimmed_at amb opts) t" "inline_forest_tree_nodes ns opts (Some t) = Some y"
  shows "all_nodes (inlined_at amb ns opts) y"
proof (cases t)
  case (FNode v cs)
  have I: "\<forall>x \<in> set (concat (map (inlined_into ns opts) cs)). all_nodes (inlined_at amb ns opts) x \<and> \<not> node_to_inline ns opts (fvalue x)"
    using assms(1) inlined_into_ok FNode by fastforce
  have t: "trimmed_at amb opts v cs" using assms(1) FNode by simp
  then have "trimmed_at amb opts v (concat (map (inlined_into ns opts) cs))" by (rule trimmed_at_change) simp
  moreover have "no_inlined ns opts (concat (map (inlined_into ns opts) cs))" using I by (auto simp: no_inlined_def list_all_iff)
  moreover have "\<not> is_nt (fst v) \<longrightarrow> trimmed_at amb opts v []" using t by (auto simp: trimmed_at_def)
  ultimately show ?thesis using I assms(2) FNode
    by (auto simp: inline_forest_tree_nodes_def no_inlined_def split: if_splits)
qed

text \<open>A node of the tree: itself or below it, where nothing is to be inlined.\<close>

lemma path_hit_ok:
  "path_hit pa t = Some y \<Longrightarrow> all_nodes (inlined_at amb ns opts) t \<Longrightarrow>
    all_nodes (inlined_at amb ns opts) y \<and> (y = t \<or> \<not> node_to_inline ns opts (fvalue y))"
  "path_hits pa cs = Some y \<Longrightarrow> \<forall>c \<in> set cs. all_nodes (inlined_at amb ns opts) c \<Longrightarrow> no_inlined ns opts cs \<Longrightarrow>
    all_nodes (inlined_at amb ns opts) y \<and> \<not> node_to_inline ns opts (fvalue y)"
proof (induction pa t and pa cs arbitrary: y and y rule: path_hit_path_hits.induct)
  case (2 p pa t)
  then show ?case by (cases t) (auto split: if_splits)
next
  case (4 pa c cs)
  then show ?case by (fastforce simp: no_inlined_def split: option.splits)
qed simp_all

lemma first_hit_ok:
  "first_hit pas t = Some y \<Longrightarrow> all_nodes (inlined_at amb ns opts) t \<Longrightarrow>
    all_nodes (inlined_at amb ns opts) y \<and> (y = t \<or> \<not> node_to_inline ns opts (fvalue y))"
  by (induction pas) (auto dest: path_hit_ok(1) split: if_splits option.splits)

lemma inline_paths_ok:
  "all_nodes (inlined_at amb ns opts) t \<Longrightarrow> inline_forest_tree_paths opts t = Some y \<Longrightarrow>
    all_nodes (inlined_at amb ns opts) y \<and> (node_to_inline ns opts (fvalue y) \<longrightarrow> node_to_inline ns opts (fvalue t))"
proof (induction opts t arbitrary: y rule: inline_forest_tree_paths.induct)
  case (1 opts t)
  obtain v cs where t: "t = FNode v cs" by (cases t)
  have tr: "trimmed_at amb opts v cs" and no: "no_inlined ns opts cs" and cs: "\<forall>c \<in> set cs. all_nodes (inlined_at amb ns opts) c"
    using 1(3) t by simp_all
  consider "\<not> is_nt (fst v)" | hit where "is_nt (fst v)" "first_hit (to_inline opts) t = Some hit"
    | "is_nt (fst v)" "first_hit (to_inline opts) t = None" by fastforce
  then show ?case
  proof cases
    case 1
    then show ?thesis using \<open>inline_forest_tree_paths opts t = Some y\<close> tr t
      by (subst (asm) inline_forest_tree_paths.simps) (auto simp: trimmed_at_def no_inlined_def split: if_splits)
  next
    case (2 hit)
    have "fst v \<noteq> Null" using 2(1) by auto
    then have "inline_forest_tree_paths opts t = inline_forest_tree_paths opts hit"
      using 2 t by (subst inline_forest_tree_paths.simps) simp
    then have y: "inline_forest_tree_paths opts hit = Some y" using 1(4) by simp
    note h = first_hit_ok[OF 2(2) 1(3)]
    from 1(2)[OF _ _ 2(2) conjunct1[OF h] y] show ?thesis using h 2(1) t \<open>fst v \<noteq> Null\<close> by auto
  next
    case 3
    have n: "fst v \<noteq> Null" using 3(1) by auto
    let ?cs = "concat (map (\<lambda>c. pushed (inline_forest_tree_paths opts c)) cs)"
    have y: "y = FNode v ?cs" using 1(4) 3 t n by (subst (asm) inline_forest_tree_paths.simps) simp
    have I: "\<forall>x \<in> set ?cs. all_nodes (inlined_at amb ns opts) x \<and> \<not> node_to_inline ns opts (fvalue x)"
    proof
      fix x assume "x \<in> set ?cs"
      then obtain c where c: "c \<in> set cs" "inline_forest_tree_paths opts c = Some x"
        by (auto simp: pushed_def split: option.splits)
      then show "all_nodes (inlined_at amb ns opts) x \<and> \<not> node_to_inline ns opts (fvalue x)"
        using 1(1)[of c x] 3 t n cs no by (auto simp: no_inlined_def list_all_iff)
    qed
    have "trimmed_at amb opts v ?cs" by (rule trimmed_at_change[OF tr]) simp
    then show ?thesis using I y t by (auto simp: no_inlined_def list_all_iff)
  qed
qed

lemma trim_terminals_ok:
  "all_nodes (inlined_at amb ns opts) t \<Longrightarrow>
    all_nodes (\<lambda>v cs. inlined_at amb ns opts v cs \<and> terminals_kept opts v cs) (trim_forest_tree_child_terminals opts t) \<and>
    fvalue (trim_forest_tree_child_terminals opts t) = fvalue t"
proof (induction t)
  case (FNode v cs)
  let ?ds = "filter (\<lambda>c. is_nt (fst (fvalue c)) \<or> fst (fvalue c) = Null \<or> \<not> trims_terminals opts (lit_n (fst v))) cs"
  let ?cs = "map (trim_forest_tree_child_terminals opts) ?ds"
  have I: "all_nodes (\<lambda>v cs. inlined_at amb ns opts v cs \<and> terminals_kept opts v cs) (trim_forest_tree_child_terminals opts c)"
    "fvalue (trim_forest_tree_child_terminals opts c) = fvalue c" if "c \<in> set cs" for c
    using FNode.IH[OF that] FNode.prems that by auto
  have tr: "trimmed_at amb opts v cs" using FNode.prems by simp
  show ?case
  proof (cases "is_nt (fst v)")
    case True
    have "trimmed_at amb opts v ?cs" by (rule trimmed_at_change[OF tr]) simp
    moreover have "no_inlined ns opts ?cs" using FNode.prems I(2) by (auto simp: no_inlined_def list_all_iff)
    moreover have "fst (fvalue c) \<noteq> Null" if "c \<in> set cs" for c
      using FNode.prems that by (cases c) (auto simp: trimmed_at_def)
    then have "terminals_kept opts v ?cs" using I(2) by (auto simp: terminals_kept_def list_all_iff)
    ultimately show ?thesis using True I(1) by simp
  next
    case False
    then show ?thesis using tr FNode.prems by (auto simp: trimmed_at_def terminals_kept_def)
  qed
qed

text \<open>C15: A shaped tree has what the options leave in it: for every forest, node and options, no node of the
  tree is null or a node to trim, a node whose children are trimmed is a leaf, as is every terminal, no
  node below the root is one to inline, and a node whose terminals are trimmed has no terminal as a child.
  The node that marks an ambiguity is exempt from trimming.\<close>

theorem shaped_tree_respects_options:
  assumes "is_nt amb" "get_shaped_forest_tree fuel g ns amb opts n = Some (Some t)"
  shows "all_nodes (\<lambda>v cs. trimmed_at amb opts v cs \<and> no_inlined ns opts cs \<and> terminals_kept opts v cs) t"
proof -
  obtain t1 t2 t3 where t: "get_trimmed_forest_tree fuel g amb opts n = Some (Some t1)"
    "inline_forest_tree_nodes ns opts (Some t1) = Some t2" "inline_forest_tree_paths opts t2 = Some t3"
    "t = trim_forest_tree_child_terminals opts t3"
    using assms(2)
    by (auto simp: get_shaped_forest_tree_def inline_forest_tree_def inline_forest_tree_nodes_def split: Option.bind_splits option.splits)
  note 1 = get_trimmed_ok[OF assms(1) t(1)]
  note 2 = inline_nodes_ok[OF 1 t(2)]
  from trim_terminals_ok[OF conjunct1[OF inline_paths_ok[OF 2 t(3)]]] show ?thesis by (simp add: t(4) conj_assoc)
qed

text \<open>A list of digits in two nested nonterminals; the inner one is inlined.\<close>

definition no_shaping :: shaping_options where
  "no_shaping = \<lparr>to_trim = {}, to_trim_children = {}, to_trim_children_terminals = {}, trim_terminals = False,
     dont_trim_terminals_of = {}, to_inline = [], inline_char_classes = False\<rparr>"

definition digits_graph :: "nat node_graph" where
  "digits_graph = [((Nt 0, 0, 2), [[(Nt 1, 0, 1), (Tm 6, 1, 2)]]), ((Nt 1, 0, 1), [[(Tm 5, 0, 1)]])]"

lemma digits_shaped:
  "get_shaped_forest_tree 3 digits_graph [''s'', ''a'', ''__AMB__''] (Nt 2) (no_shaping\<lparr>to_inline := [[1]]\<rparr>) (Nt 0, 0, 2) =
    Some (Some (FNode (Nt 0, 0, 2) [FNode (Tm 5, 0, 1) [], FNode (Tm 6, 1, 2) []]))"
  by code_simp

theorem shaped_tree_respects_options_witness:
  "all_nodes (\<lambda>v cs. trimmed_at (Nt 2) (no_shaping\<lparr>to_inline := [[1]]\<rparr>) v cs \<and>
      no_inlined [''s'', ''a'', ''__AMB__''] (no_shaping\<lparr>to_inline := [[1]]\<rparr>) cs \<and>
      terminals_kept (no_shaping\<lparr>to_inline := [[1]]\<rparr>) v cs)
    (FNode (Nt 0, 0, 2) [FNode (Tm (5::nat), 0, 1) [], FNode (Tm 6, 1, 2) []])"
  by (rule shaped_tree_respects_options[OF _ digits_shaped]) simp

section \<open>Inlining keeps the terminals\<close>

fun tree_terminals :: "'t ftree \<Rightarrow> 't list" where
  "tree_terminals (FNode v cs) =
     (case fst v of Nt _ \<Rightarrow> concat (map tree_terminals cs) | Null \<Rightarrow> [] | Tm x \<Rightarrow> [x])"

lemma inlined_into_terminals: "concat (map tree_terminals (inlined_into ns opts t)) = tree_terminals t"
proof (induction t)
  case (FNode v cs)
  have "concat (map tree_terminals (concat (map (inlined_into ns opts) cs))) = concat (map tree_terminals cs)"
    using FNode by (induction cs) auto
  then show ?case by (cases "fst v") auto
qed

text \<open>Inlining nodes keeps the terminals of the tree in their order; a null node is the only
  one that has no tree afterwards.\<close>

theorem inlining_keeps_terminals:
  "(case inline_forest_tree_nodes ns opts (Some t) of None \<Rightarrow> [] | Some y \<Rightarrow> tree_terminals y) = tree_terminals t"
proof (cases t)
  case (FNode v cs)
  have "concat (map tree_terminals (concat (map (inlined_into ns opts) cs))) = concat (map tree_terminals cs)"
    by (induction cs) (simp_all add: inlined_into_terminals)
  then show ?thesis using FNode by (cases "fst v") (auto simp: inline_forest_tree_nodes_def)
qed

text \<open>An ambiguous node: 1 has the alternatives \<open>5\<close> and \<open>6 6\<close>.\<close>

definition ambiguous_graph :: "nat node_graph" where
  "ambiguous_graph = [((Nt 0, 0, 2), [[(Nt 1, 0, 2)]]),
     ((Nt 1, 0, 2), [[(Tm 5, 0, 2)], [(Tm 6, 0, 1), (Tm 6, 1, 2)]])]"

section \<open>Trimming returns when there is no cycle\<close>

definition entries_below :: "'t node_graph \<Rightarrow> 't pnode \<Rightarrow> 't pnode set" where
  "entries_below g n = {k \<in> fst ` set g. (k, n) \<in> (child_of g)\<^sup>*}"

lemma entries_below_kid:
  assumes "n \<in> Wellfounded.acc (child_of g)" "c \<in> kids g n" "n \<in> fst ` set g"
  shows "card (entries_below g c) < card (entries_below g n)"
proof (rule psubset_card_mono)
  have cn: "(c, n) \<in> child_of g" using assms(2) by (simp add: child_of_def)
  have "(n, c) \<notin> (child_of g)\<^sup>*" using acc_no_cycle[OF assms(1)] cn by (meson rtrancl_into_trancl1)
  then show "entries_below g c \<subset> entries_below g n"
    using assms(3) cn unfolding entries_below_def by (auto intro: rtrancl_into_rtrancl)
qed (simp add: entries_below_def)

lemma trimmed_children_total:
  "(\<forall>c \<in> set cs. rec c \<noteq> None) \<Longrightarrow> trimmed_children rec opts n cs \<noteq> None"
  by (induction cs) auto

lemma trimmed_packs_total:
  "(\<forall>p \<in> set qs. \<forall>c \<in> set p. rec c \<noteq> None) \<Longrightarrow> trimmed_packs rec opts n qs \<noteq> None"
proof (induction qs)
  case (Cons q qs)
  then show ?case using trimmed_children_total[of q rec opts n] by auto
qed simp

lemma get_trimmed_total:
  "n \<in> Wellfounded.acc (child_of g) \<Longrightarrow> card (entries_below g n) < fuel \<Longrightarrow> get_trimmed_forest_tree fuel g amb opts n \<noteq> None"
proof (induction arbitrary: fuel rule: acc_induct_rule)
  case (1 n)
  then obtain f where f: "fuel = Suc f" by (cases fuel) auto
  show ?case
  proof (cases "is_nt (fst n) \<and> map_of g n \<noteq> None")
    case True
    then obtain packs where p: "map_of g n = Some packs" by blast
    note n = 1(1)
    have "get_trimmed_forest_tree f g amb opts c \<noteq> None" if "q \<in> set packs" "c \<in> set q" for q c
    proof (rule 1(2))
      have c: "c \<in> kids g n" using that True p by (auto simp: kids_def packs_at_def)
      then show "(c, n) \<in> child_of g" by (simp add: child_of_def)
      have "n \<in> fst ` set g" using p by (metis domI dom_map_of_conv_image_fst)
      from entries_below_kid[OF n c this] show "card (entries_below g c) < f" using 1(3) f by simp
    qed
    then have "trimmed_packs (get_trimmed_forest_tree f g amb opts) opts n packs \<noteq> None"
      by (intro trimmed_packs_total) blast
    then show ?thesis using f p by auto
  qed (use f in \<open>auto split: option.splits\<close>)
qed

text \<open>Shaping returns for every node under which \<open>detect_cycle\<close> finds no cycle, with fuel for as many
  calls as the graph has entries.\<close>

theorem shaping_returns:
  assumes "detect_cycle F g n = Some (ret, {})" "card (fst ` set g) < F" "card (fst ` set g) < fuel"
  shows "\<exists>t. get_shaped_forest_tree fuel g ns amb opts n = Some t"
proof -
  have "card (entries_below g n) \<le> card (fst ` set g)" by (intro card_mono) (auto simp: entries_below_def)
  then have "get_trimmed_forest_tree fuel g amb opts n \<noteq> None"
    using get_trimmed_total[OF detect_cycle_acc[OF assms(2,1)]] assms(3) by simp
  then show ?thesis by (auto simp: get_shaped_forest_tree_def)
qed

theorem shaping_returns_witness:
  "\<exists>t. get_shaped_forest_tree 3 digits_graph [''s'', ''a'', ''__AMB__''] (Nt 2) no_shaping (Nt 0, 0, 2) = Some t"
proof -
  have "detect_cycle 3 digits_graph (Nt 0, 0, 2) = Some (True, {})" by code_simp
  then show ?thesis by (rule shaping_returns) (simp_all add: digits_graph_def)
qed

text \<open>The recursion keeps no record of the nodes it is in: on a node that is among its own children no
  number of calls is enough. Here \<open>s => s | 5\<close>, whose forest has the pack \<open>s\<close> at the node \<open>s\<close>.\<close>

definition cyclic_graph :: "nat node_graph" where
  "cyclic_graph = [((Nt 0, 0, 1), [[(Tm 5, 0, 1)], [(Nt 0, 0, 1)]])]"

theorem cyclic_shaping_diverges:
  "get_shaped_forest_tree fuel cyclic_graph [''s'', ''__AMB__''] (Nt 1) no_shaping (Nt 0, 0, 1) = None"
proof -
  have "get_trimmed_forest_tree fuel cyclic_graph (Nt 1) no_shaping (Nt 0, 0, 1) = None"
  proof (induction fuel)
    case (Suc fuel)
    then show ?case
      by (cases "get_trimmed_forest_tree fuel cyclic_graph (Nt 1) no_shaping (Tm 5, 0, 1)")
        (simp_all add: cyclic_graph_def trimmable_node_def trimmable_child_def no_shaping_def)
  qed simp
  then show ?thesis by (simp add: get_shaped_forest_tree_def)
qed

end
