(* ===== verification/TreeShape.thy ===== *)
theory TreeShape
  imports Shape TreeApply
begin

text \<open>
  The shaping of the interned trees in \<open>src/src/get_shaped_tree2.tmpl.h\<close>: trimming, inlining of nodes and
  of paths, trimming of terminals, on references of the store. The recursions take fuel for their depth; more
  than the size of the tree is enough. The result is compared with the shaping of shared trees in \<open>Shape\<close>.
\<close>

section \<open>The operations\<close>

text \<open>What creates nodes: the allocator, the hash of the values, the hooks.\<close>

record 'v tree_env =
  te_al :: alloc
  te_vh :: "'v \<Rightarrow> u64"
  te_hooks :: "'v hooks"

abbreviation value_at :: "'v store \<Rightarrow> nat \<Rightarrow> 'v" where
  "value_at s a \<equiv> n_value (node_at (st_M s) a)"

abbreviation make :: "'v tree_env \<Rightarrow> 'v \<Rightarrow> nat list \<Rightarrow> 'v store \<Rightarrow> tref \<times> 'v store" where
  "make e v ch s \<equiv> tree_get (te_al e) (te_vh e) (te_hooks e) v ch None s"

text \<open>A loop over children that pushes what it gets for a child unless it is null.\<close>

fun each_child :: "(nat \<Rightarrow> 'v store \<Rightarrow> (tref \<times> 'v store) option) \<Rightarrow> nat list \<Rightarrow> 'v store \<Rightarrow> (nat list \<times> 'v store) option" where
  "each_child f [] s = Some ([], s)"
| "each_child f (c # cs) s =
     Option.bind (f c s) (\<lambda>(x, s). Option.bind (each_child f cs s) (\<lambda>(xs, s). Some (pushed x @ xs, s)))"

fun get_trimmed_bintree ::
  "nat \<Rightarrow> 't pnode tree_env \<Rightarrow> shaping_options \<Rightarrow> tref \<Rightarrow> 't pnode store \<Rightarrow> (tref \<times> 't pnode store) option" where
  "get_trimmed_bintree 0 e opts n s = None"
| "get_trimmed_bintree (Suc fuel) e opts n s =
     (case n of None \<Rightarrow> Some (None, s)
      | Some a \<Rightarrow>
          let v = value_at s a in
          if fst v = Null \<or> trimmable_node opts v then Some (None, s)
          else if \<not> is_nt (fst v) then Some (Some a, s)
          else
            Option.bind (children (st_M s) a) (\<lambda>cs.
              Option.bind
                (each_child (\<lambda>c s. if trimmable_child opts v (value_at s c) then Some (None, s)
                                   else get_trimmed_bintree fuel e opts (Some c) s) cs s)
                (\<lambda>(ch, s). Some (make e v ch s))))"

text \<open>The children that \<open>inliner\<close> collects. Those of the ambiguity node stay.\<close>

definition spliced :: "names \<Rightarrow> shaping_options \<Rightarrow> 't pnode store \<Rightarrow> nat list \<Rightarrow> nat list" where
  "spliced ns opts s cs =
     concat (map (\<lambda>c. if node_to_inline ns opts (value_at s c) then the (children (st_M s) c) else [c]) cs)"

definition inliner :: "'t pnode tree_env \<Rightarrow> names \<Rightarrow> shaping_options \<Rightarrow> 't lit \<Rightarrow> 't pnode callback" where
  "inliner e ns opts amb a par s =
     (if is_nt (fst (value_at s a)) \<and> fst (value_at s a) = amb then (Some a, s)
      else
        (let cs = the (children (st_M s) a) in
         if \<not> list_ex (\<lambda>c. node_to_inline ns opts (value_at s c)) cs then (Some a, s)
         else make e (value_at s a) (spliced ns opts s cs) s))"

definition inline_bintree_nodes ::
  "'t pnode tree_env \<Rightarrow> names \<Rightarrow> 't lit \<Rightarrow> shaping_options \<Rightarrow> tref \<Rightarrow> 't pnode store \<Rightarrow> (tref \<times> 't pnode store) option" where
  "inline_bintree_nodes e ns amb opts n s =
     (case n of None \<Rightarrow> Some (None, s)
      | Some a \<Rightarrow>
          map_option (\<lambda>(r, m, s). (r, s))
            (apply_unique \<lparr>rw_al = te_al e, rw_vh = te_vh e, rw_hooks = te_hooks e, rw_slot = 0,
               rw_f = inliner e ns opts amb, rw_subtree = (\<lambda>_ _ _. True)\<rparr> a [] s))"

text \<open>The lambda \<open>go\<close> on references.\<close>

fun bin_hit :: "nat list \<Rightarrow> 't pnode nodes \<Rightarrow> nat \<Rightarrow> tref option"
and bin_hits :: "nat list \<Rightarrow> 't pnode nodes \<Rightarrow> nat list \<Rightarrow> tref option" where
  "bin_hit [] M a = Some None"
| "bin_hit (p # pa) M a =
     (let l = fst (n_value (node_at M a)) in
      if \<not> is_nt l \<or> lit_n l \<noteq> p then Some None
      else if pa = [] then Some (Some a)
      else Option.bind (children M a) (bin_hits pa M))"
| "bin_hits pa M [] = Some None"
| "bin_hits pa M (c # cs) =
     Option.bind (bin_hit pa M c) (\<lambda>y. case y of Some b \<Rightarrow> Some (Some b) | None \<Rightarrow> bin_hits pa M cs)"

fun first_bin_hit :: "nat list list \<Rightarrow> 't pnode nodes \<Rightarrow> nat \<Rightarrow> tref option" where
  "first_bin_hit [] M a = Some None"
| "first_bin_hit (pa # pas) M a =
     (if length pa < 2 then first_bin_hit pas M a
      else Option.bind (bin_hit pa M a) (\<lambda>y. case y of Some b \<Rightarrow> Some (Some b) | None \<Rightarrow> first_bin_hit pas M a))"

fun inline_bintree_paths ::
  "nat \<Rightarrow> 't pnode tree_env \<Rightarrow> shaping_options \<Rightarrow> tref \<Rightarrow> 't pnode store \<Rightarrow> (tref \<times> 't pnode store) option" where
  "inline_bintree_paths 0 e opts n s = None"
| "inline_bintree_paths (Suc fuel) e opts n s =
     (case n of None \<Rightarrow> Some (None, s)
      | Some a \<Rightarrow>
          let v = value_at s a in
          if fst v = Null then Some (None, s)
          else if \<not> is_nt (fst v) then Some (make e v [] s)
          else
            Option.bind (first_bin_hit (to_inline opts) (st_M s) a) (\<lambda>hit.
              if hit \<noteq> None then inline_bintree_paths fuel e opts hit s
              else
                Option.bind (children (st_M s) a) (\<lambda>cs.
                  Option.bind (each_child (\<lambda>c s. inline_bintree_paths fuel e opts (Some c) s) cs s)
                    (\<lambda>(ch, s). Some (make e v ch s)))))"

fun trim_bintree_child_terminals ::
  "nat \<Rightarrow> 't pnode tree_env \<Rightarrow> shaping_options \<Rightarrow> tref \<Rightarrow> 't pnode store \<Rightarrow> (tref \<times> 't pnode store) option" where
  "trim_bintree_child_terminals 0 e opts n s = None"
| "trim_bintree_child_terminals (Suc fuel) e opts n s =
     (case n of None \<Rightarrow> Some (None, s)
      | Some a \<Rightarrow>
          let v = value_at s a in
          if \<not> is_nt (fst v) then Some (Some a, s)
          else
            Option.bind (children (st_M s) a) (\<lambda>cs.
              Option.bind
                (each_child
                  (\<lambda>c s. if is_nt (fst (value_at s c)) \<or> fst (value_at s c) = Null \<or> \<not> trims_terminals opts (lit_n (fst v))
                         then trim_bintree_child_terminals fuel e opts (Some c) s else Some (None, s)) cs s)
                (\<lambda>(ch, s). Some (make e v ch s))))"

definition inline_bintree ::
  "nat \<Rightarrow> 't pnode tree_env \<Rightarrow> names \<Rightarrow> 't lit \<Rightarrow> shaping_options \<Rightarrow> tref \<Rightarrow> 't pnode store \<Rightarrow> (tref \<times> 't pnode store) option" where
  "inline_bintree fuel e ns amb opts n s =
     Option.bind (inline_bintree_nodes e ns amb opts n s) (\<lambda>(n, s). inline_bintree_paths fuel e opts n s)"

definition shape_tree2_impl ::
  "nat \<Rightarrow> 't pnode tree_env \<Rightarrow> names \<Rightarrow> 't lit \<Rightarrow> shaping_options \<Rightarrow> tref \<Rightarrow> 't pnode store \<Rightarrow> (tref \<times> 't pnode store) option" where
  "shape_tree2_impl fuel e ns amb opts n s =
     Option.bind (get_trimmed_bintree fuel e opts n s) (\<lambda>(n, s).
     Option.bind (inline_bintree_nodes e ns amb opts n s) (\<lambda>(n, s).
     Option.bind (inline_bintree_paths fuel e opts n s) (\<lambda>(n, s).
     trim_bintree_child_terminals fuel e opts n s)))"

section \<open>On trees\<close>

text \<open>A subtree of the store as a tree with lists of children.\<close>

fun roses :: "'t pnode bt \<Rightarrow> 't ftree list" where
  "roses Nil = []"
| "roses (Bt v l r) = FNode v (roses l) # roses r"

definition rose :: "'t pnode \<times> 't pnode bt \<Rightarrow> 't ftree" where
  "rose x = FNode (fst x) (roses (snd x))"

abbreviation tree_of :: "'t pnode store \<Rightarrow> nat \<Rightarrow> 't ftree" where
  "tree_of s a \<equiv> rose (subtree (st_M s) a)"

fun trim_tree :: "shaping_options \<Rightarrow> 't ftree \<Rightarrow> 't ftree option" where
  "trim_tree opts (FNode v cs) =
     (if fst v = Null \<or> trimmable_node opts v then None
      else if \<not> is_nt (fst v) then Some (FNode v cs)
      else Some (FNode v (concat (map (\<lambda>c. if trimmable_child opts v (fvalue c) then [] else pushed (trim_tree opts c)) cs))))"

fun inline_tree :: "names \<Rightarrow> 't lit \<Rightarrow> shaping_options \<Rightarrow> 't ftree \<Rightarrow> 't ftree" where
  "inline_tree ns amb opts (FNode v cs) =
     FNode v (concat (map
       (\<lambda>d. if \<not> (is_nt (fst v) \<and> fst v = amb) \<and> node_to_inline ns opts (fvalue d) then fchild d else [d])
       (map (inline_tree ns amb opts) cs)))"

definition shape_tree :: "names \<Rightarrow> 't lit \<Rightarrow> shaping_options \<Rightarrow> 't ftree \<Rightarrow> 't ftree option" where
  "shape_tree ns amb opts t =
     Option.bind (trim_tree opts t) (\<lambda>t.
       map_option (trim_forest_tree_child_terminals opts) (inline_forest_tree_paths opts (inline_tree ns amb opts t)))"

section \<open>References as trees\<close>

lemma rose_simps [simp]: "fvalue (rose x) = fst x" "fchild (rose x) = roses (snd x)"
  by (simp_all add: rose_def)

lemma roses_items: "roses t = map rose (items t)"
  by (induction t) (simp_all add: rose_def)

lemma tree_of_node:
  assumes "wf_store vh s" "Some a \<in> refs (st_M s)"
  shows "\<exists>cs. children (st_M s) a = Some cs \<and> Some ` set cs \<subseteq> refs (st_M s) \<and> tree_of s a = FNode (value_at s a) (map (tree_of s) cs)"
proof -
  note w = wf_store_nodes[OF assms(1)]
  obtain cs where cs: "children (st_M s) a = Some cs" "Some ` set cs \<subseteq> refs (st_M s)"
    "map (subtree (st_M s)) cs = items (bt_l (den (st_M s) (Some a)))" using children_ok[OF w assms(2)] by blast
  then have "tree_of s a = FNode (value_at s a) (map rose (map (subtree (st_M s)) cs))"
    using subtree_node[OF w assms(2)] by (simp add: rose_def roses_items subtree_def)
  then have "tree_of s a = FNode (value_at s a) (map (tree_of s) cs)" unfolding cs(3)[symmetric] by simp
  then show ?thesis using cs(1,2) by blast
qed

text \<open>The results of the operations: a reference to a tree in the grown store, or null.\<close>

definition shapes :: "('t pnode \<Rightarrow> u64) \<Rightarrow> 't pnode store \<Rightarrow> 't ftree option \<Rightarrow> tref \<Rightarrow> 't pnode store \<Rightarrow> bool" where
  "shapes vh s t x s' \<longleftrightarrow> grows vh s s' \<and>
     (case x of None \<Rightarrow> t = None | Some r \<Rightarrow> Some r \<in> refs (st_M s') \<and> t = Some (tree_of s' r))"

definition env_ok :: "'v tree_env \<Rightarrow> bool" where
  "env_ok e \<longleftrightarrow> fresh (te_al e) \<and> (\<not> use_hooks (te_hooks e) \<or> hook (te_hooks e) = None)"

lemma shapes_Some: "shapes vh s t (Some r) s' \<longleftrightarrow> grows vh s s' \<and> Some r \<in> refs (st_M s') \<and> t = Some (tree_of s' r)"
  by (simp add: shapes_def)

lemma shapes_None: "wf_store vh s \<Longrightarrow> shapes vh s None None s"
  by (simp add: shapes_def grown_refl)

lemma shapes_refl: "wf_store vh s \<Longrightarrow> Some a \<in> refs (st_M s) \<Longrightarrow> shapes vh s (Some (tree_of s a)) (Some a) s"
  by (simp add: shapes_def grown_refl)

lemma tree_of_grows: "grows vh s s' \<Longrightarrow> Some a \<in> refs (st_M s) \<Longrightarrow> tree_of s' a = tree_of s a"
  by (simp add: subtree_grows)

lemma make_ok:
  assumes e: "env_ok e" and s: "wf_store (te_vh e) s" and ds: "Some ` set ds \<subseteq> refs (st_M s)"
  shows "\<exists>q s'. make e v ds s = (Some q, s') \<and> shapes (te_vh e) s (Some (FNode v (map (tree_of s) ds))) (Some q) s'"
proof -
  obtain q s' where q: "get_raw (te_al e) (te_vh e) v ds None s = (q, s')" by fastforce
  have "fresh (te_al e)" "\<forall>c \<in> set ds. Some c \<in> refs (st_M s)" using e ds by (auto simp: env_ok_def)
  note g = get_raw_ok[OF this(1) s this(2) refs_None q]
  have "subtree (st_M s') q = (v, chain (map (subtree (st_M s)) ds) Nil)" using g by (simp add: subtree_def)
  then have "tree_of s' q = FNode v (map (tree_of s) ds)" by (simp add: rose_def roses_items o_def)
  moreover have "make e v ds s = (Some q, s')" using e q by (auto simp: tree_get_def env_ok_def)
  ultimately show ?thesis using g by (simp add: shapes_Some)
qed

lemma each_child_ok:
  assumes f: "\<And>c s1. c \<in> set cs \<Longrightarrow> grows vh s0 s1 \<Longrightarrow> \<exists>x s2. f c s1 = Some (x, s2) \<and> shapes vh s1 (P (tree_of s0 c)) x s2"
    and s: "grows vh s0 s"
  shows "\<exists>xs s'. each_child f cs s = Some (xs, s') \<and> grows vh s0 s' \<and> grows vh s s' \<and> Some ` set xs \<subseteq> refs (st_M s') \<and>
    map (tree_of s') xs = concat (map (\<lambda>c. pushed (P (tree_of s0 c))) cs)"
  using f s
proof (induction cs arbitrary: s)
  case Nil
  then show ?case using grown_refl[OF grows_wf] by simp
next
  case (Cons c cs)
  obtain x s2 where x: "f c s = Some (x, s2)" "shapes vh s (P (tree_of s0 c)) x s2" using Cons.prems by fastforce
  have g2: "grows vh s s2" using x(2) by (simp add: shapes_def)
  obtain xs s' where xs: "each_child f cs s2 = Some (xs, s')" "grows vh s0 s'" "grows vh s2 s'" "Some ` set xs \<subseteq> refs (st_M s')"
    "map (tree_of s') xs = concat (map (\<lambda>c. pushed (P (tree_of s0 c))) cs)"
    using Cons.IH[OF _ grown_trans[OF Cons.prems(2) g2]] Cons.prems(1) by (meson list.set_intros(2))
  have "Some ` set (pushed x) \<subseteq> refs (st_M s') \<and> map (tree_of s') (pushed x) = pushed (P (tree_of s0 c))"
    using x(2) grows_refs[OF xs(3)] tree_of_grows[OF xs(3)] by (cases x) (auto simp: shapes_def)
  then show ?case using x(1) xs grown_trans[OF g2 xs(3)] by (simp add: image_Un)
qed

lemma child_size: "c \<in> set cs \<Longrightarrow> size c < size (FNode v cs)"
  using size_list_estimation'[of c cs "size c" size] by simp

text \<open>The common shape of the recursive operations: the children are processed and the node is made anew.\<close>

lemma rebuild_node:
  assumes e: "env_ok e" and s: "wf_store (te_vh e) s" and a: "Some a \<in> refs (st_M s)"
    and f: "\<And>c s1. Some c \<in> refs (st_M s) \<Longrightarrow> size (tree_of s c) < size (tree_of s a) \<Longrightarrow> grows (te_vh e) s s1 \<Longrightarrow>
      tree_of s1 c = tree_of s c \<Longrightarrow> wf_store (te_vh e) s1 \<Longrightarrow> Some c \<in> refs (st_M s1) \<Longrightarrow>
      \<exists>x s2. f c s1 = Some (x, s2) \<and> shapes (te_vh e) s1 (P (tree_of s c)) x s2"
  shows "\<exists>x s'. Option.bind (children (st_M s) a) (\<lambda>cs. Option.bind (each_child f cs s) (\<lambda>(ch, s). Some (make e v ch s))) = Some (x, s') \<and>
    shapes (te_vh e) s (Some (FNode v (concat (map (\<lambda>c. pushed (P c)) (fchild (tree_of s a)))))) x s'"
proof -
  obtain cs where cs: "children (st_M s) a = Some cs" "Some ` set cs \<subseteq> refs (st_M s)"
    "tree_of s a = FNode (value_at s a) (map (tree_of s) cs)" using tree_of_node[OF s a] by blast
  have "\<exists>x s2. f c s1 = Some (x, s2) \<and> shapes (te_vh e) s1 (P (tree_of s c)) x s2" if "c \<in> set cs" "grows (te_vh e) s s1" for c s1
  proof (rule f[OF _ _ that(2)])
    show c: "Some c \<in> refs (st_M s)" using that(1) cs(2) by blast
    show "tree_of s1 c = tree_of s c" by (rule tree_of_grows[OF that(2) c])
    show "wf_store (te_vh e) s1" by (rule grows_wf[OF that(2)])
    show "Some c \<in> refs (st_M s1)" by (rule grows_refs[OF that(2) c])
    show "size (tree_of s c) < size (tree_of s a)" unfolding cs(3) by (rule child_size) (use that in simp)
  qed
  from each_child_ok[of cs _ s f P s, OF this grown_refl[OF s]] obtain xs s1 where
    xs: "each_child f cs s = Some (xs, s1)" "grows (te_vh e) s s1" "Some ` set xs \<subseteq> refs (st_M s1)"
      "map (tree_of s1) xs = concat (map (\<lambda>c. pushed (P (tree_of s c))) cs)" by auto
  from make_ok[OF e grows_wf[OF xs(2)] xs(3)] obtain q s' where q: "make e v xs s1 = (Some q, s')"
    "shapes (te_vh e) s1 (Some (FNode v (map (tree_of s1) xs))) (Some q) s'" by blast
  have "shapes (te_vh e) s (Some (FNode v (concat (map (\<lambda>c. pushed (P c)) (fchild (tree_of s a)))))) (Some q) s'"
    using q(2) grown_trans[OF xs(2)] by (simp add: shapes_Some cs(3) xs(4) o_def)
  then show ?thesis using cs(1) xs(1) q(1) by auto
qed

section \<open>The operations compute the functions on trees\<close>

lemma value_tree: "wf_store vh s \<Longrightarrow> Some a \<in> refs (st_M s) \<Longrightarrow> fst (subtree (st_M s) a) = value_at s a"
  using subtree_node[OF wf_store_nodes] by fastforce

lemma trim_tree_cases:
  "trim_tree opts t =
     (if fst (fvalue t) = Null \<or> trimmable_node opts (fvalue t) then None
      else if \<not> is_nt (fst (fvalue t)) then Some t
      else Some (FNode (fvalue t) (concat (map (\<lambda>c. pushed (if trimmable_child opts (fvalue t) (fvalue c) then None else trim_tree opts c)) (fchild t)))))"
  by (cases t) (auto intro!: arg_cong[of _ _ concat])

lemma get_trimmed_bintree_ok:
  assumes e: "env_ok e"
  shows "wf_store (te_vh e) s \<Longrightarrow> Some a \<in> refs (st_M s) \<Longrightarrow> size (tree_of s a) < fuel \<Longrightarrow>
    \<exists>x s'. get_trimmed_bintree fuel e opts (Some a) s = Some (x, s') \<and> shapes (te_vh e) s (trim_tree opts (tree_of s a)) x s'"
proof (induction fuel arbitrary: a s)
  case (Suc fuel)
  let ?v = "value_at s a"
  note v = value_tree[OF Suc.prems(1,2)]
  consider "fst ?v = Null \<or> trimmable_node opts ?v" | "\<not> (fst ?v = Null \<or> trimmable_node opts ?v)" "\<not> is_nt (fst ?v)"
    | "\<not> (fst ?v = Null \<or> trimmable_node opts ?v)" "is_nt (fst ?v)" by blast
  then show ?case
  proof cases
    case 1
    then show ?thesis using shapes_None[OF Suc.prems(1)] v by (subst trim_tree_cases) simp
  next
    case 2
    then show ?thesis using shapes_refl[OF Suc.prems(1,2)] v by (subst trim_tree_cases) simp
  next
    case 3
    let ?P = "\<lambda>c. if trimmable_child opts ?v (fvalue c) then None else trim_tree opts c"
    let ?f = "\<lambda>c s. if trimmable_child opts ?v (value_at s c) then Some (None, s) else get_trimmed_bintree fuel e opts (Some c) s"
    have "\<exists>x s2. ?f c s1 = Some (x, s2) \<and> shapes (te_vh e) s1 (?P (tree_of s c)) x s2"
      if "size (tree_of s c) < size (tree_of s a)" "tree_of s1 c = tree_of s c" "wf_store (te_vh e) s1" "Some c \<in> refs (st_M s1)" for c s1
    proof -
      have "fvalue (tree_of s1 c) = value_at s1 c" using value_tree[OF that(3,4)] by simp
      then have "fvalue (tree_of s c) = value_at s1 c" using that(2) by simp
      then show ?thesis using Suc.IH[OF that(3,4)] that Suc.prems(3) shapes_None[OF that(3)] by auto
    qed
    then show ?thesis
      using rebuild_node[OF e Suc.prems(1,2), of ?f ?P ?v] 3 v by (subst trim_tree_cases) (simp add: Let_def)
  qed
qed simp

lemma trim_terminals_cases:
  "trim_forest_tree_child_terminals opts t =
     (if \<not> is_nt (fst (fvalue t)) then t
      else FNode (fvalue t) (concat (map (\<lambda>c. pushed
        (if is_nt (fst (fvalue c)) \<or> fst (fvalue c) = Null \<or> \<not> trims_terminals opts (lit_n (fst (fvalue t)))
         then Some (trim_forest_tree_child_terminals opts c) else None)) (fchild t))))"
proof (cases t)
  case (FNode v cs)
  have "map g (filter Q cs) = concat (map (\<lambda>c. pushed (if Q c then Some (g c) else None)) cs)" for g :: "'a ftree \<Rightarrow> 'a ftree" and Q
    by (induction cs) auto
  then show ?thesis using FNode by simp
qed

lemma trim_bintree_terminals_ok:
  assumes e: "env_ok e"
  shows "wf_store (te_vh e) s \<Longrightarrow> Some a \<in> refs (st_M s) \<Longrightarrow> size (tree_of s a) < fuel \<Longrightarrow>
    \<exists>x s'. trim_bintree_child_terminals fuel e opts (Some a) s = Some (x, s') \<and>
      shapes (te_vh e) s (Some (trim_forest_tree_child_terminals opts (tree_of s a))) x s'"
proof (induction fuel arbitrary: a s)
  case (Suc fuel)
  let ?v = "value_at s a"
  note v = value_tree[OF Suc.prems(1,2)]
  show ?case
  proof (cases "is_nt (fst ?v)")
    case False
    then show ?thesis using shapes_refl[OF Suc.prems(1,2)] v by (subst trim_terminals_cases) simp
  next
    case True
    let ?Q = "\<lambda>w. is_nt (fst w) \<or> fst w = Null \<or> \<not> trims_terminals opts (lit_n (fst ?v))"
    let ?P = "\<lambda>c. if ?Q (fvalue c) then Some (trim_forest_tree_child_terminals opts c) else None"
    let ?f = "\<lambda>c s. if ?Q (value_at s c) then trim_bintree_child_terminals fuel e opts (Some c) s else Some (None, s)"
    have "\<exists>x s2. ?f c s1 = Some (x, s2) \<and> shapes (te_vh e) s1 (?P (tree_of s c)) x s2"
      if "size (tree_of s c) < size (tree_of s a)" "tree_of s1 c = tree_of s c" "wf_store (te_vh e) s1" "Some c \<in> refs (st_M s1)" for c s1
    proof -
      have "fvalue (tree_of s1 c) = value_at s1 c" using value_tree[OF that(3,4)] by simp
      then have "fvalue (tree_of s c) = value_at s1 c" using that(2) by simp
      then show ?thesis using Suc.IH[OF that(3,4)] that Suc.prems(3) shapes_None[OF that(3)] by auto
    qed
    then show ?thesis
      using rebuild_node[OF e Suc.prems(1,2), of ?f ?P ?v] True v by (subst trim_terminals_cases) (simp add: Let_def)
  qed
qed simp

text \<open>The search for a path.\<close>

definition hits :: "'t pnode store \<Rightarrow> 't ftree option \<Rightarrow> tref \<Rightarrow> bool" where
  "hits s t x \<longleftrightarrow> x \<in> refs (st_M s) \<and> t = map_option (tree_of s) x"

lemma bin_hit_ok:
  assumes w: "wf_store vh s"
  shows "Some a \<in> refs (st_M s) \<Longrightarrow> \<exists>x. bin_hit pa (st_M s) a = Some x \<and> hits s (path_hit pa (tree_of s a)) x"
    and "Some ` set cs \<subseteq> refs (st_M s) \<Longrightarrow> \<exists>x. bin_hits pa (st_M s) cs = Some x \<and> hits s (path_hits pa (map (tree_of s) cs)) x"
proof (induction pa "st_M s" a and pa "st_M s" cs rule: bin_hit_bin_hits.induct)
  case (2 p pa a)
  let ?l = "fst (value_at s a)"
  obtain cs where cs: "children (st_M s) a = Some cs" "Some ` set cs \<subseteq> refs (st_M s)" "tree_of s a = FNode (value_at s a) (map (tree_of s) cs)"
    using tree_of_node[OF w 2(2)] by blast
  consider "\<not> is_nt ?l \<or> lit_n ?l \<noteq> p" | "is_nt ?l" "lit_n ?l = p" "pa = []" | "is_nt ?l" "lit_n ?l = p" "pa \<noteq> []" by blast
  then show ?case
  proof cases
    case 1
    then show ?thesis using cs(3) by (auto simp: hits_def Let_def)
  next
    case 2
    then show ?thesis using \<open>Some a \<in> refs (st_M s)\<close> cs(3) by (simp add: hits_def Let_def)
  next
    case 3
    then show ?thesis using 2(1)[OF refl _ _ cs(1,2)] cs by (simp add: Let_def)
  qed
next
  case (4 pa c cs)
  then obtain x where x: "bin_hit pa (st_M s) c = Some x" "hits s (path_hit pa (tree_of s c)) x" by auto
  show ?case
  proof (cases x)
    case None
    then show ?thesis using 4(2)[OF x(1)] 4(3) x by (simp add: hits_def)
  qed (use x in \<open>simp add: hits_def\<close>)
qed (simp_all add: hits_def)

lemma first_bin_hit_ok:
  assumes "wf_store vh s" "Some a \<in> refs (st_M s)"
  shows "\<exists>x. first_bin_hit pas (st_M s) a = Some x \<and> hits s (first_hit pas (tree_of s a)) x"
proof (induction pas)
  case (Cons pa pas)
  obtain x where x: "bin_hit pa (st_M s) a = Some x" "hits s (path_hit pa (tree_of s a)) x"
    using bin_hit_ok(1)[OF assms] by blast
  then show ?case using Cons by (cases x) (auto simp: hits_def)
qed (simp add: hits_def)

lemma inline_bintree_paths_ok:
  assumes e: "env_ok e"
  shows "wf_store (te_vh e) s \<Longrightarrow> Some a \<in> refs (st_M s) \<Longrightarrow> size (tree_of s a) < fuel \<Longrightarrow>
    \<exists>x s'. inline_bintree_paths fuel e opts (Some a) s = Some (x, s') \<and>
      shapes (te_vh e) s (inline_forest_tree_paths opts (tree_of s a)) x s'"
proof (induction fuel arbitrary: a s)
  case (Suc fuel)
  let ?v = "value_at s a" and ?t = "tree_of s a"
  note v = value_tree[OF Suc.prems(1,2)]
  obtain hit where h: "first_bin_hit (to_inline opts) (st_M s) a = Some hit" "hits s (first_hit (to_inline opts) ?t) hit"
    using first_bin_hit_ok[OF Suc.prems(1,2)] by blast
  consider "fst ?v = Null" | "fst ?v \<noteq> Null" "\<not> is_nt (fst ?v)" | b where "fst ?v \<noteq> Null" "is_nt (fst ?v)" "hit = Some b"
    | "fst ?v \<noteq> Null" "is_nt (fst ?v)" "hit = None" by fastforce
  then show ?case
  proof cases
    case 1
    then show ?thesis using shapes_None[OF Suc.prems(1)] v by (subst inline_forest_tree_paths.simps) simp
  next
    case 2
    then show ?thesis using make_ok[OF e Suc.prems(1), of "[]" ?v] v
      by (subst inline_forest_tree_paths.simps) (auto simp: Let_def)
  next
    case (3 b)
    then have b: "Some b \<in> refs (st_M s)" "first_hit (to_inline opts) ?t = Some (tree_of s b)" using h(2) by (simp_all add: hits_def)
    have "size (tree_of s b) < fuel" using first_hit_size[OF b(2)] Suc.prems(3) by simp
    from Suc.IH[OF Suc.prems(1) b(1) this] show ?thesis
      using 3 h(1) b(2) v by (subst inline_forest_tree_paths.simps) (simp add: Let_def)
  next
    case 4
    then have n: "first_hit (to_inline opts) ?t = None" using h(2) by (simp add: hits_def)
    let ?P = "inline_forest_tree_paths opts" and ?f = "\<lambda>c s. inline_bintree_paths fuel e opts (Some c) s"
    have "\<exists>x s2. ?f c s1 = Some (x, s2) \<and> shapes (te_vh e) s1 (?P (tree_of s c)) x s2"
      if "size (tree_of s c) < size ?t" "tree_of s1 c = tree_of s c" "wf_store (te_vh e) s1" "Some c \<in> refs (st_M s1)" for c s1
      using Suc.IH[OF that(3,4)] that Suc.prems(3) by simp
    then show ?thesis
      using rebuild_node[OF e Suc.prems(1,2), of ?f ?P ?v] 4 h(1) n v by (subst inline_forest_tree_paths.simps) (simp add: Let_def)
  qed
qed simp

text \<open>The inliner on subtrees.\<close>

definition splice :: "names \<Rightarrow> 't lit \<Rightarrow> shaping_options \<Rightarrow> 't pnode \<times> 't pnode bt \<Rightarrow> 't pnode \<times> 't pnode bt" where
  "splice ns amb opts x =
     (if is_nt (fst (fst x)) \<and> fst (fst x) = amb then x
      else (fst x, chain (concat (map (\<lambda>y. if node_to_inline ns opts (fst y) then items (snd y) else [y]) (items (snd x)))) Nil))"

lemma inliner_computes:
  assumes e: "env_ok e"
  shows "computes (te_vh e) s0 (inliner e ns opts amb) (splice ns amb opts)"
  unfolding computes_def
proof (intro allI impI)
  fix s a par assume a: "extends (te_vh e) s0 s \<and> Some a \<in> refs (st_M s)"
  then have s: "wf_store (te_vh e) s" using extends_wf by blast
  note w = wf_store_nodes[OF s]
  have ar: "Some a \<in> refs (st_M s)" using a by blast
  let ?v = "value_at s a"
  have v: "fst (subtree (st_M s) a) = ?v" by (rule value_tree[OF s ar])
  obtain cs where cs: "children (st_M s) a = Some cs" "Some ` set cs \<subseteq> refs (st_M s)" "map (subtree (st_M s)) cs = items (snd (subtree (st_M s) a))"
    using children_ok[OF w ar] by (auto simp: subtree_def)
  have cv: "fst (subtree (st_M s) c) = value_at s c" if "c \<in> set cs" for c using value_tree[OF s] cs(2) that by blast
  let ?g = "\<lambda>y. if node_to_inline ns opts (fst y) then items (snd y) else [y]"
  have sub: "Some ` set (spliced ns opts s cs) \<subseteq> refs (st_M s) \<and>
      map (subtree (st_M s)) (spliced ns opts s cs) = concat (map ?g (map (subtree (st_M s)) cs))"
    using cs(2)
  proof (induction cs)
    case (Cons c cs)
    then have c: "Some c \<in> refs (st_M s)" by simp
    obtain ks where "children (st_M s) c = Some ks" "Some ` set ks \<subseteq> refs (st_M s)"
      "map (subtree (st_M s)) ks = items (snd (subtree (st_M s) c))" using children_ok[OF w c] by (auto simp: subtree_def)
    moreover have "spliced ns opts s (c # cs) = (if node_to_inline ns opts (value_at s c) then the (children (st_M s) c) else [c]) @ spliced ns opts s cs"
      by (simp add: spliced_def)
    ultimately show ?case using Cons.IH Cons.prems value_tree[OF s c] by (simp add: image_Un)
  qed (simp add: spliced_def)
  consider "is_nt (fst ?v) \<and> fst ?v = amb" | "\<not> (is_nt (fst ?v) \<and> fst ?v = amb)" "\<not> list_ex (\<lambda>c. node_to_inline ns opts (value_at s c)) cs"
    | "\<not> (is_nt (fst ?v) \<and> fst ?v = amb)" "list_ex (\<lambda>c. node_to_inline ns opts (value_at s c)) cs" by blast
  then show "\<exists>b s'. inliner e ns opts amb a par s = (Some b, s') \<and> grows (te_vh e) s s' \<and> Some b \<in> refs (st_M s') \<and>
      subtree (st_M s') b = splice ns amb opts (subtree (st_M s) a)"
  proof cases
    case 1
    have "inliner e ns opts amb a par s = (Some a, s)" using 1 by (auto simp: inliner_def)
    moreover have "splice ns amb opts (subtree (st_M s) a) = subtree (st_M s) a" using 1 by (auto simp: splice_def v)
    ultimately show ?thesis using ar grown_refl[OF s] by simp
  next
    case 2
    then have "concat (map ?g (map (subtree (st_M s)) cs)) = map (subtree (st_M s)) cs"
      using cv by (induction cs) (auto simp: list_ex_iff)
    then have "splice ns amb opts (subtree (st_M s) a) = subtree (st_M s) a" using 2(1) v cs(3) by (auto simp: splice_def prod_eq_iff)
    then show ?thesis using 2 cs(1) ar grown_refl[OF s] by (simp add: inliner_def)
  next
    case 3
    have al: "fresh (te_al e)" "\<not> use_hooks (te_hooks e) \<or> hook (te_hooks e) = None" using e by (simp_all add: env_ok_def)
    obtain q s' where q: "get_raw (te_al e) (te_vh e) ?v (spliced ns opts s cs) None s = (q, s')" by fastforce
    have "\<forall>c \<in> set (spliced ns opts s cs). Some c \<in> refs (st_M s)" using sub by blast
    note g = get_raw_ok[OF al(1) s this refs_None q]
    have "subtree (st_M s') q = (?v, chain (concat (map ?g (items (snd (subtree (st_M s) a))))) Nil)"
      using g sub cs(3) by (simp add: subtree_def)
    moreover have "inliner e ns opts amb a par s = (Some q, s')" using 3 cs(1) q al(2) by (auto simp: inliner_def tree_get_def)
    ultimately show ?thesis using g 3(1) v by (auto simp: splice_def)
  qed
qed

lemma roses_chain: "roses (chain xs Nil) = map rose xs"
  by (simp add: roses_items)

lemma splice_rose:
  "rose (splice ns amb opts (v, chain xs Nil)) =
    FNode v (concat (map (\<lambda>d. if \<not> (is_nt (fst v) \<and> fst v = amb) \<and> node_to_inline ns opts (fvalue d) then fchild d else [d]) (map rose xs)))"
proof -
  have "map rose (concat (map (\<lambda>y. if node_to_inline ns opts (fst y) then items (snd y) else [y]) xs)) =
      concat (map (\<lambda>d. if node_to_inline ns opts (fvalue d) then fchild d else [d]) (map rose xs))"
    by (induction xs) (auto simp: roses_items)
  moreover have "concat (map (\<lambda>d. [d]) (map rose xs)) = map rose xs" by (induction xs) auto
  ultimately show ?thesis by (auto simp: splice_def rose_def[of "(v, _)"] roses_chain simp del: map_map)
qed

lemma splice_value [simp]: "fst (splice ns amb opts x) = fst x"
  by (simp add: splice_def)

lemma bottom_up_inline:
  "roses (chain (bottom_up (splice ns amb opts) (\<lambda>_. True) t) Nil) = map (inline_tree ns amb opts) (roses t)"
proof (induction t)
  case (Bt v l r)
  have "map rose (bottom_up (splice ns amb opts) (\<lambda>_. True) l) = map (inline_tree ns amb opts) (roses l)"
    using Bt.IH(1) by (simp add: roses_chain)
  then have "rose (splice ns amb opts (v, chain (bottom_up (splice ns amb opts) (\<lambda>_. True) l) Nil)) = inline_tree ns amb opts (FNode v (roses l))"
    unfolding splice_rose by simp
  then show ?case using Bt.IH(2) by (simp add: roses_chain)
qed simp

lemma inline_bintree_nodes_ok:
  assumes e: "env_ok e" and s: "wf_store (te_vh e) s" and a: "Some a \<in> refs (st_M s)"
  shows "\<exists>x s'. inline_bintree_nodes e ns amb opts (Some a) s = Some (x, s') \<and>
    shapes (te_vh e) s (Some (inline_tree ns amb opts (tree_of s a))) x s'"
proof -
  let ?rw = "\<lparr>rw_al = te_al e, rw_vh = te_vh e, rw_hooks = te_hooks e, rw_slot = 0, rw_f = inliner e ns opts amb, rw_subtree = (\<lambda>_ _ _. True)\<rparr>"
  let ?F = "splice ns amb opts"
  have "rw_ok ?rw s ?F (\<lambda>_. True)" using e inliner_computes[OF e] by (simp add: rw_ok_def env_ok_def decides_def)
  moreover have "memo_ok (bottom_up_at ?F (\<lambda>_. True)) s (rw_slot ?rw) ([], [])" by (simp add: memo_ok_def)
  ultimately obtain r m' s' where r: "apply_unique ?rw a [] s = Some (Some r, m', s')" "grows (te_vh e) s s'" "Some r \<in> refs (st_M s')"
    "subtree (st_M s') r = bottom_up_at ?F (\<lambda>_. True) (subtree (st_M s) a)"
    using apply_unique_maps[of ?rw s ?F "\<lambda>_. True" a "[]"] s a by auto
  have "tree_of s' r = inline_tree ns amb opts (tree_of s a)"
    using bottom_up_inline[of ns amb opts "snd (subtree (st_M s) a)"] unfolding r(4) bottom_up_at_def splice_rose
    by (simp add: rose_def[of "subtree (st_M s) a"] roses_chain)
  then show ?thesis using r(1-3) by (auto simp: inline_bintree_nodes_def shapes_Some)
qed

section \<open>The shaped tree\<close>

lemma size_pushed:
  "(\<And>c y. c \<in> set cs \<Longrightarrow> P c = Some y \<Longrightarrow> size y \<le> size c) \<Longrightarrow>
    size_list size (concat (map (\<lambda>c. pushed (P c)) cs)) \<le> size_list size (cs :: 't ftree list)"
proof (induction cs)
  case (Cons c cs)
  then have I: "size_list size (concat (map (\<lambda>c. pushed (P c)) cs)) \<le> size_list size cs" by simp
  show ?case
  proof (cases "P c")
    case (Some y)
    then have "size y \<le> size c" using Cons.prems[of c y] by simp
    then show ?thesis using I Some by simp
  qed (use I in simp)
qed simp

lemma size_node_mono: "size_list size ds \<le> size_list size cs \<Longrightarrow> size (FNode v ds) \<le> size (FNode v cs)"
  by simp

lemma trim_tree_size: "trim_tree opts t = Some y \<Longrightarrow> size y \<le> size t"
proof (induction t arbitrary: y)
  case (FNode v cs)
  let ?P = "\<lambda>c. if trimmable_child opts v (fvalue c) then None else trim_tree opts c"
  have "size (FNode v (concat (map (\<lambda>c. pushed (?P c)) cs))) \<le> size (FNode v cs)"
    by (intro size_node_mono size_pushed) (use FNode.IH in \<open>auto split: if_splits\<close>)
  then show ?case using FNode.prems by (subst (asm) trim_tree_cases) (auto split: if_splits)
qed

lemma inline_tree_size: "size (inline_tree ns amb opts t) \<le> size t"
proof (induction t)
  case (FNode v cs)
  have 1: "size_list size (fchild d) \<le> size d" for d :: "'a ftree" by (cases d) simp
  have "size_list size (concat (map (\<lambda>d. if Q d then fchild d else [d]) (map (inline_tree ns amb opts) cs))) \<le> size_list size cs" for Q
    using FNode
  proof (induction cs)
    case (Cons c cs)
    have "size (inline_tree ns amb opts c) \<le> size c" using Cons.prems by simp
    then have "size_list size (if Q (inline_tree ns amb opts c) then fchild (inline_tree ns amb opts c) else [inline_tree ns amb opts c]) \<le> Suc (size c)"
      using 1[of "inline_tree ns amb opts c"] by (auto intro: le_trans)
    then show ?case using Cons by simp
  qed simp
  then show ?case unfolding inline_tree.simps by (intro size_node_mono)
qed

lemma inline_paths_size: "inline_forest_tree_paths opts t = Some y \<Longrightarrow> size y \<le> size t"
proof (induction opts t arbitrary: y rule: inline_forest_tree_paths.induct)
  case (1 opts t)
  consider "\<not> is_nt (fst (fvalue t))" | hit where "is_nt (fst (fvalue t))" "first_hit (to_inline opts) t = Some hit"
    | "is_nt (fst (fvalue t))" "first_hit (to_inline opts) t = None" by fastforce
  then show ?case
  proof cases
    case 1
    then show ?thesis using \<open>inline_forest_tree_paths opts t = Some y\<close>
      by (subst (asm) inline_forest_tree_paths.simps) (cases t, auto split: if_splits)
  next
    case (2 hit)
    have n: "fst (fvalue t) \<noteq> Null" using 2(1) by auto
    then have y: "inline_forest_tree_paths opts hit = Some y"
      using 2 1(3) by (subst (asm) inline_forest_tree_paths.simps[of opts t]) simp
    from 1(2)[OF n _ 2(2) y] show ?thesis using 2(1) first_hit_size[OF 2(2)] by simp
  next
    case 3
    have n: "fst (fvalue t) \<noteq> Null" using 3(1) by auto
    have y: "y = FNode (fvalue t) (concat (map (\<lambda>c. pushed (inline_forest_tree_paths opts c)) (fchild t)))"
      using 1(3) 3 n by (subst (asm) inline_forest_tree_paths.simps) simp
    have "size_list size (concat (map (\<lambda>c. pushed (inline_forest_tree_paths opts c)) (fchild t))) \<le> size_list size (fchild t)"
      by (rule size_pushed) (use 1(1)[OF n _ 3(2)] 3(1) in blast)
    then have "size y \<le> size (FNode (fvalue t) (fchild t))" unfolding y by (rule size_node_mono)
    then show ?thesis by simp
  qed
qed

text \<open>The steps with a null reference.\<close>

lemma shape_steps_None:
  "0 < fuel \<Longrightarrow> get_trimmed_bintree fuel e opts None s = Some (None, s)"
  "inline_bintree_nodes e ns amb opts None s = Some (None, s)"
  "0 < fuel \<Longrightarrow> inline_bintree_paths fuel e opts None s = Some (None, s)"
  "0 < fuel \<Longrightarrow> trim_bintree_child_terminals fuel e opts None s = Some (None, s)"
  by (cases fuel; simp add: inline_bintree_nodes_def)+

text \<open>C13: Shaping an interned tree returns and computes the shaped tree: for every well-formed store, tree
  and options, with fuel for the depth of the tree, the four steps (trimming, inlining of nodes by the
  memoized rewriting, inlining of paths, trimming of terminals) give a reference to the tree that the
  recursive functions give on the tree of the argument, or null when they give none, and every tree that
  was in the store stays.\<close>

theorem shape_tree2_refines:
  assumes e: "env_ok e" and s: "wf_store (te_vh e) s" and a: "Some a \<in> refs (st_M s)" and fuel: "size (tree_of s a) < fuel"
  shows "\<exists>x s'. shape_tree2_impl fuel e ns amb opts (Some a) s = Some (x, s') \<and>
    shapes (te_vh e) s (shape_tree ns amb opts (tree_of s a)) x s'"
proof -
  obtain x s1 where 1: "get_trimmed_bintree fuel e opts (Some a) s = Some (x, s1)" "shapes (te_vh e) s (trim_tree opts (tree_of s a)) x s1"
    using get_trimmed_bintree_ok[OF e s a fuel] by blast
  show ?thesis
  proof (cases x)
    case None
    then show ?thesis using 1 fuel
      by (auto simp: shape_tree2_impl_def shape_steps_None shape_tree_def shapes_def)
  next
    case (Some b)
    have b: "grows (te_vh e) s s1" "Some b \<in> refs (st_M s1)" "trim_tree opts (tree_of s a) = Some (tree_of s1 b)"
      using 1(2) Some by (simp_all add: shapes_Some)
    obtain y s2 where 2: "inline_bintree_nodes e ns amb opts (Some b) s1 = Some (y, s2)"
      "shapes (te_vh e) s1 (Some (inline_tree ns amb opts (tree_of s1 b))) y s2"
      using inline_bintree_nodes_ok[OF e grows_wf[OF b(1)] b(2)] by blast
    then obtain c where c: "y = Some c" "grows (te_vh e) s1 s2" "Some c \<in> refs (st_M s2)" "tree_of s2 c = inline_tree ns amb opts (tree_of s1 b)"
      by (cases y) (auto simp: shapes_def)
    have sc: "size (tree_of s2 c) < fuel" using c(4) inline_tree_size[of ns amb opts "tree_of s1 b"] trim_tree_size[OF b(3)] fuel by simp
    obtain z s3 where 3: "inline_bintree_paths fuel e opts (Some c) s2 = Some (z, s3)"
      "shapes (te_vh e) s2 (inline_forest_tree_paths opts (tree_of s2 c)) z s3"
      using inline_bintree_paths_ok[OF e grows_wf[OF c(2)] c(3) sc] by blast
    note g2 = grown_trans[OF b(1) c(2)]
    show ?thesis
    proof (cases z)
      case None
      then show ?thesis using 1(1) 2(1) 3 Some b(3) c(1,4) fuel grown_trans[OF g2]
        by (auto simp: shape_tree2_impl_def shape_steps_None shape_tree_def shapes_def)
    next
      case (Some d)
      have d: "grows (te_vh e) s2 s3" "Some d \<in> refs (st_M s3)" "inline_forest_tree_paths opts (tree_of s2 c) = Some (tree_of s3 d)"
        using 3(2) Some by (simp_all add: shapes_Some)
      have "size (tree_of s3 d) < fuel" using inline_paths_size[OF d(3)] sc by simp
      from trim_bintree_terminals_ok[OF e grows_wf[OF d(1)] d(2) this] obtain r s4 where
        4: "trim_bintree_child_terminals fuel e opts (Some d) s3 = Some (r, s4)"
          "shapes (te_vh e) s3 (Some (trim_forest_tree_child_terminals opts (tree_of s3 d))) r s4" by blast
      have "shapes (te_vh e) s (shape_tree ns amb opts (tree_of s a)) r s4"
        using 4(2) b(3) c(4) d(3) grown_trans[OF grown_trans[OF g2 d(1)]] by (auto simp: shapes_def shape_tree_def split: option.splits)
      then show ?thesis using 1(1) 2(1) 3(1) 4(1) \<open>x = Some b\<close> c(1) Some by (simp add: shape_tree2_impl_def)
    qed
  qed
qed

section \<open>Both ways of shaping\<close>

text \<open>A tree of the graph at whose nodes there is one pack.\<close>

definition one_pack :: "'t node_graph \<Rightarrow> 't pnode \<Rightarrow> 't ftree list \<Rightarrow> bool" where
  "one_pack g v cs \<longleftrightarrow> (if is_nt (fst v) then map_of g v = Some [map fvalue cs] else cs = [])"

lemma trimmed_children_total_map:
  "\<forall>c \<in> set cs. rec (fvalue c) = Some (P c) \<Longrightarrow>
    trimmed_children rec opts v (map fvalue cs) = Some (concat (map (\<lambda>c. pushed (if trimmable_child opts v (fvalue c) then None else P c)) cs))"
  by (induction cs) auto

lemma trim_both:
  "all_nodes (one_pack g) t \<Longrightarrow> size t < fuel \<Longrightarrow> get_trimmed_forest_tree fuel g amb opts (fvalue t) = Some (trim_tree opts t)"
proof (induction fuel arbitrary: t)
  case (Suc fuel)
  obtain v cs where t: "t = FNode v cs" by (cases t)
  have p: "one_pack g v cs" "\<forall>c \<in> set cs. all_nodes (one_pack g) c" using Suc.prems(1) t by simp_all
  have "\<forall>c \<in> set cs. get_trimmed_forest_tree fuel g amb opts (fvalue c) = Some (trim_tree opts c)"
    using Suc.IH p(2) child_size[of _ cs v] Suc.prems(2) t by fastforce
  from trimmed_children_total_map[OF this, of opts v] show ?case
    using p(1) t by (subst trim_tree_cases) (auto simp: one_pack_def)
qed simp

definition no_amb :: "'t lit \<Rightarrow> 't pnode \<Rightarrow> 't ftree list \<Rightarrow> bool" where
  "no_amb amb v cs \<longleftrightarrow> fst v \<noteq> amb \<and> fst v \<noteq> Null \<and> (\<not> is_nt (fst v) \<longrightarrow> cs = [])"

lemma terminal_stays: "\<not> is_nt (fst v) \<Longrightarrow> \<not> node_to_inline ns opts v"
  by (simp add: node_to_inline_def)

lemma inline_into_both:
  "all_nodes (no_amb amb) t \<Longrightarrow>
    inlined_into ns opts t = (if node_to_inline ns opts (fvalue t) then fchild (inline_tree ns amb opts t) else [inline_tree ns amb opts t])"
proof (induction t)
  case (FNode v cs)
  have n: "fst v \<noteq> amb" "fst v \<noteq> Null" "\<not> is_nt (fst v) \<longrightarrow> cs = []" using FNode.prems by (simp_all add: no_amb_def)
  have fv: "fvalue (inline_tree ns amb opts c) = fvalue c" for c by (cases c) simp
  have "concat (map (inlined_into ns opts) cs) =
      concat (map (\<lambda>d. if node_to_inline ns opts (fvalue d) then fchild d else [d]) (map (inline_tree ns amb opts) cs))"
    using FNode by (intro arg_cong[of _ _ concat]) (simp add: fv)
  then show ?case using n terminal_stays[of v ns opts] by (cases "is_nt (fst v)") (simp_all del: map_map)
qed

lemma inline_both:
  assumes "all_nodes (no_amb amb) t"
  shows "inline_forest_tree_nodes ns opts (Some t) = Some (inline_tree ns amb opts t)"
proof (cases t)
  case (FNode v cs)
  have n: "fst v \<noteq> amb" "fst v \<noteq> Null" "\<not> is_nt (fst v) \<longrightarrow> cs = []" using assms FNode by (simp_all add: no_amb_def)
  have fv: "fvalue (inline_tree ns amb opts c) = fvalue c" for c by (cases c) simp
  have "concat (map (inlined_into ns opts) cs) =
      concat (map (\<lambda>d. if node_to_inline ns opts (fvalue d) then fchild d else [d]) (map (inline_tree ns amb opts) cs))"
    using assms FNode inline_into_both[of amb _ ns opts] by (intro arg_cong[of _ _ concat]) (simp add: fv)
  then show ?thesis using n FNode by (cases "is_nt (fst v)") (simp_all add: inline_forest_tree_nodes_def del: map_map)
qed

lemma trim_tree_no_amb:
  "all_nodes (one_pack g) t \<Longrightarrow> all_nodes (\<lambda>v cs. fst v \<noteq> amb) t \<Longrightarrow> trim_tree opts t = Some y \<Longrightarrow> all_nodes (no_amb amb) y"
proof (induction t arbitrary: y)
  case (FNode v cs)
  have p: "one_pack g v cs" "fst v \<noteq> amb" "fst v \<noteq> Null" using FNode.prems by (auto split: if_splits)
  have "all_nodes (no_amb amb) x" if "c \<in> set cs" "trim_tree opts c = Some x" for c x
    using FNode.IH[OF that(1) _ _ that(2)] FNode.prems(1,2) that(1) by simp
  moreover have "no_amb amb v ds" if "is_nt (fst v) \<or> ds = []" for ds using p that by (auto simp: no_amb_def)
  ultimately show ?case
    using FNode.prems(3) p(1) by (auto simp: one_pack_def pushed_def split: if_splits option.splits)
qed

text \<open>C14: Without ambiguity the two ways of shaping agree: if every nonterminal of a tree has one pack in the
  graph, that of its children, and no node is the ambiguity node, then shaping the node in the forest and
  shaping the interned tree both return, and give the same tree, whatever the options.\<close>

theorem shapings_agree:
  assumes e: "env_ok e" and s: "wf_store (te_vh e) s" and a: "Some a \<in> refs (st_M s)" and fuel: "size (tree_of s a) < fuel"
    and g: "all_nodes (one_pack g) (tree_of s a)" and n: "all_nodes (\<lambda>v cs. fst v \<noteq> amb) (tree_of s a)"
  shows "\<exists>x s'. shape_tree2_impl fuel e ns amb opts (Some a) s = Some (x, s') \<and>
    get_shaped_forest_tree fuel g ns amb opts (value_at s a) = Some (map_option (tree_of s') x)"
proof -
  have v: "fvalue (tree_of s a) = value_at s a" using value_tree[OF s a] by simp
  have "get_shaped_forest_tree fuel g ns amb opts (value_at s a) = Some (shape_tree ns amb opts (tree_of s a))"
  proof (cases "trim_tree opts (tree_of s a)")
    case None
    then show ?thesis using trim_both[OF g fuel, of amb opts, unfolded v]
      by (simp add: get_shaped_forest_tree_def shape_tree_def inline_forest_tree_def inline_forest_tree_nodes_def)
  next
    case (Some y)
    then show ?thesis using trim_both[OF g fuel, of amb opts, unfolded v] inline_both[OF trim_tree_no_amb[OF g n Some], of ns opts]
      by (simp add: get_shaped_forest_tree_def shape_tree_def inline_forest_tree_def)
  qed
  moreover obtain x s' where "shape_tree2_impl fuel e ns amb opts (Some a) s = Some (x, s')"
    "shapes (te_vh e) s (shape_tree ns amb opts (tree_of s a)) x s'" using shape_tree2_refines[OF e s a fuel] by blast
  ultimately show ?thesis by (cases x) (auto simp: shapes_def)
qed

text \<open>The interned tree of the digits: a leaf \<open>6\<close>, a leaf \<open>5\<close>, the node over the latter, the root.\<close>

definition digit_env :: "nat pnode tree_env" where
  "digit_env = \<lparr>te_al = next_address, te_vh = (\<lambda>v. of_nat (fst (snd v))), te_hooks = \<lparr>use_hooks = False, hook = None\<rparr>\<rparr>"

definition digits_store :: "nat pnode store" where
  "digits_store =
     (let six = hash_combines 0 [1, 0, 0]; five = hash_combines 0 [0, 0, 0]; a = hash_combines 0 [0, five, six] in
      \<lparr>st_M = [
        (4, \<lparr>n_value = (Nt 0, 0, 2), n_l = Some 3, n_r = None, n_hash = hash_combines 0 [0, a, 0]\<rparr>),
        (3, \<lparr>n_value = (Nt 1, 0, 1), n_l = Some 2, n_r = Some 1, n_hash = a\<rparr>),
        (2, \<lparr>n_value = (Tm 5, 0, 1), n_l = None, n_r = None, n_hash = five\<rparr>),
        (1, \<lparr>n_value = (Tm 6, 1, 2), n_l = None, n_r = None, n_hash = six\<rparr>)],
       st_handles = {}, st_pause = 0\<rparr>)"

lemma digits_env_ok: "env_ok digit_env"
  by (simp add: env_ok_def digit_env_def fresh_next_address)

lemma digits_store_facts:
  "wf_store (te_vh digit_env) digits_store" "Some 4 \<in> refs (st_M digits_store)"
  "tree_of digits_store 4 = FNode (Nt 0, 0, 2) [FNode (Nt 1, 0, 1) [FNode (Tm 5, 0, 1) []], FNode (Tm 6, 1, 2) []]"
  "value_at digits_store 4 = (Nt 0, 0, 2)"
  by (simp_all add: digits_store_def digit_env_def wf_store_def refs_def same_node_def hashit_def ref_hash_def node_at_def
    subtree_def rose_def Let_def)

theorem shape_tree2_refines_witness:
  "\<exists>x s'. shape_tree2_impl 20 digit_env [''s'', ''a'', ''__AMB__''] (Nt 2) (no_shaping\<lparr>to_inline := [[1]]\<rparr>) (Some 4) digits_store = Some (Some x, s') \<and>
    tree_of s' x = FNode (Nt 0, 0, 2) [FNode (Tm 5, 0, 1) [], FNode (Tm 6, 1, 2) []]"
proof -
  have "shape_tree [''s'', ''a'', ''__AMB__''] (Nt 2) (no_shaping\<lparr>to_inline := [[1]]\<rparr>) (tree_of digits_store 4) =
      Some (FNode (Nt 0, 0, 2) [FNode (Tm 5, 0, 1) [], FNode (Tm 6, 1, 2) []])"
    unfolding digits_store_facts(3) by code_simp
  moreover have "size (tree_of digits_store 4) < 20" unfolding digits_store_facts(3) by simp
  ultimately show ?thesis
    using shape_tree2_refines[OF digits_env_ok digits_store_facts(1,2), of 20 "[''s'', ''a'', ''__AMB__'']" "Nt 2" "no_shaping\<lparr>to_inline := [[1]]\<rparr>"]
    by (auto simp: shapes_def split: option.splits)
qed

theorem shapings_agree_witness:
  "\<exists>x s'. shape_tree2_impl 20 digit_env [''s'', ''a'', ''__AMB__''] (Nt 2) (no_shaping\<lparr>to_inline := [[1]]\<rparr>) (Some 4) digits_store = Some (x, s') \<and>
    get_shaped_forest_tree 20 digits_graph [''s'', ''a'', ''__AMB__''] (Nt 2) (no_shaping\<lparr>to_inline := [[1]]\<rparr>) (Nt 0, 0, 2) = Some (map_option (tree_of s') x)"
proof -
  have "size (tree_of digits_store 4) < 20" "all_nodes (one_pack digits_graph) (tree_of digits_store 4)"
    "all_nodes (\<lambda>v cs. fst v \<noteq> Nt 2) (tree_of digits_store 4)"
    unfolding digits_store_facts(3) by (simp_all add: one_pack_def digits_graph_def)
  from shapings_agree[OF digits_env_ok digits_store_facts(1,2) this, of "[''s'', ''a'', ''__AMB__'']" "no_shaping\<lparr>to_inline := [[1]]\<rparr>"]
  show ?thesis by (simp add: digits_store_facts(4))
qed

definition amb_tree :: "nat ftree" where
  "amb_tree = FNode (Nt 0, 0, 2) [FNode (Nt 2, 0, 2)
    [FNode (Nt 1, 0, 2) [FNode (Tm 5, 0, 2) []], FNode (Nt 1, 0, 2) [FNode (Tm 6, 0, 1) [], FNode (Tm 6, 1, 2) []]]]"

text \<open>With ambiguity they differ: when the ambiguous node is one to inline, the shaping in the forest joins its
  alternatives into one list of children of \<open>__AMB__\<close>, since the inlining does not know that they stand for
  alternatives; the shaping of the interned tree, in which \<open>__AMB__\<close> protects its children, keeps them apart. Here the
  node 1 has the alternatives \<open>5\<close> and \<open>6 6\<close>.\<close>

theorem ambiguity_shaped_apart:
  "get_shaped_forest_tree 3 ambiguous_graph [''s'', ''a'', ''__AMB__''] (Nt 2) no_shaping (Nt 0, 0, 2) = Some (Some amb_tree) \<and>
    get_shaped_forest_tree 3 ambiguous_graph [''s'', ''a'', ''__AMB__''] (Nt 2) (no_shaping\<lparr>to_inline := [[1]]\<rparr>) (Nt 0, 0, 2) =
      Some (Some (FNode (Nt 0, 0, 2) [FNode (Nt 2, 0, 2) [FNode (Tm 5, 0, 2) [], FNode (Tm 6, 0, 1) [], FNode (Tm 6, 1, 2) []]])) \<and>
    shape_tree [''s'', ''a'', ''__AMB__''] (Nt 2) (no_shaping\<lparr>to_inline := [[1]]\<rparr>) amb_tree = Some amb_tree"
  by code_simp

end
