(* ===== verification/TreeCount.thy ===== *)
theory TreeCount
  imports TreeShape
begin

text \<open>
  The number of parse trees under an interned tree, \<open>count_bintree_parses\<close> of
  \<open>src/src/parser_result.tmpl.h\<close>: a product over children, a sum over the alternatives of the
  ambiguity node, memoized per node, on an explicit stack. The sums and products saturate.
\<close>

section \<open>The operation\<close>

text \<open>Arithmetic of \<open>size_t\<close>: the sum and the product wrap, and the wrap is detected afterwards.\<close>

definition sat_add :: "nat \<Rightarrow> nat \<Rightarrow> nat" where
  "sat_add a b =
     (if a = SIZE_MAX \<or> b = SIZE_MAX then SIZE_MAX
      else (let r = (a + b) mod (SIZE_MAX + 1) in if r < a then SIZE_MAX else r))"

definition sat_mul :: "nat \<Rightarrow> nat \<Rightarrow> nat" where
  "sat_mul a b =
     (if a = 0 \<or> b = 0 then 0
      else if a = SIZE_MAX \<or> b = SIZE_MAX then SIZE_MAX
      else (let pr = (a * b) mod (SIZE_MAX + 1) in if pr div a \<noteq> b then SIZE_MAX else pr))"

type_synonym counts = "nat \<rightharpoonup> nat"

definition count_at :: "counts \<Rightarrow> nat \<Rightarrow> nat" where
  "count_at cnt c = (case cnt c of Some k \<Rightarrow> k | None \<Rightarrow> 0)"

definition count_node :: "'t lit \<Rightarrow> 't pnode \<Rightarrow> nat list \<Rightarrow> counts \<Rightarrow> nat" where
  "count_node amb v cs cnt =
     (if cs = [] then 1
      else if is_nt (fst v) \<and> fst v = amb then fold (\<lambda>c acc. sat_add acc (count_at cnt c)) cs 0
      else fold (\<lambda>c acc. sat_mul acc (count_at cnt c)) cs 1)"

text \<open>The stack, its top first: a node, and whether its children have been pushed.\<close>

partial_function (option) count_loop ::
  "'t lit \<Rightarrow> 't pnode nodes \<Rightarrow> (nat \<times> bool) list \<Rightarrow> counts \<Rightarrow> counts option" where
  [code]: "count_loop amb M stk cnt =
     (case stk of
        [] \<Rightarrow> Some cnt
      | (x, was_pushed) # stk \<Rightarrow>
          if cnt x \<noteq> None then count_loop amb M stk cnt
          else
            Option.bind (children M x) (\<lambda>cs.
              if \<not> was_pushed
              then count_loop amb M (map (\<lambda>c. (c, False)) (rev (filter (\<lambda>c. cnt c = None) cs)) @ (x, True) # stk) cnt
              else count_loop amb M stk (cnt(x \<mapsto> count_node amb (n_value (node_at M x)) cs cnt))))"

definition count_bintree_parses :: "'t lit \<Rightarrow> 't pnode nodes \<Rightarrow> tref \<Rightarrow> nat option" where
  "count_bintree_parses amb M n =
     (case n of None \<Rightarrow> Some 1
      | Some a \<Rightarrow> map_option (\<lambda>cnt. count_at cnt a) (count_loop amb M [(a, False)] Map.empty))"

section \<open>What it counts\<close>

fun parses :: "'t lit \<Rightarrow> 't ftree \<Rightarrow> nat" where
  "parses amb (FNode v cs) =
     (if cs = [] then 1
      else if is_nt (fst v) \<and> fst v = amb then sum_list (map (parses amb) cs)
      else prod_list (map (parses amb) cs))"

abbreviation sat :: "nat \<Rightarrow> nat" where
  "sat k \<equiv> min SIZE_MAX k"

lemma sat_add_sat: "sat_add (sat a) (sat b) = sat (a + b)"
proof (cases "a < SIZE_MAX \<and> b < SIZE_MAX")
  case True
  then have ab: "sat a = a" "sat b = b" by simp_all
  show ?thesis
  proof (cases "a + b \<le> SIZE_MAX")
    case True
    then have "(a + b) mod (SIZE_MAX + 1) = a + b" by (intro mod_less) simp
    then show ?thesis using \<open>a < SIZE_MAX \<and> b < SIZE_MAX\<close> True unfolding ab by (simp add: sat_add_def)
  next
    case False
    have "(a + b) mod (SIZE_MAX + 1) = a + b - (SIZE_MAX + 1)"
      using False \<open>a < SIZE_MAX \<and> b < SIZE_MAX\<close> by (subst le_mod_geq) auto
    also have "\<dots> < a" using False \<open>a < SIZE_MAX \<and> b < SIZE_MAX\<close> by linarith
    finally show ?thesis using False \<open>a < SIZE_MAX \<and> b < SIZE_MAX\<close> unfolding ab by (simp add: sat_add_def)
  qed
qed (auto simp: sat_add_def min_def)

lemma sat_mul_sat: "sat_mul (sat a) (sat b) = sat (a * b)"
proof (cases "a = 0 \<or> b = 0")
  case False
  show ?thesis
  proof (cases "a < SIZE_MAX \<and> b < SIZE_MAX")
    case True
    then have ab: "sat a = a" "sat b = b" by simp_all
    show ?thesis
    proof (cases "a * b \<le> SIZE_MAX")
      case le: True
      then have "(a * b) mod (SIZE_MAX + 1) = a * b" by (intro mod_less) simp
      then show ?thesis using False True le unfolding ab by (simp add: sat_mul_def)
    next
      case gt: False
      let ?r = "(a * b) mod (SIZE_MAX + 1)"
      have "?r < SIZE_MAX + 1" by (rule mod_less_divisor) simp
      then have "?r < a * b" using gt by linarith
      then have "?r div a < b" using False by (simp add: less_mult_imp_div_less mult.commute)
      then show ?thesis using False True gt unfolding ab by (simp add: sat_mul_def)
    qed
  next
    case big: False
    have "a \<le> a * b" "b \<le> a * b" using False by auto
    then have "SIZE_MAX \<le> a * b" using big by linarith
    moreover have "sat a \<noteq> 0" "sat b \<noteq> 0" using False by (auto simp: min_def SIZE_MAX_def)
    moreover have "sat a = SIZE_MAX \<or> sat b = SIZE_MAX" using big by auto
    ultimately show ?thesis by (simp add: sat_mul_def)
  qed
qed (auto simp: sat_mul_def)

lemma fold_sat_add:
  "\<forall>c \<in> set cs. count_at cnt c = sat (f c) \<Longrightarrow> fold (\<lambda>c acc. sat_add acc (count_at cnt c)) cs (sat k) = sat (k + sum_list (map f cs))"
proof (induction cs arbitrary: k)
  case (Cons c cs)
  then show ?case using Cons.IH[of "k + f c"] by (simp add: sat_add_sat add.assoc)
qed simp

lemma fold_sat_mul:
  "\<forall>c \<in> set cs. count_at cnt c = sat (f c) \<Longrightarrow> fold (\<lambda>c acc. sat_mul acc (count_at cnt c)) cs (sat k) = sat (k * prod_list (map f cs))"
proof (induction cs arbitrary: k)
  case (Cons c cs)
  then show ?case using Cons.IH[of "k * f c"] by (simp add: sat_mul_sat mult.assoc)
qed simp

lemma sat_small [simp]: "sat 0 = 0" "sat (Suc 0) = Suc 0"
  by (simp_all add: SIZE_MAX_def)

section \<open>The loop\<close>

definition counted :: "'t lit \<Rightarrow> 't pnode store \<Rightarrow> counts \<Rightarrow> bool" where
  "counted amb s cnt \<longleftrightarrow> (\<forall>a k. cnt a = Some k \<longrightarrow> k = sat (parses amb (tree_of s a)))"

lemma count_node_ok:
  assumes s: "wf_store vh s" and a: "Some a \<in> refs (st_M s)" and cs: "children (st_M s) a = Some cs"
    and c: "counted amb s cnt" and d: "set cs \<subseteq> dom cnt"
  shows "count_node amb (value_at s a) cs cnt = sat (parses amb (tree_of s a))"
proof -
  have t: "tree_of s a = FNode (value_at s a) (map (tree_of s) cs)" using tree_of_node[OF s a] cs by auto
  have k: "\<forall>c \<in> set cs. count_at cnt c = sat (parses amb (tree_of s c))"
    using c d by (auto simp: counted_def count_at_def split: option.splits)
  obtain Q where Q: "is_nt (fst (value_at s a)) \<and> fst (value_at s a) = amb \<longleftrightarrow> Q" by blast
  show ?thesis
    using fold_sat_add[OF k, of 0] fold_sat_mul[OF k, of 1] unfolding t count_node_def parses.simps Q by (simp add: o_def)
qed

text \<open>The loop works off the nodes on top of the stack, which are at most as large as a bound.\<close>

lemma count_loop_nodes:
  assumes s: "wf_store vh s"
  shows "\<forall>x \<in> set xs. Some x \<in> refs (st_M s) \<and> size (tree_of s x) < k \<Longrightarrow> counted amb s cnt \<Longrightarrow>
    \<exists>cnt'. count_loop amb (st_M s) (map (\<lambda>c. (c, False)) xs @ stk) cnt = count_loop amb (st_M s) stk cnt' \<and>
      counted amb s cnt' \<and> dom cnt \<subseteq> dom cnt' \<and> set xs \<subseteq> dom cnt'"
proof (induction k arbitrary: xs stk cnt)
  case 0
  then show ?case by (cases xs) auto
next
  case (Suc k)
  show ?case
    using Suc.prems
  proof (induction xs arbitrary: cnt)
    case (Cons x xs)
    note x = bspec[OF Cons.prems(1), of x, simplified]
    let ?stk = "map (\<lambda>c. (c, False)) xs @ stk"
    have step: "\<exists>cnt'. count_loop amb (st_M s) ((x, False) # ?stk) cnt = count_loop amb (st_M s) ?stk cnt' \<and>
        counted amb s cnt' \<and> dom cnt \<subseteq> dom cnt' \<and> x \<in> dom cnt'"
    proof (cases "cnt x")
      case (Some n)
      then show ?thesis using Cons.prems(2) by (subst count_loop.simps) auto
    next
      case None
      obtain cs where cs: "children (st_M s) x = Some cs" "Some ` set cs \<subseteq> refs (st_M s)"
        "tree_of s x = FNode (value_at s x) (map (tree_of s) cs)" using tree_of_node[OF s, of x] x by blast
      let ?ys = "rev (filter (\<lambda>c. cnt c = None) cs)"
      have "size (tree_of s c) < k" if "c \<in> set cs" for c
        using child_size[of "tree_of s c" "map (tree_of s) cs" "value_at s x"] that x cs(3) by simp
      then have "\<forall>c \<in> set ?ys. Some c \<in> refs (st_M s) \<and> size (tree_of s c) < k" using cs(2) by auto
      from Suc.IH[OF this Cons.prems(2), of "(x, True) # ?stk"] obtain c1 where
        c1: "count_loop amb (st_M s) (map (\<lambda>c. (c, False)) ?ys @ (x, True) # ?stk) cnt = count_loop amb (st_M s) ((x, True) # ?stk) c1"
          "counted amb s c1" "dom cnt \<subseteq> dom c1" "set ?ys \<subseteq> dom c1" by blast
      have "set cs \<subseteq> dom cnt \<union> set ?ys" by auto
      then have d: "set cs \<subseteq> dom c1" using c1(3,4) by blast
      have 1: "count_loop amb (st_M s) ((x, False) # ?stk) cnt = count_loop amb (st_M s) ((x, True) # ?stk) c1"
        using None cs(1) c1(1) by (subst count_loop.simps) simp
      show ?thesis
      proof (cases "c1 x")
        case (Some n)
        then have "count_loop amb (st_M s) ((x, True) # ?stk) c1 = count_loop amb (st_M s) ?stk c1" by (subst count_loop.simps) simp
        then show ?thesis using 1 c1(2,3) Some by auto
      next
        case None
        let ?c = "c1(x \<mapsto> count_node amb (value_at s x) cs c1)"
        have "count_loop amb (st_M s) ((x, True) # ?stk) c1 = count_loop amb (st_M s) ?stk ?c"
          using None cs(1) by (subst count_loop.simps) simp
        moreover have "counted amb s ?c"
          using c1(2) count_node_ok[OF s _ cs(1) c1(2) d] x by (simp add: counted_def)
        ultimately show ?thesis using 1 c1(3) by (intro exI[of _ ?c]) auto
      qed
    qed
    then obtain c1 where c1: "count_loop amb (st_M s) ((x, False) # ?stk) cnt = count_loop amb (st_M s) ?stk c1"
      "counted amb s c1" "dom cnt \<subseteq> dom c1" "x \<in> dom c1" by blast
    from Cons.IH[OF _ c1(2)] Cons.prems(1) obtain c2 where c2: "count_loop amb (st_M s) ?stk c1 = count_loop amb (st_M s) stk c2"
      "counted amb s c2" "dom c1 \<subseteq> dom c2" "set xs \<subseteq> dom c2" by auto
    have "dom cnt \<subseteq> dom c2" "set (x # xs) \<subseteq> dom c2" using c1(3,4) c2(3,4) by (blast, simp, blast)
    then show ?case using c1(1) c2(1,2) by (intro exI[of _ c2]) simp
  qed auto
qed

text \<open>C16: The count returns and is the number of readings of the tree, as long as it fits \<open>size_t\<close>: the product over
  the children of a node and the sum over the alternatives of an ambiguity node, whatever nodes the tree
  shares, and otherwise the greatest value of the type. No wrap is taken for a count.\<close>

theorem count_bintree_parses_counts:
  assumes s: "wf_store vh s" and a: "Some a \<in> refs (st_M s)"
  shows "count_bintree_parses amb (st_M s) (Some a) = Some (min SIZE_MAX (parses amb (tree_of s a)))"
proof -
  have "\<forall>x \<in> set [a]. Some x \<in> refs (st_M s) \<and> size (tree_of s x) < Suc (size (tree_of s a))" "counted amb s Map.empty"
    using a by (simp_all add: counted_def)
  from count_loop_nodes[OF s this, of "[]"] obtain cnt where
    c: "count_loop amb (st_M s) [(a, False)] Map.empty = count_loop amb (st_M s) [] cnt" "counted amb s cnt" "a \<in> dom cnt" by auto
  have "count_loop amb (st_M s) [] cnt = Some cnt" by (subst count_loop.simps) simp
  then show ?thesis using c by (auto simp: count_bintree_parses_def counted_def count_at_def)
qed

text \<open>Two alternatives that share the leaf.\<close>

definition alternatives_store :: "nat pnode store" where
  "alternatives_store =
     (let five = hash_combines 0 [0, 0, 0]; one = hash_combines 0 [0, five, 0]; two = hash_combines 0 [0, five, one] in
      \<lparr>st_M = [
        (4, \<lparr>n_value = (Nt 2, 0, 1), n_l = Some 3, n_r = None, n_hash = hash_combines 0 [0, two, 0]\<rparr>),
        (3, \<lparr>n_value = (Nt 0, 0, 1), n_l = Some 1, n_r = Some 2, n_hash = two\<rparr>),
        (2, \<lparr>n_value = (Nt 1, 0, 1), n_l = Some 1, n_r = None, n_hash = one\<rparr>),
        (1, \<lparr>n_value = (Tm 5, 0, 1), n_l = None, n_r = None, n_hash = five\<rparr>)],
       st_handles = {}, st_pause = 0\<rparr>)"

lemma alternatives_store_facts:
  "wf_store (te_vh digit_env) alternatives_store" "Some 4 \<in> refs (st_M alternatives_store)"
  "tree_of alternatives_store 4 = FNode (Nt 2, 0, 1) [FNode (Nt 0, 0, 1) [FNode (Tm 5, 0, 1) []], FNode (Nt 1, 0, 1) [FNode (Tm 5, 0, 1) []]]"
  by (simp_all add: alternatives_store_def digit_env_def wf_store_def refs_def same_node_def hashit_def ref_hash_def node_at_def
    subtree_def rose_def Let_def)

theorem count_bintree_parses_counts_witness:
  "count_bintree_parses (Nt 2) (st_M alternatives_store) (Some 4) = Some 2"
  using count_bintree_parses_counts[OF alternatives_store_facts(1,2), of "Nt 2"]
  unfolding alternatives_store_facts(3) by (simp add: SIZE_MAX_def)

end
