(* ===== verification/ParseError.thy ===== *)
theory ParseError
  imports Soundness
begin

text \<open>
  The report of a failed parse: \<open>parser::error\<close>, \<open>back_track\<close>, \<open>predict_all_at\<close>, \<open>get_conj\<close> and
  \<open>get_error\<close> of \<open>src/src/parser.tmpl.h\<close>. The report reads the chart that the run has left. How a
  terminal is printed depends on its type and is a parameter; bytes are an instance.
\<close>

section \<open>Text\<close>

text \<open>\<open>lit::to_std_string\<close>: a nonterminal is its name, a terminal is quoted and escaped.\<close>

record 't printer =
  pr_raw :: "'t \<Rightarrow> string"
  pr_quoted :: "'t \<Rightarrow> string"

definition byte_printer :: "u8 printer" where
  "byte_printer = \<lparr>pr_raw = (\<lambda>b. [char_of (unat b)]),
     pr_quoted = (\<lambda>b. [CHR 0x27] @ map (\<lambda>u. char_of (unat u)) (encode_bytes [b] tgf_char) @ [CHR 0x27])\<rparr>"

definition lit_text :: "'t printer \<Rightarrow> ('t, 'z) grammar_scheme \<Rightarrow> 't lit \<Rightarrow> string" where
  "lit_text tx g l = (case l of Nt n \<Rightarrow> nts g ! n | Null \<Rightarrow> [] | Tm t \<Rightarrow> pr_quoted tx t)"

section \<open>The error\<close>

text \<open>\<open>exp_prod_t\<close>; the entries of \<open>bktrk\<close> have none of their own. \<open>loc\<close> is \<open>None\<close> for \<open>SIZE_MAX\<close>.\<close>

record exp_text =
  x_exp :: string
  x_nt :: string
  x_body :: string

record 't parse_error =
  e_loc :: "nat option"
  e_line :: nat
  e_col :: nat
  e_ctxt :: "'t list"
  e_unexp :: "'t lit list"
  e_expv :: "(exp_text \<times> exp_text list) list"

datatype info_lvl = Info_basic | Info_detailed | Info_root_cause

definition eof_lit :: "'t::comm_ring_1 lit \<Rightarrow> bool" where
  "eof_lit l = (case l of Tm t \<Rightarrow> is_eof t | _ \<Rightarrow> False)"

definition at_eof_error :: "'t::comm_ring_1 parse_error \<Rightarrow> bool" where
  "at_eof_error err \<longleftrightarrow> e_unexp err \<noteq> [] \<and> list_all eof_lit (e_unexp err)"

section \<open>Looking back\<close>

text \<open>From an item to one that waits for its nonterminal where it began, which has not been met, and so on.\<close>

definition waits_for :: "('t, 'z) grammar_scheme \<Rightarrow> item \<Rightarrow> item \<Rightarrow> bool" where
  "waits_for g x a \<longleftrightarrow> \<not> completed g a \<and> get_lit g a = get_nt g x \<and> i_from x = i_set a"

lemma find_vget: "find P (vget n xss) = Some a \<Longrightarrow> a \<in> set (concat xss) \<and> P a"
proof (induction "vget n xss")
  case Nil
  then show ?case by simp
next
  case (Cons y ys)
  have "find P xs = Some a \<Longrightarrow> a \<in> set xs \<and> P a" for xs by (induction xs) (auto split: if_splits)
  then have "a \<in> set (vget n xss) \<and> P a" using Cons.prems by blast
  then show ?case by (auto simp: vget_def split: if_splits)
qed

function back_track_from :: "('t, 'z) grammar_scheme \<Rightarrow> item list list \<Rightarrow> item list \<Rightarrow> item \<Rightarrow> item list" where
  "back_track_from g xss seen c =
     (case find (\<lambda>a. a \<notin> set seen \<and> waits_for g c a) (vget (i_from c) xss) of
        None \<Rightarrow> []
      | Some a \<Rightarrow> a # back_track_from g xss (a # seen) a)"
  by pat_completeness auto
termination
proof (relation "measure (\<lambda>(g, xss, seen, c). card (set (concat xss) - set seen))")
  fix g :: "('t, 'z) grammar_scheme" and xss seen c a
  assume "find (\<lambda>a. a \<notin> set seen \<and> waits_for g c a) (vget (i_from c) xss) = Some a"
  then have "a \<in> set (concat xss) - set seen" using find_vget by fastforce
  then have "card (set (concat xss) - set (a # seen)) < card (set (concat xss) - set seen)"
    by (intro psubset_card_mono) auto
  then show "((g, xss, a # seen, a), g, xss, seen, c) \<in> measure (\<lambda>(g, xss, seen, c). card (set (concat xss) - set seen))"
    by simp
qed simp

declare back_track_from.simps [simp del]

definition back_track :: "('c, 't) chart \<Rightarrow> item \<Rightarrow> item list" where
  "back_track s x = back_track_from (gr s) (S s) [] x"

section \<open>What was expected\<close>

text \<open>The items that \<open>predict\<close> has skipped at a position.\<close>

definition insert_skipped :: "('c, 't::comm_ring_1) env \<Rightarrow> nat \<Rightarrow> 't \<Rightarrow> 't lit \<Rightarrow> ('c, 't) chart \<Rightarrow> ('c, 't) chart" where
  "insert_skipped e n ch l s =
     fold (\<lambda>(p, c) s. if first_can_match (gr s) p c ch then s else S_insert e (mk_item n p c n 0) s) (seeds (gr s) l) s"

definition predict_all_at :: "('c, 't::comm_ring_1) env \<Rightarrow> nat \<Rightarrow> ('c, 't) chart \<Rightarrow> ('c, 't) chart" where
  "predict_all_at e n s =
     (if n \<ge> length (S s) then s
      else
        let ch = (if n < tp (inp s) then tat (conv e) (dec e) (inp s) n else 0) in
        fold (\<lambda>x s.
            if completed (gr s) x \<or> \<not> is_nt (get_lit (gr s) x) \<or> is_cc_fn (gr s) (lit_n (get_lit (gr s) x)) then s
            else insert_skipped e n ch (get_lit (gr s) x) s)
          (vget n (S s)) s)"

definition get_conj :: "('c, 't) chart \<Rightarrow> nat \<Rightarrow> nat \<Rightarrow> nat \<Rightarrow> item \<times> bool" where
  "get_conj s n p c =
     (case find (\<lambda>x. i_prod x = p \<and> i_con x = c) (vget n (S s)) of
        Some x \<Rightarrow> (x, True) | None \<Rightarrow> (mk_item 0 0 0 0 0, False))"

text \<open>The items whose next literal is reported: the conjuncts that are missing or not completed, and the
  open items before a terminal or a character class.\<close>

definition expected_of :: "('c, 't) chart \<Rightarrow> item \<Rightarrow> item list" where
  "expected_of s t =
     (if conjunctive (gr s) (i_prod t) then
        concat (map (\<lambda>c. case get_conj s (i_set t) (i_prod t) c of
            (ct, ok) \<Rightarrow> if \<not> ok \<or> \<not> completed (gr s) ct then [mk_item (i_set t) (i_prod t) c (i_from t) (i_dot ct)] else [])
          [0..<n_conjs (gr s) (i_prod t)])
      else if completed (gr s) t \<or>
          (case get_lit (gr s) t of Nt n \<Rightarrow> \<not> is_cc_fn (gr s) n | Tm c \<Rightarrow> False | Null \<Rightarrow> True) then []
      else [t])"

definition expectations :: "('c, 't) chart \<Rightarrow> nat \<Rightarrow> (item \<times> item list) list" where
  "expectations s i = concat (map (\<lambda>t. map (\<lambda>x. (x, back_track s t)) (expected_of s t)) (vget i (S s)))"

section \<open>The report\<close>

text \<open>A completed rule made by the transformation of a negation, at this position; the last one counts.\<close>

definition negated_items :: "('c, 't) chart \<Rightarrow> nat \<Rightarrow> item list" where
  "negated_items s i =
     filter (\<lambda>t. \<not> conjunctive (gr s) (i_prod t) \<and> completed (gr s) t \<and>
         (case get_nt (gr s) t of Nt n \<Rightarrow> take 4 (nts (gr s) ! n) = ''__N_'' | _ \<Rightarrow> False)) (vget i (S s))"

text \<open>A derived class that waits at the position before and rejects the character by negation. The fuel is
  the number of nonterminals, which bounds the depth of the inner rules.\<close>

definition class_rejects :: "('c, 't) chart \<Rightarrow> 't \<Rightarrow> item \<Rightarrow> bool" where
  "class_rejects s ch t \<longleftrightarrow> \<not> completed (gr s) t \<and>
     (case get_lit (gr s) t of
        Nt n \<Rightarrow> is_derived (cc_fns (gr s)) n \<and> cc_rejects_by_negation (length (nts (gr s)) + 1) (gr s) ch n
      | _ \<Rightarrow> False)"

definition unexpected :: "('c, 't::comm_ring_1) env \<Rightarrow> ('c, 't) chart \<Rightarrow> nat \<Rightarrow> 't lit list \<times> nat" where
  "unexpected e s i =
     (let ch = tat (conv e) (dec e) (inp s); ns = negated_items s i in
      if ns \<noteq> [] then (map (\<lambda>k. Tm (ch k)) [i_from (last ns)..<i_set (last ns)], i_from (last ns))
      else if i > 0 \<and> list_ex (class_rejects s (ch (i - 1))) (vget (i - 1) (S s)) then ([Tm (ch (i - 1))], i - 1)
      else ([Tm (ch i)], i))"

fun last_set :: "item list list \<Rightarrow> nat \<Rightarrow> nat option" where
  "last_set xss 0 = (if vget 0 xss \<noteq> [] then Some 0 else None)"
| "last_set xss (Suc i) = (if vget (Suc i) xss \<noteq> [] then Some (Suc i) else last_set xss i)"

text \<open>\<open>near_ctxt\<close>: the terminals from the position down to the delimiter.\<close>

definition near_ctxt :: "(nat \<Rightarrow> 't) \<Rightarrow> nat \<Rightarrow> nat \<Rightarrow> 't list" where
  "near_ctxt ch low pos = map ch (rev [low..<pos + 1])"

text \<open>The line, and the position of the last end of line before the location.\<close>

definition line_of :: "(nat \<Rightarrow> 't::comm_ring_1) \<Rightarrow> nat \<Rightarrow> nat \<times> nat" where
  "line_of ch loc = fold (\<lambda>j (line, low). if ch j = 10 then (line + 1, j) else (line, low)) [0..<loc] (1, 0)"

text \<open>The item as text: the next literal, the head, and the body with a bullet before the next literal.\<close>

definition bullet :: string where
  "bullet = map char_of [0xE2, 0x80, 0xA2, 0x20 :: nat]"

definition item2_ept :: "'t printer \<Rightarrow> ('t, 'z) grammar_scheme \<Rightarrow> item \<Rightarrow> exp_text" where
  "item2_ept tx g t =
     \<lparr>x_exp = lit_text tx g (get_lit g t), x_nt = lit_text tx g (get_nt g t),
      x_body = (if negative g t then ''~( '' else []) @
        concat (map (\<lambda>i. '' '' @ (if i_dot t = i then bullet else []) @ lit_text tx g (seq (body g (i_prod t) ! i_con t) ! i))
          [0..<n_literals g t]) @
        (if negative g t then '' )'' else []) @
        '' ['' @ decimal (i_from t) @ '','' @ decimal (i_set t) @ '']''\<rparr>"

definition get_error :: "'t printer \<Rightarrow> ('c, 't::comm_ring_1) env \<Rightarrow> ('c, 't) chart \<Rightarrow> 't parse_error \<times> ('c, 't) chart" where
  "get_error tx e s =
     (let ch = tat (conv e) (dec e) (inp s) in
      case last_set (S s) (tp (inp s)) of
        None \<Rightarrow> (\<lparr>e_loc = None, e_line = 1, e_col = 0, e_ctxt = near_ctxt ch 0 0, e_unexp = [], e_expv = []\<rparr>, s)
      | Some i \<Rightarrow>
          (let s = predict_all_at e i s; g = gr s; (unexp, loc) = unexpected e s i; (line, low) = line_of ch loc in
           (\<lparr>e_loc = Some loc, e_line = line, e_col = loc - low + 1, e_ctxt = near_ctxt ch low (loc + 1), e_unexp = unexp,
             e_expv = map (\<lambda>(x, bs). (item2_ept tx g x, map (item2_ept tx g) bs)) (expectations s i)\<rparr>, s)))"

text \<open>\<open>to_str\<close>. The context is stored backwards, one terminal beyond the location first.\<close>

definition unexp_text :: "'t::comm_ring_1 printer \<Rightarrow> ('t, 'z) grammar_scheme \<Rightarrow> 't lit list \<Rightarrow> string" where
  "unexp_text tx g ls =
     (let t = concat (map (\<lambda>l. let t = lit_text tx g l in if eof_lit l \<or> length t < 2 then [] else butlast (tl t)) ls);
          q = (if length ls > 1 then CHR 0x22 else CHR 0x27) in
      if (ls = [] \<or> \<not> list_all eof_lit ls) \<and> t \<noteq> [] then q # t @ [q] else ''end of file'')"

definition backtrack_text :: "exp_text list \<Rightarrow> string" where
  "backtrack_text bs = concat (map (\<lambda>(k, b).
     [CHR 0x0A, CHR 0x09] @ replicate (k + 1) (CHR 0x20) @ ''..required from '' @ [CHR 0x22] @ x_exp b @ [CHR 0x22] @
     '' in ('' @ x_nt b @ '' =>'' @ x_body b @ '')'') (take 9 (zip [0..<length bs] bs)))"

definition to_str :: "'t::comm_ring_1 printer \<Rightarrow> ('t, 'z) grammar_scheme \<Rightarrow> info_lvl \<Rightarrow> nat \<Rightarrow> 't parse_error \<Rightarrow> string" where
  "to_str tx g lvl line_start err =
     (if e_ctxt err = [] then []
      else
        ''Syntax Error: Unexpected '' @ unexp_text tx g (e_unexp err) @ '' at '' @ decimal (line_start + e_line err) @ '':'' @
        decimal (e_col err) @ '' ('' @ decimal (case e_loc err of None \<Rightarrow> 0 | Some l \<Rightarrow> l + 1) @ ''): '' @
        concat (map (pr_raw tx) (filter (\<lambda>t. \<not> is_eof t) (rev (tl (e_ctxt err))))) @
        (if lvl = Info_basic then []
         else concat (map (\<lambda>(x, bs). [CHR 0x0A] @ ''...expecting '' @ x_exp x @ '' due to ('' @ x_nt x @ '' =>'' @ x_body x @ '')'' @
           (if lvl = Info_detailed then [] else backtrack_text bs)) (e_expv err))))"

section \<open>What the report says is true\<close>

text \<open>What an item has read.\<close>

definition passed :: "('t, 'z) grammar_scheme \<Rightarrow> item \<Rightarrow> 't lit list" where
  "passed g x = take (i_dot x) (seq (body g (i_prod x) ! i_con x))"

fun waiting_chain :: "('t, 'z) grammar_scheme \<Rightarrow> item \<Rightarrow> item list \<Rightarrow> bool" where
  "waiting_chain g x [] = True"
| "waiting_chain g x (b # bs) \<longleftrightarrow> waits_for g x b \<and> waiting_chain g b bs"

lemma back_track_from_ok:
  assumes "sets_ok g ch xss"
  shows "waiting_chain g c (back_track_from g xss seen c) \<and> distinct (back_track_from g xss seen c) \<and>
    set (back_track_from g xss seen c) \<inter> set seen = {} \<and> (\<forall>b \<in> set (back_track_from g xss seen c). item_ok g ch b)"
  using assms
proof (induction g xss seen c rule: back_track_from.induct)
  case (1 g xss seen c)
  show ?case
  proof (cases "find (\<lambda>a. a \<notin> set seen \<and> waits_for g c a) (vget (i_from c) xss)")
    case None
    then have "back_track_from g xss seen c = []" by (subst back_track_from.simps) simp
    then show ?thesis by simp
  next
    case (Some a)
    note IH = 1(1)[OF Some 1(2)]
    have a: "a \<notin> set seen" "waits_for g c a" "a \<in> set (concat xss)" using find_vget[OF Some] by simp_all
    obtain ys where ys: "ys \<in> set xss" "a \<in> set ys" using a(3) by auto
    then obtain k where "k < length xss" "xss ! k = ys" unfolding in_set_conv_nth by blast
    then have "item_ok g ch a" using 1(2) ys(2) unfolding sets_ok_def by blast
    moreover have "back_track_from g xss seen c = a # back_track_from g xss (a # seen) a"
      by (subst back_track_from.simps) (simp add: Some)
    ultimately show ?thesis using IH a(1,2) by auto
  qed
qed

lemma passed_spans:
  assumes "item_ok g ch x" "\<not> completed g x"
  shows "spans g ch (passed g x) (i_from x) (i_set x)"
  using assms by (simp add: item_ok_def passed_def)

lemma chain_spans:
  "waiting_chain g x bs \<Longrightarrow> \<forall>y \<in> set (x # bs). item_ok g ch y \<Longrightarrow> \<not> completed g x \<Longrightarrow>
    spans g ch (concat (map (passed g) (rev (x # bs)))) (i_from (last (x # bs))) (i_set x)"
proof (induction bs arbitrary: x)
  case Nil
  then show ?case using passed_spans by simp
next
  case (Cons b bs)
  have b: "waits_for g x b" "waiting_chain g b bs" "\<not> completed g b" "i_from x = i_set b"
    using Cons.prems(1) by (simp_all add: waits_for_def)
  have "spans g ch (concat (map (passed g) (rev (b # bs)))) (i_from (last (b # bs))) (i_from x)"
    using Cons.IH[OF b(2) _ b(3)] Cons.prems(2) b(4) by simp
  moreover have "spans g ch (passed g x) (i_from x) (i_set x)"
    by (rule passed_spans[OF _ Cons.prems(3)]) (use Cons.prems(2) in simp)
  ultimately show ?case using spans_append by fastforce
qed

lemma insert_skipped_ok:
  assumes e: "plain_env e" and s: "chart_ok g0 ch i s"
  shows "chart_ok g0 ch i (insert_skipped e n c l s)"
proof -
  let ?f = "\<lambda>(p, k) s. if first_can_match (gr s) p k c then s else S_insert e (mk_item n p k n 0) s"
  have ins: "chart_ok g0 ch i (fold ?f pcs s)" if "chart_ok g0 ch i s" "\<forall>pc \<in> set pcs. pc_ok (gr s) pc" for pcs s
    using that
  proof (induction pcs arbitrary: s)
    case (Cons pc pcs)
    obtain p k where pc: "pc = (p, k)" by fastforce
    have g: "plain_grammar (gr s)" using Cons.prems(1) by (simp add: chart_ok_def)
    have "item_ok (gr s) ch (mk_item n p k n 0)" using item_ok_start[OF g] Cons.prems(2) pc by (simp add: pc_ok_def)
    then have "chart_ok g0 ch i (?f pc s)" "gr (?f pc s) = gr s"
      using S_insert_ok[OF e Cons.prems(1)] Cons.prems(1) pc by (auto simp: S_insert_def)
    then show ?case using Cons.IH[of "?f pc s"] Cons.prems(2) by (simp only: fold_simps list.set) simp
  qed simp
  have "plain_grammar (gr s)" using s by (simp add: chart_ok_def)
  then have "\<forall>pc \<in> set (seeds (gr s) l). pc_ok (gr s) pc" using pcs_ok by (simp add: seeds_def)
  then show ?thesis using ins[OF s] by (simp add: insert_skipped_def)
qed

lemma predict_all_at_ok:
  assumes e: "plain_env e" and s: "chart_ok g0 ch i s"
  shows "chart_ok g0 ch i (predict_all_at e n s)"
proof -
  have "chart_ok g0 ch i (fold (\<lambda>x s.
            if completed (gr s) x \<or> \<not> is_nt (get_lit (gr s) x) \<or> is_cc_fn (gr s) (lit_n (get_lit (gr s) x)) then s
            else insert_skipped e n c (get_lit (gr s) x) s) xs s)" if "chart_ok g0 ch i s" for c xs s
    using that by (induction xs arbitrary: s) (auto intro: insert_skipped_ok[OF e])
  then show ?thesis using s by (simp add: predict_all_at_def Let_def)
qed

lemma predict_all_at_inp [simp]: "inp (predict_all_at e n s) = inp s"
proof -
  have "inp (fold (\<lambda>(p, k) s. if first_can_match (gr s) p k c then s else S_insert e (mk_item n p k n 0) s) pcs s) = inp s"
    for c pcs s by (induction pcs arbitrary: s) (auto simp: S_insert_def split: prod.splits)
  then have "inp (insert_skipped e n c l s) = inp s" for c l s by (simp add: insert_skipped_def)
  then have "inp (fold (\<lambda>x s.
            if completed (gr s) x \<or> \<not> is_nt (get_lit (gr s) x) \<or> is_cc_fn (gr s) (lit_n (get_lit (gr s) x)) then s
            else insert_skipped e n c (get_lit (gr s) x) s) xs s) = inp s" for c xs s
    by (induction xs arbitrary: s) simp_all
  then show ?thesis by (simp add: predict_all_at_def Let_def)
qed

text \<open>The items that are reported, on a grammar without conjunctions.\<close>

lemma expectations_ok:
  assumes s: "chart_ok g0 ch i s" and x: "(x, bs) \<in> set (expectations s n)"
  shows "item_ok (gr s) ch x" "i_set x = n" "\<not> completed (gr s) x" "bs = back_track s x"
    "(\<exists>c. get_lit (gr s) x = Tm c) \<or> (\<exists>m. get_lit (gr s) x = Nt m \<and> is_cc_fn (gr s) m)"
proof -
  have g: "conjunctives (gr s) = {}" "sets_ok (gr s) ch (S s)" using s by (auto simp: chart_ok_def plain_grammar_def)
  obtain t where t: "t \<in> set (vget n (S s))" "x \<in> set (expected_of s t)" "bs = back_track s t"
    using x by (auto simp: expectations_def)
  have "x = t" "\<not> completed (gr s) t"
    "\<not> (case get_lit (gr s) t of Nt n \<Rightarrow> \<not> is_cc_fn (gr s) n | Tm c \<Rightarrow> False | Null \<Rightarrow> True)"
    using t(2) g(1) by (auto simp: expected_of_def conjunctive_def split: if_splits)
  then show "item_ok (gr s) ch x" "i_set x = n" "\<not> completed (gr s) x" "bs = back_track s x"
    "(\<exists>c. get_lit (gr s) x = Tm c) \<or> (\<exists>m. get_lit (gr s) x = Nt m \<and> is_cc_fn (gr s) m)"
    using vget_sets[OF g(2) t(1)] t(3) by (auto split: lit.splits)
qed

lemma last_set_Some: "last_set xss n = Some i \<longleftrightarrow> i \<le> n \<and> vget i xss \<noteq> [] \<and> (\<forall>j. i < j \<and> j \<le> n \<longrightarrow> vget j xss = [])"
proof (induction n)
  case (Suc n)
  show ?case
  proof (cases "vget (Suc n) xss = []")
    case True
    then show ?thesis using Suc by (auto simp: le_Suc_eq)
  next
    case False
    then show ?thesis by (auto simp: le_Suc_eq)
  qed
next
  case 0
  then show ?case by (cases i) auto
qed

lemma line_of_Suc:
  "line_of ch (Suc n) = (case line_of ch n of (line, low) \<Rightarrow> if ch n = 10 then (line + 1, n) else (line, low))"
  by (simp add: line_of_def)

lemma line_of_ok:
  "fst (line_of ch n) = Suc (card {j. j < n \<and> ch j = 10}) \<and>
    ((\<forall>j < n. ch j \<noteq> 10) \<longrightarrow> snd (line_of ch n) = 0) \<and>
    (\<forall>j < n. ch j = 10 \<and> (\<forall>k. j < k \<and> k < n \<longrightarrow> ch k \<noteq> 10) \<longrightarrow> snd (line_of ch n) = j)"
proof (induction n)
  case 0
  then show ?case by (simp add: line_of_def)
next
  case (Suc n)
  have "{j. j < Suc n \<and> ch j = 10} = (if ch n = 10 then insert n {j. j < n \<and> ch j = 10} else {j. j < n \<and> ch j = 10})"
    by (auto simp: less_Suc_eq)
  then have "card {j. j < Suc n \<and> ch j = 10} = card {j. j < n \<and> ch j = 10} + (if ch n = 10 then 1 else 0)" by simp
  then show ?case using Suc by (auto simp: line_of_Suc less_Suc_eq split: prod.splits)
qed

text \<open>C11: What the report of a rejected input says is true: each thing it says is expected is the next
  terminal or character class of an item that ends at the last position the recognizer reached; the items
  it goes back through are different and each waits, where the one before it began, for its
  nonterminal; and what they have read, from the outermost on, derives the input from where the last of
  them began to that position. It covers every grammar without conjunction and negation.\<close>
theorem report_is_explained:
  assumes e: "plain_env e" and g: "plain_grammar g" and i: "input_ok i" and r: "run_earley e False g i = Some (Ran s)"
    and err: "get_error tx e s = (err, s')" and n: "last_set (S s) (tp (inp s)) = Some n"
  shows "\<exists>xs. e_expv err = map (\<lambda>(x, bs). (item2_ept tx (gr s') x, map (item2_ept tx (gr s')) bs)) xs \<and> grows g (gr s') \<and>
    (\<forall>(x, bs) \<in> set xs. i_set x = n \<and> \<not> completed (gr s') x \<and>
      ((\<exists>c. get_lit (gr s') x = Tm c) \<or> (\<exists>m. get_lit (gr s') x = Nt m \<and> is_cc_fn (gr s') m)) \<and>
      waiting_chain (gr s') x bs \<and> distinct bs \<and>
      spans (gr s') (tat (conv e) None i) (concat (map (passed (gr s')) (rev (x # bs)))) (i_from (last (x # bs))) n)"
proof -
  let ?ch = "tat (conv e) None i" and ?s = "predict_all_at e n s"
  obtain i' where s: "chart_ok g ?ch i' s" using run_earley_ok[OF e g i r] by blast
  note s1 = predict_all_at_ok[OF e s, of n]
  have s': "s' = ?s" and ev: "e_expv err = map (\<lambda>(x, bs). (item2_ept tx (gr s') x, map (item2_ept tx (gr s')) bs)) (expectations s' n)"
    using err n by (simp_all add: get_error_def Let_def split_beta prod_eq_iff) auto
  have "waiting_chain (gr s') x bs \<and> distinct bs \<and>
      spans (gr s') ?ch (concat (map (passed (gr s')) (rev (x # bs)))) (i_from (last (x # bs))) n"
    if "(x, bs) \<in> set (expectations s' n)" for x bs
  proof -
    note x = expectations_ok[OF s1, of x bs n] that[unfolded s']
    have so: "sets_ok (gr ?s) ?ch (S ?s)" using s1 by (simp add: chart_ok_def)
    have b: "waiting_chain (gr ?s) x bs \<and> distinct bs \<and> (\<forall>y \<in> set bs. item_ok (gr ?s) ?ch y)"
      unfolding x(4)[OF x(6)] back_track_def using back_track_from_ok[OF so, of x "[]"] by blast
    then show ?thesis using chain_spans[of "gr ?s" x bs ?ch] x(1,2,3)[OF x(6)] unfolding s' by simp
  qed
  moreover have "i_set x = n" "\<not> completed (gr s') x"
    "(\<exists>c. get_lit (gr s') x = Tm c) \<or> (\<exists>m. get_lit (gr s') x = Nt m \<and> is_cc_fn (gr s') m)"
    if "(x, bs) \<in> set (expectations s' n)" for x bs
    using expectations_ok(2,3,5)[OF s1, of x bs n] that unfolding s' by simp_all
  ultimately have "\<forall>(x, bs) \<in> set (expectations s' n). i_set x = n \<and> \<not> completed (gr s') x \<and>
      ((\<exists>c. get_lit (gr s') x = Tm c) \<or> (\<exists>m. get_lit (gr s') x = Nt m \<and> is_cc_fn (gr s') m)) \<and>
      waiting_chain (gr s') x bs \<and> distinct bs \<and>
      spans (gr s') ?ch (concat (map (passed (gr s')) (rev (x # bs)))) (i_from (last (x # bs))) n"
    by (simp only: split_paired_all Ball_def prod.case) blast
  moreover have "grows g (gr s')" using s1 by (simp add: s' chart_ok_def)
  ultimately show ?thesis using ev by (intro exI[of _ "expectations s' n"] conjI)
qed

text \<open>C12: Where the error is: without a rejection by negation the location is the last position that has an
  item, and the unexpected terminal is the one there. The line is the number of ends of line before the
  location, plus one. On the first line the first column is 1; on the lines after it the first column is 2,
  since the column counts from the end of line before it.\<close>
theorem error_position:
  assumes err: "get_error tx e s = (err, s')" and n: "last_set (S s) (tp (inp s)) = Some n"
  defines "ch \<equiv> tat (conv e) (dec e) (inp s)"
  shows "\<exists>loc. e_loc err = Some loc \<and> e_line err = Suc (card {j. j < loc \<and> ch j = 10}) \<and>
    ((\<forall>j < loc. ch j \<noteq> 10) \<longrightarrow> e_col err = loc + 1) \<and>
    (\<forall>j < loc. ch j = 10 \<and> (\<forall>k. j < k \<and> k < loc \<longrightarrow> ch k \<noteq> 10) \<longrightarrow> e_col err = (loc - (j + 1)) + 2) \<and>
    (negated_items s' n = [] \<and> (n > 0 \<longrightarrow> \<not> list_ex (class_rejects s' (ch (n - 1))) (vget (n - 1) (S s'))) \<longrightarrow>
      loc = n \<and> e_unexp err = [Tm (ch n)])"
proof -
  obtain unexp loc where u: "unexpected e (predict_all_at e n s) n = (unexp, loc)" by fastforce
  have s': "s' = predict_all_at e n s" and el: "e_loc err = Some loc" "e_line err = fst (line_of ch loc)"
    "e_col err = loc - snd (line_of ch loc) + 1" "e_unexp err = unexp"
    using err n u unfolding ch_def by (auto simp: get_error_def Let_def split: prod.splits)
  have "loc = n \<and> unexp = [Tm (ch n)]"
    if "negated_items s' n = []" "n > 0 \<longrightarrow> \<not> list_ex (class_rejects s' (ch (n - 1))) (vget (n - 1) (S s'))"
    using u that unfolding s' ch_def by (auto simp: unexpected_def Let_def split: if_splits)
  moreover have "e_col err = (loc - (j + 1)) + 2" if "j < loc" "ch j = 10" "\<forall>k. j < k \<and> k < loc \<longrightarrow> ch k \<noteq> 10" for j
    using line_of_ok[of ch loc] that el(3) by auto
  ultimately show ?thesis using line_of_ok[of ch loc] el by auto
qed

definition int_printer :: "int printer" where
  "int_printer = \<lparr>pr_raw = (\<lambda>c. decimal (nat c)), pr_quoted = (\<lambda>c. CHR 0x27 # decimal (nat c) @ [CHR 0x27])\<rparr>"

lemma rejected_run:
  "case run_earley (digits_env False) False digits_grammar (digits_input [5, 7]) of
     Some (Ran s) \<Rightarrow> last_set (S s) (tp (inp s)) = Some 1 | _ \<Rightarrow> False"
  by code_simp

theorem report_is_explained_witness:
  "\<exists>s s' err xs. run_earley (digits_env False) False digits_grammar (digits_input [5, 7]) = Some (Ran s) \<and>
    get_error int_printer (digits_env False) s = (err, s') \<and>
    e_expv err = map (\<lambda>(x, bs). (item2_ept int_printer (gr s') x, map (item2_ept int_printer (gr s')) bs)) xs \<and>
    (\<forall>(x, bs) \<in> set xs. i_set x = 1 \<and> waiting_chain (gr s') x bs)"
proof -
  obtain s where s: "run_earley (digits_env False) False digits_grammar (digits_input [5, 7]) = Some (Ran s)"
    "last_set (S s) (tp (inp s)) = Some 1"
    using rejected_run by (auto split: option.splits run_end.splits)
  obtain err s' where err: "get_error int_printer (digits_env False) s = (err, s')" by fastforce
  show ?thesis using report_is_explained[OF digits_plain s(1) err s(2)] s(1) err by fast
qed

text \<open>Lines of digits.\<close>

definition lines_grammar :: "int grammar" where
  "lines_grammar = digits_grammar\<lparr>cc_fns := (cc_fns digits_grammar)\<lparr>fns := [1 \<mapsto> (\<lambda>c. c = 5 \<or> c = 10)]\<rparr>\<rparr>"

lemma lines_run:
  "case run_earley (digits_env False) False lines_grammar (digits_input [5, 10, 7]) of
     Some (Ran s) \<Rightarrow> last_set (S s) (tp (inp s)) = Some 2 \<and> inp s = (digits_input [5, 10, 7])\<lparr>pos_n := 3, tp := 3\<rparr> \<and>
       (let s = predict_all_at (digits_env False) 2 s in negated_items s 2 = [] \<and> \<not> list_ex (class_rejects s 10) (vget 1 (S s)))
   | _ \<Rightarrow> False"
  by code_simp

text \<open>The character 7 is the first one of the second line.\<close>
theorem error_position_witness:
  "\<exists>s s' err. run_earley (digits_env False) False lines_grammar (digits_input [5, 10, 7]) = Some (Ran s) \<and>
    get_error int_printer (digits_env False) s = (err, s') \<and> e_loc err = Some 2 \<and> e_line err = 2 \<and> e_col err = 2"
proof -
  obtain s where s: "run_earley (digits_env False) False lines_grammar (digits_input [5, 10, 7]) = Some (Ran s)"
    "last_set (S s) (tp (inp s)) = Some 2" "inp s = (digits_input [5, 10, 7])\<lparr>pos_n := 3, tp := 3\<rparr>"
    "negated_items (predict_all_at (digits_env False) 2 s) 2 = []"
    "\<not> list_ex (class_rejects (predict_all_at (digits_env False) 2 s) 10) (vget 1 (S (predict_all_at (digits_env False) 2 s)))"
    using lines_run by (auto simp: Let_def split: option.splits run_end.splits)
  obtain err s' where err: "get_error int_printer (digits_env False) s = (err, s')" by fastforce
  have s': "s' = predict_all_at (digits_env False) 2 s"
    using err s(2) by (auto simp: get_error_def Let_def split: prod.splits)
  let ?ch = "tat (conv (digits_env False)) (dec (digits_env False)) (inp s)"
  have ch: "?ch 0 = 5" "?ch 1 = 10" unfolding s(3)
    by (simp_all add: tat_def char_at_def digits_env_def digits_input_def input_of_pointer_def)
  then have "{j. j < 2 \<and> ?ch j = 10} = {1}" by (auto simp: less_2_cases_iff)
  then show ?thesis using error_position[OF err s(2)] s(1,4,5) err ch unfolding s' by auto
qed

end
