(* ===== verification/Options.thy ===== *)
theory Options
  imports Escapes
begin

text \<open>
  The option values of \<open>src/src/utility/options_types.h\<close> and \<open>options_types.tmpl.h\<close>: the value
  type, the kinds, and the text form of a value, which \<open>parse_value\<close> reads and \<open>format_value\<close>
  prints. A numeric value is a \<open>size_t\<close> and kept at its width. A string is its bytes. A scan of a string by an index is a recursion over the suffix
  that starts there; \<open>std::string_view::npos\<close> is \<open>None\<close>. The character classes are those of the
  C locale.
\<close>

section \<open>Values and errors\<close>

text \<open>The bytes of a string literal of the source.\<close>

definition str :: "string \<Rightarrow> u8 list" where
  "str s = map of_char s"

datatype option_value =
    Flag bool | Numeric "64 word" | Text "u8 list" | Entries "u8 list list"

datatype option_kind = Kind_flag | Kind_numeric | Kind_text | Kind_list

fun kind_of :: "option_value \<Rightarrow> option_kind" where
  "kind_of (Flag _) = Kind_flag"
| "kind_of (Numeric _) = Kind_numeric"
| "kind_of (Text _) = Kind_text"
| "kind_of (Entries _) = Kind_list"

text \<open>The entries of a report: one constructor per message of \<open>parser_strings.h\<close>, with the
  attributes the call passes. \<open>Err_field\<close> is what the codec of a field reports, \<open>Info_help\<close> the
  help text that goes along with some errors.\<close>

datatype option_error =
    Err_escape nat esc_error
  | Err_bad_value "u8 list" "u8 list"
  | Err_command_exists "u8 list"
  | Err_option_exists "u8 list"
  | Err_short_name_taken "u8 list" "u8 list" u8
  | Err_command_default_kind "u8 list" "u8 list"
  | Err_global_default "u8 list"
  | Err_value_kind "u8 list"
  | Err_not_found "u8 list"
  | Err_env_bad_value "u8 list" "u8 list"
  | Err_missing_argument "u8 list"
  | Err_unknown_command "u8 list"
  | Err_second_command "u8 list"
  | Err_no_such_input "u8 list"
  | Err_field "u8 list"
  | Info_help "u8 list"

type_synonym 'a option_result = "option_error list + 'a"

section \<open>Reading\<close>

definition isspace :: "u8 \<Rightarrow> bool" where
  "isspace c \<longleftrightarrow> c = 0x20 \<or> 0x09 \<le> c \<and> c \<le> 0x0D"

definition isdigit :: "u8 \<Rightarrow> bool" where
  "isdigit c \<longleftrightarrow> 0x30 \<le> c \<and> c \<le> 0x39"

definition tolower :: "u8 \<Rightarrow> u8" where
  "tolower c = (if 0x41 \<le> c \<and> c \<le> 0x5A then c + 0x20 else c)"

definition option_trim :: "u8 list \<Rightarrow> u8 list" where
  "option_trim s = rev (dropWhile isspace (rev (dropWhile isspace s)))"

text \<open>The loop of \<open>option_quote_end\<close> at the index \<open>i\<close>, with the suffix that starts there.\<close>

fun quote_end_from :: "nat \<Rightarrow> u8 list \<Rightarrow> nat option" where
  "quote_end_from i [] = None"
| "quote_end_from i (c # s) =
     (if c = 0x5c then (case s of [] \<Rightarrow> None | _ # s' \<Rightarrow> quote_end_from (i + 2) s')
      else if c = 0x22 then Some (i + 1)
      else quote_end_from (i + 1) s)"

definition option_quote_end :: "u8 list \<Rightarrow> nat \<Rightarrow> nat option" where
  "option_quote_end s i = quote_end_from (i + 1) (drop (i + 1) s)"

definition option_unquote :: "u8 list \<Rightarrow> u8 list option_result" where
  "option_unquote quoted =
     (case decode (take (length quoted - 2) (drop 1 quoted)) tgf_string of
        Inl (pos, e) \<Rightarrow> Inl [Err_escape pos e]
      | Inr v \<Rightarrow> Inr v)"

text \<open>The loop of \<open>option_list_entries\<close> at the suffix \<open>s\<close>.\<close>

function option_list_entries :: "u8 list \<Rightarrow> u8 list list option_result" where
  "option_list_entries s =
    (let s1 = dropWhile isspace s in
     if s1 \<noteq> [] \<and> hd s1 = 0x22 then
       (case option_quote_end s1 0 of
          None \<Rightarrow> Inl []
        | Some e \<Rightarrow>
          (case option_unquote (take e s1) of
             Inl rep \<Rightarrow> Inl rep
           | Inr entry \<Rightarrow>
             (let r = dropWhile isspace (drop e s1) in
              if r \<noteq> [] \<and> hd r \<noteq> 0x2c then Inl []
              else if r = [] then Inr [entry]
              else prepend [entry] (option_list_entries (tl r)))))
     else
       (let part = option_trim (takeWhile (\<lambda>c. c \<noteq> 0x2c) s1);
            found = (if part \<noteq> [] then [part] else []);
            r = dropWhile (\<lambda>c. c \<noteq> 0x2c) s1 in
        if r = [] then Inr found else prepend found (option_list_entries (tl r))))"
  by pat_completeness auto

lemma tl_dropWhile_less: "dropWhile P (drop n (dropWhile Q s)) \<noteq> [] \<Longrightarrow>
    length (tl (dropWhile P (drop n (dropWhile Q s)))) < length s"
  using length_dropWhile_le[of P "drop n (dropWhile Q s)"] length_dropWhile_le[of Q s]
  by (cases "dropWhile P (drop n (dropWhile Q s))") auto

termination option_list_entries
proof (relation "measure length", simp, goal_cases)
  case (1 s s1 e entry r)
  then show ?case using tl_dropWhile_less[of isspace e isspace s] by auto
next
  case (2 s s1 part found r)
  then show ?case using tl_dropWhile_less[of "\<lambda>c. c \<noteq> 0x2c" 0 isspace s] by auto
qed

declare option_list_entries.simps [simp del]

text \<open>\<open>std::from_chars\<close> into a \<open>size_t\<close>: the value and the number of digits it read.\<close>

definition decimal :: "u8 list \<Rightarrow> nat" where
  "decimal ds = foldl (\<lambda>v c. 10 * v + unat (c - 0x30)) 0 ds"

definition from_chars :: "u8 list \<Rightarrow> (nat \<times> nat) option" where
  "from_chars s =
    (let ds = takeWhile isdigit s in
     if ds = [] \<or> decimal ds > SIZE_MAX then None else Some (decimal ds, length ds))"

definition true_words :: "u8 list list" where
  "true_words = map str [''true'', ''on'', ''1'', ''yes'', ''y'', ''t'']"

definition false_words :: "u8 list list" where
  "false_words = map str [''false'', ''off'', ''0'', ''no'', ''n'', ''f'']"

definition parse_value :: "option_kind \<Rightarrow> u8 list \<Rightarrow> u8 list \<Rightarrow> option_value option_result" where
  "parse_value k text name =
    (let trimmed = option_trim text; bad = Err_bad_value name text in
     case k of
       Kind_flag \<Rightarrow>
         (let w = map tolower trimmed in
          if w \<in> set true_words then Inr (Flag True)
          else if w \<in> set false_words then Inr (Flag False)
          else Inl [bad])
     | Kind_numeric \<Rightarrow>
         (case from_chars trimmed of
            Some (v, n) \<Rightarrow> if trimmed \<noteq> [] \<and> n = length trimmed then Inr (Numeric (of_nat v)) else Inl [bad]
          | None \<Rightarrow> Inl [bad])
     | Kind_text \<Rightarrow>
         (if trimmed = [] \<or> hd trimmed \<noteq> 0x22 then Inr (Text trimmed)
          else if option_quote_end trimmed 0 = Some (length trimmed) then
            (case option_unquote trimmed of
               Inr v \<Rightarrow> Inr (Text v)
             | Inl rep \<Rightarrow> Inl (rep @ [bad]))
          else Inl [bad])
     | Kind_list \<Rightarrow>
         (case option_list_entries trimmed of
            Inr v \<Rightarrow> Inr (Entries v)
          | Inl rep \<Rightarrow> Inl (rep @ [bad])))"

section \<open>Printing\<close>

definition option_reads_bare :: "u8 list \<Rightarrow> bool \<Rightarrow> bool" where
  "option_reads_bare v in_list =
    (if v = [] then \<not> in_list
     else if in_list \<and> 0x2c \<in> set v then False
     else if list_ex (\<lambda>c. c = 0x22 \<or> c = 0x5c \<or> c < 0x20 \<or> c = 0x7F) v then False
     else \<not> isspace (hd v) \<and> \<not> isspace (last v))"

definition option_quote :: "u8 list \<Rightarrow> bool \<Rightarrow> u8 list" where
  "option_quote v in_list =
    (if option_reads_bare v in_list then v else 0x22 # encode_bytes v tgf_string @ [0x22])"

text \<open>\<open>std::to_string\<close> of a \<open>size_t\<close>.\<close>

definition to_string :: "nat \<Rightarrow> u8 list" where
  "to_string n = map (digit_char 0x61) (radix_digits 10 n)"

fun format_value :: "option_value \<Rightarrow> u8 list" where
  "format_value (Flag b) = (if b then str ''true'' else str ''false'')"
| "format_value (Numeric n) = to_string (unat n)"
| "format_value (Text t) = option_quote t False"
| "format_value (Entries xs) =
     foldl (\<lambda>out s. (if out \<noteq> [] then out @ [0x2c, 0x20] else out) @ option_quote s True) [] xs"

section \<open>Reading back what was printed\<close>

lemma decode_encoded:
  assumes "profile_ok p" shows "decode (encode_bytes bs p) p = Inr bs"
proof -
  have "list_all (\<lambda>u. u < 0x100) (map ucast bs :: u32 list)"
    using unat_u8 by (auto simp: list_all_iff word_less_nat_alt unat_ucast_u8_u32)
  from bytes.decode_units[OF assms this, of 0] show ?thesis
    by (simp add: decode_def encode_bytes_def comp_def)
qed

lemma tgf_string_ok: "profile_ok tgf_string"
  using builtin_profiles_ok by simp

text \<open>A quoted unit is one the scan for the closing quote goes over.\<close>

definition scans_over :: "u8 list \<Rightarrow> bool" where
  "scans_over e \<longleftrightarrow> (\<forall>i s. quote_end_from i (e @ s) = quote_end_from (i + length e) s)"

lemma scans_over_plain: "c \<noteq> 0x22 \<Longrightarrow> c \<noteq> 0x5c \<Longrightarrow> scans_over [c]"
  by (simp add: scans_over_def)

lemma scans_over_append: "scans_over x \<Longrightarrow> scans_over y \<Longrightarrow> scans_over (x @ y)"
  by (simp add: scans_over_def add.assoc)

lemma scans_over_escape: "scans_over [0x5c, c]"
  by (simp add: scans_over_def)

lemma scans_over_digits: "list_all isxdigit ds \<Longrightarrow> scans_over ds"
proof (induction ds)
  case Nil then show ?case by (simp add: scans_over_def)
next
  case (Cons d ds)
  then have "scans_over [d]" by (intro scans_over_plain) (auto simp: isxdigit_def)
  from scans_over_append[OF this] Cons show ?case by simp
qed

lemma hex_digits_of_controls:
  "list_all (\<lambda>v. list_all isxdigit (fmt_radix 16 2 0x61 v)) control_units"
  by code_simp

lemma ucast_u8_eq_iff: "(ucast (c :: u8) :: u32) = ucast (d :: u8) \<longleftrightarrow> c = d"
  by (metis ucast_u8_u32_u8)

lemma ucast_u8_consts:
  "(0x22 :: u32) = ucast (0x22 :: u8)" "(0x5c :: u32) = ucast (0x5c :: u8)" "(0x7F :: u32) = ucast (0x7F :: u8)"
  by simp_all

lemma scans_over_unit: "scans_over (encode_unit (\<lambda>v. [ucast v]) tgf_string (ucast (c :: u8)))"
proof (cases "c = 0x22 \<or> c = 0x5c")
  case True
  then have "encode_unit (\<lambda>v. [ucast v]) tgf_string (ucast c) = [0x5c, c]"
    by (auto simp: encode_unit_def tgf_string_def to_cp_def)
  then show ?thesis by (simp add: scans_over_escape)
next
  case False
  then have ne: "(ucast c :: u32) \<noteq> 0x22" "(ucast c :: u32) \<noteq> 0x5c"
    unfolding ucast_u8_consts(1,2) ucast_u8_eq_iff by auto
  let ?e = "emit_escaped_value (ucast c) tgf_string"
  have ctl: "scans_over (the ?e)" if "(ucast c :: u32) < 0x20 \<or> (ucast c :: u32) = 0x7F"
  proof -
    have m: "ucast c \<in> set control_units" by (rule control_units[OF that])
    then have "list_all isxdigit (fmt_radix 16 2 0x61 (ucast c))" "(ucast c :: u32) \<le> 0xFF"
      using hex_digits_of_controls small by (auto simp: list_all_iff)
    then have "?e = Some ([0x5c, 0x78] @ fmt_radix 16 2 0x61 (ucast c))"
      by (simp add: emit_escaped_value_def tgf_string_def append_cp_def to_cp_def)
    then show ?thesis
      using scans_over_append[OF scans_over_escape scans_over_digits] m hex_digits_of_controls
      by (auto simp: list_all_iff)
  qed
  have some: "?e = Some (the ?e)"
    by (auto simp: emit_escaped_value_def tgf_string_def Let_def)
  consider (letter) "control_escape_char (ucast c) \<noteq> 0" "control_escape_char (ucast c) \<in> set (escape_chars tgf_string)"
    | (ctl) "\<not> (control_escape_char (ucast c) \<noteq> 0 \<and> control_escape_char (ucast c) \<in> set (escape_chars tgf_string))"
        "(ucast c :: u32) < 0x20 \<or> (ucast c :: u32) = 0x7F"
    | (raw) "\<not> (control_escape_char (ucast c) \<noteq> 0 \<and> control_escape_char (ucast c) \<in> set (escape_chars tgf_string))"
        "\<not> ((ucast c :: u32) < 0x20 \<or> (ucast c :: u32) = 0x7F)" by blast
  then show ?thesis
  proof cases
    case letter
    then have "encode_unit (\<lambda>v. [ucast v]) tgf_string (ucast c) = [0x5c, control_escape_char (ucast c)]"
      using ne by (simp add: encode_unit_def tgf_string_def to_cp_def)
    then show ?thesis by (simp add: scans_over_escape)
  next
    case ctl
    then have "encode_unit (\<lambda>v. [ucast v]) tgf_string (ucast c) = the ?e"
      using ne some by (auto simp: encode_unit_def tgf_string_def to_cp_def split: option.splits)
    then show ?thesis using \<open>_ \<Longrightarrow> scans_over (the ?e)\<close> ctl(2) by simp
  next
    case raw
    then have "encode_unit (\<lambda>v. [ucast v]) tgf_string (ucast c) = [c]"
      using ne by (auto simp: encode_unit_def tgf_string_def to_cp_def)
    then show ?thesis using False by (simp add: scans_over_plain)
  qed
qed

lemma scans_over_encoded: "scans_over (encode_bytes bs tgf_string)"
proof (induction bs)
  case Nil then show ?case by (simp add: encode_bytes_def scans_over_def)
next
  case (Cons b bs)
  then show ?case using scans_over_append[OF scans_over_unit] by (simp add: encode_bytes_def)
qed

lemma quote_end_of_quoted:
  "option_quote_end (0x22 # encode_bytes bs tgf_string @ 0x22 # rest) 0
     = Some (length (encode_bytes bs tgf_string) + 2)"
  using scans_over_encoded[of bs, unfolded scans_over_def, rule_format, of 1 "0x22 # rest"]
  by (simp add: option_quote_end_def)

lemma unquote_quoted: "option_unquote (0x22 # encode_bytes bs tgf_string @ [0x22]) = Inr bs"
  using decode_encoded[OF tgf_string_ok, of bs] by (simp add: option_unquote_def)

text \<open>A string that starts and ends with no space is its own trimmed form.\<close>

definition tight :: "u8 list \<Rightarrow> bool" where
  "tight s \<longleftrightarrow> s = [] \<or> \<not> isspace (hd s) \<and> \<not> isspace (last s)"

lemma trim_tight:
  assumes "tight s" shows "option_trim s = s"
proof (cases "s = []")
  case True then show ?thesis by (simp add: option_trim_def)
next
  case False
  have "dropWhile isspace s = s" using assms False by (cases s) (simp_all add: tight_def)
  moreover have "dropWhile isspace (rev s) = rev s"
    using assms False by (cases s rule: rev_cases) (simp_all add: tight_def)
  ultimately show ?thesis by (simp add: option_trim_def)
qed

lemma tight_quoted: "tight (0x22 # e @ [0x22])"
  by (simp add: tight_def isspace_def)

lemma tight_bare: "option_reads_bare v in_list \<Longrightarrow> tight v"
  by (simp add: option_reads_bare_def tight_def split: if_splits)

lemma bare_no_quote: "option_reads_bare v in_list \<Longrightarrow> 0x22 \<notin> set v"
  by (auto simp: option_reads_bare_def list_ex_iff split: if_splits)

lemma tight_option_quote: "tight (option_quote v in_list)"
  by (simp add: option_quote_def tight_bare tight_quoted)

lemma option_quote_nonempty: "option_quote v True \<noteq> []"
  by (auto simp: option_quote_def option_reads_bare_def)

text \<open>The list as one string, without the accumulator.\<close>

fun join_entries :: "u8 list list \<Rightarrow> u8 list" where
  "join_entries [] = []"
| "join_entries (s # xs) = option_quote s True @ (if xs = [] then [] else 0x2c # 0x20 # join_entries xs)"

lemma format_fold:
  "out \<noteq> [] \<Longrightarrow> foldl (\<lambda>out s. (if out \<noteq> [] then out @ [0x2c, 0x20] else out) @ option_quote s True) out xs
     = (if xs = [] then out else out @ 0x2c # 0x20 # join_entries xs)"
  by (induction xs arbitrary: out) simp_all

lemma format_entries: "format_value (Entries xs) = join_entries xs"
  by (cases xs) (simp_all add: format_fold option_quote_nonempty)

lemma join_nonempty: "xs \<noteq> [] \<Longrightarrow> join_entries xs \<noteq> []"
  by (cases xs) (simp_all add: option_quote_nonempty)

lemma tight_join: "tight (join_entries xs)"
proof (induction xs)
  case (Cons s xs)
  then show ?case
    using tight_option_quote[of s True] option_quote_nonempty[of s] join_nonempty[of xs]
    by (auto simp: tight_def hd_append)
qed (simp add: tight_def)

lemma entries_space: "option_list_entries (0x20 # s) = option_list_entries s"
  by (subst (1 2) option_list_entries.simps) (simp add: isspace_def)

lemma entries_step:
  assumes "rest = [] \<or> hd rest = 0x2c"
  shows "option_list_entries (option_quote x True @ rest)
    = (if rest = [] then Inr [x] else prepend [x] (option_list_entries (tl rest)))"
proof -
  have r: "dropWhile isspace rest = rest" using assms by (cases rest) (auto simp: isspace_def)
  show ?thesis
  proof (cases "option_reads_bare x True")
    case False
    let ?q = "0x22 # encode_bytes x tgf_string @ [0x22]"
    have "option_quote x True = ?q" using False by (simp add: option_quote_def)
    moreover have "option_list_entries (?q @ rest)
        = (if rest = [] then Inr [x] else prepend [x] (option_list_entries (tl rest)))"
      using quote_end_of_quoted[of x rest] unquote_quoted[of x] r assms
      by (subst option_list_entries.simps) (cases rest; simp add: Let_def isspace_def)
    ultimately show ?thesis by simp
  next
    case True
    then have q: "option_quote x True = x" by (simp add: option_quote_def)
    have b: "x \<noteq> []" "0x2c \<notin> set x" "\<not> isspace (hd x)"
      using True by (auto simp: option_reads_bare_def split: if_splits)
    then have b4: "hd x \<noteq> 0x22" using bare_no_quote[OF True] by (cases x) auto
    have s1: "dropWhile isspace (x @ rest) = x @ rest" using b by (cases x) auto
    have c: "takeWhile (\<lambda>c. c \<noteq> 0x2c) (x @ rest) = x" "dropWhile (\<lambda>c. c \<noteq> 0x2c) (x @ rest) = rest"
      using b(2) assms by (cases rest; fastforce simp: takeWhile_append dropWhile_append)+
    show ?thesis unfolding q
      using b b4 s1 c trim_tight[OF tight_bare[OF True]]
      by (subst option_list_entries.simps) (simp add: Let_def)
  qed
qed

lemma entries_of_join: "option_list_entries (join_entries xs) = Inr xs"
proof (induction xs)
  case Nil then show ?case by (subst option_list_entries.simps) (simp add: option_trim_def)
next
  case (Cons s xs)
  then show ?case
    using entries_step[of "[]" s] entries_step[of "0x2c # 0x20 # join_entries xs" s]
    by (simp add: entries_space prepend_def)
qed

lemma decimal_append: "decimal (ds @ [d]) = 10 * decimal ds + unat (d - 0x30)"
  by (simp add: decimal_def)

lemma digit_char_dec:
  assumes "d < 10"
  shows "isdigit (digit_char 0x61 d)" "unat (digit_char 0x61 d - 0x30) = d"
proof -
  have "d \<in> {0, 1, 2, 3, 4, 5, 6, 7, 8, 9}" using assms by auto
  then show "isdigit (digit_char 0x61 d)" "unat (digit_char 0x61 d - 0x30) = d"
    by (auto simp: digit_char_def isdigit_def)
qed

lemma to_string_digits: "list_all isdigit (to_string n) \<and> to_string n \<noteq> [] \<and> decimal (to_string n) = n"
proof (induction n rule: less_induct)
  case (less n)
  show ?case
  proof (cases "n < 10")
    case True
    then show ?thesis
      by (simp add: to_string_def radix_digits.simps[of 10 n] digit_char_dec decimal_def)
  next
    case False
    then have "to_string n = to_string (n div 10) @ [digit_char 0x61 (n mod 10)]"
      by (simp add: to_string_def radix_digits.simps[of 10 n])
    then show ?thesis using less[of "n div 10"] False
      by (simp add: decimal_append digit_char_dec)
  qed
qed

lemma tight_digits: "list_all isdigit s \<Longrightarrow> tight s"
proof -
  have *: "isdigit c \<Longrightarrow> \<not> isspace c" for c
    by (auto simp: isdigit_def isspace_def word_le_nat_alt)
  assume "list_all isdigit s"
  then show ?thesis by (cases "s = []") (auto simp: tight_def list_all_iff *)
qed

lemma tight_format: "tight (format_value v)"
proof (cases v)
  case (Flag b) then show ?thesis by (simp add: tight_def isspace_def str_def)
next
  case (Numeric n) then show ?thesis using to_string_digits tight_digits by simp
next
  case (Text t) then show ?thesis by (simp add: tight_option_quote)
next
  case (Entries xs) then show ?thesis using tight_join format_entries by simp
qed

lemma from_chars_to_string:
  "from_chars (to_string (unat (w :: 64 word))) = Some (unat w, length (to_string (unat w)))"
proof -
  let ?n = "unat w"
  have d: "list_all isdigit (to_string ?n)" "to_string ?n \<noteq> []" "decimal (to_string ?n) = ?n"
    using to_string_digits by auto
  then have "takeWhile isdigit (to_string ?n) = to_string ?n"
    by (simp add: list_all_iff takeWhile_eq_all_conv)
  moreover have "?n < 2 ^ 64" using unsigned_less[of w] by simp
  ultimately show ?thesis
    using d(2,3) by (simp only: from_chars_def Let_def) (simp add: SIZE_MAX_def)
qed

lemma parse_value_kind: "parse_value k s name = Inr v \<Longrightarrow> kind_of v = k"
  by (cases k) (auto simp: parse_value_def Let_def split: if_splits option.splits prod.splits sum.splits)

lemma parse_format:
  "parse_value (kind_of v) (format_value v) name = Inr v"
proof (cases v)
  case (Flag b)
  then show ?thesis using trim_tight[OF tight_format[of v]]
    by (simp add: parse_value_def Let_def true_words_def false_words_def tolower_def str_def)
next
  case (Numeric n)
  then show ?thesis
    using from_chars_to_string[of n] to_string_digits[of "unat n"] trim_tight[OF tight_format[of v]]
    by (simp add: parse_value_def)
next
  case (Text t)
  have tr: "option_trim (option_quote t False) = option_quote t False"
    by (rule trim_tight[OF tight_option_quote])
  show ?thesis
  proof (cases "option_reads_bare t False")
    case True
    then have "t = [] \<or> hd t \<noteq> 0x22" using bare_no_quote[OF True] by (cases t) auto
    then show ?thesis using True Text tr by (auto simp: parse_value_def option_quote_def)
  next
    case False
    then have "option_quote t False = 0x22 # encode_bytes t tgf_string @ [0x22]"
      by (simp add: option_quote_def)
    then show ?thesis
      using tr Text quote_end_of_quoted[of t "[]"] unquote_quoted[of t] by (simp add: parse_value_def)
  qed
next
  case (Entries xs)
  then show ?thesis
    using trim_tight[OF tight_format[of v]] entries_of_join[of xs] format_entries[of xs]
    by (simp add: parse_value_def)
qed

text \<open>A failure is reported.\<close>

lemma parse_value_error: "parse_value k s name \<noteq> Inl []"
  by (cases k) (auto simp: parse_value_def Let_def split: option.splits sum.splits prod.splits)

section \<open>Properties\<close>

text \<open>C34: the text form of an option value reads back as the value, for every kind: a text or a
  list entry with spaces, commas, quotes, backslashes or control characters included, an empty
  text, an empty list and a list of empty entries.\<close>

theorem format_parse_roundtrip:
  "parse_value (kind_of v) (format_value v) name = Inr v"
  by (rule parse_format)

end
