(* ===== verification/OptionsRepo.thy ===== *)
theory OptionsRepo
  imports Options
begin

text \<open>
  The options repository of \<open>src/src/utility/options.h\<close> and \<open>options.tmpl.h\<close>: the catalog of the
  declared options and commands, the stored values, the fields that are bound to options, and the
  operations that read and write them. The state is a record that goes through the operations;
  the memory that holds the bound fields is its component \<open>world\<close>, and a bound field is what the
  code sees of it, a reader, a writer and a hook over that memory. A hook does not call the
  repository. A report is the list of its entries, empty when the operation succeeds. The
  \<open>DBG\<close> assertions are compiled out, as in a release build: a call they reject returns as the
  code after them does.
\<close>

section \<open>Declarations\<close>

record option_surface =
  sf_command :: "u8 list"
  sf_short_name :: u8
  sf_fallback :: "option_value option"

record option_spec =
  o_name :: "u8 list"
  o_owner :: "u8 list"
  o_fallback :: option_value
  o_help :: "u8 list"
  o_surfaces :: "option_surface list"
  o_from_env :: bool
  o_raw :: bool

record command_spec =
  c_name :: "u8 list"
  c_help :: "u8 list"

record option_set =
  set_options :: "option_spec list"
  set_commands :: "command_spec list"

abbreviation kind_of_spec :: "option_spec \<Rightarrow> option_kind" where
  "kind_of_spec o1 \<equiv> kind_of (o_fallback o1)"

record options_catalog =
  specs :: "option_spec list"
  index :: "u8 list \<rightharpoonup> nat"
  commands :: "command_spec list"

definition cat_find :: "options_catalog \<Rightarrow> u8 list \<Rightarrow> nat option" where
  "cat_find cat name = index cat name"

definition cat_command :: "options_catalog \<Rightarrow> u8 list \<Rightarrow> command_spec option" where
  "cat_command cat name = find (\<lambda>c. c_name c = name) (commands cat)"

definition same_spec_without_surfaces :: "option_spec \<Rightarrow> option_spec \<Rightarrow> bool" where
  "same_spec_without_surfaces a b \<longleftrightarrow> o_name a = o_name b \<and> o_owner a = o_owner b \<and>
     o_fallback a = o_fallback b \<and> o_help a = o_help b \<and> o_from_env a = o_from_env b \<and>
     o_raw a = o_raw b"

definition parse_value_of :: "option_spec \<Rightarrow> u8 list \<Rightarrow> option_value option_result" where
  "parse_value_of o1 text =
     (if \<not> o_raw o1 \<or> kind_of_spec o1 \<noteq> Kind_text then parse_value (kind_of_spec o1) text (o_name o1)
      else Inr (Text text))"

text \<open>The first option of the catalog that has the letter on the command.\<close>

definition short_name_holder :: "options_catalog \<Rightarrow> option_surface \<Rightarrow> option_spec option" where
  "short_name_holder cat sf =
     find (\<lambda>other. list_ex (\<lambda>have. sf_command have = sf_command sf \<and>
       sf_short_name have = sf_short_name sf) (o_surfaces other)) (specs cat)"

definition check_surface ::
  "options_catalog \<Rightarrow> option_spec \<Rightarrow> option_surface \<Rightarrow> option_error list" where
  "check_surface cat o1 sf =
     (case sf_fallback sf of
        Some v \<Rightarrow> if kind_of v \<noteq> kind_of_spec o1
          then [Err_command_default_kind (o_name o1) (sf_command sf)] else []
      | None \<Rightarrow> []) @
     (if sf_fallback sf \<noteq> None \<and> sf_command sf = [] then [Err_global_default (o_name o1)] else []) @
     (if sf_short_name sf = 0 then []
      else case short_name_holder cat sf of
          Some other \<Rightarrow> [Err_short_name_taken (o_name other) (o_name o1) (sf_short_name sf)]
        | None \<Rightarrow> [])"

section \<open>The repository\<close>

record args_config =
  a_name :: "u8 list"
  help_header :: "u8 list"
  description :: "u8 list"
  default_command :: "u8 list"
  default_command_when_inputs :: "u8 list"
  global_surface :: "u8 list"

record 'w option_binding =
  bd_read :: "'w \<Rightarrow> option_value"
  bd_write :: "'w \<Rightarrow> option_value \<Rightarrow> bool \<Rightarrow> option_error list \<times> 'w"
  bd_after :: "('w \<Rightarrow> 'w) option"

record 'w options_repository =
  cat_of :: options_catalog
  stored :: "option_value option list"
  bindings :: "'w option_binding option list"
  command_of :: "u8 list"
  cfg_of :: args_config
  world :: 'w

definition empty_config :: args_config where
  "empty_config = \<lparr>a_name = [], help_header = [], description = [], default_command = [],
     default_command_when_inputs = [], global_surface = []\<rparr>"

definition new_repository :: "'w \<Rightarrow> 'w options_repository" where
  "new_repository w = \<lparr>cat_of = \<lparr>specs = [], index = Map.empty, commands = []\<rparr>, stored = [],
     bindings = [], command_of = [], cfg_of = empty_config, world = w\<rparr>"

abbreviation spec_at :: "'w options_repository \<Rightarrow> nat \<Rightarrow> option_spec" where
  "spec_at R i \<equiv> specs (cat_of R) ! i"

definition surface_default :: "option_spec \<Rightarrow> u8 list \<Rightarrow> option_value option" where
  "surface_default o1 cmd =
     (if cmd = [] then None
      else Option.bind (find (\<lambda>sf. sf_command sf = cmd \<and> sf_fallback sf \<noteq> None) (o_surfaces o1)) sf_fallback)"

definition effective_on :: "'w options_repository \<Rightarrow> nat \<Rightarrow> u8 list \<Rightarrow> option_value" where
  "effective_on R i cmd =
     (case bindings R ! i of
        Some b \<Rightarrow> bd_read b (world R)
      | None \<Rightarrow>
        (case stored R ! i of
           Some v \<Rightarrow> v
         | None \<Rightarrow>
           (case surface_default (spec_at R i) cmd of
              Some v \<Rightarrow> v
            | None \<Rightarrow> o_fallback (spec_at R i))))"

definition effective :: "'w options_repository \<Rightarrow> nat \<Rightarrow> option_value" where
  "effective R i = effective_on R i (command_of R)"

definition store_value ::
  "nat \<Rightarrow> option_value \<Rightarrow> 'w options_repository \<Rightarrow> option_error list \<times> 'w options_repository" where
  "store_value i v R =
     (case bindings R ! i of
        None \<Rightarrow> ([], R\<lparr>stored := (stored R)[i := Some v]\<rparr>)
      | Some b \<Rightarrow>
        (case bd_write b (world R) v True of
           (es, w) \<Rightarrow> (es, R\<lparr>world :=
             (if es = [] then (case bd_after b of Some hook \<Rightarrow> hook w | None \<Rightarrow> w) else w)\<rparr>)))"

definition declare_command ::
  "option_error list \<times> options_catalog \<Rightarrow> command_spec \<Rightarrow> option_error list \<times> options_catalog" where
  "declare_command r c =
     (case r of (es, cat) \<Rightarrow>
        (case cat_command cat (c_name c) of
           Some have \<Rightarrow> if have = c then (es, cat) else (es @ [Err_command_exists (c_name c)], cat)
         | None \<Rightarrow> (es, cat\<lparr>commands := commands cat @ [c]\<rparr>)))"

definition declare_option ::
  "option_error list \<times> options_catalog \<Rightarrow> option_spec \<Rightarrow> option_error list \<times> options_catalog" where
  "declare_option r o1 =
     (case r of (es, cat) \<Rightarrow>
        (case cat_find cat (o_name o1) of
           Some i \<Rightarrow> if same_spec_without_surfaces (specs cat ! i) o1 then (es, cat)
             else (es @ [Err_option_exists (o_name o1)], cat)
         | None \<Rightarrow> (es @ concat (map (check_surface cat o1) (o_surfaces o1)),
             cat\<lparr>index := (index cat)(o_name o1 \<mapsto> length (specs cat)), specs := specs cat @ [o1]\<rparr>)))"

definition resize :: "nat \<Rightarrow> 'a option list \<Rightarrow> 'a option list" where
  "resize n xs = take n xs @ replicate (n - length xs) None"

definition declare_set ::
  "option_set \<Rightarrow> 'w options_repository \<Rightarrow> option_error list \<times> 'w options_repository" where
  "declare_set ds R =
     (case foldl declare_option (foldl declare_command ([], cat_of R) (set_commands ds)) (set_options ds) of
        (es, cat) \<Rightarrow>
          if es \<noteq> [] then (es, R)
          else ([], R\<lparr>stored := resize (length (specs cat)) (stored R),
            bindings := resize (length (specs cat)) (bindings R), cat_of := cat\<rparr>))"

definition add_surface ::
  "u8 list \<Rightarrow> option_surface \<Rightarrow> 'w options_repository \<Rightarrow> option_error list \<times> 'w options_repository" where
  "add_surface name sf R =
     (case cat_find (cat_of R) name of
        None \<Rightarrow> ([Err_not_found name], R)
      | Some i \<Rightarrow>
        if sf \<in> set (o_surfaces (spec_at R i)) then ([], R)
        else let es = check_surface (cat_of R) (spec_at R i) sf in
          if es \<noteq> [] then (es, R)
          else ([], R\<lparr>cat_of := (cat_of R)\<lparr>specs := (specs (cat_of R))
            [i := (spec_at R i)\<lparr>o_surfaces := o_surfaces (spec_at R i) @ [sf]\<rparr>]\<rparr>\<rparr>))"

section \<open>Access by name\<close>

text \<open>\<open>T{}\<close> for the type of a kind; \<open>option_value{}\<close> is the first alternative.\<close>

fun zero_of :: "option_kind \<Rightarrow> option_value" where
  "zero_of Kind_flag = Flag False"
| "zero_of Kind_numeric = Numeric 0"
| "zero_of Kind_text = Text []"
| "zero_of Kind_list = Entries []"

definition typed :: "option_kind \<Rightarrow> option_value \<Rightarrow> option_value" where
  "typed k v = (if kind_of v = k then v else zero_of k)"

definition get_typed :: "option_kind \<Rightarrow> u8 list \<Rightarrow> 'w options_repository \<Rightarrow> option_value" where
  "get_typed k name R =
     (case cat_find (cat_of R) name of None \<Rightarrow> zero_of k | Some i \<Rightarrow> typed k (effective R i))"

definition value_of :: "u8 list \<Rightarrow> 'w options_repository \<Rightarrow> option_value" where
  "value_of name R =
     (case cat_find (cat_of R) name of None \<Rightarrow> Flag False | Some i \<Rightarrow> effective R i)"

definition set_typed :: "u8 list \<Rightarrow> option_value \<Rightarrow> 'w options_repository \<Rightarrow> 'w options_repository" where
  "set_typed name v R =
     (case cat_find (cat_of R) name of
        None \<Rightarrow> R
      | Some i \<Rightarrow> if kind_of_spec (spec_at R i) \<noteq> kind_of v then R else snd (store_value i v R))"

definition set_value ::
  "u8 list \<Rightarrow> option_value \<Rightarrow> 'w options_repository \<Rightarrow> option_error list \<times> 'w options_repository" where
  "set_value name v R =
     (case cat_find (cat_of R) name of
        None \<Rightarrow> ([Err_not_found name], R)
      | Some i \<Rightarrow>
        if kind_of_spec (spec_at R i) \<noteq> kind_of v then ([Err_value_kind name], R)
        else store_value i v R)"

definition set_text ::
  "u8 list \<Rightarrow> u8 list \<Rightarrow> 'w options_repository \<Rightarrow> option_error list \<times> 'w options_repository" where
  "set_text name text R =
     (case cat_find (cat_of R) name of
        None \<Rightarrow> ([Err_not_found name], R)
      | Some i \<Rightarrow>
        (case parse_value_of (spec_at R i) text of
           Inl es \<Rightarrow> (es, R)
         | Inr v \<Rightarrow> store_value i v R))"

definition get_text :: "u8 list \<Rightarrow> 'w options_repository \<Rightarrow> u8 list option_result" where
  "get_text name R =
     (case cat_find (cat_of R) name of
        None \<Rightarrow> Inl [Err_not_found name]
      | Some i \<Rightarrow>
        (case effective R i of
           Text s \<Rightarrow> if o_raw (spec_at R i) then Inr s else Inr (format_value (Text s))
         | v \<Rightarrow> Inr (format_value v)))"

definition option_names :: "'w options_repository \<Rightarrow> u8 list list" where
  "option_names R = map o_name (specs (cat_of R))"

definition find_spec :: "u8 list \<Rightarrow> 'w options_repository \<Rightarrow> option_spec option" where
  "find_spec name R =
     (case cat_find (cat_of R) name of None \<Rightarrow> None | Some i \<Rightarrow> Some (spec_at R i))"

section \<open>Bound fields\<close>

text \<open>A field of the type of its option: its place in the memory is a reader and an assignment,
  and its type is the kind \<open>k\<close>.\<close>

definition bind_field ::
  "option_kind \<Rightarrow> ('w \<Rightarrow> option_value) \<Rightarrow> (option_value \<Rightarrow> 'w \<Rightarrow> 'w) \<Rightarrow> ('w \<Rightarrow> 'w) option \<Rightarrow> 'w option_binding" where
  "bind_field k get put hook = \<lparr>bd_read = get,
     bd_write = (\<lambda>w v assign. ([], if kind_of v = k \<and> assign then put v w else w)), bd_after = hook\<rparr>"

text \<open>A field of another type, seen through its codec.\<close>

definition bind_codec ::
  "('w \<Rightarrow> 'x) \<Rightarrow> ('x \<Rightarrow> 'w \<Rightarrow> 'w) \<Rightarrow> ('x \<Rightarrow> option_value) \<Rightarrow> ('w \<Rightarrow> option_value \<Rightarrow> 'x option_result) \<Rightarrow>
     ('w \<Rightarrow> 'w) option \<Rightarrow> 'w option_binding" where
  "bind_codec get put to_value from_value hook = \<lparr>bd_read = (\<lambda>w. to_value (get w)),
     bd_write = (\<lambda>w v assign. case from_value w v of
         Inl es \<Rightarrow> (es, w)
       | Inr x \<Rightarrow> ([], if assign then put x w else w)), bd_after = hook\<rparr>"

definition bind_at ::
  "u8 list \<Rightarrow> 'w option_binding \<Rightarrow> 'w options_repository \<Rightarrow> option_error list \<times> 'w options_repository" where
  "bind_at name b R =
     (case cat_find (cat_of R) name of
        None \<Rightarrow> ([], R)
      | Some i \<Rightarrow>
        if kind_of (bd_read b (world R)) \<noteq> kind_of_spec (spec_at R i) then ([], R)
        else let R1 = R\<lparr>bindings := (bindings R)[i := Some b], stored := (stored R)[i := None]\<rparr> in
          (case stored R ! i of
             None \<Rightarrow> ([], R1)
           | Some v \<Rightarrow> store_value i v R1))"

definition unbind :: "u8 list \<Rightarrow> 'w options_repository \<Rightarrow> 'w options_repository" where
  "unbind name R =
     (case cat_find (cat_of R) name of
        None \<Rightarrow> R
      | Some i \<Rightarrow>
        (case bindings R ! i of
           None \<Rightarrow> R
         | Some b \<Rightarrow> R\<lparr>stored := (stored R)[i := Some (bd_read b (world R))],
             bindings := (bindings R)[i := None]\<rparr>))"

definition reset_at :: "'w options_repository \<Rightarrow> nat \<Rightarrow> 'w options_repository" where
  "reset_at R i =
     (case bindings R ! i of
        None \<Rightarrow> R\<lparr>stored := (stored R)[i := None]\<rparr>
      | Some _ \<Rightarrow> snd (store_value i (o_fallback (spec_at R i)) R))"

definition reset_owner :: "u8 list \<Rightarrow> 'w options_repository \<Rightarrow> 'w options_repository" where
  "reset_owner owner R =
     foldl (\<lambda>R' i. if o_owner (spec_at R' i) = owner then reset_at R' i else R') R
       [0..<length (specs (cat_of R))]"

definition reset_option ::
  "u8 list \<Rightarrow> 'w options_repository \<Rightarrow> option_error list \<times> 'w options_repository" where
  "reset_option name R =
     (case cat_find (cat_of R) name of
        None \<Rightarrow> ([Err_not_found name], R)
      | Some i \<Rightarrow> ([], reset_at R i))"

section \<open>The environment\<close>

definition toupper :: "u8 \<Rightarrow> u8" where
  "toupper c = (if 0x61 \<le> c \<and> c \<le> 0x7A then c - 0x20 else c)"

definition option_env_name :: "u8 list \<Rightarrow> u8 list \<Rightarrow> u8 list" where
  "option_env_name pre name = pre @ map (\<lambda>c. if c = 0x2d then 0x5f else toupper c) name"

text \<open>One round of the loop of \<open>load_env\<close>; \<open>getenv\<close> gives the environment.\<close>

definition load_env_at ::
  "(u8 list \<Rightarrow> u8 list option) \<Rightarrow> u8 list \<Rightarrow> option_error list \<times> 'w options_repository \<Rightarrow> nat \<Rightarrow>
     option_error list \<times> 'w options_repository" where
  "load_env_at getenv pre r i =
     (case r of (es, R) \<Rightarrow>
        let o1 = spec_at R i; var = option_env_name pre (o_name o1) in
        if \<not> o_from_env o1 then (es, R)
        else case getenv var of
            None \<Rightarrow> (es, R)
          | Some text \<Rightarrow>
            (case parse_value_of o1 text of
               Inl bad \<Rightarrow> (es @ Err_env_bad_value var text # bad, R)
             | Inr v \<Rightarrow>
               (case store_value i v R of
                  (bad, R') \<Rightarrow> (es @ (if bad \<noteq> [] then Err_env_bad_value var text # bad else []), R'))))"

definition load_env ::
  "(u8 list \<Rightarrow> u8 list option) \<Rightarrow> u8 list \<Rightarrow> 'w options_repository \<Rightarrow>
     option_error list \<times> 'w options_repository" where
  "load_env getenv pre R = foldl (load_env_at getenv pre) ([], R) [0..<length (specs (cat_of R))]"

section \<open>The invariant\<close>

text \<open>The catalog: the index is the inverse of the names, the commands have different names, a
  default of a command has the kind of its option and is not on the global surface, and a short
  letter names at most one option on a command.\<close>

definition surface_ok :: "option_spec \<Rightarrow> option_surface \<Rightarrow> bool" where
  "surface_ok o1 sf \<longleftrightarrow> (case sf_fallback sf of
     None \<Rightarrow> True | Some v \<Rightarrow> kind_of v = kind_of_spec o1 \<and> sf_command sf \<noteq> [])"

definition letters_apart :: "option_spec \<Rightarrow> option_spec \<Rightarrow> bool" where
  "letters_apart a b \<longleftrightarrow> (\<forall>s \<in> set (o_surfaces a). \<forall>t \<in> set (o_surfaces b).
     sf_short_name s \<noteq> 0 \<longrightarrow> sf_command s = sf_command t \<longrightarrow> sf_short_name s \<noteq> sf_short_name t)"

definition cat_ok :: "options_catalog \<Rightarrow> bool" where
  "cat_ok cat \<longleftrightarrow>
     (\<forall>k i. index cat k = Some i \<longleftrightarrow> i < length (specs cat) \<and> o_name (specs cat ! i) = k) \<and>
     distinct (map c_name (commands cat)) \<and>
     (\<forall>o1 \<in> set (specs cat). \<forall>sf \<in> set (o_surfaces o1). surface_ok o1 sf) \<and>
     (\<forall>i < length (specs cat). \<forall>j < length (specs cat). i \<noteq> j \<longrightarrow> letters_apart (specs cat ! i) (specs cat ! j))"

text \<open>A bound option has no stored value; what the field or the repository holds has the kind of
  the option.\<close>

definition slot_ok :: "option_kind \<Rightarrow> option_value option \<Rightarrow> 'w option_binding option \<Rightarrow> bool" where
  "slot_ok k v b \<longleftrightarrow> (case b of
     Some b' \<Rightarrow> v = None \<and> (\<forall>w. kind_of (bd_read b' w) = k)
   | None \<Rightarrow> (case v of None \<Rightarrow> True | Some x \<Rightarrow> kind_of x = k))"

definition slots_ok ::
  "option_spec list \<Rightarrow> option_value option list \<Rightarrow> 'w option_binding option list \<Rightarrow> bool" where
  "slots_ok ss vs bs \<longleftrightarrow> length vs = length ss \<and> length bs = length ss \<and>
     (\<forall>i < length ss. slot_ok (kind_of_spec (ss ! i)) (vs ! i) (bs ! i))"

definition repo_ok :: "'w options_repository \<Rightarrow> bool" where
  "repo_ok R \<longleftrightarrow> cat_ok (cat_of R) \<and> slots_ok (specs (cat_of R)) (stored R) (bindings R)"

lemma slots_ok_update:
  assumes "slots_ok ss vs bs" "i < length ss" "slot_ok (kind_of_spec (ss ! i)) v b"
  shows "slots_ok ss (vs[i := v]) (bs[i := b])"
  using assms by (auto simp: slots_ok_def nth_list_update)

lemma repo_ok_find:
  assumes "repo_ok R" "cat_find (cat_of R) name = Some i"
  shows "i < length (specs (cat_of R))" "o_name (spec_at R i) = name"
  using assms by (auto simp: repo_ok_def cat_ok_def cat_find_def)

lemma repo_ok_slot:
  assumes "repo_ok R" "i < length (specs (cat_of R))"
  shows "slot_ok (kind_of_spec (spec_at R i)) (stored R ! i) (bindings R ! i)"
    "i < length (stored R)" "i < length (bindings R)"
  using assms by (auto simp: repo_ok_def slots_ok_def)

lemma find_Some_set: "find P xs = Some x \<Longrightarrow> x \<in> set xs \<and> P x"
  by (auto simp: find_Some_iff)

text \<open>What a write leaves as it is.\<close>

lemma store_value_frame:
  "cat_of (snd (store_value i v R)) = cat_of R" "bindings (snd (store_value i v R)) = bindings R"
  "command_of (snd (store_value i v R)) = command_of R" "cfg_of (snd (store_value i v R)) = cfg_of R"
  by (auto simp: store_value_def split: option.splits prod.splits)

lemma store_value_ok:
  assumes "repo_ok R" "i < length (specs (cat_of R))" "kind_of v = kind_of_spec (spec_at R i)"
  shows "repo_ok (snd (store_value i v R))"
proof (cases "bindings R ! i")
  case None
  have "slots_ok (specs (cat_of R)) ((stored R)[i := Some v]) ((bindings R)[i := None])"
    using assms by (intro slots_ok_update) (auto simp: repo_ok_def slot_ok_def)
  then show ?thesis using assms None list_update_id[of "bindings R" i]
    by (simp add: store_value_def repo_ok_def)
next
  case (Some b)
  then show ?thesis using assms
    by (simp add: store_value_def repo_ok_def split: prod.splits)
qed

lemma effective_kind:
  assumes "repo_ok R" "i < length (specs (cat_of R))"
  shows "kind_of (effective_on R i cmd) = kind_of_spec (spec_at R i)"
proof -
  have "kind_of v = kind_of_spec (spec_at R i)" if d: "surface_default (spec_at R i) cmd = Some v" for v
  proof -
    obtain sf where "sf \<in> set (o_surfaces (spec_at R i))" "sf_fallback sf = Some v"
      using d by (auto simp: surface_default_def Option.bind_eq_Some_conv dest!: find_Some_set split: if_splits)
    moreover have "surface_ok (spec_at R i) sf"
      using calculation(1) assms(1) nth_mem[OF assms(2)] unfolding repo_ok_def cat_ok_def by blast
    ultimately show ?thesis by (simp add: surface_ok_def)
  qed
  then have d: "kind_of (case surface_default (spec_at R i) cmd of Some v \<Rightarrow> v | None \<Rightarrow> o_fallback (spec_at R i))
      = kind_of_spec (spec_at R i)" by (cases "surface_default (spec_at R i) cmd") simp_all
  show ?thesis
  proof (cases "bindings R ! i")
    case None
    then show ?thesis using repo_ok_slot(1)[OF assms] d
      by (cases "stored R ! i") (simp_all add: effective_on_def slot_ok_def)
  next
    case (Some b)
    then show ?thesis using repo_ok_slot(1)[OF assms] by (simp add: effective_on_def slot_ok_def)
  qed
qed

section \<open>Declarations keep the invariant\<close>

lemma check_surface_ok:
  assumes "check_surface cat o1 sf = []"
  shows "surface_ok o1 sf"
    "sf_short_name sf \<noteq> 0 \<Longrightarrow> other \<in> set (specs cat) \<Longrightarrow> have \<in> set (o_surfaces other) \<Longrightarrow>
       sf_command have = sf_command sf \<Longrightarrow> sf_short_name have \<noteq> sf_short_name sf"
proof -
  show "surface_ok o1 sf"
    using assms by (auto simp: check_surface_def surface_ok_def split: option.splits if_splits)
  assume *: "sf_short_name sf \<noteq> 0" "other \<in> set (specs cat)" "have \<in> set (o_surfaces other)"
    "sf_command have = sf_command sf"
  then have "short_name_holder cat sf = None"
    using assms by (auto simp: check_surface_def split: option.splits)
  then show "sf_short_name have \<noteq> sf_short_name sf"
    using * by (auto simp: short_name_holder_def find_None_iff list_ex_iff)
qed

lemma letters_apart_sym: "letters_apart a b \<Longrightarrow> letters_apart b a"
  by (fastforce simp: letters_apart_def)

lemma declare_option_ok:
  assumes "declare_option (es, cat) o1 = ([], cat')"
  shows "es = []" "cat_ok cat \<Longrightarrow> cat_ok cat'" "\<exists>new. specs cat' = specs cat @ new"
    "commands cat' = commands cat"
    "cat_ok cat \<Longrightarrow> \<exists>i. cat_find cat' (o_name o1) = Some i \<and> same_spec_without_surfaces (specs cat' ! i) o1"
proof -
  show e: "es = []" "\<exists>new. specs cat' = specs cat @ new" "commands cat' = commands cat"
    using assms by (auto simp: declare_option_def split: option.splits if_splits)
  {
    assume ok: "cat_ok cat"
    show "cat_ok cat'"
    proof (cases "cat_find cat (o_name o1)")
      case (Some i)
      then show ?thesis using assms ok by (auto simp: declare_option_def split: if_splits)
    next
      case None
      have c': "cat' = cat\<lparr>index := (index cat)(o_name o1 \<mapsto> length (specs cat)), specs := specs cat @ [o1]\<rparr>"
        and chk: "\<forall>sf \<in> set (o_surfaces o1). check_surface cat o1 sf = []"
        using assms None by (auto simp: declare_option_def)
      have new: "o_name (specs cat ! i) \<noteq> o_name o1" if "i < length (specs cat)" for i
        using ok None that by (metis cat_ok_def cat_find_def option.distinct(1))
      have apart: "letters_apart o1 other" if "other \<in> set (specs cat)" for other
        using check_surface_ok(2)[OF chk[rule_format] _ that] by (fastforce simp: letters_apart_def)
      have ix: "\<forall>k i. index cat' k = Some i \<longleftrightarrow> i < length (specs cat') \<and> o_name (specs cat' ! i) = k"
        using ok new by (auto simp: c' cat_ok_def nth_append less_Suc_eq)
      have "letters_apart (specs cat' ! i) (specs cat' ! j)"
        if "i < length (specs cat')" "j < length (specs cat')" "i \<noteq> j" for i j
        using that ok apart letters_apart_sym[OF apart]
        by (simp add: c' cat_ok_def nth_append less_Suc_eq) fastforce
      then show ?thesis using ix ok chk check_surface_ok(1)
        by (auto simp: cat_ok_def c')
    qed
    show "\<exists>i. cat_find cat' (o_name o1) = Some i \<and> same_spec_without_surfaces (specs cat' ! i) o1"
      using assms by (auto simp: declare_option_def cat_find_def same_spec_without_surfaces_def
          split: option.splits if_splits)
  }
qed

lemma declare_command_ok:
  assumes "declare_command (es, cat) c = ([], cat')"
  shows "es = []" "cat_ok cat \<Longrightarrow> cat_ok cat'" "specs cat' = specs cat"
    "\<exists>new. commands cat' = commands cat @ new" "c \<in> set (commands cat')"
proof -
  show "es = []" "specs cat' = specs cat" "\<exists>new. commands cat' = commands cat @ new"
    using assms by (auto simp: declare_command_def split: option.splits if_splits)
  show "c \<in> set (commands cat')"
    using assms by (auto simp: declare_command_def cat_command_def find_Some_iff split: option.splits if_splits)
  assume "cat_ok cat"
  then show "cat_ok cat'"
    using assms by (auto simp: declare_command_def cat_ok_def cat_command_def find_None_iff
        split: option.splits if_splits) blast
qed

lemma declare_commands_ok:
  "foldl declare_command (es, cat) cs = ([], cat') \<Longrightarrow>
     es = [] \<and> (cat_ok cat \<longrightarrow> cat_ok cat') \<and> specs cat' = specs cat"
proof (induction cs arbitrary: es cat)
  case (Cons c cs)
  obtain es1 cat1 where s: "declare_command (es, cat) c = (es1, cat1)" by (cases "declare_command (es, cat) c")
  then have "foldl declare_command (es1, cat1) cs = ([], cat')" using Cons.prems by simp
  from Cons.IH[OF this] show ?case using declare_command_ok[of es cat c cat1] s by simp
qed simp

lemma declare_options_ok:
  "foldl declare_option (es, cat) os = ([], cat') \<Longrightarrow>
     es = [] \<and> (cat_ok cat \<longrightarrow> cat_ok cat') \<and> (\<exists>new. specs cat' = specs cat @ new)"
proof (induction os arbitrary: es cat)
  case (Cons o1 os)
  obtain es1 cat1 where s: "declare_option (es, cat) o1 = (es1, cat1)" by (cases "declare_option (es, cat) o1")
  then have "foldl declare_option (es1, cat1) os = ([], cat')" using Cons.prems by simp
  from Cons.IH[OF this] show ?case using declare_option_ok(1-3)[of es cat o1 cat1] s by auto
qed simp

lemma slots_ok_resize:
  assumes "slots_ok ss vs bs"
  shows "slots_ok (ss @ new) (resize (length (ss @ new)) vs) (resize (length (ss @ new)) bs)"
proof -
  have l: "length vs = length ss" "length bs = length ss" using assms by (simp_all add: slots_ok_def)
  have "resize (length (ss @ new)) vs = vs @ replicate (length new) None"
    "resize (length (ss @ new)) bs = bs @ replicate (length new) None"
    using l by (simp_all add: resize_def)
  then show ?thesis using assms l by (auto simp: slots_ok_def nth_append slot_ok_def)
qed

lemma declare_set_ok:
  assumes "repo_ok R" shows "repo_ok (snd (declare_set ds R))"
proof -
  let ?c = "foldl declare_command ([], cat_of R) (set_commands ds)"
  obtain es cat where c: "?c = (es, cat)" by (cases ?c)
  obtain es' cat' where o: "foldl declare_option (es, cat) (set_options ds) = (es', cat')"
    by (cases "foldl declare_option (es, cat) (set_options ds)")
  show ?thesis
  proof (cases "es' = []")
    case True
    from declare_options_ok[OF o[unfolded True]] obtain new where
      n: "es = []" "cat_ok cat \<longrightarrow> cat_ok cat'" "specs cat' = specs cat @ new" by blast
    from declare_commands_ok[OF c[unfolded n(1)]] have "cat_ok cat'" "specs cat' = specs (cat_of R) @ new"
      using n assms by (simp_all add: repo_ok_def)
    then show ?thesis using assms c o True slots_ok_resize[of "specs (cat_of R)" "stored R" "bindings R" new]
      by (simp add: declare_set_def repo_ok_def)
  next
    case False
    then show ?thesis using assms c o by (simp add: declare_set_def)
  qed
qed

lemma add_surface_ok:
  assumes "repo_ok R" shows "repo_ok (snd (add_surface name sf R))"
proof (cases "cat_find (cat_of R) name")
  case None
  then show ?thesis using assms by (simp add: add_surface_def)
next
  case (Some i)
  note i = repo_ok_find[OF assms Some]
  let ?o = "(spec_at R i)\<lparr>o_surfaces := o_surfaces (spec_at R i) @ [sf]\<rparr>"
  let ?ss = "specs (cat_of R)"
  show ?thesis
  proof (cases "sf \<in> set (o_surfaces (spec_at R i)) \<or> check_surface (cat_of R) (spec_at R i) sf \<noteq> []")
    case True
    then show ?thesis using assms Some by (auto simp: add_surface_def Let_def)
  next
    case False
    then have chk: "check_surface (cat_of R) (spec_at R i) sf = []" by simp
    have R: "snd (add_surface name sf R) = R\<lparr>cat_of := (cat_of R)\<lparr>specs := ?ss[i := ?o]\<rparr>\<rparr>"
      using False Some by (simp add: add_surface_def Let_def)
    have same: "o_name (?ss[i := ?o] ! k) = o_name (?ss ! k)" "kind_of_spec (?ss[i := ?o] ! k) = kind_of_spec (?ss ! k)"
      if "k < length ?ss" for k using that by (cases "k = i"; simp)+
    have ok: "cat_ok (cat_of R)" using assms by (simp add: repo_ok_def)
    have apart: "letters_apart ?o other" if "other \<in> set ?ss" "letters_apart (spec_at R i) other" for other
      using check_surface_ok(2)[OF chk _ that(1)] that(2) by (fastforce simp: letters_apart_def)
    have letters: "letters_apart (?ss[i := ?o] ! j) (?ss[i := ?o] ! k)"
      if "j < length ?ss" "k < length ?ss" "j \<noteq> k" for j k
    proof -
      have jk: "letters_apart (?ss ! j) (?ss ! k)" "letters_apart (?ss ! k) (?ss ! j)"
        using ok that by (auto simp: cat_ok_def)
      show ?thesis
      proof (cases "j = i \<or> k = i")
        case True
        then show ?thesis
          using that jk apart[of "?ss ! k"] letters_apart_sym[OF apart[of "?ss ! j"]] by auto
      next
        case False
        then show ?thesis using jk by simp
      qed
    qed
    have "surface_ok o1 s" if o1: "o1 \<in> set (?ss[i := ?o])" and s: "s \<in> set (o_surfaces o1)" for o1 s
    proof -
      have old: "\<forall>o1 \<in> set ?ss. \<forall>s \<in> set (o_surfaces o1). surface_ok o1 s" using ok by (simp add: cat_ok_def)
      have si: "surface_ok ?o s \<longleftrightarrow> surface_ok (spec_at R i) s" for s by (simp add: surface_ok_def split: option.split)
      from o1 have "o1 \<in> set ?ss \<or> o1 = ?o" using set_update_subset_insert[of ?ss i ?o] by blast
      then show ?thesis
      proof
        assume "o1 = ?o"
        then show ?thesis using s old nth_mem[OF i(1)] check_surface_ok(1)[OF chk] si by auto
      qed (use old s in blast)
    qed
    moreover have "\<forall>k j. index (cat_of R) k = Some j \<longleftrightarrow> j < length ?ss \<and> o_name (?ss[i := ?o] ! j) = k"
      using ok same(1) by (auto simp: cat_ok_def)
    ultimately have "cat_ok ((cat_of R)\<lparr>specs := ?ss[i := ?o]\<rparr>)"
      using ok letters by (auto simp: cat_ok_def)
    moreover have "slots_ok (?ss[i := ?o]) (stored R) (bindings R)"
      using assms same(2) by (auto simp: repo_ok_def slots_ok_def)
    ultimately show ?thesis unfolding R by (simp add: repo_ok_def)
  qed
qed

section \<open>Access keeps the invariant\<close>

text \<open>The type of a field does not change, so its reader has one kind.\<close>

definition typed_binding :: "'w option_binding \<Rightarrow> bool" where
  "typed_binding b \<longleftrightarrow> (\<forall>w w'. kind_of (bd_read b w) = kind_of (bd_read b w'))"

lemma parse_value_of_kind: "parse_value_of o1 t = Inr v \<Longrightarrow> kind_of v = kind_of_spec o1"
  using parse_value_kind by (auto simp: parse_value_of_def split: if_splits)

lemma set_typed_ok: "repo_ok R \<Longrightarrow> repo_ok (set_typed name v R)"
  using store_value_ok[of R _ v] repo_ok_find[of R name] by (auto simp: set_typed_def split: option.splits)

lemma set_value_ok: "repo_ok R \<Longrightarrow> repo_ok (snd (set_value name v R))"
  using store_value_ok[of R _ v] repo_ok_find[of R name] by (auto simp: set_value_def split: option.splits)

lemma set_text_ok: "repo_ok R \<Longrightarrow> repo_ok (snd (set_text name t R))"
  using store_value_ok[of R] repo_ok_find[of R name] parse_value_of_kind
  by (auto simp: set_text_def split: option.splits sum.splits)

lemma bind_at_ok:
  assumes "repo_ok R" "typed_binding b" shows "repo_ok (snd (bind_at name b R))"
proof (cases "cat_find (cat_of R) name")
  case None
  then show ?thesis using assms by (simp add: bind_at_def)
next
  case (Some i)
  note i = repo_ok_find[OF assms(1) Some]
  let ?R1 = "R\<lparr>bindings := (bindings R)[i := Some b], stored := (stored R)[i := None]\<rparr>"
  show ?thesis
  proof (cases "kind_of (bd_read b (world R)) = kind_of_spec (spec_at R i)")
    case True
    have k: "kind_of (bd_read b w) = kind_of_spec (spec_at R i)" for w
      using assms(2) True by (metis typed_binding_def)
    then have "slot_ok (kind_of_spec (spec_at R i)) None (Some b)" by (simp add: slot_ok_def)
    from slots_ok_update[OF _ i(1) this] have R1: "repo_ok ?R1" using assms(1) by (simp add: repo_ok_def)
    show ?thesis
    proof (cases "stored R ! i")
      case None
      then show ?thesis using R1 Some True by (simp add: bind_at_def Let_def)
    next
      case (Some v)
      have "repo_ok (snd (store_value i v ?R1))"
      proof (cases "bd_write b (world R) v True")
        case (Pair es w)
        then show ?thesis using R1 i repo_ok_slot(3)[OF assms(1) i(1)] by (simp add: store_value_def repo_ok_def)
      qed
      then show ?thesis using Some \<open>cat_find (cat_of R) name = Some i\<close> True by (simp add: bind_at_def Let_def)
    qed
  next
    case False
    then show ?thesis using assms Some by (simp add: bind_at_def)
  qed
qed

lemma unbind_ok:
  assumes "repo_ok R" shows "repo_ok (unbind name R)"
proof (cases "cat_find (cat_of R) name")
  case None
  then show ?thesis using assms by (simp add: unbind_def)
next
  case (Some i)
  note i = repo_ok_find[OF assms Some]
  show ?thesis
  proof (cases "bindings R ! i")
    case None
    then show ?thesis using assms Some by (simp add: unbind_def)
  next
    case b: (Some b)
    then have "slot_ok (kind_of_spec (spec_at R i)) (Some (bd_read b (world R))) (None :: 'a option_binding option)"
      using repo_ok_slot(1)[OF assms i(1)] by (simp add: slot_ok_def)
    from slots_ok_update[OF _ i(1) this] show ?thesis using assms Some b by (simp add: unbind_def repo_ok_def)
  qed
qed

lemma reset_at_frame:
  "cat_of (reset_at R i) = cat_of R" "cfg_of (reset_at R i) = cfg_of R"
  by (simp_all add: reset_at_def store_value_frame split: option.splits)

lemma reset_at_ok:
  assumes "repo_ok R" "i < length (specs (cat_of R))" shows "repo_ok (reset_at R i)"
proof (cases "bindings R ! i")
  case None
  have "slots_ok (specs (cat_of R)) ((stored R)[i := None]) ((bindings R)[i := None])"
    using assms by (intro slots_ok_update) (auto simp: repo_ok_def slot_ok_def)
  then show ?thesis using assms(1) None list_update_id[of "bindings R" i]
    by (simp add: reset_at_def repo_ok_def)
next
  case (Some b)
  then show ?thesis using store_value_ok[OF assms, of "o_fallback (spec_at R i)"] by (simp add: reset_at_def)
qed

lemma reset_owner_ok:
  assumes "repo_ok R" shows "repo_ok (reset_owner owner R)"
proof -
  have "repo_ok (foldl (\<lambda>R' i. if o_owner (spec_at R' i) = owner then reset_at R' i else R') R1 is) \<and>
      cat_of (foldl (\<lambda>R' i. if o_owner (spec_at R' i) = owner then reset_at R' i else R') R1 is) = cat_of R1"
    if "repo_ok R1" "\<forall>i \<in> set is. i < length (specs (cat_of R1))" for R1 "is"
    using that
  proof (induction "is" arbitrary: R1)
    case (Cons i "is")
    have "repo_ok (if o_owner (spec_at R1 i) = owner then reset_at R1 i else R1)"
      "cat_of (if o_owner (spec_at R1 i) = owner then reset_at R1 i else R1) = cat_of R1"
      using Cons.prems reset_at_ok reset_at_frame(1) by auto
    then show ?case using Cons.IH Cons.prems(2) by simp
  qed simp
  from this[OF assms, of "[0..<length (specs (cat_of R))]"] show ?thesis by (simp add: reset_owner_def)
qed

lemma reset_option_ok: "repo_ok R \<Longrightarrow> repo_ok (snd (reset_option name R))"
  using reset_at_ok repo_ok_find[of R name] by (auto simp: reset_option_def split: option.splits)

lemma load_env_ok:
  assumes "repo_ok R" shows "repo_ok (snd (load_env getenv pre R))"
proof -
  have step: "repo_ok (snd (load_env_at getenv pre (es, R1) i)) \<and> cat_of (snd (load_env_at getenv pre (es, R1) i)) = cat_of R1"
    if "repo_ok R1" "i < length (specs (cat_of R1))" for es R1 i
    using that store_value_ok[of R1 i] parse_value_of_kind[of "spec_at R1 i"]
      store_value_frame(1)[of i _ R1]
    by (auto simp: load_env_at_def Let_def split: option.splits sum.splits prod.splits) (metis snd_conv)+
  have "repo_ok (snd (foldl (load_env_at getenv pre) (es, R1) is))"
    if "repo_ok R1" "\<forall>i \<in> set is. i < length (specs (cat_of R1))" for es R1 "is"
    using that
  proof (induction "is" arbitrary: es R1)
    case (Cons i "is")
    obtain es2 R2 where s: "load_env_at getenv pre (es, R1) i = (es2, R2)" by (cases "load_env_at getenv pre (es, R1) i")
    then show ?case using Cons.IH[of R2 es2] Cons.prems step[of R1 i es] by simp
  qed simp
  from this[OF assms, of "[0..<length (specs (cat_of R))]" "[]"] show ?thesis by (simp add: load_env_def)
qed

lemma new_repository_ok: "repo_ok (new_repository w)"
  by (simp add: new_repository_def repo_ok_def cat_ok_def slots_ok_def)

end
