(* ===== verification/OptionsArgs.thy ===== *)
theory OptionsArgs
  imports OptionsRepo "HOL-Library.AList" "HOL-Library.List_Lexorder"
begin

text \<open>
  The command line of the options repository: \<open>options_repository::parse_args\<close> and
  \<open>options_repository::help\<close> of \<open>src/src/utility/options.tmpl.h\<close>. The locals of \<open>parse_args\<close> that
  its lambdas share (the report, the inputs, the pending values and the index \<open>arg\<close>) are one
  record. Whether a file can be read is the parameter \<open>readable\<close>.
\<close>

section \<open>Arguments\<close>

definition isalpha :: "u8 \<Rightarrow> bool" where
  "isalpha c \<longleftrightarrow> 0x41 \<le> c \<and> c \<le> 0x5A \<or> 0x61 \<le> c \<and> c \<le> 0x7A"

definition isalnum :: "u8 \<Rightarrow> bool" where
  "isalnum c \<longleftrightarrow> isalpha c \<or> isdigit c"

definition starts_with_int :: "u8 list \<Rightarrow> bool" where
  "starts_with_int s =
    (let r = (if s \<noteq> [] \<and> (hd s = 0x2d \<or> hd s = 0x2b) then tl s else s) in r \<noteq> [] \<and> isdigit (hd r))"

text \<open>\<open>std::string_view::find\<close> of a non-empty string, and \<open>rfind\<close> of a character.\<close>

definition find_seq :: "u8 list \<Rightarrow> u8 list \<Rightarrow> nat option" where
  "find_seq s pat = find (\<lambda>i. take (length pat) (drop i s) = pat) [0..<length s]"

definition rfind_char :: "u8 list \<Rightarrow> u8 \<Rightarrow> nat option" where
  "rfind_char s c = find (\<lambda>i. s ! i = c) (rev [0..<length s])"

definition is_url :: "u8 list \<Rightarrow> bool" where
  "is_url s =
    (case find_seq s (str ''://'') of
       Some sep \<Rightarrow>
         if sep = 0 \<or> sep + 3 = length s \<or> \<not> isalpha (hd s) then False
         else list_all (\<lambda>c. isalnum c \<or> c = 0x2b \<or> c = 0x2d \<or> c = 0x2e) (take sep s)
     | None \<Rightarrow>
       (case rfind_char s 0x3a of
          None \<Rightarrow> False
        | Some colon \<Rightarrow>
          if colon = 0 \<or> colon + 1 = length s then False
          else list_all (\<lambda>c. isalnum c \<or> c = 0x2e \<or> c = 0x2d \<or> c = 0x5f) (take colon s) \<and>
            list_all isdigit (drop (colon + 1) s)))"

definition is_option_prefix :: "u8 list \<Rightarrow> bool" where
  "is_option_prefix s \<longleftrightarrow> 2 \<le> length s \<and> s ! 0 = 0x2d \<and> \<not> starts_with_int s"

text \<open>\<open>option_prefix\<close>: \<open>None\<close> when \<open>s\<close> is no option, else whether it is short, without its dashes.\<close>

definition option_prefix :: "u8 list \<Rightarrow> (bool \<times> u8 list) option" where
  "option_prefix s =
    (if \<not> is_option_prefix s then None
     else if s ! 1 \<noteq> 0x2d then Some (True, drop 1 s) else Some (False, drop 2 s))"

section \<open>Help\<close>

definition rows_of :: "'w options_repository \<Rightarrow> u8 list \<Rightarrow> (nat \<times> option_surface) list" where
  "rows_of R surface =
     sort_key (\<lambda>row. o_name (spec_at R (fst row)))
       (List.map_filter (\<lambda>i. map_option (Pair i)
          (find (\<lambda>sf. sf_command sf = surface) (o_surfaces (spec_at R i))))
        [0..<length (specs (cat_of R))])"

definition print_row :: "'w options_repository \<Rightarrow> u8 list \<Rightarrow> nat \<times> option_surface \<Rightarrow> u8 list" where
  "print_row R cmd row =
    (case row of (i, sf) \<Rightarrow>
       let o1 = spec_at R i; def = format_value (effective_on R i cmd) in
       [0x09] @ str ''--'' @ o_name o1 @ (if length (o_name o1) < 6 then [0x09, 0x09] else [0x09]) @
       (if sf_short_name sf \<noteq> 0 then [0x2d, sf_short_name sf] else []) @ [0x09] @ o_help o1 @
       (if def \<noteq> [] then str '' (default: '' @ def @ str '')'' else []) @ [0x0a])"

definition print_rows :: "'w options_repository \<Rightarrow> (nat \<times> option_surface) list \<Rightarrow> u8 list \<Rightarrow> u8 list" where
  "print_rows R rows cmd = concat (map (print_row R cmd) rows)"

definition help_text :: "'w options_repository \<Rightarrow> u8 list \<Rightarrow> u8 list" where
  "help_text R cmd =
    (let cfg = cfg_of R; header = (if help_header cfg = [] then a_name cfg else help_header cfg) in
     case (if cmd = [] then None else cat_command (cat_of R) cmd) of
       Some c \<Rightarrow>
         (let rows = rows_of R (c_name c) in
          header @ str '' '' @ c_name c @ (if rows \<noteq> [] then str '' [ options ]'' else []) @ [0x0a] @
          (if c_help c \<noteq> [] then c_help c @ [0x0a, 0x0a] else []) @
          str ''Command options:'' @ [0x0a] @ print_rows R rows (c_name c) @ [0x0a])
     | None \<Rightarrow>
         (let rows = rows_of R (global_surface cfg); cmds = commands (cat_of R) in
          header @ (if rows \<noteq> [] then str '' [ options ] '' else []) @
          (if cmds \<noteq> [] then
             (if default_command cfg \<noteq> [] then str ''[ '' else []) @
             str ''<command> [ <command options> ] '' @
             (if default_command cfg \<noteq> [] then str '']'' else [])
           else []) @ [0x0a] @
          (if description cfg \<noteq> [] then description cfg @ [0x0a] else []) @
          (if rows \<noteq> [] then [0x0a] @ str ''Options:'' @ [0x0a] @ print_rows R rows (command_of R) else []) @
          (if cmds \<noteq> [] then
             str ''Commands:'' @ [0x0a] @
             concat (map (\<lambda>c. [0x09] @ c_name c @ [0x09, 0x09, 0x09] @ c_help c @ [0x0a]) (sort_key c_name cmds))
           else []) @ [0x0a]))"

section \<open>One argument\<close>

record arg_state =
  pa_errs :: "option_error list"
  pa_inputs :: "u8 list list"
  pa_pending :: "(nat \<times> option_value) list"
  pa_arg :: nat

definition fail_with_help :: "'w options_repository \<Rightarrow> option_error \<Rightarrow> arg_state \<Rightarrow> arg_state" where
  "fail_with_help R e st = st\<lparr>pa_errs := pa_errs st @ [e, Info_help (help_text R [])]\<rparr>"

definition find_long :: "options_catalog \<Rightarrow> u8 list \<Rightarrow> u8 list \<Rightarrow> nat option" where
  "find_long cat surface name =
    (case cat_find cat name of
       None \<Rightarrow> None
     | Some i \<Rightarrow> if list_ex (\<lambda>sf. sf_command sf = surface) (o_surfaces (specs cat ! i)) then Some i else None)"

definition find_short :: "options_catalog \<Rightarrow> u8 list \<Rightarrow> u8 \<Rightarrow> nat option" where
  "find_short cat surface c =
     find (\<lambda>i. list_ex (\<lambda>sf. sf_command sf = surface \<and> sf_short_name sf = c) (o_surfaces (specs cat ! i)))
       [0..<length (specs cat)]"

abbreviation is_flag :: "'w options_repository \<Rightarrow> nat \<Rightarrow> bool" where
  "is_flag R i \<equiv> kind_of_spec (spec_at R i) = Kind_flag"

definition put_pending :: "nat \<Rightarrow> option_value \<Rightarrow> arg_state \<Rightarrow> arg_state" where
  "put_pending i v st = st\<lparr>pa_pending := AList.update i v (pa_pending st)\<rparr>"

text \<open>\<open>add_text\<close>, with the status \<open>process\<close> makes of it. A pending value has the kind of its option,
  so the value a list is appended to is a list.\<close>

definition add_text :: "'w options_repository \<Rightarrow> nat \<Rightarrow> u8 list \<Rightarrow> arg_state \<Rightarrow> nat \<times> arg_state" where
  "add_text R i text st =
    (case parse_value_of (spec_at R i) text of
       Inl es \<Rightarrow> (1, st\<lparr>pa_errs := pa_errs st @ es\<rparr>)
     | Inr v \<Rightarrow>
       (case (v, map_of (pa_pending st) i) of
          (Entries add, Some (Entries xs)) \<Rightarrow> (0, put_pending i (Entries (xs @ add)) st)
        | _ \<Rightarrow> (0, put_pending i v st)))"

text \<open>The loop over a group of short letters: a status to return, or the last option of the group.\<close>

fun short_group ::
  "'w options_repository \<Rightarrow> bool \<Rightarrow> u8 list \<Rightarrow> u8 list \<Rightarrow> nat option \<Rightarrow> arg_state \<Rightarrow>
     (nat \<times> arg_state) + (nat option \<times> arg_state)" where
  "short_group R has_cmd surface [] cur st = Inr (cur, st)"
| "short_group R has_cmd surface (c # cs) cur st =
    (case find_short (cat_of R) surface c of
       None \<Rightarrow>
         if \<not> has_cmd then Inl (3, st)
         else Inl (1, fail_with_help R (Err_not_found [0x2d, c]) st)
     | Some i \<Rightarrow>
         if is_flag R i then short_group R has_cmd surface cs (Some i) (put_pending i (Flag True) st)
         else if cs \<noteq> [] then
           Inl (1, fail_with_help R (Err_missing_argument (o_name (spec_at R i))) st)
         else short_group R has_cmd surface cs (Some i) st)"

text \<open>The option an argument names, with the value given after \<open>=\<close>.\<close>

definition select_option ::
  "'w options_repository \<Rightarrow> bool \<Rightarrow> u8 list \<Rightarrow> bool \<Rightarrow> u8 list \<Rightarrow> arg_state \<Rightarrow>
     (nat \<times> arg_state) + (nat \<times> u8 list option \<times> arg_state)" where
  "select_option R has_cmd surface is_short opt1 st =
    (if is_short then
       (case short_group R has_cmd surface opt1 None st of
          Inr (Some i, st') \<Rightarrow> Inr (i, None, st')
        | Inr (None, st') \<Rightarrow> Inl (0, st')
        | Inl r \<Rightarrow> Inl r)
     else
       let name = takeWhile (\<lambda>c. c \<noteq> 0x3d) opt1;
           given = (if 0x3d \<in> set opt1 then Some (tl (dropWhile (\<lambda>c. c \<noteq> 0x3d) opt1)) else None) in
       (case find_long (cat_of R) surface name of
          None \<Rightarrow>
            if \<not> has_cmd then Inl (3, st) else Inl (1, fail_with_help R (Err_not_found name) st)
        | Some i \<Rightarrow> Inr (i, given, st)))"

text \<open>The value of the selected option; \<open>arg\<close> is already at the next argument.\<close>

definition take_value ::
  "'w options_repository \<Rightarrow> u8 list list \<Rightarrow> nat \<Rightarrow> u8 list option \<Rightarrow> arg_state \<Rightarrow> nat \<times> arg_state" where
  "take_value R args i given st =
    (let arg = pa_arg st in
     case given of
       Some text \<Rightarrow> add_text R i text st
     | None \<Rightarrow>
       if is_flag R i then
         (case (if arg < length args
                then parse_value Kind_flag (args ! arg) (o_name (spec_at R i)) else Inl []) of
            Inr (Flag b) \<Rightarrow> (0, put_pending i (Flag b) (st\<lparr>pa_arg := arg + 1\<rparr>))
          | _ \<Rightarrow> (0, put_pending i (Flag True) st))
       else if arg \<ge> length args \<or> is_option_prefix (args ! arg) then
         (1, st\<lparr>pa_errs := pa_errs st @ [Err_missing_argument (o_name (spec_at R i))]\<rparr>)
       else add_text R i (args ! arg) (st\<lparr>pa_arg := arg + 1\<rparr>))"

text \<open>The status is \<open>0\<close> done, \<open>1\<close> an error, \<open>2\<close> a command, \<open>3\<close> an unknown option before the command.\<close>

definition process ::
  "(u8 list \<Rightarrow> bool) \<Rightarrow> 'w options_repository \<Rightarrow> u8 list list \<Rightarrow> bool \<Rightarrow> u8 list \<Rightarrow> arg_state \<Rightarrow>
     nat \<times> arg_state" where
  "process readable R args has_cmd surface st =
    (let opt0 = args ! pa_arg st in
     if cat_command (cat_of R) opt0 \<noteq> None then (2, st)
     else case option_prefix opt0 of
         None \<Rightarrow>
           if opt0 = [0x2d] \<or> readable opt0 \<or> is_url opt0
           then (0, st\<lparr>pa_inputs := pa_inputs st @ [opt0], pa_arg := pa_arg st + 1\<rparr>)
           else (1, fail_with_help R (Err_no_such_input opt0) st)
       | Some (is_short, opt1) \<Rightarrow>
         (case select_option R has_cmd surface is_short opt1 st of
            Inl r \<Rightarrow> r
          | Inr (i, given, st') \<Rightarrow> take_value R args i given (st'\<lparr>pa_arg := pa_arg st' + 1\<rparr>)))"

section \<open>The command line\<close>

lemma short_group_Inl:
  "short_group R h sf cs l st = Inl (n, st') \<Longrightarrow> n \<noteq> 0 \<and> pa_arg st' = pa_arg st"
proof (induction cs arbitrary: l st)
  case (Cons c cs)
  from Cons.prems show ?case
    by (auto simp: put_pending_def fail_with_help_def split: option.splits if_splits dest!: Cons.IH)
qed simp

lemma short_group_Inr:
  "short_group R h sf cs l st = Inr (l', st') \<Longrightarrow>
     pa_arg st' = pa_arg st \<and> (l' = None \<longrightarrow> cs = [] \<and> l = None)"
proof (induction cs arbitrary: l st)
  case (Cons c cs)
  from Cons.prems show ?case
    by (cases "find_short (cat_of R) sf c")
      (auto simp: put_pending_def split: if_splits dest!: Cons.IH dest: sym[of "Some _"])
qed simp

lemma add_text_arg: "pa_arg (snd (add_text R i s st)) = pa_arg st"
  by (auto simp: add_text_def put_pending_def split: sum.splits option.splits option_value.splits)

lemma take_value_arg: "pa_arg st \<le> pa_arg (snd (take_value R args i given st))"
proof -
  have "pa_arg st \<le> pa_arg (snd (add_text R i s st))"
    "pa_arg st \<le> pa_arg (snd (add_text R i s (st\<lparr>pa_arg := Suc (pa_arg st)\<rparr>)))" for s
    by (simp_all add: add_text_arg)
  then show ?thesis
    by (auto simp: take_value_def put_pending_def Let_def split: sum.splits option.splits option_value.splits)
qed

lemma select_option_arg:
  assumes "is_short \<longrightarrow> o1 \<noteq> []"
  shows "select_option R h sf is_short o1 st = Inl (n, st') \<Longrightarrow> n \<noteq> 0 \<and> pa_arg st' = pa_arg st"
    "select_option R h sf is_short o1 st = Inr (i, given, st') \<Longrightarrow> pa_arg st' = pa_arg st"
  using assms
  by (auto simp: select_option_def Let_def fail_with_help_def
      dest: short_group_Inl short_group_Inr split: if_splits sum.splits option.splits)

lemma process_advances:
  assumes "process readable R args h sf st = (0, st')" shows "pa_arg st < pa_arg st'"
proof (cases "option_prefix (args ! pa_arg st)")
  case None
  then show ?thesis using assms by (auto simp: process_def Let_def split: if_splits)
next
  case (Some p)
  obtain is_short o1 where p: "p = (is_short, o1)" by (cases p)
  have ne: "is_short \<longrightarrow> o1 \<noteq> []"
    using Some p by (auto simp: option_prefix_def is_option_prefix_def split: if_splits)
  show ?thesis
  proof (cases "select_option R h sf is_short o1 st")
    case (Inl r)
    then show ?thesis using assms Some p select_option_arg(1)[OF ne, where n = 0 and st' = st']
      by (cases r) (auto simp: process_def Let_def split: if_splits)
  next
    case (Inr q)
    obtain i given st2 where q: "q = (i, given, st2)" by (cases q)
    have "take_value R args i given (st2\<lparr>pa_arg := pa_arg st2 + 1\<rparr>) = (0, st')"
      using assms Some p Inr q by (auto simp: process_def Let_def split: if_splits)
    moreover have "pa_arg st2 = pa_arg st" using select_option_arg(2)[OF ne] Inr q by simp
    ultimately show ?thesis
      using take_value_arg[of "st2\<lparr>pa_arg := pa_arg st2 + 1\<rparr>" R args i given] by simp
  qed
qed

text \<open>The two loops over the arguments; the status is \<open>0\<close> when all are read.\<close>

function args_loop ::
  "(u8 list \<Rightarrow> bool) \<Rightarrow> 'w options_repository \<Rightarrow> u8 list list \<Rightarrow> bool \<Rightarrow> u8 list \<Rightarrow> arg_state \<Rightarrow>
     nat \<times> arg_state" where
  "args_loop readable R args has_cmd surface st =
    (if pa_arg st \<ge> length args then (0, st)
     else case process readable R args has_cmd surface st of
         (status, st') \<Rightarrow>
           if status = 0 then args_loop readable R args has_cmd surface st' else (status, st'))"
  by pat_completeness auto

termination args_loop
  by (relation "measure (\<lambda>(readable, R, args, h, sf, st). length args - pa_arg st)")
    (auto dest!: sym[of "(_, _)"] process_advances)

declare args_loop.simps [simp del]

record parsed_args =
  pr_command :: "u8 list"
  command_given :: bool
  pr_inputs :: "u8 list list"
  pr_values :: "(u8 list \<times> option_value) list"

text \<open>Every pending value is tried on its field before any is stored.\<close>

definition try_pending ::
  "'w options_repository \<Rightarrow> option_error list \<times> 'w \<Rightarrow> nat \<times> option_value \<Rightarrow> option_error list \<times> 'w" where
  "try_pending R r p =
    (case bindings R ! fst p of
       None \<Rightarrow> r
     | Some b \<Rightarrow> (case bd_write b (snd r) (snd p) False of (es, w) \<Rightarrow> (fst r @ es, w)))"

definition store_pending ::
  "option_error list \<times> 'w options_repository \<Rightarrow> nat \<times> option_value \<Rightarrow>
     option_error list \<times> 'w options_repository" where
  "store_pending r p =
    (case store_value (fst p) (snd p) (snd r) of (es, R') \<Rightarrow> (fst r @ es, R'))"

definition finish_args ::
  "'w options_repository \<Rightarrow> u8 list \<Rightarrow> bool \<Rightarrow> arg_state \<Rightarrow> parsed_args option_result \<times> 'w options_repository" where
  "finish_args R cmd given st =
    (case foldl (try_pending R) (pa_errs st, world R) (pa_pending st) of
       (es, w) \<Rightarrow>
         if es \<noteq> [] then (Inl es, R\<lparr>world := w\<rparr>)
         else (case foldl store_pending ([], R\<lparr>world := w, command_of := cmd\<rparr>) (pa_pending st) of
             (es', R') \<Rightarrow>
               if es' \<noteq> [] then (Inl es', R')
               else (Inr \<lparr>pr_command = cmd, command_given = given, pr_inputs = pa_inputs st,
                 pr_values = map (\<lambda>p. (o_name (spec_at R (fst p)), snd p)) (pa_pending st)\<rparr>, R')))"

definition parse_args ::
  "(u8 list \<Rightarrow> bool) \<Rightarrow> u8 list list \<Rightarrow> args_config \<Rightarrow> 'w options_repository \<Rightarrow>
     parsed_args option_result \<times> 'w options_repository" where
  "parse_args readable args cfg R0 =
    (let R = R0\<lparr>cfg_of := cfg\<rparr>;
         st0 = \<lparr>pa_errs = [], pa_inputs = [], pa_pending = [], pa_arg = 1\<rparr> in
     case args_loop readable R args False (global_surface cfg) st0 of (status, st) \<Rightarrow>
       if status = 1 then (Inl (pa_errs st), R)
       else if status = 3 \<and> (default_command cfg = [] \<or>
           pa_inputs st \<noteq> [] \<and> default_command_when_inputs cfg = []) then
         (Inl (pa_errs (fail_with_help R (Err_not_found (args ! pa_arg st)) st)), R)
       else
         let given = (status = 2);
             cmd = (if given then args ! pa_arg st
                    else if pa_inputs st = [] then default_command cfg
                    else default_command_when_inputs cfg);
             st1 = (if given then st\<lparr>pa_arg := pa_arg st + 1\<rparr> else st) in
         if cmd = [] then finish_args R [] given st1
         else if cat_command (cat_of R) cmd = None then
           (Inl (pa_errs (fail_with_help R (Err_unknown_command cmd) st1)), R)
         else (case args_loop readable R args True cmd st1 of (status2, st2) \<Rightarrow>
           if status2 = 2 then
             (Inl (pa_errs (fail_with_help R (Err_second_command (args ! pa_arg st2)) st2)), R)
           else if status2 \<noteq> 0 then (Inl (pa_errs st2), R)
           else finish_args R cmd given st2))"

section \<open>What the loops keep\<close>

text \<open>Pending values have the kinds of their options, and an option is pending once.\<close>

definition pending_ok :: "'w options_repository \<Rightarrow> (nat \<times> option_value) list \<Rightarrow> bool" where
  "pending_ok R ps \<longleftrightarrow> distinct (map fst ps) \<and>
     (\<forall>(i, v) \<in> set ps. i < length (specs (cat_of R)) \<and> kind_of v = kind_of_spec (spec_at R i))"

text \<open>A status other than 1 leaves the report alone; 1 has reported something.\<close>

definition step_ok :: "'w options_repository \<Rightarrow> bool \<Rightarrow> arg_state \<Rightarrow> nat \<times> arg_state \<Rightarrow> bool" where
  "step_ok R has_cmd st r \<longleftrightarrow> pending_ok R (pa_pending (snd r)) \<and>
     (if fst r = 1 then pa_errs (snd r) \<noteq> [] else pa_errs (snd r) = pa_errs st) \<and>
     fst r \<le> 3 \<and> (has_cmd \<longrightarrow> fst r \<noteq> 3)"

lemma in_update: "p \<in> set (AList.update i v ps) \<Longrightarrow> p = (i, v) \<or> p \<in> set ps"
  by (induction ps) (auto split: if_splits)

lemma pending_ok_put:
  assumes "pending_ok R (pa_pending st)" "i < length (specs (cat_of R))" "kind_of v = kind_of_spec (spec_at R i)"
  shows "pending_ok R (pa_pending (put_pending i v st))"
  using assms distinct_update[of "pa_pending st" i v]
  by (auto simp: pending_ok_def put_pending_def dest!: in_update)

lemma find_long_less:
  assumes "repo_ok R" "find_long (cat_of R) sf name = Some i" shows "i < length (specs (cat_of R))"
proof -
  have "cat_find (cat_of R) name = Some i"
    using assms(2) by (auto simp: find_long_def split: option.splits if_splits)
  from repo_ok_find(1)[OF assms(1) this] show ?thesis .
qed

lemma find_short_less: "find_short (cat_of R) sf c = Some i \<Longrightarrow> i < length (specs (cat_of R))"
  by (auto simp: find_short_def dest!: find_Some_set)

lemma add_text_ok:
  assumes "pending_ok R (pa_pending st)" "i < length (specs (cat_of R))"
  shows "step_ok R h st (add_text R i t st)" "fst (add_text R i t st) \<noteq> 2"
proof -
  show "fst (add_text R i t st) \<noteq> 2"
    by (auto simp: add_text_def split: sum.splits option.splits option_value.splits)
  show "step_ok R h st (add_text R i t st)"
  proof (cases "parse_value_of (spec_at R i) t")
    case (Inl es)
    then have "es \<noteq> []" using parse_value_error by (auto simp: parse_value_of_def split: if_splits)
    then show ?thesis using assms Inl by (simp add: add_text_def step_ok_def)
  next
    case (Inr v)
    note k = parse_value_of_kind[OF Inr]
    have "\<exists>v'. kind_of v' = kind_of v \<and> add_text R i t st = (0, put_pending i v' st)"
      using Inr by (auto simp: add_text_def split: option.splits option_value.splits intro: exI[of _ v])
        (metis kind_of.simps(4))
    then obtain v' where v': "kind_of v' = kind_of v" "add_text R i t st = (0, put_pending i v' st)" by blast
    have "pending_ok R (pa_pending (put_pending i v' st))"
      by (rule pending_ok_put[OF assms]) (simp add: v'(1) k)
    then show ?thesis using v'(2) by (simp add: step_ok_def put_pending_def)
  qed
qed

lemma short_group_ok:
  assumes "pending_ok R (pa_pending st)"
  shows "short_group R h sf cs cur st = Inl r \<Longrightarrow> step_ok R h st r \<and> fst r \<noteq> 2"
    "short_group R h sf cs cur st = Inr (cur', st') \<Longrightarrow> pending_ok R (pa_pending st') \<and> pa_errs st' = pa_errs st \<and>
       (cur = None \<or> the cur < length (specs (cat_of R)) \<longrightarrow> cur' = None \<or> the cur' < length (specs (cat_of R)))"
  using assms
proof (induction cs arbitrary: cur st)
  case (Cons c cs)
  {
    case 1
    show ?case
    proof (cases "find_short (cat_of R) sf c")
      case None
      then show ?thesis using 1 by (auto simp: step_ok_def fail_with_help_def split: if_splits)
    next
      case (Some i)
      show ?thesis
      proof (cases "is_flag R i")
        case True
        have p: "pending_ok R (pa_pending (put_pending i (Flag True) st))"
          using pending_ok_put[OF 1(2) find_short_less[OF Some], of "Flag True"] True by simp
        have "step_ok R h (put_pending i (Flag True) st) r \<and> fst r \<noteq> 2"
          using Cons.IH(1)[OF _ p] 1(1) Some True by simp
        then show ?thesis by (simp add: step_ok_def put_pending_def)
      next
        case False
        then show ?thesis using 1 Some Cons.IH(1)[OF _ 1(2)]
          by (auto simp: step_ok_def fail_with_help_def split: if_splits)
      qed
    qed
  next
    case 2
    then obtain i where i: "find_short (cat_of R) sf c = Some i" by (auto split: option.splits if_splits)
    note less = find_short_less[OF i]
    show ?case
    proof (cases "is_flag R i")
      case True
      have p: "pending_ok R (pa_pending (put_pending i (Flag True) st))"
        using pending_ok_put[OF 2(2) less, of "Flag True"] True by simp
      from Cons.IH(2)[OF _ p] 2(1) i less True show ?thesis by (simp add: put_pending_def)
    next
      case False
      then have "short_group R h sf cs (Some i) st = Inr (cur', st')" using 2(1) i by (simp split: if_splits)
      from Cons.IH(2)[OF this 2(2)] less show ?thesis by simp
    qed
  }
qed auto

lemma select_option_ok:
  assumes "repo_ok R" "pending_ok R (pa_pending st)"
  shows "select_option R h sf is_short o1 st = Inl r \<Longrightarrow> (is_short \<longrightarrow> o1 \<noteq> []) \<Longrightarrow>
      step_ok R h st r \<and> fst r \<noteq> 2"
    "select_option R h sf is_short o1 st = Inr (i, given, st') \<Longrightarrow>
       i < length (specs (cat_of R)) \<and> pending_ok R (pa_pending st') \<and> pa_errs st' = pa_errs st"
proof -
  show "step_ok R h st r \<and> fst r \<noteq> 2" if s: "select_option R h sf is_short o1 st = Inl r" and ne: "is_short \<longrightarrow> o1 \<noteq> []"
  proof (cases is_short)
    case True
    show ?thesis
    proof (cases "short_group R h sf o1 None st")
      case (Inl r')
      then show ?thesis using s True short_group_ok(1)[OF assms(2)] by (simp add: select_option_def)
    next
      case (Inr q)
      then show ?thesis using s True ne short_group_Inr[of R h sf o1 None st] Inr
        by (cases q) (auto simp: select_option_def split: option.splits)
    qed
  next
    case False
    then show ?thesis using s assms(2)
      by (auto simp: select_option_def Let_def step_ok_def fail_with_help_def split: option.splits if_splits)
  qed
  show "i < length (specs (cat_of R)) \<and> pending_ok R (pa_pending st') \<and> pa_errs st' = pa_errs st"
    if s: "select_option R h sf is_short o1 st = Inr (i, given, st')"
  proof (cases is_short)
    case True
    then have "short_group R h sf o1 None st = Inr (Some i, st')"
      using s by (auto simp: select_option_def split: sum.splits option.splits)
    from short_group_ok(2)[OF assms(2) this] show ?thesis by simp
  next
    case False
    then show ?thesis using s assms find_long_less[OF assms(1)]
      by (auto simp: select_option_def Let_def split: option.splits if_splits)
  qed
qed

lemma take_value_ok:
  assumes "pending_ok R (pa_pending st)" "i < length (specs (cat_of R))"
  shows "step_ok R h st (take_value R args i given st)" "fst (take_value R args i given st) \<noteq> 2"
proof -
  let ?next = "st\<lparr>pa_arg := pa_arg st + 1\<rparr>"
  have n: "pending_ok R (pa_pending ?next)" using assms(1) by simp
  have add: "step_ok R h st (add_text R i t st)" "fst (add_text R i t st) \<noteq> 2"
    "step_ok R h st (add_text R i t ?next)" "fst (add_text R i t ?next) \<noteq> 2" for t
    using add_text_ok(1)[OF assms, of h t] add_text_ok(2)[OF assms, of t]
      add_text_ok(1)[OF n assms(2), of h t] add_text_ok(2)[OF n assms(2), of t] by (simp_all add: step_ok_def)
  have "step_ok R h st (take_value R args i given st) \<and> fst (take_value R args i given st) \<noteq> 2"
  proof (cases given)
    case (Some t)
    then show ?thesis using add by (simp add: take_value_def)
  next
    case None
    show ?thesis
    proof (cases "is_flag R i")
      case False
      then show ?thesis using None add assms(1) by (simp add: take_value_def Let_def step_ok_def)
    next
      case True
      have "pending_ok R (pa_pending (put_pending i (Flag b) st))" for b
        by (rule pending_ok_put[OF assms]) (simp add: True)
      moreover have "pending_ok R (pa_pending (put_pending i (Flag b) ?next))" for b
        by (rule pending_ok_put[OF n assms(2)]) (simp add: True)
      ultimately show ?thesis using None True
        by (auto simp: take_value_def Let_def step_ok_def put_pending_def split: sum.split option_value.split)
    qed
  qed
  then show "step_ok R h st (take_value R args i given st)" "fst (take_value R args i given st) \<noteq> 2" by auto
qed

lemma arg_process_ok:
  assumes "repo_ok R" "pending_ok R (pa_pending st)"
  shows "step_ok R h st (process readable R args h sf st)"
    "fst (process readable R args h sf st) = 2 \<Longrightarrow> cat_command (cat_of R) (args ! pa_arg st) \<noteq> None \<and>
       snd (process readable R args h sf st) = st"
proof -
  let ?r = "process readable R args h sf st"
  have "step_ok R h st ?r \<and> (fst ?r = 2 \<longrightarrow> cat_command (cat_of R) (args ! pa_arg st) \<noteq> None \<and> snd ?r = st)"
  proof (cases "cat_command (cat_of R) (args ! pa_arg st) \<noteq> None")
    case True
    then show ?thesis using assms by (auto simp: process_def step_ok_def)
  next
    case nc: False
    show ?thesis
    proof (cases "option_prefix (args ! pa_arg st)")
      case None
      then show ?thesis using nc assms by (simp add: process_def Let_def step_ok_def fail_with_help_def)
    next
      case (Some p)
      obtain is_short o1 where p: "p = (is_short, o1)" by (cases p)
      have ne: "is_short \<longrightarrow> o1 \<noteq> []"
        using Some p by (auto simp: option_prefix_def is_option_prefix_def split: if_splits)
      show ?thesis
      proof (cases "select_option R h sf is_short o1 st")
        case (Inl r)
        then show ?thesis using nc Some p select_option_ok(1)[OF assms Inl ne] by (simp add: process_def)
      next
        case (Inr q)
        obtain i given st' where q: "q = (i, given, st')" by (cases q)
        let ?next = "st'\<lparr>pa_arg := pa_arg st' + 1\<rparr>"
        note s = select_option_ok(2)[OF assms Inr[unfolded q]]
        have "step_ok R h ?next (take_value R args i given ?next)" "fst (take_value R args i given ?next) \<noteq> 2"
          using take_value_ok[of R ?next i] s by auto
        then show ?thesis using nc Some p Inr q s by (simp add: process_def step_ok_def)
      qed
    qed
  qed
  then show "step_ok R h st ?r" "fst ?r = 2 \<Longrightarrow> cat_command (cat_of R) (args ! pa_arg st) \<noteq> None \<and> snd ?r = st"
    by auto
qed

lemma args_loop_ok:
  assumes "repo_ok R" "pending_ok R (pa_pending st)"
  shows "step_ok R h st (args_loop readable R args h sf st)"
  using assms
proof (induction "length args - pa_arg st" arbitrary: st rule: less_induct)
  case less
  show ?case
  proof (cases "pa_arg st \<ge> length args")
    case True
    then show ?thesis using less.prems by (subst args_loop.simps) (simp add: step_ok_def)
  next
    case False
    obtain status st' where p: "process readable R args h sf st = (status, st')" by (cases "process readable R args h sf st")
    have ok: "step_ok R h st (status, st')" using arg_process_ok(1)[OF less.prems, of h readable args sf] p by simp
    show ?thesis
    proof (cases "status = 0")
      case True
      have "pa_arg st < pa_arg st'" using process_advances p True by blast
      then have "step_ok R h st' (args_loop readable R args h sf st')"
        using less.hyps[of st'] less.prems ok False by (simp add: step_ok_def)
      moreover have "args_loop readable R args h sf st = args_loop readable R args h sf st'"
        using False p True by (subst args_loop.simps) simp
      ultimately show ?thesis using ok True by (simp add: step_ok_def)
    next
      case ne: False
      have "args_loop readable R args h sf st = (status, st')"
        using False p ne by (subst args_loop.simps) simp
      then show ?thesis using ok by simp
    qed
  qed
qed

section \<open>Fields\<close>

text \<open>What the repository relies on of a bound field: it reads as the kind of its option, a check
  writes nothing, and a value a check accepts is accepted when it is written, whatever happened to
  the memory between.\<close>

locale option_field =
  fixes b :: "'w option_binding" and k :: option_kind
  assumes read_kind: "kind_of (bd_read b w) = k"
    and check_pure: "snd (bd_write b w v False) = w"
    and accepts: "fst (bd_write b w v False) = [] \<Longrightarrow> fst (bd_write b w' v True) = []"
begin

lemma field_typed: "typed_binding b"
  by (simp add: typed_binding_def read_kind)

lemma check_result: "bd_write b w v False = (fst (bd_write b w v False), w)"
  using check_pure[of w v] by (metis prod.collapse)

end

text \<open>The four types a field without a codec can have.\<close>

definition bind_flag :: "('w \<Rightarrow> bool) \<Rightarrow> (bool \<Rightarrow> 'w \<Rightarrow> 'w) \<Rightarrow> ('w \<Rightarrow> 'w) option \<Rightarrow> 'w option_binding" where
  "bind_flag get put = bind_field Kind_flag (\<lambda>w. Flag (get w)) (\<lambda>v. case v of Flag x \<Rightarrow> put x | _ \<Rightarrow> id)"

definition bind_numeric :: "('w \<Rightarrow> 64 word) \<Rightarrow> (64 word \<Rightarrow> 'w \<Rightarrow> 'w) \<Rightarrow> ('w \<Rightarrow> 'w) option \<Rightarrow> 'w option_binding" where
  "bind_numeric get put = bind_field Kind_numeric (\<lambda>w. Numeric (get w)) (\<lambda>v. case v of Numeric x \<Rightarrow> put x | _ \<Rightarrow> id)"

definition bind_text :: "('w \<Rightarrow> u8 list) \<Rightarrow> (u8 list \<Rightarrow> 'w \<Rightarrow> 'w) \<Rightarrow> ('w \<Rightarrow> 'w) option \<Rightarrow> 'w option_binding" where
  "bind_text get put = bind_field Kind_text (\<lambda>w. Text (get w)) (\<lambda>v. case v of Text x \<Rightarrow> put x | _ \<Rightarrow> id)"

definition bind_list :: "('w \<Rightarrow> u8 list list) \<Rightarrow> (u8 list list \<Rightarrow> 'w \<Rightarrow> 'w) \<Rightarrow> ('w \<Rightarrow> 'w) option \<Rightarrow> 'w option_binding" where
  "bind_list get put = bind_field Kind_list (\<lambda>w. Entries (get w)) (\<lambda>v. case v of Entries x \<Rightarrow> put x | _ \<Rightarrow> id)"

lemma option_field_bind_field:
  assumes "\<And>w. kind_of (get w) = k" shows "option_field (bind_field k get put hook) k"
  by unfold_locales (simp_all add: bind_field_def assms)

interpretation flag_field: option_field "bind_flag get put hook" Kind_flag for get put hook
  unfolding bind_flag_def by (rule option_field_bind_field) simp

interpretation numeric_field: option_field "bind_numeric get put hook" Kind_numeric for get put hook
  unfolding bind_numeric_def by (rule option_field_bind_field) simp

interpretation text_field: option_field "bind_text get put hook" Kind_text for get put hook
  unfolding bind_text_def by (rule option_field_bind_field) simp

interpretation list_field: option_field "bind_list get put hook" Kind_list for get put hook
  unfolding bind_list_def by (rule option_field_bind_field) simp

text \<open>A codec keeps the contract when its values have one kind and the memory has no part in what it
  accepts.\<close>

lemma option_field_bind_codec:
  assumes "\<And>x. kind_of (to_value x) = k"
    and "\<And>w w' v x. from_value w v = Inr x \<Longrightarrow> \<exists>x'. from_value w' v = Inr x'"
    and "\<And>w v. from_value w v \<noteq> Inl []"
  shows "option_field (bind_codec get put to_value from_value hook) k"
proof
  fix w w' v
  assume a: "fst (bd_write (bind_codec get put to_value from_value hook) w v False) = []"
  have "\<exists>x. from_value w v = Inr x"
    using a assms(3)[of w v] by (cases "from_value w v") (auto simp: bind_codec_def)
  then obtain x' where "from_value w' v = Inr x'" using assms(2) by blast
  then show "fst (bd_write (bind_codec get put to_value from_value hook) w' v True) = []"
    by (simp add: bind_codec_def)
qed (auto simp: bind_codec_def assms(1) split: sum.split)

definition fields_ok :: "'w options_repository \<Rightarrow> bool" where
  "fields_ok R \<longleftrightarrow> (\<forall>i < length (specs (cat_of R)). \<forall>b. bindings R ! i = Some b \<longrightarrow>
     option_field b (kind_of_spec (spec_at R i)))"

section \<open>Storing the values\<close>

abbreviation unbound :: "'w options_repository \<Rightarrow> nat \<Rightarrow> bool" where
  "unbound R i \<equiv> bindings R ! i = None"

definition fits :: "'w options_repository \<Rightarrow> nat \<times> option_value \<Rightarrow> bool" where
  "fits R p \<longleftrightarrow> (\<forall>b. bindings R ! fst p = Some b \<longrightarrow> fst (bd_write b (world R) (snd p) False) = [])"

lemma try_pending_fold:
  assumes "fields_ok R" "\<forall>p \<in> set ps. fst p < length (specs (cat_of R))"
  shows "\<exists>bad. foldl (try_pending R) (es, world R) ps = (es @ bad, world R) \<and>
    (bad = [] \<longleftrightarrow> (\<forall>p \<in> set ps. fits R p))"
  using assms(2)
proof (induction ps arbitrary: es)
  case (Cons p ps)
  obtain bad1 where s: "try_pending R (es, world R) p = (es @ bad1, world R)" "bad1 = [] \<longleftrightarrow> fits R p"
  proof (cases "bindings R ! fst p")
    case None
    then show ?thesis using that[of "[]"] by (simp add: try_pending_def fits_def)
  next
    case (Some b)
    then have "option_field b (kind_of_spec (spec_at R (fst p)))"
      using assms(1) Cons.prems by (simp add: fields_ok_def)
    from option_field.check_result[OF this, of "world R" "snd p"]
    obtain e where "bd_write b (world R) (snd p) False = (e, world R)" by metis
    then show ?thesis using that[of e] Some by (simp add: try_pending_def fits_def)
  qed
  obtain bad where "foldl (try_pending R) (es @ bad1, world R) ps = (es @ bad1 @ bad, world R)"
    "bad = [] \<longleftrightarrow> (\<forall>p \<in> set ps. fits R p)"
    using Cons.IH[of "es @ bad1"] Cons.prems by auto
  then show ?case using s by (intro exI[of _ "bad1 @ bad"]) auto
qed simp

text \<open>The values are stored one after the other.\<close>

definition store_all :: "(nat \<times> option_value) list \<Rightarrow> 'w options_repository \<Rightarrow> 'w options_repository" where
  "store_all ps R = foldl (\<lambda>R p. snd (store_value (fst p) (snd p) R)) R ps"

lemma store_all_simps [simp]:
  "store_all [] R = R" "store_all (p # ps) R = store_all ps (snd (store_value (fst p) (snd p) R))"
  by (simp_all add: store_all_def)

lemma store_all_frame:
  "cat_of (store_all ps R) = cat_of R" "bindings (store_all ps R) = bindings R"
  "command_of (store_all ps R) = command_of R" "cfg_of (store_all ps R) = cfg_of R"
  by (induction ps arbitrary: R) (simp_all add: store_value_frame)

lemma store_all_ok:
  assumes "repo_ok R" "\<forall>p \<in> set ps. fst p < length (specs (cat_of R)) \<and> kind_of (snd p) = kind_of_spec (spec_at R (fst p))"
  shows "repo_ok (store_all ps R)"
  using assms
proof (induction ps arbitrary: R)
  case (Cons p ps)
  have "repo_ok (snd (store_value (fst p) (snd p) R))" using store_value_ok[of R "fst p" "snd p"] Cons.prems by simp
  then show ?case using Cons by (simp add: store_value_frame)
qed simp

lemma store_pending_fold:
  "\<exists>bad. foldl store_pending (es, R) ps = (es @ bad, store_all ps R) \<and>
     ((\<forall>p \<in> set ps. \<forall>b w. bindings R ! fst p = Some b \<longrightarrow> fst (bd_write b w (snd p) True) = []) \<longrightarrow> bad = [])"
proof (induction ps arbitrary: es R)
  case (Cons p ps)
  obtain bad1 R' where s: "store_value (fst p) (snd p) R = (bad1, R')" by (cases "store_value (fst p) (snd p) R")
  have f: "bindings R' = bindings R" using store_value_frame(2)[of "fst p" "snd p" R] s by simp
  have e: "bad1 = []" if "\<forall>b w. bindings R ! fst p = Some b \<longrightarrow> fst (bd_write b w (snd p) True) = []"
  proof (cases "bindings R ! fst p")
    case (Some b)
    then have "bad1 = fst (bd_write b (world R) (snd p) True)" using s by (auto simp: store_value_def split: prod.splits)
    then show ?thesis using that Some by simp
  qed (use s in \<open>simp add: store_value_def\<close>)
  obtain bad where "foldl store_pending (es @ bad1, R') ps = ((es @ bad1) @ bad, store_all ps R')"
    "(\<forall>p \<in> set ps. \<forall>b w. bindings R' ! fst p = Some b \<longrightarrow> fst (bd_write b w (snd p) True) = []) \<longrightarrow> bad = []"
    using Cons.IH by blast
  moreover have "store_pending (es, R) p = (es @ bad1, R')" using s by (simp add: store_pending_def)
  ultimately show ?case using s e f by (intro exI[of _ "bad1 @ bad"]) auto
qed simp

lemma stored_of_store_all:
  assumes "distinct (map fst ps)" "i < length (stored R)" "unbound R i"
  shows "stored (store_all ps R) ! i = (case map_of ps i of Some v \<Rightarrow> Some v | None \<Rightarrow> stored R ! i)"
  using assms
proof (induction ps arbitrary: R)
  case (Cons p ps)
  let ?R = "snd (store_value (fst p) (snd p) R)"
  have s: "stored ?R ! i = (if fst p = i then Some (snd p) else stored R ! i)" "length (stored ?R) = length (stored R)"
    using Cons.prems(2,3) by (auto simp: store_value_def split: option.splits prod.splits)
  have "map_of ps i = None" if "fst p = i" using Cons.prems(1) that by (force simp: map_of_eq_None_iff)
  then show ?case using Cons.IH[of ?R] Cons.prems s
    by (cases p) (auto simp: store_value_frame split: option.split)
qed simp

section \<open>The result of the command line\<close>

text \<open>The names of the pending values.\<close>

abbreviation named :: "'w options_repository \<Rightarrow> (nat \<times> option_value) list \<Rightarrow> (u8 list \<times> option_value) list" where
  "named R ps \<equiv> map (\<lambda>p. (o_name (spec_at R (fst p)), snd p)) ps"

lemma find_spec_at:
  assumes "repo_ok R" "i < length (specs (cat_of R))"
  shows "cat_find (cat_of R) (o_name (spec_at R i)) = Some i"
  using assms by (auto simp: repo_ok_def cat_ok_def cat_find_def)

lemma finish_args_ok:
  assumes "repo_ok R" "fields_ok R" "pending_ok R (pa_pending st)" "pa_errs st = []"
  shows "finish_args R cmd given st =
      (Inr \<lparr>pr_command = cmd, command_given = given, pr_inputs = pa_inputs st, pr_values = named R (pa_pending st)\<rparr>,
       store_all (pa_pending st) (R\<lparr>command_of := cmd\<rparr>)) \<and> (\<forall>p \<in> set (pa_pending st). fits R p) \<or>
    (\<exists>es. es \<noteq> [] \<and> finish_args R cmd given st = (Inl es, R)) \<and> \<not> (\<forall>p \<in> set (pa_pending st). fits R p)"
proof -
  let ?ps = "pa_pending st"
  have less: "\<forall>p \<in> set ?ps. fst p < length (specs (cat_of R))" using assms(3) by (auto simp: pending_ok_def)
  obtain bad where bad: "foldl (try_pending R) ([], world R) ?ps = (bad, world R)"
    "bad = [] \<longleftrightarrow> (\<forall>p \<in> set ?ps. fits R p)"
    using try_pending_fold[OF assms(2) less, of "[]"] by auto
  show ?thesis
  proof (cases "bad = []")
    case False
    then show ?thesis using bad assms(4) by (simp add: finish_args_def)
  next
    case True
    then have fit: "\<forall>p \<in> set ?ps. fits R p" using bad by simp
    have acc: "\<forall>p \<in> set ?ps. \<forall>b w. bindings (R\<lparr>command_of := cmd\<rparr>) ! fst p = Some b \<longrightarrow> fst (bd_write b w (snd p) True) = []"
    proof (intro ballI allI impI)
      fix p b w assume p: "p \<in> set ?ps" "bindings (R\<lparr>command_of := cmd\<rparr>) ! fst p = Some b"
      then have "option_field b (kind_of_spec (spec_at R (fst p)))" using assms(2) less by (simp add: fields_ok_def)
      moreover have "fst (bd_write b (world R) (snd p) False) = []" using fit p by (simp add: fits_def)
      ultimately show "fst (bd_write b w (snd p) True) = []" by (rule option_field.accepts)
    qed
    obtain bad2 where "foldl store_pending ([], R\<lparr>command_of := cmd\<rparr>) ?ps = (bad2, store_all ?ps (R\<lparr>command_of := cmd\<rparr>))"
      "bad2 = []"
      using store_pending_fold[of "[]" "R\<lparr>command_of := cmd\<rparr>" ?ps] acc by auto
    then show ?thesis using bad True fit assms(4) by (simp add: finish_args_def)
  qed
qed

lemma finish_args_keeps:
  assumes "repo_ok R" "pending_ok R (pa_pending st)"
  shows "repo_ok (snd (finish_args R cmd given st))"
proof -
  let ?ps = "pa_pending st"
  obtain es w where t: "foldl (try_pending R) (pa_errs st, world R) ?ps = (es, w)"
    by (cases "foldl (try_pending R) (pa_errs st, world R) ?ps")
  let ?R1 = "R\<lparr>world := w, command_of := cmd\<rparr>"
  obtain bad where s: "foldl store_pending ([], ?R1) ?ps = (bad, store_all ?ps ?R1)"
    using store_pending_fold[of "[]" ?R1 ?ps] by auto
  have "repo_ok (store_all ?ps ?R1)"
    using assms by (intro store_all_ok) (auto simp: repo_ok_def pending_ok_def)
  moreover have "repo_ok (R\<lparr>world := w\<rparr>)" using assms(1) by (simp add: repo_ok_def)
  ultimately show ?thesis using t s by (simp add: finish_args_def)
qed

text \<open>The ways \<open>parse_args\<close> ends: an error before the values are checked, or with the values.\<close>

lemma parse_args_ends:
  assumes "repo_ok R" and p: "parse_args readable args cfg R = r"
  obtains (error) es where "es \<noteq> []" "r = (Inl es, R\<lparr>cfg_of := cfg\<rparr>)"
  | (finish) cmd given st where "pending_ok R (pa_pending st)" "pa_errs st = []"
      "cmd = [] \<or> cat_command (cat_of R) cmd \<noteq> None" "r = finish_args (R\<lparr>cfg_of := cfg\<rparr>) cmd given st"
proof -
  let ?R = "R\<lparr>cfg_of := cfg\<rparr>"
  let ?st0 = "\<lparr>pa_errs = [], pa_inputs = [], pa_pending = [], pa_arg = 1\<rparr>"
  have R: "repo_ok ?R" using assms(1) by (simp add: repo_ok_def)
  have pend: "pending_ok ?R ps = pending_ok R ps" for ps by (simp add: pending_ok_def)
  obtain status st where l: "args_loop readable ?R args False (global_surface cfg) ?st0 = (status, st)"
    by (cases "args_loop readable ?R args False (global_surface cfg) ?st0")
  have "step_ok ?R False ?st0 (status, st)"
    using args_loop_ok[OF R, of ?st0 False readable args "global_surface cfg"] l by (simp add: pending_ok_def)
  then have st: "pending_ok R (pa_pending st)" "if status = 1 then pa_errs st \<noteq> [] else pa_errs st = []"
    by (auto simp: step_ok_def pend split: if_splits)
  let ?given = "status = 2"
  let ?cmd = "if ?given then args ! pa_arg st else if pa_inputs st = [] then default_command cfg
    else default_command_when_inputs cfg"
  let ?st1 = "if ?given then st\<lparr>pa_arg := pa_arg st + 1\<rparr> else st"
  have st1: "pending_ok R (pa_pending ?st1)" "pa_errs ?st1 = pa_errs st" using st by simp_all
  have fail: "pa_errs (fail_with_help ?R e s) \<noteq> []" for e s by (simp add: fail_with_help_def)
  consider (one) "status = 1"
    | (three) "status = 3" "default_command cfg = [] \<or> pa_inputs st \<noteq> [] \<and> default_command_when_inputs cfg = []"
    | (go) "status \<noteq> 1" "\<not> (status = 3 \<and> (default_command cfg = [] \<or> pa_inputs st \<noteq> [] \<and> default_command_when_inputs cfg = []))"
    by blast
  then show thesis
  proof cases
    case one
    then show thesis using error[of "pa_errs st"] p l st by (simp add: parse_args_def)
  next
    case three
    then show thesis using error[of "pa_errs (fail_with_help ?R (Err_not_found (args ! pa_arg st)) st)"] p l fail
      by (simp add: parse_args_def Let_def)
  next
    case go
    then have e1: "pa_errs ?st1 = []" using st(2) by simp
    have cR: "cat_of ?R = cat_of R" by simp
    have tl: "r = (if ?cmd = [] then finish_args ?R [] ?given ?st1
        else if cat_command (cat_of ?R) ?cmd = None then
          (Inl (pa_errs (fail_with_help ?R (Err_unknown_command ?cmd) ?st1)), ?R)
        else (case args_loop readable ?R args True ?cmd ?st1 of (status2, st2) \<Rightarrow>
          if status2 = 2 then
            (Inl (pa_errs (fail_with_help ?R (Err_second_command (args ! pa_arg st2)) st2)), ?R)
          else if status2 \<noteq> 0 then (Inl (pa_errs st2), ?R)
          else finish_args ?R ?cmd ?given st2))"
      using p by (simp only: parse_args_def Let_def l prod.case go if_False)
    show thesis
    proof (cases "?cmd = []")
      case True
      then have "r = finish_args ?R [] ?given ?st1" using tl by (simp only: simp_thms if_True)
      then show thesis using finish[of ?st1 "[]"] st1(1) e1 by blast
    next
      case cmd: False
      show thesis
      proof (cases "cat_command (cat_of R) ?cmd = None")
        case True
        then have "r = (Inl (pa_errs (fail_with_help ?R (Err_unknown_command ?cmd) ?st1)), ?R)"
          using tl cmd True by (simp only: cR simp_thms if_False if_True)
        then show thesis using error fail by blast
      next
        case known: False
        obtain status2 st2 where l2: "args_loop readable ?R args True ?cmd ?st1 = (status2, st2)"
          by (cases "args_loop readable ?R args True ?cmd ?st1")
        have "step_ok ?R True ?st1 (status2, st2)"
          using args_loop_ok[OF R, of ?st1 True readable args ?cmd] l2 st1(1) pend by metis
        then have st2: "pending_ok R (pa_pending st2)" "if status2 = 1 then pa_errs st2 \<noteq> [] else pa_errs st2 = []"
          "status2 \<noteq> 3" "status2 \<le> 3"
          using e1 by (simp_all add: step_ok_def pend split: if_splits)
        have r: "r = (if status2 = 2 then
             (Inl (pa_errs (fail_with_help ?R (Err_second_command (args ! pa_arg st2)) st2)), ?R)
           else if status2 \<noteq> 0 then (Inl (pa_errs st2), ?R)
           else finish_args ?R ?cmd ?given st2)"
          using tl cmd known l2 by (simp only: cR if_False prod.case)
        consider "status2 = 2" | "status2 = 1" | "status2 = 0" using st2(3,4) by linarith
        then show thesis
        proof cases
          case 1
          then have "r = (Inl (pa_errs (fail_with_help ?R (Err_second_command (args ! pa_arg st2)) st2)), ?R)"
            using r by (simp only: if_True simp_thms)
          then show thesis using error fail by blast
        next
          case 2
          then show thesis using error r st2 by simp
        next
          case 3
          then show thesis using finish[of st2 ?cmd] r st2 known by simp
        qed
      qed
    qed
  qed
qed

lemma parse_args_ok:
  assumes "repo_ok R" shows "repo_ok (snd (parse_args readable args cfg R))"
proof -
  have R: "repo_ok (R\<lparr>cfg_of := cfg\<rparr>)" using assms by (simp add: repo_ok_def)
  show ?thesis
  proof (cases rule: parse_args_ends[OF assms refl, of readable args cfg])
    case (1 es)
    then show ?thesis using R by simp
  next
    case (2 cmd given st)
    then show ?thesis using finish_args_keeps[OF R, of st cmd given] by (simp add: pending_ok_def)
  qed
qed

text \<open>The values a parse gives, set by name one after the other.\<close>

definition set_all :: "(u8 list \<times> option_value) list \<Rightarrow> 'w options_repository \<Rightarrow> 'w options_repository" where
  "set_all nvs R = foldl (\<lambda>R p. snd (set_value (fst p) (snd p) R)) R nvs"

lemma set_all_named:
  assumes "repo_ok R" "\<forall>p \<in> set ps. fst p < length (specs (cat_of R)) \<and> kind_of (snd p) = kind_of_spec (spec_at R (fst p))"
    "cat_of R1 = cat_of R"
  shows "set_all (named R ps) R1 = store_all ps R1"
  using assms(2,3)
proof (induction ps arbitrary: R1)
  case (Cons p ps)
  have "cat_find (cat_of R1) (o_name (spec_at R (fst p))) = Some (fst p)"
    using find_spec_at[OF assms(1)] Cons.prems by simp
  then have "snd (set_value (o_name (spec_at R (fst p))) (snd p) R1) = snd (store_value (fst p) (snd p) R1)"
    using Cons.prems by (simp add: set_value_def)
  then show ?case using Cons.IH[of "snd (store_value (fst p) (snd p) R1)"] Cons.prems
    by (simp add: set_all_def store_value_frame)
qed (simp add: set_all_def)

lemma distinct_names:
  assumes "repo_ok R" "distinct is" "\<forall>i \<in> set is. i < length (specs (cat_of R))"
  shows "distinct (map (\<lambda>i. o_name (spec_at R i)) is)"
  using assms(2,3) find_spec_at[OF assms(1)]
  by (auto simp: distinct_map intro!: inj_onI) (metis option.inject)

text \<open>What holds after a parse: the values are those of declared options, of their kinds, each once,
  and the options no field is bound to read as the values given for them.\<close>

definition given_ok :: "'w options_repository \<Rightarrow> (u8 list \<times> option_value) list \<Rightarrow> 'w options_repository \<Rightarrow> bool" where
  "given_ok R nvs R' \<longleftrightarrow> distinct (map fst nvs) \<and>
     (\<forall>(n, v) \<in> set nvs. \<exists>i. cat_find (cat_of R) n = Some i \<and> kind_of v = kind_of_spec (spec_at R i)) \<and>
     (\<forall>n i. cat_find (cat_of R) n = Some i \<and> unbound R i \<longrightarrow> stored R' ! i =
        (case map_of nvs n of Some v \<Rightarrow> Some v | None \<Rightarrow> stored R ! i))"

lemma map_of_named:
  assumes "repo_ok R" "\<forall>p \<in> set ps. fst p < length (specs (cat_of R))" "cat_find (cat_of R) n = Some i"
  shows "map_of (named R ps) n = map_of ps i"
  using assms(2)
proof (induction ps)
  case (Cons p ps)
  have "cat_find (cat_of R) (o_name (spec_at R (fst p))) = Some (fst p)"
    using find_spec_at[OF assms(1)] Cons.prems by simp
  then have "o_name (spec_at R (fst p)) = n \<longleftrightarrow> fst p = i"
    using assms(3) repo_ok_find(2)[OF assms(1,3)] by (metis option.inject)
  moreover have "map_of (named R ps) n = map_of ps i" using Cons by simp
  ultimately show ?case by (cases p) auto
qed simp

lemma parse_args_result:
  assumes "repo_ok R" "fields_ok R"
  shows "case parse_args readable args cfg R of
      (Inl es, R') \<Rightarrow> es \<noteq> [] \<and> R' = R\<lparr>cfg_of := cfg\<rparr>
    | (Inr out, R') \<Rightarrow> R' = set_all (pr_values out) (R\<lparr>cfg_of := cfg, command_of := pr_command out\<rparr>) \<and>
        given_ok R (pr_values out) R' \<and>
        (pr_command out = [] \<or> cat_command (cat_of R) (pr_command out) \<noteq> None)"
proof (cases rule: parse_args_ends[OF assms(1) refl, of readable args cfg])
  case (1 es)
  then show ?thesis by simp
next
  case finish: (2 cmd given st)
  let ?R = "R\<lparr>cfg_of := cfg\<rparr>" let ?ps = "pa_pending st"
  let ?R1 = "?R\<lparr>command_of := cmd\<rparr>"
  have R: "repo_ok ?R" "fields_ok ?R" using assms by (simp_all add: repo_ok_def fields_ok_def)
  have ps: "pending_ok ?R ?ps" using finish(1) by (simp add: pending_ok_def)
  have less: "\<forall>p \<in> set ?ps. fst p < length (specs (cat_of R)) \<and> kind_of (snd p) = kind_of_spec (spec_at R (fst p))"
    using finish(1) by (auto simp: pending_ok_def)
  have less1: "\<forall>p \<in> set ?ps. fst p < length (specs (cat_of R))" using less by blast
  from finish_args_ok[OF R ps finish(2), of cmd given] show ?thesis
  proof
    assume "(\<exists>es. es \<noteq> [] \<and> finish_args ?R cmd given st = (Inl es, ?R)) \<and> \<not> (\<forall>p \<in> set ?ps. fits ?R p)"
    then show ?thesis using finish(4) by auto
  next
    assume "finish_args ?R cmd given st = (Inr \<lparr>pr_command = cmd, command_given = given, pr_inputs = pa_inputs st,
        pr_values = named ?R ?ps\<rparr>, store_all ?ps ?R1) \<and> (\<forall>p \<in> set ?ps. fits ?R p)"
    then have r: "parse_args readable args cfg R = (Inr \<lparr>pr_command = cmd, command_given = given,
        pr_inputs = pa_inputs st, pr_values = named R ?ps\<rparr>, store_all ?ps ?R1)"
      using finish(4) by simp
    have "given_ok R (named R ?ps) (store_all ?ps ?R1)"
    proof -
      have "distinct (map (\<lambda>i. o_name (spec_at R i)) (map fst ?ps))"
        using finish(1) less by (intro distinct_names[OF assms(1)]) (auto simp: pending_ok_def)
      moreover have "stored (store_all ?ps ?R1) ! i = (case map_of (named R ?ps) n of Some v \<Rightarrow> Some v | None \<Rightarrow> stored R ! i)"
        if "cat_find (cat_of R) n = Some i" "unbound R i" for n i
        using stored_of_store_all[of ?ps i ?R1] that finish(1) map_of_named[OF assms(1) less1 that(1)]
          repo_ok_slot(2)[OF assms(1) repo_ok_find(1)[OF assms(1) that(1)]]
        by (simp add: pending_ok_def split: option.split)
      moreover have "\<exists>i. cat_find (cat_of R) (o_name (spec_at R (fst p))) = Some i \<and>
          kind_of (snd p) = kind_of_spec (spec_at R i)" if "p \<in> set ?ps" for p
        using less that find_spec_at[OF assms(1)] by blast
      ultimately show ?thesis by (auto simp: given_ok_def comp_def)
    qed
    then show ?thesis using r finish(3) set_all_named[OF assms(1) less, of ?R1] by simp
  qed
qed

end
