(* ===== verification/OptionsRun.thy ===== *)
theory OptionsRun
  imports OptionsArgs
begin

text \<open>
  The options repository as a state machine over the operations of \<open>src/src/utility/options.tmpl.h\<close>,
  and what its reachable states promise: the kinds of the values, the letters of the commands, the
  command line as a transaction and as the inverse of the printed values.
\<close>

section \<open>Reachable repositories\<close>

text \<open>Between two operations the program may change the fields (\<open>memory\<close>).\<close>

inductive repo_reach :: "'w options_repository \<Rightarrow> bool" where
  fresh: "repo_reach (new_repository w)"
| memory: "repo_reach R \<Longrightarrow> repo_reach (R\<lparr>world := w\<rparr>)"
| declared: "repo_reach R \<Longrightarrow> repo_reach (snd (declare_set ds R))"
| surface_added: "repo_reach R \<Longrightarrow> repo_reach (snd (add_surface name sf R))"
| typed_set: "repo_reach R \<Longrightarrow> repo_reach (set_typed name v R)"
| value_set: "repo_reach R \<Longrightarrow> repo_reach (snd (set_value name v R))"
| text_set: "repo_reach R \<Longrightarrow> repo_reach (snd (set_text name t R))"
| bound: "repo_reach R \<Longrightarrow> option_field b k \<Longrightarrow> repo_reach (snd (bind_at name b R))"
| unbound: "repo_reach R \<Longrightarrow> repo_reach (unbind name R)"
| owner_reset: "repo_reach R \<Longrightarrow> repo_reach (reset_owner owner R)"
| option_reset: "repo_reach R \<Longrightarrow> repo_reach (snd (reset_option name R))"
| env_loaded: "repo_reach R \<Longrightarrow> repo_reach (snd (load_env getenv pre R))"
| args_parsed: "repo_reach R \<Longrightarrow> repo_reach (snd (parse_args readable args cfg R))"

text \<open>An operation that leaves the catalog and the bindings leaves the fields in order.\<close>

definition same_fields :: "'w options_repository \<Rightarrow> 'w options_repository \<Rightarrow> bool" where
  "same_fields R R' \<longleftrightarrow> cat_of R' = cat_of R \<and> bindings R' = bindings R"

lemma same_fields_ok: "same_fields R R' \<Longrightarrow> fields_ok R \<Longrightarrow> fields_ok R'"
  by (simp add: same_fields_def fields_ok_def)

lemma same_fields_refl [simp]: "same_fields R R" "same_fields R (R\<lparr>world := w\<rparr>)" "same_fields R (R\<lparr>cfg_of := cfg\<rparr>)"
  by (simp_all add: same_fields_def)

lemma same_fields_trans: "same_fields R R' \<Longrightarrow> same_fields R' R'' \<Longrightarrow> same_fields R R''"
  by (simp add: same_fields_def)

lemma same_fields_store: "same_fields R (snd (store_value i v R))"
  by (simp add: same_fields_def store_value_frame)

lemma same_fields_reset: "same_fields R (reset_at R i)"
  by (auto simp: same_fields_def reset_at_def store_value_frame split: option.split)

lemma same_fields_fold:
  assumes "\<And>R i. same_fields R (f R i)" shows "same_fields R (foldl f R is)"
proof (induction "is" arbitrary: R)
  case (Cons i "is")
  show ?case using same_fields_trans[OF assms Cons.IH] by simp
qed simp

lemma same_fields_load_env: "same_fields R (snd (load_env getenv pre R))"
proof -
  have step: "same_fields (snd r) (snd (load_env_at getenv pre r i))" for r :: "option_error list \<times> 'w options_repository" and i
  proof (cases r)
    case (Pair es R)
    have "same_fields R (snd (store_value i v R))" for v by (rule same_fields_store)
    then show ?thesis
      by (auto simp: Pair load_env_at_def Let_def split: option.split sum.split prod.split) (metis snd_conv)
  qed
  have "same_fields (snd r) (snd (foldl (load_env_at getenv pre) r is))" for r and "is"
  proof (induction "is" arbitrary: r)
    case (Cons i "is")
    show ?case using same_fields_trans[OF step Cons.IH] by simp
  qed simp
  from this[of "([], R)"] show ?thesis by (simp add: load_env_def)
qed

lemma same_fields_finish: "same_fields R (snd (finish_args R cmd given st))"
proof -
  obtain es w where t: "foldl (try_pending R) (pa_errs st, world R) (pa_pending st) = (es, w)"
    by (cases "foldl (try_pending R) (pa_errs st, world R) (pa_pending st)")
  obtain bad where s: "foldl store_pending ([], R\<lparr>world := w, command_of := cmd\<rparr>) (pa_pending st)
      = (bad, store_all (pa_pending st) (R\<lparr>world := w, command_of := cmd\<rparr>))"
    using store_pending_fold[of "[]" "R\<lparr>world := w, command_of := cmd\<rparr>" "pa_pending st"] by auto
  show ?thesis using t s by (simp add: finish_args_def same_fields_def store_all_frame)
qed

lemma same_fields_parse_args:
  assumes "repo_ok R" shows "same_fields R (snd (parse_args readable args cfg R))"
proof (cases rule: parse_args_ends[OF assms refl, of readable args cfg])
  case (1 es)
  then show ?thesis by simp
next
  case (2 cmd given st)
  then show ?thesis
    using same_fields_trans[OF same_fields_refl(3) same_fields_finish, of R cfg cmd given st] by simp
qed

lemma fields_ok_declare:
  assumes "repo_ok R" "fields_ok R" shows "fields_ok (snd (declare_set ds R))"
proof -
  obtain es cat where c: "foldl declare_command ([], cat_of R) (set_commands ds) = (es, cat)"
    by (cases "foldl declare_command ([], cat_of R) (set_commands ds)")
  obtain es' cat' where o: "foldl declare_option (es, cat) (set_options ds) = (es', cat')"
    by (cases "foldl declare_option (es, cat) (set_options ds)")
  show ?thesis
  proof (cases "es' = []")
    case True
    from declare_options_ok[OF o[unfolded True]] obtain new where n: "es = []" "specs cat' = specs cat @ new" by blast
    from declare_commands_ok[OF c[unfolded n(1)]] have s: "specs cat' = specs (cat_of R) @ new" using n by simp
    have "length (bindings R) = length (specs (cat_of R))" using assms(1) by (simp add: repo_ok_def slots_ok_def)
    then have "resize (length (specs cat')) (bindings R) = bindings R @ replicate (length new) None"
      by (simp add: resize_def s)
    then show ?thesis using assms c o True s \<open>length (bindings R) = _\<close>
      by (auto simp: declare_set_def fields_ok_def nth_append)
  qed (use assms c o in \<open>simp add: declare_set_def\<close>)
qed

lemma nth_update_Some: "xs[i := y] ! j = Some b \<Longrightarrow> j = i \<and> y = Some b \<or> xs ! j = Some b"
  by (cases "i < length xs") (auto simp: nth_list_update list_update_beyond split: if_splits)

lemma kind_of_update: "kind_of_spec (ss[i := (ss ! i)\<lparr>o_surfaces := sfs\<rparr>] ! j) = kind_of_spec (ss ! j)"
  by (cases "i < length ss \<and> j = i") (auto simp: nth_list_update list_update_beyond split: if_splits)

lemma fields_ok_bind:
  assumes "fields_ok R" "repo_ok R" "option_field b k" shows "fields_ok (snd (bind_at name b R))"
proof (cases "cat_find (cat_of R) name")
  case None
  then show ?thesis using assms by (simp add: bind_at_def)
next
  case (Some i)
  let ?R1 = "R\<lparr>bindings := (bindings R)[i := Some b], stored := (stored R)[i := None]\<rparr>"
  show ?thesis
  proof (cases "kind_of (bd_read b (world R)) = kind_of_spec (spec_at R i)")
    case True
    then have "option_field b (kind_of_spec (spec_at R i))" using assms(3) option_field.read_kind[OF assms(3)] by metis
    then have "fields_ok ?R1"
      using assms(1) by (auto simp: fields_ok_def dest!: nth_update_Some)
    then show ?thesis using Some True same_fields_ok[OF same_fields_store, of ?R1]
      by (auto simp: bind_at_def Let_def split: option.split)
  qed (use assms Some in \<open>simp add: bind_at_def\<close>)
qed

lemma fields_ok_surface:
  assumes "fields_ok R" shows "fields_ok (snd (add_surface name sf R))"
  using assms by (auto simp: add_surface_def fields_ok_def Let_def kind_of_update split: option.split)

lemma fields_ok_unbind:
  assumes "fields_ok R" shows "fields_ok (unbind name R)"
  using assms by (auto simp: unbind_def fields_ok_def split: option.split dest!: nth_update_Some)

lemma repo_reach_ok: "repo_reach R \<Longrightarrow> repo_ok R \<and> fields_ok R"
proof (induction rule: repo_reach.induct)
  case (fresh w)
  then show ?case using new_repository_ok by (simp add: fields_ok_def new_repository_def)
next
  case (memory R w)
  then show ?case using same_fields_ok by (simp add: repo_ok_def fields_ok_def)
next
  case (declared R ds)
  then show ?case using declare_set_ok fields_ok_declare by blast
next
  case (surface_added R name sf)
  then show ?case using add_surface_ok fields_ok_surface by blast
next
  case (typed_set R name v)
  then have "same_fields R (set_typed name v R)"
    using same_fields_store by (auto simp: set_typed_def split: option.split)
  then show ?case using typed_set set_typed_ok same_fields_ok by blast
next
  case (value_set R name v)
  have "same_fields R (snd (set_value name v R))"
    using same_fields_store by (auto simp: set_value_def split: option.split)
  then show ?case using value_set set_value_ok same_fields_ok by blast
next
  case (text_set R name t)
  have "same_fields R (snd (set_text name t R))"
    using same_fields_store by (auto simp: set_text_def split: option.split sum.split)
  then show ?case using text_set set_text_ok same_fields_ok by blast
next
  case (bound R b k name)
  then show ?case using bind_at_ok option_field.field_typed fields_ok_bind by blast
next
  case (unbound R name)
  then show ?case using unbind_ok fields_ok_unbind by blast
next
  case (owner_reset R owner)
  have "same_fields R (reset_owner owner R)"
    unfolding reset_owner_def by (rule same_fields_fold) (simp add: same_fields_reset)
  then show ?case using owner_reset reset_owner_ok same_fields_ok by blast
next
  case (option_reset R name)
  have "same_fields R (snd (reset_option name R))"
    using same_fields_reset by (auto simp: reset_option_def split: option.split)
  then show ?case using option_reset reset_option_ok same_fields_ok by blast
next
  case (env_loaded R getenv pre)
  then show ?case using load_env_ok same_fields_ok[OF same_fields_load_env] by blast
next
  case (args_parsed R readable args cfg)
  then show ?case using parse_args_ok same_fields_ok[OF same_fields_parse_args] by blast
qed

section \<open>Values on the command line\<close>

text \<open>The text \<open>get_text\<close> gives for a value of an option.\<close>

definition option_text :: "option_spec \<Rightarrow> option_value \<Rightarrow> u8 list" where
  "option_text o1 v = (case v of Text s \<Rightarrow> if o_raw o1 then s else format_value v | _ \<Rightarrow> format_value v)"

lemma get_text_option_text:
  "cat_find (cat_of R) name = Some i \<Longrightarrow> get_text name R = Inr (option_text (spec_at R i) (effective R i))"
  by (simp add: get_text_def option_text_def split: option_value.split)

lemma parse_option_text:
  assumes "kind_of v = kind_of_spec o1" shows "parse_value_of o1 (option_text o1 v) = Inr v"
proof (cases "o_raw o1 \<and> kind_of_spec o1 = Kind_text")
  case True
  then show ?thesis using assms by (cases v) (simp_all add: parse_value_of_def option_text_def)
next
  case False
  then have "option_text o1 v = format_value v" using assms by (cases v) (auto simp: option_text_def)
  then show ?thesis using False assms parse_format[of v "o_name o1"] by (auto simp: parse_value_of_def)
qed

text \<open>An argument per value: \<open>--name=text\<close>.\<close>

definition spec_named :: "'w options_repository \<Rightarrow> u8 list \<Rightarrow> option_spec" where
  "spec_named R n = spec_at R (the (cat_find (cat_of R) n))"

definition render_args :: "'w options_repository \<Rightarrow> (u8 list \<times> option_value) list \<Rightarrow> u8 list list" where
  "render_args R nvs = map (\<lambda>p. [0x2d, 0x2d] @ fst p @ 0x3d # option_text (spec_named R (fst p)) (snd p)) nvs"

text \<open>A value can be given on the surface: its option is declared there, has its kind, its name has no
  \<open>=\<close>, and the field bound to it accepts the value.\<close>

definition givable :: "'w options_repository \<Rightarrow> u8 list \<Rightarrow> u8 list \<times> option_value \<Rightarrow> bool" where
  "givable R sf p \<longleftrightarrow> (case p of (n, v) \<Rightarrow> 0x3d \<notin> set n \<and>
     (case cat_find (cat_of R) n of None \<Rightarrow> False
      | Some i \<Rightarrow> kind_of v = kind_of_spec (spec_at R i) \<and>
          list_ex (\<lambda>s. sf_command s = sf) (o_surfaces (spec_at R i)) \<and> fits R (i, v)))"

lemma update_new: "i \<notin> fst ` set ps \<Longrightarrow> AList.update i v ps = ps @ [(i, v)]"
  by (induction ps) auto

lemma prefix_of_long: "option_prefix (0x2d # 0x2d # s) = Some (False, s)"
  by (simp add: option_prefix_def is_option_prefix_def starts_with_int_def isdigit_def)

lemma split_at_equals:
  assumes "(0x3d :: u8) \<notin> set n"
  shows "takeWhile (\<lambda>c. c \<noteq> 0x3d) (n @ 0x3d # t) = n" "tl (dropWhile (\<lambda>c. c \<noteq> 0x3d) (n @ 0x3d # t)) = t"
  using assms by (induction n) auto

definition no_dashed_commands :: "options_catalog \<Rightarrow> bool" where
  "no_dashed_commands cat \<longleftrightarrow> (\<forall>c \<in> set (commands cat). take 2 (c_name c) \<noteq> [0x2d, 0x2d])"

lemma no_dashed_command: "no_dashed_commands cat \<Longrightarrow> cat_command cat (0x2d # 0x2d # s) = None"
  by (auto simp: no_dashed_commands_def cat_command_def find_None_iff)

lemma process_given:
  assumes "no_dashed_commands (cat_of R)" "givable R sf (n, v)" "cat_find (cat_of R) n = Some i"
    and "args ! pa_arg st = [0x2d, 0x2d] @ n @ 0x3d # option_text (spec_at R i) v"
    and "i \<notin> fst ` set (pa_pending st)"
  shows "process readable R args h sf st = (0, st\<lparr>pa_pending := pa_pending st @ [(i, v)], pa_arg := pa_arg st + 1\<rparr>)"
proof -
  have g: "0x3d \<notin> set n" "kind_of v = kind_of_spec (spec_at R i)"
    "list_ex (\<lambda>s. sf_command s = sf) (o_surfaces (spec_at R i))"
    using assms(2,3) by (auto simp: givable_def)
  let ?t = "option_text (spec_at R i) v"
  have "find_long (cat_of R) sf n = Some i" using assms(3) g(3) by (simp add: find_long_def)
  then have "select_option R h sf False (n @ 0x3d # ?t) st = Inr (i, Some ?t, st)"
    using split_at_equals[OF g(1), of ?t] by (simp add: select_option_def)
  moreover have "take_value R args i (Some ?t) (st\<lparr>pa_arg := pa_arg st + 1\<rparr>)
      = (0, st\<lparr>pa_pending := pa_pending st @ [(i, v)], pa_arg := pa_arg st + 1\<rparr>)"
    using parse_option_text[OF g(2)] assms(5) update_new[OF assms(5), of v]
    by (auto simp: take_value_def add_text_def put_pending_def map_of_eq_None_iff split: option_value.split option.split)
      (metis map_of_eq_None_iff option.distinct(1))+
  ultimately show ?thesis
    using no_dashed_command[OF assms(1)] assms(4) prefix_of_long by (simp add: process_def)
qed

abbreviation at_index :: "'w options_repository \<Rightarrow> u8 list \<times> option_value \<Rightarrow> nat \<times> option_value" where
  "at_index R p \<equiv> (the (cat_find (cat_of R) (fst p)), snd p)"

lemma args_loop_given:
  assumes "repo_ok R" "no_dashed_commands (cat_of R)" "\<forall>p \<in> set nvs. givable R sf p" "distinct (map fst nvs)"
    and "drop (pa_arg st) args = render_args R nvs" "pa_arg st \<le> length args"
    and "\<forall>p \<in> set nvs. fst (at_index R p) \<notin> fst ` set (pa_pending st)"
  shows "args_loop readable R args h sf st = (0, st\<lparr>pa_pending := pa_pending st @ map (at_index R) nvs, pa_arg := length args\<rparr>)"
  using assms(3-7)
proof (induction nvs arbitrary: st)
  case Nil
  then show ?case by (subst args_loop.simps) (simp add: render_args_def)
next
  case (Cons p nvs)
  obtain n v where p: "p = (n, v)" by (cases p)
  obtain i where i: "cat_find (cat_of R) n = Some i"
    using Cons.prems(1) p by (auto simp: givable_def split: option.splits)
  let ?st = "st\<lparr>pa_pending := pa_pending st @ [(i, v)], pa_arg := pa_arg st + 1\<rparr>"
  have less: "pa_arg st < length args" using Cons.prems(3) by (auto simp: render_args_def intro: ccontr)
  have a: "args ! pa_arg st = [0x2d, 0x2d] @ n @ 0x3d # option_text (spec_at R i) v"
    using Cons.prems(3) less p i hd_drop_conv_nth[OF less] by (simp add: render_args_def spec_named_def)
  have "process readable R args h sf st = (0, ?st)"
    using Cons.prems(1,5) p i by (intro process_given[OF assms(2) _ i a]) auto
  then have "args_loop readable R args h sf st = args_loop readable R args h sf ?st"
    using less by (subst args_loop.simps) simp
  also have "\<dots> = (0, ?st\<lparr>pa_pending := pa_pending ?st @ map (at_index R) nvs, pa_arg := length args\<rparr>)"
  proof (rule Cons.IH)
    show "drop (pa_arg ?st) args = render_args R nvs"
      using Cons.prems(3) by (simp add: render_args_def drop_Suc[of "pa_arg st"] flip: tl_drop)
    have "the (cat_find (cat_of R) (fst q)) \<noteq> i" if q: "q \<in> set nvs" for q
    proof -
      obtain j where j: "cat_find (cat_of R) (fst q) = Some j"
        using Cons.prems(1) q by (cases q) (auto simp: givable_def split: option.splits)
      have "fst q \<noteq> n" using Cons.prems(2) q p by auto
      then have "j \<noteq> i" using repo_ok_find(2)[OF assms(1) i] repo_ok_find(2)[OF assms(1) j] by auto
      then show ?thesis using j by simp
    qed
    then show "\<forall>q \<in> set nvs. fst (at_index R q) \<notin> fst ` set (pa_pending ?st)" using Cons.prems(5) by auto
  qed (use Cons.prems less in auto)
  finally show ?case using p i by simp
qed

lemma parse_given:
  assumes "repo_ok R" "fields_ok R" "no_dashed_commands (cat_of R)"
    and "\<forall>p \<in> set nvs. givable R (global_surface cfg) p" "distinct (map fst nvs)"
    and "default_command cfg = [] \<or> cat_command (cat_of R) (default_command cfg) \<noteq> None"
  shows "parse_args readable (prog # render_args R nvs) cfg R =
    (Inr \<lparr>pr_command = default_command cfg, command_given = False, pr_inputs = [], pr_values = nvs\<rparr>,
     set_all nvs (R\<lparr>cfg_of := cfg, command_of := default_command cfg\<rparr>))"
proof -
  let ?R = "R\<lparr>cfg_of := cfg\<rparr>" let ?args = "prog # render_args R nvs"
  let ?init = "\<lparr>pa_errs = [], pa_inputs = [], pa_pending = [], pa_arg = 1\<rparr>"
  let ?ps = "map (at_index R) nvs"
  let ?st = "\<lparr>pa_errs = [], pa_inputs = [], pa_pending = ?ps, pa_arg = length ?args\<rparr>"
  have R: "repo_ok ?R" "fields_ok ?R" using assms(1,2) by (simp_all add: repo_ok_def fields_ok_def)
  have giv: "givable ?R sf p = givable R sf p" for sf p
    by (simp add: givable_def fits_def split: prod.split option.split)
  have ren: "render_args ?R nvs = render_args R nvs" by (simp add: render_args_def spec_named_def)
  have l: "args_loop readable ?R ?args False (global_surface cfg) ?init = (0, ?st)"
    using args_loop_given[OF R(1), of nvs "global_surface cfg" ?init ?args readable False] assms(3-5)
    by (simp add: giv ren)
  have at: "\<exists>i. cat_find (cat_of R) (fst p) = Some i \<and> kind_of (snd p) = kind_of_spec (spec_at R i) \<and>
      fits R (i, snd p) \<and> i < length (specs (cat_of R)) \<and> o_name (spec_at R i) = fst p" if "p \<in> set nvs" for p
  proof -
    from assms(4) that obtain i where "cat_find (cat_of R) (fst p) = Some i" "kind_of (snd p) = kind_of_spec (spec_at R i)"
      "fits R (i, snd p)"
      by (cases p) (auto simp: givable_def split: option.splits)
    then show ?thesis using repo_ok_find[OF assms(1)] by blast
  qed
  have named: "named R ?ps = nvs" unfolding map_map by (rule map_idI) (use at in fastforce)
  have ps: "\<forall>p \<in> set ?ps. fst p < length (specs (cat_of R)) \<and> kind_of (snd p) = kind_of_spec (spec_at R (fst p)) \<and> fits R p"
    using at by fastforce
  have "distinct (map fst (named R ?ps))" using assms(5) named by simp
  then have "distinct (map (\<lambda>i. o_name (spec_at R i)) (map fst ?ps))" by (simp add: comp_def)
  then have "distinct (map fst ?ps)" using distinct_map by blast
  then have pend: "pending_ok ?R (pa_pending ?st)" using ps by (auto simp: pending_ok_def)
  have fit: "\<forall>p \<in> set (pa_pending ?st). fits ?R p" using ps by (auto simp: fits_def)
  let ?cmd = "default_command cfg"
  have fin: "finish_args ?R ?cmd False ?st =
      (Inr \<lparr>pr_command = ?cmd, command_given = False, pr_inputs = [], pr_values = nvs\<rparr>,
       store_all ?ps (?R\<lparr>command_of := ?cmd\<rparr>))"
    using finish_args_ok[OF R pend, of ?cmd False] fit named by simp
  have l2: "args_loop readable ?R ?args True ?cmd ?st = (0, ?st)"
    by (subst args_loop.simps) simp
  have "parse_args readable ?args cfg R = finish_args ?R ?cmd False ?st"
    using assms(6) l l2 by (auto simp: parse_args_def Let_def)
  moreover have "set_all nvs (?R\<lparr>command_of := ?cmd\<rparr>) = store_all ?ps (?R\<lparr>command_of := ?cmd\<rparr>)"
    using set_all_named[OF assms(1), of ?ps "?R\<lparr>command_of := ?cmd\<rparr>"] ps named by simp
  ultimately show ?thesis using fin by simp
qed

section \<open>Properties\<close>

text \<open>C37: in every reachable repository an option reads as a value of its kind, on every command; a read
  with the type of the option is that value; a bound option has no stored value beside its field. Options
  and commands have different names, and a short letter names at most one option on a command. A
  repository is reached by any sequence of its operations, bindings whose fields keep the contract
  \<open>option_field\<close>, and changes of the fields by the program.\<close>

theorem repository_values_typed:
  assumes "repo_reach R"
  shows "(\<forall>name i. cat_find (cat_of R) name = Some i \<longrightarrow>
      i < length (specs (cat_of R)) \<and> o_name (spec_at R i) = name \<and>
      (\<forall>cmd. kind_of (effective_on R i cmd) = kind_of_spec (spec_at R i)) \<and>
      get_typed (kind_of_spec (spec_at R i)) name R = value_of name R \<and>
      (bindings R ! i \<noteq> None \<longrightarrow> stored R ! i = None)) \<and>
    distinct (option_names R) \<and> distinct (map c_name (commands (cat_of R))) \<and>
    (\<forall>cmd c i j. c \<noteq> 0 \<longrightarrow> find_short (cat_of R) cmd c = Some i \<longrightarrow> j < length (specs (cat_of R)) \<longrightarrow>
      list_ex (\<lambda>sf. sf_command sf = cmd \<and> sf_short_name sf = c) (o_surfaces (spec_at R j)) \<longrightarrow> j = i)"
proof -
  have ok: "repo_ok R" using repo_reach_ok[OF assms] by blast
  have "kind_of (effective R i) = kind_of_spec (spec_at R i)" if "i < length (specs (cat_of R))" for i
    unfolding effective_def using effective_kind[OF ok that] .
  moreover have "bindings R ! i \<noteq> None \<longrightarrow> stored R ! i = None" if "i < length (specs (cat_of R))" for i
    using repo_ok_slot(1)[OF ok that] by (auto simp: slot_ok_def)
  moreover have "distinct (option_names R)"
    using distinct_names[OF ok, of "[0..<length (specs (cat_of R))]"]
    by (simp add: option_names_def) (metis map_nth map_map comp_def list.map_cong0)
  moreover have "j = i" if l: "c \<noteq> 0" "find_short (cat_of R) cmd c = Some i" "j < length (specs (cat_of R))"
    "list_ex (\<lambda>sf. sf_command sf = cmd \<and> sf_short_name sf = c) (o_surfaces (spec_at R j))" for cmd c i j
  proof (rule ccontr)
    assume "j \<noteq> i"
    moreover have i: "i < length (specs (cat_of R))" by (rule find_short_less[OF l(2)])
    ultimately have "letters_apart (spec_at R i) (spec_at R j)" using ok l(3) by (auto simp: repo_ok_def cat_ok_def)
    moreover have "list_ex (\<lambda>sf. sf_command sf = cmd \<and> sf_short_name sf = c) (o_surfaces (spec_at R i))"
      using l(2) by (auto simp: find_short_def dest!: find_Some_set)
    ultimately show False using l(1,4) unfolding letters_apart_def list_ex_iff by metis
  qed
  ultimately show ?thesis using ok effective_kind[OF ok] repo_ok_find[OF ok]
    by (auto simp: get_typed_def typed_def value_of_def repo_ok_def cat_ok_def)
qed

text \<open>C35: \<open>parse_args\<close> is a transaction: with an error, which is reported, nothing but the configuration
  changes, in the repository and in the fields. Otherwise every option of the command line is given once, as
  a value of its kind; the options no field is bound to hold these values, and the others what they held;
  and the repository is the one that setting the values by name one after the other gives, under the
  command of the parse, which is declared.\<close>

theorem parse_args_all_or_nothing:
  assumes "repo_reach R"
  shows "case parse_args readable args cfg R of
      (Inl es, R') \<Rightarrow> es \<noteq> [] \<and> R' = R\<lparr>cfg_of := cfg\<rparr>
    | (Inr out, R') \<Rightarrow> R' = set_all (pr_values out) (R\<lparr>cfg_of := cfg, command_of := pr_command out\<rparr>) \<and>
        given_ok R (pr_values out) R' \<and>
        (pr_command out = [] \<or> cat_command (cat_of R) (pr_command out) \<noteq> None)"
  using repo_reach_ok[OF assms] by (intro parse_args_result) simp_all

text \<open>C36: the command line is the inverse of printing: values printed as \<open>--name=text\<close>, with the text
  \<open>get_text\<close> gives for them, are parsed back as exactly these values, in their order, and stored. The
  values are of different options of the global surface, no name has a \<open>=\<close>, no command starts with
  \<open>--\<close>, the bound fields accept their values and the default command, if there is one, is
  declared.\<close>

theorem command_line_roundtrip:
  assumes "repo_reach R" and "no_dashed_commands (cat_of R)"
    and "\<forall>p \<in> set nvs. givable R (global_surface cfg) p" and "distinct (map fst nvs)"
    and "default_command cfg = [] \<or> cat_command (cat_of R) (default_command cfg) \<noteq> None"
  shows "parse_args readable (prog # render_args R nvs) cfg R =
    (Inr \<lparr>pr_command = default_command cfg, command_given = False, pr_inputs = [], pr_values = nvs\<rparr>,
     set_all nvs (R\<lparr>cfg_of := cfg, command_of := default_command cfg\<rparr>))"
  using repo_reach_ok[OF assms(1)] by (intro parse_given assms(2-5)) auto

section \<open>A program with three options\<close>

definition demo_set :: option_set where
  "demo_set = \<lparr>set_options = [
     \<lparr>o_name = str ''all'', o_owner = [], o_fallback = Flag False, o_help = [],
       o_surfaces = [\<lparr>sf_command = [], sf_short_name = 0x61, sf_fallback = None\<rparr>], o_from_env = True, o_raw = False\<rparr>,
     \<lparr>o_name = str ''num'', o_owner = [], o_fallback = Numeric 3, o_help = [],
       o_surfaces = [\<lparr>sf_command = [], sf_short_name = 0x6e, sf_fallback = None\<rparr>], o_from_env = True, o_raw = False\<rparr>,
     \<lparr>o_name = str ''out'', o_owner = [], o_fallback = Text [], o_help = [],
       o_surfaces = [\<lparr>sf_command = [], sf_short_name = 0, sf_fallback = None\<rparr>], o_from_env = True, o_raw = False\<rparr>],
     set_commands = [\<lparr>c_name = str ''run'', c_help = []\<rparr>]\<rparr>"

definition demo_field :: "64 word option_binding" where
  "demo_field = bind_numeric id (\<lambda>x _. x) None"

definition demo :: "64 word options_repository" where
  "demo = snd (bind_at (str ''num'') demo_field (snd (declare_set demo_set (new_repository 0))))"

lemma demo_reached: "repo_reach demo"
  unfolding demo_def demo_field_def
  by (rule repo_reach.bound[OF _ numeric_field.option_field_axioms]) (intro repo_reach.declared repo_reach.fresh)

lemma demo_eq:
  "demo = \<lparr>cat_of = \<lparr>specs = set_options demo_set, index = [str ''all'' \<mapsto> 0, str ''num'' \<mapsto> 1, str ''out'' \<mapsto> 2],
       commands = set_commands demo_set\<rparr>, stored = [None, None, None], bindings = [None, Some demo_field, None],
     command_of = [], cfg_of = empty_config, world = 0\<rparr>"
  by (simp add: demo_def demo_set_def declare_set_def declare_option_def declare_command_def new_repository_def
      cat_command_def cat_find_def str_def check_surface_def short_name_holder_def resize_def bind_at_def
      demo_field_def bind_numeric_def bind_field_def Let_def fun_eq_iff)

definition demo_values :: "(u8 list \<times> option_value) list" where
  "demo_values = [(str ''num'', Numeric 7), (str ''out'', Text (str ''a '' @ [0x22]))]"

lemma demo_givable: "\<forall>p \<in> set demo_values. givable demo (global_surface empty_config) p"
  by (simp add: demo_values_def givable_def demo_eq demo_set_def cat_find_def str_def fits_def empty_config_def
      demo_field_def bind_numeric_def bind_field_def)

theorem repository_values_typed_witness:
  "get_typed Kind_numeric (str ''num'') demo = value_of (str ''num'') demo \<and>
   kind_of (effective_on demo 1 (str ''run'')) = Kind_numeric \<and> distinct (option_names demo)"
proof -
  note t = repository_values_typed[OF demo_reached]
  have c: "cat_find (cat_of demo) (str ''num'') = Some 1" and k: "kind_of_spec (spec_at demo 1) = Kind_numeric"
    by (simp_all add: demo_eq cat_find_def demo_set_def str_def)
  show ?thesis using t[THEN conjunct1, rule_format, OF c, unfolded k] t[THEN conjunct2, THEN conjunct1] by blast
qed

lemma demo_formats:
  "format_value (Numeric 7) = str ''7''"
  "format_value (Text (str ''a '' @ [0x22])) = [0x22] @ str ''a '' @ [0x5c, 0x22, 0x22]"
  by code_simp+

lemma demo_named: "spec_named demo (str ''num'') = set_options demo_set ! 1" "spec_named demo (str ''out'') = set_options demo_set ! 2"
  by (simp_all add: spec_named_def demo_eq cat_find_def str_def)

lemma demo_rendered:
  "render_args demo demo_values = [str ''--num=7'', str ''--out='' @ [0x22] @ str ''a '' @ [0x5c, 0x22, 0x22]]"
proof -
  have "option_text (set_options demo_set ! 1) (Numeric 7) = str ''7''"
    "option_text (set_options demo_set ! 2) (Text (str ''a '' @ [0x22])) = [0x22] @ str ''a '' @ [0x5c, 0x22, 0x22]"
    unfolding option_text_def option_value.case demo_formats by (simp_all add: demo_set_def)
  then have "render_args demo demo_values = [[0x2d, 0x2d] @ str ''num'' @ 0x3d # str ''7'',
      [0x2d, 0x2d] @ str ''out'' @ 0x3d # [0x22] @ str ''a '' @ [0x5c, 0x22, 0x22]]"
    unfolding render_args_def demo_values_def by (simp only: list.map prod.sel demo_named)
  then show ?thesis by (simp add: str_def)
qed

lemma demo_stored:
  "world (set_all demo_values (demo\<lparr>cfg_of := empty_config, command_of := []\<rparr>)) = 7"
  by (simp add: set_all_def demo_values_def set_value_def store_value_def demo_eq cat_find_def demo_set_def str_def
      demo_field_def bind_numeric_def bind_field_def)

theorem command_line_roundtrip_witness:
  "parse_args (\<lambda>_. False) [str ''prog'', str ''--num=7'', str ''--out='' @ [0x22] @ str ''a '' @ [0x5c, 0x22, 0x22]] empty_config demo
     = (Inr \<lparr>pr_command = [], command_given = False, pr_inputs = [], pr_values = demo_values\<rparr>,
        set_all demo_values (demo\<lparr>cfg_of := empty_config, command_of := []\<rparr>)) \<and>
   world (set_all demo_values (demo\<lparr>cfg_of := empty_config, command_of := []\<rparr>)) = 7"
proof -
  have "no_dashed_commands (cat_of demo)" by (simp add: no_dashed_commands_def demo_eq demo_set_def str_def)
  moreover have "distinct (map fst demo_values)" by (simp add: demo_values_def str_def)
  moreover have "default_command empty_config = []" by (simp add: empty_config_def)
  ultimately show ?thesis
    using command_line_roundtrip[OF demo_reached, of demo_values empty_config "\<lambda>_. False" "str ''prog''"]
      demo_givable demo_rendered demo_stored
    by simp
qed

text \<open>\<open>prog --out=b --num=x\<close>: the value of \<open>num\<close> is no number.\<close>

abbreviation demo_args :: "u8 list list" where
  "demo_args \<equiv> [str ''prog'', str ''--out=b'', str ''--num=x'']"

lemma demo_bad: "\<exists>es R'. parse_args (\<lambda>_. False) demo_args empty_config demo = (Inl es, R')"
proof -
  let ?R = "demo\<lparr>cfg_of := empty_config\<rparr>"
  let ?init = "\<lparr>pa_errs = [], pa_inputs = [], pa_pending = [], pa_arg = 1\<rparr>"
  let ?mid = "\<lparr>pa_errs = [], pa_inputs = [], pa_pending = [(2, Text (str ''b''))], pa_arg = 2\<rparr>"
  have sf: "global_surface empty_config = []" by (simp add: empty_config_def)
  have out: "cat_find (cat_of ?R) (str ''out'') = Some 2" "cat_find (cat_of ?R) (str ''num'') = Some 1"
    by (simp_all add: demo_eq cat_find_def str_def)
  have nd: "no_dashed_commands (cat_of ?R)" by (simp add: no_dashed_commands_def demo_eq demo_set_def str_def)
  have "process (\<lambda>_. False) ?R demo_args False [] ?init = (0, ?mid)"
  proof (subst process_given[OF nd _ out(1), of _ "Text (str ''b'')"])
    show "givable ?R [] (str ''out'', Text (str ''b''))"
      by (simp add: givable_def demo_eq demo_set_def cat_find_def str_def fits_def)
    have "format_value (Text (str ''b'')) = str ''b''" by code_simp
    then show "demo_args ! pa_arg ?init = [0x2d, 0x2d] @ str ''out'' @ 0x3d # option_text (spec_at ?R 2) (Text (str ''b''))"
      by (simp add: option_text_def demo_eq demo_set_def str_def)
  qed simp_all
  moreover obtain st where "process (\<lambda>_. False) ?R demo_args False [] ?mid = (1, st)"
  proof -
    have opt: "option_prefix (demo_args ! 2) = Some (False, str ''num=x'')"
      using prefix_of_long[of "str ''num=x''"] by (simp add: str_def)
    have nc: "cat_command (cat_of ?R) (demo_args ! 2) = None"
      using no_dashed_command[OF nd, of "str ''num=x''"] by (simp add: str_def)
    have "find_long (cat_of ?R) [] (str ''num'') = Some 1"
      using out(2) by (simp add: find_long_def demo_eq demo_set_def)
    then have sel: "select_option ?R False [] False (str ''num=x'') ?mid = Inr (1, Some (str ''x''), ?mid)"
      by (simp add: select_option_def str_def)
    have "parse_value Kind_numeric (str ''x'') (str ''num'') = Inl [Err_bad_value (str ''num'') (str ''x'')]" by code_simp
    then have "parse_value_of (spec_at ?R 1) (str ''x'') = Inl [Err_bad_value (str ''num'') (str ''x'')]"
      by (simp add: parse_value_of_def demo_eq demo_set_def)
    then show thesis using that opt nc sel by (simp add: process_def take_value_def add_text_def)
  qed
  ultimately have "args_loop (\<lambda>_. False) ?R demo_args False [] ?init = (1, st)"
    by (subst args_loop.simps, simp) (subst args_loop.simps, simp)
  then show ?thesis by (simp add: parse_args_def sf)
qed

theorem parse_args_all_or_nothing_witness:
  "\<exists>es. es \<noteq> [] \<and> parse_args (\<lambda>_. False) demo_args empty_config demo = (Inl es, demo\<lparr>cfg_of := empty_config\<rparr>)"
proof -
  obtain es R' where "parse_args (\<lambda>_. False) demo_args empty_config demo = (Inl es, R')" using demo_bad by blast
  then show ?thesis
    using parse_args_all_or_nothing[OF demo_reached, of empty_config "\<lambda>_. False" demo_args] by simp
qed

end
