(* ===== verification/Spec2Isabelle.thy ===== *)
theory Spec2Isabelle
  imports Utf16 Escapes ReplHistory Termination Trees Forest ForestReplace TreeReplace UnionFind TreeCount ParseError OptionsRun
begin

text \<open>
  A model of the parser library: a general Earley parser for Boolean grammars with dynamic
  productions, its character layer, and what it builds from a parse. Paths are below \<open>src/src/\<close>. The
  model is a shallow embedding: pure functions are HOL functions, a member function that changes its
  object takes and returns a record of the members, a raised error is a constructor.

  \<^bold>\<open>The parts and how they meet.\<close> A grammar is a list of productions over literals; production
  expressions are built with \<open>&\<close>, \<open>|\<close>, \<open>~\<close> and simplified to disjunctions of conjunctions, one
  production per disjunct. The input hands out terminals one position at a time, after an optional
  decoder. The recognizer keeps one set of items per position and loops over prediction, scanning and
  completion until nothing is added; conjunctions are completed when all their conjuncts are, and
  retracted when a negated one is. The items of an accepted run give each node (a literal with a span)
  its packs, the sequences of children. Two builders read the same packs: one makes a binary tree
  with a stack machine, one a forest that shares nodes. Graphs are extracted from the forest, nodes
  inlined, trees read off. When the input is not accepted, the chart that was built explains the error.
  Trees are kept in a store that never holds the same node twice, so that a reference stands for a tree;
  traversals, rewriting and a collector work on it. Below all that are conversions between encodings, and beside it the escape
  codec, the history of the read-eval-print loop and the repository of the options of a program.

  \<^bold>\<open>Theories.\<close>
  \<^item> \<open>Prelude\<close>: widths of machine integers, rules from words to natural numbers (\<open>word_nat\<close>).
  \<^item> \<open>Codec\<close>, \<open>Utf8\<close>, \<open>Utf16\<close>: \<open>utility/characters.h\<close>, \<open>characters.impl.h\<close>. The locale \<open>codec\<close> is the
    contract of a peek/emit pair; it is interpreted for UTF-8 and UTF-16. Round trips, exact acceptance,
    the offset of the first error.
  \<^item> \<open>Escapes\<close>: \<open>utility/escapes.h\<close>, \<open>escapes.tmpl.h\<close>, with every decoding error as a value.
  \<^item> \<open>ReplHistory\<close>: \<open>utility/repl_history.h\<close>; a session is a state machine over the file and the buffer.
  \<^item> \<open>Ordered\<close>: \<open>std::set\<close> and \<open>std::map\<close> as sorted lists; the locale \<open>comparator\<close> states what the
    containers ask of \<open>operator<\<close> and is interpreted at every order of the model.
  \<^item> \<open>BoolExpr\<close>, \<open>Grammar\<close>, \<open>CharClass\<close>, \<open>Dynamic\<close>: \<open>parser.h\<close>, \<open>grammar.tmpl.h\<close>: literals,
    simplification and its meaning, construction, nullables as a least fixed point, character classes
    and the productions made for them, dynamic productions with commit and rollback.
  \<^item> \<open>Input\<close>: \<open>parser.h\<close>, \<open>parser.tmpl.h\<close>, the class \<open>input\<close> over memory.
  \<^item> \<open>Chart\<close>, \<open>Earley\<close>: \<open>parser.tmpl.h\<close>, items, their bookkeeping, the loops, \<open>found\<close>, \<open>parse_run\<close>.
  \<^item> \<open>Soundness\<close>, \<open>Termination\<close>: what is accepted is derived, and the loops end, for every input.
  \<^item> \<open>Packs\<close>, \<open>Bintree\<close>, \<open>Trees\<close>, \<open>Forest\<close>: \<open>parser.tmpl.h\<close>, the packs of a node, disambiguation, the two
    builders. The stack machine refines a recursion; the tree is a derivation, in which a nonterminal is
    a leaf only where it repeats a node of its path or has no packs, and what it spells is the input; the
    forest has the same packs at every node.
  \<^item> \<open>ForestWalk\<close>, \<open>ForestGraphs\<close>, \<open>ForestCount\<close>, \<open>ForestReplace\<close>: \<open>utility/forest.h\<close>, \<open>forest.tmpl.h\<close>. The
    locale \<open>depth_first\<close> is the contract of a visitor and is interpreted for the search for cycles and
    for the count of trees.
  \<^item> \<open>Shape\<close>, \<open>TreeShape\<close>, \<open>TreeCount\<close>: \<open>parser_result.tmpl.h\<close>, \<open>get_shaped_tree2.tmpl.h\<close>, what a result makes of
    its trees: trimming and inlining in the forest and on interned trees, which agree where nothing is
    ambiguous; the count of parses under a tree.
  \<^item> \<open>ParseError\<close>: \<open>parser.tmpl.h\<close>, \<open>get_error\<close> and the text of the report: position, expected literals
    and the items that wait for them, with their derivations from the input.
  \<^item> \<open>Hashing\<close>, \<open>TreeStore\<close>, \<open>LcrsTree\<close>: \<open>utility/hashing.h\<close>, \<open>tree.h\<close>, \<open>tree.tmpl.h\<close>, \<open>tree_types.h\<close>: the
    interning store \<open>M\<close> as a list of addressed nodes with left child and right sibling, handles, the
    addresses chosen by a parameter; \<open>subtree\<close> is the abstraction, a value with the tree of its children.
    Children, insertion and removal, equality and order of subtrees.
  \<^item> \<open>TreeGc\<close>: \<open>gc\<close> and the caches; the store as a state machine, whose reachable states keep reference
    equality the same as tree equality.
  \<^item> \<open>TreeVisit\<close>: \<open>tree_traversals_pre_order.tmpl.h\<close>, \<open>tree_traversals_post_order.tmpl.h\<close>, the read-only
    traversals with their stacks as recursions, the visit of unique nodes, printing.
  \<^item> \<open>TreeMemo\<close>, \<open>TreeApply\<close>, \<open>TreeReplace\<close>: the rewriting traversals of the same files and
    \<open>tree_rewriter.tmpl.h\<close> with their memories. The locale \<open>memo_walk\<close> is what a rewriting of a store
    promises about its memory and is interpreted for the bottom-up and the top-down traversal.
  \<^item> \<open>Options\<close>, \<open>OptionsRepo\<close>, \<open>OptionsArgs\<close>, \<open>OptionsRun\<close>: \<open>utility/options_types.h\<close>,
    \<open>options_types.tmpl.h\<close>, \<open>options.h\<close>, \<open>options.tmpl.h\<close>: option values and their text forms, the repository
    (declarations, stored values, bound fields, environment), the command line and the help, and the
    repository as a state machine. The memory of the bound fields is a component of the state; the locale
    \<open>option_field\<close> is what the repository asks of a field, and is interpreted for the four types a
    field without a codec has. Values read back from their text, from the command line, and keep their
    kinds; the command line is all or nothing.
  \<^item> \<open>UnionFind\<close>: \<open>tref_union_find\<close> of \<open>tree.h\<close>, against the equivalence its unions generate.

  \<^bold>\<open>Parameters.\<close> The conversion of characters to terminals, the decoder of the input, the
  environment and the readable files of a command line, the predefined character classes (functions of the
  caller), the callbacks of dynamic productions, the hash of a forest node and the order in which an unordered
  set hands out items (\<open>dops\<close>) are parameters, and so are the allocator of the store, the hash of
  a value, and the callbacks of the traversals with the store as their state. Hypotheses on them are stated in
  the theorems that need them and hold in the witnesses.

  \<^bold>\<open>Loops and fuel.\<close> Loops that may not end are \<open>partial_function (option)\<close>; that they return is proved
  for the recognizer, the tree builder, the forest builder, the traversals of trees, the collector, the
  union-find and the count of parses. Recursions over a graph take fuel for
  their depth: more than the number of entries is enough for a traversal (\<open>detect_cycle_exact\<close>,
  \<open>count_trees_counts\<close>, \<open>shaping_returns\<close>); those over an interned tree need more than its size
  (\<open>shape_tree2_refines\<close>). Sizes and item fields are natural numbers, with \<open>SIZE_MAX\<close> and the position
  limit where the code tests them and \<open>mod\<close> where a sum can wrap; characters are words.

  \<^bold>\<open>Not modelled.\<close> Streams and file descriptors as inputs (I/O); metrics, debug printing
  and diagnostics (they only observe); the declaration of the options of a grammar and a parser in the option
  repository; the traverser over tree references (\<open>parser_tree.tmpl.h\<close>) and the edges and nodes
  for drawing; of the tree templates the Morris traversal, the pattern matchers and the rules built on them,
  the searches and selections (they are visitors of the traversals modelled here), the statistics of the hash
  buckets; the rewriter of \<open>rewriting.h\<close>, which the tree templates replace; the current option
  repository of a thread and its scopes; the languages built on the library and the tools; generated tables
  and parsers.
\<close>

end
